(* ===== verification/Prelude.thy ===== *)
theory Prelude
  imports Main "HOL-Library.Word" "HOL-Library.Multiset"
begin

text \<open>
  Shared vocabulary of the development: the machine integer types of the C sources, the
  theorem collections the component theories extend, and generic facts on lists and words
  that several components use. Nothing in this theory models a particular source file.
\<close>

unbundle bit_operations_syntax

section \<open>Machine integers\<close>

type_synonym u8 = "8 word"
type_synonym u16 = "16 word"
type_synonym u32 = "32 word"
type_synonym u64 = "64 word"

text \<open>
  C truth values: an integer is true when it is not zero. Conditions such as
  \<^verbatim>\<open>if(mode & O_READ)\<close> are written with this predicate.
\<close>

abbreviation (input) is_set :: "'a::len word \<Rightarrow> 'a word \<Rightarrow> bool" where
  "is_set w m \<equiv> w AND m \<noteq> 0"

text \<open>Collections extended by the components and used with \<^verbatim>\<open>simp add:\<close>.\<close>

named_theorems const_defs \<open>numeric constants of the headers\<close>
named_theorems frame_simps \<open>fields an operation leaves unchanged\<close>

section \<open>Lists\<close>

text \<open>\<open>update_at i f xs\<close> applies \<open>f\<close> to the element with index \<open>i\<close>, if there is one.\<close>

definition update_at :: "nat \<Rightarrow> ('a \<Rightarrow> 'a) \<Rightarrow> 'a list \<Rightarrow> 'a list" where
  "update_at i f xs = (if i < length xs then xs[i := f (xs ! i)] else xs)"

lemma length_update_at [simp]: "length (update_at i f xs) = length xs"
  by (simp add: update_at_def)

lemma nth_update_at:
  "j < length xs \<Longrightarrow> update_at i f xs ! j = (if i = j then f (xs ! j) else xs ! j)"
  by (simp add: update_at_def nth_list_update)

lemma nth_update_at_same [simp]: "i < length xs \<Longrightarrow> update_at i f xs ! i = f (xs ! i)"
  by (simp add: nth_update_at)

lemma nth_update_at_other [simp]: "i \<noteq> j \<Longrightarrow> update_at i f xs ! j = xs ! j"
  by (simp add: update_at_def)

text \<open>\<open>remove_at i xs\<close> drops the element with index \<open>i\<close> and closes the gap.\<close>

definition remove_at :: "nat \<Rightarrow> 'a list \<Rightarrow> 'a list" where
  "remove_at i xs = take i xs @ drop (Suc i) xs"

lemma length_remove_at: "i < length xs \<Longrightarrow> length (remove_at i xs) = length xs - 1"
  by (simp add: remove_at_def)

lemma mset_remove_at: "i < length xs \<Longrightarrow> mset xs = add_mset (xs ! i) (mset (remove_at i xs))"
  by (metis add_mset_add_single id_take_nth_drop mset.simps(2) mset_append remove_at_def
      union_mset_add_mset_right)

lemma mset_update_nth:
  "i < length xs \<Longrightarrow> add_mset (xs ! i) (mset (xs[i := x])) = add_mset x (mset xs)"
  by (simp add: mset_update)

text \<open>The first index whose element satisfies a predicate: the shape of most C search loops.\<close>

fun find_index :: "('a \<Rightarrow> bool) \<Rightarrow> 'a list \<Rightarrow> nat option" where
  "find_index P [] = None"
| "find_index P (x # xs) = (if P x then Some 0 else map_option Suc (find_index P xs))"

lemma find_index_None_iff: "find_index P xs = None \<longleftrightarrow> (\<forall>x \<in> set xs. \<not> P x)"
  by (induction xs) auto

lemma find_index_SomeD:
  "find_index P xs = Some i \<Longrightarrow> i < length xs \<and> P (xs ! i) \<and> (\<forall>j < i. \<not> P (xs ! j))"
proof (induction xs arbitrary: i)
  case Nil
  then show ?case by simp
next
  case (Cons x xs)
  show ?case
  proof (cases "P x")
    case True
    with Cons.prems show ?thesis by auto
  next
    case False
    with Cons.prems obtain k where k: "find_index P xs = Some k" "i = Suc k" by auto
    with Cons.IH [OF k(1)] False show ?thesis
      by (auto simp: less_Suc_eq_0_disj)
  qed
qed

lemma find_index_cong: "(\<And>x. x \<in> set xs \<Longrightarrow> P x = Q x) \<Longrightarrow> find_index P xs = find_index Q xs"
  by (induction xs) auto

section \<open>Words\<close>

lemma unat_push_bit_le:
  fixes w :: "'a::len word"
  assumes "unat w * 2 ^ n < 2 ^ LENGTH('a)"
  shows "unat (push_bit n w) = unat w * 2 ^ n"
proof -
  have "unat (push_bit n w) = take_bit LENGTH('a) (push_bit n (unat w))"
    by (simp add: unsigned_push_bit_eq)
  also have "\<dots> = unat w * 2 ^ n"
    using assms by (simp add: take_bit_nat_eq_self push_bit_eq_mult)
  finally show ?thesis .
qed

lemma unat_add_le:
  fixes a b :: "'a::len word"
  assumes "unat a + unat b < 2 ^ LENGTH('a)"
  shows "unat (a + b) = unat a + unat b"
  using assms by (simp add: unat_word_ariths)

lemma unat_sub_le:
  fixes a b :: "'a::len word"
  assumes "unat b \<le> unat a"
  shows "unat (a - b) = unat a - unat b"
  using assms by (metis unat_sub word_le_nat_alt)

lemma unat_u64_less: "unat (w :: u64) < 18446744073709551616"
proof -
  have "unat w < 2 ^ LENGTH(64)" by (rule unsigned_less)
  then show ?thesis by simp
qed

lemma u64_step_up: "p < e \<Longrightarrow> unat (p + 1) = unat p + 1" for p e :: u64
  using unat_u64_less [of e] by (simp add: word_less_nat_alt unat_word_ariths)

lemma unat_add_wrap:
  fixes a b :: u64
  assumes "2 ^ 64 \<le> unat a + unat b"
  shows "unat (a + b) + 2 ^ 64 = unat a + unat b"
proof -
  have "unat (a + b) = (unat a + unat b) mod 2 ^ 64" by (simp add: unat_word_ariths)
  also have "\<dots> = unat a + unat b - 2 ^ 64"
    using assms unat_u64_less [of a] unat_u64_less [of b] by (simp add: le_mod_geq)
  finally show ?thesis using assms by simp
qed

lemma word_eq_iff_unat: "(a = b) \<longleftrightarrow> (unat a = unat b)" for a b :: "'a::len word"
  by (rule word_unat_eq_iff)

end
