(* ===== verification/Osz_Types.thy ===== *)
theory Osz_Types
  imports Prelude
begin

text \<open>
  The constants and shared data types of the public headers under \<^verbatim>\<open>include/osZ\<close>: error codes,
  event numbers, memory layout limits, file access modes, and the message record with its
  event word encoding. Every other theory of the development builds on these.
\<close>

section \<open>Constants\<close>

subsection \<open>Error codes: include/osZ/errno.h\<close>

definition SUCCESS :: u64 where "SUCCESS = 0"
definition EPERM :: u64 where "EPERM = 1"
definition EAGAIN :: u64 where "EAGAIN = 2"
definition ESRCH :: u64 where "ESRCH = 3"
definition EFAULT :: u64 where "EFAULT = 4"
definition EINVAL :: u64 where "EINVAL = 5"
definition EBUSY :: u64 where "EBUSY = 6"
definition EACCES :: u64 where "EACCES = 7"
definition ENOMEM :: u64 where "ENOMEM = 8"
definition ENOEXEC :: u64 where "ENOEXEC = 9"
definition ERTEXEC :: u64 where "ERTEXEC = 10"
definition EEXIST :: u64 where "EEXIST = 11"
definition ENOENT :: u64 where "ENOENT = 12"
definition ENODEV :: u64 where "ENODEV = 13"
definition ENOTDIR :: u64 where "ENOTDIR = 14"
definition EISDIR :: u64 where "EISDIR = 15"
definition ENOTUNI :: u64 where "ENOTUNI = 16"
definition EISUNI :: u64 where "EISUNI = 17"
definition ENOFS :: u64 where "ENOFS = 18"
definition EBADFS :: u64 where "EBADFS = 19"
definition EROFS :: u64 where "EROFS = 20"
definition ENOSPC :: u64 where "ENOSPC = 21"
definition ENOTSUP :: u64 where "ENOTSUP = 22"
definition EIO :: u64 where "EIO = 23"
definition EPIPE :: u64 where "EPIPE = 24"
definition ESPIPE :: u64 where "ESPIPE = 25"
definition ENOTSHM :: u64 where "ENOTSHM = 26"
definition EBADF :: u64 where "EBADF = 27"
definition ENOTBIG :: u64 where "ENOTBIG = 28"
definition ENOTIMPL :: u64 where "ENOTIMPL = 29"
definition ERETRY :: u64 where "ERETRY = 254"
definition EUNKWN :: u64 where "EUNKWN = 255"

lemmas errno_defs = SUCCESS_def EPERM_def EAGAIN_def ESRCH_def EFAULT_def EINVAL_def EBUSY_def EACCES_def ENOMEM_def ENOEXEC_def ERTEXEC_def EEXIST_def ENOENT_def ENODEV_def ENOTDIR_def EISDIR_def ENOTUNI_def EISUNI_def ENOFS_def EBADFS_def EROFS_def ENOSPC_def ENOTSUP_def EIO_def EPIPE_def ESPIPE_def ENOTSHM_def EBADF_def ENOTBIG_def ENOTIMPL_def ERETRY_def EUNKWN_def

subsection \<open>Event numbers of the core service: include/osZ/bits/core.h\<close>

definition SYS_recv :: u64 where "SYS_recv = 0"
definition SYS_yield :: u64 where "SYS_yield = 1"
definition SYS_exit :: u64 where "SYS_exit = 2"
definition SYS_fork :: u64 where "SYS_fork = 3"
definition SYS_execve :: u64 where "SYS_execve = 4"
definition SYS_usleep :: u64 where "SYS_usleep = 5"
definition SYS_regirq :: u64 where "SYS_regirq = 6"
definition SYS_regtmr :: u64 where "SYS_regtmr = 7"
definition SYS_drvfind :: u64 where "SYS_drvfind = 8"
definition SYS_drvadd :: u64 where "SYS_drvadd = 9"
definition SYS_stimezone :: u64 where "SYS_stimezone = 10"
definition SYS_stimebcd :: u64 where "SYS_stimebcd = 11"
definition SYS_stime :: u64 where "SYS_stime = 12"
definition SYS_time :: u64 where "SYS_time = 13"
definition SYS_srand :: u64 where "SYS_srand = 14"
definition SYS_rand :: u64 where "SYS_rand = 15"
definition SYS_getentropy :: u64 where "SYS_getentropy = 16"
definition SYS_meminfo :: u64 where "SYS_meminfo = 17"
definition SYS_memmap :: u64 where "SYS_memmap = 18"
definition SYS_memunmap :: u64 where "SYS_memunmap = 19"
definition SYS_trace :: u64 where "SYS_trace = 20"
definition SYS_getpid :: u64 where "SYS_getpid = 21"
definition SYS_getppid :: u64 where "SYS_getppid = 22"
definition SYS_getuid :: u64 where "SYS_getuid = 23"
definition SYS_getgid :: u64 where "SYS_getgid = 24"
definition SYS_tskcpy :: u64 where "SYS_tskcpy = 25"
definition SYS_log :: u64 where "SYS_log = 26"
definition EVT_ack :: u64 where "EVT_ack = 16378"
definition SYS_dbgprintf :: u64 where "SYS_dbgprintf = 16381"
definition EVT_exit :: u64 where "EVT_exit = 16382"
definition EVT_fork :: u64 where "EVT_fork = 16383"

lemmas core_evt_defs = SYS_recv_def SYS_yield_def SYS_exit_def SYS_fork_def SYS_execve_def SYS_usleep_def SYS_regirq_def SYS_regtmr_def SYS_drvfind_def SYS_drvadd_def SYS_stimezone_def SYS_stimebcd_def SYS_stime_def SYS_time_def SYS_srand_def SYS_rand_def SYS_getentropy_def SYS_meminfo_def SYS_memmap_def SYS_memunmap_def SYS_trace_def SYS_getpid_def SYS_getppid_def SYS_getuid_def SYS_getgid_def SYS_tskcpy_def SYS_log_def EVT_ack_def SYS_dbgprintf_def EVT_exit_def EVT_fork_def

subsection \<open>Event numbers of the file system service: include/osZ/bits/fs.h\<close>

definition SYS_nomem :: u64 where "SYS_nomem = 1"
definition SYS_setblock :: u64 where "SYS_setblock = 2"
definition SYS_ackblock :: u64 where "SYS_ackblock = 3"
definition SYS_mmap :: u64 where "SYS_mmap = 4"
definition SYS_munmap :: u64 where "SYS_munmap = 5"
definition SYS_mountfs :: u64 where "SYS_mountfs = 6"
definition SYS_mount :: u64 where "SYS_mount = 7"
definition SYS_umount :: u64 where "SYS_umount = 8"
definition SYS_fsck :: u64 where "SYS_fsck = 9"
definition SYS_mknod :: u64 where "SYS_mknod = 10"
definition SYS_ioctl :: u64 where "SYS_ioctl = 11"
definition SYS_lstat :: u64 where "SYS_lstat = 12"
definition SYS_dstat :: u64 where "SYS_dstat = 13"
definition SYS_fstat :: u64 where "SYS_fstat = 14"
definition SYS_fopen :: u64 where "SYS_fopen = 15"
definition SYS_fseek :: u64 where "SYS_fseek = 16"
definition SYS_ftell :: u64 where "SYS_ftell = 17"
definition SYS_fread :: u64 where "SYS_fread = 18"
definition SYS_fwrite :: u64 where "SYS_fwrite = 19"
definition SYS_fflush :: u64 where "SYS_fflush = 20"
definition SYS_feof :: u64 where "SYS_feof = 21"
definition SYS_ferror :: u64 where "SYS_ferror = 22"
definition SYS_fclrerr :: u64 where "SYS_fclrerr = 23"
definition SYS_fclose :: u64 where "SYS_fclose = 24"
definition SYS_fcloseall :: u64 where "SYS_fcloseall = 25"
definition SYS_tmpfile :: u64 where "SYS_tmpfile = 26"
definition SYS_dup :: u64 where "SYS_dup = 27"
definition SYS_dup2 :: u64 where "SYS_dup2 = 28"
definition SYS_link :: u64 where "SYS_link = 29"
definition SYS_symlink :: u64 where "SYS_symlink = 30"
definition SYS_unlink :: u64 where "SYS_unlink = 31"
definition SYS_rename :: u64 where "SYS_rename = 32"
definition SYS_realpath :: u64 where "SYS_realpath = 33"
definition SYS_purge :: u64 where "SYS_purge = 34"
definition SYS_setattr :: u64 where "SYS_setattr = 35"
definition SYS_getattr :: u64 where "SYS_getattr = 36"
definition SYS_chroot :: u64 where "SYS_chroot = 37"
definition SYS_chdir :: u64 where "SYS_chdir = 38"
definition SYS_getcwd :: u64 where "SYS_getcwd = 39"
definition SYS_mkdir :: u64 where "SYS_mkdir = 40"
definition SYS_mkunion :: u64 where "SYS_mkunion = 41"
definition SYS_opendir :: u64 where "SYS_opendir = 42"
definition SYS_readdir :: u64 where "SYS_readdir = 43"
definition SYS_rewind :: u64 where "SYS_rewind = 44"
definition SYS_readlink :: u64 where "SYS_readlink = 45"
definition SYS_mkfifo :: u64 where "SYS_mkfifo = 46"
definition SYS_pipe :: u64 where "SYS_pipe = 47"
definition SYS_popen :: u64 where "SYS_popen = 48"
definition SYS_pclose :: u64 where "SYS_pclose = 49"
definition SYS_getty :: u64 where "SYS_getty = 50"
definition SYS_evtty :: u64 where "SYS_evtty = 51"
definition SYS_fsdump :: u64 where "SYS_fsdump = 127"

lemmas fs_evt_defs = SYS_nomem_def SYS_setblock_def SYS_ackblock_def SYS_mmap_def SYS_munmap_def SYS_mountfs_def SYS_mount_def SYS_umount_def SYS_fsck_def SYS_mknod_def SYS_ioctl_def SYS_lstat_def SYS_dstat_def SYS_fstat_def SYS_fopen_def SYS_fseek_def SYS_ftell_def SYS_fread_def SYS_fwrite_def SYS_fflush_def SYS_feof_def SYS_ferror_def SYS_fclrerr_def SYS_fclose_def SYS_fcloseall_def SYS_tmpfile_def SYS_dup_def SYS_dup2_def SYS_link_def SYS_symlink_def SYS_unlink_def SYS_rename_def SYS_realpath_def SYS_purge_def SYS_setattr_def SYS_getattr_def SYS_chroot_def SYS_chdir_def SYS_getcwd_def SYS_mkdir_def SYS_mkunion_def SYS_opendir_def SYS_readdir_def SYS_rewind_def SYS_readlink_def SYS_mkfifo_def SYS_pipe_def SYS_popen_def SYS_pclose_def SYS_getty_def SYS_evtty_def SYS_fsdump_def

subsection \<open>Event numbers of the user interface service: include/osZ/bits/ui.h\<close>

definition SYS_flush :: u64 where "SYS_flush = 12"
definition SYS_devprogress :: u64 where "SYS_devprogress = 15"
definition SYS_datapacket :: u64 where "SYS_datapacket = 82"

lemmas ui_evt_defs = SYS_flush_def SYS_devprogress_def SYS_datapacket_def

subsection \<open>Limits and the memory layout: include/osZ/limits.h\<close>

definition TCB_MAXACE :: nat where "TCB_MAXACE = 128"
definition PAGEBITS :: nat where "PAGEBITS = 12"
definition PAGESIZE :: u64 where "PAGESIZE = 4096"
definition SLOTSIZE :: u64 where "SLOTSIZE = 2097152"
definition BUFFSIZE :: u64 where "BUFFSIZE = 1048576"
definition TEXT_ADDRESS :: u64 where "TEXT_ADDRESS = 0x400000"
definition DYN_ADDRESS :: u64 where "DYN_ADDRESS = 0x100000000"
definition BUF_ADDRESS :: u64 where "BUF_ADDRESS = 0x8000000000 - DYN_ADDRESS"
definition SDYN_ADDRESS :: u64 where "SDYN_ADDRESS = 0xFFFFFF8000000000"
definition USHRT_MAX :: u64 where "USHRT_MAX = 65535"

lemmas limit_defs = TCB_MAXACE_def PAGEBITS_def PAGESIZE_def SLOTSIZE_def BUFFSIZE_def
  TEXT_ADDRESS_def DYN_ADDRESS_def BUF_ADDRESS_def SDYN_ADDRESS_def USHRT_MAX_def

subsection \<open>File access modes: include/osZ/stdio.h\<close>

definition O_READ :: u32 where "O_READ = 1"
definition O_WRITE :: u32 where "O_WRITE = 2"
definition O_EXCL :: u32 where "O_EXCL = 4"
definition O_APPEND :: u32 where "O_APPEND = 8"
definition O_CREAT :: u32 where "O_CREAT = 16"
definition O_TMPFILE :: u32 where "O_TMPFILE = 256"
definition O_FIFO :: u32 where "O_FIFO = 512"
definition O_RDONLY :: u32 where "O_RDONLY = O_READ"
definition O_WRONLY :: u32 where "O_WRONLY = O_WRITE"
definition O_RDWR :: u32 where "O_RDWR = O_READ OR O_WRITE"
definition O_AMSK :: u32 where "O_AMSK = O_READ OR O_WRITE OR O_APPEND OR O_EXCL"

lemmas mode_defs = O_READ_def O_WRITE_def O_EXCL_def O_APPEND_def O_CREAT_def O_TMPFILE_def
  O_FIFO_def O_RDONLY_def O_WRONLY_def O_RDWR_def O_AMSK_def

definition SEEK_CUR :: u8 where "SEEK_CUR = 1"
definition SEEK_END :: u8 where "SEEK_END = 2"

subsection \<open>System services: include/osZ/syscall.h\<close>

text \<open>
  Services have negative identifiers; the arrays of the core are indexed with the negated value.
  The constants keep the sign of the source, as 64 bit two's complement values.
\<close>

definition SRV_CORE :: u64 where "SRV_CORE = 0"
definition SRV_FS :: u64 where "SRV_FS = - 1"
definition SRV_UI :: u64 where "SRV_UI = - 2"
definition SRV_syslog :: u64 where "SRV_syslog = - 3"
definition SRV_inet :: u64 where "SRV_inet = - 4"
definition SRV_sound :: u64 where "SRV_sound = - 5"
definition SRV_print :: u64 where "SRV_print = - 6"
definition SRV_init :: u64 where "SRV_init = - 7"
definition NUMSRV :: nat where "NUMSRV = 8"

lemmas srv_defs = SRV_CORE_def SRV_FS_def SRV_UI_def SRV_syslog_def SRV_inet_def SRV_sound_def
  SRV_print_def SRV_init_def NUMSRV_def

subsection \<open>Messages and the event word: include/osZ/types.h\<close>

text \<open>
  \<^verbatim>\<open>uuid_t\<close> is kept as its sixteen bytes: the security code compares it bytewise and uses
  the last byte as the access mask.
\<close>

type_synonym uuid = "u8 list"

definition A_READ :: u8 where "A_READ = 1"
definition A_WRITE :: u8 where "A_WRITE = 2"
definition A_EXEC :: u8 where "A_EXEC = 4"

text \<open>
  \<^verbatim>\<open>msg_t\<close>. The two variants of the \<^verbatim>\<open>data\<close> union (\<^verbatim>\<open>scalar\<close> and \<^verbatim>\<open>buf\<close>) overlay the same six
  64 bit words, so one set of fields serves both: \<^verbatim>\<open>buf.ptr\<close> is \<open>m_arg0\<close>, \<^verbatim>\<open>buf.size\<close> is
  \<open>m_arg1\<close>, \<^verbatim>\<open>buf.type\<close> is \<open>m_arg2\<close> and \<^verbatim>\<open>attr0\<close> to \<^verbatim>\<open>attr2\<close> are \<open>m_arg3\<close> to \<open>m_arg5\<close>.
\<close>

record msg_t =
  m_evt :: u64
  m_arg0 :: u64
  m_arg1 :: u64
  m_arg2 :: u64
  m_arg3 :: u64
  m_arg4 :: u64
  m_arg5 :: u64
  m_serial :: u64

definition zero_msg :: msg_t where
  "zero_msg = \<lparr>m_evt = 0, m_arg0 = 0, m_arg1 = 0, m_arg2 = 0, m_arg3 = 0, m_arg4 = 0,
     m_arg5 = 0, m_serial = 0\<rparr>"

definition EVT_DEST :: "u64 \<Rightarrow> u64" where "EVT_DEST t = push_bit 16 t"
definition EVT_SENDER :: "u64 \<Rightarrow> u64" where "EVT_SENDER m = drop_bit 16 m"
definition EVT_FUNC :: "u64 \<Rightarrow> u64" where "EVT_FUNC m = m AND 0x3FFF"
definition MSG_PTRDATA :: u64 where "MSG_PTRDATA = 0x4000"
definition MSG_RESPONSED :: u64 where "MSG_RESPONSED = 0x8000"
definition MSG_ISPTR :: "u64 \<Rightarrow> bool" where "MSG_ISPTR m = (m AND MSG_PTRDATA \<noteq> 0)"
definition MSG_ISRESP :: "u64 \<Rightarrow> bool" where "MSG_ISRESP m = (m AND MSG_RESPONSED \<noteq> 0)"

lemmas evt_defs = EVT_DEST_def EVT_SENDER_def EVT_FUNC_def MSG_PTRDATA_def MSG_RESPONSED_def
  MSG_ISPTR_def MSG_ISRESP_def

text \<open>
  The event word packs a 48 bit task identifier above a 16 bit function field. Packing and
  unpacking agree for every identifier that fits.
\<close>

lemma EVT_SENDER_DEST:
  assumes "unat p < 2 ^ 48" and "unat f < 2 ^ 16"
  shows "EVT_SENDER (EVT_DEST p OR f) = p"
proof -
  have f: "drop_bit 16 f = 0"
    using assms(2) by (simp add: word_eq_iff_unat unat_drop_bit_eq drop_bit_eq_div unat_div)
  have "drop_bit 16 (push_bit 16 p) = p"
    using assms(1) by (simp add: word_eq_iff_unat drop_bit_eq_div unat_div unat_push_bit_le)
  with f show ?thesis by (simp add: evt_defs drop_bit_or)
qed

end
