(* ===== verification/Core_State.thy ===== *)
theory Core_State
  imports Osz_Types
begin

text \<open>
  The state of the core (\<^verbatim>\<open>src/core\<close>): task control blocks (\<^verbatim>\<open>task.h\<close>), CPU control blocks
  (\<^verbatim>\<open>x86_64/ccb.h\<close>), the message queue of a task (\<^verbatim>\<open>msg.h\<close>) and the global variables the
  memory manager, the scheduler and the message code share. A task is named by its pid, the
  number of the physical page that holds its control block, so \<open>tcbs\<close> is indexed by pid; the
  temporary mapping windows \<^verbatim>\<open>LDYN_tmpmap1\<close> to \<^verbatim>\<open>LDYN_tmpmap7\<close> are access paths to such
  pages and not state. The window \<^verbatim>\<open>LDYN_tcbalarm\<close> is state, because it stays mapped between
  calls and code keeps pointers into it: \<open>win_alarm\<close> is the pid of the page it shows.
  \<^verbatim>\<open>lockacquire\<close> and \<^verbatim>\<open>lockrelease\<close> bracket sections of one core; a section runs here as one
  sequential step.
\<close>

section \<open>Constants: task.h, core.h\<close>

definition PRI_SYS :: u8 where "PRI_SYS = 0"
definition PRI_RT :: u8 where "PRI_RT = 1"
definition PRI_DRV :: u8 where "PRI_DRV = 2"
definition PRI_SRV :: u8 where "PRI_SRV = 3"
definition PRI_APPH :: u8 where "PRI_APPH = 4"
definition PRI_APP :: u8 where "PRI_APP = 5"
definition PRI_APPL :: u8 where "PRI_APPL = 6"
definition PRI_IDLE :: u8 where "PRI_IDLE = 7"

lemmas pri_defs = PRI_SYS_def PRI_RT_def PRI_DRV_def PRI_SRV_def PRI_APPH_def PRI_APP_def
  PRI_APPL_def PRI_IDLE_def

definition TCB_STATE_HYBERND :: u8 where "TCB_STATE_HYBERND = 0"
definition TCB_STATE_BLOCKED :: u8 where "TCB_STATE_BLOCKED = 1"
definition TCB_STATE_RUNNING :: u8 where "TCB_STATE_RUNNING = 2"

lemmas tcb_state_defs = TCB_STATE_HYBERND_def TCB_STATE_BLOCKED_def TCB_STATE_RUNNING_def

definition RUNLVL_BOOT :: u8 where "RUNLVL_BOOT = 0"
definition RUNLVL_VMEM :: u8 where "RUNLVL_VMEM = 1"
definition RUNLVL_COOP :: u8 where "RUNLVL_COOP = 2"
definition RUNLVL_NORM :: u8 where "RUNLVL_NORM = 3"

lemmas runlvl_defs = RUNLVL_BOOT_def RUNLVL_VMEM_def RUNLVL_COOP_def RUNLVL_NORM_def

definition OSZ_TCB_MAGICH :: u32 where "OSZ_TCB_MAGICH = 0x4B534154"

text \<open>Page table entries and the address of the windows of a CPU (\<^verbatim>\<open>vmm.h\<close>).\<close>

definition LDYN_ADDRESS :: u64 where "LDYN_ADDRESS = 0xffffffff80000000"
definition vmm_phyaddr :: "u64 \<Rightarrow> u64" where "vmm_phyaddr x = x AND 0x00FFFFFFFFFFF000"
definition vmm_ispresent :: "u64 \<Rightarrow> bool" where "vmm_ispresent p \<longleftrightarrow> p AND 1 \<noteq> 0"

section \<open>Records\<close>

text \<open>\<^verbatim>\<open>tcb_t\<close>, the architecture independent part of a task control block.\<close>

record tcb_t =
  tcb_magic :: u32
  tcb_priority :: u8
  tcb_state :: u8
  tcb_flags :: u8
  tcb_forklevel :: u8
  tcb_cpuid :: u32
  tcb_cmdline :: u32
  tcb_memroot :: u64
  tcb_taskmemroot :: u64
  tcb_linkmem :: u64
  tcb_allocmem :: u64
  tcb_elfbin :: u64
  tcb_pid :: u64
  tcb_parent :: u64
  tcb_prev :: u64
  tcb_next :: u64
  tcb_blksend :: u64
  tcb_blktime :: u64
  tcb_blkcnt :: u64
  tcb_alarmusec :: u64
  tcb_swapid :: u64
  tcb_tracebuf :: u64
  tcb_owner :: uuid
  tcb_acl :: "uuid list"

text \<open>
  The software part of \<^verbatim>\<open>ccb_t\<close>; the fields before \<^verbatim>\<open>id\<close> are the hardware task state segment.
  The eight priority queues are functions of the priority.
\<close>

record ccb_t =
  ccb_id :: u32
  ccb_flags :: u8
  ccb_hasactivetask :: bool
  ccb_core_errno :: u64
  ccb_current :: u64
  ccb_hd_timerq :: u64
  ccb_hd_blocked :: u64
  ccb_hd_active :: "nat \<Rightarrow> u64"
  ccb_cr_active :: "nat \<Rightarrow> u64"
  ccb_sched_ticks :: u64
  ccb_sched_delta :: u64
  ccb_numtasks :: u64

text \<open>\<^verbatim>\<open>pmm_entry_t\<close>: a run of free physical pages, \<^verbatim>\<open>size\<close> counted in pages.\<close>

record pmm_entry_t =
  pe_base :: u64
  pe_size :: u64

text \<open>
  The message queue of a task: the header \<^verbatim>\<open>msghdr_t\<close> at the start of its second page and the
  message slots behind it. Slot \<open>k\<close> is the message at offset \<open>64 * k\<close> of that page and the
  two behind it; slot 0 is the place of the header and holds no message.
\<close>

record msghdr_t =
  mq_start :: u64
  mq_end :: u64
  mq_serial :: u64
  mq_total :: u64
  mq_bufstart :: u64
  mq_bufend :: u64
  mq_slots :: "nat \<Rightarrow> msg_t"

text \<open>
  A \<^verbatim>\<open>tcb_t\<close> pointer is a mapping of some task's page: of a fixed pid, the alarm window, or
  the idle task's static block.
\<close>

datatype tcbptr = TCB u64 | TCBAlarm | TCBIdle

text \<open>
  The global state. \<open>ptes s p v\<close> is the page table entry of task \<open>p\<close> for the virtual page \<open>v\<close>
  (the walk through the upper levels of its tables is not part of the state), and \<open>umem s p\<close>
  is what the task sees in its own memory, by virtual address.
\<close>

record kstate =
  runlevel :: u8
  services :: "nat \<Rightarrow> u64"
  numcores :: u32
  srand :: "nat \<Rightarrow> u64"
  quantum :: u64
  dmabuf :: u64
  systable_dma :: u64
  drvmem :: "pmm_entry_t list"
  clock_freq :: u64
  clock_step :: u64
  clock_cnt :: u64
  clock_ts :: u64
  clock_ns :: u64
  clock_ticks :: u64
  clock_pids :: u64
  clock_tz :: u16
  pmm_entries :: "pmm_entry_t list"
  pmm_totalpages :: u64
  pmm_freepages :: u64
  phymem :: "u64 \<Rightarrow> u8"
  tcbs :: "u64 \<Rightarrow> tcb_t"
  idle_tcb :: tcb_t
  ccbs :: "u32 \<Rightarrow> ccb_t"
  this_cpu :: u32
  win_alarm :: u64
  space :: tcbptr
  in_trace :: bool
  mqs :: "u64 \<Rightarrow> msghdr_t"
  ptes :: "u64 \<Rightarrow> u64 \<Rightarrow> u64"
  umem :: "u64 \<Rightarrow> u64 \<Rightarrow> u8"
  intr_next :: "u64 option"
  sched_irq_on :: bool
  awakened :: "u32 list"
  irq_table :: "u16 \<Rightarrow> (u64 list) option"
  irq_max :: u16
  sched_irq :: u16
  clock_irq :: u16
  irq_enabled :: "u16 \<Rightarrow> bool"
  task_nextcpu :: u32
  drvs :: "u8 list"

text \<open>A call of \<^verbatim>\<open>kpanic\<close> stops the machine; every other run returns a value.\<close>

datatype 'a outcome = KPanic string | Done 'a

text \<open>Zeroed memory, the state the core starts from before anything is set up.\<close>

definition zero_tcb :: tcb_t where
  "zero_tcb = \<lparr>tcb_magic = 0, tcb_priority = 0, tcb_state = 0, tcb_flags = 0, tcb_forklevel = 0,
     tcb_cpuid = 0, tcb_cmdline = 0, tcb_memroot = 0, tcb_taskmemroot = 0, tcb_linkmem = 0,
     tcb_allocmem = 0, tcb_elfbin = 0, tcb_pid = 0, tcb_parent = 0, tcb_prev = 0, tcb_next = 0,
     tcb_blksend = 0, tcb_blktime = 0, tcb_blkcnt = 0, tcb_alarmusec = 0, tcb_swapid = 0,
     tcb_tracebuf = 0, tcb_owner = replicate 16 0, tcb_acl = replicate 128 (replicate 16 0)\<rparr>"

definition zero_ccb :: ccb_t where
  "zero_ccb = \<lparr>ccb_id = 0, ccb_flags = 0, ccb_hasactivetask = False, ccb_core_errno = 0,
     ccb_current = 0, ccb_hd_timerq = 0, ccb_hd_blocked = 0, ccb_hd_active = (\<lambda>_. 0),
     ccb_cr_active = (\<lambda>_. 0), ccb_sched_ticks = 0, ccb_sched_delta = 0, ccb_numtasks = 0\<rparr>"

definition zero_mq :: msghdr_t where
  "zero_mq = \<lparr>mq_start = 0, mq_end = 0, mq_serial = 0, mq_total = 0, mq_bufstart = 0,
     mq_bufend = 0, mq_slots = (\<lambda>_. zero_msg)\<rparr>"

definition zero_kstate :: kstate where
  "zero_kstate = \<lparr>runlevel = 0, services = (\<lambda>_. 0), numcores = 0, srand = (\<lambda>_. 0), quantum = 0,
     dmabuf = 0, systable_dma = 0, drvmem = [], clock_freq = 0, clock_step = 0, clock_cnt = 0,
     clock_ts = 0, clock_ns = 0, clock_ticks = 0, clock_pids = 0, clock_tz = 0,
     pmm_entries = [], pmm_totalpages = 0, pmm_freepages = 0, phymem = (\<lambda>_. 0),
     tcbs = (\<lambda>_. zero_tcb), idle_tcb = zero_tcb, ccbs = (\<lambda>_. zero_ccb), this_cpu = 0,
     win_alarm = 0, space = TCBIdle, in_trace = False, mqs = (\<lambda>_. zero_mq), ptes = (\<lambda>_ _. 0),
     umem = (\<lambda>_ _. 0), intr_next = None,
     sched_irq_on = False, awakened = [], irq_table = (\<lambda>_. None), irq_max = 0, sched_irq = - 1,
     clock_irq = - 1, irq_enabled = (\<lambda>_. False), task_nextcpu = 0, drvs = []\<rparr>"

section \<open>Access to control blocks\<close>

definition get_tcb :: "tcbptr \<Rightarrow> kstate \<Rightarrow> tcb_t" where
  "get_tcb p s = (case p of TCB i \<Rightarrow> tcbs s i | TCBAlarm \<Rightarrow> tcbs s (win_alarm s)
     | TCBIdle \<Rightarrow> idle_tcb s)"

definition upd_tcb :: "tcbptr \<Rightarrow> (tcb_t \<Rightarrow> tcb_t) \<Rightarrow> kstate \<Rightarrow> kstate" where
  "upd_tcb p f s = (case p of
       TCB i \<Rightarrow> s\<lparr>tcbs := (tcbs s)(i := f (tcbs s i))\<rparr>
     | TCBAlarm \<Rightarrow> s\<lparr>tcbs := (tcbs s)(win_alarm s := f (tcbs s (win_alarm s)))\<rparr>
     | TCBIdle \<Rightarrow> s\<lparr>idle_tcb := f (idle_tcb s)\<rparr>)"

definition upd_ccb :: "u32 \<Rightarrow> (ccb_t \<Rightarrow> ccb_t) \<Rightarrow> kstate \<Rightarrow> kstate" where
  "upd_ccb c f s = s\<lparr>ccbs := (ccbs s)(c := f (ccbs s c))\<rparr>"

text \<open>\<^verbatim>\<open>seterr\<close> of \<^verbatim>\<open>core/libc.c\<close>: the error code of the running core.\<close>

definition seterr :: "u64 \<Rightarrow> kstate \<Rightarrow> kstate" where
  "seterr e s = upd_ccb (this_cpu s) (\<lambda>c. c\<lparr>ccb_core_errno := e\<rparr>) s"

definition core_errno :: "kstate \<Rightarrow> u64" where
  "core_errno s = ccb_core_errno (ccbs s (this_cpu s))"

lemma core_errno_seterr [simp]: "core_errno (seterr e s) = e"
  by (simp add: core_errno_def seterr_def upd_ccb_def)

text \<open>
  The generator \<^verbatim>\<open>srand[4]\<close>: \<open>srand_at i f\<close> is the update of \<^verbatim>\<open>srand[i & 3]\<close>, and
  \<open>kentropy\<close> of \<^verbatim>\<open>core/libc.c\<close> follows the source statement by statement.
\<close>

definition srand_at :: "u64 \<Rightarrow> (u64 \<Rightarrow> u64) \<Rightarrow> (nat \<Rightarrow> u64) \<Rightarrow> (nat \<Rightarrow> u64)" where
  "srand_at i f r = r(unat (i AND 3) := f (r (unat (i AND 3))))"

definition kentropy_mix :: "u64 \<Rightarrow> u64 \<Rightarrow> (nat \<Rightarrow> u64) \<Rightarrow> (nat \<Rightarrow> u64)" where
  "kentropy_mix ts ns r0 = (
     let r = srand_at 3 (\<lambda>x. x XOR ts) r0;
         r = srand_at (ts + ns) (\<lambda>x. x * 16807) r;
         r = srand_at (drop_bit 16 (r 0)) (\<lambda>x. x * 16807) r;
         r = srand_at (r 0) (push_bit 1) r;
         r = srand_at (drop_bit 8 (r 0)) (drop_bit 1) r;
         r = srand_at (r 1) (\<lambda>x. x XOR r (unat (r 2 AND 3))) r;
         r = srand_at (r 3) (\<lambda>x. x * 16807) r;
         r = srand_at 0 (\<lambda>x. x XOR r 1) r;
         r = srand_at 1 (\<lambda>x. x XOR r 2) r;
         r = srand_at 2 (\<lambda>x. x XOR r 3) r
     in srand_at 3 (\<lambda>x. x XOR r 0) r)"

definition kentropy :: "kstate \<Rightarrow> kstate" where
  "kentropy s = s\<lparr>srand := kentropy_mix (clock_ts s) (clock_ns s) (srand s)\<rparr>"

lemma unat_and_3: "unat (w AND 3 :: u64) < 4"
proof -
  have "w AND 3 = take_bit 2 w" by (simp add: take_bit_eq_mask mask_eq_exp_minus_1)
  then show ?thesis
    by (simp add: unsigned_take_bit_eq take_bit_nat_less_exp [of 2, simplified])
qed

text \<open>The generator is only ever indexed inside its four words.\<close>

lemma srand_at_outside: "4 \<le> j \<Longrightarrow> srand_at i f r j = r j"
  using unat_and_3 [of i] by (simp add: srand_at_def)

lemma kentropy_mix_outside: "4 \<le> j \<Longrightarrow> kentropy_mix ts ns r j = r j"
  by (simp add: kentropy_mix_def Let_def srand_at_outside)

end
