(* ===== verification/Core_Pmm.thy ===== *)
theory Core_Pmm
  imports Core_State
begin

text \<open>
  The physical memory manager, \<^verbatim>\<open>src/core/pmm.c\<close>: a list of free page runs
  (\<^verbatim>\<open>pmm_entries\<close>, \<^verbatim>\<open>pmm_size\<close> is its length), first-fit allocation of pages, allocation of
  an aligned 2M slot, and freeing with coalescing. The list is related to the multiset of
  free page numbers; a list is well formed when that multiset has no duplicates.
\<close>

section \<open>Helpers\<close>

text \<open>\<^verbatim>\<open>memset(b, 0, n)\<close> on physical memory, and the page by page variant.\<close>

definition zero_range :: "u64 \<Rightarrow> nat \<Rightarrow> (u64 \<Rightarrow> u8) \<Rightarrow> (u64 \<Rightarrow> u8)" where
  "zero_range b n m = (\<lambda>a. if unat (a - b) < n then 0 else m a)"

fun zero_pages :: "nat \<Rightarrow> u64 \<Rightarrow> (u64 \<Rightarrow> u8) \<Rightarrow> (u64 \<Rightarrow> u8)" where
  "zero_pages 0 p m = m"
| "zero_pages (Suc n) p m = zero_pages n (p + PAGESIZE) (zero_range p (unat PAGESIZE) m)"

text \<open>The entropy update done with the base address of a chosen entry.\<close>

definition pmm_entropy :: "u64 \<Rightarrow> kstate \<Rightarrow> kstate" where
  "pmm_entropy base s = kentropy (s\<lparr>srand :=
     srand_at (drop_bit 12 base) (\<lambda>x. x * 16807)
       (srand_at (drop_bit 12 base) (\<lambda>x. x XOR drop_bit 12 base) (srand s))\<rparr>)"

text \<open>End address of an entry, as the source computes it (wrapping).\<close>

definition pe_end :: "pmm_entry_t \<Rightarrow> u64" where
  "pe_end e = pe_base e + push_bit PAGEBITS (pe_size e)"

section \<open>pmm_alloc\<close>

text \<open>
  The search loop: the first entry that is large enough gives its lowest pages; when it is
  used up the following entries move down by one.
\<close>

fun pmm_take :: "u64 \<Rightarrow> pmm_entry_t list \<Rightarrow> (u64 \<times> pmm_entry_t list) option" where
  "pmm_take pages [] = None"
| "pmm_take pages (e # es) =
    (if pages \<le> pe_size e then
       let e' = e\<lparr>pe_base := pe_base e + push_bit PAGEBITS pages, pe_size := pe_size e - pages\<rparr>
       in Some (pe_base e, if pe_size e' = 0 then es else e' # es)
     else map_option (\<lambda>(b, es'). (b, e # es')) (pmm_take pages es))"

definition pmm_alloc :: "tcbptr \<Rightarrow> u64 \<Rightarrow> kstate \<Rightarrow> (u64 \<times> kstate) outcome" where
  "pmm_alloc tcb pages s = (
     if pmm_freepages s > pmm_totalpages s then KPanic ''pmm_alloc: freepages > totalpages''
     else if tcb_magic (get_tcb tcb s) \<noteq> OSZ_TCB_MAGICH \<or> pages = 0 then Done (0, s)
     else
       let (b, s1) = (case pmm_take pages (pmm_entries s) of
                        None \<Rightarrow> (0, s)
                      | Some (b, es) \<Rightarrow> (b, (pmm_entropy b s)\<lparr>pmm_entries := es\<rparr>))
       in if b \<noteq> 0 then
            let s2 = upd_tcb tcb (\<lambda>t. t\<lparr>tcb_allocmem := tcb_allocmem t + pages\<rparr>)
                       (s1\<lparr>pmm_freepages := pmm_freepages s1 - pages\<rparr>)
            in Done (b, if runlevel s2 < RUNLVL_VMEM
                        then s2\<lparr>phymem := zero_range b (unat (push_bit PAGEBITS pages)) (phymem s2)\<rparr>
                        else s2\<lparr>phymem := zero_pages (unat pages) b (phymem s2)\<rparr>)
          else if runlevel s1 < RUNLVL_NORM then KPanic ''pmm_alloc: out of ram''
          else Done (0, seterr ENOMEM s1))"

section \<open>pmm_allocslot\<close>

text \<open>
  The search loop of \<^verbatim>\<open>pmm_allocslot\<close>. When the aligned address is not the start of the entry,
  the entry is doubled (the shifting loop), the first copy keeps the pages below the slot and
  the second copy the pages above it. When nothing is left above, the removal loop starts at
  index \<^verbatim>\<open>i\<close>, which by then is the index of the first copy: it is the first copy that
  disappears and the empty second copy that stays.
\<close>

fun slot_take :: "pmm_entry_t list \<Rightarrow> (u64 \<times> u64 \<times> pmm_entry_t list) option" where
  "slot_take [] = None"
| "slot_take (e # es) =
    (let b = ((pe_base e + SLOTSIZE - 1) div SLOTSIZE) * SLOTSIZE in
     if b + SLOTSIZE \<le> pe_end e then
       if b \<noteq> pe_base e then
         let s = drop_bit PAGEBITS (b - pe_base e);
             left = e\<lparr>pe_size := s\<rparr>;
             right = e\<lparr>pe_base := b + SLOTSIZE, pe_size := pe_size e - (s + SLOTSIZE div PAGESIZE)\<rparr>
         in Some (b, pe_base e, if pe_size right = 0 then right # es else left # right # es)
       else
         let right = e\<lparr>pe_base := b + SLOTSIZE, pe_size := pe_size e - (0 + SLOTSIZE div PAGESIZE)\<rparr>
         in Some (b, pe_base e, if pe_size right = 0 then es else right # es)
     else map_option (\<lambda>(b, p, es'). (b, p, e # es')) (slot_take es))"

definition pmm_allocslot :: "tcbptr \<Rightarrow> kstate \<Rightarrow> (u64 \<times> kstate) outcome" where
  "pmm_allocslot tcb s = (
     if tcb_magic (get_tcb tcb s) \<noteq> OSZ_TCB_MAGICH then Done (0, s)
     else case slot_take (pmm_entries s) of
       Some (b, base, es) \<Rightarrow>
         let s1 = (pmm_entropy base s)\<lparr>pmm_entries := es\<rparr>;
             s2 = upd_tcb tcb (\<lambda>t. t\<lparr>tcb_allocmem := tcb_allocmem t + SLOTSIZE div PAGESIZE\<rparr>)
                    (s1\<lparr>pmm_freepages := pmm_freepages s1 - SLOTSIZE div PAGESIZE\<rparr>)
         in Done (b, s2\<lparr>phymem := zero_range b (unat SLOTSIZE) (phymem s2)\<rparr>)
     | None \<Rightarrow>
         if runlevel s < RUNLVL_NORM then KPanic ''pmm_allocslot: out of ram''
         else Done (0, seterr ENOMEM s))"

section \<open>pmm_free\<close>

text \<open>
  The list part of \<^verbatim>\<open>pmm_free\<close>. The first loop looks for an entry the freed run touches
  (\<^verbatim>\<open>addregion\<close>: the run ends where the entry starts, \<^verbatim>\<open>addregion2\<close>: the entry ends where the
  run starts); \<^verbatim>\<open>sz\<close> is the byte length computed at function entry.
\<close>

definition free_insert :: "u64 \<Rightarrow> u64 \<Rightarrow> u64 \<Rightarrow> pmm_entry_t list \<Rightarrow> nat \<times> pmm_entry_t list" where
  "free_insert base pages sz es = (
     case find_index (\<lambda>e. pe_base e = base + sz \<or> pe_end e = base) es of
       None \<Rightarrow> (length es, es @ [\<lparr>pe_base = base, pe_size = pages\<rparr>])
     | Some i \<Rightarrow>
         if pe_base (es ! i) = base + sz
         then (i, es[i := (es ! i)\<lparr>pe_base := base, pe_size := pe_size (es ! i) + pages\<rparr>])
         else (i, es[i := (es ! i)\<lparr>pe_size := pe_size (es ! i) + pages\<rparr>]))"

text \<open>The second loop: entry \<open>i\<close> absorbs the first entry it touches.\<close>

definition free_merge :: "nat \<Rightarrow> pmm_entry_t list \<Rightarrow> pmm_entry_t list" where
  "free_merge i es = (
     case find_index (\<lambda>e. pe_end (es ! i) = pe_base e \<or> pe_base (es ! i) = pe_end e) es of
       None \<Rightarrow> es
     | Some j \<Rightarrow>
         let ei = (if pe_end (es ! i) = pe_base (es ! j) then es ! i
                   else (es ! i)\<lparr>pe_base := pe_base (es ! j)\<rparr>)
         in remove_at j (es[i := ei\<lparr>pe_size := pe_size ei + pe_size (es ! j)\<rparr>]))"

definition pmm_free :: "tcbptr \<Rightarrow> u64 \<Rightarrow> u64 \<Rightarrow> kstate \<Rightarrow> kstate outcome" where
  "pmm_free tcb base0 pages0 s = (
     let sz = push_bit PAGEBITS pages0;
         (base, pages) = (if base0 = 0 \<and> pages0 > 0 then (base0 + PAGESIZE, pages0 - 1)
                          else (base0, pages0))
     in if tcb_magic (get_tcb tcb s) \<noteq> OSZ_TCB_MAGICH \<or> pages = 0 then Done s
        else
          let s1 = kentropy (s\<lparr>srand := srand_at (pages + 2) (\<lambda>x. x + base)
                                 (srand_at pages (\<lambda>x. x - base) (srand s))\<rparr>);
              (i, es) = free_insert base pages sz (pmm_entries s1);
              s2 = s1\<lparr>pmm_entries := free_merge i es, pmm_freepages := pmm_freepages s1 + pages\<rparr>;
              s3 = upd_tcb tcb (\<lambda>t. t\<lparr>tcb_allocmem := tcb_allocmem t - pages\<rparr>) s2
          in if pmm_freepages s3 > pmm_totalpages s3
             then KPanic ''pmm_free: freepages > totalpages'' else Done s3)"

section \<open>pmm_init\<close>

text \<open>
  An entry of the loader's memory map (\<^verbatim>\<open>MMapEnt\<close> of \<^verbatim>\<open>bootboot.h\<close>): the low four bits of the
  size word are the type, 1 is free memory.
\<close>

record MMapEnt =
  mm_ptr :: u64
  mm_size :: u64

definition MMapEnt_Size :: "MMapEnt \<Rightarrow> u64" where "MMapEnt_Size a = mm_size a AND NOT 0xF"
definition MMapEnt_IsFree :: "MMapEnt \<Rightarrow> bool" where "MMapEnt_IsFree a = (mm_size a AND 0xF = 1)"

text \<open>The page alignment of a free region.\<close>

definition mm_align :: "u64 \<Rightarrow> u64 \<Rightarrow> u64 \<times> u64" where
  "mm_align ptr siz = (
     if ptr AND (PAGESIZE - 1) \<noteq> 0
     then ((ptr + PAGESIZE - 1) AND NOT (PAGESIZE - 1),
           siz - ((PAGESIZE - (ptr AND (PAGESIZE - 1))) AND 0xFFFFFFFFFFFFF0))
     else (ptr, siz))"

text \<open>
  What the loop does with a free region once it is aligned: the first large enough one gives
  a page to the list itself (\<open>lst\<close> is the address of the list, None before), then the DMA
  buffer is taken, then the rest becomes an entry. The result is the list address, the DMA
  address, the driver mappings and the new entry.
\<close>

definition mm_add_free :: "u64 \<Rightarrow> u64 \<Rightarrow> u64 \<Rightarrow> u64 option \<times> u64 \<times> pmm_entry_t list
    \<Rightarrow> (u64 option \<times> u64 \<times> pmm_entry_t list) \<times> pmm_entry_t list" where
  "mm_add_free dmab ptr siz st = (
     case st of (lst, dma, drv) \<Rightarrow>
     if siz < PAGESIZE then (st, [])
     else
       let (lst, ptr, siz) = (if lst = None then (Some ptr, ptr + PAGESIZE, siz - PAGESIZE)
                              else (lst, ptr, siz))
       in if siz < PAGESIZE then ((lst, dma, drv), [])
          else
            let dlen = push_bit PAGEBITS dmab in
            if dmab \<noteq> 0 \<and> dma = 0 \<and> siz \<ge> dlen then
              let st' = (lst, ptr, drv @ [\<lparr>pe_base = ptr, pe_size = dlen\<rparr>]);
                  ptr' = ptr + dlen; siz' = siz - dlen
              in if siz' < PAGESIZE then (st', [])
                 else (st', [\<lparr>pe_base = ptr', pe_size = drop_bit PAGEBITS siz'\<rparr>])
            else ((lst, dma, drv), [\<lparr>pe_base = ptr, pe_size = drop_bit PAGEBITS siz\<rparr>]))"

text \<open>
  One round of the loop over the map; \<open>dt\<close> stands for the sum of the date bytes mixed into
  the generator, \<open>m\<close> is the highest end of a free region.
\<close>

definition mm_step :: "u64 \<Rightarrow> MMapEnt \<Rightarrow> u64 \<times> u64 \<times> u64 option \<times> kstate
    \<Rightarrow> u64 \<times> u64 \<times> u64 option \<times> kstate" where
  "mm_step dt a st = (
     case st of (i, m, lst, s) \<Rightarrow>
     let r = srand_at i (\<lambda>x. x + 1) (srand s);
         r = srand_at (i + 2) (\<lambda>x. x XOR mm_size a) r;
         r = srand_at (drop_bit PAGEBITS (mm_ptr a) + mm_size a + dt) (\<lambda>x. x * 16807) r;
         s = kentropy (s\<lparr>srand := r\<rparr>);
         e = mm_ptr a + MMapEnt_Size a
     in if MMapEnt_IsFree a then
          let m = (if e > m then e else m);
              (ptr, siz) = mm_align (mm_ptr a) (MMapEnt_Size a);
              ((lst, dma, drv), new) = mm_add_free (dmabuf s) ptr siz (lst, systable_dma s, drvmem s)
          in (i + 1, m, lst, s\<lparr>systable_dma := dma, drvmem := drv, pmm_entries := pmm_entries s @ new,
                pmm_totalpages := pmm_totalpages s + sum_list (map pe_size new)\<rparr>)
        else (i + 1, m, lst, s\<lparr>drvmem := drvmem s @ [\<lparr>pe_base = mm_ptr a, pe_size = MMapEnt_Size a\<rparr>]\<rparr>))"

definition PHYMEM_MIN :: u64 where "PHYMEM_MIN = 32"

definition pmm_init :: "u64 \<Rightarrow> MMapEnt list \<Rightarrow> kstate \<Rightarrow> kstate outcome" where
  "pmm_init dt mmap s0 = (
     let s = s0\<lparr>pmm_entries := [], pmm_totalpages := 0, systable_dma := 0, drvmem := []\<rparr>;
         (n, m, lst, s) = fold (mm_step dt) mmap (0, 0, None, s);
         s = s\<lparr>pmm_freepages := pmm_totalpages s\<rparr>
     in if m div 1024 div 1024 < PHYMEM_MIN - 1 then KPanic ''not enough memory''
        else if dmabuf s \<noteq> 0 \<and> (systable_dma s = 0 \<or>
               systable_dma s + push_bit PAGEBITS (dmabuf s) \<ge> 16 * 1024 * 1024)
        then KPanic ''no dma memory''
        else Done (s\<lparr>idle_tcb := (idle_tcb s)\<lparr>tcb_magic := OSZ_TCB_MAGICH, tcb_allocmem := 0,
                      tcb_linkmem := 0\<rparr>\<rparr>))"

section \<open>The free pages of a list\<close>

text \<open>
  \<open>page_run b n\<close> is the run of \<open>n\<close> page numbers that starts at address \<open>b\<close>, and
  \<open>free_pages es\<close> the multiset of all pages the entries offer.
\<close>

definition page_run :: "u64 \<Rightarrow> u64 \<Rightarrow> nat multiset" where
  "page_run b n = mset_set {unat b div 4096 ..< unat b div 4096 + unat n}"

definition free_pages :: "pmm_entry_t list \<Rightarrow> nat multiset" where
  "free_pages es = sum_list (map (\<lambda>e. page_run (pe_base e) (pe_size e)) es)"

definition valid_run :: "u64 \<Rightarrow> u64 \<Rightarrow> bool" where
  "valid_run b n \<longleftrightarrow> b \<noteq> 0 \<and> 0 < unat n \<and> 4096 dvd unat b \<and> unat b + unat n * 4096 < 2 ^ 64"

definition wf_entries :: "pmm_entry_t list \<Rightarrow> bool" where
  "wf_entries es \<longleftrightarrow> (\<forall>e \<in> set es. valid_run (pe_base e) (pe_size e)) \<and>
     (\<forall>p. count (free_pages es) p \<le> 1)"

definition pmm_inv :: "kstate \<Rightarrow> bool" where
  "pmm_inv s \<longleftrightarrow> wf_entries (pmm_entries s) \<and>
     unat (pmm_freepages s) = size (free_pages (pmm_entries s)) \<and>
     pmm_freepages s \<le> pmm_totalpages s"

lemma free_pages_simps [simp]:
  "free_pages [] = {#}"
  "free_pages (e # es) = page_run (pe_base e) (pe_size e) + free_pages es"
  "free_pages (es @ fs) = free_pages es + free_pages fs"
  by (simp_all add: free_pages_def)

lemma size_page_run [simp]: "size (page_run b n) = unat n"
  by (simp add: page_run_def)

lemma count_page_run: "count (page_run b n) p =
    (if unat b div 4096 \<le> p \<and> p < unat b div 4096 + unat n then 1 else 0)"
  by (simp add: page_run_def)

lemma page_run_empty_iff [simp]: "page_run b n = {#} \<longleftrightarrow> n = 0"
  by (metis size_page_run size_eq_0_iff_empty unat_eq_zero)

lemma free_pages_mset: "mset es = mset fs \<Longrightarrow> free_pages es = free_pages fs"
  by (simp add: free_pages_def flip: sum_mset_sum_list)

text \<open>Runs compose: an aligned run splits at any of its pages.\<close>

lemma shift_pages:
  assumes "unat n * 4096 < 2 ^ 64"
  shows "unat (push_bit PAGEBITS n :: u64) = unat n * 4096"
  using unat_push_bit_le [of n 12] assms by (simp add: PAGEBITS_def)

lemma run_end:
  fixes b n :: u64
  assumes "unat b + unat n * 4096 < 2 ^ 64"
  shows "unat (b + push_bit PAGEBITS n) = unat b + unat n * 4096"
proof -
  have "unat (push_bit PAGEBITS n) = unat n * 4096" using assms by (intro shift_pages) simp
  then show ?thesis using assms by (subst unat_add_le) simp_all
qed

lemma page_run_split:
  assumes "unat b + (unat m + unat n) * 4096 < 2 ^ 64" and "4096 dvd unat b"
  shows "page_run b m + page_run (b + push_bit PAGEBITS m) n = page_run b (m + n)"
proof -
  have e: "unat (b + push_bit PAGEBITS m) = unat b + unat m * 4096"
    using assms(1) by (intro run_end) (simp add: algebra_simps)
  have s: "unat (m + n) = unat m + unat n"
    using assms(1) by (intro unat_add_le) simp
  from assms(2) obtain k where "unat b = 4096 * k" by (elim dvdE)
  then show ?thesis
    by (intro multiset_eqI) (auto simp: count_page_run e s)
qed

lemma valid_run_split:
  assumes "valid_run b n" and "unat m < unat n"
  shows "valid_run (b + push_bit PAGEBITS m) (n - m)"
    and "0 < unat m \<Longrightarrow> valid_run b m"
    and "page_run b m + page_run (b + push_bit PAGEBITS m) (n - m) = page_run b n"
proof -
  have d: "unat (n - m) = unat n - unat m" using assms(2) by (intro unat_sub_le) simp
  have e: "unat (b + push_bit PAGEBITS m) = unat b + unat m * 4096"
    using assms by (intro run_end) (auto simp: valid_run_def)
  show "valid_run (b + push_bit PAGEBITS m) (n - m)"
    using assms d e by (auto simp: valid_run_def word_eq_iff_unat algebra_simps diff_mult_distrib2)
  show "0 < unat m \<Longrightarrow> valid_run b m"
    using assms by (auto simp: valid_run_def)
  show "page_run b m + page_run (b + push_bit PAGEBITS m) (n - m) = page_run b n"
    using page_run_split [of b m "n - m"] assms d by (simp add: valid_run_def)
qed

section \<open>Allocation\<close>

lemma pmm_take_None_iff: "pmm_take n es = None \<longleftrightarrow> (\<forall>e \<in> set es. pe_size e < n)"
  by (induction es) (auto simp: Let_def not_le)

lemma pmm_take_spec:
  assumes "pmm_take n es = Some (b, es')" and "n \<noteq> 0"
    and "\<forall>e \<in> set es. valid_run (pe_base e) (pe_size e)"
  shows "free_pages es = page_run b n + free_pages es' \<and> valid_run b n \<and>
         (\<forall>e \<in> set es'. valid_run (pe_base e) (pe_size e))"
  using assms
proof (induction es arbitrary: b es')
  case Nil
  then show ?case by simp
next
  case (Cons e es)
  show ?case
  proof (cases "n \<le> pe_size e")
    case False
    with Cons.prems obtain fs where fs: "pmm_take n es = Some (b, fs)" "es' = e # fs"
      by (auto simp: Let_def)
    with Cons.IH [OF fs(1)] Cons.prems show ?thesis
      by (auto simp: add.left_commute)
  next
    case True
    note fit = this
    have v: "valid_run (pe_base e) (pe_size e)" using Cons.prems by simp
    show ?thesis
    proof (cases "pe_size e = n")
      case True
      with Cons.prems v show ?thesis by (auto simp: Let_def)
    next
      case False
      with fit have lt: "unat n < unat (pe_size e)"
        by (simp add: word_le_nat_alt word_eq_iff_unat)
      have nz: "pe_size e - n \<noteq> 0" using False by simp
      have "0 < unat n" using Cons.prems(2) by (simp add: word_eq_iff_unat)
      with valid_run_split [OF v lt] Cons.prems fit nz show ?thesis
        by (auto simp: Let_def)
    qed
  qed
qed

text \<open>First fit: the entries before the chosen one are too small.\<close>

lemma pmm_take_first_fit:
  assumes "pmm_take n es = Some (b, es')"
  shows "\<exists>i < length es. b = pe_base (es ! i) \<and> n \<le> pe_size (es ! i) \<and> (\<forall>j < i. pe_size (es ! j) < n)"
  using assms
proof (induction es arbitrary: b es')
  case Nil
  then show ?case by simp
next
  case (Cons e es)
  show ?case
  proof (cases "n \<le> pe_size e")
    case True
    with Cons.prems show ?thesis by (intro exI [of _ 0]) (auto simp: Let_def)
  next
    case False
    with Cons.prems obtain fs where "pmm_take n es = Some (b, fs)" by (auto simp: Let_def)
    from Cons.IH [OF this] obtain i where "i < length es" "b = pe_base (es ! i)"
      "n \<le> pe_size (es ! i)" "\<forall>j < i. pe_size (es ! j) < n" by blast
    with False show ?thesis by (intro exI [of _ "Suc i"]) (auto simp: less_Suc_eq_0_disj not_le)
  qed
qed

lemma wf_entries_sub:
  assumes "wf_entries es" and "free_pages es = A + free_pages es'"
    and "\<forall>e \<in> set es'. valid_run (pe_base e) (pe_size e)"
  shows "wf_entries es'"
  unfolding wf_entries_def
proof (intro conjI allI assms(3))
  fix p
  have "count (free_pages es') p \<le> count (free_pages es) p" using assms(2) by simp
  also have "\<dots> \<le> 1" using assms(1) by (simp add: wf_entries_def)
  finally show "count (free_pages es') p \<le> 1" .
qed

text \<open>
  Clearing page by page, as done once the kernel has virtual memory, clears the same bytes
  as the single \<^verbatim>\<open>memset\<close> of the early boot phase.
\<close>

lemma zero_pages_eq:
  assumes "unat p + n * 4096 < 2 ^ 64"
  shows "zero_pages n p m = zero_range p (n * 4096) m"
  using assms
proof (induction n arbitrary: p m)
  case 0
  then show ?case by (simp add: zero_range_def)
next
  case (Suc n)
  have u: "unat (p + PAGESIZE) = unat p + 4096"
    using Suc.prems by (simp add: PAGESIZE_def unat_add_le)
  then have IH: "zero_pages n (p + PAGESIZE) m' = zero_range (p + PAGESIZE) (n * 4096) m'" for m'
    using Suc.prems by (intro Suc.IH) simp
  have "(unat (a - (p + PAGESIZE)) < n * 4096 \<or> unat (a - p) < 4096) = (unat (a - p) < Suc n * 4096)"
    for a
  proof -
    have d: "a - p = (a - (p + PAGESIZE)) + PAGESIZE" by simp
    show ?thesis
    proof (cases "unat (a - (p + PAGESIZE)) + 4096 < 2 ^ 64")
      case True
      then have "unat (a - p) = unat (a - (p + PAGESIZE)) + 4096"
        by (subst d, subst unat_add_le) (simp_all add: PAGESIZE_def)
      then show ?thesis by simp
    next
      case False
      then have w: "unat (a - p) + 2 ^ 64 = unat (a - (p + PAGESIZE)) + 4096"
        by (subst d, subst unat_add_wrap) (simp_all add: PAGESIZE_def)
      have "unat (a - (p + PAGESIZE)) < 2 ^ 64" using unat_u64_less by simp
      with w have "unat (a - p) < 4096" by linarith
      then show ?thesis by simp
    qed
  qed
  then show ?case
    by (simp add: IH) (auto simp: zero_range_def PAGESIZE_def fun_eq_iff)
qed

lemma zero_range_cleared:
  assumes "unat b \<le> unat a" and "unat a < unat b + n"
  shows "zero_range b n m a = 0"
  using assms by (auto simp: zero_range_def unat_sub_le)

lemma zero_range_outside:
  assumes "unat a < unat b \<or> unat b + n \<le> unat a" and "unat b + n < 2 ^ 64"
  shows "zero_range b n m a = m a"
proof (cases "unat a < unat b")
  case True
  have "unat (a - b) = 2 ^ 64 + unat a - unat b"
    using True by (simp add: unat_sub_if_size word_size)
  with True assms(2) unat_u64_less [of b] show ?thesis by (auto simp: zero_range_def)
next
  case False
  with assms(1) show ?thesis by (auto simp: zero_range_def unat_sub_le)
qed

lemma upd_tcb_frame [frame_simps]:
  "pmm_entries (upd_tcb p f s) = pmm_entries s"
  "pmm_freepages (upd_tcb p f s) = pmm_freepages s"
  "pmm_totalpages (upd_tcb p f s) = pmm_totalpages s"
  "runlevel (upd_tcb p f s) = runlevel s"
  "phymem (upd_tcb p f s) = phymem s"
  "ccbs (upd_tcb p f s) = ccbs s"
  "this_cpu (upd_tcb p f s) = this_cpu s"
  by (simp_all add: upd_tcb_def split: tcbptr.split)

lemma seterr_frame [frame_simps]:
  "pmm_entries (seterr e s) = pmm_entries s"
  "pmm_freepages (seterr e s) = pmm_freepages s"
  "pmm_totalpages (seterr e s) = pmm_totalpages s"
  "tcbs (seterr e s) = tcbs s"
  by (simp_all add: seterr_def upd_ccb_def)

lemma pmm_entropy_frame [frame_simps]:
  "pmm_entries (pmm_entropy b s) = pmm_entries s"
  "pmm_freepages (pmm_entropy b s) = pmm_freepages s"
  "pmm_totalpages (pmm_entropy b s) = pmm_totalpages s"
  "runlevel (pmm_entropy b s) = runlevel s"
  "phymem (pmm_entropy b s) = phymem s"
  "get_tcb p (pmm_entropy b s) = get_tcb p s"
  by (simp_all add: pmm_entropy_def kentropy_def get_tcb_def split: tcbptr.split)

lemma get_upd_tcb_same [simp]: "get_tcb p (upd_tcb p f s) = f (get_tcb p s)"
  by (simp add: get_tcb_def upd_tcb_def split: tcbptr.split)

lemma get_tcb_cong:
  "tcbs s = tcbs t \<Longrightarrow> win_alarm s = win_alarm t \<Longrightarrow> idle_tcb s = idle_tcb t \<Longrightarrow> get_tcb p s = get_tcb p t"
  by (simp add: get_tcb_def split: tcbptr.split)

text \<open>Taking a run off the free multiset keeps the accounting invariant.\<close>

lemma pmm_inv_take:
  assumes "pmm_inv s" and "free_pages (pmm_entries s) = A + free_pages es"
    and "size A = unat n"
    and "\<forall>e \<in> set es. valid_run (pe_base e) (pe_size e)"
    and "pmm_entries s' = es" and "pmm_freepages s' = pmm_freepages s - n"
    and "pmm_totalpages s' = pmm_totalpages s"
  shows "pmm_inv s'"
proof -
  have "unat (pmm_freepages s) = unat n + size (free_pages es)"
    using assms(1-3) by (simp add: pmm_inv_def)
  then have "unat (pmm_freepages s - n) = size (free_pages es)" by (subst unat_sub_le) simp_all
  moreover from this have "pmm_freepages s - n \<le> pmm_totalpages s"
    using assms(1-3) by (simp add: pmm_inv_def word_le_nat_alt)
  ultimately show ?thesis
    using assms wf_entries_sub [of "pmm_entries s" A es] by (simp add: pmm_inv_def)
qed

lemma pmm_alloc_Some:
  assumes inv: "pmm_inv s" and mg: "tcb_magic (get_tcb p s) = OSZ_TCB_MAGICH" and n: "n \<noteq> 0"
    and t: "pmm_take n (pmm_entries s) = Some (b, es)"
  shows "\<exists>s'. pmm_alloc p n s = Done (b, s') \<and> valid_run b n \<and>
      free_pages (pmm_entries s) = page_run b n + free_pages (pmm_entries s') \<and> pmm_inv s' \<and>
      phymem s' = zero_range b (unat n * 4096) (phymem s) \<and>
      pmm_totalpages s' = pmm_totalpages s \<and> runlevel s' = runlevel s \<and>
      get_tcb p s' = (get_tcb p s)\<lparr>tcb_allocmem := tcb_allocmem (get_tcb p s) + n\<rparr>"
proof -
  have wf: "\<forall>e \<in> set (pmm_entries s). valid_run (pe_base e) (pe_size e)"
    using inv by (simp add: pmm_inv_def wf_entries_def)
  note spec = pmm_take_spec [OF t n wf]
  define s1 where "s1 = upd_tcb p (\<lambda>x. x\<lparr>tcb_allocmem := tcb_allocmem x + n\<rparr>)
      ((pmm_entropy b s)\<lparr>pmm_entries := es, pmm_freepages := pmm_freepages s - n\<rparr>)"
  have b: "b \<noteq> 0" using spec by (simp add: valid_run_def)
  have bound: "unat b + unat n * 4096 < 2 ^ 64" using spec by (simp add: valid_run_def)
  have z: "zero_pages (unat n) b m = zero_range b (unat n * 4096) m" for m
    using bound by (rule zero_pages_eq)
  have l: "unat (push_bit PAGEBITS n) = unat n * 4096" using bound by (intro shift_pages) simp
  have r: "pmm_alloc p n s = Done (b, s1\<lparr>phymem := zero_range b (unat n * 4096) (phymem s)\<rparr>)"
    using inv mg n t b
    by (simp add: pmm_alloc_def pmm_inv_def not_less Let_def s1_def frame_simps z l)
  have fr: "pmm_entries s1 = es" "pmm_freepages s1 = pmm_freepages s - n"
    "pmm_totalpages s1 = pmm_totalpages s" "runlevel s1 = runlevel s"
    by (simp_all add: s1_def frame_simps)
  have g: "get_tcb p s1 = (get_tcb p s)\<lparr>tcb_allocmem := tcb_allocmem (get_tcb p s) + n\<rparr>"
  proof -
    have "get_tcb p ((pmm_entropy b s)\<lparr>pmm_entries := es, pmm_freepages := pmm_freepages s - n\<rparr>) = get_tcb p s"
      using pmm_entropy_frame(6) [of p b s] by (simp add: get_tcb_def split: tcbptr.splits)
    then show ?thesis by (simp add: s1_def)
  qed
  have "pmm_inv (s1\<lparr>phymem := zero_range b (unat n * 4096) (phymem s)\<rparr>)"
    by (rule pmm_inv_take [OF inv, of "page_run b n" es n]) (use spec fr in simp_all)
  with r spec fr g show ?thesis by (simp add: get_tcb_def split: tcbptr.splits)
qed

lemma pmm_alloc_None:
  assumes "pmm_inv s" and "tcb_magic (get_tcb p s) = OSZ_TCB_MAGICH" and "n \<noteq> 0"
    and "pmm_take n (pmm_entries s) = None"
  shows "pmm_alloc p n s = (if runlevel s < RUNLVL_NORM then KPanic ''pmm_alloc: out of ram''
           else Done (0, seterr ENOMEM s))"
  using assms by (auto simp: pmm_alloc_def pmm_inv_def not_less [symmetric])

section \<open>Freeing\<close>

lemma run_join:
  assumes "valid_run b m" and "valid_run (b + push_bit PAGEBITS m) n"
  shows "valid_run b (m + n)" and "page_run b m + page_run (b + push_bit PAGEBITS m) n = page_run b (m + n)"
proof -
  have e: "unat (b + push_bit PAGEBITS m) = unat b + unat m * 4096"
    using assms(1) by (intro run_end) (simp add: valid_run_def)
  with assms(2) have bound: "unat b + (unat m + unat n) * 4096 < 2 ^ 64"
    by (simp add: valid_run_def algebra_simps)
  then have s: "unat (m + n) = unat m + unat n" by (intro unat_add_le) simp
  show "valid_run b (m + n)" using assms(1) bound s by (simp add: valid_run_def)
  show "page_run b m + page_run (b + push_bit PAGEBITS m) n = page_run b (m + n)"
    using bound assms(1) by (intro page_run_split) (simp_all add: valid_run_def)
qed

lemma free_pages_update:
  assumes "i < length es"
  shows "page_run (pe_base (es ! i)) (pe_size (es ! i)) + free_pages (es[i := x]) =
         page_run (pe_base x) (pe_size x) + free_pages es"
proof -
  have "free_pages (es ! i # es[i := x]) = free_pages (x # es)"
    using assms by (intro free_pages_mset) (simp add: mset_update_nth)
  then show ?thesis by simp
qed

lemma free_pages_remove:
  assumes "i < length es"
  shows "free_pages es = page_run (pe_base (es ! i)) (pe_size (es ! i)) + free_pages (remove_at i es)"
proof -
  have "free_pages es = free_pages (es ! i # remove_at i es)"
    using assms by (intro free_pages_mset) (simp add: mset_remove_at)
  then show ?thesis by simp
qed

text \<open>Replacing an entry by one that offers the additional run \<open>A\<close>.\<close>

lemma free_pages_grow:
  assumes "i < length es"
    and "page_run (pe_base x) (pe_size x) = page_run (pe_base (es ! i)) (pe_size (es ! i)) + A"
  shows "free_pages (es[i := x]) = free_pages es + A"
  using free_pages_update [OF assms(1), of x] assms(2) by (simp add: ac_simps)

lemma free_insert_spec:
  assumes wf: "\<forall>e \<in> set es. valid_run (pe_base e) (pe_size e)" and run: "valid_run base pages"
    and r: "free_insert base pages (push_bit PAGEBITS pages) es = (i, es')"
  shows "i < length es' \<and> (\<forall>e \<in> set es'. valid_run (pe_base e) (pe_size e)) \<and>
         free_pages es' = free_pages es + page_run base pages"
proof (cases "find_index (\<lambda>e. pe_base e = base + push_bit PAGEBITS pages \<or> pe_end e = base) es")
  case None
  with r wf run show ?thesis by (auto simp: free_insert_def)
next
  case (Some k)
  then have k: "k < length es" "pe_base (es ! k) = base + push_bit PAGEBITS pages \<or> pe_end (es ! k) = base"
    using find_index_SomeD by fastforce+
  define e where "e = es ! k"
  have v: "valid_run (pe_base e) (pe_size e)" using wf k by (simp add: e_def)
  have main: "\<exists>x. (i, es') = (k, es[k := x]) \<and> valid_run (pe_base x) (pe_size x) \<and>
      page_run (pe_base x) (pe_size x) = page_run (pe_base e) (pe_size e) + page_run base pages"
  proof (cases "pe_base e = base + push_bit PAGEBITS pages")
    case True
    with v have v': "valid_run (base + push_bit PAGEBITS pages) (pe_size e)" by simp
    from run_join [OF run v'] True r Some show ?thesis
      by (intro exI [of _ "e\<lparr>pe_base := base, pe_size := pe_size e + pages\<rparr>"])
        (auto simp: free_insert_def e_def add.commute)
  next
    case False
    with k have b: "base = pe_base e + push_bit PAGEBITS (pe_size e)" by (simp add: e_def pe_end_def)
    with run have v': "valid_run (pe_base e + push_bit PAGEBITS (pe_size e)) pages" by simp
    from run_join [OF v v'] False b r Some show ?thesis
      by (intro exI [of _ "e\<lparr>pe_size := pe_size e + pages\<rparr>"])
        (auto simp: free_insert_def e_def)
  qed
  then obtain x where x: "i = k" "es' = es[k := x]" "valid_run (pe_base x) (pe_size x)"
    "page_run (pe_base x) (pe_size x) = page_run (pe_base e) (pe_size e) + page_run base pages" by blast
  have "free_pages es' = free_pages es + page_run base pages"
    using k x by (simp add: e_def free_pages_grow)
  with x k wf show ?thesis
    by (auto dest!: set_update_subset_insert [THEN subsetD])
qed

lemma run_end_not_start:
  assumes "valid_run b n"
  shows "b + push_bit PAGEBITS n \<noteq> b"
proof
  assume eq: "b + push_bit PAGEBITS n = b"
  have "unat (b + push_bit PAGEBITS n) = unat b + unat n * 4096"
    using assms by (intro run_end) (simp add: valid_run_def)
  with eq assms show False by (simp add: valid_run_def)
qed

lemma free_merge_spec:
  assumes wf: "\<forall>e \<in> set es. valid_run (pe_base e) (pe_size e)" and i: "i < length es"
  shows "(\<forall>e \<in> set (free_merge i es). valid_run (pe_base e) (pe_size e)) \<and>
         free_pages (free_merge i es) = free_pages es"
proof (cases "find_index (\<lambda>e. pe_end (es ! i) = pe_base e \<or> pe_base (es ! i) = pe_end e) es")
  case None
  with wf show ?thesis by (simp add: free_merge_def)
next
  case (Some j)
  then have j: "j < length es" "pe_end (es ! i) = pe_base (es ! j) \<or> pe_base (es ! i) = pe_end (es ! j)"
    using find_index_SomeD by fastforce+
  define a b where "a = es ! i" and "b = es ! j"
  have va: "valid_run (pe_base a) (pe_size a)" and vb: "valid_run (pe_base b) (pe_size b)"
    using wf i j by (simp_all add: a_def b_def)
  have ne: "i \<noteq> j"
    using j(2) run_end_not_start [OF va] by (auto simp: a_def pe_end_def)
  define x where "x = (if pe_end a = pe_base b then a\<lparr>pe_size := pe_size a + pe_size b\<rparr>
      else a\<lparr>pe_base := pe_base b, pe_size := pe_size a + pe_size b\<rparr>)"
  have m: "free_merge i es = remove_at j (es[i := x])"
    using Some by (simp add: free_merge_def Let_def x_def a_def b_def)
  have x: "valid_run (pe_base x) (pe_size x) \<and> page_run (pe_base x) (pe_size x) =
      page_run (pe_base a) (pe_size a) + page_run (pe_base b) (pe_size b)"
  proof (cases "pe_end a = pe_base b")
    case True
    then have e: "pe_base b = pe_base a + push_bit PAGEBITS (pe_size a)" by (simp add: pe_end_def)
    from run_join [OF va, of "pe_size b"] vb True e show ?thesis by (simp add: x_def)
  next
    case False
    then have e: "pe_base a = pe_base b + push_bit PAGEBITS (pe_size b)"
      using j(2) by (simp add: a_def b_def pe_end_def)
    from run_join [OF vb, of "pe_size a"] va False e show ?thesis by (simp add: x_def add.commute)
  qed
  have "free_pages (es[i := x]) = free_pages es + page_run (pe_base b) (pe_size b)"
    using i x by (intro free_pages_grow) (simp_all add: a_def)
  moreover have "free_pages (es[i := x]) =
      page_run (pe_base b) (pe_size b) + free_pages (remove_at j (es[i := x]))"
    using j ne free_pages_remove [of j "es[i := x]"] by (simp add: b_def)
  ultimately have "free_pages (free_merge i es) = free_pages es" by (simp add: m add.commute)
  moreover have "set (free_merge i es) \<subseteq> insert x (set es)"
    unfolding m remove_at_def
    by (metis Un_subset_iff set_append set_drop_subset set_take_subset set_update_subset_insert subset_trans)
  ultimately show ?thesis using x wf by auto
qed

text \<open>A list in which no free run ends where another one starts.\<close>

definition compact :: "pmm_entry_t list \<Rightarrow> bool" where
  "compact es \<longleftrightarrow> (\<forall>e \<in> set es. \<forall>f \<in> set es. pe_end e \<noteq> pe_base f)"

lemma push_bit_sum: "push_bit n (a + b) = push_bit n a + push_bit n b" for a b :: u64
  by (rule push_bit_add)

lemma set_remove_at_update:
  assumes "e \<in> set (remove_at j (es[i := x]))"
  shows "e = x \<or> (\<exists>a < length es. a \<noteq> i \<and> a \<noteq> j \<and> e = es ! a)"
proof -
  obtain a where a: "a < length (remove_at j (es[i := x]))" "e = remove_at j (es[i := x]) ! a"
    using assms by (auto simp: in_set_conv_nth)
  define b where "b = (if a < j then a else Suc a)"
  have "b < length es" "b \<noteq> j" "e = es[i := x] ! b"
    using a by (auto simp: b_def remove_at_def nth_append min_def split: if_splits)
  then show ?thesis by (cases "b = i") auto
qed

lemma free_insert_cases:
  assumes "free_insert base pages sz es = (i, es')" and "sz = push_bit PAGEBITS pages"
  obtains (new) x where "i = length es" "es' = es @ [x]" "pe_base x = base" "pe_end x = base + sz"
      "\<forall>e \<in> set es. pe_base e \<noteq> base + sz \<and> pe_end e \<noteq> base"
  | (right) x where "i < length es" "es' = es[i := x]" "pe_base (es ! i) = base + sz" "pe_base x = base"
      "pe_end x = pe_end (es ! i)"
  | (left) x where "i < length es" "es' = es[i := x]" "pe_end (es ! i) = base" "pe_base x = pe_base (es ! i)"
      "pe_end x = base + sz"
proof (cases "find_index (\<lambda>e. pe_base e = base + sz \<or> pe_end e = base) es")
  case None
  have "free_insert base pages sz es = (length es, es @ [\<lparr>pe_base = base, pe_size = pages\<rparr>])"
    unfolding free_insert_def None by simp
  moreover have "\<forall>e \<in> set es. pe_base e \<noteq> base + sz \<and> pe_end e \<noteq> base"
    using None by (simp add: find_index_None_iff)
  ultimately show ?thesis using assms new [of "\<lparr>pe_base = base, pe_size = pages\<rparr>"] by (simp add: pe_end_def)
next
  case (Some k)
  note k = find_index_SomeD [OF Some]
  show ?thesis
  proof (cases "pe_base (es ! k) = base + sz")
    case True
    then show ?thesis using assms Some k right
      by (auto simp: free_insert_def pe_end_def push_bit_sum add_ac)
  next
    case False
    then show ?thesis using assms Some k left
      by (auto simp: free_insert_def pe_end_def push_bit_sum add_ac)
  qed
qed

lemma free_merge_cases:
  obtains (none) "free_merge i es = es" "\<forall>e \<in> set es. pe_end (es ! i) \<noteq> pe_base e \<and> pe_base (es ! i) \<noteq> pe_end e"
  | (after) j x where "free_merge i es = remove_at j (es[i := x])" "j < length es" "pe_end (es ! i) = pe_base (es ! j)"
      "pe_base x = pe_base (es ! i)" "pe_end x = pe_end (es ! j)"
  | (before) j x where "free_merge i es = remove_at j (es[i := x])" "j < length es" "pe_base (es ! i) = pe_end (es ! j)"
      "pe_base x = pe_base (es ! j)" "pe_end x = pe_end (es ! i)"
proof (cases "find_index (\<lambda>e. pe_end (es ! i) = pe_base e \<or> pe_base (es ! i) = pe_end e) es")
  case None
  have "free_merge i es = es" unfolding free_merge_def None by simp
  moreover have "\<forall>e \<in> set es. pe_end (es ! i) \<noteq> pe_base e \<and> pe_base (es ! i) \<noteq> pe_end e"
    using None by (simp add: find_index_None_iff)
  ultimately show ?thesis by (rule none)
next
  case (Some j)
  have j: "j < length es" "pe_end (es ! i) = pe_base (es ! j) \<or> pe_base (es ! i) = pe_end (es ! j)"
    using find_index_SomeD [OF Some] by simp_all
  show ?thesis
  proof (cases "pe_end (es ! i) = pe_base (es ! j)")
    case True
    let ?x = "(es ! i)\<lparr>pe_size := pe_size (es ! i) + pe_size (es ! j)\<rparr>"
    have "free_merge i es = remove_at j (es[i := ?x])" unfolding free_merge_def Some by (simp add: True Let_def)
    moreover have "pe_end ?x = pe_end (es ! j)" using True by (simp add: pe_end_def push_bit_sum add.assoc [symmetric])
    ultimately show ?thesis using j(1) True by (intro after [of j ?x]) simp_all
  next
    case False
    let ?x = "(es ! i)\<lparr>pe_base := pe_base (es ! j), pe_size := pe_size (es ! i) + pe_size (es ! j)\<rparr>"
    have 1: "free_merge i es = remove_at j (es[i := ?x])" unfolding free_merge_def Some by (simp add: False Let_def)
    have 2: "pe_base (es ! i) = pe_end (es ! j)" using j(2) False by blast
    have "push_bit PAGEBITS (pe_size (es ! i) + pe_size (es ! j)) =
        push_bit PAGEBITS (pe_size (es ! j)) + push_bit PAGEBITS (pe_size (es ! i))"
      by (simp only: push_bit_sum add.commute)
    then have "pe_end ?x = pe_end (es ! j) + push_bit PAGEBITS (pe_size (es ! i))" by (simp add: pe_end_def)
    also have "\<dots> = pe_end (es ! i)" by (simp only: 2 [symmetric] pe_end_def [of "es ! i"])
    finally show ?thesis by (intro before [OF 1 j(1) 2]) simp_all
  qed
qed

text \<open>
  The two steps together: the freed run and the entries it touches become one entry, and in a list that was merged before no
  runs touch afterwards.
\<close>

definition ends_at :: "u64 \<Rightarrow> pmm_entry_t list \<Rightarrow> nat" where
  "ends_at b es = (if \<exists>e \<in> set es. pe_end e = b then 1 else 0)"

definition starts_at :: "u64 \<Rightarrow> pmm_entry_t list \<Rightarrow> nat" where
  "starts_at b es = (if \<exists>e \<in> set es. pe_base e = b then 1 else 0)"

lemma run_forward: "valid_run (pe_base e) (pe_size e) \<Longrightarrow> unat (pe_base e) < unat (pe_end e)"
  using run_end [of "pe_base e" "pe_size e"] by (simp add: pe_end_def valid_run_def)

lemma free_merge_compact:
  assumes i: "i < length es" and v: "\<forall>e \<in> set es. valid_run (pe_base e) (pe_size e)"
    and others: "\<And>a b. a < length es \<Longrightarrow> b < length es \<Longrightarrow> a \<noteq> i \<Longrightarrow> b \<noteq> i \<Longrightarrow> pe_end (es ! a) \<noteq> pe_base (es ! b)"
    and side: "(\<forall>e \<in> set es. pe_base e \<noteq> pe_end (es ! i)) \<or> (\<forall>e \<in> set es. pe_end e \<noteq> pe_base (es ! i))"
  shows "compact (free_merge i es) \<and>
    length (free_merge i es) + ends_at (pe_base (es ! i)) es + starts_at (pe_end (es ! i)) es = length es"
proof -
  have lt: "unat (pe_base (es ! a)) < unat (pe_end (es ! a))" if "a < length es" for a
    using run_forward v that by simp
  show ?thesis
  proof (cases rule: free_merge_cases [of i es])
    case none
    have "pe_end (es ! a) \<noteq> pe_base (es ! b)" if "a < length es" "b < length es" for a b
      using none(2) others [OF that] that i by (metis nth_mem)
    then have "compact es" unfolding compact_def by (metis in_set_conv_nth)
    with none show ?thesis by (auto simp: ends_at_def starts_at_def)
  next
    case (after j x)
    have ji: "j \<noteq> i" using after(3) lt [OF i] by auto
    have no: "\<forall>e \<in> set es. pe_end e \<noteq> pe_base (es ! i)" using side after(2,3) nth_mem by metis
    have "pe_end e \<noteq> pe_base f" if ef: "e \<in> set (free_merge i es)" "f \<in> set (free_merge i es)" for e f
    proof -
      note m = set_remove_at_update [of _ j es i x, folded after(1)]
      have xx: "pe_end x \<noteq> pe_base x" using after(2-5) lt [OF i] lt [OF after(2)] by auto
      have xb: "pe_end x \<noteq> pe_base (es ! b)" if "b < length es" "b \<noteq> i" "b \<noteq> j" for b
        using others [of j b] after(2,5) that ji by simp
      have ax: "pe_end (es ! a) \<noteq> pe_base x" if "a < length es" for a using no after(4) that by simp
      from m [OF ef(1)] m [OF ef(2)] xx xb ax others show ?thesis by metis
    qed
    moreover have "length (free_merge i es) = length es - 1" using after(1,2) by (simp add: length_remove_at)
    moreover have "ends_at (pe_base (es ! i)) es = 0" using no by (simp add: ends_at_def)
    moreover have "starts_at (pe_end (es ! i)) es = 1" using after(2,3) by (force simp: starts_at_def)
    ultimately show ?thesis using i by (simp add: compact_def)
  next
    case (before j x)
    have ji: "j \<noteq> i" using before(3) lt [OF i] by auto
    have no: "\<forall>e \<in> set es. pe_base e \<noteq> pe_end (es ! i)" using side before(2,3) nth_mem by metis
    have "pe_end e \<noteq> pe_base f" if ef: "e \<in> set (free_merge i es)" "f \<in> set (free_merge i es)" for e f
    proof -
      note m = set_remove_at_update [of _ j es i x, folded before(1)]
      have xx: "pe_end x \<noteq> pe_base x" using before(2-5) lt [OF i] lt [OF before(2)] by auto
      have xb: "pe_end x \<noteq> pe_base (es ! b)" if "b < length es" for b using no before(5) that by (metis nth_mem)
      have ax: "pe_end (es ! a) \<noteq> pe_base x" if "a < length es" "a \<noteq> i" "a \<noteq> j" for a
        using others [of a j] before(2,4) that ji by simp
      from m [OF ef(1)] m [OF ef(2)] xx xb ax others show ?thesis by metis
    qed
    moreover have "length (free_merge i es) = length es - 1" using before(1,2) by (simp add: length_remove_at)
    moreover have "starts_at (pe_end (es ! i)) es = 0" using no by (auto simp: starts_at_def)
    moreover have "ends_at (pe_base (es ! i)) es = 1" using before(2,3) by (force simp: ends_at_def)
    ultimately show ?thesis using i by (simp add: compact_def)
  qed
qed

lemma ex_set_update:
  assumes "\<not> P (xs ! i)" "\<not> P x"
  shows "(\<exists>e \<in> set (xs[i := x]). P e) \<longleftrightarrow> (\<exists>e \<in> set xs. P e)"
proof -
  have ex: "(\<exists>e \<in> set ys. P e) \<longleftrightarrow> (\<exists>a < length ys. P (ys ! a))" for ys
    by (metis in_set_conv_nth)
  have "P (xs[i := x] ! a) \<longleftrightarrow> P (xs ! a)" if "a < length xs" for a
    using assms that by (cases "a = i") simp_all
  then show ?thesis unfolding ex by auto
qed

lemma free_insert_merge:
  assumes c: "compact es" and wf: "\<forall>e \<in> set es. valid_run (pe_base e) (pe_size e)" and run: "valid_run base pages"
    and r: "free_insert base pages (push_bit PAGEBITS pages) es = (i, es')"
  shows "compact (free_merge i es') \<and> length (free_merge i es') + ends_at base es +
    starts_at (base + push_bit PAGEBITS pages) es = Suc (length es)"
proof -
  let ?stop = "base + push_bit PAGEBITS pages"
  have i: "i < length es'" and wf': "\<forall>e \<in> set es'. valid_run (pe_base e) (pe_size e)"
    using free_insert_spec [OF wf run r] by simp_all
  have lt: "unat base < unat ?stop" using run by (simp add: run_end valid_run_def)
  have ord: "unat (pe_base e) < unat (pe_end e)" if "e \<in> set es" for e using run_forward wf that by blast
  have c': "pe_end (es ! a) \<noteq> pe_base (es ! b)" if "a < length es" "b < length es" for a b
    using c that by (simp add: compact_def)
  show ?thesis
  proof (cases rule: free_insert_cases [OF r refl, case_names new right left])
    case (new x)
    have x: "es' ! i = x" using new by simp
    have "pe_end (es' ! a) \<noteq> pe_base (es' ! b)" if "a < length es'" "b < length es'" "a \<noteq> i" "b \<noteq> i" for a b
      using that new c' by (simp add: nth_append less_Suc_eq)
    moreover have "(\<forall>e \<in> set es'. pe_base e \<noteq> pe_end (es' ! i)) \<and> (\<forall>e \<in> set es'. pe_end e \<noteq> pe_base (es' ! i))"
      unfolding x new(3,4) using new lt by auto
    ultimately show ?thesis
      using free_merge_compact [OF i wf'] new lt unfolding x by (auto simp: ends_at_def starts_at_def)
  next
    case (right x)
    have x: "es' ! i = x" "es ! i \<in> set es" using right by simp_all
    have e: "unat base < unat (pe_end (es ! i))" using ord [OF x(2)] right(3) lt by simp
    have "pe_end (es' ! a) \<noteq> pe_base (es' ! b)" if "a < length es'" "b < length es'" "a \<noteq> i" "b \<noteq> i" for a b
      using that right c' by simp
    moreover have s: "\<forall>e \<in> set es'. pe_base e \<noteq> pe_end (es' ! i)"
      unfolding x right(5) using right(2,4) c e x(2) set_update_subset_insert [of es i x] by (fastforce simp: compact_def)
    moreover have "ends_at base es' = ends_at base es"
      unfolding ends_at_def right(2) by (subst ex_set_update) (use right(5) e in auto)

    moreover have "starts_at (pe_end x) es' = 0" "starts_at ?stop es = 1"
      using s x right(3) by (auto simp: starts_at_def)
    ultimately show ?thesis
      using free_merge_compact [OF i wf'] right(2,4) unfolding x by simp
  next
    case (left x)
    have x: "es' ! i = x" "es ! i \<in> set es" using left by simp_all
    have e: "unat (pe_base (es ! i)) < unat ?stop" using ord [OF x(2)] left(3) lt by simp
    have "pe_end (es' ! a) \<noteq> pe_base (es' ! b)" if "a < length es'" "b < length es'" "a \<noteq> i" "b \<noteq> i" for a b
      using that left c' by simp
    moreover have s: "\<forall>e \<in> set es'. pe_end e \<noteq> pe_base (es' ! i)"
      unfolding x left(4) using left(2,5) c e x(2) set_update_subset_insert [of es i x] by (fastforce simp: compact_def)
    moreover have "starts_at ?stop es' = starts_at ?stop es"
      unfolding starts_at_def left(2) by (subst ex_set_update) (use left(4) e in auto)

    moreover have "ends_at (pe_base x) es' = 0" "ends_at base es = 1"
      using s x left(3) by (auto simp: ends_at_def)
    ultimately show ?thesis
      using free_merge_compact [OF i wf'] left(2,5) unfolding x by simp
  qed
qed

text \<open>
  The run being freed must be valid and none of its pages free already. Then the result is
  well formed and offers exactly the additional pages.
\<close>

lemma pmm_free_spec:
  assumes inv: "pmm_inv s" and mg: "tcb_magic (get_tcb p s) = OSZ_TCB_MAGICH"
    and run: "valid_run base n" and dj: "page_run base n \<inter># free_pages (pmm_entries s) = {#}"
    and tot: "size (free_pages (pmm_entries s)) + unat n \<le> unat (pmm_totalpages s)"
  shows "\<exists>s'. pmm_free p base n s = Done s' \<and> pmm_inv s' \<and>
      free_pages (pmm_entries s') = free_pages (pmm_entries s) + page_run base n \<and>
      pmm_totalpages s' = pmm_totalpages s \<and>
      get_tcb p s' = (get_tcb p s)\<lparr>tcb_allocmem := tcb_allocmem (get_tcb p s) - n\<rparr> \<and>
      (compact (pmm_entries s) \<longrightarrow> compact (pmm_entries s') \<and>
        length (pmm_entries s') + ends_at base (pmm_entries s) + starts_at (base + push_bit PAGEBITS n) (pmm_entries s) =
          Suc (length (pmm_entries s)))"
proof -
  obtain i es where ie: "free_insert base n (push_bit PAGEBITS n) (pmm_entries s) = (i, es)"
    by (cases "free_insert base n (push_bit PAGEBITS n) (pmm_entries s)")
  have wf: "\<forall>e \<in> set (pmm_entries s). valid_run (pe_base e) (pe_size e)"
    using inv by (simp add: pmm_inv_def wf_entries_def)
  note ins = free_insert_spec [OF wf run ie]
  have mrg: "(\<forall>e \<in> set (free_merge i es). valid_run (pe_base e) (pe_size e)) \<and>
      free_pages (free_merge i es) = free_pages (pmm_entries s) + page_run base n"
    using free_merge_spec [of es i] ins by auto
  have cnt: "count (free_pages (free_merge i es)) q \<le> 1" for q
  proof -
    have "min (count (page_run base n) q) (count (free_pages (pmm_entries s)) q) = 0"
      using dj by (metis count_empty count_inter_mset)
    moreover have "count (free_pages (pmm_entries s)) q \<le> 1" "count (page_run base n) q \<le> 1"
      using inv by (simp_all add: pmm_inv_def wf_entries_def count_page_run)
    ultimately show ?thesis using mrg by (auto simp: min_def split: if_splits)
  qed
  have fp: "unat (pmm_freepages s + n) = size (free_pages (free_merge i es))"
    using inv tot mrg unat_u64_less [of "pmm_totalpages s"]
    by (subst unat_add_le) (simp_all add: pmm_inv_def)
  define s1 where "s1 = kentropy (s\<lparr>srand := srand_at (n + 2) (\<lambda>x. x + base) (srand_at n (\<lambda>x. x - base) (srand s))\<rparr>)"
  define s2 where "s2 = s1\<lparr>pmm_entries := free_merge i es, pmm_freepages := pmm_freepages s + n\<rparr>"
  define s3 where "s3 = upd_tcb p (\<lambda>t. t\<lparr>tcb_allocmem := tcb_allocmem t - n\<rparr>) s2"
  have f1: "pmm_entries s1 = pmm_entries s" "pmm_freepages s1 = pmm_freepages s"
    "pmm_totalpages s1 = pmm_totalpages s"
    by (simp_all add: s1_def kentropy_def)
  have f3: "pmm_entries s3 = free_merge i es" "pmm_freepages s3 = pmm_freepages s + n"
    "pmm_totalpages s3 = pmm_totalpages s"
    by (simp_all add: s3_def s2_def f1 frame_simps)
  have g: "get_tcb p s3 = (get_tcb p s)\<lparr>tcb_allocmem := tcb_allocmem (get_tcb p s) - n\<rparr>"
    by (simp add: s3_def) (simp add: s2_def s1_def kentropy_def get_tcb_def split: tcbptr.splits)
  have le: "pmm_freepages s3 \<le> pmm_totalpages s3"
    using fp mrg tot f3 by (simp add: word_le_nat_alt)
  have "base \<noteq> 0" "n \<noteq> 0" using run by (auto simp: valid_run_def)
  then have "pmm_free p base n s = Done s3"
    using mg le f1 ie by (simp add: pmm_free_def Let_def s1_def [symmetric] s2_def [symmetric] s3_def [symmetric])
  moreover have "compact (pmm_entries s) \<longrightarrow> compact (pmm_entries s3) \<and>
      length (pmm_entries s3) + ends_at base (pmm_entries s) + starts_at (base + push_bit PAGEBITS n) (pmm_entries s) =
        Suc (length (pmm_entries s))"
    unfolding f3(1) using free_insert_merge [OF _ wf run ie] by blast
  ultimately show ?thesis using mrg cnt fp le f3 g by (intro exI [of _ s3]) (simp add: pmm_inv_def wf_entries_def)
qed

section \<open>Slots\<close>

lemma slot_pages [simp]: "SLOTSIZE div PAGESIZE = 512"
  by (simp add: SLOTSIZE_def PAGESIZE_def)

definition slot_base :: "u64 \<Rightarrow> u64" where
  "slot_base b = ((b + SLOTSIZE - 1) div SLOTSIZE) * SLOTSIZE"

lemma slot_base_unat:
  assumes "unat b < 2 ^ 62"
  shows "unat (slot_base b) = (unat b + 2097151) div 2097152 * 2097152"
proof -
  have s: "unat (b + SLOTSIZE - 1) = unat b + 2097151"
  proof -
    have e: "b + SLOTSIZE - 1 = b + 2097151" by (simp add: SLOTSIZE_def)
    show ?thesis unfolding e using assms by (simp add: unat_add_le)
  qed
  have d: "unat ((b + SLOTSIZE - 1) div SLOTSIZE) = (unat b + 2097151) div 2097152"
    using s by (simp add: unat_div SLOTSIZE_def)
  have "(unat b + 2097151) div 2097152 * 2097152 \<le> unat b + 2097151" by simp
  moreover have "unat b < 4611686018427387904" using assms by simp
  ultimately have "(unat b + 2097151) div 2097152 * 2097152 < 18446744073709551616" by linarith
  then show ?thesis
    unfolding slot_base_def unat_word_ariths(2) d by (simp add: SLOTSIZE_def)
qed

lemma slot_base_props:
  assumes "unat b < 2 ^ 62" and "4096 dvd unat b"
  shows "unat b \<le> unat (slot_base b)" and "unat (slot_base b) < unat b + 2097152"
    and "2097152 dvd unat (slot_base b)" and "4096 dvd unat (slot_base b)"
    and "slot_base b = b \<longleftrightarrow> 2097152 dvd unat b"
proof -
  note u = slot_base_unat [OF assms(1)]
  have "(unat b + 2097151) div 2097152 * 2097152 + (unat b + 2097151) mod 2097152 = unat b + 2097151"
    by (rule div_mult_mod_eq)
  moreover have "(unat b + 2097151) mod 2097152 < 2097152" by simp
  ultimately show "unat b \<le> unat (slot_base b)" "unat (slot_base b) < unat b + 2097152"
    unfolding u by linarith+
  show d: "2097152 dvd unat (slot_base b)" unfolding u by simp
  then show "4096 dvd unat (slot_base b)" by (rule dvd_trans [rotated]) simp
  show "slot_base b = b \<longleftrightarrow> 2097152 dvd unat b"
  proof
    assume "slot_base b = b"
    with d show "2097152 dvd unat b" by simp
  next
    assume "2097152 dvd unat b"
    then obtain q where q: "unat b = 2097152 * q" by (elim dvdE)
    then show "slot_base b = b" unfolding word_eq_iff_unat u by simp
  qed
qed

text \<open>
  An entry is cut cleanly when the slot starts at its first page or leaves pages above.
\<close>

definition slot_clean :: "pmm_entry_t \<Rightarrow> bool" where
  "slot_clean e \<longleftrightarrow> 2097152 dvd unat (pe_base e) \<or> \<not> 2097152 dvd unat (pe_end e)"

lemma pe_end_unat:
  assumes "valid_run (pe_base e) (pe_size e)"
  shows "unat (pe_end e) = unat (pe_base e) + unat (pe_size e) * 4096"
  using run_end [of "pe_base e" "pe_size e"] assms by (simp add: pe_end_def valid_run_def)

lemma slot_cut:
  assumes v: "valid_run (pe_base e) (pe_size e)" and small: "unat (pe_end e) \<le> 2 ^ 52"
    and fit: "slot_base (pe_base e) + SLOTSIZE \<le> pe_end e"
  defines "b \<equiv> slot_base (pe_base e)"
  defines "k \<equiv> drop_bit PAGEBITS (b - pe_base e)"
  defines "r \<equiv> pe_size e - (k + SLOTSIZE div PAGESIZE)"
  shows "unat k * 4096 = unat b - unat (pe_base e)"
    and "unat (pe_size e) = unat k + 512 + unat r"
    and "b = pe_base e + push_bit PAGEBITS k"
    and "b + SLOTSIZE = b + push_bit PAGEBITS 512"
    and "unat b + 2097152 \<le> unat (pe_end e)"
proof -
  note E = pe_end_unat [OF v]
  have bs: "unat (pe_base e) < 2 ^ 62" using E small by simp
  have al: "4096 dvd unat (pe_base e)" using v by (simp add: valid_run_def)
  note P = slot_base_props [OF bs al, folded b_def]
  have bS: "unat (b + SLOTSIZE) = unat b + 2097152"
    using P(2) bs by (simp add: SLOTSIZE_def unat_add_le)
  then show le: "unat b + 2097152 \<le> unat (pe_end e)"
    using fit by (simp add: word_le_nat_alt b_def)
  have d: "unat (b - pe_base e) = unat b - unat (pe_base e)" using P(1) by (rule unat_sub_le)
  have "4096 dvd unat b - unat (pe_base e)" using P(4) al by (rule dvd_diff_nat)
  then show k: "unat k * 4096 = unat b - unat (pe_base e)"
    by (simp add: k_def PAGEBITS_def unat_drop_bit_eq drop_bit_eq_div unat_div d)
  have q: "unat (k + 512) = unat k + 512"
    using k P(2) bs by (simp add: unat_add_le)
  have "unat k + 512 \<le> unat (pe_size e)" using le E k P(1) by linarith
  then have "unat r = unat (pe_size e) - (unat k + 512)"
    unfolding r_def slot_pages by (subst unat_sub_le) (simp_all add: q)
  with \<open>unat k + 512 \<le> unat (pe_size e)\<close>
  show "unat (pe_size e) = unat k + 512 + unat r" by simp
  have "unat (push_bit PAGEBITS k) = unat b - unat (pe_base e)"
    using k bs P(2) by (subst shift_pages) simp_all
  then have "unat (pe_base e + push_bit PAGEBITS k) = unat b"
    using P(1,2) bs by (subst unat_add_le) simp_all
  then show "b = pe_base e + push_bit PAGEBITS k" by (simp add: word_eq_iff_unat)
  show "b + SLOTSIZE = b + push_bit PAGEBITS 512" by (simp add: SLOTSIZE_def PAGEBITS_def push_bit_eq_mult)
qed

lemma slot_take_spec:
  assumes "slot_take es = Some (b, base, es')"
    and "\<forall>e \<in> set es. valid_run (pe_base e) (pe_size e)"
    and "\<forall>e \<in> set es. unat (pe_end e) \<le> 2 ^ 52" and "\<forall>e \<in> set es. slot_clean e"
  shows "free_pages es = page_run b 512 + free_pages es' \<and> valid_run b 512 \<and> 2097152 dvd unat b \<and>
         (\<forall>e \<in> set es'. valid_run (pe_base e) (pe_size e))"
  using assms
proof (induction es arbitrary: b base es')
  case Nil
  then show ?case by simp
next
  case (Cons e es)
  let ?b = "slot_base (pe_base e)"
  show ?case
  proof (cases "?b + SLOTSIZE \<le> pe_end e")
    case False
    with Cons.prems obtain fs where fs: "slot_take es = Some (b, base, fs)" "es' = e # fs"
      by (auto simp: Let_def slot_base_def [symmetric])
    with Cons.IH [OF fs(1)] Cons.prems show ?thesis by (auto simp: add.left_commute)
  next
    case True
    have v: "valid_run (pe_base e) (pe_size e)" and small: "unat (pe_end e) \<le> 2 ^ 52"
      and clean: "slot_clean e" using Cons.prems by simp_all
    define k where "k = drop_bit PAGEBITS (?b - pe_base e)"
    define r where "r = pe_size e - (k + SLOTSIZE div PAGESIZE)"
    note C = slot_cut [OF v small True, folded k_def, folded r_def]
    have al: "4096 dvd unat (pe_base e)" using v by (simp add: valid_run_def)
    have bs: "unat (pe_base e) < 2 ^ 62" using pe_end_unat [OF v] small by simp
    note P = slot_base_props [OF bs al]
    have sum: "unat (512 + r) = 512 + unat r" using C(2) unat_u64_less [of "pe_size e"]
      by (subst unat_add_le) simp_all
    have bnd: "unat ?b + (512 + unat r) * 4096 = unat (pe_end e)"
      using C(1,2) P(1) pe_end_unat [OF v] by (simp add: algebra_simps)
    have nz: "?b \<noteq> 0" using P(1) v by (auto simp: valid_run_def word_eq_iff_unat)
    have V: "valid_run ?b 512" "valid_run ?b (512 + r)"
      using bnd small nz P(4) by (simp_all add: valid_run_def sum)
    have E: "pe_size e = k + (512 + r)" and rr: "pe_size e - (k + 512) = r"
      by (simp_all add: r_def)
    have hi: "r \<noteq> 0 \<Longrightarrow> valid_run (?b + SLOTSIZE) r \<and>
        page_run ?b 512 + page_run (?b + SLOTSIZE) r = page_run ?b (512 + r)"
      unfolding C(4) using valid_run_split [OF V(2), of 512] sum by (simp add: unat_gt_0)
    show ?thesis
    proof (cases "?b = pe_base e")
      case True
      then have "k = 0" by (simp add: k_def)
      with True \<open>?b + SLOTSIZE \<le> pe_end e\<close> Cons.prems hi V E P(3) show ?thesis
        by (auto simp: Let_def slot_base_def [symmetric] add.assoc [symmetric] split: if_splits)
    next
      case False
      then have kz: "0 < unat k" using C(3) by (metis add.right_neutral neq0_conv push_bit_of_0 unat_eq_zero)
      have lo: "valid_run (pe_base e) k" "page_run (pe_base e) k + page_run ?b (512 + r) =
          page_run (pe_base e) (pe_size e)"
        using valid_run_split [OF v, of k] kz C(2,3) E by simp_all
      have "r \<noteq> 0"
      proof
        assume "r = 0"
        then have "unat (pe_end e) = unat ?b + 2097152" using bnd by simp
        then have "2097152 dvd unat (pe_end e)" using P(3) by simp
        with clean False P(5) show False by (simp add: slot_clean_def)
      qed
      note rn = this
      have "b = ?b" and "es' = e\<lparr>pe_size := k\<rparr> # e\<lparr>pe_base := ?b + SLOTSIZE, pe_size := r\<rparr> # es"
        using False \<open>?b + SLOTSIZE \<le> pe_end e\<close> Cons.prems(1) rn E
        by (auto simp: Let_def slot_base_def [symmetric] k_def [symmetric] rr)
      moreover have "page_run (pe_base e) (pe_size e) =
          page_run ?b 512 + (page_run (pe_base e) k + page_run (?b + SLOTSIZE) r)"
        using hi [OF rn] lo(2) by (metis add.left_commute)
      ultimately show ?thesis
        using hi [OF rn] V lo(1) P(3) Cons.prems(2) by (simp add: ac_simps)
    qed
  qed
qed

lemma pmm_allocslot_Some:
  assumes inv: "pmm_inv s" and mg: "tcb_magic (get_tcb p s) = OSZ_TCB_MAGICH"
    and small: "\<forall>e \<in> set (pmm_entries s). unat (pe_end e) \<le> 2 ^ 52"
    and clean: "\<forall>e \<in> set (pmm_entries s). slot_clean e"
    and t: "slot_take (pmm_entries s) = Some (b, base, es)"
  shows "\<exists>s'. pmm_allocslot p s = Done (b, s') \<and> valid_run b 512 \<and> 2097152 dvd unat b \<and>
      free_pages (pmm_entries s) = page_run b 512 + free_pages (pmm_entries s') \<and> pmm_inv s' \<and>
      phymem s' = zero_range b 2097152 (phymem s)"
proof -
  have wf: "\<forall>e \<in> set (pmm_entries s). valid_run (pe_base e) (pe_size e)"
    using inv by (simp add: pmm_inv_def wf_entries_def)
  note spec = slot_take_spec [OF t wf small clean]
  define s1 where "s1 = upd_tcb p (\<lambda>x. x\<lparr>tcb_allocmem := tcb_allocmem x + 512\<rparr>)
      ((pmm_entropy base s)\<lparr>pmm_entries := es, pmm_freepages := pmm_freepages s - 512\<rparr>)"
  have r: "pmm_allocslot p s = Done (b, s1\<lparr>phymem := zero_range b 2097152 (phymem s)\<rparr>)"
    using mg t by (simp add: pmm_allocslot_def Let_def s1_def frame_simps) (simp add: SLOTSIZE_def)
  have fr: "pmm_entries s1 = es" "pmm_freepages s1 = pmm_freepages s - 512"
    "pmm_totalpages s1 = pmm_totalpages s"
    by (simp_all add: s1_def frame_simps)
  have "pmm_inv (s1\<lparr>phymem := zero_range b 2097152 (phymem s)\<rparr>)"
    by (rule pmm_inv_take [OF inv, of "page_run b 512" es 512]) (use spec fr in simp_all)
  with r spec fr show ?thesis by simp
qed

section \<open>The allocator as an interface\<close>

text \<open>
  What the rest of the core relies on: a state with a multiset of free pages, an operation
  that takes a run out of it and one that puts a run back.
\<close>

locale page_allocator =
  fixes inv :: "'s \<Rightarrow> bool" and avail :: "'s \<Rightarrow> nat multiset" and total :: "'s \<Rightarrow> nat"
    and alloc :: "u64 \<Rightarrow> 's \<Rightarrow> (u64 \<times> 's) option" and release :: "u64 \<Rightarrow> u64 \<Rightarrow> 's \<Rightarrow> 's option"
  assumes avail_distinct: "inv s \<Longrightarrow> count (avail s) q \<le> 1"
    and avail_total: "inv s \<Longrightarrow> size (avail s) \<le> total s"
    and alloc_valid: "inv s \<Longrightarrow> alloc n s = Some (b, s') \<Longrightarrow> valid_run b n"
    and alloc_inv: "inv s \<Longrightarrow> alloc n s = Some (b, s') \<Longrightarrow> inv s' \<and> total s' = total s"
    and alloc_avail: "inv s \<Longrightarrow> alloc n s = Some (b, s') \<Longrightarrow> avail s = page_run b n + avail s'"
    and release_ok: "inv s \<Longrightarrow> valid_run b n \<Longrightarrow> page_run b n \<inter># avail s = {#} \<Longrightarrow>
      size (avail s) + unat n \<le> total s \<Longrightarrow>
      \<exists>s'. release b n s = Some s' \<and> inv s' \<and> total s' = total s \<and> avail s' = avail s + page_run b n"
begin

lemma alloc_fresh:
  assumes "inv s" and "alloc n s = Some (b, s')"
  shows "page_run b n \<inter># avail s' = {#}"
proof (rule multiset_eqI)
  fix q
  have "count (page_run b n) q + count (avail s') q \<le> 1"
    using avail_distinct [OF assms(1), of q] alloc_avail [OF assms] by simp
  then show "count (page_run b n \<inter># avail s') q = count {#} q" by (auto simp: min_def)
qed

text \<open>Two allocations in a row never share a page.\<close>

lemma two_allocs_disjoint:
  assumes "inv s" and "alloc m s = Some (a, s1)" and "alloc n s1 = Some (b, s2)"
  shows "page_run a m \<inter># page_run b n = {#}"
proof -
  have "inv s1" using alloc_inv [OF assms(1,2)] by simp
  then have "avail s1 = page_run b n + avail s2" using assms(3) by (rule alloc_avail)
  moreover have "page_run a m \<inter># avail s1 = {#}" using assms(1,2) by (rule alloc_fresh)
  ultimately show ?thesis by (auto simp: disjunct_not_in)
qed

text \<open>Releasing what was just allocated succeeds and restores the free pages.\<close>

lemma alloc_release:
  assumes "inv s" and "alloc n s = Some (b, s1)"
  shows "\<exists>s2. release b n s1 = Some s2 \<and> inv s2 \<and> total s2 = total s \<and> avail s2 = avail s"
proof -
  have i1: "inv s1" "total s1 = total s" using alloc_inv [OF assms] by simp_all
  have "size (avail s1) + unat n = size (avail s)" using alloc_avail [OF assms] by simp
  then have "size (avail s1) + unat n \<le> total s1" using avail_total [OF assms(1)] i1 by simp
  from release_ok [OF i1(1) alloc_valid [OF assms] alloc_fresh [OF assms] this] i1(2) alloc_avail [OF assms]
  show ?thesis by (auto simp: add.commute)
qed

end

text \<open>
  The manager as such an allocator, for the task \<open>p\<close> that pays for the pages: None stands
  for a NULL result or a panic.
\<close>

definition pmm_alloc_run :: "tcbptr \<Rightarrow> u64 \<Rightarrow> kstate \<Rightarrow> (u64 \<times> kstate) option" where
  "pmm_alloc_run p n s = (case pmm_alloc p n s of
      KPanic m \<Rightarrow> None | Done (b, s') \<Rightarrow> if b = 0 then None else Some (b, s'))"

definition pmm_release_run :: "tcbptr \<Rightarrow> u64 \<Rightarrow> u64 \<Rightarrow> kstate \<Rightarrow> kstate option" where
  "pmm_release_run p b n s = (case pmm_free p b n s of KPanic m \<Rightarrow> None | Done s' \<Rightarrow> Some s')"

definition pmm_ready :: "tcbptr \<Rightarrow> kstate \<Rightarrow> bool" where
  "pmm_ready p s \<longleftrightarrow> pmm_inv s \<and> tcb_magic (get_tcb p s) = OSZ_TCB_MAGICH"

lemma pmm_alloc_run_spec:
  assumes "pmm_ready p s" and "pmm_alloc_run p n s = Some (b, s')"
  shows "valid_run b n \<and> free_pages (pmm_entries s) = page_run b n + free_pages (pmm_entries s') \<and>
         pmm_ready p s' \<and> pmm_totalpages s' = pmm_totalpages s"
proof (cases "n = 0")
  case True
  with assms show ?thesis
    by (auto simp: pmm_alloc_run_def pmm_alloc_def pmm_ready_def pmm_inv_def split: if_splits)
next
  case False
  show ?thesis
  proof (cases "pmm_take n (pmm_entries s)")
    case None
    with assms False pmm_alloc_None [of s p n] show ?thesis
      by (auto simp: pmm_alloc_run_def pmm_ready_def split: if_splits)
  next
    case (Some a)
    then obtain b' es where t: "pmm_take n (pmm_entries s) = Some (b', es)" by (cases a) auto
    from pmm_alloc_Some [OF _ _ False t, of p] assms show ?thesis
      by (auto simp: pmm_alloc_run_def pmm_ready_def split: if_splits)
  qed
qed

interpretation pmm: page_allocator "pmm_ready p" "\<lambda>s. free_pages (pmm_entries s)"
  "\<lambda>s. unat (pmm_totalpages s)" "pmm_alloc_run p" "pmm_release_run p" for p
proof (unfold_locales, goal_cases)
  case (1 s q)
  then show ?case by (simp add: pmm_ready_def pmm_inv_def wf_entries_def)
next
  case (2 s)
  then show ?case by (simp add: pmm_ready_def pmm_inv_def word_le_nat_alt)
next
  case (3 s n b s')
  then show ?case using pmm_alloc_run_spec by blast
next
  case (4 s n b s')
  then show ?case using pmm_alloc_run_spec [of p s n b s'] by simp
next
  case (5 s n b s')
  then show ?case using pmm_alloc_run_spec by blast
next
  case (6 s b n)
  then show ?case
    using pmm_free_spec [of s p b n] by (auto simp: pmm_ready_def pmm_release_run_def)
qed

section \<open>Initialisation\<close>

text \<open>The whole pages inside a free region of the memory map.\<close>

definition mm_region :: "MMapEnt \<Rightarrow> nat multiset" where
  "mm_region a = (if MMapEnt_IsFree a
     then mset_set {(unat (mm_ptr a) + 4095) div 4096 ..< (unat (mm_ptr a) + unat (MMapEnt_Size a)) div 4096}
     else {#})"

text \<open>
  Requirements on the loader's map: addresses below \<open>2^52\<close>, regions that start at a
  multiple of 16 and are at least a page long (the BOOTBOOT protocol gives page aligned ones).
\<close>

definition mm_entry_ok :: "MMapEnt \<Rightarrow> bool" where
  "mm_entry_ok a \<longleftrightarrow> 16 dvd unat (mm_ptr a) \<and>
     unat (mm_ptr a) + unat (MMapEnt_Size a) \<le> 2 ^ 52 \<and>
     (MMapEnt_IsFree a \<longrightarrow> PAGESIZE \<le> MMapEnt_Size a)"

text \<open>What the list itself and the DMA buffer take.\<close>

definition reserved :: "u64 option \<Rightarrow> u64 \<Rightarrow> u64 \<Rightarrow> nat multiset" where
  "reserved lst dma dmab = (case lst of None \<Rightarrow> {#} | Some a \<Rightarrow> page_run a 1) +
     (if dma = 0 then {#} else page_run dma dmab)"

lemma mask_page: "w AND (PAGESIZE - 1) = take_bit 12 w"
  by (simp add: PAGESIZE_def take_bit_eq_mask mask_eq_exp_minus_1)

lemma unat_mask_page: "unat (w AND (PAGESIZE - 1)) = unat w mod 4096"
  unfolding mask_page by (simp add: unsigned_take_bit_eq take_bit_eq_mod unat_mod)

lemma and_not_sub: "w AND NOT m = w - (w AND m)" for w m :: u64
proof -
  have "w - (w AND m) = w AND NOT (w AND m)"
    by (rule disjunctive_diff_eq_and_not) (simp add: bit_eq_iff bit_simps)
  also have "\<dots> = w AND NOT m" by (auto simp: bit_eq_iff bit_simps)
  finally show ?thesis by simp
qed

lemma and_not_page: "unat (w AND NOT (PAGESIZE - 1)) = unat w div 4096 * 4096"
proof -
  have "unat (w AND (PAGESIZE - 1)) \<le> unat w" by (simp add: unat_mask_page)
  then have "unat (w AND NOT (PAGESIZE - 1)) = unat w - unat w mod 4096"
    by (simp add: and_not_sub unat_sub_le unat_mask_page)
  then show ?thesis by (simp add: minus_mod_eq_div_mult)
qed

lemma and_fff0:
  assumes "16 dvd unat w" and "unat w < 2 ^ 56"
  shows "w AND 0xFFFFFFFFFFFFF0 = (w :: u64)"
proof -
  have c: "(0xFFFFFFFFFFFFF0 :: u64) = mask 56 AND NOT (mask 4)"
    by (simp add: mask_eq_exp_minus_1)
  have t56: "take_bit 56 w = w"
    using assms(2) by (simp add: word_eq_iff_unat unsigned_take_bit_eq take_bit_nat_eq_self)
  have t4: "take_bit 4 w = 0"
    using assms(1) by (simp add: word_eq_iff_unat unsigned_take_bit_eq take_bit_eq_mod unat_mod dvd_eq_mod_eq_0)
  have "w AND 0xFFFFFFFFFFFFF0 = take_bit 56 w AND NOT (mask 4)"
    unfolding c by (simp add: take_bit_eq_mask and.assoc)
  also have "\<dots> = w - take_bit 4 w" unfolding t56 by (simp add: and_not_sub take_bit_eq_mask)
  finally show ?thesis by (simp add: t4)
qed

lemma mm_align_spec:
  assumes "mm_entry_ok a" and "MMapEnt_IsFree a"
    and "mm_align (mm_ptr a) (MMapEnt_Size a) = (ptr, siz)"
  shows "unat ptr = (unat (mm_ptr a) + 4095) div 4096 * 4096"
    and "unat ptr + unat siz = unat (mm_ptr a) + unat (MMapEnt_Size a)"
proof -
  define p z q where "p = unat (mm_ptr a)" and "z = unat (MMapEnt_Size a)" and "q = p mod 4096"
  have ok: "16 dvd p" "p + z \<le> 2 ^ 52" "4096 \<le> z"
    using assms(1,2) by (simp_all add: mm_entry_ok_def p_def z_def word_le_nat_alt PAGESIZE_def)
  have q: "unat (mm_ptr a AND (PAGESIZE - 1)) = q" by (simp add: unat_mask_page q_def p_def)
  have split: "p = p div 4096 * 4096 + q" by (simp add: q_def)
  have "unat ptr = (p + 4095) div 4096 * 4096 \<and> unat ptr + unat siz = p + z"
  proof (cases "q = 0")
    case True
    then have "ptr = mm_ptr a" "siz = MMapEnt_Size a"
      using assms(3) q by (simp_all add: mm_align_def word_eq_iff_unat)
    moreover from True obtain c where "p = 4096 * c" by (auto simp: q_def elim: dvdE)
    then have "(p + 4095) div 4096 * 4096 = p" by simp
    ultimately show ?thesis by (simp add: p_def z_def)
  next
    case False
    have ql: "q < 4096" by (simp add: q_def)
    have g: "unat (PAGESIZE - (mm_ptr a AND (PAGESIZE - 1))) = 4096 - q"
      using ql by (subst unat_sub_le) (simp_all add: q, simp_all add: PAGESIZE_def)
    have "16 dvd q" using ok(1) by (simp add: q_def dvd_mod)
    then have "16 dvd 4096 - q" by (simp add: dvd_diff_nat)
    then have m: "(PAGESIZE - (mm_ptr a AND (PAGESIZE - 1))) AND 0xFFFFFFFFFFFFF0 =
        PAGESIZE - (mm_ptr a AND (PAGESIZE - 1))"
      using g by (intro and_fff0) simp_all
    have P: "ptr = (mm_ptr a + PAGESIZE - 1) AND NOT (PAGESIZE - 1)"
      and S: "siz = MMapEnt_Size a - (PAGESIZE - (mm_ptr a AND (PAGESIZE - 1)))"
      using assms(3) q False unfolding mm_align_def m by (auto simp: word_eq_iff_unat)
    have e: "mm_ptr a + PAGESIZE - 1 = mm_ptr a + 4095" by (simp add: PAGESIZE_def)
    have "unat (mm_ptr a + PAGESIZE - 1) = p + 4095"
      unfolding e using ok by (subst unat_add_le) (simp_all add: p_def)
    then have 1: "unat ptr = (p + 4095) div 4096 * 4096" unfolding P and_not_page by simp
    have d: "(p + 4095) div 4096 = p div 4096 + 1"
    proof -
      have "4096 * (p div 4096 + 1) \<le> p + 4095" using split False by (simp add: algebra_simps)
      moreover have "p + 4095 < 4096 * Suc (p div 4096 + 1)" using split ql by (simp add: algebra_simps)
      ultimately show ?thesis by (intro div_nat_eqI) (simp_all add: mult.commute)
    qed
    have "unat siz = z - (4096 - q)"
      unfolding S using g ok by (subst unat_sub_le) (simp_all add: z_def)
    with 1 split d ql ok(3) show ?thesis by simp
  qed
  then show "unat ptr = (unat (mm_ptr a) + 4095) div 4096 * 4096"
    and "unat ptr + unat siz = unat (mm_ptr a) + unat (MMapEnt_Size a)"
    by (simp_all add: p_def z_def)
qed

text \<open>
  Adding a free region: the pages of the region are divided between the list, the DMA buffer
  and the new entries, and none gets lost.
\<close>

definition mm_run :: "u64 \<Rightarrow> u64 \<Rightarrow> nat multiset" where
  "mm_run ptr siz = page_run ptr (drop_bit PAGEBITS siz)"

lemma unat_shift_down: "unat (drop_bit PAGEBITS w :: u64) = unat w div 4096"
  by (simp add: PAGEBITS_def unat_drop_bit_eq drop_bit_eq_div unat_div)

lemma mm_run_cut:
  fixes k :: u64
  assumes "4096 dvd unat ptr" and "unat ptr + unat siz \<le> 2 ^ 52" and "unat k * 4096 \<le> unat siz"
  defines "ptr' \<equiv> ptr + push_bit PAGEBITS k" and "siz' \<equiv> siz - push_bit PAGEBITS k"
  shows "mm_run ptr siz = page_run ptr k + mm_run ptr' siz'"
    and "4096 dvd unat ptr'" and "unat ptr' + unat siz' \<le> 2 ^ 52" and "k \<noteq> 0 \<Longrightarrow> ptr' \<noteq> 0"
    and "ptr \<noteq> 0 \<Longrightarrow> ptr' \<noteq> 0"
proof -
  have sh: "unat (push_bit PAGEBITS k) = unat k * 4096" using assms by (intro shift_pages) simp
  have p: "unat ptr' = unat ptr + unat k * 4096" unfolding ptr'_def
    using assms by (subst unat_add_le) (simp_all add: sh)
  have s: "unat siz' = unat siz - unat k * 4096" unfolding siz'_def
    using assms by (subst unat_sub_le) (simp_all add: sh)
  show "4096 dvd unat ptr'" "unat ptr' + unat siz' \<le> 2 ^ 52"
    using assms(1-3) by (simp_all add: p s)
  show "k \<noteq> 0 \<Longrightarrow> ptr' \<noteq> 0" "ptr \<noteq> 0 \<Longrightarrow> ptr' \<noteq> 0" using p by (auto simp: word_eq_iff_unat)
  have d: "unat (drop_bit PAGEBITS siz) = unat k + unat (drop_bit PAGEBITS siz')"
    unfolding unat_shift_down s using assms(3)
    by (metis div_mult_self1 le_add_diff_inverse2 mult.commute zero_neq_numeral add.commute)
  then have e: "drop_bit PAGEBITS siz = k + drop_bit PAGEBITS siz'"
    using unat_u64_less [of "drop_bit PAGEBITS siz"]
    by (simp add: word_eq_iff_unat unat_add_le)
  have "(unat k + unat (drop_bit PAGEBITS siz')) * 4096 \<le> unat siz"
    unfolding d [symmetric] by (simp add: unat_shift_down)
  then have "unat ptr + (unat k + unat (drop_bit PAGEBITS siz')) * 4096 < 2 ^ 64"
    using assms(2) by simp
  from page_run_split [OF this assms(1)]
  show "mm_run ptr siz = page_run ptr k + mm_run ptr' siz'"
    by (simp add: mm_run_def e ptr'_def)
qed


lemma mm_add_free_spec:
  assumes al: "4096 dvd unat ptr" and b: "unat ptr + unat siz \<le> 2 ^ 52"
    and nz: "ptr = 0 \<Longrightarrow> lst = None" and dm: "unat dmab < 2 ^ 40"
    and r: "mm_add_free dmab ptr siz (lst, dma, drv) = ((lst', dma', drv'), new)"
  shows "mm_run ptr siz + reserved lst dma dmab = free_pages new + reserved lst' dma' dmab \<and>
      (\<forall>e \<in> set new. valid_run (pe_base e) (pe_size e)) \<and>
      (lst' = None \<longrightarrow> lst = None \<and> mm_run ptr siz = {#})"
proof -
  have valid: "valid_run q (drop_bit PAGEBITS z)"
    if "4096 dvd unat q" "unat q + unat z \<le> 2 ^ 52" "q \<noteq> 0" "\<not> z < PAGESIZE" for q z :: u64
  proof -
    have "0 < unat z div 4096" using that(4) by (simp add: word_less_nat_alt PAGESIZE_def)
    moreover have "unat z div 4096 * 4096 \<le> unat z" by simp
    ultimately show ?thesis
      using that(1-3) unfolding valid_run_def unat_shift_down by simp
  qed
  have empty: "mm_run q z = {#}" if "z < PAGESIZE" for q z :: u64
    using that by (simp add: mm_run_def word_eq_iff_unat unat_shift_down word_less_nat_alt PAGESIZE_def)
  show "mm_run ptr siz + reserved lst dma dmab = free_pages new + reserved lst' dma' dmab \<and>
      (\<forall>e \<in> set new. valid_run (pe_base e) (pe_size e)) \<and>
      (lst' = None \<longrightarrow> lst = None \<and> mm_run ptr siz = {#})"
  proof (cases "siz < PAGESIZE")
    case True
    with r empty show ?thesis by (auto simp: mm_add_free_def)
  next
    case False
    define ptr1 siz1 where "ptr1 = (if lst = None then ptr + PAGESIZE else ptr)"
      and "siz1 = (if lst = None then siz - PAGESIZE else siz)"
    define lst1 where "lst1 = (if lst = None then Some ptr else lst)"
    have one: "PAGESIZE = push_bit PAGEBITS 1" by (simp add: PAGESIZE_def PAGEBITS_def)
    have "unat (1 :: u64) * 4096 \<le> unat siz" using False by (simp add: word_less_nat_alt PAGESIZE_def)
    note cut1 = mm_run_cut [OF al b this, folded one]
    have st1: "mm_run ptr siz + reserved lst dma dmab = mm_run ptr1 siz1 + reserved lst1 dma dmab"
      "4096 dvd unat ptr1" "unat ptr1 + unat siz1 \<le> 2 ^ 52" "ptr1 \<noteq> 0" "lst1 \<noteq> None"
      using cut1 al b nz by (auto simp: ptr1_def siz1_def lst1_def reserved_def)
    have unf: "mm_add_free dmab ptr siz (lst, dma, drv) =
       (if siz1 < PAGESIZE then ((lst1, dma, drv), [])
        else if dmab \<noteq> 0 \<and> dma = 0 \<and> siz1 \<ge> push_bit PAGEBITS dmab then
          (if siz1 - push_bit PAGEBITS dmab < PAGESIZE
           then ((lst1, ptr1, drv @ [\<lparr>pe_base = ptr1, pe_size = push_bit PAGEBITS dmab\<rparr>]), [])
           else ((lst1, ptr1, drv @ [\<lparr>pe_base = ptr1, pe_size = push_bit PAGEBITS dmab\<rparr>]),
                 [\<lparr>pe_base = ptr1 + push_bit PAGEBITS dmab,
                   pe_size = drop_bit PAGEBITS (siz1 - push_bit PAGEBITS dmab)\<rparr>]))
        else ((lst1, dma, drv), [\<lparr>pe_base = ptr1, pe_size = drop_bit PAGEBITS siz1\<rparr>]))"
      using False by (simp add: mm_add_free_def Let_def ptr1_def siz1_def lst1_def)
    show ?thesis
    proof (cases "siz1 < PAGESIZE")
      case True
      with r unf st1 empty show ?thesis by auto
    next
      case big: False
      show ?thesis
      proof (cases "dmab \<noteq> 0 \<and> dma = 0 \<and> siz1 \<ge> push_bit PAGEBITS dmab")
        case False
        with r unf big st1 valid [of ptr1 siz1] show ?thesis by (auto simp: mm_run_def)
      next
        case True
        have "unat dmab * 4096 \<le> unat siz1"
          using True dm shift_pages [of dmab] by (simp add: word_le_nat_alt)
        note cut2 = mm_run_cut [OF st1(2,3) this]
        have res: "reserved lst1 ptr1 dmab = reserved lst1 dma dmab + page_run ptr1 dmab"
          using True st1(4) by (simp add: reserved_def)
        show ?thesis
        proof (cases "siz1 - push_bit PAGEBITS dmab < PAGESIZE")
          case small: True
          with r unf big True have eq: "lst' = lst1" "dma' = ptr1" "new = []" by auto
          with st1(1,5) cut2(1) empty [OF small] res show ?thesis by (auto simp: ac_simps)
        next
          case large: False
          with r unf big True have eq: "lst' = lst1" "dma' = ptr1"
            "new = [\<lparr>pe_base = ptr1 + push_bit PAGEBITS dmab,
                   pe_size = drop_bit PAGEBITS (siz1 - push_bit PAGEBITS dmab)\<rparr>]" by auto
          with st1(1,5) cut2(1) res valid [OF cut2(2,3) _ large] cut2(5) [OF st1(4)]
          show ?thesis by (auto simp: ac_simps mm_run_def)
        qed
      qed
    qed
  qed
qed


lemma mm_region_run:
  assumes "mm_entry_ok a" and "MMapEnt_IsFree a"
    and "mm_align (mm_ptr a) (MMapEnt_Size a) = (ptr, siz)"
  shows "mm_region a = mm_run ptr siz"
proof -
  define c where "c = (unat (mm_ptr a) + 4095) div 4096"
  note A = mm_align_spec [OF assms, folded c_def]
  have "(unat (mm_ptr a) + unat (MMapEnt_Size a)) div 4096 = c + unat siz div 4096"
    unfolding A(2) [symmetric] A(1) by simp
  with assms(2) A(1) show ?thesis
    by (simp add: mm_region_def mm_run_def page_run_def unat_shift_down c_def [symmetric])
qed

text \<open>The loop invariant: all pages seen so far are accounted for.\<close>

definition mm_inv :: "nat multiset \<Rightarrow> u64 \<times> u64 \<times> u64 option \<times> kstate \<Rightarrow> bool" where
  "mm_inv M st = (case st of (i, m, lst, s) \<Rightarrow>
     M = free_pages (pmm_entries s) + reserved lst (systable_dma s) (dmabuf s) \<and>
     (\<forall>e \<in> set (pmm_entries s). valid_run (pe_base e) (pe_size e)) \<and>
     pmm_totalpages s = of_nat (size (free_pages (pmm_entries s))) \<and> unat (dmabuf s) < 2 ^ 40)"

lemma sum_sizes: "sum_list (map pe_size es) = of_nat (size (free_pages es))"
  by (induction es) (simp_all add: size_union)

lemma mm_step_inv:
  assumes ok: "mm_entry_ok a" and J: "mm_inv M (i, m, lst, s)" and nz: "mm_ptr a = 0 \<Longrightarrow> lst = None"
  shows "mm_inv (M + mm_region a) (mm_step dt a (i, m, lst, s))"
proof (cases "MMapEnt_IsFree a")
  case False
  with J show ?thesis by (simp add: mm_step_def mm_inv_def mm_region_def Let_def kentropy_def)
next
  case True
  obtain ptr siz where al: "mm_align (mm_ptr a) (MMapEnt_Size a) = (ptr, siz)"
    by (cases "mm_align (mm_ptr a) (MMapEnt_Size a)")
  obtain lst' dma' drv' new where ad:
    "mm_add_free (dmabuf s) ptr siz (lst, systable_dma s, drvmem s) = ((lst', dma', drv'), new)"
    by (metis prod_cases3 surj_pair)
  note A = mm_align_spec [OF ok True al]
  have "4096 dvd unat ptr" unfolding A(1) by simp
  moreover have "unat ptr + unat siz \<le> 2 ^ 52" unfolding A(2) using ok by (simp add: mm_entry_ok_def)
  moreover have "ptr = 0 \<Longrightarrow> lst = None"
  proof -
    assume "ptr = 0"
    then have "(unat (mm_ptr a) + 4095) div 4096 = 0" using A(1) by simp
    then have "unat (mm_ptr a) = 0" by (simp add: div_eq_0_iff)
    then show "lst = None" using nz by (simp add: word_eq_iff_unat)
  qed
  moreover have "unat (dmabuf s) < 2 ^ 40" using J by (simp add: mm_inv_def)
  ultimately have S: "mm_run ptr siz + reserved lst (systable_dma s) (dmabuf s) =
      free_pages new + reserved lst' dma' (dmabuf s)" "\<forall>e \<in> set new. valid_run (pe_base e) (pe_size e)"
    using mm_add_free_spec [OF _ _ _ _ ad] by blast+
  show ?thesis
    using J S True al ad mm_region_run [OF ok True al]
    by (auto simp: mm_step_def mm_inv_def Let_def kentropy_def sum_sizes ac_simps)
qed

lemma mm_fold_inv:
  assumes "\<forall>a \<in> set as. mm_entry_ok a" and "mm_inv M st" and "\<forall>a \<in> set as. mm_ptr a \<noteq> 0"
  shows "mm_inv (M + sum_list (map mm_region as)) (fold (mm_step dt) as st)"
  using assms
proof (induction as arbitrary: M st)
  case Nil
  then show ?case by simp
next
  case (Cons a as)
  obtain i m lst s where st: "st = (i, m, lst, s)" by (cases st)
  have "mm_inv (M + mm_region a) (mm_step dt a st)"
    unfolding st using Cons.prems by (intro mm_step_inv) (auto simp: st)
  from Cons.IH [OF _ this] Cons.prems show ?case by (simp add: ac_simps)
qed

lemma wf_entries_size:
  assumes "wf_entries es"
  shows "size (free_pages es) \<le> 2 ^ 52"
proof -
  let ?F = "free_pages es"
  have sub: "set_mset (free_pages es) \<subseteq> {..< 2 ^ 52}"
    if "\<forall>e \<in> set es. valid_run (pe_base e) (pe_size e)" for es
    using that
  proof (induction es)
    case (Cons e es)
    have "unat (pe_base e) div 4096 + unat (pe_size e) < 2 ^ 52"
      using Cons.prems by (auto simp: valid_run_def elim!: dvdE)
    then have "set_mset (page_run (pe_base e) (pe_size e)) \<subseteq> {..< 2 ^ 52}"
      by (auto simp: page_run_def)
    with Cons show ?case by simp
  qed simp
  have "?F = mset_set (set_mset ?F)"
  proof (rule multiset_eqI)
    fix q
    have "count ?F q \<le> 1" using assms by (simp add: wf_entries_def)
    moreover have "q \<in># ?F \<longleftrightarrow> 0 < count ?F q" by simp
    ultimately have "count ?F q = (if q \<in># ?F then 1 else 0)" by (cases "count ?F q") simp_all
    then show "count ?F q = count (mset_set (set_mset ?F)) q" by (simp add: count_mset_set')
  qed
  then have "size ?F = card (set_mset ?F)" by (metis size_mset_set)
  also have "\<dots> \<le> card {..< (2::nat) ^ 52}"
    using assms sub by (intro card_mono) (auto simp: wf_entries_def)
  finally show ?thesis by simp
qed

text \<open>
  The map must not list a page twice, and only its first region may start at address 0.
\<close>

definition mmap_ok :: "MMapEnt list \<Rightarrow> bool" where
  "mmap_ok mmap \<longleftrightarrow> (\<forall>a \<in> set mmap. mm_entry_ok a) \<and> (\<forall>a \<in> set (tl mmap). mm_ptr a \<noteq> 0) \<and>
     (\<forall>q. count (sum_list (map mm_region mmap)) q \<le> 1)"

lemma pmm_init_accounts:
  assumes ok: "mmap_ok mmap" and d: "unat (dmabuf s) < 2 ^ 40"
    and r: "pmm_init dt mmap s = Done s'"
  shows "pmm_inv s' \<and> pmm_freepages s' = pmm_totalpages s' \<and> tcb_magic (idle_tcb s') = OSZ_TCB_MAGICH \<and>
    (\<exists>lst. sum_list (map mm_region mmap) =
       free_pages (pmm_entries s') + reserved lst (systable_dma s') (dmabuf s'))"
proof -
  let ?s0 = "s\<lparr>pmm_entries := [], pmm_totalpages := 0, systable_dma := 0, drvmem := []\<rparr>"
  obtain n m lst t where f: "fold (mm_step dt) mmap (0, 0, None, ?s0) = (n, m, lst, t)"
    by (metis prod_cases4)
  have J0: "mm_inv {#} (0, 0, None, ?s0)" using d by (simp add: mm_inv_def reserved_def)
  have J: "mm_inv (sum_list (map mm_region mmap)) (n, m, lst, t)"
  proof (cases mmap)
    case Nil
    with f J0 show ?thesis by simp
  next
    case (Cons a as)
    have "mm_inv ({#} + mm_region a) (mm_step dt a (0, 0, None, ?s0))"
      using ok Cons J0 by (intro mm_step_inv) (simp_all add: mmap_ok_def)
    then have "mm_inv ({#} + mm_region a + sum_list (map mm_region as))
        (fold (mm_step dt) as (mm_step dt a (0, 0, None, ?s0)))"
      using ok Cons by (intro mm_fold_inv) (simp_all add: mmap_ok_def)
    with f Cons show ?thesis by simp
  qed
  have s': "s' = t\<lparr>pmm_freepages := pmm_totalpages t, idle_tcb := (idle_tcb t)\<lparr>tcb_magic := OSZ_TCB_MAGICH,
      tcb_allocmem := 0, tcb_linkmem := 0\<rparr>\<rparr>"
    using r f by (auto simp: pmm_init_def Let_def split: if_splits)
  have wf: "wf_entries (pmm_entries t)"
    unfolding wf_entries_def
  proof (intro conjI allI)
    show "\<forall>e \<in> set (pmm_entries t). valid_run (pe_base e) (pe_size e)" using J by (simp add: mm_inv_def)
    fix q
    have "count (free_pages (pmm_entries t)) q \<le> count (sum_list (map mm_region mmap)) q"
      using J by (simp add: mm_inv_def)
    also have "\<dots> \<le> 1" using ok by (simp add: mmap_ok_def)
    finally show "count (free_pages (pmm_entries t)) q \<le> 1" .
  qed
  have "unat (pmm_totalpages t) = size (free_pages (pmm_entries t))"
    using J wf_entries_size [OF wf] by (simp add: mm_inv_def unat_of_nat take_bit_nat_eq_self)
  then show ?thesis using J wf s' by (auto simp: pmm_inv_def mm_inv_def)
qed

section \<open>Properties\<close>

text \<open>
  C1. Allocation of \<open>n\<close> pages. If some free run is long enough, the call returns the start of
  the first such run; the returned pages are page aligned and were free, exactly they leave the
  free set, their memory reads zero and all other memory is as before, the pages are charged to
  the task, and the bookkeeping invariant holds again. Otherwise nothing changes but the error
  code (or the boot stops with a panic).
\<close>

theorem pmm_alloc_correct:
  assumes "pmm_inv s" and "tcb_magic (get_tcb p s) = OSZ_TCB_MAGICH" and "n \<noteq> 0"
  shows "if \<exists>e \<in> set (pmm_entries s). n \<le> pe_size e then
      \<exists>i b s'. pmm_alloc p n s = Done (b, s') \<and>
        i < length (pmm_entries s) \<and> b = pe_base (pmm_entries s ! i) \<and> n \<le> pe_size (pmm_entries s ! i) \<and>
        (\<forall>j < i. pe_size (pmm_entries s ! j) < n) \<and> valid_run b n \<and>
        free_pages (pmm_entries s) = page_run b n + free_pages (pmm_entries s') \<and> pmm_inv s' \<and>
        (\<forall>a. unat b \<le> unat a \<and> unat a < unat b + unat n * 4096 \<longrightarrow> phymem s' a = 0) \<and>
        (\<forall>a. unat a < unat b \<or> unat b + unat n * 4096 \<le> unat a \<longrightarrow> phymem s' a = phymem s a) \<and>
        get_tcb p s' = (get_tcb p s)\<lparr>tcb_allocmem := tcb_allocmem (get_tcb p s) + n\<rparr>
    else pmm_alloc p n s = (if runlevel s < RUNLVL_NORM then KPanic ''pmm_alloc: out of ram''
           else Done (0, seterr ENOMEM s))"
proof (cases "pmm_take n (pmm_entries s)")
  case None
  then have "\<not> (\<exists>e \<in> set (pmm_entries s). n \<le> pe_size e)" by (auto simp: pmm_take_None_iff not_le)
  with pmm_alloc_None [OF assms None] show ?thesis by simp
next
  case (Some a)
  then obtain b es where t: "pmm_take n (pmm_entries s) = Some (b, es)" by (cases a) auto
  have ex: "\<exists>e \<in> set (pmm_entries s). n \<le> pe_size e"
    using t pmm_take_None_iff [of n "pmm_entries s"] by (auto simp: not_less)
  from pmm_take_first_fit [OF t] obtain i where i: "i < length (pmm_entries s)"
    "b = pe_base (pmm_entries s ! i)" "n \<le> pe_size (pmm_entries s ! i)"
    "\<forall>j < i. pe_size (pmm_entries s ! j) < n" by blast
  from pmm_alloc_Some [OF assms t] obtain s' where s': "pmm_alloc p n s = Done (b, s')" "valid_run b n"
    "free_pages (pmm_entries s) = page_run b n + free_pages (pmm_entries s')" "pmm_inv s'"
    "phymem s' = zero_range b (unat n * 4096) (phymem s)"
    "get_tcb p s' = (get_tcb p s)\<lparr>tcb_allocmem := tcb_allocmem (get_tcb p s) + n\<rparr>" by blast
  have mem: "\<forall>a. unat b \<le> unat a \<and> unat a < unat b + unat n * 4096 \<longrightarrow> phymem s' a = 0"
    "\<forall>a. unat a < unat b \<or> unat b + unat n * 4096 \<le> unat a \<longrightarrow> phymem s' a = phymem s a"
    using s'(2,5) by (simp_all add: zero_range_cleared zero_range_outside valid_run_def)
  have "\<exists>i b s'. pmm_alloc p n s = Done (b, s') \<and>
        i < length (pmm_entries s) \<and> b = pe_base (pmm_entries s ! i) \<and> n \<le> pe_size (pmm_entries s ! i) \<and>
        (\<forall>j < i. pe_size (pmm_entries s ! j) < n) \<and> valid_run b n \<and>
        free_pages (pmm_entries s) = page_run b n + free_pages (pmm_entries s') \<and> pmm_inv s' \<and>
        (\<forall>a. unat b \<le> unat a \<and> unat a < unat b + unat n * 4096 \<longrightarrow> phymem s' a = 0) \<and>
        (\<forall>a. unat a < unat b \<or> unat b + unat n * 4096 \<le> unat a \<longrightarrow> phymem s' a = phymem s a) \<and>
        get_tcb p s' = (get_tcb p s)\<lparr>tcb_allocmem := tcb_allocmem (get_tcb p s) + n\<rparr>"
    by (intro exI [of _ i] exI [of _ b] exI [of _ s'] conjI s' i mem)
  with ex show ?thesis by simp
qed

text \<open>A small machine for the examples: two free runs and one task.\<close>

definition pmm_example :: kstate where
  "pmm_example = zero_kstate\<lparr>
     pmm_entries := [\<lparr>pe_base = 0x1000, pe_size = 1\<rparr>, \<lparr>pe_base = 0x100000, pe_size = 1024\<rparr>],
     pmm_totalpages := 2000, pmm_freepages := 1025, runlevel := RUNLVL_NORM,
     tcbs := (\<lambda>_. zero_tcb\<lparr>tcb_magic := OSZ_TCB_MAGICH\<rparr>)\<rparr>"

lemma pmm_example_simps [simp]:
  "pmm_entries pmm_example = [\<lparr>pe_base = 0x1000, pe_size = 1\<rparr>, \<lparr>pe_base = 0x100000, pe_size = 1024\<rparr>]"
  "pmm_totalpages pmm_example = 2000" "pmm_freepages pmm_example = 1025"
  "runlevel pmm_example = RUNLVL_NORM"
  "tcb_magic (get_tcb (TCB q) pmm_example) = OSZ_TCB_MAGICH"
  by (simp_all add: pmm_example_def get_tcb_def)

lemma pmm_example_inv [simp]: "pmm_inv pmm_example"
  by (simp add: pmm_inv_def wf_entries_def valid_run_def count_page_run)

theorem pmm_alloc_correct_witness:
  "\<exists>b s'. pmm_alloc (TCB 7) 4 pmm_example = Done (b, s') \<and> b = 0x100000 \<and> pmm_inv s' \<and>
     free_pages (pmm_entries pmm_example) = page_run b 4 + free_pages (pmm_entries s')"
proof -
  have "\<exists>e \<in> set (pmm_entries pmm_example). (4::u64) \<le> pe_size e" by simp
  with pmm_alloc_correct [of pmm_example "TCB 7" 4] obtain i b s' where *:
    "pmm_alloc (TCB 7) 4 pmm_example = Done (b, s')" "i < length (pmm_entries pmm_example)"
    "b = pe_base (pmm_entries pmm_example ! i)" "4 \<le> pe_size (pmm_entries pmm_example ! i)"
    "free_pages (pmm_entries pmm_example) = page_run b 4 + free_pages (pmm_entries s')" "pmm_inv s'"
    by auto
  then have "b = 0x100000" by (auto simp: less_Suc_eq word_le_nat_alt)
  with * show ?thesis by blast
qed

text \<open>
  C2. Freeing a run of pages that is not free already puts exactly these pages back, keeps the
  list well formed and the page count, and takes the pages off the task's account. The run is merged with the entry that ends
  where it starts and the entry that starts where it ends: of the freed run and its neighbours one entry stays, and if no
  two entries of the list touched each other before, none do afterwards.
\<close>

theorem pmm_free_correct:
  assumes "pmm_inv s" and "tcb_magic (get_tcb p s) = OSZ_TCB_MAGICH"
    and "valid_run base n" and "page_run base n \<inter># free_pages (pmm_entries s) = {#}"
    and "size (free_pages (pmm_entries s)) + unat n \<le> unat (pmm_totalpages s)"
  shows "\<exists>s'. pmm_free p base n s = Done s' \<and> pmm_inv s' \<and>
      free_pages (pmm_entries s') = free_pages (pmm_entries s) + page_run base n \<and>
      get_tcb p s' = (get_tcb p s)\<lparr>tcb_allocmem := tcb_allocmem (get_tcb p s) - n\<rparr> \<and>
      (compact (pmm_entries s) \<longrightarrow> compact (pmm_entries s') \<and>
        length (pmm_entries s') + ends_at base (pmm_entries s) + starts_at (base + push_bit PAGEBITS n) (pmm_entries s) =
          Suc (length (pmm_entries s)))"
  using pmm_free_spec [OF assms] by blast

theorem pmm_free_correct_witness:
  "\<exists>s'. pmm_free (TCB 7) 0x2000 254 pmm_example = Done s' \<and> pmm_inv s' \<and> length (pmm_entries pmm_example) = 2 \<and>
      length (pmm_entries s') = 1 \<and> free_pages (pmm_entries s') = free_pages (pmm_entries pmm_example) + page_run 0x2000 254"
proof -
  have "page_run 0x2000 254 \<inter># free_pages (pmm_entries pmm_example) = {#}"
    by (rule multiset_eqI) (simp add: count_page_run)
  moreover have "compact (pmm_entries pmm_example)" "ends_at 0x2000 (pmm_entries pmm_example) = 1"
    "starts_at (0x2000 + push_bit PAGEBITS 254) (pmm_entries pmm_example) = 1"
    by (simp_all add: compact_def ends_at_def starts_at_def pe_end_def PAGEBITS_def)
  ultimately show ?thesis
    using pmm_free_correct [of pmm_example "TCB 7" "0x2000" 254] by (auto simp: valid_run_def)
qed

text \<open>
  C3. Allocating a run and freeing it again succeeds and gives back the free set there was,
  and in between no second allocation can return any of its pages.
\<close>

theorem pmm_alloc_free_roundtrip:
  assumes "pmm_ready p s" and "pmm_alloc_run p n s = Some (b, s1)"
  shows "(\<exists>s2. pmm_release_run p b n s1 = Some s2 \<and> pmm_ready p s2 \<and>
            free_pages (pmm_entries s2) = free_pages (pmm_entries s)) \<and>
         (\<forall>m c s3. pmm_alloc_run p m s1 = Some (c, s3) \<longrightarrow> page_run b n \<inter># page_run c m = {#})"
  using pmm.alloc_release [OF assms] pmm.two_allocs_disjoint [OF assms] by blast

theorem pmm_alloc_free_roundtrip_witness:
  "\<exists>b s1 s2. pmm_alloc_run (TCB 7) 4 pmm_example = Some (b, s1) \<and>
     pmm_release_run (TCB 7) b 4 s1 = Some s2 \<and> pmm_ready (TCB 7) s2 \<and>
     free_pages (pmm_entries s2) = free_pages (pmm_entries pmm_example)"
proof -
  have r: "pmm_ready (TCB 7) pmm_example" by (simp add: pmm_ready_def)
  have "pmm_take 4 (pmm_entries pmm_example) = Some (0x100000,
      [\<lparr>pe_base = 0x1000, pe_size = 1\<rparr>, \<lparr>pe_base = 0x104000, pe_size = 1020\<rparr>])"
    by (simp add: PAGEBITS_def word_le_nat_alt)
  from pmm_alloc_Some [OF _ _ _ this, of "TCB 7"]
  obtain s1 where a: "pmm_alloc_run (TCB 7) 4 pmm_example = Some (0x100000, s1)"
    by (auto simp: pmm_alloc_run_def)
  with pmm_alloc_free_roundtrip [OF r a] show ?thesis by blast
qed

text \<open>
  C4. Slot allocation returns 2M of cleared memory aligned to 2M, and the free set loses exactly
  those 512 pages, provided no entry would have to be cut so that its upper part vanishes.
\<close>

theorem pmm_allocslot_correct:
  assumes "pmm_inv s" and "tcb_magic (get_tcb p s) = OSZ_TCB_MAGICH"
    and "\<forall>e \<in> set (pmm_entries s). unat (pe_end e) \<le> 2 ^ 52 \<and> slot_clean e"
    and "slot_take (pmm_entries s) \<noteq> None"
  shows "\<exists>b s'. pmm_allocslot p s = Done (b, s') \<and> 2097152 dvd unat b \<and> b \<noteq> 0 \<and>
      free_pages (pmm_entries s) = page_run b 512 + free_pages (pmm_entries s') \<and> pmm_inv s' \<and>
      (\<forall>a. unat b \<le> unat a \<and> unat a < unat b + 2097152 \<longrightarrow> phymem s' a = 0)"
proof -
  obtain b base es where "slot_take (pmm_entries s) = Some (b, base, es)" using assms(4) by auto
  from pmm_allocslot_Some [OF assms(1,2) _ _ this] assms(3) show ?thesis
    by (auto simp: zero_range_cleared valid_run_def)
qed

theorem pmm_allocslot_correct_witness:
  "\<exists>b s'. pmm_allocslot (TCB 7) pmm_example = Done (b, s') \<and> 2097152 dvd unat b \<and> pmm_inv s'"
proof -
  have "slot_take (pmm_entries pmm_example) \<noteq> None"
    by (simp add: Let_def SLOTSIZE_def pe_end_def PAGEBITS_def)
  then show ?thesis
    using pmm_allocslot_correct [of pmm_example "TCB 7"]
    by (auto simp: pe_end_def PAGEBITS_def slot_clean_def)
qed

text \<open>
  When the slot is the upper end of an entry that also has pages below it, the pages below
  are lost: the list keeps an empty entry instead, while the page counter still counts them.
\<close>

lemma pmm_allocslot_loses_pages:
  "\<exists>s s'. pmm_inv s \<and> pmm_entries s = [\<lparr>pe_base = 0x1FF000, pe_size = 513\<rparr>] \<and>
     pmm_allocslot (TCB 7) s = Done (0x200000, s') \<and>
     pmm_entries s' = [\<lparr>pe_base = 0x400000, pe_size = 0\<rparr>] \<and> pmm_freepages s' = 1 \<and> \<not> pmm_inv s'"
proof -
  define s where "s = pmm_example\<lparr>pmm_entries := [\<lparr>pe_base = 0x1FF000, pe_size = 513\<rparr>], pmm_freepages := 513\<rparr>"
  have e: "pmm_entries s = [\<lparr>pe_base = 0x1FF000, pe_size = 513\<rparr>]" by (simp add: s_def)
  have i: "pmm_inv s"
    by (simp add: s_def pmm_inv_def wf_entries_def valid_run_def count_page_run)
  have m: "tcb_magic (get_tcb (TCB 7) s) = OSZ_TCB_MAGICH" by (simp add: s_def pmm_example_def get_tcb_def)
  have t: "slot_take (pmm_entries s) = Some (0x200000, 0x1FF000, [\<lparr>pe_base = 0x400000, pe_size = 0\<rparr>])"
    by (simp add: e Let_def SLOTSIZE_def PAGESIZE_def pe_end_def PAGEBITS_def drop_bit_eq_div)
  have f: "pmm_freepages s = 513" by (simp add: s_def)
  obtain s' where r: "pmm_allocslot (TCB 7) s = Done (0x200000, s')"
    "pmm_entries s' = [\<lparr>pe_base = 0x400000, pe_size = 0\<rparr>]" "pmm_freepages s' = 1"
    using m t by (auto simp: pmm_allocslot_def Let_def frame_simps f)
  have "\<not> pmm_inv s'" using r by (simp add: pmm_inv_def)
  with r e i show ?thesis by blast
qed

text \<open>
  Freeing from physical address 0 keeps the first page reserved, but the search for a
  neighbour still uses the byte length of the whole run. The call below frees page 1 only
  (pages 0 and 1 less the reserved one); instead page 2, which belongs to somebody, becomes
  free and the free page 3 is lost.
\<close>

lemma pmm_free_base_zero:
  "\<exists>s s'. pmm_inv s \<and> free_pages (pmm_entries s) = {#3#} \<and>
     pmm_free (TCB 7) 0 2 s = Done s' \<and> free_pages (pmm_entries s') = {#1, 2#}"
proof -
  define s where "s = pmm_example\<lparr>pmm_entries := [\<lparr>pe_base = 0x3000, pe_size = 1\<rparr>], pmm_freepages := 1\<rparr>"
  have e: "pmm_entries s = [\<lparr>pe_base = 0x3000, pe_size = 1\<rparr>]" by (simp add: s_def)
  have run: "page_run 0x3000 1 = {#3#}" "page_run 0x1000 2 = {#1, 2#}"
    by (rule multiset_eqI, auto simp: count_page_run)+
  have i: "pmm_inv s"
    by (simp add: s_def pmm_inv_def wf_entries_def valid_run_def count_page_run)
  have m: "tcb_magic (get_tcb (TCB 7) s) = OSZ_TCB_MAGICH" by (simp add: s_def pmm_example_def get_tcb_def)
  have ins: "free_insert 0x1000 1 0x2000 (pmm_entries s) = (0, [\<lparr>pe_base = 0x1000, pe_size = 2\<rparr>])"
    by (simp add: e free_insert_def)
  have mrg: "free_merge 0 [\<lparr>pe_base = 0x1000, pe_size = 2\<rparr>] = [\<lparr>pe_base = 0x1000, pe_size = 2\<rparr>]"
    by (simp add: free_merge_def pe_end_def PAGEBITS_def)
  have "\<exists>s'. pmm_free (TCB 7) 0 2 s = Done s' \<and> pmm_entries s' = [\<lparr>pe_base = 0x1000, pe_size = 2\<rparr>]"
    using m ins mrg
    by (simp add: pmm_free_def Let_def PAGESIZE_def PAGEBITS_def kentropy_def frame_simps)
      (simp add: s_def)
  then show ?thesis using i e run by (auto simp: free_pages_def)
qed

text \<open>
  C5. After initialisation from a valid memory map, the free list is well formed, all counters
  agree, and the whole free pages of the map are divided without loss or overlap between the
  list, the page that holds the list and the DMA buffer.
\<close>

theorem pmm_init_correct:
  assumes "mmap_ok mmap" and "unat (dmabuf s) < 2 ^ 40" and "pmm_init dt mmap s = Done s'"
  shows "pmm_inv s' \<and> pmm_freepages s' = pmm_totalpages s' \<and>
    (\<exists>lst. sum_list (map mm_region mmap) =
       free_pages (pmm_entries s') + reserved lst (systable_dma s') (dmabuf s'))"
  using pmm_init_accounts [OF assms] by blast

theorem pmm_init_correct_witness:
  "\<exists>s'. pmm_init 0 [\<lparr>mm_ptr = 0, mm_size = 0x9F001\<rparr>, \<lparr>mm_ptr = 0x9F000, mm_size = 0x61000\<rparr>,
       \<lparr>mm_ptr = 0x100000, mm_size = 0x4000001\<rparr>] zero_kstate = Done s' \<and>
     pmm_inv s' \<and> pmm_freepages s' = pmm_totalpages s'"
proof -
  let ?m = "[\<lparr>mm_ptr = 0, mm_size = 0x9F001\<rparr>, \<lparr>mm_ptr = 0x9F000, mm_size = 0x61000\<rparr>,
       \<lparr>mm_ptr = 0x100000, mm_size = 0x4000001\<rparr>]"
  have ok: "mmap_ok ?m"
    by (simp add: mmap_ok_def mm_entry_ok_def MMapEnt_Size_def MMapEnt_IsFree_def PAGESIZE_def
        mm_region_def count_mset_set')
  have "\<exists>s'. pmm_init 0 ?m zero_kstate = Done s'"
    by (simp add: pmm_init_def mm_step_def Let_def kentropy_def zero_kstate_def MMapEnt_Size_def
        MMapEnt_IsFree_def mm_align_def mm_add_free_def PAGESIZE_def PHYMEM_MIN_def)
  with pmm_init_correct [OF ok, of zero_kstate] show ?thesis
    by (auto simp: zero_kstate_def)
qed

end
