(* ===== verification/Core_Sched.thy ===== *)
theory Core_Sched
  imports Core_Pmm
begin

text \<open>
  The scheduler, \<^verbatim>\<open>src/core/sched.c\<close>: per CPU eight priority queues of ready tasks, a queue of
  blocked tasks (both doubly linked through the control blocks) and a queue of sleeping tasks
  ordered by wake-up time. Statements that read a field of a task after a window was remapped
  read it through the window again, so every access is written with \<open>get_tcb\<close> on the state
  at that point.
\<close>

section \<open>Operations\<close>

text \<open>The parameter check every operation starts with.\<close>

definition sched_param_ok :: "tcbptr \<Rightarrow> kstate \<Rightarrow> bool" where
  "sched_param_ok tcb s \<longleftrightarrow> tcb_magic (get_tcb tcb s) = OSZ_TCB_MAGICH \<and>
     tcb_priority (get_tcb tcb s) \<le> PRI_IDLE \<and> tcb_cpuid (get_tcb tcb s) < numcores s"

definition set_hd_active :: "u32 \<Rightarrow> nat \<Rightarrow> u64 \<Rightarrow> kstate \<Rightarrow> kstate" where
  "set_hd_active c i v = upd_ccb c (\<lambda>x. x\<lparr>ccb_hd_active := (ccb_hd_active x)(i := v)\<rparr>)"

definition set_cr_active :: "u32 \<Rightarrow> nat \<Rightarrow> u64 \<Rightarrow> kstate \<Rightarrow> kstate" where
  "set_cr_active c i v = upd_ccb c (\<lambda>x. x\<lparr>ccb_cr_active := (ccb_cr_active x)(i := v)\<rparr>)"

definition set_hd_blocked :: "u32 \<Rightarrow> u64 \<Rightarrow> kstate \<Rightarrow> kstate" where
  "set_hd_blocked c v = upd_ccb c (\<lambda>x. x\<lparr>ccb_hd_blocked := v\<rparr>)"

definition set_hd_timerq :: "u32 \<Rightarrow> u64 \<Rightarrow> kstate \<Rightarrow> kstate" where
  "set_hd_timerq c v = upd_ccb c (\<lambda>x. x\<lparr>ccb_hd_timerq := v\<rparr>)"

abbreviation pri_of :: "tcbptr \<Rightarrow> kstate \<Rightarrow> nat" where
  "pri_of tcb s \<equiv> unat (tcb_priority (get_tcb tcb s))"

definition sched_add :: "tcbptr \<Rightarrow> kstate \<Rightarrow> kstate" where
  "sched_add tcb s = (
     if \<not> sched_param_ok tcb s then seterr EINVAL s
     else
       let c = tcb_cpuid (get_tcb tcb s);
           s = upd_tcb tcb (\<lambda>t. t\<lparr>tcb_state := TCB_STATE_RUNNING, tcb_prev := 0\<rparr>) s;
           s = upd_tcb tcb (\<lambda>t. t\<lparr>tcb_next := ccb_hd_active (ccbs s c) (pri_of tcb s)\<rparr>) s;
           s = set_hd_active c (pri_of tcb s) (tcb_pid (get_tcb tcb s)) s
       in if tcb_next (get_tcb tcb s) \<noteq> 0
          then upd_tcb (TCB (tcb_next (get_tcb tcb s))) (\<lambda>t. t\<lparr>tcb_prev := tcb_pid (get_tcb tcb s)\<rparr>) s
          else s)"

text \<open>Taking a task out of the list it is linked into: the last two steps of a removal.\<close>

definition sched_unlink :: "tcbptr \<Rightarrow> kstate \<Rightarrow> kstate" where
  "sched_unlink tcb s = (
     let s = (if tcb_prev (get_tcb tcb s) \<noteq> 0
              then upd_tcb (TCB (tcb_prev (get_tcb tcb s))) (\<lambda>t. t\<lparr>tcb_next := tcb_next (get_tcb tcb s)\<rparr>) s
              else s)
     in if tcb_next (get_tcb tcb s) \<noteq> 0
        then upd_tcb (TCB (tcb_next (get_tcb tcb s))) (\<lambda>t. t\<lparr>tcb_prev := tcb_prev (get_tcb tcb s)\<rparr>) s
        else s)"

text \<open>Moving the timer queue head on, with the alarm window following it.\<close>

definition timerq_advance :: "u32 \<Rightarrow> tcbptr \<Rightarrow> kstate \<Rightarrow> kstate" where
  "timerq_advance c tcb s = (
     let s = set_hd_timerq c (tcb_next (get_tcb tcb s)) s
     in if ccb_hd_timerq (ccbs s c) \<noteq> 0 then s\<lparr>win_alarm := ccb_hd_timerq (ccbs s c)\<rparr> else s)"

text \<open>The four head pointers a removed task may be named by.\<close>

definition drop_active :: "u32 \<Rightarrow> tcbptr \<Rightarrow> kstate \<Rightarrow> kstate" where
  "drop_active c tcb s = (if ccb_hd_active (ccbs s c) (pri_of tcb s) = tcb_pid (get_tcb tcb s)
     then set_hd_active c (pri_of tcb s) (tcb_next (get_tcb tcb s)) s else s)"

definition drop_current :: "u32 \<Rightarrow> tcbptr \<Rightarrow> kstate \<Rightarrow> kstate" where
  "drop_current c tcb s = (if ccb_cr_active (ccbs s c) (pri_of tcb s) = tcb_pid (get_tcb tcb s)
     then set_cr_active c (pri_of tcb s) (tcb_next (get_tcb tcb s)) s else s)"

definition drop_blocked :: "u32 \<Rightarrow> tcbptr \<Rightarrow> kstate \<Rightarrow> kstate" where
  "drop_blocked c tcb s = (if ccb_hd_blocked (ccbs s c) = tcb_pid (get_tcb tcb s)
     then set_hd_blocked c (tcb_next (get_tcb tcb s)) s else s)"

definition drop_timer :: "u32 \<Rightarrow> tcbptr \<Rightarrow> kstate \<Rightarrow> kstate" where
  "drop_timer c tcb s = (if ccb_hd_timerq (ccbs s c) = tcb_pid (get_tcb tcb s)
     then timerq_advance c tcb s else s)"

definition sched_remove :: "tcbptr \<Rightarrow> kstate \<Rightarrow> kstate" where
  "sched_remove tcb s = (
     if \<not> sched_param_ok tcb s then s
     else
       let c = tcb_cpuid (get_tcb tcb s)
       in upd_tcb tcb (\<lambda>t. t\<lparr>tcb_prev := 0, tcb_next := 0\<rparr>)
            (sched_unlink tcb (drop_timer c tcb (drop_blocked c tcb (drop_current c tcb (drop_active c tcb s))))))"

text \<open>
  \<open>sched_awake\<close>: the steps for a task that is not running, in order, and the common end.
\<close>

definition awake_account :: "tcbptr \<Rightarrow> kstate \<Rightarrow> kstate" where
  "awake_account tcb s = upd_tcb tcb (\<lambda>t.
     t\<lparr>tcb_state := (if tcb_state t = TCB_STATE_HYBERND then TCB_STATE_BLOCKED else tcb_state t),
       tcb_blkcnt := tcb_blkcnt t + (clock_ticks s - tcb_blktime t), tcb_blktime := 0\<rparr>) s"

definition awake_timer :: "u32 \<Rightarrow> tcbptr \<Rightarrow> kstate \<Rightarrow> kstate" where
  "awake_timer c tcb s = (if ccb_hd_timerq (ccbs s c) = tcb_pid (get_tcb tcb s)
     then timerq_advance c tcb (upd_tcb tcb (\<lambda>t. t\<lparr>tcb_alarmusec := 0\<rparr>) s) else s)"

definition awake_cpu :: "u32 \<Rightarrow> kstate \<Rightarrow> kstate" where
  "awake_cpu c s = (if ccb_id (ccbs s c) \<noteq> ccb_id (ccbs s (this_cpu s)) \<and>
       ccb_current (ccbs s c) = tcb_pid (idle_tcb s)
     then s\<lparr>awakened := awakened s @ [ccb_id (ccbs s c)]\<rparr> else s)"

definition awake_next :: "u32 \<Rightarrow> tcbptr \<Rightarrow> kstate \<Rightarrow> kstate" where
  "awake_next c tcb s = upd_ccb c (\<lambda>x. x\<lparr>ccb_hasactivetask := True\<rparr>)
     (set_cr_active c (pri_of tcb s) (tcb_pid (get_tcb tcb s)) s)"

definition sched_awake :: "tcbptr \<Rightarrow> kstate \<Rightarrow> kstate" where
  "sched_awake tcb s = (
     if \<not> sched_param_ok tcb s then s
     else
       let c = tcb_cpuid (get_tcb tcb s)
       in awake_next c tcb
            (if tcb_state (get_tcb tcb s) \<noteq> TCB_STATE_RUNNING
             then awake_cpu c (sched_add tcb (sched_unlink tcb (awake_timer c tcb (drop_blocked c tcb
                    (awake_account tcb s)))))
             else s))"

text \<open>Linking a task in front of the blocked queue.\<close>

definition blocked_push :: "u32 \<Rightarrow> tcbptr \<Rightarrow> kstate \<Rightarrow> kstate" where
  "blocked_push c tcb s = (
     let s = upd_tcb tcb (\<lambda>t. t\<lparr>tcb_next := ccb_hd_blocked (ccbs s c), tcb_prev := 0\<rparr>) s;
         s = (if ccb_hd_blocked (ccbs s c) \<noteq> 0
              then upd_tcb (TCB (ccb_hd_blocked (ccbs s c))) (\<lambda>t. t\<lparr>tcb_prev := tcb_pid (get_tcb tcb s)\<rparr>) s
              else s)
     in set_hd_blocked c (tcb_pid (get_tcb tcb s)) s)"

definition sched_block :: "tcbptr \<Rightarrow> kstate \<Rightarrow> kstate" where
  "sched_block tcb s = (
     if \<not> sched_param_ok tcb s \<or> tcb_state (get_tcb tcb s) \<noteq> TCB_STATE_RUNNING then s
     else
       let c = tcb_cpuid (get_tcb tcb s);
           s = upd_tcb tcb (\<lambda>t. t\<lparr>tcb_state := TCB_STATE_BLOCKED, tcb_blktime := clock_ticks s\<rparr>) s
       in blocked_push c tcb (sched_remove tcb s))"

definition sched_hybernate :: "tcbptr \<Rightarrow> kstate \<Rightarrow> kstate" where
  "sched_hybernate tcb s = (
     if \<not> sched_param_ok tcb s \<or> tcb_state (get_tcb tcb s) \<noteq> TCB_STATE_BLOCKED then s
     else upd_tcb tcb (\<lambda>t. t\<lparr>tcb_state := TCB_STATE_HYBERND\<rparr>) s)"

text \<open>
  The search loop of \<^verbatim>\<open>sched_delay\<close> over the timer queue. It follows \<^verbatim>\<open>next\<close> pointers, so on a
  cyclic queue it would not end: None stands for that.
\<close>

partial_function (option) delay_find ::
  "(u64 \<Rightarrow> tcb_t) \<Rightarrow> u64 \<Rightarrow> u64 \<Rightarrow> u64 \<Rightarrow> (u64 \<times> u64) option" where
  "delay_find T alarm prv nxt = (
     if nxt = 0 then Some (prv, nxt)
     else if alarm < tcb_alarmusec (T nxt) then Some (prv, nxt)
     else delay_find T alarm nxt (tcb_next (T nxt)))"

definition sched_delay :: "tcbptr \<Rightarrow> u64 \<Rightarrow> kstate \<Rightarrow> kstate option" where
  "sched_delay tcb usec s = (
     if \<not> sched_param_ok tcb s \<or> tcb_state (get_tcb tcb s) \<noteq> TCB_STATE_RUNNING then Some s
     else
       let c = tcb_cpuid (get_tcb tcb s);
           s = upd_tcb tcb (\<lambda>t. t\<lparr>tcb_state := TCB_STATE_BLOCKED\<rparr>) s;
           s = sched_remove tcb s;
           s = (if ccb_hd_timerq (ccbs s c) = 0 then upd_ccb c (\<lambda>x. x\<lparr>ccb_sched_ticks := 0\<rparr>) s else s);
           s = upd_tcb tcb (\<lambda>t. t\<lparr>tcb_alarmusec := ccb_sched_ticks (ccbs s c) + usec\<rparr>) s
       in case delay_find (tcbs s) (tcb_alarmusec (get_tcb tcb s)) 0 (ccb_hd_timerq (ccbs s c)) of
            None \<Rightarrow> None
          | Some (prv, nxt) \<Rightarrow>
              let s = upd_tcb tcb (\<lambda>t. t\<lparr>tcb_next := nxt\<rparr>) s
              in Some (if prv \<noteq> 0
                 then upd_tcb (TCB prv) (\<lambda>t. t\<lparr>tcb_next := tcb_pid (get_tcb tcb s)\<rparr>) s
                 else set_hd_timerq c (tcb_pid (get_tcb tcb s)) (s\<lparr>win_alarm := tcb_pid (get_tcb tcb s)\<rparr>)))"

definition sched_migrate :: "tcbptr \<Rightarrow> u16 \<Rightarrow> kstate \<Rightarrow> kstate option" where
  "sched_migrate tcb cpuid s = (
     if \<not> sched_param_ok tcb s \<or> \<not> ucast cpuid < numcores s then Some s
     else
       let usec = ccb_sched_ticks (ccbs s (tcb_cpuid (get_tcb tcb s)));
           s = sched_remove tcb s;
           s = upd_tcb tcb (\<lambda>t. t\<lparr>tcb_cpuid := ucast cpuid\<rparr>) s
       in if tcb_state (get_tcb tcb s) = TCB_STATE_HYBERND then Some s
          else if tcb_state (get_tcb tcb s) = TCB_STATE_BLOCKED then
            (if tcb_alarmusec (get_tcb tcb s) \<noteq> 0 then
               sched_delay tcb (tcb_alarmusec (get_tcb tcb s) - usec)
                 (upd_tcb tcb (\<lambda>t. t\<lparr>tcb_state := TCB_STATE_RUNNING\<rparr>) s)
             else Some (blocked_push (tcb_cpuid (get_tcb tcb s)) tcb s))
          else Some (sched_add tcb s))"

section \<open>sched_pick\<close>

datatype pick_result = Found nat kstate | Round bool kstate

text \<open>
  One round of the inner loop from priority \<open>i\<close>. An alarm that is due wakes its task; otherwise
  the first queue whose current pointer is set wins, and an exhausted queue is restarted from
  its head.
\<close>

function pick_round :: "nat \<Rightarrow> bool \<Rightarrow> kstate \<Rightarrow> pick_result" where
  "pick_round i nonempty s = (
     if i < unat PRI_IDLE then
       let ccb = ccbs s (this_cpu s); tcba = get_tcb TCBAlarm s in
       if ccb_hd_timerq ccb \<noteq> 0 \<and> i = unat (tcb_priority tcba) \<and> tcb_alarmusec tcba \<le> ccb_sched_ticks ccb
       then Found i (sched_awake TCBAlarm s)
       else if ccb_hd_active ccb i \<noteq> 0 then
         if ccb_cr_active ccb i \<noteq> 0 then Found i s
         else pick_round (Suc i) True (set_cr_active (this_cpu s) i (ccb_hd_active ccb i) s)
       else pick_round (Suc i) nonempty s
     else Round nonempty s)"
  by pat_completeness auto
termination by (relation "measure (\<lambda>(i, _, _). unat PRI_IDLE - i)") (auto simp: PRI_IDLE_def)

declare pick_round.simps [simp del]

text \<open>The number of ready queues whose current pointer is used up.\<close>

definition stale_queues :: "kstate \<Rightarrow> nat" where
  "stale_queues s = card {i. i < unat PRI_IDLE \<and> ccb_hd_active (ccbs s (this_cpu s)) i \<noteq> 0 \<and>
     ccb_cr_active (ccbs s (this_cpu s)) i = 0}"

text \<open>
  A round that finds nothing has restarted every non-empty queue and changed nothing else.
\<close>

lemma set_cr_active_simps [simp]:
  "this_cpu (set_cr_active c i v s) = this_cpu s"
  "ccb_hd_active (ccbs (set_cr_active c i v s) d) = ccb_hd_active (ccbs s d)"
  "ccb_cr_active (ccbs (set_cr_active c i v s) d) =
     (if d = c then (ccb_cr_active (ccbs s d))(i := v) else ccb_cr_active (ccbs s d))"
  by (simp_all add: set_cr_active_def upd_ccb_def)

lemma pick_round_Round:
  assumes "pick_round i b s = Round b' s'"
  shows "this_cpu s' = this_cpu s \<and>
    ccb_hd_active (ccbs s' (this_cpu s)) = ccb_hd_active (ccbs s (this_cpu s)) \<and>
    (b' \<longleftrightarrow> b \<or> (\<exists>j. i \<le> j \<and> j < unat PRI_IDLE \<and> ccb_hd_active (ccbs s (this_cpu s)) j \<noteq> 0)) \<and>
    (\<forall>j. i \<le> j \<and> j < unat PRI_IDLE \<and> ccb_hd_active (ccbs s (this_cpu s)) j \<noteq> 0 \<longrightarrow>
       ccb_cr_active (ccbs s (this_cpu s)) j = 0 \<and>
       ccb_cr_active (ccbs s' (this_cpu s)) j = ccb_hd_active (ccbs s (this_cpu s)) j) \<and>
    (\<forall>j < i. ccb_cr_active (ccbs s' (this_cpu s)) j = ccb_cr_active (ccbs s (this_cpu s)) j)"
  using assms
proof (induction i b s rule: pick_round.induct)
  case (1 i b s)
  let ?c = "ccbs s (this_cpu s)"
  show ?case
  proof (cases "i < unat PRI_IDLE")
    case False
    with "1.prems" show ?thesis by (auto simp: pick_round.simps [of i])
  next
    case lt: True
    have no_alarm: "\<not> (ccb_hd_timerq ?c \<noteq> 0 \<and> i = unat (tcb_priority (get_tcb TCBAlarm s)) \<and>
        tcb_alarmusec (get_tcb TCBAlarm s) \<le> ccb_sched_ticks ?c)"
      using "1.prems" lt by (auto simp: pick_round.simps [of i] Let_def)
    have le: "(i \<le> j) = (j = i \<or> Suc i \<le> j)" for j by auto
    show ?thesis
    proof (cases "ccb_hd_active ?c i = 0")
      case True
      have "pick_round (Suc i) b s = Round b' s'"
        using "1.prems" lt no_alarm True by (simp add: pick_round.simps [of i] Let_def)
      from "1.IH"(2) [OF lt _ _ no_alarm _ this] True show ?thesis
        unfolding le by auto
    next
      case False
      have "ccb_cr_active ?c i = 0"
        using "1.prems" lt no_alarm False by (auto simp: pick_round.simps [of i] Let_def split: if_splits)
      moreover from this have "pick_round (Suc i) True (set_cr_active (this_cpu s) i (ccb_hd_active ?c i) s) = Round b' s'"
        using "1.prems" lt no_alarm False by (simp add: pick_round.simps [of i] Let_def)
      ultimately show ?thesis
        using "1.IH"(1) [OF lt _ _ no_alarm, simplified] False lt
        unfolding le by auto
    qed
  qed
qed

function pick_loop :: "kstate \<Rightarrow> (nat \<times> kstate) + kstate" where
  "pick_loop s = (case pick_round 0 False s of
       Found i s' \<Rightarrow> Inl (i, s')
     | Round nonempty s' \<Rightarrow> if nonempty then pick_loop s' else Inr s')"
  by pat_completeness auto
termination
proof (relation "measure stale_queues")
  fix s nonempty s'
  assume r: "pick_round 0 False s = Round nonempty s'" and nonempty
  note R = pick_round_Round [OF r]
  from R \<open>nonempty\<close> obtain j where j: "j < unat PRI_IDLE" "ccb_hd_active (ccbs s (this_cpu s)) j \<noteq> 0"
    "ccb_cr_active (ccbs s (this_cpu s)) j = 0" by auto
  then have "stale_queues s \<noteq> 0" by (auto simp: stale_queues_def)
  moreover from R have "stale_queues s' = 0" by (auto simp: stale_queues_def)
  ultimately show "(s', s) \<in> measure stale_queues" by simp
qed simp

declare pick_loop.simps [simp del]

text \<open>
  Programming the next scheduler interrupt, done after a switch at the normal run level.
\<close>

definition sched_timer :: "tcbptr \<Rightarrow> kstate \<Rightarrow> kstate" where
  "sched_timer tcb s = (
     let c = this_cpu s; pri = tcb_priority (get_tcb tcb s); tcba = get_tcb TCBAlarm s;
         delta = (if ccb_hd_timerq (ccbs s c) \<noteq> 0 \<and> (pri > PRI_DRV \<or> tcb_priority tcba \<le> pri)
                  then tcb_alarmusec tcba - ccb_sched_ticks (ccbs s c) else 0);
         delta = (if pri > PRI_DRV \<and> tcb \<noteq> TCBIdle \<and> (delta = 0 \<or> delta > quantum s)
                  then quantum s else delta);
         s = upd_ccb c (\<lambda>x. x\<lparr>ccb_sched_delta := delta\<rparr>) s
     in if delta \<noteq> 0 then s\<lparr>intr_next := Some delta, sched_irq_on := True\<rparr>
        else s\<lparr>sched_irq_on := False\<rparr>)"

text \<open>The end of \<^verbatim>\<open>sched_pick\<close>: switch address spaces when another task was chosen.\<close>

definition sched_switch :: "tcbptr \<Rightarrow> kstate \<Rightarrow> kstate" where
  "sched_switch tcb s = (
     if ccb_current (ccbs s (this_cpu s)) = tcb_pid (get_tcb tcb s) then s
     else
       let s = upd_ccb (this_cpu s) (\<lambda>x. x\<lparr>ccb_current := tcb_pid (get_tcb tcb s), ccb_flags := 1\<rparr>)
                 (s\<lparr>space := tcb\<rparr>)
       in if runlevel s = RUNLVL_NORM then sched_timer tcb s else s)"

text \<open>The label \<^verbatim>\<open>found\<close>: run the current task of queue \<open>i\<close> and move the queue on.\<close>

definition pick_found :: "nat \<Rightarrow> kstate \<Rightarrow> kstate" where
  "pick_found i s = (
     let tcb = TCB (ccb_cr_active (ccbs s (this_cpu s)) i)
     in sched_switch tcb (set_cr_active (this_cpu s) i (tcb_next (get_tcb tcb s)) s))"

text \<open>
  \<open>sched_pick\<close>. The argument \<open>drvready\<close> is \<^verbatim>\<open>drivers_ready\<close>, which runs once on each CPU while
  the drivers are being started.
\<close>

definition sched_pick :: "(kstate \<Rightarrow> kstate) \<Rightarrow> kstate \<Rightarrow> kstate" where
  "sched_pick drvready s = (
     case pick_loop s of
       Inl (i, s) \<Rightarrow> pick_found i s
     | Inr s \<Rightarrow>
         let c = this_cpu s; i = unat PRI_IDLE;
             s = (if ccb_cr_active (ccbs s c) i = 0 then set_cr_active c i (ccb_hd_active (ccbs s c) i) s else s)
         in if ccb_hd_active (ccbs s c) i \<noteq> 0 then pick_found i s
            else
              let coop = (runlevel s = RUNLVL_COOP);
                  s = (if coop then drvready s else s)
              in if coop \<and> ccb_id (ccbs s c) = 0 then pick_found (unat PRI_SRV) s
                 else sched_switch TCBIdle (upd_ccb c (\<lambda>x. x\<lparr>ccb_hasactivetask := False\<rparr>) s))"

text \<open>
  \<open>sched_intr\<close>. The argument \<open>remainder\<close> is the platform's \<^verbatim>\<open>intr_nextschedremainder\<close>: true
  when the timer could not wait the whole period at once and has been restarted.
\<close>

definition sched_intr :: "(kstate \<Rightarrow> bool) \<Rightarrow> (kstate \<Rightarrow> kstate) \<Rightarrow> kstate \<Rightarrow> kstate" where
  "sched_intr remainder drvready s = (if remainder s then s else sched_pick drvready
     (upd_ccb (this_cpu s) (\<lambda>x. x\<lparr>ccb_sched_ticks := ccb_sched_ticks x + ccb_sched_delta x\<rparr>) s))"

end
