(* ===== verification/Core_Sched_Queues.thy ===== *)
theory Core_Sched_Queues
  imports Core_Sched
begin

text \<open>
  The queues behind the scheduler's pointers: the abstraction of the linked control blocks of a
  CPU to lists of tasks, the invariant \<open>sched_inv\<close>, and its preservation by adding, removing,
  blocking, waking and delaying a task.
\<close>

section \<open>Linked queues\<close>

text \<open>
  \<open>dseg T p h xs l n\<close>: following \<^verbatim>\<open>next\<close> from \<open>h\<close> one meets the tasks \<open>xs\<close> and then \<open>n\<close>; the
  \<^verbatim>\<open>prev\<close> links lead back to \<open>p\<close>, and \<open>l\<close> is the last task (\<open>p\<close> when there is none).
\<close>

fun dseg :: "(u64 \<Rightarrow> tcb_t) \<Rightarrow> u64 \<Rightarrow> u64 \<Rightarrow> u64 list \<Rightarrow> u64 \<Rightarrow> u64 \<Rightarrow> bool" where
  "dseg T p h [] l n \<longleftrightarrow> h = n \<and> l = p"
| "dseg T p h (x # xs) l n \<longleftrightarrow> h = x \<and> x \<noteq> 0 \<and> tcb_prev (T x) = p \<and> tcb_pid (T x) = x \<and>
     dseg T x (tcb_next (T x)) xs l n"

definition dlist :: "(u64 \<Rightarrow> tcb_t) \<Rightarrow> u64 \<Rightarrow> u64 list \<Rightarrow> bool" where
  "dlist T h xs \<longleftrightarrow> distinct xs \<and> (\<exists>l. dseg T 0 h xs l 0)"

lemma dseg_append:
  "dseg T p h (xs @ ys) l n \<longleftrightarrow> (\<exists>k m. dseg T p h xs k m \<and> dseg T k m ys l n)"
  by (induction xs arbitrary: p h) auto

definition same_links :: "tcb_t \<Rightarrow> tcb_t \<Rightarrow> bool" where
  "same_links a b \<longleftrightarrow> tcb_prev a = tcb_prev b \<and> tcb_next a = tcb_next b \<and> tcb_pid a = tcb_pid b"

lemma dseg_cong:
  assumes "\<forall>x \<in> set xs. same_links (T x) (T' x)"
  shows "dseg T p h xs l n \<longleftrightarrow> dseg T' p h xs l n"
  using assms by (induction xs arbitrary: p h) (auto simp: same_links_def)

lemma dlist_cong:
  assumes "\<forall>x \<in> set xs. same_links (T x) (T' x)"
  shows "dlist T h xs \<longleftrightarrow> dlist T' h xs"
  using dseg_cong [OF assms] by (simp add: dlist_def)

lemma dseg_nonzero: "dseg T p h xs l n \<Longrightarrow> x \<in> set xs \<Longrightarrow> x \<noteq> 0 \<and> tcb_pid (T x) = x"
  by (induction xs arbitrary: p h) auto

lemma dlist_nonzero: "dlist T h xs \<Longrightarrow> x \<in> set xs \<Longrightarrow> x \<noteq> 0 \<and> tcb_pid (T x) = x"
  by (auto simp: dlist_def dest: dseg_nonzero)

lemma dlist_hd: "dlist T h xs \<Longrightarrow> h = (case xs of [] \<Rightarrow> 0 | x # _ \<Rightarrow> x)"
  by (cases xs) (auto simp: dlist_def)

lemma dlist_empty_iff: "dlist T h xs \<Longrightarrow> h = 0 \<longleftrightarrow> xs = []"
  by (cases xs) (auto simp: dlist_def)

lemma dlist_hd_mem: "dlist T h xs \<Longrightarrow> h \<noteq> 0 \<Longrightarrow> h \<in> set xs"
  by (cases xs) (auto simp: dlist_def)

lemma dseg_last: "dseg T p h xs l n \<Longrightarrow> xs \<noteq> [] \<Longrightarrow> l = last xs"
  by (induction xs arbitrary: p h) auto

text \<open>Re-pointing the two ends of a segment.\<close>

lemma dseg_set_next:
  assumes "dseg T p h xs l n" and "distinct xs" and "xs \<noteq> []"
    and "\<forall>x \<in> set xs. x \<noteq> l \<longrightarrow> same_links (T x) (T' x)"
    and "same_links ((T l)\<lparr>tcb_next := m\<rparr>) (T' l)"
  shows "dseg T' p h xs l m"
  using assms
proof (induction xs arbitrary: p h)
  case (Cons x xs)
  show ?case
  proof (cases xs)
    case Nil
    with Cons.prems show ?thesis by (auto simp: same_links_def)
  next
    case (Cons y ys)
    have "l \<in> set xs" using dseg_last [OF Cons.prems(1)] Cons by simp
    then have "x \<noteq> l" using Cons.prems(2) by auto
    then have sl: "same_links (T x) (T' x)" using Cons.prems(4) by simp
    have "dseg T' x (tcb_next (T x)) xs l m"
      using Cons.prems Cons by (intro Cons.IH) auto
    with sl Cons.prems(1) show ?thesis by (auto simp: same_links_def)
  qed
qed simp

lemma dseg_set_prev:
  assumes "dseg T p h (x # xs) l n" and "x \<notin> set xs"
    and "\<forall>y \<in> set xs. same_links (T y) (T' y)"
    and "same_links ((T x)\<lparr>tcb_prev := q\<rparr>) (T' x)"
  shows "dseg T' q h (x # xs) l n"
  using assms dseg_cong [of xs T T' x "tcb_next (T x)" l n] by (auto simp: same_links_def)

text \<open>Inserting in front.\<close>

lemma dlist_push:
  assumes "dlist T h xs" and "x \<notin> set xs" and "x \<noteq> 0"
    and "tcb_prev (T' x) = 0" and "tcb_next (T' x) = h" and "tcb_pid (T' x) = x"
    and "h \<noteq> 0 \<Longrightarrow> same_links ((T h)\<lparr>tcb_prev := x\<rparr>) (T' h)"
    and "\<forall>y \<in> set xs. y \<noteq> h \<longrightarrow> same_links (T y) (T' y)"
  shows "dlist T' x (x # xs)"
proof (cases xs)
  case Nil
  with assms show ?thesis by (auto simp: dlist_def)
next
  case (Cons y ys)
  from assms(1) obtain l where l: "dseg T 0 h (y # ys) l 0" "distinct (y # ys)" "h = y" "y \<noteq> 0"
    by (auto simp: dlist_def Cons)
  have "dseg T' x h (y # ys) l 0"
    using l assms(7,8) by (intro dseg_set_prev [OF l(1)]) (auto simp: Cons)
  with l assms show ?thesis by (auto simp: dlist_def Cons)
qed

text \<open>
  Taking out an element: its neighbours are joined, and the head moves on if it was the
  element itself.
\<close>

lemma dlist_links:
  assumes "dlist T h (xs @ x # ys)"
  shows "tcb_prev (T x) = (if xs = [] then 0 else last xs)"
    and "tcb_next (T x) = (if ys = [] then 0 else hd ys)"
    and "h = x \<longleftrightarrow> xs = []"
proof -
  from assms obtain l k where d: "distinct (xs @ x # ys)" and k: "dseg T 0 h xs k x" "tcb_prev (T x) = k"
    "dseg T x (tcb_next (T x)) ys l 0"
    by (auto simp: dlist_def dseg_append)
  show "tcb_prev (T x) = (if xs = [] then 0 else last xs)"
    using k(1,2) dseg_last [OF k(1)] by (cases xs) auto
  show "tcb_next (T x) = (if ys = [] then 0 else hd ys)" using k(3) by (cases ys) auto
  show "h = x \<longleftrightarrow> xs = []" using k(1) d by (cases xs) auto
qed

lemma dlist_remove:
  assumes D: "dlist T h (xs @ x # ys)"
    and pr: "xs \<noteq> [] \<Longrightarrow> same_links ((T (last xs))\<lparr>tcb_next := tcb_next (T x)\<rparr>) (T' (last xs))"
    and nx: "ys \<noteq> [] \<Longrightarrow> same_links ((T (hd ys))\<lparr>tcb_prev := tcb_prev (T x)\<rparr>) (T' (hd ys))"
    and oth: "\<forall>y \<in> set (xs @ ys). (xs = [] \<or> y \<noteq> last xs) \<and> (ys = [] \<or> y \<noteq> hd ys) \<longrightarrow> same_links (T y) (T' y)"
  shows "dlist T' (if h = x then tcb_next (T x) else h) (xs @ ys)"
proof -
  from D obtain l where d: "distinct (xs @ x # ys)" and "dseg T 0 h (xs @ x # ys) l 0"
    by (auto simp: dlist_def)
  then obtain k where k: "dseg T 0 h xs k x" "x \<noteq> 0" "tcb_prev (T x) = k" "tcb_pid (T x) = x"
    "dseg T x (tcb_next (T x)) ys l 0"
    by (auto simp: dseg_append)
  note hx = dlist_links(3) [OF D]
  have left: "dseg T' 0 (if h = x then tcb_next (T x) else h) xs k (tcb_next (T x))"
  proof (cases "xs = []")
    case True
    with k(1) hx show ?thesis by auto
  next
    case False
    have kl: "k = last xs" using dseg_last [OF k(1) False] .
    have ne: "y \<in> set xs \<Longrightarrow> ys \<noteq> [] \<Longrightarrow> y \<noteq> hd ys" for y
      using d by (cases ys) auto
    have "dseg T' 0 h xs k (tcb_next (T x))"
    proof (rule dseg_set_next [OF k(1)])
      show "distinct xs" using d by simp
      show "xs \<noteq> []" by fact
      show "\<forall>y \<in> set xs. y \<noteq> k \<longrightarrow> same_links (T y) (T' y)" using oth kl ne by auto
      show "same_links ((T k)\<lparr>tcb_next := tcb_next (T x)\<rparr>) (T' k)" using pr [OF False] kl by simp
    qed
    with hx False show ?thesis by simp
  qed
  have right: "\<exists>l'. dseg T' k (tcb_next (T x)) ys l' 0"
  proof (cases ys)
    case Nil
    with k(5) show ?thesis by auto
  next
    case (Cons y zs)
    have ne: "z \<in> set ys \<Longrightarrow> xs \<noteq> [] \<Longrightarrow> z \<noteq> last xs" for z
      using d last_in_set [of xs] by (auto simp del: last_in_set)
    have "dseg T' k (tcb_next (T x)) (y # zs) l 0"
    proof (rule dseg_set_prev)
      show "dseg T x (tcb_next (T x)) (y # zs) l 0" using k(5) Cons by simp
      show "y \<notin> set zs" using d Cons by auto
      show "\<forall>z \<in> set zs. same_links (T z) (T' z)" using oth ne d Cons by auto
      show "same_links ((T y)\<lparr>tcb_prev := k\<rparr>) (T' y)" using nx Cons k(3) by simp
    qed
    with Cons show ?thesis by auto
  qed
  show "dlist T' (if h = x then tcb_next (T x) else h) (xs @ ys)"
    using left right d by (auto simp: dlist_def dseg_append)
qed

section \<open>The queues of a CPU\<close>

text \<open>A task of CPU \<open>c\<close> that the scheduler accepts.\<close>

definition task_ok :: "u32 \<Rightarrow> tcb_t \<Rightarrow> bool" where
  "task_ok c t \<longleftrightarrow> tcb_magic t = OSZ_TCB_MAGICH \<and> tcb_priority t \<le> PRI_IDLE \<and> tcb_cpuid t = c"

text \<open>
  The abstract view of a CPU: the ready tasks of each priority, the blocked tasks and the
  sleeping tasks. Sleeping tasks are linked forward only, with \<^verbatim>\<open>prev\<close> zero.
\<close>

record queues =
  q_ready :: "nat \<Rightarrow> u64 list"
  q_blocked :: "u64 list"
  q_sleep :: "u64 list"

fun slist :: "(u64 \<Rightarrow> tcb_t) \<Rightarrow> u64 \<Rightarrow> u64 list \<Rightarrow> bool" where
  "slist T h [] \<longleftrightarrow> h = 0"
| "slist T h (x # xs) \<longleftrightarrow> h = x \<and> x \<noteq> 0 \<and> tcb_prev (T x) = 0 \<and> tcb_pid (T x) = x \<and> slist T (tcb_next (T x)) xs"

definition q_tasks :: "queues \<Rightarrow> u64 set" where
  "q_tasks q = (\<Union>i. set (q_ready q i)) \<union> set (q_blocked q) \<union> set (q_sleep q)"

definition q_disjoint :: "queues \<Rightarrow> bool" where
  "q_disjoint q \<longleftrightarrow> (\<forall>i j. i \<noteq> j \<longrightarrow> set (q_ready q i) \<inter> set (q_ready q j) = {}) \<and>
     (\<forall>i. set (q_ready q i) \<inter> set (q_blocked q) = {}) \<and>
     (\<forall>i. set (q_ready q i) \<inter> set (q_sleep q) = {}) \<and>
     set (q_blocked q) \<inter> set (q_sleep q) = {} \<and> distinct (q_sleep q)"

definition q_rep :: "u32 \<Rightarrow> (u64 \<Rightarrow> tcb_t) \<Rightarrow> ccb_t \<Rightarrow> queues \<Rightarrow> bool" where
  "q_rep c T cb q \<longleftrightarrow>
     (\<forall>i \<le> 7. dlist T (ccb_hd_active cb i) (q_ready q i)) \<and> (\<forall>i > 7. q_ready q i = []) \<and>
     (\<forall>i \<le> 7. ccb_cr_active cb i \<in> insert 0 (set (q_ready q i))) \<and>
     dlist T (ccb_hd_blocked cb) (q_blocked q) \<and> slist T (ccb_hd_timerq cb) (q_sleep q) \<and>
     (\<forall>x \<in> q_tasks q. task_ok c (T x)) \<and>
     (\<forall>i. \<forall>x \<in> set (q_ready q i). tcb_state (T x) = TCB_STATE_RUNNING \<and> unat (tcb_priority (T x)) = i) \<and>
     (\<forall>x \<in> set (q_blocked q) \<union> set (q_sleep q). tcb_state (T x) \<noteq> TCB_STATE_RUNNING)"

lemma q_repD:
  assumes "q_rep c T cb q"
  shows "i \<le> 7 \<Longrightarrow> dlist T (ccb_hd_active cb i) (q_ready q i)"
    and "7 < i \<Longrightarrow> q_ready q i = []"
    and "i \<le> 7 \<Longrightarrow> ccb_cr_active cb i = 0 \<or> ccb_cr_active cb i \<in> set (q_ready q i)"
    and "dlist T (ccb_hd_blocked cb) (q_blocked q)"
    and "slist T (ccb_hd_timerq cb) (q_sleep q)"
    and "x \<in> q_tasks q \<Longrightarrow> task_ok c (T x)"
    and "x \<in> set (q_ready q i) \<Longrightarrow> tcb_state (T x) = TCB_STATE_RUNNING"
    and "x \<in> set (q_ready q i) \<Longrightarrow> unat (tcb_priority (T x)) = i"
    and "x \<in> set (q_blocked q) \<Longrightarrow> tcb_state (T x) \<noteq> TCB_STATE_RUNNING"
    and "x \<in> set (q_sleep q) \<Longrightarrow> tcb_state (T x) \<noteq> TCB_STATE_RUNNING"
  using assms unfolding q_rep_def by blast+

lemma q_repI:
  assumes "\<And>i. i \<le> 7 \<Longrightarrow> dlist T (ccb_hd_active cb i) (q_ready q i)"
    and "\<And>i. 7 < i \<Longrightarrow> q_ready q i = []"
    and "\<And>i. i \<le> 7 \<Longrightarrow> ccb_cr_active cb i = 0 \<or> ccb_cr_active cb i \<in> set (q_ready q i)"
    and "dlist T (ccb_hd_blocked cb) (q_blocked q)"
    and "slist T (ccb_hd_timerq cb) (q_sleep q)"
    and "\<And>x. x \<in> q_tasks q \<Longrightarrow> task_ok c (T x)"
    and "\<And>x i. x \<in> set (q_ready q i) \<Longrightarrow> tcb_state (T x) = TCB_STATE_RUNNING \<and> unat (tcb_priority (T x)) = i"
    and "\<And>x. x \<in> set (q_blocked q) \<union> set (q_sleep q) \<Longrightarrow> tcb_state (T x) \<noteq> TCB_STATE_RUNNING"
  shows "q_rep c T cb q"
  using assms unfolding q_rep_def by blast

lemma q_tasksI:
  "x \<in> set (q_ready q i) \<Longrightarrow> x \<in> q_tasks q" "x \<in> set (q_blocked q) \<Longrightarrow> x \<in> q_tasks q"
  "x \<in> set (q_sleep q) \<Longrightarrow> x \<in> q_tasks q"
  by (auto simp: q_tasks_def)

lemma q_disjointD:
  assumes "q_disjoint q"
  shows "x \<in> set (q_ready q i) \<Longrightarrow> x \<in> set (q_ready q j) \<Longrightarrow> i = j"
    and "x \<in> set (q_ready q i) \<Longrightarrow> x \<notin> set (q_blocked q)"
    and "x \<in> set (q_ready q i) \<Longrightarrow> x \<notin> set (q_sleep q)"
    and "x \<in> set (q_blocked q) \<Longrightarrow> x \<notin> set (q_sleep q)"
    and "distinct (q_sleep q)"
  using assms unfolding q_disjoint_def by blast+

definition sched_inv :: "u32 \<Rightarrow> queues \<Rightarrow> kstate \<Rightarrow> bool" where
  "sched_inv c q s \<longleftrightarrow> c < numcores s \<and> q_disjoint q \<and> q_rep c (tcbs s) (ccbs s c) q"

lemma slist_cong:
  assumes "\<forall>x \<in> set xs. same_links (T x) (T' x)"
  shows "slist T h xs \<longleftrightarrow> slist T' h xs"
  using assms by (induction xs arbitrary: h) (auto simp: same_links_def)

lemma slist_nonzero: "slist T h xs \<Longrightarrow> x \<in> set xs \<Longrightarrow> x \<noteq> 0 \<and> tcb_pid (T x) = x"
  by (induction xs arbitrary: h) auto

lemma slist_hd: "slist T h xs \<Longrightarrow> h = (case xs of [] \<Rightarrow> 0 | x # _ \<Rightarrow> x)"
  by (cases xs) auto

lemma task_ok_param:
  "task_ok c (tcbs s t) \<Longrightarrow> c < numcores s \<Longrightarrow> sched_param_ok (TCB t) s"
  by (simp add: task_ok_def sched_param_ok_def get_tcb_def)

text \<open>What makes the representation of the other queues survive a change to a few tasks.\<close>

definition unchanged :: "(u64 \<Rightarrow> tcb_t) \<Rightarrow> (u64 \<Rightarrow> tcb_t) \<Rightarrow> u64 set \<Rightarrow> bool" where
  "unchanged T T' X \<longleftrightarrow> (\<forall>x \<in> X. same_links (T x) (T' x))"

lemma unchanged_dlist: "unchanged T T' (set xs) \<Longrightarrow> dlist T h xs \<longleftrightarrow> dlist T' h xs"
  unfolding unchanged_def by (rule dlist_cong)

lemma unchanged_slist: "unchanged T T' (set xs) \<Longrightarrow> slist T h xs \<longleftrightarrow> slist T' h xs"
  unfolding unchanged_def by (rule slist_cong)

text \<open>Attributes of a task the scheduler looks at besides its links.\<close>

definition same_attrs :: "tcb_t \<Rightarrow> tcb_t \<Rightarrow> bool" where
  "same_attrs a b \<longleftrightarrow> tcb_magic a = tcb_magic b \<and> tcb_priority a = tcb_priority b \<and>
     tcb_cpuid a = tcb_cpuid b \<and> tcb_state a = tcb_state b \<and> tcb_alarmusec a = tcb_alarmusec b"

lemma task_ok_same_attrs: "same_attrs a b \<Longrightarrow> task_ok c a \<longleftrightarrow> task_ok c b"
  by (simp add: same_attrs_def task_ok_def)

text \<open>
  A representation carries over to changed tasks, CPU fields and queues when the changed
  queues are represented and the tasks of the queues keep their attributes.
\<close>

lemma q_rep_change:
  assumes R: "q_rep c T cb q"
    and attrs: "\<And>x. x \<in> q_tasks q' \<Longrightarrow> x \<in> q_tasks q \<Longrightarrow> same_attrs (T x) (U x)"
    and ready: "\<And>i. i \<le> 7 \<Longrightarrow> dlist U (ccb_hd_active cb' i) (q_ready q' i)" "\<And>i. 7 < i \<Longrightarrow> q_ready q' i = []"
    and cr: "\<And>i. i \<le> 7 \<Longrightarrow> ccb_cr_active cb' i = 0 \<or> ccb_cr_active cb' i \<in> set (q_ready q' i)"
    and blocked: "dlist U (ccb_hd_blocked cb') (q_blocked q')"
    and sleep: "slist U (ccb_hd_timerq cb') (q_sleep q')"
    and old: "\<And>x i. x \<in> set (q_ready q' i) \<Longrightarrow> x \<in> set (q_ready q i) \<or>
        task_ok c (U x) \<and> tcb_state (U x) = TCB_STATE_RUNNING \<and> unat (tcb_priority (U x)) = i"
      "\<And>x. x \<in> set (q_blocked q') \<union> set (q_sleep q') \<Longrightarrow> x \<in> set (q_blocked q) \<union> set (q_sleep q) \<or>
        task_ok c (U x) \<and> tcb_state (U x) \<noteq> TCB_STATE_RUNNING"
  shows "q_rep c U cb' q'"
proof (rule q_repI)
  have rd: "task_ok c (U x) \<and> tcb_state (U x) = TCB_STATE_RUNNING \<and> unat (tcb_priority (U x)) = i"
    if x: "x \<in> set (q_ready q' i)" for x i
  proof (cases "x \<in> set (q_ready q i)")
    case True
    then have "same_attrs (T x) (U x)" using x attrs q_tasksI(1) by metis
    moreover have "task_ok c (T x)" using True q_repD(6) [OF R] q_tasksI(1) by metis
    ultimately show ?thesis
      using q_repD(7,8) [OF R True] task_ok_same_attrs by (simp add: same_attrs_def task_ok_def)
  qed (use old(1) [OF x] in simp)
  have bl: "task_ok c (U x) \<and> tcb_state (U x) \<noteq> TCB_STATE_RUNNING"
    if x: "x \<in> set (q_blocked q') \<union> set (q_sleep q')" for x
  proof (cases "x \<in> set (q_blocked q) \<union> set (q_sleep q)")
    case True
    then have "x \<in> q_tasks q" "x \<in> q_tasks q'" using x by (auto simp: q_tasks_def)
    then have "same_attrs (T x) (U x)" "task_ok c (T x)" using attrs q_repD(6) [OF R] by blast+
    then show ?thesis
      using True q_repD(9,10) [OF R, of x] task_ok_same_attrs by (auto simp: same_attrs_def task_ok_def)
  qed (use old(2) [OF x] in simp)
  show "task_ok c (U x)" if "x \<in> q_tasks q'" for x
    using that rd bl unfolding q_tasks_def by blast
  show "tcb_state (U x) = TCB_STATE_RUNNING \<and> unat (tcb_priority (U x)) = i"
    if "x \<in> set (q_ready q' i)" for x i using rd [OF that] by simp
  show "tcb_state (U x) \<noteq> TCB_STATE_RUNNING" if "x \<in> set (q_blocked q') \<union> set (q_sleep q')" for x
    using bl [OF that] by simp
qed (use ready cr blocked sleep in auto)

section \<open>Linking a task in front of a queue\<close>

definition push_tcbs :: "u64 \<Rightarrow> u64 \<Rightarrow> (u64 \<Rightarrow> tcb_t) \<Rightarrow> (u64 \<Rightarrow> tcb_t)" where
  "push_tcbs t h T = (
     let T1 = T(t := (T t)\<lparr>tcb_prev := 0, tcb_next := h\<rparr>)
     in if h = 0 then T1 else T1(h := (T1 h)\<lparr>tcb_prev := tcb_pid (T t)\<rparr>))"

lemma push_props:
  assumes L: "dlist T h xs" and t: "t \<notin> set xs" "t \<noteq> 0" "tcb_pid (T t) = t"
  shows "dlist (push_tcbs t h T) t (t # xs)"
    and "same_attrs (T x) (push_tcbs t h T x)"
    and "t \<notin> X \<Longrightarrow> set xs \<inter> X = {} \<Longrightarrow> unchanged T (push_tcbs t h T) X"
proof -
  define U where "U = push_tcbs t h T"
  have ht: "h \<noteq> t" using dlist_hd_mem [OF L] t(1,2) by metis
  have U_t: "U t = (T t)\<lparr>tcb_prev := 0, tcb_next := h\<rparr>"
    using ht by (simp add: U_def push_tcbs_def Let_def)
  have U_h: "h \<noteq> 0 \<Longrightarrow> U h = (T h)\<lparr>tcb_prev := t\<rparr>"
    using ht t(3) by (simp add: U_def push_tcbs_def Let_def)
  have U_o: "x \<noteq> t \<Longrightarrow> h = 0 \<or> x \<noteq> h \<Longrightarrow> U x = T x" for x
    by (auto simp: U_def push_tcbs_def Let_def)
  show "dlist (push_tcbs t h T) t (t # xs)" unfolding U_def [symmetric]
  proof (rule dlist_push [OF L t(1,2)])
    show "\<forall>y \<in> set xs. y \<noteq> h \<longrightarrow> same_links (T y) (U y)"
      unfolding same_links_def using U_o t(1) by metis
  qed (use U_t U_h t in \<open>auto simp: same_links_def\<close>)
  have "U x = T x \<or> U x = (T x)\<lparr>tcb_prev := 0, tcb_next := h\<rparr> \<or> U x = (T x)\<lparr>tcb_prev := t\<rparr>"
    using U_t U_h U_o by metis
  then show "same_attrs (T x) (push_tcbs t h T x)" unfolding U_def [symmetric] by (auto simp: same_attrs_def)
  show "unchanged T (push_tcbs t h T) X" if "t \<notin> X" "set xs \<inter> X = {}"
    unfolding unchanged_def same_links_def U_def [symmetric]
    using that U_o dlist_hd_mem [OF L] by (metis disjoint_iff)
qed

definition q_add :: "nat \<Rightarrow> u64 \<Rightarrow> queues \<Rightarrow> queues" where
  "q_add i t q = q\<lparr>q_ready := (q_ready q)(i := t # q_ready q i)\<rparr>"

definition q_block :: "u64 \<Rightarrow> queues \<Rightarrow> queues" where
  "q_block t q = q\<lparr>q_blocked := t # q_blocked q\<rparr>"

lemma q_tasks_push [simp]:
  "q_tasks (q_add i t q) = insert t (q_tasks q)" "q_tasks (q_block t q) = insert t (q_tasks q)"
  by (auto simp: q_tasks_def q_add_def q_block_def split: if_splits)

lemma q_disjoint_push:
  assumes "q_disjoint q" and "t \<notin> q_tasks q"
  shows "q_disjoint (q_add i t q)" and "q_disjoint (q_block t q)"
  using assms unfolding q_disjoint_def q_add_def q_block_def q_tasks_def by auto

lemma q_not_in:
  assumes "t \<notin> q_tasks q"
  shows "t \<notin> set (q_ready q i)" and "t \<notin> set (q_blocked q)" and "t \<notin> set (q_sleep q)"
  using assms by (auto simp: q_tasks_def)

lemma q_rep_push_ready:
  assumes R: "q_rep c T cb q" and D: "q_disjoint q" and t: "t \<notin> q_tasks q" "t \<noteq> 0"
    and ok: "task_ok c (T t)" "tcb_pid (T t) = t" "tcb_state (T t) = TCB_STATE_RUNNING"
    and i: "i = unat (tcb_priority (T t))"
  shows "q_rep c (push_tcbs t (ccb_hd_active cb i) T)
     (cb\<lparr>ccb_hd_active := (ccb_hd_active cb)(i := t)\<rparr>) (q_add i t q)"
proof -
  have i7: "i \<le> 7" using ok(1) i by (simp add: task_ok_def PRI_IDLE_def word_le_nat_alt)
  note P = push_props [OF q_repD(1) [OF R i7] q_not_in(1) [OF t(1)] t(2) ok(2)]
  define U where "U = push_tcbs t (ccb_hd_active cb i) T"
  have other: "unchanged T U (set (q_ready q j))" if "j \<noteq> i" for j
    unfolding U_def using that q_disjointD(1) [OF D] by (intro P(3) q_not_in [OF t(1)]) blast
  have rest: "unchanged T U (set (q_blocked q))" "unchanged T U (set (q_sleep q))"
    unfolding U_def using q_disjointD(2,3) [OF D] by (intro P(3) q_not_in [OF t(1)]; blast)+
  have ut: "same_attrs (T t) (U t)" unfolding U_def by (rule P(2))
  show ?thesis unfolding U_def [symmetric]
  proof (rule q_rep_change [OF R])
    show "dlist U (ccb_hd_active (cb\<lparr>ccb_hd_active := (ccb_hd_active cb)(i := t)\<rparr>) j) (q_ready (q_add i t q) j)"
      if "j \<le> 7" for j
      using that P(1) q_repD(1) [OF R that] unchanged_dlist [OF other, of j]
      by (cases "j = i") (simp_all add: q_add_def U_def)
    show "same_attrs (T x) (U x)" for x unfolding U_def by (rule P(2))
    show "dlist U (ccb_hd_blocked (cb\<lparr>ccb_hd_active := (ccb_hd_active cb)(i := t)\<rparr>)) (q_blocked (q_add i t q))"
      "slist U (ccb_hd_timerq (cb\<lparr>ccb_hd_active := (ccb_hd_active cb)(i := t)\<rparr>)) (q_sleep (q_add i t q))"
      using q_repD(4,5) [OF R] unchanged_dlist [OF rest(1)] unchanged_slist [OF rest(2)] by (simp_all add: q_add_def)
    show "x \<in> set (q_ready q j) \<or>
        task_ok c (U x) \<and> tcb_state (U x) = TCB_STATE_RUNNING \<and> unat (tcb_priority (U x)) = j"
      if "x \<in> set (q_ready (q_add i t q) j)" for x j
      using that ok ut i by (auto simp: q_add_def same_attrs_def task_ok_def split: if_splits)
  qed (use q_repD(2,3) [OF R] i7 in \<open>auto simp: q_add_def\<close>)
qed

lemma q_rep_push_blocked:
  assumes R: "q_rep c T cb q" and D: "q_disjoint q" and t: "t \<notin> q_tasks q" "t \<noteq> 0"
    and ok: "task_ok c (T t)" "tcb_pid (T t) = t" "tcb_state (T t) \<noteq> TCB_STATE_RUNNING"
  shows "q_rep c (push_tcbs t (ccb_hd_blocked cb) T) (cb\<lparr>ccb_hd_blocked := t\<rparr>) (q_block t q)"
proof -
  note P = push_props [OF q_repD(4) [OF R] q_not_in(2) [OF t(1)] t(2) ok(2)]
  define U where "U = push_tcbs t (ccb_hd_blocked cb) T"
  have other: "unchanged T U (set (q_ready q j))" for j
    unfolding U_def using q_disjointD(2) [OF D] by (intro P(3) q_not_in [OF t(1)]) blast
  have sl: "unchanged T U (set (q_sleep q))"
    unfolding U_def using q_disjointD(4) [OF D] by (intro P(3) q_not_in [OF t(1)]) blast
  have ut: "same_attrs (T t) (U t)" unfolding U_def by (rule P(2))
  show ?thesis unfolding U_def [symmetric]
  proof (rule q_rep_change [OF R])
    show "dlist U (ccb_hd_active (cb\<lparr>ccb_hd_blocked := t\<rparr>) j) (q_ready (q_block t q) j)" if "j \<le> 7" for j
      using q_repD(1) [OF R that] unchanged_dlist [OF other] by (simp add: q_block_def)
    show "same_attrs (T x) (U x)" for x unfolding U_def by (rule P(2))
    show "dlist U (ccb_hd_blocked (cb\<lparr>ccb_hd_blocked := t\<rparr>)) (q_blocked (q_block t q))"
      "slist U (ccb_hd_timerq (cb\<lparr>ccb_hd_blocked := t\<rparr>)) (q_sleep (q_block t q))"
      using P(1) q_repD(5) [OF R] unchanged_slist [OF sl] by (simp_all add: q_block_def U_def)
    show "x \<in> set (q_blocked q) \<union> set (q_sleep q) \<or> task_ok c (U x) \<and> tcb_state (U x) \<noteq> TCB_STATE_RUNNING"
      if "x \<in> set (q_blocked (q_block t q)) \<union> set (q_sleep (q_block t q))" for x
      using that ok ut by (auto simp: q_block_def same_attrs_def task_ok_def)
  qed (use q_repD(2,3) [OF R] in \<open>auto simp: q_block_def\<close>)
qed

text \<open>Tasks outside the queues may change freely.\<close>

lemma q_rep_outside:
  assumes R: "q_rep c T cb q" and "\<forall>x. x \<in> q_tasks q \<longrightarrow> T x = U x"
  shows "q_rep c U cb q"
proof -
  have eq: "x \<in> q_tasks q \<Longrightarrow> T x = U x" for x using assms(2) by blast
  have u: "unchanged T U (set (q_ready q i))" "unchanged T U (set (q_blocked q))" "unchanged T U (set (q_sleep q))" for i
    unfolding unchanged_def same_links_def using eq q_tasksI by metis+
  show ?thesis
    by (rule q_rep_change [OF R])
      (use eq q_repD [OF R] unchanged_dlist [OF u(1)] unchanged_dlist [OF u(2)] unchanged_slist [OF u(3)]
        in \<open>auto simp: same_attrs_def\<close>)
qed

section \<open>Adding a ready task\<close>

text \<open>The state after \<open>sched_add\<close>, written out.\<close>

lemma sched_add_eval:
  assumes "sched_param_ok (TCB t) s"
    and "c = tcb_cpuid (tcbs s t)" and "i = unat (tcb_priority (tcbs s t))"
  shows "sched_add (TCB t) s = s\<lparr>tcbs := push_tcbs t (ccb_hd_active (ccbs s c) i)
        ((tcbs s)(t := (tcbs s t)\<lparr>tcb_state := TCB_STATE_RUNNING\<rparr>)),
      ccbs := (ccbs s)(c := (ccbs s c)\<lparr>ccb_hd_active := (ccb_hd_active (ccbs s c))(i := tcb_pid (tcbs s t))\<rparr>)\<rparr>"
  using assms
  by (simp add: sched_add_def get_tcb_def upd_tcb_def upd_ccb_def set_hd_active_def push_tcbs_def)
    (simp add: Let_def get_tcb_def upd_tcb_def)

text \<open>Abstractly: the task becomes the first ready task of its priority.\<close>

lemma sched_add_inv:
  assumes I: "sched_inv c q s" and t: "t \<notin> q_tasks q" "t \<noteq> 0" and ok: "task_ok c (tcbs s t)"
    and pid: "tcb_pid (tcbs s t) = t"
  shows "sched_inv c (q_add (unat (tcb_priority (tcbs s t))) t q) (sched_add (TCB t) s)"
proof -
  have p: "sched_param_ok (TCB t) s"
    using task_ok_param [OF ok] I by (simp add: sched_inv_def)
  have c: "c = tcb_cpuid (tcbs s t)" using ok by (simp add: task_ok_def)
  let ?T = "(tcbs s)(t := (tcbs s t)\<lparr>tcb_state := TCB_STATE_RUNNING\<rparr>)"
  have "q_rep c ?T (ccbs s c) q"
  proof (rule q_rep_outside)
    show "q_rep c (tcbs s) (ccbs s c) q" using I by (simp add: sched_inv_def)
    show "\<forall>x. x \<in> q_tasks q \<longrightarrow> tcbs s x = ?T x" using t(1) by auto
  qed
  moreover have D: "q_disjoint q" using I by (simp add: sched_inv_def)
  ultimately have "q_rep c (push_tcbs t (ccb_hd_active (ccbs s c) (unat (tcb_priority (tcbs s t)))) ?T)
      ((ccbs s c)\<lparr>ccb_hd_active := (ccb_hd_active (ccbs s c))(unat (tcb_priority (tcbs s t)) := t)\<rparr>)
      (q_add (unat (tcb_priority (tcbs s t))) t q)"
    using ok pid t by (intro q_rep_push_ready) (simp_all add: task_ok_def)
  then show ?thesis
    unfolding sched_inv_def sched_add_eval [OF p c refl] pid
    using I q_disjoint_push(1) [OF D t(1)] by (simp add: sched_inv_def)
qed

section \<open>Taking a task out of its queue\<close>

definition unlink_tcbs :: "u64 \<Rightarrow> (u64 \<Rightarrow> tcb_t) \<Rightarrow> (u64 \<Rightarrow> tcb_t)" where
  "unlink_tcbs t T = (
     let p = tcb_prev (T t); n = tcb_next (T t);
         T1 = (if p = 0 then T else T(p := (T p)\<lparr>tcb_next := n\<rparr>))
     in if n = 0 then T1 else T1(n := (T1 n)\<lparr>tcb_prev := p\<rparr>))"

lemma sched_unlink_eval:
  assumes "tcb_prev (tcbs s t) \<noteq> t"
  shows "sched_unlink (TCB t) s = s\<lparr>tcbs := unlink_tcbs t (tcbs s)\<rparr>"
  using assms
  by (cases "tcb_prev (tcbs s t) = 0"; cases "tcb_next (tcbs s t) = 0";
      simp add: sched_unlink_def Let_def get_tcb_def upd_tcb_def unlink_tcbs_def)

lemma dlist_at:
  assumes "dlist T h xs" and "t \<in> set xs"
  obtains ys zs where "xs = ys @ t # zs" and "t \<notin> set (ys @ zs)" and "removeAll t xs = ys @ zs"
proof -
  from assms(2) obtain ys zs where "xs = ys @ t # zs" by (meson split_list)
  with assms(1) show ?thesis by (intro that [of ys zs]) (auto simp: dlist_def removeAll_id)
qed

lemma unlink_props:
  assumes L: "dlist T h xs" and t: "t \<in> set xs"
  shows "dlist (unlink_tcbs t T) (if h = t then tcb_next (T t) else h) (removeAll t xs)"
    and "same_attrs (T x) (unlink_tcbs t T x)"
    and "tcb_pid (unlink_tcbs t T x) = tcb_pid (T x)"
    and "unlink_tcbs t T t = T t"
    and "set xs \<inter> X = {} \<Longrightarrow> unchanged T (unlink_tcbs t T) X"
    and "tcb_next (T t) \<in> insert 0 (set (removeAll t xs))"
    and "tcb_prev (T t) \<noteq> t"
proof -
  define U where "U = unlink_tcbs t T"
  from dlist_at [OF L t] obtain ys zs where
    xs: "xs = ys @ t # zs" and nt: "t \<notin> set (ys @ zs)" and rm: "removeAll t xs = ys @ zs" by blast
  have d: "distinct (ys @ zs)" using L by (auto simp: dlist_def xs)
  have L': "dlist T h (ys @ t # zs)" using L xs by simp
  have t0: "t \<noteq> 0" using dlist_nonzero [OF L t] by simp
  have nz: "x \<in> set (ys @ zs) \<Longrightarrow> x \<noteq> 0" for x using dlist_nonzero [OF L, of x] xs by auto
  note prv = dlist_links(1) [OF L'] and nxt = dlist_links(2) [OF L']
  show "tcb_prev (T t) \<noteq> t" using prv nt t0 by (auto split: if_splits)
  show "tcb_next (T t) \<in> insert 0 (set (removeAll t xs))" using nxt rm by (auto split: if_splits)
  have pm: "ys \<noteq> [] \<Longrightarrow> last ys \<in> set ys" and nm: "zs \<noteq> [] \<Longrightarrow> hd zs \<in> set zs" by simp_all
  have p0: "ys \<noteq> [] \<Longrightarrow> last ys \<noteq> 0" and n0: "zs \<noteq> [] \<Longrightarrow> hd zs \<noteq> 0"
    and pn: "ys \<noteq> [] \<Longrightarrow> zs \<noteq> [] \<Longrightarrow> last ys \<noteq> hd zs"
    using nz pm nm d by (metis UnCI set_append, metis UnCI set_append, metis disjoint_iff distinct_append)
  have U_p: "U (last ys) = (T (last ys))\<lparr>tcb_next := tcb_next (T t)\<rparr>" if "ys \<noteq> []"
    using that by (simp add: U_def unlink_tcbs_def Let_def prv nxt p0 n0 pn)
  have U_n: "U (hd zs) = (T (hd zs))\<lparr>tcb_prev := tcb_prev (T t)\<rparr>" if "zs \<noteq> []"
    using that pn [THEN not_sym] by (cases "ys = []") (simp_all add: U_def unlink_tcbs_def Let_def prv nxt p0 n0)
  have U_o: "U x = T x" if "ys = [] \<or> x \<noteq> last ys" "zs = [] \<or> x \<noteq> hd zs" for x
    using that by (cases "ys = []"; cases "zs = []"; simp add: U_def unlink_tcbs_def Let_def prv nxt p0 n0)
  have three: "U x = T x \<or> U x = (T x)\<lparr>tcb_next := tcb_next (T t)\<rparr> \<or> U x = (T x)\<lparr>tcb_prev := tcb_prev (T t)\<rparr>" for x
  proof -
    consider "ys \<noteq> []" "x = last ys" | "zs \<noteq> []" "x = hd zs" | "ys = [] \<or> x \<noteq> last ys" "zs = [] \<or> x \<noteq> hd zs"
      by blast
    then show ?thesis
    proof cases
      case 1
      show ?thesis unfolding 1(2) U_p [OF 1(1)] by blast
    next
      case 2
      show ?thesis unfolding 2(2) U_n [OF 2(1)] by blast
    next
      case 3
      show ?thesis unfolding U_o [OF 3] by blast
    qed
  qed
  show "same_attrs (T x) (unlink_tcbs t T x)" "tcb_pid (unlink_tcbs t T x) = tcb_pid (T x)"
    using three [of x] unfolding U_def [symmetric] by (auto simp: same_attrs_def)
  show "unlink_tcbs t T t = T t" unfolding U_def [symmetric]
    using nt pm nm by (intro U_o) auto
  show "unchanged T (unlink_tcbs t T) X" if "set xs \<inter> X = {}"
    unfolding U_def [symmetric] unchanged_def same_links_def
  proof
    fix x assume "x \<in> X"
    then have "x \<notin> set ys" "x \<notin> set zs" using that xs by auto
    then have "U x = T x" using pm nm by (intro U_o) auto
    then show "tcb_prev (T x) = tcb_prev (U x) \<and> tcb_next (T x) = tcb_next (U x) \<and> tcb_pid (T x) = tcb_pid (U x)"
      by simp
  qed
  show "dlist (unlink_tcbs t T) (if h = t then tcb_next (T t) else h) (removeAll t xs)"
    unfolding U_def [symmetric] rm
  proof (rule dlist_remove [OF L'])
    show "\<forall>y \<in> set (ys @ zs). (ys = [] \<or> y \<noteq> last ys) \<and> (zs = [] \<or> y \<noteq> hd zs) \<longrightarrow> same_links (T y) (U y)"
      using U_o by (simp add: same_links_def)
  qed (simp_all add: U_p U_n same_links_def)
qed


definition q_del :: "u64 \<Rightarrow> queues \<Rightarrow> queues" where
  "q_del t q = q\<lparr>q_ready := (\<lambda>i. removeAll t (q_ready q i)), q_blocked := removeAll t (q_blocked q),
     q_sleep := removeAll t (q_sleep q)\<rparr>"

lemma q_tasks_del [simp]: "q_tasks (q_del t q) = q_tasks q - {t}"
  by (auto simp: q_tasks_def q_del_def)

lemma q_disjoint_del: "q_disjoint q \<Longrightarrow> q_disjoint (q_del t q)"
  unfolding q_disjoint_def q_del_def by (auto simp: distinct_removeAll)

lemma q_rep_unlink_ready:
  assumes R: "q_rep c T cb q" and D: "q_disjoint q" and t: "t \<in> set (q_ready q i)"
  defines "n \<equiv> tcb_next (T t)"
  shows "q_rep c (unlink_tcbs t T)
     (cb\<lparr>ccb_hd_active := (ccb_hd_active cb)(i := if ccb_hd_active cb i = t then n else ccb_hd_active cb i),
         ccb_cr_active := (ccb_cr_active cb)(i := if ccb_cr_active cb i = t then n else ccb_cr_active cb i)\<rparr>)
     (q_del t q)"
proof -
  define U where "U = unlink_tcbs t T"
  have i7: "i \<le> 7" using q_repD(2) [OF R, of i] t by (cases "i \<le> 7") simp_all
  note P = unlink_props [OF q_repD(1) [OF R i7] t, folded U_def n_def]
  have nt: "j \<noteq> i \<Longrightarrow> removeAll t (q_ready q j) = q_ready q j" "removeAll t (q_blocked q) = q_blocked q"
    "removeAll t (q_sleep q) = q_sleep q" for j
    using q_disjointD(1,2,3) [OF D] t by (metis removeAll_id)+
  have oj: "unchanged T U (set (q_ready q j))" if "j \<noteq> i" for j
    using that q_disjointD(1) [OF D] by (intro P(5)) blast
  have ob: "unchanged T U (set (q_blocked q))" "unchanged T U (set (q_sleep q))"
    using q_disjointD(2,3) [OF D] by (intro P(5); blast)+
  show ?thesis unfolding U_def [symmetric]
  proof (rule q_rep_change [OF R])
    let ?cb = "cb\<lparr>ccb_hd_active := (ccb_hd_active cb)(i := if ccb_hd_active cb i = t then n else ccb_hd_active cb i),
         ccb_cr_active := (ccb_cr_active cb)(i := if ccb_cr_active cb i = t then n else ccb_cr_active cb i)\<rparr>"
    show "dlist U (ccb_hd_active ?cb j) (q_ready (q_del t q) j)" if "j \<le> 7" for j
      using P(1) q_repD(1) [OF R that] unchanged_dlist [OF oj, of j] nt(1)
      by (cases "j = i") (simp_all add: q_del_def)
    show "ccb_cr_active ?cb j = 0 \<or> ccb_cr_active ?cb j \<in> set (q_ready (q_del t q) j)" if "j \<le> 7" for j
      using P(6) q_repD(3) [OF R that] nt(1) by (cases "j = i") (auto simp: q_del_def)
    show "dlist U (ccb_hd_blocked ?cb) (q_blocked (q_del t q))" "slist U (ccb_hd_timerq ?cb) (q_sleep (q_del t q))"
      using q_repD(4,5) [OF R] unchanged_dlist [OF ob(1)] unchanged_slist [OF ob(2)] nt(2,3)
      by (simp_all add: q_del_def)
  qed (use P(2) q_repD(2) [OF R] in \<open>auto simp: q_del_def\<close>)
qed

lemma q_rep_unlink_blocked:
  assumes R: "q_rep c T cb q" and D: "q_disjoint q" and t: "t \<in> set (q_blocked q)"
  defines "n \<equiv> tcb_next (T t)"
  shows "q_rep c (unlink_tcbs t T)
     (cb\<lparr>ccb_hd_blocked := if ccb_hd_blocked cb = t then n else ccb_hd_blocked cb\<rparr>) (q_del t q)"
proof -
  define U where "U = unlink_tcbs t T"
  note P = unlink_props [OF q_repD(4) [OF R] t, folded U_def n_def]
  have nt: "removeAll t (q_ready q j) = q_ready q j" "removeAll t (q_sleep q) = q_sleep q" for j
    using q_disjointD(2,4) [OF D] t by (metis removeAll_id)+
  have oj: "unchanged T U (set (q_ready q j))" for j
    using q_disjointD(2) [OF D] by (intro P(5)) blast
  have ob: "unchanged T U (set (q_sleep q))"
    using q_disjointD(4) [OF D] by (intro P(5)) blast
  show ?thesis unfolding U_def [symmetric]
    by (rule q_rep_change [OF R])
      (use P(1,2) q_repD(1,2,3,5) [OF R] unchanged_dlist [OF oj] unchanged_slist [OF ob] nt
        in \<open>auto simp: q_del_def\<close>)
qed

text \<open>The first sleeping task has no predecessor, so only its successor is touched.\<close>

lemma q_rep_unlink_sleeper:
  assumes R: "q_rep c T cb q" and D: "q_disjoint q" and t: "q_sleep q = t # xs"
  defines "n \<equiv> tcb_next (T t)"
  shows "q_rep c (unlink_tcbs t T) (cb\<lparr>ccb_hd_timerq := n\<rparr>) (q_del t q)"
    and "unlink_tcbs t T x = T x" and "ccb_hd_timerq cb = t"
proof -
  define U where "U = unlink_tcbs t T"
  have S: "slist T (ccb_hd_timerq cb) (t # xs)" using q_repD(5) [OF R] t by simp
  then have tl: "ccb_hd_timerq cb = t" "tcb_prev (T t) = 0" "slist T n xs" by (simp_all add: n_def)
  then have np: "n \<noteq> 0 \<Longrightarrow> tcb_prev (T n) = 0" by (cases xs) auto
  have "U x = T x" for x
    using np tl(2) by (simp add: U_def unlink_tcbs_def Let_def n_def [symmetric])
  then have eq: "U = T" by blast
  then show "unlink_tcbs t T x = T x" by (simp add: U_def)
  show "ccb_hd_timerq cb = t" by fact
  have m: "t \<in> set (q_sleep q)" using t by simp
  have nt: "removeAll t (q_ready q j) = q_ready q j" "removeAll t (q_blocked q) = q_blocked q" for j
    using q_disjointD(3,4) [OF D] m by (metis removeAll_id)+
  have "t \<notin> set xs" using q_disjointD(5) [OF D] t by simp
  then have "removeAll t (q_sleep q) = xs" using t by simp
  then show "q_rep c (unlink_tcbs t T) (cb\<lparr>ccb_hd_timerq := n\<rparr>) (q_del t q)"
    unfolding U_def [symmetric] eq
    by (intro q_rep_change [OF R]) (use q_repD(1,2,3,4) [OF R] nt tl(3) in \<open>auto simp: q_del_def same_attrs_def\<close>)
qed

section \<open>Blocking and waking\<close>

lemma unlink_upd:
  assumes "same_links (T t) v" and "tcb_prev (T t) \<noteq> t" and "tcb_next (T t) \<noteq> t"
  shows "unlink_tcbs t (T(t := v)) = (unlink_tcbs t T)(t := v)"
  using assms by (simp add: unlink_tcbs_def Let_def same_links_def fun_eq_iff)

lemma tcb_swap: "t\<lparr>tcb_next := a, tcb_prev := b\<rparr> = t\<lparr>tcb_prev := b, tcb_next := a\<rparr>" for t :: tcb_t
  by (cases t) simp

lemma q_member:
  assumes "sched_inv c q s" and "t \<in> q_tasks q"
  shows "t \<noteq> 0" and "tcb_pid (tcbs s t) = t" and "task_ok c (tcbs s t)"
    and "sched_param_ok (TCB t) s" and "tcb_cpuid (tcbs s t) = c"
proof -
  have R: "q_rep c (tcbs s) (ccbs s c) q" and n: "c < numcores s" using assms(1) by (simp_all add: sched_inv_def)
  have "t \<noteq> 0 \<and> tcb_pid (tcbs s t) = t"
  proof -
    from assms(2) consider i where "t \<in> set (q_ready q i)" | "t \<in> set (q_blocked q)" | "t \<in> set (q_sleep q)"
      by (auto simp: q_tasks_def)
    then show ?thesis
    proof cases
      case (1 i)
      then have "i \<le> 7" using q_repD(2) [OF R, of i] by (cases "i \<le> 7") auto
      from dlist_nonzero [OF q_repD(1) [OF R this] 1] show ?thesis .
    next
      case 2
      from dlist_nonzero [OF q_repD(4) [OF R] 2] show ?thesis .
    next
      case 3
      from slist_nonzero [OF q_repD(5) [OF R] 3] show ?thesis .
    qed
  qed
  then show "t \<noteq> 0" "tcb_pid (tcbs s t) = t" by simp_all
  show ok: "task_ok c (tcbs s t)" using q_repD(6) [OF R assms(2)] .
  then show "sched_param_ok (TCB t) s" using n by (rule task_ok_param)
  show "tcb_cpuid (tcbs s t) = c" using ok by (simp add: task_ok_def)
qed

lemma q_heads:
  assumes "sched_inv c q s"
  shows "t \<noteq> 0 \<Longrightarrow> t \<notin> set (q_blocked q) \<Longrightarrow> ccb_hd_blocked (ccbs s c) \<noteq> t"
    and "t \<noteq> 0 \<Longrightarrow> t \<notin> set (q_sleep q) \<Longrightarrow> ccb_hd_timerq (ccbs s c) \<noteq> t"
proof -
  have R: "q_rep c (tcbs s) (ccbs s c) q" using assms by (simp add: sched_inv_def)
  show "t \<noteq> 0 \<Longrightarrow> t \<notin> set (q_blocked q) \<Longrightarrow> ccb_hd_blocked (ccbs s c) \<noteq> t"
    using dlist_hd_mem [OF q_repD(4) [OF R]] by blast
  show "t \<noteq> 0 \<Longrightarrow> t \<notin> set (q_sleep q) \<Longrightarrow> ccb_hd_timerq (ccbs s c) \<noteq> t"
    using slist_hd [OF q_repD(5) [OF R]] by (auto split: list.splits)
qed

text \<open>The state after removing a ready task, written out.\<close>

lemma sched_remove_eval:
  assumes "sched_param_ok (TCB t) s" and "tcb_cpuid (tcbs s t) = c"
    and "unat (tcb_priority (tcbs s t)) = i" and "tcb_pid (tcbs s t) = t" and "tcb_prev (tcbs s t) \<noteq> t"
    and "ccb_hd_blocked (ccbs s c) \<noteq> t" and "ccb_hd_timerq (ccbs s c) \<noteq> t"
  defines "n \<equiv> tcb_next (tcbs s t)" and "cb \<equiv> ccbs s c"
  shows "sched_remove (TCB t) s = s\<lparr>tcbs := (unlink_tcbs t (tcbs s))(t := (unlink_tcbs t (tcbs s) t)\<lparr>tcb_prev := 0, tcb_next := 0\<rparr>),
      ccbs := (ccbs s)(c := cb\<lparr>
         ccb_hd_active := (ccb_hd_active cb)(i := if ccb_hd_active cb i = t then n else ccb_hd_active cb i),
         ccb_cr_active := (ccb_cr_active cb)(i := if ccb_cr_active cb i = t then n else ccb_cr_active cb i)\<rparr>)\<rparr>"
proof -
  define cb1 where "cb1 = cb\<lparr>ccb_hd_active := (ccb_hd_active cb)(i := if ccb_hd_active cb i = t then n else ccb_hd_active cb i)\<rparr>"
  define cb2 where "cb2 = cb1\<lparr>ccb_cr_active := (ccb_cr_active cb)(i := if ccb_cr_active cb i = t then n else ccb_cr_active cb i)\<rparr>"
  define s1 where "s1 = s\<lparr>ccbs := (ccbs s)(c := cb1)\<rparr>"
  define s2 where "s2 = s\<lparr>ccbs := (ccbs s)(c := cb2)\<rparr>"
  have g: "get_tcb (TCB t) s = tcbs s t" "get_tcb (TCB t) s1 = tcbs s t" "get_tcb (TCB t) s2 = tcbs s t"
    by (simp_all add: get_tcb_def s1_def s2_def)
  have 1: "drop_active c (TCB t) s = s1"
    unfolding drop_active_def g assms(3,4) n_def [symmetric] cb_def [symmetric]
    by (simp add: s1_def cb1_def set_hd_active_def upd_ccb_def) (simp add: cb_def)
  have 2: "drop_current c (TCB t) s1 = s2"
    unfolding drop_current_def g assms(3,4) n_def [symmetric]
    by (simp add: s1_def s2_def cb2_def cb1_def set_cr_active_def upd_ccb_def)
  have 3: "drop_blocked c (TCB t) s2 = s2" "drop_timer c (TCB t) s2 = s2"
    using assms(6,7) by (simp_all add: drop_blocked_def drop_timer_def g assms(4))
      (simp_all add: s2_def cb2_def cb1_def cb_def)
  have 4: "sched_unlink (TCB t) s2 = s2\<lparr>tcbs := unlink_tcbs t (tcbs s)\<rparr>"
    using sched_unlink_eval [of s2 t] assms(5) by (simp add: s2_def)
  have 5: "sched_remove (TCB t) s = upd_tcb (TCB t) (\<lambda>x. x\<lparr>tcb_prev := 0, tcb_next := 0\<rparr>) (sched_unlink (TCB t) s2)"
    using assms(1) by (simp add: sched_remove_def g assms(2) 1 2 3)
  show ?thesis unfolding 5 4 by (simp add: upd_tcb_def s2_def cb2_def cb1_def)
qed

text \<open>
  Removing a ready task whose attributes were just changed to \<open>v\<close>: the first half of both
  blocking and going to sleep.
\<close>

lemma sched_remove_ready:
  assumes I: "sched_inv c q s" and t: "t \<in> set (q_ready q i)"
    and v: "same_links (tcbs s t) v" "task_ok c v" "tcb_priority v = tcb_priority (tcbs s t)"
  defines "s1 \<equiv> s\<lparr>tcbs := (tcbs s)(t := v)\<rparr>"
  shows "\<exists>V cb. sched_remove (TCB t) s1 = s1\<lparr>tcbs := V, ccbs := (ccbs s)(c := cb)\<rparr> \<and>
     V t = v\<lparr>tcb_prev := 0, tcb_next := 0\<rparr> \<and> q_rep c V cb (q_del t q) \<and>
     (\<forall>x. x \<noteq> t \<longrightarrow> same_attrs (tcbs s x) (V x)) \<and> ccb_hd_blocked cb = ccb_hd_blocked (ccbs s c) \<and>
     ccb_hd_timerq cb = ccb_hd_timerq (ccbs s c) \<and> ccb_sched_ticks cb = ccb_sched_ticks (ccbs s c)"
proof -
  note M = q_member [OF I q_tasksI(1) [OF t]]
  have R: "q_rep c (tcbs s) (ccbs s c) q" and D: "q_disjoint q" using I by (simp_all add: sched_inv_def)
  have i7: "i \<le> 7" using q_repD(2) [OF R, of i] t by (cases "i \<le> 7") auto
  note P = unlink_props [OF q_repD(1) [OF R i7] t]
  have heads: "ccb_hd_blocked (ccbs s c) \<noteq> t" "ccb_hd_timerq (ccbs s c) \<noteq> t"
    using q_heads [OF I M(1)] q_disjointD(2,3) [OF D t] by blast+
  define U where "U = unlink_tcbs t (tcbs s)"
  have nt: "tcb_next (tcbs s t) \<noteq> t" using P(6) M(1) by auto
  have s1: "tcbs s1 t = v" "ccbs s1 = ccbs s" "numcores s1 = numcores s" by (simp_all add: s1_def)
  have un: "unlink_tcbs t (tcbs s1) = U(t := v)"
    unfolding s1_def U_def using P(7) nt v(1) by (simp add: unlink_upd)
  define cb where "cb = (ccbs s c)\<lparr>
      ccb_hd_active := (ccb_hd_active (ccbs s c))(i := if ccb_hd_active (ccbs s c) i = t then tcb_next (tcbs s t) else ccb_hd_active (ccbs s c) i),
      ccb_cr_active := (ccb_cr_active (ccbs s c))(i := if ccb_cr_active (ccbs s c) i = t then tcb_next (tcbs s t) else ccb_cr_active (ccbs s c) i)\<rparr>"
  define V where "V = U(t := v\<lparr>tcb_prev := 0, tcb_next := 0\<rparr>)"
  have rem: "sched_remove (TCB t) s1 = s1\<lparr>tcbs := V, ccbs := (ccbs s)(c := cb)\<rparr>"
  proof -
    have "sched_param_ok (TCB t) s1" using task_ok_param [of c s1 t] v(2) I by (simp add: s1 sched_inv_def)
    moreover have vl: "tcb_prev v = tcb_prev (tcbs s t)" "tcb_pid v = tcb_pid (tcbs s t)"
      and nv: "tcb_next v = tcb_next (tcbs s t)"
      using v(1) unfolding same_links_def by metis+
    moreover have "tcb_cpuid v = c" "unat (tcb_priority v) = i" "tcb_pid v = t" "tcb_prev v \<noteq> t"
      unfolding v(3) vl using v(2) q_repD(8) [OF R t] M(2) P(7) by (simp_all add: task_ok_def)
    ultimately show ?thesis
      using sched_remove_eval [of t s1 c i, unfolded s1 un] heads by (simp add: cb_def V_def nv)
  qed
  have "q_rep c U cb (q_del t q)"
    unfolding U_def cb_def by (rule q_rep_unlink_ready [OF R D t])
  then have "q_rep c V cb (q_del t q)" by (rule q_rep_outside) (simp add: V_def)
  moreover have "\<forall>x. x \<noteq> t \<longrightarrow> same_attrs (tcbs s x) (V x)" using P(2) by (simp add: V_def U_def)
  ultimately show ?thesis using rem
    by (intro exI [of _ V] exI [of _ cb]) (simp add: V_def cb_def)
qed

text \<open>
  Blocking a ready task moves it to the front of the blocked queue. If it was the next one to
  run in its priority, its successor takes that place.
\<close>

lemma sched_block_inv:
  assumes I: "sched_inv c q s" and t: "t \<in> set (q_ready q i)"
  shows "sched_inv c (q_block t (q_del t q)) (sched_block (TCB t) s)"
proof -
  note M = q_member [OF I q_tasksI(1) [OF t]]
  have R: "q_rep c (tcbs s) (ccbs s c) q" and D: "q_disjoint q" using I by (simp_all add: sched_inv_def)
  define v where "v = (tcbs s t)\<lparr>tcb_state := TCB_STATE_BLOCKED, tcb_blktime := clock_ticks s\<rparr>"
  define s1 where "s1 = s\<lparr>tcbs := (tcbs s)(t := v)\<rparr>"
  have v: "same_links (tcbs s t) v" "task_ok c v" "tcb_priority v = tcb_priority (tcbs s t)" "tcb_pid v = t"
    using M by (simp_all add: v_def same_links_def task_ok_def)
  obtain V cb where rem: "sched_remove (TCB t) s1 = s1\<lparr>tcbs := V, ccbs := (ccbs s)(c := cb)\<rparr>"
    "V t = v\<lparr>tcb_prev := 0, tcb_next := 0\<rparr>" "q_rep c V cb (q_del t q)" "ccb_hd_blocked cb = ccb_hd_blocked (ccbs s c)"
    using sched_remove_ready [OF I t v(1-3)] unfolding s1_def by blast
  have blk: "sched_block (TCB t) s = blocked_push c (TCB t) (sched_remove (TCB t) s1)"
    using M q_repD(7) [OF R t]
    by (simp add: sched_block_def get_tcb_def upd_tcb_def v_def [symmetric] s1_def [symmetric] Let_def)
  have "ccb_hd_blocked cb \<noteq> t"
    using q_heads(1) [OF I M(1)] q_disjointD(2) [OF D t] rem(4) by simp
  then have push: "blocked_push c (TCB t) (s1\<lparr>tcbs := V, ccbs := (ccbs s)(c := cb)\<rparr>) =
      s1\<lparr>tcbs := push_tcbs t (ccb_hd_blocked cb) V, ccbs := (ccbs s)(c := cb\<lparr>ccb_hd_blocked := t\<rparr>)\<rparr>"
    using v(4)
    by (simp add: blocked_push_def get_tcb_def upd_tcb_def set_hd_blocked_def upd_ccb_def push_tcbs_def rem(2))
      (simp add: Let_def get_tcb_def upd_tcb_def tcb_swap rem(2))
  have "q_rep c (push_tcbs t (ccb_hd_blocked cb) V) (cb\<lparr>ccb_hd_blocked := t\<rparr>) (q_block t (q_del t q))"
    by (rule q_rep_push_blocked [OF rem(3) q_disjoint_del [OF D]])
      (use M v in \<open>simp_all add: rem(2) task_ok_def\<close>, simp add: v_def tcb_state_defs)
  moreover have "q_disjoint (q_block t (q_del t q))"
    by (rule q_disjoint_push(2) [OF q_disjoint_del [OF D]]) simp
  ultimately show ?thesis
    unfolding blk rem(1) push using I by (simp add: sched_inv_def s1_def)
qed

text \<open>
  Waking a blocked task makes it the first ready task of its priority and the next one to run
  there; the time it was blocked is added to its account.
\<close>

lemma awake_finish_inv:
  assumes I: "sched_inv c q s" and t: "t \<in> set (q_ready q i)" and p: "tcb_priority (tcbs s t) = p" "unat p = i"
    and pid: "tcb_pid (tcbs s t) = t"
  shows "sched_inv c q (awake_next c (TCB t) (awake_cpu c s))"
    and "ccb_cr_active (ccbs (awake_next c (TCB t) (awake_cpu c s)) c) i = t"
    and "ccb_hasactivetask (ccbs (awake_next c (TCB t) (awake_cpu c s)) c)"
    and "tcbs (awake_next c (TCB t) (awake_cpu c s)) = tcbs s"
proof -
  define s' where "s' = awake_next c (TCB t) (awake_cpu c s)"
  have f: "tcbs s' = tcbs s" "numcores s' = numcores s" "ccbs s' c =
      (ccbs s c)\<lparr>ccb_cr_active := (ccb_cr_active (ccbs s c))(i := t), ccb_hasactivetask := True\<rparr>"
    using p pid by (simp_all add: s'_def awake_next_def awake_cpu_def set_cr_active_def upd_ccb_def get_tcb_def)
  have R: "q_rep c (tcbs s) (ccbs s c) q" using I by (simp add: sched_inv_def)
  have "q_rep c (tcbs s) (ccbs s' c) q"
    by (rule q_rep_change [OF R]) (use q_repD [OF R] t in \<open>auto simp: f same_attrs_def\<close>)
  then show "sched_inv c q (awake_next c (TCB t) (awake_cpu c s))"
    using I f by (simp add: sched_inv_def s'_def [symmetric])
  show "ccb_cr_active (ccbs (awake_next c (TCB t) (awake_cpu c s)) c) i = t"
    "ccb_hasactivetask (ccbs (awake_next c (TCB t) (awake_cpu c s)) c)"
    "tcbs (awake_next c (TCB t) (awake_cpu c s)) = tcbs s"
    using f by (simp_all add: s'_def [symmetric])
qed

lemma sched_awake_eval:
  assumes "sched_param_ok (TCB t) s" and "tcb_cpuid (tcbs s t) = c" and "tcb_pid (tcbs s t) = t"
    and "tcb_state (tcbs s t) \<noteq> TCB_STATE_RUNNING" and "tcb_prev (tcbs s t) \<noteq> t" and "tcb_next (tcbs s t) \<noteq> t"
    and nt: "ccb_hd_timerq (ccbs s c) \<noteq> t"
  defines "v \<equiv> (tcbs s t)\<lparr>tcb_state := (if tcb_state (tcbs s t) = TCB_STATE_HYBERND then TCB_STATE_BLOCKED else tcb_state (tcbs s t)),
      tcb_blkcnt := tcb_blkcnt (tcbs s t) + (clock_ticks s - tcb_blktime (tcbs s t)), tcb_blktime := 0\<rparr>"
  defines "s1 \<equiv> s\<lparr>tcbs := (unlink_tcbs t (tcbs s))(t := v), ccbs := (ccbs s)(c := (ccbs s c)\<lparr>ccb_hd_blocked :=
      if ccb_hd_blocked (ccbs s c) = t then tcb_next (tcbs s t) else ccb_hd_blocked (ccbs s c)\<rparr>)\<rparr>"
  shows "sched_awake (TCB t) s = awake_next c (TCB t) (awake_cpu c (sched_add (TCB t) s1))"
proof -
  define s2 where "s2 = s\<lparr>tcbs := (tcbs s)(t := v), ccbs := (ccbs s)(c := (ccbs s c)\<lparr>ccb_hd_blocked :=
      if ccb_hd_blocked (ccbs s c) = t then tcb_next (tcbs s t) else ccb_hd_blocked (ccbs s c)\<rparr>)\<rparr>"
  have 1: "awake_account (TCB t) s = s\<lparr>tcbs := (tcbs s)(t := v)\<rparr>"
    by (simp add: awake_account_def upd_tcb_def v_def)
  have v: "tcb_pid v = t" "tcb_next v = tcb_next (tcbs s t)" "tcb_prev v = tcb_prev (tcbs s t)"
    using assms(3) by (simp_all add: v_def)
  have 2: "drop_blocked c (TCB t) (s\<lparr>tcbs := (tcbs s)(t := v)\<rparr>) = s2"
    by (simp add: drop_blocked_def get_tcb_def v s2_def set_hd_blocked_def upd_ccb_def)
  have 3: "awake_timer c (TCB t) s2 = s2"
    using nt by (simp add: awake_timer_def s2_def get_tcb_def v)
  have un: "unlink_tcbs t ((tcbs s)(t := v)) = (unlink_tcbs t (tcbs s))(t := v)"
    using assms(5,6) by (intro unlink_upd) (simp_all add: same_links_def v assms(3))
  have 4: "sched_unlink (TCB t) s2 = s1"
    using sched_unlink_eval [of s2 t] assms(5) v un by (simp add: s2_def s1_def)
  have g: "get_tcb (TCB t) s = tcbs s t" by (simp add: get_tcb_def)
  show ?thesis
    using assms(1,2,4) by (simp add: sched_awake_def g 1 2 3 4)
qed

lemma sched_awake_blocked:
  assumes I: "sched_inv c q s" and t: "t \<in> set (q_blocked q)"
  defines "i \<equiv> unat (tcb_priority (tcbs s t))"
  shows "sched_inv c (q_add i t (q_del t q)) (sched_awake (TCB t) s)"
    and "ccb_cr_active (ccbs (sched_awake (TCB t) s) c) i = t"
    and "tcb_state (tcbs (sched_awake (TCB t) s) t) = TCB_STATE_RUNNING"
    and "tcb_blkcnt (tcbs (sched_awake (TCB t) s) t) = tcb_blkcnt (tcbs s t) + (clock_ticks s - tcb_blktime (tcbs s t))"
proof -
  note M = q_member [OF I q_tasksI(2) [OF t]]
  have R: "q_rep c (tcbs s) (ccbs s c) q" and D: "q_disjoint q" using I by (simp_all add: sched_inv_def)
  note P = unlink_props [OF q_repD(4) [OF R] t]
  have nt: "tcb_next (tcbs s t) \<noteq> t" using P(6) M(1) by auto
  have tq: "ccb_hd_timerq (ccbs s c) \<noteq> t" using q_heads(2) [OF I M(1)] q_disjointD(4) [OF D t] by blast
  define v where "v = (tcbs s t)\<lparr>tcb_state := (if tcb_state (tcbs s t) = TCB_STATE_HYBERND then TCB_STATE_BLOCKED else tcb_state (tcbs s t)),
      tcb_blkcnt := tcb_blkcnt (tcbs s t) + (clock_ticks s - tcb_blktime (tcbs s t)), tcb_blktime := 0\<rparr>"
  define s1 where "s1 = s\<lparr>tcbs := (unlink_tcbs t (tcbs s))(t := v), ccbs := (ccbs s)(c := (ccbs s c)\<lparr>ccb_hd_blocked :=
      if ccb_hd_blocked (ccbs s c) = t then tcb_next (tcbs s t) else ccb_hd_blocked (ccbs s c)\<rparr>)\<rparr>"
  have ev: "sched_awake (TCB t) s = awake_next c (TCB t) (awake_cpu c (sched_add (TCB t) s1))"
    unfolding s1_def v_def
    by (rule sched_awake_eval [OF M(4,5,2) q_repD(9) [OF R t] P(7) nt tq])
  have v: "task_ok c v" "tcb_pid v = t" "unat (tcb_priority v) = i"
    using M by (simp_all add: v_def task_ok_def i_def)
  have s1: "tcbs s1 t = v" "numcores s1 = numcores s" by (simp_all add: s1_def)
  have I1: "sched_inv c (q_del t q) s1"
  proof -
    have "q_rep c (tcbs s1) (ccbs s1 c) (q_del t q)"
      using q_rep_outside [OF q_rep_unlink_blocked [OF R D t], of "tcbs s1"] by (simp add: s1_def)
    then show ?thesis using I q_disjoint_del [OF D] by (simp add: sched_inv_def s1)
  qed
  have I2: "sched_inv c (q_add i t (q_del t q)) (sched_add (TCB t) s1)"
    using sched_add_inv [OF I1 _ M(1), unfolded s1(1), OF _ v(1,2)] v(3) by simp
  have p1: "sched_param_ok (TCB t) s1"
    using task_ok_param [of c s1 t] v(1) I by (simp add: s1 sched_inv_def)
  have at: "tcbs (sched_add (TCB t) s1) t =
      v\<lparr>tcb_state := TCB_STATE_RUNNING, tcb_prev := 0, tcb_next := ccb_hd_active (ccbs s1 c) i\<rparr>"
  proof -
    have c: "c = tcb_cpuid (tcbs s1 t)" using v(1) s1 by (simp add: task_ok_def)
    have "ccb_hd_active (ccbs s1 c) i \<noteq> t"
    proof -
      have "i \<le> 7" using v(1,3) by (auto simp: task_ok_def PRI_IDLE_def word_le_nat_alt)
      moreover have "q_rep c (tcbs s1) (ccbs s1 c) (q_del t q)" using I1 by (simp add: sched_inv_def)
      ultimately have "dlist (tcbs s1) (ccb_hd_active (ccbs s1 c) i) (q_ready (q_del t q) i)"
        using q_repD(1) by blast
      from dlist_hd_mem [OF this] M(1) show ?thesis by (auto simp: q_del_def)
    qed
    then show ?thesis
      unfolding sched_add_eval [OF p1 c refl] s1(1) v(3) by (simp add: push_tcbs_def Let_def s1)
  qed
  have mem: "t \<in> set (q_ready (q_add i t (q_del t q)) i)" by (simp add: q_add_def)
  note F = awake_finish_inv [OF I2 mem, of "tcb_priority v"]
  show "sched_inv c (q_add i t (q_del t q)) (sched_awake (TCB t) s)"
    "ccb_cr_active (ccbs (sched_awake (TCB t) s) c) i = t"
    "tcb_state (tcbs (sched_awake (TCB t) s) t) = TCB_STATE_RUNNING"
    "tcb_blkcnt (tcbs (sched_awake (TCB t) s) t) = tcb_blkcnt (tcbs s t) + (clock_ticks s - tcb_blktime (tcbs s t))"
    unfolding ev using F at v by (simp_all add: v_def)
qed

lemma q_rep_ccb_cong:
  assumes "q_rep c T cb q" and "ccb_hd_active cb' = ccb_hd_active cb" and "ccb_cr_active cb' = ccb_cr_active cb"
    and "ccb_hd_blocked cb' = ccb_hd_blocked cb" and "ccb_hd_timerq cb' = ccb_hd_timerq cb"
  shows "q_rep c T cb' q"
  using assms unfolding q_rep_def by simp

section \<open>Sleeping\<close>

text \<open>The place of a new sleeper: behind all that wake no later.\<close>

definition wake_before :: "(u64 \<Rightarrow> tcb_t) \<Rightarrow> u64 \<Rightarrow> u64 list \<Rightarrow> u64 list" where
  "wake_before T a xs = takeWhile (\<lambda>x. tcb_alarmusec (T x) \<le> a) xs"

definition wake_after :: "(u64 \<Rightarrow> tcb_t) \<Rightarrow> u64 \<Rightarrow> u64 list \<Rightarrow> u64 list" where
  "wake_after T a xs = dropWhile (\<lambda>x. tcb_alarmusec (T x) \<le> a) xs"

text \<open>The search ends on every queue and stops at that place.\<close>

lemma delay_find_result:
  assumes "slist T h xs"
  shows "delay_find T a p h = Some (if wake_before T a xs = [] then p else last (wake_before T a xs),
           case wake_after T a xs of [] \<Rightarrow> 0 | z # _ \<Rightarrow> z)"
  using assms
proof (induction xs arbitrary: h p)
  case Nil
  then show ?case by (subst delay_find.simps) (simp add: wake_before_def wake_after_def)
next
  case (Cons x xs)
  then have h: "h = x" "x \<noteq> 0" "slist T (tcb_next (T x)) xs" by simp_all
  show ?case
  proof (cases "a < tcb_alarmusec (T x)")
    case True
    then have "\<not> tcb_alarmusec (T x) \<le> a" by (simp only: not_le)
    with h True show ?thesis by (subst delay_find.simps) (simp add: wake_before_def wake_after_def)
  next
    case False
    then have "tcb_alarmusec (T x) \<le> a" by (simp only: not_less)
    with False h Cons.IH [OF h(3), of x] show ?thesis
      by (subst delay_find.simps) (simp add: wake_before_def wake_after_def)
  qed
qed

lemma slist_insert:
  assumes "slist T h (ys @ zs)" and "t \<noteq> 0" and "distinct (ys @ zs)"
    and "tcb_prev (U t) = 0" and "tcb_pid (U t) = t" and "tcb_next (U t) = (case zs of [] \<Rightarrow> 0 | z # _ \<Rightarrow> z)"
    and "ys \<noteq> [] \<Longrightarrow> same_links ((T (last ys))\<lparr>tcb_next := t\<rparr>) (U (last ys))"
    and "\<forall>x \<in> set (ys @ zs). (ys = [] \<or> x \<noteq> last ys) \<longrightarrow> same_links (T x) (U x)"
  shows "slist U (if ys = [] then t else h) (ys @ t # zs)"
  using assms
proof (induction ys arbitrary: h)
  case Nil
  have "slist U h zs" using Nil.prems slist_cong [of zs T U] by simp
  with Nil.prems slist_hd [of T h zs] show ?case by simp
next
  case (Cons y ys)
  show ?case
  proof (cases "ys = []")
    case True
    have "slist T (tcb_next (T y)) zs" "y \<notin> set zs" using Cons.prems True by simp_all
    moreover have "\<forall>x \<in> set zs. same_links (T x) (U x)" using Cons.prems(3,8) True by auto
    ultimately have "slist U (tcb_next (T y)) zs" using slist_cong by blast
    moreover have "tcb_next (T y) = (case zs of [] \<Rightarrow> 0 | z # _ \<Rightarrow> z)"
      using slist_hd \<open>slist T (tcb_next (T y)) zs\<close> by blast
    ultimately show ?thesis using Cons.prems True by (simp add: same_links_def)
  next
    case False
    have ny: "y \<noteq> last ys" using Cons.prems(3) False last_in_set [OF False] by auto
    have "slist U (if ys = [] then t else tcb_next (T y)) (ys @ t # zs)"
      using Cons.prems False by (intro Cons.IH) auto
    then have "slist U (tcb_next (T y)) (ys @ t # zs)" using False by simp
    moreover have "same_links (T y) (U y)" using Cons.prems(8) ny False by simp
    ultimately show ?thesis using Cons.prems(1) by (simp add: same_links_def)
  qed
qed

text \<open>The state after linking a sleeper in, written out.\<close>

definition sleep_tcbs :: "u64 \<Rightarrow> u64 \<Rightarrow> u64 \<Rightarrow> (u64 \<Rightarrow> tcb_t) \<Rightarrow> (u64 \<Rightarrow> tcb_t)" where
  "sleep_tcbs t prv nxt T = (
     let T1 = T(t := (T t)\<lparr>tcb_next := nxt\<rparr>)
     in if prv = 0 then T1 else T1(prv := (T1 prv)\<lparr>tcb_next := t\<rparr>))"

definition q_sleep_in :: "u64 \<Rightarrow> u64 list \<Rightarrow> u64 list \<Rightarrow> queues \<Rightarrow> queues" where
  "q_sleep_in t ys zs q = q\<lparr>q_sleep := ys @ t # zs\<rparr>"

lemma q_rep_sleep:
  assumes R: "q_rep c T cb q" and D: "q_disjoint q" and t: "t \<notin> q_tasks q" "t \<noteq> 0"
    and ok: "task_ok c (T t)" "tcb_pid (T t) = t" "tcb_prev (T t) = 0" "tcb_state (T t) \<noteq> TCB_STATE_RUNNING"
    and sl: "q_sleep q = ys @ zs"
  defines "prv \<equiv> if ys = [] then 0 else last ys" and "nxt \<equiv> case zs of [] \<Rightarrow> 0 | z # _ \<Rightarrow> z"
  shows "q_rep c (sleep_tcbs t prv nxt T) (cb\<lparr>ccb_hd_timerq := (if prv = 0 then t else ccb_hd_timerq cb)\<rparr>)
           (q_sleep_in t ys zs q)"
proof -
  define U where "U = sleep_tcbs t prv nxt T"
  have S: "slist T (ccb_hd_timerq cb) (ys @ zs)" using q_repD(5) [OF R] sl by simp
  have ds: "distinct (ys @ zs)" using q_disjointD(5) [OF D] sl by simp
  have tn: "t \<notin> set (ys @ zs)" using q_not_in(3) [OF t(1)] sl by simp
  have l: "ys \<noteq> [] \<Longrightarrow> last ys \<in> set (ys @ zs)" by simp
  have p0: "prv = 0 \<longleftrightarrow> ys = []"
    using slist_nonzero [OF S l] by (auto simp: prv_def)
  have pt: "ys \<noteq> [] \<Longrightarrow> last ys \<noteq> t" using l tn by metis
  have U_t: "U t = (T t)\<lparr>tcb_next := nxt\<rparr>"
    using pt by (cases "ys = []") (simp_all add: U_def sleep_tcbs_def Let_def p0 prv_def)
  have U_p: "U (last ys) = (T (last ys))\<lparr>tcb_next := t\<rparr>" if "ys \<noteq> []"
    using that pt p0 by (simp add: U_def sleep_tcbs_def Let_def) (simp add: prv_def)
  have U_o: "U x = T x" if "x \<noteq> t" "ys = [] \<or> x \<noteq> last ys" for x
    using that by (cases "ys = []") (simp_all add: U_def sleep_tcbs_def Let_def p0 prv_def)
  have attrs: "same_attrs (T x) (U x)" for x
  proof -
    consider "x = t" | "ys \<noteq> []" "x = last ys" | "x \<noteq> t" "ys = [] \<or> x \<noteq> last ys" by blast
    then show ?thesis
    proof cases
      case 1
      show ?thesis unfolding 1 U_t by (simp add: same_attrs_def)
    next
      case 2
      show ?thesis unfolding 2(2) U_p [OF 2(1)] by (simp add: same_attrs_def)
    next
      case 3
      show ?thesis unfolding U_o [OF 3] by (simp add: same_attrs_def)
    qed
  qed
  have un: "unchanged T U X" if "t \<notin> X" "X \<inter> set (q_sleep q) = {}" for X
    unfolding unchanged_def same_links_def using U_o l that sl by (metis disjoint_iff)
  have new: "slist U (if ys = [] then t else ccb_hd_timerq cb) (ys @ t # zs)"
  proof (rule slist_insert [OF S t(2) ds])
    show "tcb_prev (U t) = 0" "tcb_pid (U t) = t" "tcb_next (U t) = (case zs of [] \<Rightarrow> 0 | z # _ \<Rightarrow> z)"
      using ok by (simp_all add: U_t nxt_def)
    show "same_links ((T (last ys))\<lparr>tcb_next := t\<rparr>) (U (last ys))" if "ys \<noteq> []"
      unfolding U_p [OF that] by (simp add: same_links_def)
    show "\<forall>x \<in> set (ys @ zs). (ys = [] \<or> x \<noteq> last ys) \<longrightarrow> same_links (T x) (U x)"
      unfolding same_links_def using U_o tn by metis
  qed
  have rd: "unchanged T U (set (q_ready q i))" for i
    using q_disjointD(3) [OF D] by (intro un q_not_in [OF t(1)]) blast
  have bl: "unchanged T U (set (q_blocked q))"
    using q_disjointD(4) [OF D] by (intro un q_not_in [OF t(1)]) blast
  show ?thesis unfolding U_def [symmetric]
  proof (rule q_rep_change [OF R])
    show "x \<in> set (q_blocked q) \<union> set (q_sleep q) \<or> task_ok c (U x) \<and> tcb_state (U x) \<noteq> TCB_STATE_RUNNING"
      if "x \<in> set (q_blocked (q_sleep_in t ys zs q)) \<union> set (q_sleep (q_sleep_in t ys zs q))" for x
      using that ok(1,4) attrs [of t] sl by (auto simp: q_sleep_in_def same_attrs_def task_ok_def)
    show "same_attrs (T x) (U x)" for x by (rule attrs)
    show "slist U (ccb_hd_timerq (cb\<lparr>ccb_hd_timerq := if prv = 0 then t else ccb_hd_timerq cb\<rparr>)) (q_sleep (q_sleep_in t ys zs q))"
      using new p0 by (simp add: q_sleep_in_def)
    show "dlist U (ccb_hd_blocked (cb\<lparr>ccb_hd_timerq := if prv = 0 then t else ccb_hd_timerq cb\<rparr>)) (q_blocked (q_sleep_in t ys zs q))"
      using q_repD(4) [OF R] unchanged_dlist [OF bl] by (simp add: q_sleep_in_def)
    show "dlist U (ccb_hd_active (cb\<lparr>ccb_hd_timerq := if prv = 0 then t else ccb_hd_timerq cb\<rparr>) i) (q_ready (q_sleep_in t ys zs q) i)"
      if "i \<le> 7" for i
      using q_repD(1) [OF R that] unchanged_dlist [OF rd] by (simp add: q_sleep_in_def)
  qed (use q_repD(2,3) [OF R] in \<open>auto simp: q_sleep_in_def\<close>)
qed


lemma q_disjoint_sleep:
  assumes "q_disjoint q" and "t \<notin> q_tasks q" and "q_sleep q = ys @ zs"
  shows "q_disjoint (q_sleep_in t ys zs q)"
  using assms unfolding q_disjoint_def q_sleep_in_def q_tasks_def by auto

text \<open>
  A ready task that goes to sleep: the call returns, and the task sits in the sleep queue
  behind every task that wakes no later than it.
\<close>

lemma sched_delay_inv:
  fixes usec :: u64
  assumes I: "sched_inv c q s" and t: "t \<in> set (q_ready q i)"
  defines "a \<equiv> (if q_sleep q = [] then 0 else ccb_sched_ticks (ccbs s c)) + usec"
  shows "\<exists>s'. sched_delay (TCB t) usec s = Some s' \<and>
     sched_inv c (q_sleep_in t (wake_before (tcbs s) a (q_sleep q)) (wake_after (tcbs s) a (q_sleep q)) (q_del t q)) s' \<and>
     tcb_alarmusec (tcbs s' t) = a \<and> (\<forall>x. x \<noteq> t \<longrightarrow> tcb_alarmusec (tcbs s' x) = tcb_alarmusec (tcbs s x))"
proof -
  note M = q_member [OF I q_tasksI(1) [OF t]]
  have R: "q_rep c (tcbs s) (ccbs s c) q" and D: "q_disjoint q" using I by (simp_all add: sched_inv_def)
  define v where "v = (tcbs s t)\<lparr>tcb_state := TCB_STATE_BLOCKED\<rparr>"
  define s1 where "s1 = s\<lparr>tcbs := (tcbs s)(t := v)\<rparr>"
  have v: "same_links (tcbs s t) v" "task_ok c v" "tcb_priority v = tcb_priority (tcbs s t)" "tcb_pid v = t"
    using M by (simp_all add: v_def same_links_def task_ok_def)
  obtain V cb where rem: "sched_remove (TCB t) s1 = s1\<lparr>tcbs := V, ccbs := (ccbs s)(c := cb)\<rparr>"
    "V t = v\<lparr>tcb_prev := 0, tcb_next := 0\<rparr>" "q_rep c V cb (q_del t q)"
    "\<forall>x. x \<noteq> t \<longrightarrow> same_attrs (tcbs s x) (V x)"
    "ccb_hd_timerq cb = ccb_hd_timerq (ccbs s c)" "ccb_sched_ticks cb = ccb_sched_ticks (ccbs s c)"
    using sched_remove_ready [OF I t v(1-3)] unfolding s1_def by blast
  have tn: "t \<notin> set (q_sleep q)" using q_disjointD(3) [OF D t] .
  then have qs: "q_sleep (q_del t q) = q_sleep q" by (simp add: q_del_def)
  have e0: "ccb_hd_timerq (ccbs s c) = 0 \<longleftrightarrow> q_sleep q = []"
    using slist_hd [OF q_repD(5) [OF R]] slist_nonzero [OF q_repD(5) [OF R]] by (cases "q_sleep q") auto
  define cb1 where "cb1 = (if q_sleep q = [] then cb\<lparr>ccb_sched_ticks := 0\<rparr> else cb)"
  define W where "W = V(t := (V t)\<lparr>tcb_alarmusec := a\<rparr>)"
  define ys zs where "ys = wake_before (tcbs s) a (q_sleep q)" and "zs = wake_after (tcbs s) a (q_sleep q)"
  have yz: "q_sleep q = ys @ zs" by (simp add: ys_def zs_def wake_before_def wake_after_def)
  have al: "tcb_alarmusec (W x) = tcb_alarmusec (tcbs s x)" if "x \<noteq> t" for x
    using rem(4) that by (simp add: W_def same_attrs_def)
  have al': "tcb_alarmusec (W x) = tcb_alarmusec (tcbs s x)" if "x \<in> set (q_sleep q)" for x
    using al tn that by metis
  have wb: "wake_before W a (q_sleep q) = ys" "wake_after W a (q_sleep q) = zs"
    unfolding ys_def zs_def wake_before_def wake_after_def
    by (intro takeWhile_cong dropWhile_cong refl; simp add: al')+
  have RW: "q_rep c W cb1 (q_del t q)"
  proof (rule q_rep_ccb_cong)
    show "q_rep c W cb (q_del t q)" using rem(3) by (rule q_rep_outside) (simp add: W_def)
  qed (simp_all add: cb1_def)
  have h1: "ccb_hd_timerq cb1 = ccb_hd_timerq (ccbs s c)" using rem(5) by (simp add: cb1_def)
  define prv nxt where "prv = (if ys = [] then 0 else last ys)" and "nxt = (case zs of [] \<Rightarrow> 0 | z # _ \<Rightarrow> z)"
  have df: "delay_find W a 0 (ccb_hd_timerq cb1) = Some (prv, nxt)"
    using delay_find_result [of W "ccb_hd_timerq cb1" "q_sleep q" a 0] q_repD(5) [OF RW]
    by (simp add: qs wb prv_def nxt_def)
  have pt: "prv \<noteq> t" using tn yz M(1) last_in_set [of ys] by (auto simp: prv_def)
  define s2 where "s2 = s1\<lparr>tcbs := W, ccbs := (ccbs s)(c := cb1)\<rparr>"
  define s3 where "s3 = s2\<lparr>tcbs := sleep_tcbs t prv nxt W\<rparr>"
  define s4 where "s4 = (if prv = 0 then set_hd_timerq c t (s3\<lparr>win_alarm := t\<rparr>) else s3)"
  have Wt: "tcb_pid (W t) = t" using v(4) by (simp add: W_def rem(2))
  have run: "sched_delay (TCB t) usec s = Some s4"
  proof -
    define s5 where "s5 = s1\<lparr>tcbs := V, ccbs := (ccbs s)(c := cb)\<rparr>"
    have 1: "(if ccb_hd_timerq (ccbs s5 c) = 0 then upd_ccb c (\<lambda>x. x\<lparr>ccb_sched_ticks := 0\<rparr>) s5 else s5)
        = s5\<lparr>ccbs := (ccbs s)(c := cb1)\<rparr>"
      by (simp add: s5_def cb1_def upd_ccb_def rem(5) e0)
    have ticks: "ccb_sched_ticks cb1 + usec = a" by (simp add: cb1_def a_def rem(6))
    have 2: "upd_tcb (TCB t) (\<lambda>x. x\<lparr>tcb_alarmusec := ccb_sched_ticks (ccbs (s5\<lparr>ccbs := (ccbs s)(c := cb1)\<rparr>) c) + usec\<rparr>)
        (s5\<lparr>ccbs := (ccbs s)(c := cb1)\<rparr>) = s2"
      by (simp add: upd_tcb_def s5_def s2_def W_def ticks)
    have 3: "upd_tcb (TCB t) (\<lambda>x. x\<lparr>tcb_state := TCB_STATE_BLOCKED\<rparr>) s = s1"
      by (simp add: upd_tcb_def s1_def v_def)
    have 4: "get_tcb (TCB t) s2 = W t" "tcb_alarmusec (W t) = a" "tcbs s2 = W" "ccbs s2 c = cb1"
      by (simp_all add: get_tcb_def s2_def W_def)
    have 5: "upd_tcb (TCB t) (\<lambda>x. x\<lparr>tcb_next := nxt\<rparr>) s2 = s2\<lparr>tcbs := W(t := (W t)\<lparr>tcb_next := nxt\<rparr>)\<rparr>"
      by (simp add: upd_tcb_def s2_def)
    have 6: "get_tcb (TCB t) s = tcbs s t" by (simp add: get_tcb_def)
    show ?thesis
      unfolding sched_delay_def Let_def 6 3 M(5) rem(1) s5_def [symmetric] 1 2 4 df option.case prod.case 5
      using M(4) q_repD(7) [OF R t] pt Wt
      by (simp add: s4_def s3_def sleep_tcbs_def Let_def get_tcb_def upd_tcb_def)
  qed
  have nt: "t \<notin> q_tasks (q_del t q)" by simp
  have "q_rep c (sleep_tcbs t prv nxt W) (cb1\<lparr>ccb_hd_timerq := if prv = 0 then t else ccb_hd_timerq cb1\<rparr>)
      (q_sleep_in t ys zs (q_del t q))"
    unfolding prv_def nxt_def
    by (rule q_rep_sleep [OF RW q_disjoint_del [OF D] nt M(1)])
      (use v Wt qs yz in \<open>simp_all add: W_def rem(2) task_ok_def\<close>, simp add: v_def tcb_state_defs)
  then have "sched_inv c (q_sleep_in t ys zs (q_del t q)) s4"
    using I q_disjoint_sleep [OF q_disjoint_del [OF D] nt, of ys zs] qs yz
    by (cases "prv = 0") (simp_all add: sched_inv_def s4_def s3_def s2_def s1_def set_hd_timerq_def upd_ccb_def)
  moreover have "tcb_alarmusec (tcbs s4 x) = tcb_alarmusec (W x)" for x
    by (simp add: s4_def s3_def sleep_tcbs_def Let_def set_hd_timerq_def upd_ccb_def)
  ultimately show ?thesis using run al by (auto simp: ys_def zs_def W_def)
qed

end
