(* ===== verification/Core_Sched_Fair.thy ===== *)
theory Core_Sched_Fair
  imports Core_Sched_Queues
begin

text \<open>
  Which task runs next: \<open>sched_pick\<close> refines an abstract scheduler that works on one position
  per ready queue, and that abstract scheduler reaches every position. The theory ends with the
  properties of the scheduler.
\<close>

section \<open>Choosing the next task\<close>

text \<open>
  The abstract scheduler. Every ready queue below the idle one has a position: the number of
  its tasks that already ran in this turn. The first queue that has tasks left gives the next
  one; the queues before it that are used up start again. When all are used up, all start
  again and the first non-empty one is served.
\<close>

definition pos_ok :: "ccb_t \<Rightarrow> queues \<Rightarrow> (nat \<Rightarrow> nat) \<Rightarrow> bool" where
  "pos_ok cb q d \<longleftrightarrow> (\<forall>i \<le> 7. d i \<le> length (q_ready q i) \<and>
     ccb_cr_active cb i = (if d i < length (q_ready q i) then q_ready q i ! d i else 0))"

text \<open>No sleeping task is due: the alarm window shows a task whose time has not come.\<close>

definition no_alarm :: "kstate \<Rightarrow> bool" where
  "no_alarm s \<longleftrightarrow> ccb_hd_timerq (ccbs s (this_cpu s)) = 0 \<or>
     ccb_sched_ticks (ccbs s (this_cpu s)) < tcb_alarmusec (tcbs s (win_alarm s))"

lemma dlist_nth:
  assumes "dlist T h xs" and "k < length xs"
  shows "tcb_next (T (xs ! k)) = (if Suc k < length xs then xs ! Suc k else 0)"
    and "xs ! k \<noteq> 0" and "tcb_pid (T (xs ! k)) = xs ! k"
proof -
  have "xs = take k xs @ xs ! k # drop (Suc k) xs" using assms(2) by (rule id_take_nth_drop)
  then have "dlist T h (take k xs @ xs ! k # drop (Suc k) xs)" using assms(1) by simp
  from dlist_links(2) [OF this] show "tcb_next (T (xs ! k)) = (if Suc k < length xs then xs ! Suc k else 0)"
    using assms(2) by (simp add: hd_drop_conv_nth)
  show "xs ! k \<noteq> 0" "tcb_pid (T (xs ! k)) = xs ! k"
    using dlist_nonzero [OF assms(1) nth_mem [OF assms(2)]] by simp_all
qed

text \<open>A round started at \<open>i\<close> when no alarm is due, on the queue positions.\<close>

lemma pick_round_skip:
  assumes "no_alarm s" and "i < 7" and "ccb_hd_active (ccbs s (this_cpu s)) i = 0"
  shows "pick_round i b s = pick_round (Suc i) b s"
  using assms by (subst pick_round.simps) (auto simp: Let_def no_alarm_def get_tcb_def PRI_IDLE_def)

lemma pick_round_hit:
  assumes "no_alarm s" and "i < 7" and "ccb_hd_active (ccbs s (this_cpu s)) i \<noteq> 0"
    and "ccb_cr_active (ccbs s (this_cpu s)) i \<noteq> 0"
  shows "pick_round i b s = Found i s"
  using assms by (subst pick_round.simps) (auto simp: Let_def no_alarm_def get_tcb_def PRI_IDLE_def)

lemma pick_round_restart:
  assumes "no_alarm s" and "i < 7" and "ccb_hd_active (ccbs s (this_cpu s)) i \<noteq> 0"
    and "ccb_cr_active (ccbs s (this_cpu s)) i = 0"
  shows "pick_round i b s =
    pick_round (Suc i) True (set_cr_active (this_cpu s) i (ccb_hd_active (ccbs s (this_cpu s)) i) s)"
  using assms by (subst pick_round.simps) (auto simp: Let_def no_alarm_def get_tcb_def PRI_IDLE_def)

lemma pick_round_end: "\<not> i < 7 \<Longrightarrow> pick_round i b s = Round b s"
  by (subst pick_round.simps) (simp add: PRI_IDLE_def)

lemma set_cr_active_frame [simp]:
  "tcbs (set_cr_active c i v s) = tcbs s" "win_alarm (set_cr_active c i v s) = win_alarm s"
  "numcores (set_cr_active c i v s) = numcores s" "runlevel (set_cr_active c i v s) = runlevel s"
  "ccb_hd_timerq (ccbs (set_cr_active c i v s) d) = ccb_hd_timerq (ccbs s d)"
  "ccb_hd_blocked (ccbs (set_cr_active c i v s) d) = ccb_hd_blocked (ccbs s d)"
  "ccb_sched_ticks (ccbs (set_cr_active c i v s) d) = ccb_sched_ticks (ccbs s d)"
  "idle_tcb (set_cr_active c i v s) = idle_tcb s"
  "no_alarm (set_cr_active c i v s) = no_alarm s"
  by (simp_all add: set_cr_active_def upd_ccb_def no_alarm_def)

lemma sched_inv_set_cr:
  assumes "sched_inv c q s" and "v \<in> insert 0 (set (q_ready q i))"
  shows "sched_inv c q (set_cr_active c i v s)"
proof -
  have R: "q_rep c (tcbs s) (ccbs s c) q" using assms(1) by (simp add: sched_inv_def)
  have "q_rep c (tcbs s) (ccbs (set_cr_active c i v s) c) q"
    by (rule q_rep_change [OF R]) (use q_repD [OF R] assms(2) in \<open>auto simp: same_attrs_def\<close>)
  then show ?thesis using assms(1) by (simp add: sched_inv_def)
qed

text \<open>
  The position vector after a round from \<open>i\<close>, and the queue it stops at: the positions of
  used-up queues return to 0 on the way.
\<close>

fun pos_round :: "nat \<Rightarrow> (nat \<Rightarrow> nat) \<Rightarrow> nat list \<Rightarrow> nat option \<times> (nat \<Rightarrow> nat)" where
  "pos_round i d [] = (None, d)"
| "pos_round i d (n # ns) =
    (if n = 0 then pos_round (Suc i) d ns
     else if d i < n then (Some i, d)
     else pos_round (Suc i) (d(i := 0)) ns)"

definition ready_sizes :: "queues \<Rightarrow> nat \<Rightarrow> nat list" where
  "ready_sizes q i = map (\<lambda>j. length (q_ready q j)) [i ..< 7]"

lemma ready_sizes_step: "i < 7 \<Longrightarrow> ready_sizes q i = length (q_ready q i) # ready_sizes q (Suc i)"
  by (simp add: ready_sizes_def upt_conv_Cons)

lemma pick_round_pos:
  assumes "sched_inv (this_cpu s) q s" and "no_alarm s" and "pos_ok (ccbs s (this_cpu s)) q d" and "i \<le> 7"
  shows "\<exists>s'. pick_round i b s = (case fst (pos_round i d (ready_sizes q i)) of
         Some j \<Rightarrow> Found j s' | None \<Rightarrow> Round (b \<or> (\<exists>n \<in> set (ready_sizes q i). n \<noteq> 0)) s') \<and>
       sched_inv (this_cpu s) q s' \<and> no_alarm s' \<and> this_cpu s' = this_cpu s \<and> runlevel s' = runlevel s \<and>
       idle_tcb s' = idle_tcb s \<and>
       pos_ok (ccbs s' (this_cpu s)) q (snd (pos_round i d (ready_sizes q i)))"
  using assms
proof (induction "7 - i" arbitrary: i b s d)
  case 0
  then show ?case by (simp add: pick_round_end ready_sizes_def)
next
  case (Suc n)
  then have i: "i < 7" by simp
  let ?c = "this_cpu s"
  have R: "q_rep ?c (tcbs s) (ccbs s ?c) q" using Suc.prems(1) by (simp add: sched_inv_def)
  have L: "dlist (tcbs s) (ccb_hd_active (ccbs s ?c) i) (q_ready q i)" using q_repD(1) [OF R] i by simp
  note step = ready_sizes_step [OF i]
  have cr: "d i \<le> length (q_ready q i)" "ccb_cr_active (ccbs s ?c) i = (if d i < length (q_ready q i) then q_ready q i ! d i else 0)"
    using Suc.prems(3) i by (auto simp: pos_ok_def)
  show ?case
  proof (cases "q_ready q i = []")
    case True
    then have h0: "ccb_hd_active (ccbs s ?c) i = 0" using dlist_empty_iff [OF L] by simp
    have "\<exists>s'. pick_round (Suc i) b s = (case fst (pos_round (Suc i) d (ready_sizes q (Suc i))) of
         Some j \<Rightarrow> Found j s' | None \<Rightarrow> Round (b \<or> (\<exists>n \<in> set (ready_sizes q (Suc i)). n \<noteq> 0)) s') \<and>
       sched_inv ?c q s' \<and> no_alarm s' \<and> this_cpu s' = ?c \<and> runlevel s' = runlevel s \<and> idle_tcb s' = idle_tcb s \<and>
       pos_ok (ccbs s' ?c) q (snd (pos_round (Suc i) d (ready_sizes q (Suc i))))"
      using Suc.prems Suc.hyps(2) i by (intro Suc.hyps(1)) auto
    with pick_round_skip [OF Suc.prems(2) i h0, of b] True show ?thesis
      by (simp add: step cong: option.case_cong)
  next
    case False
    then have h: "ccb_hd_active (ccbs s ?c) i \<noteq> 0" using dlist_empty_iff [OF L] by simp
    have hd0: "ccb_hd_active (ccbs s ?c) i = q_ready q i ! 0"
      using dlist_hd [OF L] False by (cases "q_ready q i") auto
    show ?thesis
    proof (cases "d i < length (q_ready q i)")
      case True
      then have "ccb_cr_active (ccbs s ?c) i \<noteq> 0" using cr dlist_nth(2) [OF L True] by simp
      from pick_round_hit [OF Suc.prems(2) i h this, of b] True Suc.prems show ?thesis by (simp add: step False cong: option.case_cong)
    next
      case full: False
      let ?s = "set_cr_active ?c i (ccb_hd_active (ccbs s ?c) i) s"
      have c0: "ccb_cr_active (ccbs s ?c) i = 0" using cr full by simp
      have I: "sched_inv ?c q ?s"
        using Suc.prems(1) dlist_hd_mem [OF L h] by (intro sched_inv_set_cr) simp_all
      have P: "pos_ok (ccbs ?s ?c) q (d(i := 0))"
        using Suc.prems(3) False hd0 by (auto simp: pos_ok_def)
      have "\<exists>s'. pick_round (Suc i) True ?s = (case fst (pos_round (Suc i) (d(i := 0)) (ready_sizes q (Suc i))) of
         Some j \<Rightarrow> Found j s' | None \<Rightarrow> Round (True \<or> (\<exists>n \<in> set (ready_sizes q (Suc i)). n \<noteq> 0)) s') \<and>
       sched_inv (this_cpu ?s) q s' \<and> no_alarm s' \<and> this_cpu s' = this_cpu ?s \<and> runlevel s' = runlevel ?s \<and>
       idle_tcb s' = idle_tcb ?s \<and>
       pos_ok (ccbs s' (this_cpu ?s)) q (snd (pos_round (Suc i) (d(i := 0)) (ready_sizes q (Suc i))))"
        using Suc.hyps(2) i I P Suc.prems(2) by (intro Suc.hyps(1)) auto
      then show ?thesis
        using pick_round_restart [OF Suc.prems(2) i h c0, of b] False full
        by (auto simp: step cong: option.case_cong)
    qed
  qed
qed

definition pos_pick :: "nat list \<Rightarrow> (nat \<Rightarrow> nat) \<Rightarrow> (nat \<times> (nat \<Rightarrow> nat)) option" where
  "pos_pick ns d = (case pos_round 0 d ns of
       (Some j, e) \<Rightarrow> Some (j, e(j := Suc (e j)))
     | (None, e) \<Rightarrow> (case pos_round 0 e ns of
           (Some j, f) \<Rightarrow> Some (j, f(j := Suc (f j))) | (None, f) \<Rightarrow> None))"

text \<open>Position vectors are mixed radix numbers: queue \<open>i\<close> with \<open>n\<close> tasks is a digit of base \<open>n + 1\<close>.\<close>

fun val :: "nat \<Rightarrow> (nat \<Rightarrow> nat) \<Rightarrow> nat list \<Rightarrow> nat" where
  "val i d [] = 0"
| "val i d (n # ns) = d i + Suc n * val (Suc i) d ns"

fun radix :: "nat list \<Rightarrow> nat" where
  "radix [] = 1"
| "radix (n # ns) = Suc n * radix ns"

definition digits_ok :: "nat \<Rightarrow> (nat \<Rightarrow> nat) \<Rightarrow> nat list \<Rightarrow> bool" where
  "digits_ok i d ns \<longleftrightarrow> (\<forall>k < length ns. d (i + k) \<le> ns ! k)"

lemma digits_ok_Cons [simp]: "digits_ok i d (n # ns) \<longleftrightarrow> d i \<le> n \<and> digits_ok (Suc i) d ns"
  by (auto simp: digits_ok_def less_Suc_eq_0_disj)

lemma digits_ok_Nil [simp]: "digits_ok i d []"
  by (simp add: digits_ok_def)

lemma val_upd_below [simp]: "j < i \<Longrightarrow> val i (d(j := x)) ns = val i d ns"
  by (induction ns arbitrary: i) simp_all

lemma digits_ok_upd_below [simp]: "j < i \<Longrightarrow> digits_ok i (d(j := x)) ns = digits_ok i d ns"
  by (simp add: digits_ok_def)

lemma radix_pos [simp]: "0 < radix ns"
  by (induction ns) simp_all

lemma val_bound: "digits_ok i d ns \<Longrightarrow> val i d ns < radix ns"
proof (induction ns arbitrary: i)
  case (Cons n ns)
  then have "val (Suc i) d ns + 1 \<le> radix ns" by (simp add: Suc_leI)
  then have "Suc n * (val (Suc i) d ns + 1) \<le> Suc n * radix ns" by (rule mult_le_mono2)
  with Cons.prems show ?case by simp
qed simp

text \<open>A round that finds a task adds one; a round that finds none starts from the largest value.\<close>

lemma pos_round_val:
  assumes "digits_ok i d ns"
  shows "case pos_round i d ns of
      (Some j, e) \<Rightarrow> val i (e(j := Suc (e j))) ns = Suc (val i d ns) \<and> digits_ok i (e(j := Suc (e j))) ns \<and>
         i \<le> j \<and> j < i + length ns \<and> e j < ns ! (j - i) \<and> (\<forall>k < i. e k = d k)
    | (None, e) \<Rightarrow> Suc (val i d ns) = radix ns \<and> val i e ns = 0 \<and> digits_ok i e ns \<and> (\<forall>k < i. e k = d k)"
  using assms
proof (induction ns arbitrary: i d)
  case (Cons n ns)
  consider "n = 0" | "n \<noteq> 0" "d i < n" | "n \<noteq> 0" "d i = n" using Cons.prems by fastforce
  then show ?case
  proof cases
    case 1
    then have ok: "digits_ok (Suc i) d ns" and d0: "d i = 0" using Cons.prems by simp_all
    obtain r e where pr: "pos_round (Suc i) d ns = (r, e)" by (cases "pos_round (Suc i) d ns")
    show ?thesis
    proof (cases r)
      case None
      with Cons.IH [OF ok] pr 1 d0 show ?thesis by simp
    next
      case (Some j)
      with Cons.IH [OF ok] pr 1 d0 show ?thesis
        by (simp add: nth_Cons')
    qed
  next
    case 2
    with Cons.prems show ?thesis by simp
  next
    case 3
    define d0 where "d0 = d(i := 0)"
    have d0: "digits_ok (Suc i) d0 ns" "val (Suc i) d0 ns = val (Suc i) d ns" "d0 i = 0"
      "k < i \<Longrightarrow> d0 k = d k" for k
      using Cons.prems by (simp_all add: d0_def)
    obtain r e where pr: "pos_round (Suc i) d0 ns = (r, e)" by (cases "pos_round (Suc i) d0 ns")
    have st: "pos_round i d (n # ns) = (r, e)" using 3 pr by (simp add: d0_def)
    note IH = Cons.IH [OF d0(1), unfolded pr d0(2)]
    show ?thesis
    proof (cases r)
      case None
      with IH have "radix ns = Suc (val (Suc i) d ns)" "val (Suc i) e ns = 0" "digits_ok (Suc i) e ns"
        "e i = 0" "\<forall>k < i. e k = d k" using d0 by simp_all
      then show ?thesis unfolding st using None 3 by simp
    next
      case (Some j)
      with IH have "val (Suc i) (e(j := Suc (e j))) ns = Suc (val (Suc i) d ns)"
        "digits_ok (Suc i) (e(j := Suc (e j))) ns" "Suc i \<le> j" "j < Suc i + length ns"
        "e j < ns ! (j - Suc i)" "e i = 0" "\<forall>k < i. e k = d k" using d0 by simp_all
      then show ?thesis unfolding st using Some 3 by (simp add: nth_Cons')
    qed
  qed
qed simp

lemma radix_one: "radix ns = 1 \<longleftrightarrow> (\<forall>n \<in> set ns. n = 0)"
  by (induction ns) (simp_all del: mult_Suc)

text \<open>One pick: count up, and from the largest value on to 1.\<close>

lemma pos_pick_val:
  assumes ok: "digits_ok 0 d ns" and ne: "\<exists>n \<in> set ns. n \<noteq> 0"
  shows "\<exists>j e. pos_pick ns d = Some (j, e) \<and> digits_ok 0 e ns \<and> j < length ns \<and> 0 < e j \<and>
    val 0 e ns = (if Suc (val 0 d ns) = radix ns then 1 else Suc (val 0 d ns))"
proof (cases "pos_round 0 d ns")
  case (Pair r e)
  note V = pos_round_val [OF ok]
  show ?thesis
  proof (cases r)
    case (Some j)
    have "Suc (val 0 d ns) < radix ns"
      using V Pair Some val_bound [of 0 "e(j := Suc (e j))" ns] by simp
    moreover have "pos_pick ns d = Some (j, e(j := Suc (e j)))" using Pair Some by (simp add: pos_pick_def)
    moreover have "val 0 (e(j := Suc (e j))) ns = Suc (val 0 d ns)" "digits_ok 0 (e(j := Suc (e j))) ns" "j < length ns"
      using V Pair Some by simp_all
    ultimately show ?thesis by (intro exI [of _ j] exI [of _ "e(j := Suc (e j))"]) simp
  next
    case None
    with V Pair have e: "Suc (val 0 d ns) = radix ns" "val 0 e ns = 0" "digits_ok 0 e ns" by simp_all
    have "radix ns \<noteq> 1"
    proof
      assume "radix ns = 1"
      then have "\<forall>n \<in> set ns. n = 0" by (rule iffD1 [OF radix_one])
      with ne show False by simp
    qed
    then have big: "Suc (val 0 e ns) \<noteq> radix ns" by (simp add: e(2))
    obtain r' f where f: "pos_round 0 e ns = (r', f)" by (cases "pos_round 0 e ns")
    note W = pos_round_val [OF e(3), unfolded f]
    have "r' \<noteq> None" using W big by (cases r') simp_all
    then obtain j where j: "r' = Some j" by blast
    have pk: "pos_pick ns d = Some (j, f(j := Suc (f j)))" using Pair None f j by (simp add: pos_pick_def)
    from W j e have "val 0 (f(j := Suc (f j))) ns = 1" "digits_ok 0 (f(j := Suc (f j))) ns" "j < length ns"
      by simp_all
    with e(1) show ?thesis by (intro exI [of _ j] exI [of _ "f(j := Suc (f j))"]) (simp add: pk)
  qed
qed

text \<open>Digits are determined by the value.\<close>

lemma val_inj:
  assumes "digits_ok i d ns" and "digits_ok i e ns" and "val i d ns = val i e ns" and "k < length ns"
  shows "d (i + k) = e (i + k)"
  using assms
proof (induction ns arbitrary: i k)
  case (Cons n ns)
  have "val i d (n # ns) mod Suc n = d i" "val i d (n # ns) div Suc n = val (Suc i) d ns"
    "val i e (n # ns) mod Suc n = e i" "val i e (n # ns) div Suc n = val (Suc i) e ns"
    using Cons.prems(1,2) by (simp_all del: mult_Suc add: less_Suc_eq_le)
  then have eq: "d i = e i" "val (Suc i) d ns = val (Suc i) e ns" using Cons.prems(3) by metis+
  show ?case
  proof (cases k)
    case 0
    with eq show ?thesis by simp
  next
    case (Suc l)
    with Cons.IH [of "Suc i" l] Cons.prems eq show ?thesis by simp
  qed
qed simp

lemma pos_ok_digits: "pos_ok cb q d \<Longrightarrow> digits_ok 0 d (ready_sizes q 0)"
  by (simp add: pos_ok_def digits_ok_def ready_sizes_def)

lemma ready_sizes_nth: "j < 7 \<Longrightarrow> ready_sizes q 0 ! j = length (q_ready q j)"
  "length (ready_sizes q 0) = 7"
  by (simp_all add: ready_sizes_def)

text \<open>The search loop as a whole, when some queue below the idle one has a task.\<close>

lemma pick_loop_pos:
  assumes I: "sched_inv (this_cpu s) q s" and A: "no_alarm s" and P: "pos_ok (ccbs s (this_cpu s)) q d"
    and ne: "\<exists>n \<in> set (ready_sizes q 0). n \<noteq> 0" and pk: "pos_pick (ready_sizes q 0) d = Some (j, e)"
  shows "\<exists>s' f. pick_loop s = Inl (j, s') \<and> e = f(j := Suc (f j)) \<and> sched_inv (this_cpu s) q s' \<and> no_alarm s' \<and>
      this_cpu s' = this_cpu s \<and> runlevel s' = runlevel s \<and> pos_ok (ccbs s' (this_cpu s)) q f \<and>
      f j < length (q_ready q j) \<and> j < 7"
proof -
  let ?ns = "ready_sizes q 0"
  obtain r f where r: "pos_round 0 d ?ns = (r, f)" by (cases "pos_round 0 d ?ns")
  note V = pos_round_val [OF pos_ok_digits [OF P], unfolded r]
  from pick_round_pos [OF I A P, of 0 False] r ne obtain s1 where s1:
    "pick_round 0 False s = (case r of Some j \<Rightarrow> Found j s1 | None \<Rightarrow> Round True s1)"
    "sched_inv (this_cpu s) q s1" "no_alarm s1" "this_cpu s1 = this_cpu s" "runlevel s1 = runlevel s"
    "pos_ok (ccbs s1 (this_cpu s)) q f" by (auto cong: option.case_cong)
  show ?thesis
  proof (cases r)
    case (Some k)
    then have "k = j" "e = f(j := Suc (f j))" using pk r by (auto simp: pos_pick_def)
    moreover have "f k < length (q_ready q k)" "k < 7" using V Some by (auto simp: ready_sizes_nth)
    ultimately show ?thesis using s1 Some by (subst pick_loop.simps) auto
  next
    case None
    obtain r' g where r': "pos_round 0 f ?ns = (r', g)" by (cases "pos_round 0 f ?ns")
    have k: "r' = Some j" "e = g(j := Suc (g j))"
      using pk r r' None by (auto simp: pos_pick_def split: option.splits)
    have I1: "sched_inv (this_cpu s1) q s1" and P1: "pos_ok (ccbs s1 (this_cpu s1)) q f" using s1 by simp_all
    note V' = pos_round_val [OF pos_ok_digits [OF P1], unfolded r']
    from pick_round_pos [OF I1 s1(3) P1, of 0 False] r' k obtain s2 where s2:
      "pick_round 0 False s1 = Found j s2" "sched_inv (this_cpu s1) q s2" "no_alarm s2"
      "this_cpu s2 = this_cpu s1" "runlevel s2 = runlevel s1" "pos_ok (ccbs s2 (this_cpu s1)) q g" by auto
    have "pick_loop s = Inl (j, s2)"
      using s1(1) None s2(1) by (simp add: pick_loop.simps [of s] pick_loop.simps [of s1])
    moreover have "g j < length (q_ready q j)" "j < 7" using V' k by (auto simp: ready_sizes_nth)
    ultimately show ?thesis using s1 s2 k by auto
  qed
qed

text \<open>Switching keeps the queues.\<close>

lemma sched_switch_keeps:
  defines "s' \<equiv> \<lambda>tcb s. sched_switch tcb s"
  shows "tcbs (s' tcb s) = tcbs s" "numcores (s' tcb s) = numcores s" "this_cpu (s' tcb s) = this_cpu s"
    "win_alarm (s' tcb s) = win_alarm s"
    "ccb_hd_active (ccbs (s' tcb s) c) = ccb_hd_active (ccbs s c)"
    "ccb_cr_active (ccbs (s' tcb s) c) = ccb_cr_active (ccbs s c)"
    "ccb_hd_blocked (ccbs (s' tcb s) c) = ccb_hd_blocked (ccbs s c)"
    "ccb_hd_timerq (ccbs (s' tcb s) c) = ccb_hd_timerq (ccbs s c)"
    "ccb_sched_ticks (ccbs (s' tcb s) c) = ccb_sched_ticks (ccbs s c)"
    "ccb_current (ccbs (s' tcb s) (this_cpu s)) = tcb_pid (get_tcb tcb s)"
  by (simp_all add: s'_def sched_switch_def sched_timer_def Let_def upd_ccb_def)

lemma pick_found_pos:
  assumes I: "sched_inv (this_cpu s) q s" and A: "no_alarm s" and P: "pos_ok (ccbs s (this_cpu s)) q f"
    and j: "j \<le> 7" "f j < length (q_ready q j)"
  shows "sched_inv (this_cpu s) q (pick_found j s)" and "no_alarm (pick_found j s)"
    and "this_cpu (pick_found j s) = this_cpu s"
    and "pos_ok (ccbs (pick_found j s) (this_cpu s)) q (f(j := Suc (f j)))"
    and "ccb_current (ccbs (pick_found j s) (this_cpu s)) = q_ready q j ! f j"
proof -
  let ?c = "this_cpu s"
  define t where "t = q_ready q j ! f j"
  have cr: "ccb_cr_active (ccbs s ?c) j = t" using P j by (simp add: pos_ok_def t_def)
  have R: "q_rep ?c (tcbs s) (ccbs s ?c) q" using I by (simp add: sched_inv_def)
  note N = dlist_nth [OF q_repD(1) [OF R j(1)] j(2), folded t_def]
  define s1 where "s1 = set_cr_active ?c j (tcb_next (tcbs s t)) s"
  have pf: "pick_found j s = sched_switch (TCB t) s1"
    by (simp add: pick_found_def cr Let_def s1_def get_tcb_def)
  have I1: "sched_inv ?c q s1" unfolding s1_def
  proof (rule sched_inv_set_cr [OF I])
    show "tcb_next (tcbs s t) \<in> insert 0 (set (q_ready q j))" unfolding N(1) by simp
  qed
  note K = sched_switch_keeps [of "TCB t" s1]
  have c1: "this_cpu s1 = ?c" by (simp add: s1_def)
  have "q_rep ?c (tcbs s1) (ccbs (sched_switch (TCB t) s1) ?c) q"
  proof (rule q_rep_ccb_cong)
    show "q_rep ?c (tcbs s1) (ccbs s1 ?c) q" using I1 by (simp add: sched_inv_def)
  qed (simp_all add: K)
  then show "sched_inv ?c q (pick_found j s)" unfolding pf using I1 K by (simp add: sched_inv_def)
  show "no_alarm (pick_found j s)" unfolding pf using A K c1 by (simp add: no_alarm_def s1_def)
  show "this_cpu (pick_found j s) = ?c" unfolding pf using K c1 by simp
  show "pos_ok (ccbs (pick_found j s) ?c) q (f(j := Suc (f j)))"
    unfolding pf pos_ok_def K(6) using P j N(1) by (auto simp: s1_def pos_ok_def)
  show "ccb_current (ccbs (pick_found j s) ?c) = q_ready q j ! f j"
    unfolding pf using K(10) N(3) c1 by (simp add: s1_def get_tcb_def t_def [symmetric])
qed

lemma sched_pick_pos:
  assumes I: "sched_inv (this_cpu s) q s" and A: "no_alarm s" and P: "pos_ok (ccbs s (this_cpu s)) q d"
    and ne: "\<exists>n \<in> set (ready_sizes q 0). n \<noteq> 0"
  shows "\<exists>j e. pos_pick (ready_sizes q 0) d = Some (j, e) \<and> j < 7 \<and> 0 < e j \<and> e j \<le> length (q_ready q j) \<and>
     sched_inv (this_cpu s) q (sched_pick dr s) \<and> no_alarm (sched_pick dr s) \<and>
     this_cpu (sched_pick dr s) = this_cpu s \<and>
     pos_ok (ccbs (sched_pick dr s) (this_cpu s)) q e \<and>
     ccb_current (ccbs (sched_pick dr s) (this_cpu s)) = q_ready q j ! (e j - 1)"
proof -
  from pos_pick_val [OF pos_ok_digits [OF P] ne] obtain j e where
    pk: "pos_pick (ready_sizes q 0) d = Some (j, e)" by blast
  from pick_loop_pos [OF I A P ne pk] obtain s' f where L: "pick_loop s = Inl (j, s')" "e = f(j := Suc (f j))"
    "sched_inv (this_cpu s) q s'" "no_alarm s'" "this_cpu s' = this_cpu s" "pos_ok (ccbs s' (this_cpu s)) q f"
    "f j < length (q_ready q j)" "j < 7" by blast
  have sp: "sched_pick dr s = pick_found j s'" using L(1) by (simp add: sched_pick_def)
  have I': "sched_inv (this_cpu s') q s'" and P': "pos_ok (ccbs s' (this_cpu s')) q f" using L by simp_all
  from pick_found_pos [OF I' L(4) P', of j] L show ?thesis
    by (intro exI [of _ j] exI [of _ e]) (simp add: pk sp)
qed

text \<open>A position vector always exists.\<close>

lemma pos_exists:
  assumes "sched_inv c q s"
  shows "\<exists>d. pos_ok (ccbs s c) q d"
proof -
  have R: "q_rep c (tcbs s) (ccbs s c) q" using assms by (simp add: sched_inv_def)
  have "\<exists>k. k \<le> length (q_ready q i) \<and>
      ccb_cr_active (ccbs s c) i = (if k < length (q_ready q i) then q_ready q i ! k else 0)" if i: "i \<le> 7" for i
  proof (cases "ccb_cr_active (ccbs s c) i = 0")
    case True
    then show ?thesis by (intro exI [of _ "length (q_ready q i)"]) simp
  next
    case False
    then obtain k where "k < length (q_ready q i)" "q_ready q i ! k = ccb_cr_active (ccbs s c) i"
      using q_repD(3) [OF R i] by (auto simp: in_set_conv_nth)
    then show ?thesis by (intro exI [of _ k]) simp
  qed
  then show ?thesis unfolding pos_ok_def by metis
qed

section \<open>No ready task starves\<close>

definition next_val :: "nat \<Rightarrow> nat \<Rightarrow> nat" where
  "next_val N v = (if Suc v = N then 1 else Suc v)"

lemma next_val_add: "v + k < N \<Longrightarrow> (next_val N ^^ k) v = v + k"
  by (induction k) (simp_all add: next_val_def)

lemma next_val_reaches:
  assumes "v < N" and "0 < w" and "w < N"
  shows "\<exists>m. 0 < m \<and> m < N \<and> (next_val N ^^ m) v = w"
proof (cases "v < w")
  case True
  with assms next_val_add [of v "w - v" N] show ?thesis by (intro exI [of _ "w - v"]) simp
next
  case False
  have "(next_val N ^^ Suc (N - 1 - v)) v = 1"
    using assms next_val_add [of v "N - 1 - v" N] by (simp add: next_val_def)
  moreover have "(next_val N ^^ (w - 1)) 1 = w" using assms next_val_add [of 1 "w - 1" N] by simp
  ultimately have "(next_val N ^^ ((w - 1) + Suc (N - 1 - v))) v = w" by (simp only: funpow_add o_apply)
  moreover have "0 < (w - 1) + Suc (N - 1 - v)" "(w - 1) + Suc (N - 1 - v) < N"
    using False assms by simp_all
  ultimately show ?thesis by blast
qed

lemma val_pos: "k < length ns \<Longrightarrow> 0 < d (i + k) \<Longrightarrow> 0 < val i d ns"
proof (induction ns arbitrary: i k)
  case (Cons n ns)
  show ?case
  proof (cases k)
    case 0
    with Cons.prems show ?thesis by simp
  next
    case (Suc l)
    with Cons.IH [of l "Suc i"] Cons.prems show ?thesis by simp
  qed
qed simp

lemma sched_pick_iter:
  fixes dr :: "kstate \<Rightarrow> kstate" and s :: kstate
  assumes I: "sched_inv (this_cpu s) q s" and A: "no_alarm s" and P: "pos_ok (ccbs s (this_cpu s)) q d"
    and ne: "\<exists>n \<in> set (ready_sizes q 0). n \<noteq> 0"
  defines "run \<equiv> \<lambda>m. (sched_pick dr ^^ m) s"
  shows "\<exists>e. sched_inv (this_cpu s) q (run m) \<and> no_alarm (run m) \<and> this_cpu (run m) = this_cpu s \<and>
     pos_ok (ccbs (run m) (this_cpu s)) q e \<and>
     val 0 e (ready_sizes q 0) = (next_val (radix (ready_sizes q 0)) ^^ m) (val 0 d (ready_sizes q 0)) \<and>
     (0 < m \<longrightarrow> (\<exists>j < 7. 0 < e j \<and> ccb_current (ccbs (run m) (this_cpu s)) = q_ready q j ! (e j - 1)))"
proof (induction m)
  case 0
  then show ?case using I A P by (intro exI [of _ d]) (simp add: run_def)
next
  case (Suc m)
  then obtain e where e: "sched_inv (this_cpu s) q (run m)" "no_alarm (run m)" "this_cpu (run m) = this_cpu s"
    "pos_ok (ccbs (run m) (this_cpu s)) q e"
    "val 0 e (ready_sizes q 0) = (next_val (radix (ready_sizes q 0)) ^^ m) (val 0 d (ready_sizes q 0))" by blast
  have r: "run (Suc m) = sched_pick dr (run m)" by (simp add: run_def)
  have I': "sched_inv (this_cpu (run m)) q (run m)" and P': "pos_ok (ccbs (run m) (this_cpu (run m))) q e"
    using e by simp_all
  from sched_pick_pos [OF I' e(2) P' ne, of dr] obtain j f where f:
    "pos_pick (ready_sizes q 0) e = Some (j, f)" "j < 7" "0 < f j"
    "sched_inv (this_cpu s) q (run (Suc m))" "no_alarm (run (Suc m))" "this_cpu (run (Suc m)) = this_cpu s"
    "pos_ok (ccbs (run (Suc m)) (this_cpu s)) q f"
    "ccb_current (ccbs (run (Suc m)) (this_cpu s)) = q_ready q j ! (f j - 1)"
    unfolding r e(3) by blast
  from pos_pick_val [OF pos_ok_digits [OF e(4)] ne] f(1)
  have "val 0 f (ready_sizes q 0) = next_val (radix (ready_sizes q 0)) (val 0 e (ready_sizes q 0))"
    by (auto simp: next_val_def)
  with e(5) f show ?case by (intro exI [of _ f]) auto
qed

lemma every_task_runs:
  assumes I: "sched_inv (this_cpu s) q s" and A: "no_alarm s" and i: "i < 7" and t: "t \<in> set (q_ready q i)"
  shows "\<exists>m. 0 < m \<and> m < radix (ready_sizes q 0) \<and>
     ccb_current (ccbs ((sched_pick dr ^^ m) s) (this_cpu s)) = t"
proof -
  let ?ns = "ready_sizes q 0"
  from pos_exists [OF I] obtain d where P: "pos_ok (ccbs s (this_cpu s)) q d" by blast
  from t obtain k where k: "k < length (q_ready q i)" "q_ready q i ! k = t" by (auto simp: in_set_conv_nth)
  have ne: "\<exists>n \<in> set ?ns. n \<noteq> 0"
    using k i by (intro bexI [of _ "length (q_ready q i)"]) (auto simp: ready_sizes_def)
  define z where "z = (\<lambda>j. if j = i then Suc k else 0 :: nat)"
  have zok: "digits_ok 0 z ?ns" using k i by (simp add: z_def digits_ok_def ready_sizes_def)
  have "0 < val 0 z ?ns" using i by (intro val_pos [of i]) (simp_all add: ready_sizes_nth z_def)
  then obtain m where m: "0 < m" "m < radix ?ns" "(next_val (radix ?ns) ^^ m) (val 0 d ?ns) = val 0 z ?ns"
    using next_val_reaches val_bound [OF pos_ok_digits [OF P]] val_bound [OF zok] by blast
  from sched_pick_iter [OF I A P ne, of m dr] m obtain e j where e:
    "pos_ok (ccbs ((sched_pick dr ^^ m) s) (this_cpu s)) q e" "val 0 e ?ns = val 0 z ?ns" "j < 7" "0 < e j"
    "ccb_current (ccbs ((sched_pick dr ^^ m) s) (this_cpu s)) = q_ready q j ! (e j - 1)" by auto
  have "e j = z j"
    using val_inj [OF pos_ok_digits [OF e(1)] zok e(2), of j] e(3) by (simp add: ready_sizes_nth)
  then have "j = i" "e j = Suc k" using e(4) by (auto simp: z_def split: if_splits)
  with e(5) k m show ?thesis by auto
qed

section \<open>Properties\<close>

text \<open>
  Adding a task that is in no queue puts it in front of the ready queue of its priority;
  all queues of the CPU stay well formed. A task that fails the parameter check is refused
  with EINVAL and nothing else changes.
\<close>

lemma sched_add_correct:
  assumes "sched_inv c q s" and "t \<notin> q_tasks q" and "t \<noteq> 0" and "task_ok c (tcbs s t)" and "tcb_pid (tcbs s t) = t"
  shows "sched_inv c (q_add (unat (tcb_priority (tcbs s t))) t q) (sched_add (TCB t) s) \<and>
     (\<forall>p. \<not> sched_param_ok p s \<longrightarrow> sched_add p s = seterr EINVAL s)"
  using sched_add_inv [OF assms] by (simp add: sched_add_def)

text \<open>A CPU with two ready tasks, a blocked one and a task still outside.\<close>

definition sched_task :: "u64 \<Rightarrow> u64 \<Rightarrow> u64 \<Rightarrow> u8 \<Rightarrow> u8 \<Rightarrow> tcb_t" where
  "sched_task pid prv nxt pri st = zero_tcb\<lparr>tcb_magic := OSZ_TCB_MAGICH, tcb_priority := pri, tcb_state := st,
     tcb_pid := pid, tcb_prev := prv, tcb_next := nxt\<rparr>"

definition sched_example :: kstate where
  "sched_example = zero_kstate\<lparr>numcores := 1,
     tcbs := (\<lambda>_. zero_tcb)(10 := sched_task 10 0 11 5 TCB_STATE_RUNNING, 11 := sched_task 11 10 0 5 TCB_STATE_RUNNING,
       12 := sched_task 12 0 0 3 TCB_STATE_BLOCKED, 13 := sched_task 13 0 0 5 TCB_STATE_BLOCKED),
     ccbs := (\<lambda>_. zero_ccb\<lparr>ccb_hd_active := (\<lambda>_. 0)(5 := 10), ccb_cr_active := (\<lambda>_. 0)(5 := 11), ccb_hd_blocked := 12\<rparr>)\<rparr>"

definition sched_example_queues :: queues where
  "sched_example_queues = \<lparr>q_ready = (\<lambda>_. [])(5 := [10, 11]), q_blocked = [12], q_sleep = []\<rparr>"

lemma sched_example_tasks: "q_tasks sched_example_queues = {10, 11, 12}"
  by (auto simp: q_tasks_def sched_example_queues_def split: if_splits)

lemma sched_example_inv: "sched_inv 0 sched_example_queues sched_example"
proof -
  have t: "tcbs sched_example 10 = sched_task 10 0 11 5 TCB_STATE_RUNNING"
    "tcbs sched_example 11 = sched_task 11 10 0 5 TCB_STATE_RUNNING"
    "tcbs sched_example 12 = sched_task 12 0 0 3 TCB_STATE_BLOCKED"
    by (simp_all add: sched_example_def)
  have c: "ccb_hd_active (ccbs sched_example 0) = (\<lambda>_. 0)(5 := 10)" "ccb_cr_active (ccbs sched_example 0) = (\<lambda>_. 0)(5 := 11)"
    "ccb_hd_blocked (ccbs sched_example 0) = 12" "ccb_hd_timerq (ccbs sched_example 0) = 0"
    by (simp_all add: sched_example_def zero_ccb_def)
  have "q_disjoint sched_example_queues" by (auto simp: q_disjoint_def sched_example_queues_def)
  moreover have "q_rep 0 (tcbs sched_example) (ccbs sched_example 0) sched_example_queues"
    by (rule q_repI) (auto simp: sched_example_tasks [unfolded sched_example_queues_def] sched_example_queues_def c t dlist_def sched_task_def
        task_ok_def PRI_IDLE_def tcb_state_defs word_le_nat_alt zero_tcb_def split: if_splits)
  moreover have "0 < numcores sched_example" by (simp add: sched_example_def)
  ultimately show ?thesis by (simp add: sched_inv_def)
qed

lemma sched_add_correct_witness:
  "sched_inv 0 (q_add 5 13 sched_example_queues) (sched_add (TCB 13) sched_example)"
  using sched_add_correct [OF sched_example_inv, of 13]
  by (simp add: sched_example_tasks) (simp add: sched_example_def sched_task_def task_ok_def PRI_IDLE_def
      zero_tcb_def word_le_nat_alt)

text \<open>
  C8. Blocking a ready task takes it out of its ready queue, wherever it is there, and puts it
  in front of the blocked queue; waking it again makes it the first and the next task of its
  priority, running, with the blocked time accounted. All queues stay well formed throughout.
\<close>

theorem sched_block_awake_correct:
  assumes "sched_inv c q s"
  shows "(\<forall>i. t \<in> set (q_ready q i) \<longrightarrow> sched_inv c (q_block t (q_del t q)) (sched_block (TCB t) s)) \<and>
    (t \<in> set (q_blocked q) \<longrightarrow>
       sched_inv c (q_add (unat (tcb_priority (tcbs s t))) t (q_del t q)) (sched_awake (TCB t) s) \<and>
       ccb_cr_active (ccbs (sched_awake (TCB t) s) c) (unat (tcb_priority (tcbs s t))) = t \<and>
       tcb_state (tcbs (sched_awake (TCB t) s) t) = TCB_STATE_RUNNING \<and>
       tcb_blkcnt (tcbs (sched_awake (TCB t) s) t) =
         tcb_blkcnt (tcbs s t) + (clock_ticks s - tcb_blktime (tcbs s t)))"
  using sched_block_inv [OF assms] sched_awake_blocked [OF assms] by blast

theorem sched_block_awake_correct_witness:
  "sched_inv 0 (q_block 11 (q_del 11 sched_example_queues)) (sched_block (TCB 11) sched_example) \<and>
   sched_inv 0 (q_add 3 12 (q_del 12 sched_example_queues)) (sched_awake (TCB 12) sched_example)"
proof -
  have "11 \<in> set (q_ready sched_example_queues 5)" "12 \<in> set (q_blocked sched_example_queues)"
    "unat (tcb_priority (tcbs sched_example 12)) = 3"
    by (simp_all add: sched_example_queues_def sched_example_def sched_task_def zero_tcb_def)
  then show ?thesis
    using sched_block_awake_correct [OF sched_example_inv, of 11] sched_block_awake_correct [OF sched_example_inv, of 12]
    by metis
qed

text \<open>
  C6. The scheduler refines the abstract one: with no alarm due and some task ready below the
  idle priority, \<open>sched_pick\<close> runs the task that the position vectors prescribe (the first
  queue with tasks left in this turn, used-up queues before it restarted), and leaves the
  queues as they were.
\<close>

theorem sched_pick_refines:
  assumes "sched_inv (this_cpu s) q s" and "no_alarm s" and "pos_ok (ccbs s (this_cpu s)) q d"
    and "\<exists>n \<in> set (ready_sizes q 0). n \<noteq> 0"
  shows "\<exists>j e. pos_pick (ready_sizes q 0) d = Some (j, e) \<and>
     sched_inv (this_cpu s) q (sched_pick dr s) \<and> pos_ok (ccbs (sched_pick dr s) (this_cpu s)) q e \<and>
     ccb_current (ccbs (sched_pick dr s) (this_cpu s)) = q_ready q j ! (e j - 1)"
  using sched_pick_pos [OF assms, of dr] by blast

theorem sched_pick_refines_witness:
  "\<exists>j e. pos_pick (ready_sizes sched_example_queues 0) (\<lambda>i. if i = 5 then 1 else 0) = Some (j, e) \<and>
     ccb_current (ccbs (sched_pick id sched_example) 0) = q_ready sched_example_queues j ! (e j - 1)"
proof -
  have c: "this_cpu sched_example = 0" "ccb_hd_timerq (ccbs sched_example 0) = 0"
    "ccb_cr_active (ccbs sched_example 0) = (\<lambda>_. 0)(5 := 11)"
    by (simp_all add: sched_example_def zero_kstate_def zero_ccb_def)
  have "sched_inv (this_cpu sched_example) sched_example_queues sched_example" using sched_example_inv c by simp
  moreover have "no_alarm sched_example" by (simp add: no_alarm_def c)
  moreover have "pos_ok (ccbs sched_example (this_cpu sched_example)) sched_example_queues (\<lambda>i. if i = 5 then 1 else 0)"
    by (simp add: pos_ok_def c sched_example_queues_def)
  moreover have "\<exists>n \<in> set (ready_sizes sched_example_queues 0). n \<noteq> 0"
    by (rule bexI [of _ 2]) (auto simp: ready_sizes_def sched_example_queues_def image_iff intro: bexI [of _ 5])
  ultimately show ?thesis using sched_pick_refines [of sched_example sched_example_queues _ id] c by metis
qed

text \<open>
  C7. No starvation: while no alarm becomes due and the queues do not change, every ready task
  below the idle priority gets the CPU within a number of picks that depends only on the queue
  lengths, namely less than the product of (length + 1) over the seven queues.
\<close>

theorem sched_no_starvation:
  assumes "sched_inv (this_cpu s) q s" and "no_alarm s" and "i < 7" and "t \<in> set (q_ready q i)"
  shows "\<exists>m. 0 < m \<and> m < radix (ready_sizes q 0) \<and>
     ccb_current (ccbs ((sched_pick dr ^^ m) s) (this_cpu s)) = t"
  by (rule every_task_runs [OF assms])

theorem sched_no_starvation_witness:
  "\<exists>m. 0 < m \<and> m < radix (ready_sizes sched_example_queues 0) \<and>
     ccb_current (ccbs ((sched_pick id ^^ m) sched_example) 0) = 10"
proof -
  have c: "this_cpu sched_example = 0" "ccb_hd_timerq (ccbs sched_example 0) = 0"
    by (simp_all add: sched_example_def zero_kstate_def zero_ccb_def)
  have "sched_inv (this_cpu sched_example) sched_example_queues sched_example" using sched_example_inv c by simp
  moreover have "no_alarm sched_example" by (simp add: no_alarm_def c)
  ultimately show ?thesis
    using sched_no_starvation [of sched_example sched_example_queues 5 10 id] c
    by (simp add: sched_example_queues_def)
qed

text \<open>
  C9. A delay always returns, moves the ready task into the sleep queue and keeps that queue
  ordered by wake-up time, the new task behind all that wake no later.
\<close>

theorem sched_delay_correct:
  assumes "sched_inv c q s" and "t \<in> set (q_ready q i)"
    and "sorted_wrt (\<lambda>x y. tcb_alarmusec (tcbs s x) \<le> tcb_alarmusec (tcbs s y)) (q_sleep q)"
  shows "\<exists>s' xs. sched_delay (TCB t) usec s = Some s' \<and> sched_inv c ((q_del t q)\<lparr>q_sleep := xs\<rparr>) s' \<and>
     set xs = insert t (set (q_sleep q)) \<and>
     sorted_wrt (\<lambda>x y. tcb_alarmusec (tcbs s' x) \<le> tcb_alarmusec (tcbs s' y)) xs \<and>
     tcb_alarmusec (tcbs s' t) = (if q_sleep q = [] then 0 else ccb_sched_ticks (ccbs s c)) + usec"
proof -
  define a where "a = (if q_sleep q = [] then 0 else ccb_sched_ticks (ccbs s c)) + usec"
  define ys zs where "ys = wake_before (tcbs s) a (q_sleep q)" and "zs = wake_after (tcbs s) a (q_sleep q)"
  have yz: "q_sleep q = ys @ zs" by (simp add: ys_def zs_def wake_before_def wake_after_def)
  from sched_delay_inv [OF assms(1,2), of usec] obtain s' where s': "sched_delay (TCB t) usec s = Some s'"
    "sched_inv c (q_sleep_in t ys zs (q_del t q)) s'" "tcb_alarmusec (tcbs s' t) = a"
    "\<forall>x. x \<noteq> t \<longrightarrow> tcb_alarmusec (tcbs s' x) = tcb_alarmusec (tcbs s x)"
    unfolding a_def [symmetric] ys_def zs_def by blast
  have tn: "t \<notin> set ys" "t \<notin> set zs"
    using assms(1,2) q_disjointD(3) [of q t i] yz by (auto simp: sched_inv_def)
  have al: "x \<in> set ys \<union> set zs \<Longrightarrow> tcb_alarmusec (tcbs s' x) = tcb_alarmusec (tcbs s x)" for x
    using s'(4) tn by (metis Un_iff)
  have srt: "sorted_wrt (\<lambda>x y. tcb_alarmusec (tcbs s' x) \<le> tcb_alarmusec (tcbs s' y)) (ys @ zs)"
    by (rule sorted_wrt_mono_rel [OF _ assms(3) [unfolded yz]]) (simp add: al)
  have lo: "tcb_alarmusec (tcbs s' y) \<le> a" if "y \<in> set ys" for y
    using that al [of y] by (auto simp: ys_def wake_before_def dest: set_takeWhileD)
  have hi: "a \<le> tcb_alarmusec (tcbs s' z)" if "z \<in> set zs" for z
  proof (cases zs)
    case (Cons w ws)
    have "\<not> tcb_alarmusec (tcbs s w) \<le> a"
      using Cons hd_dropWhile [of "\<lambda>x. tcb_alarmusec (tcbs s x) \<le> a" "q_sleep q"] by (auto simp: zs_def wake_after_def)
    then have "a \<le> tcb_alarmusec (tcbs s' w)" using al [of w] Cons by simp
    moreover have "tcb_alarmusec (tcbs s' w) \<le> tcb_alarmusec (tcbs s' z)"
      using srt that Cons by (auto simp: sorted_wrt_append)
    ultimately show ?thesis by (rule order_trans)
  qed (use that in simp)
  have "sorted_wrt (\<lambda>x y. tcb_alarmusec (tcbs s' x) \<le> tcb_alarmusec (tcbs s' y)) (ys @ t # zs)"
    using srt lo hi s'(3) by (auto simp: sorted_wrt_append)
  with s' yz show ?thesis
    by (intro exI [of _ s'] exI [of _ "ys @ t # zs"]) (auto simp: q_sleep_in_def a_def)
qed

theorem sched_delay_correct_witness:
  "\<exists>s'. sched_delay (TCB 10) 500 sched_example = Some s' \<and> tcb_alarmusec (tcbs s' 10) = 500"
proof -
  have "10 \<in> set (q_ready sched_example_queues 5)" by (simp add: sched_example_queues_def)
  from sched_delay_correct [OF sched_example_inv this, of 500] show ?thesis
    by (auto simp: sched_example_queues_def)
qed

text \<open>
  Three sleepers, the first of them due.
\<close>

definition alarm_example :: kstate where
  "alarm_example = zero_kstate\<lparr>numcores := 1, runlevel := RUNLVL_NORM, win_alarm := 20,
     tcbs := (\<lambda>_. zero_tcb)(
       20 := (sched_task 20 0 21 5 TCB_STATE_BLOCKED)\<lparr>tcb_alarmusec := 100\<rparr>,
       21 := (sched_task 21 0 22 5 TCB_STATE_BLOCKED)\<lparr>tcb_alarmusec := 900\<rparr>,
       22 := (sched_task 22 0 0 5 TCB_STATE_BLOCKED)\<lparr>tcb_alarmusec := 950\<rparr>),
     ccbs := (\<lambda>_. zero_ccb\<lparr>ccb_hd_timerq := 20, ccb_sched_ticks := 100\<rparr>)\<rparr>"

lemma alarm_example_fields:
  "tcbs alarm_example 20 = (sched_task 20 0 21 5 TCB_STATE_BLOCKED)\<lparr>tcb_alarmusec := 100\<rparr>"
  "tcbs alarm_example 21 = (sched_task 21 0 22 5 TCB_STATE_BLOCKED)\<lparr>tcb_alarmusec := 900\<rparr>"
  "tcbs alarm_example 22 = (sched_task 22 0 0 5 TCB_STATE_BLOCKED)\<lparr>tcb_alarmusec := 950\<rparr>"
  "ccbs alarm_example c = zero_ccb\<lparr>ccb_hd_timerq := 20, ccb_sched_ticks := 100\<rparr>"
  "numcores alarm_example = 1" "win_alarm alarm_example = 20" "this_cpu alarm_example = 0"
  "clock_ticks alarm_example = 0" "runlevel alarm_example = RUNLVL_NORM" "quantum alarm_example = 0"
  by (simp_all add: alarm_example_def zero_kstate_def)

lemmas alarm_example_simps = alarm_example_fields sched_task_def zero_tcb_def zero_ccb_def
  get_tcb_def upd_tcb_def upd_ccb_def set_hd_active_def set_cr_active_def set_hd_blocked_def set_hd_timerq_def
  tcb_state_defs sched_param_ok_def PRI_IDLE_def word_le_nat_alt word_less_nat_alt

lemma alarm_example_due: "sched_awake TCBAlarm alarm_example = awake_next 0 TCBAlarm
   (awake_cpu 0 (sched_add TCBAlarm (sched_unlink TCBAlarm
      (awake_timer 0 TCBAlarm (drop_blocked 0 TCBAlarm (awake_account TCBAlarm alarm_example))))))"
  by (simp add: sched_awake_def alarm_example_simps)

definition alarm_advanced :: kstate where
  "alarm_advanced = awake_timer 0 TCBAlarm (drop_blocked 0 TCBAlarm (awake_account TCBAlarm alarm_example))"

lemma alarm_advanced_fields:
  "tcbs alarm_advanced = (tcbs alarm_example)(20 := (sched_task 20 0 21 5 TCB_STATE_BLOCKED)\<lparr>tcb_alarmusec := 0\<rparr>)"
  "win_alarm alarm_advanced = 21" "this_cpu alarm_advanced = 0" "numcores alarm_advanced = 1"
  "ccbs alarm_advanced 0 = zero_ccb\<lparr>ccb_hd_timerq := 21, ccb_sched_ticks := 100\<rparr>"
  "runlevel alarm_advanced = RUNLVL_NORM"
  by (simp_all add: alarm_advanced_def awake_timer_def drop_blocked_def awake_account_def timerq_advance_def
      alarm_example_simps)

definition alarm_added :: kstate where
  "alarm_added = sched_add TCBAlarm (sched_unlink TCBAlarm alarm_advanced)"

lemma alarm_added_fields:
  "tcbs alarm_added 20 = (sched_task 20 0 21 5 TCB_STATE_BLOCKED)\<lparr>tcb_alarmusec := 0\<rparr>"
  "tcbs alarm_added 21 = (sched_task 21 0 0 5 TCB_STATE_RUNNING)\<lparr>tcb_alarmusec := 900\<rparr>"
  "win_alarm alarm_added = 21" "this_cpu alarm_added = 0"
  "ccb_hd_timerq (ccbs alarm_added 0) = 21"
  by (simp_all add: alarm_added_def sched_add_def sched_unlink_def alarm_example_simps alarm_advanced_fields)
text \<open>
  When two tasks sleep and the first one is due, \<open>sched_pick\<close> wakes it through the alarm
  window, which is moved to the second task halfway: it is the second one that becomes ready
  (while it also stays at the head of the sleep queue), and the due one is left blocked and in
  no queue.
\<close>

lemma sched_pick_loses_alarm:
  "pick_round 5 False alarm_example = Found 5 (sched_awake TCBAlarm alarm_example) \<and>
   tcb_state (tcbs (sched_awake TCBAlarm alarm_example) 20) = TCB_STATE_BLOCKED \<and>
   ccb_cr_active (ccbs (sched_awake TCBAlarm alarm_example) 0) 5 = 21 \<and>
   ccb_hd_timerq (ccbs (sched_awake TCBAlarm alarm_example) 0) = 21 \<and>
   tcb_next (tcbs (sched_awake TCBAlarm alarm_example) 21) = 0"
proof -
  have "pick_round 5 False alarm_example = Found 5 (sched_awake TCBAlarm alarm_example)"
    by (simp add: pick_round.simps alarm_example_simps)
  then show ?thesis
    by (simp add: alarm_example_due alarm_advanced_def [symmetric] alarm_added_def [symmetric]
        awake_next_def awake_cpu_def alarm_added_fields alarm_example_simps)
qed

text \<open>
  The sleep queue has no back links, so waking a sleeper from its middle leaves its
  predecessor pointing at it: the tasks behind it can no longer be reached.
\<close>

lemma sched_awake_sleeper_breaks_queue:
  "tcb_next (tcbs alarm_example 21) = 22 \<and>
   tcb_next (tcbs (sched_awake (TCB 21) alarm_example) 20) = 21 \<and>
   tcb_next (tcbs (sched_awake (TCB 21) alarm_example) 21) = 0"
  by (simp add: sched_awake_def awake_next_def awake_cpu_def sched_add_def sched_unlink_def awake_timer_def drop_blocked_def awake_account_def timerq_advance_def
      alarm_example_simps)
end
