(* ===== verification/Cmem.thy ===== *)
theory Cmem
  imports Osz_Types
begin

text \<open>
  Byte addressed memory as the C routines of the library see it: a function from 64 bit
  addresses to bytes, with the reading and writing of runs of bytes and the notion of a zero
  terminated string. A null pointer is the address 0.
\<close>

type_synonym mem = "u64 \<Rightarrow> u8"

definition bytes_at :: "mem \<Rightarrow> u64 \<Rightarrow> nat \<Rightarrow> u8 list" where
  "bytes_at m a n = map (\<lambda>i. m (a + of_nat i)) [0..<n]"

definition put_bytes :: "u64 \<Rightarrow> u8 list \<Rightarrow> mem \<Rightarrow> mem" where
  "put_bytes a xs m = (\<lambda>x. if unat (x - a) < length xs then xs ! unat (x - a) else m x)"

text \<open>Two runs of bytes that share no address.\<close>

definition disjoint_runs :: "u64 \<Rightarrow> nat \<Rightarrow> u64 \<Rightarrow> nat \<Rightarrow> bool" where
  "disjoint_runs a n b k \<longleftrightarrow> n \<le> unat (b - a) \<and> k \<le> unat (a - b)"

text \<open>The bytes of a string literal.\<close>

definition chars :: "string \<Rightarrow> u8 list" where
  "chars s = map of_char s"

section \<open>Reading and writing\<close>

lemma length_bytes_at [simp]: "length (bytes_at m a n) = n"
  by (simp add: bytes_at_def)

lemma nth_bytes_at [simp]: "i < n \<Longrightarrow> bytes_at m a n ! i = m (a + of_nat i)"
  by (simp add: bytes_at_def)

lemma bytes_at_0 [simp]: "bytes_at m a 0 = []"
  by (simp add: bytes_at_def)

lemma bytes_at_Suc: "bytes_at m a (Suc n) = m a # bytes_at m (a + 1) n"
proof (rule nth_equalityI)
  fix i assume "i < length (bytes_at m a (Suc n))"
  then show "bytes_at m a (Suc n) ! i = (m a # bytes_at m (a + 1) n) ! i"
    by (cases i) (simp_all add: algebra_simps)
qed simp

lemma bytes_at_add: "bytes_at m a (n + k) = bytes_at m a n @ bytes_at m (a + of_nat n) k"
  by (rule nth_equalityI) (auto simp: nth_append algebra_simps of_nat_diff)

lemma bytes_at_eq_iff: "bytes_at m a n = bytes_at m' b n \<longleftrightarrow> (\<forall>i < n. m (a + of_nat i) = m' (b + of_nat i))"
  by (auto simp: list_eq_iff_nth_eq)

lemma put_bytes_Nil [simp]: "put_bytes a [] m = m"
  by (simp add: put_bytes_def)

lemma u64_size: "(2::nat) ^ 64 = 18446744073709551616" by simp

lemma unat_of_nat_u64: "i < 2 ^ 64 \<Longrightarrow> unat (of_nat i :: u64) = i"
  by (simp add: unat_of_nat take_bit_nat_eq_self)

lemma unat_diff_add:
  fixes x a :: u64
  assumes "k \<le> unat (x - a)"
  shows "unat (x - (a + of_nat k)) = unat (x - a) - k"
proof -
  have k: "k < 2 ^ 64" using assms unat_u64_less [of "x - a"] by simp
  have "unat ((x - a) - of_nat k) = unat (x - a) - k"
    using assms unat_of_nat_u64 [OF k] by (metis unat_sub_le)
  then show ?thesis by (simp only: diff_diff_eq)
qed

lemma unat_diff_add_less:
  fixes x a :: u64
  assumes "unat (x - a) < k" and "k < 2 ^ 64"
  shows "unat (x - (a + of_nat k)) = 2 ^ 64 + unat (x - a) - k"
proof -
  have "unat ((x - a) - of_nat k) = 2 ^ 64 + unat (x - a) - k"
    using assms unat_of_nat_u64 [OF assms(2)]
    by (subst unat_sub_if_size) (simp add: word_size)
  then show ?thesis by (simp only: diff_diff_eq)
qed

lemma unat_diff_sym:
  fixes a b :: u64
  assumes "a \<noteq> b"
  shows "unat (a - b) + unat (b - a) = 2 ^ 64"
  using assms unat_u64_less [of a] unat_u64_less [of b]
  by (auto simp: unat_sub_if_size word_size word_eq_iff_unat)

lemma put_bytes_append:
  assumes "length xs + length ys \<le> 2 ^ 64"
  shows "put_bytes (a + of_nat (length xs)) ys (put_bytes a xs m) = put_bytes a (xs @ ys) m"
proof (cases "ys = []")
  case False
  then have lx: "length xs < 2 ^ 64" using assms by (cases ys) auto
  show ?thesis
  proof
    fix x
    show "put_bytes (a + of_nat (length xs)) ys (put_bytes a xs m) x = put_bytes a (xs @ ys) m x"
    proof (cases "unat (x - a) < length xs")
      case True
      have "\<not> unat (x - (a + of_nat (length xs))) < length ys"
        using unat_diff_add_less [OF True lx] assms True by simp
      with True show ?thesis by (simp add: put_bytes_def nth_append)
    next
      case False
      then show ?thesis using unat_diff_add [of "length xs" x a]
        by (auto simp: put_bytes_def nth_append)
    qed
  qed
qed simp

lemma put_bytes_outside: "\<not> unat (x - a) < length xs \<Longrightarrow> put_bytes a xs m x = m x"
  by (simp add: put_bytes_def)

lemma put_bytes_inside:
  "i < length xs \<Longrightarrow> length xs \<le> 2 ^ 64 \<Longrightarrow> put_bytes a xs m (a + of_nat i) = xs ! i"
  by (simp add: put_bytes_def unat_of_nat_u64)

lemma bytes_at_put_same: "length xs \<le> 2 ^ 64 \<Longrightarrow> bytes_at (put_bytes a xs m) a (length xs) = xs"
  by (rule nth_equalityI) (simp_all add: put_bytes_inside)

lemma disjoint_runs_nth:
  assumes "disjoint_runs a n b k" and "i < n" and "j < k"
  shows "a + of_nat i \<noteq> b + of_nat j"
proof
  assume eq: "a + of_nat i = b + of_nat j"
  have d: "n \<le> unat (b - a)" "k \<le> unat (a - b)" using assms(1) by (auto simp: disjoint_runs_def)
  have lt: "i < 2 ^ 64" "j < 2 ^ 64"
    using d assms(2,3) unat_u64_less [of "b - a"] unat_u64_less [of "a - b"] by simp_all
  show False
  proof (cases "j \<le> i")
    case True
    then have "b - a = of_nat (i - j)" using eq by (simp add: of_nat_diff algebra_simps)
    moreover have "unat (of_nat (i - j) :: u64) = i - j" using lt by (intro unat_of_nat_u64) auto
    ultimately show False using d assms by simp
  next
    case False
    then have "a - b = of_nat (j - i)" using eq by (simp add: of_nat_diff algebra_simps)
    moreover have "unat (of_nat (j - i) :: u64) = j - i" using lt by (intro unat_of_nat_u64) auto
    ultimately show False using d assms by simp
  qed
qed

lemma bytes_at_put_disjoint:
  assumes "disjoint_runs a (length xs) b k"
  shows "bytes_at (put_bytes a xs m) b k = bytes_at m b k"
proof -
  have "put_bytes a xs m (b + of_nat j) = m (b + of_nat j)" if "j < k" for j
  proof (rule put_bytes_outside, rule notI)
    assume "unat (b + of_nat j - a) < length xs"
    moreover have "a + of_nat (unat (b + of_nat j - a)) = b + of_nat j" by simp
    ultimately show False using disjoint_runs_nth [OF assms _ that] by metis
  qed
  then show ?thesis by (simp add: bytes_at_eq_iff)
qed

lemma put_bytes_Cons:
  assumes "Suc (length xs) \<le> 2 ^ 64"
  shows "put_bytes (a + 1) xs (m(a := x)) = put_bytes a (x # xs) m"
proof -
  have "m(a := x) = put_bytes a [x] m"
    by (rule ext) (simp add: put_bytes_def unat_eq_zero)
  then show ?thesis using put_bytes_append [of "[x]" xs a m] assms by simp
qed

lemma disjoint_runs_Suc:
  "disjoint_runs a (Suc n) b (Suc k) \<Longrightarrow> disjoint_runs (a + 1) n (b + 1) k"
  by (simp add: disjoint_runs_def)

lemma disjoint_runs_shift:
  assumes "disjoint_runs a (d + n) b (d + n)"
  shows "disjoint_runs (a + of_nat d) n (b + of_nat d) n"
  using assms by (simp add: disjoint_runs_def)

lemma disjoint_runs_mono: "disjoint_runs a n b k \<Longrightarrow> i \<le> n \<Longrightarrow> j \<le> k \<Longrightarrow> disjoint_runs a i b j"
  by (simp add: disjoint_runs_def)

lemma disjoint_runs_shift1:
  assumes "disjoint_runs a n b (d + k)" and "0 < k"
  shows "disjoint_runs a n (b + of_nat d) k"
proof -
  have d: "n \<le> unat (b - a)" "d + k \<le> unat (a - b)" using assms(1) by (auto simp: disjoint_runs_def)
  have a: "unat (a - (b + of_nat d)) = unat (a - b) - d" using d by (intro unat_diff_add) simp
  have "a \<noteq> b" "a \<noteq> b + of_nat d" using a d assms(2) by auto
  then have "unat (a - b) + unat (b - a) = 2 ^ 64"
    "unat (a - (b + of_nat d)) + unat (b + of_nat d - a) = 2 ^ 64"
    by (simp_all only: unat_diff_sym not_False_eq_True)
  then have "n \<le> unat (b + of_nat d - a)" using a d by simp
  with a d show ?thesis by (simp add: disjoint_runs_def)
qed

section \<open>Zero terminated strings\<close>

text \<open>\<open>cstr m a xs\<close>: at \<open>a\<close> is the string with the bytes \<open>xs\<close>.\<close>

definition cstr :: "mem \<Rightarrow> u64 \<Rightarrow> u8 list \<Rightarrow> bool" where
  "cstr m a xs \<longleftrightarrow> bytes_at m a (Suc (length xs)) = xs @ [0] \<and> 0 \<notin> set xs \<and>
     unat a + length xs < 2 ^ 64"

lemma cstr_Nil [simp]: "cstr m a [] \<longleftrightarrow> m a = 0"
  using unat_u64_less [of a] by (simp add: cstr_def bytes_at_Suc)

lemma cstr_Cons [simp]: "cstr m a (x # xs) \<longleftrightarrow> m a = x \<and> x \<noteq> 0 \<and> a + 1 \<noteq> 0 \<and> cstr m (a + 1) xs"
proof -
  have a: "unat (a + 1) = (if a + 1 = 0 then 0 else unat a + 1)"
    by (metis unat_0 unatSuc add.commute Suc_eq_plus1)
  have z: "a + 1 = 0 \<Longrightarrow> unat a = 2 ^ 64 - 1"
  proof -
    assume "a + 1 = 0"
    then have "a = - 1" by (simp add: eq_neg_iff_add_eq_0)
    then show ?thesis by (simp add: unsigned_minus_1_eq_mask mask_eq_exp_minus_1)
  qed
  show ?thesis
    by (cases "a + 1 = 0") (auto simp: cstr_def bytes_at_Suc [of m a] a dest: z)
qed

lemma cstr_nth: "cstr m a xs \<Longrightarrow> i < length xs \<Longrightarrow> m (a + of_nat i) = xs ! i"
  unfolding cstr_def by (metis length_append_singleton less_SucI nth_append nth_bytes_at)

lemma cstr_end: "cstr m a xs \<Longrightarrow> m (a + of_nat (length xs)) = 0"
  unfolding cstr_def by (metis lessI nth_append_length nth_bytes_at)

lemma cstr_bytes: "cstr m a xs \<Longrightarrow> bytes_at m a (length xs) = xs"
  by (rule nth_equalityI) (simp_all add: cstr_nth)

lemma cstr_unique: "cstr m a xs \<Longrightarrow> cstr m a ys \<Longrightarrow> xs = ys"
proof (induction xs arbitrary: a ys)
  case Nil
  then show ?case by (cases ys) auto
next
  case (Cons x xs)
  then show ?case by (cases ys) auto
qed

end
