(* ===== verification/Core_Libc.thy ===== *)
theory Core_Libc
  imports Cmem "HOL-Library.List_Lexorder"
begin

text \<open>
  The memory and string routines of the core, \<^verbatim>\<open>src/core/libc.c\<close>, on byte addressed memory, and
  its minimal \<^verbatim>\<open>sprintf\<close>. The user space library repeats the string routines word for word
  (\<^verbatim>\<open>src/libc/string.c\<close>), and its theory builds on these. A loop that counts a length down is a
  recursion on that length; a loop that runs to a terminator is a partial function, None when
  no terminator is ever met. Plain \<^verbatim>\<open>char\<close> is signed, as on x86_64.
\<close>

section \<open>Memory\<close>

fun copy_words :: "u64 \<Rightarrow> u64 \<Rightarrow> nat \<Rightarrow> mem \<Rightarrow> u64 \<times> u64 \<times> nat \<times> mem" where
  "copy_words a b n m = (if 8 < n then copy_words (a + 8) (b + 8) (n - 8) (put_bytes a (bytes_at m b 8) m)
     else (a, b, n, m))"

declare copy_words.simps [simp del]

primrec copy_bytes :: "nat \<Rightarrow> u64 \<Rightarrow> u64 \<Rightarrow> mem \<Rightarrow> u64 \<times> mem" where
  "copy_bytes 0 a b m = (a, m)"
| "copy_bytes (Suc n) a b m = copy_bytes n (a + 1) (b + 1) (m(a := m b))"

definition memcpy :: "u64 \<Rightarrow> u64 \<Rightarrow> u64 \<Rightarrow> mem \<Rightarrow> u64 \<times> mem" where
  "memcpy dst src n m = (
     if src \<noteq> 0 \<and> dst \<noteq> 0 \<and> n > 0 \<and> src \<noteq> dst then
       (if src AND 7 = 0 \<and> dst AND 7 = 0 \<and> n > 8
        then (case copy_words dst src (unat n) m of (a, b, k, m') \<Rightarrow> copy_bytes k a b m')
        else copy_bytes (unat n) dst src m)
     else (dst, m))"

text \<open>The eight copies of a byte that \<^verbatim>\<open>memset\<close> stores at once, and the bytes of a stored word.\<close>

definition rep64 :: "u8 \<Rightarrow> u64" where
  "rep64 b = (let w = ucast b :: u64 in
     push_bit 56 w OR push_bit 48 w OR push_bit 40 w OR push_bit 32 w OR
     push_bit 24 w OR push_bit 16 w OR push_bit 8 w OR w)"

definition le64 :: "u64 \<Rightarrow> u8 list" where
  "le64 w = map (\<lambda>i. ucast (drop_bit (8 * i) w)) [0..<8]"

fun fill_words :: "u64 \<Rightarrow> u64 \<Rightarrow> nat \<Rightarrow> mem \<Rightarrow> u64 \<times> nat \<times> mem" where
  "fill_words a e n m = (if 8 < n then fill_words (a + 8) e (n - 8) (put_bytes a (le64 e) m)
     else (a, n, m))"

declare fill_words.simps [simp del]

primrec fill_bytes :: "nat \<Rightarrow> u64 \<Rightarrow> u8 \<Rightarrow> mem \<Rightarrow> u64 \<times> mem" where
  "fill_bytes 0 a c m = (a, m)"
| "fill_bytes (Suc n) a c m = fill_bytes n (a + 1) c (m(a := c))"

definition memset :: "u64 \<Rightarrow> u8 \<Rightarrow> u64 \<Rightarrow> mem \<Rightarrow> u64 \<times> mem" where
  "memset dst c n m = (
     if dst \<noteq> 0 \<and> n > 0 then
       (if dst AND 7 = 0 \<and> n > 8
        then (case fill_words dst (rep64 c) (unat n) m of (a, k, m') \<Rightarrow> fill_bytes k a c m')
        else fill_bytes (unat n) dst c m)
     else (dst, m))"

primrec cmp_bytes :: "nat \<Rightarrow> u64 \<Rightarrow> u64 \<Rightarrow> mem \<Rightarrow> int" where
  "cmp_bytes 0 a b m = 0"
| "cmp_bytes (Suc n) a b m = (if m a \<noteq> m b then uint (m a) - uint (m b) else cmp_bytes n (a + 1) (b + 1) m)"

definition memcmp :: "u64 \<Rightarrow> u64 \<Rightarrow> u64 \<Rightarrow> mem \<Rightarrow> int" where
  "memcmp s1 s2 n m = (if s1 \<noteq> 0 \<and> s2 \<noteq> 0 \<and> n > 0 \<and> s1 \<noteq> s2 then cmp_bytes (unat n) s1 s2 m else 0)"

section \<open>Strings\<close>

text \<open>The bytes a character takes behind its first one.\<close>

definition utf8_skip :: "u8 \<Rightarrow> u64" where
  "utf8_skip c = (if c AND 128 \<noteq> 0 then
       (if c AND 32 = 0 then 1 else if c AND 16 = 0 then 2 else if c AND 8 = 0 then 3 else 0)
     else 0)"

partial_function (option) mbstrlen_loop :: "mem \<Rightarrow> u64 \<Rightarrow> u64 \<Rightarrow> u64 option" where
  "mbstrlen_loop m s c = (if m s = 0 then Some c else mbstrlen_loop m (s + utf8_skip (m s) + 1) (c + 1))"

definition mbstrlen :: "u64 \<Rightarrow> mem \<Rightarrow> u64 option" where
  "mbstrlen s m = (if s \<noteq> 0 then mbstrlen_loop m s 0 else Some 0)"

partial_function (option) strlen_loop :: "mem \<Rightarrow> u64 \<Rightarrow> u64 \<Rightarrow> u64 option" where
  "strlen_loop m s c = (if m s = 0 then Some c else strlen_loop m (s + 1) (c + 1))"

definition strlen :: "u64 \<Rightarrow> mem \<Rightarrow> u64 option" where
  "strlen s m = (if s \<noteq> 0 then strlen_loop m s 0 else Some 0)"

partial_function (option) strcmp_loop :: "mem \<Rightarrow> u64 \<Rightarrow> u64 \<Rightarrow> int option" where
  "strcmp_loop m s1 s2 = (
     if m s1 \<noteq> m s2 then Some (sint (m s1) - sint (m s2))
     else if m (s1 + 1) \<noteq> 0 then strcmp_loop m (s1 + 1) (s2 + 1)
     else Some (sint (m (s1 + 1)) - sint (m (s2 + 1))))"

definition strcmp :: "u64 \<Rightarrow> u64 \<Rightarrow> mem \<Rightarrow> int option" where
  "strcmp s1 s2 m = (if s1 \<noteq> 0 \<and> s2 \<noteq> 0 \<and> s1 \<noteq> s2 then strcmp_loop m s1 s2 else Some 0)"

partial_function (option) strncpy_loop :: "u64 \<Rightarrow> u64 \<Rightarrow> u64 \<Rightarrow> mem \<Rightarrow> (u64 \<times> mem) option" where
  "strncpy_loop e dst src m = (
     if m src \<noteq> 0 \<and> src < e then strncpy_loop e (dst + 1) (src + 1) (m(dst := m src))
     else Some (dst, m(dst := 0)))"

definition strncpy :: "u64 \<Rightarrow> u64 \<Rightarrow> u64 \<Rightarrow> mem \<Rightarrow> (u64 \<times> mem) option" where
  "strncpy dst src n m = (if src \<noteq> 0 \<and> dst \<noteq> 0 \<and> n > 0 then strncpy_loop (src + n) dst src m else Some (dst, m))"

section \<open>memcpy, memset, memcmp\<close>

lemma copy_bytes_eq:
  assumes "disjoint_runs a n b n" and "n \<le> 2 ^ 64"
  shows "copy_bytes n a b m = (a + of_nat n, put_bytes a (bytes_at m b n) m)"
  using assms
proof (induction n arbitrary: a b m)
  case 0
  then show ?case by simp
next
  case (Suc n)
  have d: "disjoint_runs a (Suc n) b (Suc n)" by fact
  have "bytes_at (m(a := m b)) (b + 1) n = bytes_at m (b + 1) n"
  proof -
    have "b + of_nat (Suc i) \<noteq> a" if "i < n" for i
      using disjoint_runs_nth [OF d, of 0 "Suc i"] that by auto
    then show ?thesis by (auto simp: bytes_at_eq_iff algebra_simps)
  qed
  then show ?case
    using Suc.IH [OF disjoint_runs_Suc [OF d], of "m(a := m b)"] Suc.prems(2)
    by (simp add: put_bytes_Cons bytes_at_Suc add.assoc del: fun_upd_apply)
qed

lemma copy_words_eq:
  assumes "disjoint_runs a n b n" and "n \<le> 2 ^ 64"
  shows "\<exists>k j. copy_words a b n m = (a + of_nat k, b + of_nat k, j, put_bytes a (bytes_at m b k) m) \<and>
    k + j = n"
  using assms
proof (induction a b n m rule: copy_words.induct)
  case (1 a b n m)
  show ?case
  proof (cases "8 < n")
    case True
    let ?m = "put_bytes a (bytes_at m b 8) m"
    have n: "8 + (n - 8) = n" using True by simp
    have d: "disjoint_runs (a + 8) (n - 8) (b + 8) (n - 8)"
      using disjoint_runs_shift [of a 8 "n - 8" b] "1.prems"(1) n by simp
    have le: "n - 8 \<le> 2 ^ 64" using "1.prems"(2) by simp
    from "1.IH" [OF True d le] obtain k j where
      kj: "copy_words (a + 8) (b + 8) (n - 8) ?m =
        (a + 8 + of_nat k, b + 8 + of_nat k, j, put_bytes (a + 8) (bytes_at ?m (b + 8) k) ?m)" "k + j = n - 8"
      by blast
    have "bytes_at ?m (b + 8) k = bytes_at m (b + 8) k"
    proof (cases "k = 0")
      case False
      have "disjoint_runs a 8 b (8 + k)"
        using disjoint_runs_mono [OF "1.prems"(1)] kj(2) True by simp
      then have "disjoint_runs a 8 (b + of_nat 8) k" by (rule disjoint_runs_shift1) (use False in simp)
      then show ?thesis by (intro bytes_at_put_disjoint) simp
    qed simp
    moreover have "put_bytes (a + 8) (bytes_at m (b + 8) k) ?m = put_bytes a (bytes_at m b (8 + k)) m"
      using put_bytes_append [of "bytes_at m b 8" "bytes_at m (b + 8) k" a m] kj(2) "1.prems"(2) True
      by (simp add: bytes_at_add)
    ultimately show ?thesis
      using kj True
      by (intro exI [of _ "8 + k"] exI [of _ j]) (simp add: copy_words.simps [of a] algebra_simps)
  next
    case False
    then show ?thesis by (intro exI [of _ 0] exI [of _ n]) (simp add: copy_words.simps [of a])
  qed
qed

lemma memcpy_eq:
  assumes "src \<noteq> 0" and "dst \<noteq> 0" and "disjoint_runs dst (unat n) src (unat n)"
  shows "memcpy dst src n m = (dst + n, put_bytes dst (bytes_at m src (unat n)) m)"
proof (cases "n = 0")
  case True
  then show ?thesis by (simp add: memcpy_def)
next
  case False
  then have n: "0 < n" "unat n \<le> 2 ^ 64" using unat_u64_less [of n] by (simp_all add: word_neq_0_conv)
  have ne: "src \<noteq> dst" using assms(3) n(1) by (auto simp: disjoint_runs_def word_less_nat_alt)
  from copy_words_eq [OF assms(3) n(2), of m] obtain k j where
    kj: "copy_words dst src (unat n) m = (dst + of_nat k, src + of_nat k, j, put_bytes dst (bytes_at m src k) m)"
      "k + j = unat n" by blast
  let ?m = "put_bytes dst (bytes_at m src k) m"
  have d: "disjoint_runs (dst + of_nat k) j (src + of_nat k) j"
    using disjoint_runs_shift [of dst k j src] assms(3) kj(2) by simp
  have same: "bytes_at ?m (src + of_nat k) j = bytes_at m (src + of_nat k) j"
  proof (cases "j = 0")
    case False
    have "disjoint_runs dst k src (k + j)" using disjoint_runs_mono [OF assms(3)] kj(2) by simp
    then have "disjoint_runs dst k (src + of_nat k) j" by (rule disjoint_runs_shift1) (use False in simp)
    then show ?thesis by (intro bytes_at_put_disjoint) simp
  qed simp
  have j: "j \<le> 2 ^ 64" using kj(2) n(2) by simp
  have app: "put_bytes (dst + of_nat k) (bytes_at m (src + of_nat k) j) ?m = put_bytes dst (bytes_at m src (unat n)) m"
    using put_bytes_append [of "bytes_at m src k" "bytes_at m (src + of_nat k) j" dst m] kj(2) n(2)
    by (simp add: bytes_at_add [symmetric])
  have "dst + of_nat k + of_nat j = dst + (of_nat (k + j) :: u64)" by simp
  then have "dst + of_nat k + of_nat j = dst + n" using kj(2) by simp
  then have "copy_bytes j (dst + of_nat k) (src + of_nat k) ?m = (dst + n, put_bytes dst (bytes_at m src (unat n)) m)"
    using copy_bytes_eq [OF d j, of ?m] same app by simp
  then show ?thesis
    using assms ne n kj(1) copy_bytes_eq [OF assms(3) n(2), of m] by (simp add: memcpy_def)
qed

lemma le64_rep64: "le64 (rep64 c) = replicate 8 c"
proof -
  have c: "\<not> bit c k" if "8 \<le> k" for k using that bit_imp_le_length [of c k] by auto
  have b: "bit (rep64 c) (8 * i + j) = bit c j" if "i < 8" "j < 8" for i j
  proof -
    from that(1) consider "i = 0" | "i = 1" | "i = 2" | "i = 3" | "i = 4" | "i = 5" | "i = 6" | "i = 7"
      by linarith
    then show ?thesis
      by cases (use that(2) c in \<open>simp_all add: rep64_def Let_def bit_simps\<close>)
  qed
  have "ucast (drop_bit (8 * i) (rep64 c)) = c" if "i < 8" for i
  proof (rule bit_word_eqI)
    fix j assume "j < LENGTH(8)"
    then show "bit (ucast (drop_bit (8 * i) (rep64 c)) :: u8) j = bit c j"
      using b [OF that, of j] that by (simp add: bit_simps)
  qed
  then show ?thesis by (simp add: le64_def list_eq_iff_nth_eq)
qed

lemma fill_bytes_eq:
  "n \<le> 2 ^ 64 \<Longrightarrow> fill_bytes n a c m = (a + of_nat n, put_bytes a (replicate n c) m)"
  by (induction n arbitrary: a m) (simp_all add: put_bytes_Cons algebra_simps)

lemma fill_words_eq:
  assumes "n \<le> 2 ^ 64"
  shows "\<exists>k j. fill_words a (rep64 c) n m = (a + of_nat k, j, put_bytes a (replicate k c) m) \<and> k + j = n"
  using assms
proof (induction n arbitrary: a m rule: less_induct)
  case (less n)
  show ?case
  proof (cases "8 < n")
    case True
    let ?m = "put_bytes a (replicate 8 c) m"
    have "n - 8 < n" "n - 8 \<le> 2 ^ 64" using True less.prems by simp_all
    from less.IH [OF this, of "a + 8" ?m] obtain k j where
      kj: "fill_words (a + 8) (rep64 c) (n - 8) ?m = (a + 8 + of_nat k, j, put_bytes (a + 8) (replicate k c) ?m)" "k + j = n - 8"
      by blast
    have "put_bytes (a + 8) (replicate k c) ?m = put_bytes a (replicate (8 + k) c) m"
      using put_bytes_append [of "replicate 8 c" "replicate k c" a m] kj(2) less.prems True
      by (simp add: replicate_add [symmetric])
    then show ?thesis
      using kj True
      by (intro exI [of _ "8 + k"] exI [of _ j]) (simp add: fill_words.simps [of a] le64_rep64 algebra_simps)
  next
    case False
    then show ?thesis by (intro exI [of _ 0] exI [of _ n]) (simp add: fill_words.simps [of a])
  qed
qed

lemma memset_eq:
  assumes "dst \<noteq> 0"
  shows "memset dst c n m = (dst + n, put_bytes dst (replicate (unat n) c) m)"
proof (cases "n = 0")
  case True
  then show ?thesis by (simp add: memset_def)
next
  case False
  then have n: "0 < n" "unat n \<le> 2 ^ 64" using unat_u64_less [of n] by (simp_all add: word_neq_0_conv)
  from fill_words_eq [OF n(2), of dst c m] obtain k j where
    kj: "fill_words dst (rep64 c) (unat n) m = (dst + of_nat k, j, put_bytes dst (replicate k c) m)" "k + j = unat n"
    by blast
  have j: "j \<le> 2 ^ 64" using kj(2) n(2) by simp
  have app: "put_bytes (dst + of_nat k) (replicate j c) (put_bytes dst (replicate k c) m) = put_bytes dst (replicate (unat n) c) m"
    using put_bytes_append [of "replicate k c" "replicate j c" dst m] kj(2) n(2)
    by (simp add: replicate_add [symmetric])
  have "dst + of_nat k + of_nat j = dst + (of_nat (k + j) :: u64)" by simp
  then have "dst + of_nat k + of_nat j = dst + n" using kj(2) by simp
  then show ?thesis
    using assms n kj(1) app fill_bytes_eq [OF j, of "dst + of_nat k" c] fill_bytes_eq [OF n(2), of dst c m]
    by (simp add: memset_def)
qed

lemma cmp_bytes_zero_iff: "cmp_bytes n a b m = 0 \<longleftrightarrow> bytes_at m a n = bytes_at m b n"
  by (induction n arbitrary: a b) (auto simp: bytes_at_Suc word_uint_eq_iff)

lemma cmp_bytes_less_iff: "cmp_bytes n a b m < 0 \<longleftrightarrow> bytes_at m a n < bytes_at m b n"
  by (induction n arbitrary: a b) (auto simp: bytes_at_Suc word_less_def)

text \<open>
  C25. The routines that work on words agree with the plain meaning on bytes, for every alignment and length:
  copying between blocks that do not overlap and filling a block change exactly its bytes and answer its end, and
  comparing tells the lexicographic order of two blocks.
\<close>

theorem mem_reference:
  assumes "src \<noteq> 0" and "dst \<noteq> 0" and "disjoint_runs dst (unat n) src (unat n)"
  shows "memcpy dst src n m = (dst + n, put_bytes dst (bytes_at m src (unat n)) m) \<and>
    memset dst c n m = (dst + n, put_bytes dst (replicate (unat n) c) m) \<and>
    (memcmp dst src n m = 0 \<longleftrightarrow> bytes_at m dst (unat n) = bytes_at m src (unat n)) \<and>
    (memcmp dst src n m < 0 \<longleftrightarrow> bytes_at m dst (unat n) < bytes_at m src (unat n))"
proof -
  have "n = 0 \<or> 0 < n \<and> dst \<noteq> src"
    using assms(3) by (auto simp: disjoint_runs_def word_less_nat_alt word_neq_0_conv)
  then show ?thesis
    using assms memcpy_eq [OF assms] memset_eq [OF assms(2), of c n m]
    by (auto simp: memcmp_def cmp_bytes_zero_iff cmp_bytes_less_iff)
qed

theorem mem_reference_witness:
  "memcpy 64 128 20 (\<lambda>a. ucast a) = (84, put_bytes 64 (bytes_at (\<lambda>a. ucast a) 128 20) (\<lambda>a. ucast a)) \<and>
   memcmp 64 128 20 (\<lambda>a. ucast a) < 0"
proof -
  have d: "disjoint_runs 64 (unat (20::u64)) 128 (unat (20::u64))"
    by (simp add: disjoint_runs_def)
  have u: "unat (20::u64) = Suc 19" by simp
  have "bytes_at (\<lambda>a. ucast a) 64 (unat (20::u64)) < bytes_at (\<lambda>a. ucast a) 128 (unat (20::u64))"
    unfolding u bytes_at_Suc by simp
  with mem_reference [OF _ _ d, where m = "\<lambda>a. ucast a" and c = 0] show ?thesis by simp
qed

end
