(* ===== verification/Core_Sprintf.thy ===== *)
theory Core_Sprintf
  imports Cmem "HOL-Library.Signed_Division"
begin

text \<open>
  The minimal \<^verbatim>\<open>sprintf\<close> of the core, \<^verbatim>\<open>src/core/libc.c\<close>. A format and the text it produces are
  byte lists without the terminator. The helper that formats a number works in the 33 byte
  array \<^verbatim>\<open>tmpstr\<close> from the end; here the digits are collected in front of a list, and the index
  counts down as in the code. \<^verbatim>\<open>cnt\<close>, the count given between the percent sign and the
  conversion, is an 8 bit counter. None stands for an access outside the format, the argument
  list or \<^verbatim>\<open>tmpstr\<close>. The recursion guard \<^verbatim>\<open>reent\<close> makes the inner calls copy their text, so a
  formatted number or string is appended as it is.
\<close>

datatype fmt_arg = AInt u64 | AStr "u8 list option"

definition nullstr :: "u8 list" where "nullstr = chars ''(null)''"

definition sprintf_putascii :: "u8 \<Rightarrow> u64 \<Rightarrow> u8 list" where
  "sprintf_putascii cnt c = takeWhile (\<lambda>b. b \<noteq> 0)
     (take (if 0 < cnt \<and> cnt \<le> 8 then unat cnt else 8) (map (\<lambda>i. ucast (drop_bit (8 * i) c)) [0..<8]))"

text \<open>The decimal digit loop from index \<open>i\<close>: the index it stops at and the digits.\<close>

fun dec_loop :: "nat \<Rightarrow> int \<Rightarrow> u8 list \<Rightarrow> nat \<times> u8 list" where
  "dec_loop 0 c ds = (0, ds)"
| "dec_loop (Suc i) c ds = (
     let ds' = word_of_int (48 + c smod 10) # ds; c' = c sdiv 10
     in if c' \<noteq> 0 \<and> i > 0 then dec_loop i c' ds' else (i, ds'))"

definition dec_start :: "u64 \<Rightarrow> int" where
  "dec_start c = min (sint (if sint c < 0 then - c else c)) 99999999999999999"

text \<open>The padding and cutting to the width \<open>w\<close>.\<close>

definition fit_width :: "nat \<Rightarrow> u8 \<Rightarrow> u8 list \<Rightarrow> u8 list" where
  "fit_width w pad ds = (let ds' = replicate (w - length ds) pad @ ds in drop (length ds' - w) ds')"

definition sprintf_putdec :: "u8 \<Rightarrow> u64 \<Rightarrow> u8 list option" where
  "sprintf_putdec cnt c = (
     case dec_loop 18 (dec_start c) [] of (i, ds) \<Rightarrow>
       if sint c < 0 \<and> i = 0 then None
       else let ds' = (if sint c < 0 then 45 # ds else ds)
            in Some (if 0 < cnt \<and> cnt < 18 then fit_width (unat cnt) 32 ds' else ds'))"

definition hex_digit :: "u64 \<Rightarrow> u8" where
  "hex_digit c = (let n = c AND 15 in if n < 10 then 48 + ucast n else 65 + ucast n - 10)"

fun hex_loop :: "nat \<Rightarrow> u64 \<Rightarrow> u8 list \<Rightarrow> u8 list" where
  "hex_loop 0 c ds = ds"
| "hex_loop (Suc i) c ds = (
     let ds' = hex_digit c # ds; c' = signed_drop_bit 4 c
     in if c' \<noteq> 0 \<and> i > 0 then hex_loop i c' ds' else ds')"

definition sprintf_puthex :: "u8 \<Rightarrow> u64 \<Rightarrow> u8 list" where
  "sprintf_puthex cnt c = (let ds = hex_loop 16 c []
     in if 0 < cnt \<and> cnt \<le> 8 then fit_width (2 * unat cnt) 48 ds else ds)"

definition sprintf_putstr :: "u8 \<Rightarrow> u8 list option \<Rightarrow> u8 list" where
  "sprintf_putstr cnt p = (let t = (case p of None \<Rightarrow> nullstr | Some t \<Rightarrow> t)
     in t @ replicate (unat cnt - length t) 32)"

fun fmt_count :: "u8 \<Rightarrow> u8 list \<Rightarrow> u8 \<times> u8 list" where
  "fmt_count cnt [] = (cnt, [])"
| "fmt_count cnt (c # f) = (if 48 \<le> c \<and> c \<le> 57 then fmt_count (cnt * 10 + (c - 48)) f else (cnt, c # f))"

lemma fmt_count_length: "length (snd (fmt_count cnt f)) \<le> length f"
  by (induction cnt f rule: fmt_count.induct) auto

text \<open>
  One conversion letter: the text it gives and the remaining arguments. The integer argument
  was fetched before, for every letter but a plain \<^verbatim>\<open>s\<close>.
\<close>

definition fmt_conv :: "u8 \<Rightarrow> u8 \<Rightarrow> u64 \<Rightarrow> fmt_arg list \<Rightarrow> (u8 list \<times> fmt_arg list) option" where
  "fmt_conv y cnt arg args = (
     if y = 97 then Some (sprintf_putascii cnt arg, args)
     else if y = 100 then map_option (\<lambda>t. (t, args)) (sprintf_putdec cnt arg)
     else if y = 120 then Some (sprintf_puthex cnt arg, args)
     else if y = 115 then (case args of AStr p # args' \<Rightarrow> Some (sprintf_putstr cnt p, args') | _ \<Rightarrow> None)
     else Some ([], args))"

text \<open>What follows a percent sign: the text, the rest of the format and of the arguments.\<close>

definition fmt_spec :: "u8 list \<Rightarrow> fmt_arg list \<Rightarrow> (u8 list \<times> u8 list \<times> fmt_arg list) option" where
  "fmt_spec f args = (
     case f of [] \<Rightarrow> None
     | c # f' \<Rightarrow>
       if c = 37 then Some ([37], f', args)
       else (case fmt_count 0 f of
           (cnt, []) \<Rightarrow> None
         | (cnt, x # f1) \<Rightarrow>
             if x = 115 then map_option (\<lambda>(t, as). (t, f1, as)) (fmt_conv 115 cnt 0 args)
             else (case args of
                 AInt arg # args1 \<Rightarrow>
                   if x = 99 then Some ([ucast arg], f1, args1)
                   else if x = 108 then
                     (case f1 of [] \<Rightarrow> None | y # f2 \<Rightarrow> map_option (\<lambda>(t, as). (t, f2, as)) (fmt_conv y cnt arg args1))
                   else map_option (\<lambda>(t, as). (t, f1, as)) (fmt_conv x cnt arg args1)
               | _ \<Rightarrow> None)))"

lemma fmt_spec_length: "fmt_spec f args = Some (t, f', args') \<Longrightarrow> length f' < length f"
  using fmt_count_length [of 0 f]
  by (auto simp: fmt_spec_def split: list.splits if_splits prod.splits fmt_arg.splits)

function vsprintf :: "u8 list \<Rightarrow> fmt_arg list \<Rightarrow> u8 list option" where
  "vsprintf [] args = Some []"
| "vsprintf (c # f) args = (
     if c = 37 then
       (case fmt_spec f args of None \<Rightarrow> None
        | Some (t, f', args') \<Rightarrow> map_option (\<lambda>r. t @ r) (vsprintf f' args'))
     else map_option (\<lambda>r. c # r) (vsprintf f args))"
  by pat_completeness auto
termination
  by (relation "measure (\<lambda>(f, _). length f)") (auto dest: fmt_spec_length)

definition sprintf :: "string \<Rightarrow> fmt_arg list \<Rightarrow> u8 list option" where
  "sprintf fmt args = vsprintf (chars fmt) args"

section \<open>Numbers\<close>

text \<open>Reading the digits back.\<close>

definition hex_val :: "u8 \<Rightarrow> nat" where
  "hex_val b = (if b < 65 then unat b - 48 else unat b - 55)"

definition hex_read :: "u8 list \<Rightarrow> nat" where
  "hex_read ds = foldl (\<lambda>v b. 16 * v + hex_val b) 0 ds"

definition dec_read :: "u8 list \<Rightarrow> nat" where
  "dec_read ds = foldl (\<lambda>v b. 10 * v + (unat b - 48)) 0 ds"

lemma foldl_digits:
  fixes g :: "u8 \<Rightarrow> nat"
  shows "foldl (\<lambda>v b. k * v + g b) v ds = v * k ^ length ds + foldl (\<lambda>v b. k * v + g b) 0 ds"
proof (induction ds arbitrary: v)
  case (Cons d ds)
  show ?case
    using Cons.IH [of "k * v + g d"] Cons.IH [of "g d"] by (simp add: algebra_simps)
qed simp

lemma hex_read_Cons: "hex_read (d # ds) = hex_val d * 16 ^ length ds + hex_read ds"
  unfolding hex_read_def by (simp add: foldl_digits [of 16 hex_val "hex_val d"])

lemma dec_read_Cons: "dec_read (d # ds) = (unat d - 48) * 10 ^ length ds + dec_read ds"
  unfolding dec_read_def by (simp add: foldl_digits [of 10 "\<lambda>b. unat b - 48" "unat d - 48"])

lemma and_15: "unat (c AND 15 :: u64) = unat c mod 16"
proof -
  have "c AND 15 = take_bit 4 c" by (simp add: take_bit_eq_mask mask_eq_exp_minus_1)
  then have "unat (c AND 15) = take_bit 4 (unat c)" by (metis unsigned_take_bit_eq)
  then show ?thesis by (simp add: take_bit_eq_mod)
qed

lemma hex_val_digit: "hex_val (hex_digit c) = unat c mod 16"
proof -
  let ?n = "c AND 15"
  have lt: "unat ?n < 16" by (simp add: and_15)
  have u: "unat (ucast ?n :: u8) = unat ?n" using lt by (simp add: unsigned_ucast_eq take_bit_nat_eq_self)
  show ?thesis
  proof (cases "?n < 10")
    case True
    then have "unat ?n < 10" by (simp add: word_less_nat_alt)
    then have "unat (48 + ucast ?n :: u8) = 48 + unat ?n" by (simp add: unat_word_ariths u)
    with True show ?thesis
      by (simp add: hex_digit_def hex_val_def Let_def word_less_nat_alt and_15)
  next
    case False
    then have "10 \<le> unat ?n" by (simp add: word_less_nat_alt)
    then have "unat (65 + ucast ?n - 10 :: u8) = 55 + unat ?n"
      using lt by (simp add: unat_word_ariths u unat_sub_if_size word_size)
    with False \<open>10 \<le> unat ?n\<close> show ?thesis
      by (simp add: hex_digit_def hex_val_def Let_def word_less_nat_alt and_15)
  qed
qed

lemma sint_mod_64: "sint c mod 2 ^ 64 = uint c" for c :: u64
proof -
  have "uint c = take_bit 64 (sint c)" by (simp add: uint_sint)
  then show ?thesis by (simp add: take_bit_eq_mod)
qed

lemma sint_mod_16: "int (unat c mod 16) = sint c mod 16" for c :: u64
proof -
  have "sint c mod 2 ^ 64 mod 16 = sint c mod 16" by (rule mod_mod_cancel) simp
  then show ?thesis unfolding sint_mod_64 by (simp add: zmod_int)
qed

lemma hex_loop_value:
  "int (hex_read (hex_loop (Suc i) c ds)) = (sint c mod 16 ^ Suc i) * 16 ^ length ds + int (hex_read ds)"
proof (induction i arbitrary: c ds)
  case 0
  then show ?case by (simp add: Let_def hex_read_Cons hex_val_digit sint_mod_16)
next
  case (Suc i)
  let ?c = "signed_drop_bit 4 c"
  have q: "sint ?c = sint c div 16" by (simp add: sint_signed_drop_bit_eq drop_bit_eq_div)
  have split: "sint c mod 16 ^ Suc (Suc i) = 16 * (sint c div 16 mod 16 ^ Suc i) + sint c mod 16"
    unfolding power_Suc [of 16 "Suc i"] by (rule zmod_zmult2_eq) simp
  show ?case
  proof (cases "?c = 0")
    case True
    then have "sint c div 16 = 0" using q by simp
    then show ?thesis using True split
      by (simp add: Let_def hex_read_Cons hex_val_digit sint_mod_16)
  next
    case False
    then have "hex_loop (Suc (Suc i)) c ds = hex_loop (Suc i) ?c (hex_digit c # ds)"
      by (simp add: Let_def)
    then have "int (hex_read (hex_loop (Suc (Suc i)) c ds)) =
        (sint c div 16 mod 16 ^ Suc i) * 16 ^ Suc (length ds) + int (hex_read (hex_digit c # ds))"
      using Suc.IH [of ?c "hex_digit c # ds"] q by (simp del: hex_loop.simps)
    also have "int (hex_read (hex_digit c # ds)) = (sint c mod 16) * 16 ^ length ds + int (hex_read ds)"
      by (simp add: hex_read_Cons hex_val_digit sint_mod_16)
    finally show ?thesis unfolding split by (simp add: algebra_simps del: hex_loop.simps)
  qed
qed

lemma hex_loop_16: "hex_read (hex_loop 16 c []) = unat c"
proof -
  have "int (hex_read (hex_loop (Suc 15) c [])) = uint c"
    using hex_loop_value [of 15 c "[]"] sint_mod_64 [of c] by (simp add: hex_read_def del: hex_loop.simps)
  then have "hex_read (hex_loop (Suc 15) c []) = unat c" by (simp only: uint_nat of_nat_eq_iff)
  then show ?thesis by (simp only: Suc_numeral semiring_norm)
qed

text \<open>Decimal digits.\<close>

lemma dec_loop_value:
  assumes "0 \<le> c" and "c < 10 ^ i"
  shows "\<exists>j ds'. dec_loop (Suc i) c ds = (j, ds') \<and> 0 < j + (if i = 0 then 1 else 0) \<and>
     int (dec_read ds') = c * 10 ^ length ds + int (dec_read ds)"
  using assms
proof (induction i arbitrary: c ds)
  case 0
  then have "c = 0" by simp
  then show ?case by (simp add: Let_def dec_read_Cons)
next
  case (Suc i)
  have s: "c smod 10 = c mod 10" "c sdiv 10 = c div 10" using Suc.prems(1)
    by (cases "c = 0"; simp add: signed_modulo_int_def signed_divide_int_def sgn_if)+
  have d: "unat (word_of_int (48 + c mod 10) :: u8) = nat (48 + c mod 10)"
  proof -
    have "0 \<le> c mod 10" "c mod 10 < 10" by simp_all
    then have "uint (word_of_int (48 + c mod 10) :: u8) = 48 + c mod 10"
      by (simp only: uint_word_of_int) (simp add: mod_pos_pos_trivial)
    then show ?thesis by (metis nat_uint_eq)
  qed
  have v: "int (dec_read (word_of_int (48 + c mod 10) # ds)) = (c mod 10) * 10 ^ length ds + int (dec_read ds)"
    unfolding dec_read_Cons d by (simp add: nat_add_distrib)
  show ?case
  proof (cases "c div 10 \<noteq> 0")
    case True
    then have i: "0 < i" using Suc.prems by (cases i) auto
    have "0 \<le> c div 10" "c div 10 < 10 ^ i" using Suc.prems by auto
    from Suc.IH [OF this, of "word_of_int (48 + c mod 10) # ds"] obtain j ds' where
      j: "dec_loop (Suc i) (c div 10) (word_of_int (48 + c mod 10) # ds) = (j, ds')" "0 < j"
        "int (dec_read ds') = (c div 10) * 10 ^ Suc (length ds) + int (dec_read (word_of_int (48 + c mod 10) # ds))"
      using i by auto
    have "(c div 10) * 10 ^ Suc (length ds) + (c mod 10) * 10 ^ length ds = (c div 10 * 10 + c mod 10) * 10 ^ length ds"
      by (simp only: distrib_right power_Suc mult.assoc)
    then have "int (dec_read ds') = c * 10 ^ length ds + int (dec_read ds)"
      unfolding j(3) v by (simp only: div_mult_mod_eq add.assoc [symmetric])
    moreover have "dec_loop (Suc (Suc i)) c ds = (j, ds')" using j(1) True i by (simp add: s Let_def)
    ultimately show ?thesis using j(2) by auto
  next
    case False
    then have "c mod 10 = c" using Suc.prems(1) by auto
    with False show ?thesis using v by (simp add: s Let_def)
  qed
qed

lemma sint_neg_u64:
  fixes c :: u64
  assumes "sint c \<noteq> - (2 ^ 63)"
  shows "sint (- c) = - sint c"
proof -
  have "- (2 ^ 63) \<le> sint c" "sint c < 2 ^ 63" using sint_range_size [of c] by (simp_all add: word_size)
  with assms have "- (2 ^ 63) \<le> - sint c" "- sint c < 2 ^ 63" by simp_all
  then have "signed_take_bit 63 (- sint c) = - sint c" by (rule signed_take_bit_int_eq_self)
  then show ?thesis by (simp add: sint_word_minus)
qed

lemma dec_start_eq:
  "sint c \<noteq> - (2 ^ 63) \<Longrightarrow> dec_start c = min \<bar>sint c\<bar> 99999999999999999"
  by (simp add: dec_start_def sint_neg_u64)

lemma putdec_value:
  assumes "sint c \<noteq> - (2 ^ 63)"
  shows "\<exists>ds. sprintf_putdec 0 c = Some ((if sint c < 0 then [45] else []) @ ds) \<and>
     int (dec_read ds) = min \<bar>sint c\<bar> 99999999999999999"
proof -
  have "0 \<le> dec_start c" "dec_start c < 10 ^ 17" using dec_start_eq [OF assms] by simp_all
  from dec_loop_value [OF this, of "[]"] obtain j ds where
    "dec_loop 18 (dec_start c) [] = (j, ds)" "0 < j" "int (dec_read ds) = dec_start c"
    by (auto simp: dec_read_def simp del: dec_loop.simps)
  then show ?thesis using dec_start_eq [OF assms] by (simp add: sprintf_putdec_def)
qed

lemma sprintf_one:
  "sprintf ''%x'' [AInt c] = Some (sprintf_puthex 0 c)"
  "sprintf ''%d'' [AInt c] = sprintf_putdec 0 c"
  by (simp_all add: sprintf_def chars_def fmt_spec_def fmt_conv_def word_le_nat_alt map_option.identity
      option.map_ident map_option_case split: option.splits)

section \<open>Properties\<close>

text \<open>
  C15. Numbers survive printing: the text \<^verbatim>\<open>%x\<close> gives for a 64 bit value reads back as that value,
  negative ones included, and the text \<^verbatim>\<open>%d\<close> gives reads back as the value with its sign as
  long as it has at most 17 digits; larger ones are printed as seventeen nines. The one value
  that cannot be printed is the most negative one, where the sign is written in front of
  \<^verbatim>\<open>tmpstr\<close>.
\<close>

theorem sprintf_number_roundtrip:
  "(\<exists>ds. sprintf ''%x'' [AInt c] = Some ds \<and> hex_read ds = unat c) \<and>
   (if sint c = - (2 ^ 63) then sprintf ''%d'' [AInt c] = None
    else \<exists>ds. sprintf ''%d'' [AInt c] = Some ((if sint c < 0 then [45] else []) @ ds) \<and>
      int (dec_read ds) = min \<bar>sint c\<bar> 99999999999999999)"
proof -
  have "sprintf_putdec 0 c = None" if "sint c = - (2 ^ 63)"
  proof -
    have "sint c = sint (0x8000000000000000 :: u64)" using that by simp
    then have "c = 0x8000000000000000" by (metis signed_word_eqI)
    then show ?thesis by (simp only:) code_simp
  qed
  then show ?thesis
    using putdec_value [of c] hex_loop_16 [of c] by (simp add: sprintf_one sprintf_puthex_def)
qed

end
