(* ===== verification/Libc_Qsort.thy ===== *)
theory Libc_Qsort
  imports Prelude
begin

text \<open>
  The sorting routine of \<^verbatim>\<open>libc/qsort.c\<close>. The array of \<^verbatim>\<open>n\<close> elements of size \<^verbatim>\<open>es\<close> that starts at
  \<^verbatim>\<open>a\<close> is the list of its elements, and the pointers \<^verbatim>\<open>pa\<close>, \<^verbatim>\<open>pb\<close>, \<^verbatim>\<open>pc\<close>, \<^verbatim>\<open>pd\<close>, \<^verbatim>\<open>pl\<close>, \<^verbatim>\<open>pm\<close> are
  indices into it; the recursive calls work on the parts of the list the C code passes a pointer
  into. The comparison function is an argument. Element counts are natural numbers: the C code
  keeps byte distances in an \<^verbatim>\<open>int\<close>, so the model speaks of arrays below two gigabytes.
\<close>

section \<open>The routine\<close>

type_synonym 'a cmpfun = "'a \<Rightarrow> 'a \<Rightarrow> int"

definition swp :: "nat \<Rightarrow> nat \<Rightarrow> 'a list \<Rightarrow> 'a list" where
  "swp i j xs = xs[i := xs ! j, j := xs ! i]"

text \<open>\<^verbatim>\<open>vecswap\<close> exchanges two blocks of \<open>n\<close> elements, first to last.\<close>

fun vecswap :: "nat \<Rightarrow> nat \<Rightarrow> nat \<Rightarrow> 'a list \<Rightarrow> 'a list" where
  "vecswap a b 0 xs = xs"
| "vecswap a b (Suc n) xs = vecswap (Suc a) (Suc b) n (swp a b xs)"

text \<open>The median of three positions.\<close>

definition med3 :: "'a cmpfun \<Rightarrow> 'a list \<Rightarrow> nat \<Rightarrow> nat \<Rightarrow> nat \<Rightarrow> nat" where
  "med3 cmp xs a b c =
     (if cmp (xs ! a) (xs ! b) < 0
      then (if cmp (xs ! b) (xs ! c) < 0 then b else if cmp (xs ! a) (xs ! c) < 0 then c else a)
      else (if cmp (xs ! b) (xs ! c) > 0 then b else if cmp (xs ! a) (xs ! c) < 0 then a else c))"

text \<open>The insertion sort for short arrays: its inner and its outer loop.\<close>

fun sift_down :: "'a cmpfun \<Rightarrow> nat \<Rightarrow> 'a list \<Rightarrow> 'a list" where
  "sift_down cmp 0 xs = xs"
| "sift_down cmp (Suc pl) xs =
     (if cmp (xs ! pl) (xs ! Suc pl) > 0 then sift_down cmp pl (swp (Suc pl) pl xs) else xs)"

function insertion :: "'a cmpfun \<Rightarrow> nat \<Rightarrow> 'a list \<Rightarrow> 'a list" where
  "insertion cmp pm xs =
     (if pm < length xs then insertion cmp (Suc pm) (sift_down cmp pm xs) else xs)"
  by pat_completeness auto

lemma length_swp [simp]: "length (swp i j xs) = length xs"
  by (simp add: swp_def)

lemma length_sift_down [simp]: "length (sift_down cmp pl xs) = length xs"
  by (induction cmp pl xs rule: sift_down.induct) auto

termination insertion
  by (relation "measure (\<lambda>(cmp, pm, xs). length xs - pm)") auto

declare insertion.simps [simp del]

text \<open>The choice of the pivot position.\<close>

definition pivot :: "'a cmpfun \<Rightarrow> 'a list \<Rightarrow> nat" where
  "pivot cmp xs =
     (let n = length xs; pm = n div 2 in
      if 7 < n then
        (let pl = 0; pn = n - 1; d = n div 8;
             (pl, pm, pn) =
               (if 40 < n
                then (med3 cmp xs pl (pl + d) (pl + 2 * d), med3 cmp xs (pm - d) pm (pm + d),
                      med3 cmp xs (pn - 2 * d) (pn - d) pn)
                else (pl, pm, pn))
         in med3 cmp xs pl pm pn)
      else pm)"

text \<open>
  The partition loop around the pivot in the first element: the elements equal to it are
  collected at both ends, the smaller ones grow from \<open>pa\<close> to \<open>pb\<close>, the larger ones from \<open>pd\<close>
  down to \<open>pc\<close>.
\<close>

record 'a part =
  p_xs :: "'a list"
  p_a :: nat
  p_b :: nat
  p_c :: nat
  p_d :: nat
  p_cnt :: bool

function part_up :: "'a cmpfun \<Rightarrow> 'a part \<Rightarrow> 'a part" where
  "part_up cmp p =
     (let r = cmp (p_xs p ! p_b p) (p_xs p ! 0) in
      if p_b p \<le> p_c p \<and> r \<le> 0
      then part_up cmp
        (if r = 0
         then p\<lparr>p_cnt := True, p_xs := swp (p_a p) (p_b p) (p_xs p), p_a := p_a p + 1,
                p_b := p_b p + 1\<rparr>
         else p\<lparr>p_b := p_b p + 1\<rparr>)
      else p)"
  by pat_completeness auto
termination
  by (relation "measure (\<lambda>(cmp, p). Suc (p_c p) - p_b p)") (auto simp: Let_def)

function part_down :: "'a cmpfun \<Rightarrow> 'a part \<Rightarrow> 'a part" where
  "part_down cmp p =
     (let r = cmp (p_xs p ! p_c p) (p_xs p ! 0) in
      if p_b p \<le> p_c p \<and> 0 < p_c p \<and> r \<ge> 0
      then part_down cmp
        (if r = 0
         then p\<lparr>p_cnt := True, p_xs := swp (p_c p) (p_d p) (p_xs p), p_d := p_d p - 1,
                p_c := p_c p - 1\<rparr>
         else p\<lparr>p_c := p_c p - 1\<rparr>)
      else p)"
  by pat_completeness auto
termination
  by (relation "measure (\<lambda>(cmp, p). p_c p)") (auto simp: Let_def)

declare part_up.simps [simp del] part_down.simps [simp del]

lemma part_up_c [simp]: "p_c (part_up cmp p) = p_c p"
  by (induction cmp p rule: part_up.induct) (subst part_up.simps, auto simp: Let_def)

lemma part_down_b [simp]: "p_b (part_down cmp p) = p_b p"
  by (induction cmp p rule: part_down.induct) (subst part_down.simps, auto simp: Let_def)

lemma part_up_b: "p_b p \<le> p_b (part_up cmp p)"
  by (induction cmp p rule: part_up.induct) (subst part_up.simps, fastforce simp: Let_def)

lemma part_down_c: "p_c (part_down cmp p) \<le> p_c p"
  by (induction cmp p rule: part_down.induct) (subst part_down.simps, fastforce simp: Let_def)

function partition_loop :: "'a cmpfun \<Rightarrow> 'a part \<Rightarrow> 'a part" where
  "partition_loop cmp p =
     (let q = part_down cmp (part_up cmp p) in
      if p_b q > p_c q then q
      else partition_loop cmp
        (q\<lparr>p_xs := swp (p_b q) (p_c q) (p_xs q), p_cnt := True, p_b := p_b q + 1,
           p_c := p_c q - 1\<rparr>))"
  by pat_completeness auto
termination
proof (relation "measure (\<lambda>(cmp, p). Suc (p_c p) - p_b p)", goal_cases)
  case (2 cmp p q)
  then show ?case
    using part_up_b [of p cmp] part_down_c [of cmp "part_up cmp p"] by auto
qed simp

declare partition_loop.simps [simp del]

definition part_start :: "'a list \<Rightarrow> 'a part" where
  "part_start xs = \<lparr>p_xs = xs, p_a = 1, p_b = 1, p_c = length xs - 1, p_d = length xs - 1,
     p_cnt = False\<rparr>"

text \<open>
  The elements equal to the pivot move to the middle: between the smaller ones, which come to
  the front, and the larger ones at the end.
\<close>

definition part_finish :: "'a part \<Rightarrow> 'a list" where
  "part_finish q =
     (let n = length (p_xs q);
          r = min (p_a q) (p_b q - p_a q);
          ys = vecswap 0 (p_b q - r) r (p_xs q);
          r = min (p_d q - p_c q) (n - p_d q - 1)
      in vecswap (p_b q) (n - r) r ys)"

definition qsort_part :: "'a cmpfun \<Rightarrow> 'a list \<Rightarrow> 'a part" where
  "qsort_part cmp xs = partition_loop cmp (part_start (swp 0 (pivot cmp xs) xs))"

text \<open>
  Partitioning keeps the number of elements and leaves both the part before \<open>pa\<close> and the part
  after \<open>pd\<close> inside the array, so the two calls work on shorter arrays.
\<close>

definition part_len :: "nat \<Rightarrow> 'a part \<Rightarrow> bool" where
  "part_len n p \<longleftrightarrow> length (p_xs p) = n \<and> 1 \<le> p_a p \<and> p_a p \<le> p_b p \<and> p_b p \<le> n \<and>
     p_c p < n \<and> p_d p < n"

lemma part_up_len: "part_len n p \<Longrightarrow> part_len n (part_up cmp p)"
proof (induction cmp p rule: part_up.induct)
  case (1 cmp p)
  show ?case
  proof (cases "p_b p \<le> p_c p \<and> cmp (p_xs p ! p_b p) (p_xs p ! 0) \<le> 0")
    case True
    have "part_len n (if cmp (p_xs p ! p_b p) (p_xs p ! 0) = 0
         then p\<lparr>p_cnt := True, p_xs := swp (p_a p) (p_b p) (p_xs p), p_a := p_a p + 1,
                p_b := p_b p + 1\<rparr>
         else p\<lparr>p_b := p_b p + 1\<rparr>)"
      using 1(2) True by (auto simp: part_len_def)
    from 1(1) [OF refl True this] True show ?thesis
      by (subst part_up.simps) (simp add: Let_def)
  next
    case False
    with 1 show ?thesis by (subst part_up.simps) (auto simp: Let_def)
  qed
qed

lemma part_down_len: "part_len n p \<Longrightarrow> part_len n (part_down cmp p)"
proof (induction cmp p rule: part_down.induct)
  case (1 cmp p)
  show ?case
  proof (cases "p_b p \<le> p_c p \<and> 0 < p_c p \<and> 0 \<le> cmp (p_xs p ! p_c p) (p_xs p ! 0)")
    case True
    have "part_len n (if cmp (p_xs p ! p_c p) (p_xs p ! 0) = 0
         then p\<lparr>p_cnt := True, p_xs := swp (p_c p) (p_d p) (p_xs p), p_d := p_d p - 1,
                p_c := p_c p - 1\<rparr>
         else p\<lparr>p_c := p_c p - 1\<rparr>)"
      using 1(2) True by (auto simp: part_len_def)
    from 1(1) [OF refl True this] True show ?thesis
      by (subst part_down.simps) (simp add: Let_def)
  next
    case False
    with 1 show ?thesis by (subst part_down.simps) (auto simp: Let_def)
  qed
qed

lemma partition_loop_len: "part_len n p \<Longrightarrow> part_len n (partition_loop cmp p)"
proof (induction cmp p rule: partition_loop.induct)
  case (1 cmp p)
  let ?q = "part_down cmp (part_up cmp p)"
  have q: "part_len n ?q" by (intro part_down_len part_up_len 1(2))
  then have "part_len n (?q\<lparr>p_xs := swp (p_b ?q) (p_c ?q) (p_xs ?q), p_cnt := True,
      p_b := p_b ?q + 1, p_c := p_c ?q - 1\<rparr>)" if "\<not> p_b ?q > p_c ?q"
    using that by (auto simp: part_len_def)
  with 1(1) [OF refl] q show ?case
    by (subst partition_loop.simps) (simp add: Let_def)
qed

lemma length_vecswap [simp]: "length (vecswap a b n xs) = length xs"
  by (induction a b n xs rule: vecswap.induct) auto

lemma length_part_finish [simp]: "length (part_finish q) = length (p_xs q)"
  by (simp add: part_finish_def Let_def)

lemma qsort_part_len: "7 \<le> length xs \<Longrightarrow> part_len (length xs) (qsort_part cmp xs)"
  unfolding qsort_part_def by (rule partition_loop_len) (simp add: part_len_def part_start_def)

function qsort :: "'a cmpfun \<Rightarrow> 'a list \<Rightarrow> 'a list" where
  "qsort cmp xs =
     (let n = length xs in
      if n < 7 then insertion cmp 1 xs
      else
        let q = qsort_part cmp xs in
        if \<not> p_cnt q then insertion cmp 1 (p_xs q)
        else
          let ys = part_finish q;
              r = p_b q - p_a q;
              t = p_d q - p_c q;
              lo = take r ys;
              mid = take (n - t - r) (drop r ys);
              hi = drop (n - t) ys
          in (if 1 < r then qsort cmp lo else lo) @ mid @ (if 1 < t then qsort cmp hi else hi))"
  by pat_completeness auto
termination
proof (relation "measure (\<lambda>(cmp, xs). length xs)", goal_cases)
  case (2 cmp xs n q ys r t lo mid hi)
  then show ?case using qsort_part_len [of xs cmp] by (auto simp: part_len_def)
next
  case (3 cmp xs n q ys r t lo mid hi)
  then show ?case using qsort_part_len [of xs cmp] by (auto simp: part_len_def)
qed simp

declare qsort.simps [simp del]

section \<open>Correctness\<close>

text \<open>
  What the routine asks of a comparison function on the elements it is given: the sign changes
  when the arguments are exchanged, and the order is transitive.
\<close>

locale comparator =
  fixes cmp :: "'a \<Rightarrow> 'a \<Rightarrow> int" and S :: "'a set"
  assumes cmp_sign: "x \<in> S \<Longrightarrow> y \<in> S \<Longrightarrow> 0 < cmp x y \<longleftrightarrow> cmp y x < 0"
    and cmp_trans: "x \<in> S \<Longrightarrow> y \<in> S \<Longrightarrow> z \<in> S \<Longrightarrow> cmp x y \<le> 0 \<Longrightarrow> cmp y z \<le> 0 \<Longrightarrow> cmp x z \<le> 0"

text \<open>An array is in order when no element is larger than a later one.\<close>

definition in_order :: "'a cmpfun \<Rightarrow> 'a list \<Rightarrow> bool" where
  "in_order cmp xs \<longleftrightarrow> sorted_wrt (\<lambda>x y. cmp x y \<le> 0) xs"

lemma in_order_append:
  "in_order cmp (xs @ ys) \<longleftrightarrow> in_order cmp xs \<and> in_order cmp ys \<and>
     (\<forall>x \<in> set xs. \<forall>y \<in> set ys. cmp x y \<le> 0)"
  by (auto simp: in_order_def sorted_wrt_append)

lemma in_order_Nil [simp]: "in_order cmp []"
  by (simp add: in_order_def)

lemma in_order_single [simp]: "in_order cmp [x]"
  by (simp add: in_order_def)

lemma in_order_short: "length xs \<le> 1 \<Longrightarrow> in_order cmp xs"
  by (cases xs rule: list.exhaust) (auto simp: in_order_def)

subsection \<open>Permutation\<close>

lemma mset_swp [simp]: "i < length xs \<Longrightarrow> j < length xs \<Longrightarrow> mset (swp i j xs) = mset xs"
  by (simp add: swp_def mset_swap)

lemma nth_swp:
  "i < length xs \<Longrightarrow> j < length xs \<Longrightarrow> k < length xs \<Longrightarrow>
     swp i j xs ! k = xs ! (if k = j then i else if k = i then j else k)"
  by (simp add: swp_def nth_list_update)

lemma nth_vecswap:
  assumes "a + n \<le> b" and "b + n \<le> length xs" and "k < length xs"
  shows "vecswap a b n xs ! k =
    xs ! (if a \<le> k \<and> k < a + n then k - a + b else if b \<le> k \<and> k < b + n then k - b + a else k)"
  using assms
proof (induction a b n xs rule: vecswap.induct)
  case (2 a b n xs)
  have "vecswap (Suc a) (Suc b) n (swp a b xs) ! k =
    swp a b xs ! (if Suc a \<le> k \<and> k < Suc a + n then k - Suc a + Suc b
      else if Suc b \<le> k \<and> k < Suc b + n then k - Suc b + Suc a else k)"
    using 2 by simp
  also have "\<dots> = xs ! (if a \<le> k \<and> k < a + Suc n then k - a + b
      else if b \<le> k \<and> k < b + Suc n then k - b + a else k)"
    using 2(2-4) by (auto simp: nth_swp intro!: arg_cong [where f = "nth xs"])
  finally show ?case by simp
qed auto

lemma mset_vecswap: "a + n \<le> b \<Longrightarrow> b + n \<le> length xs \<Longrightarrow> mset (vecswap a b n xs) = mset xs"
  by (induction a b n xs rule: vecswap.induct) auto

subsection \<open>Insertion sort\<close>

context comparator
begin

lemma cmp_self: "x \<in> S \<Longrightarrow> cmp x x = 0"
  using cmp_sign [of x x] by force

lemma cmp_pos_le: "x \<in> S \<Longrightarrow> y \<in> S \<Longrightarrow> 0 < cmp x y \<Longrightarrow> cmp y x \<le> 0"
  using cmp_sign [of x y] by simp

lemma cmp_zero: "x \<in> S \<Longrightarrow> y \<in> S \<Longrightarrow> cmp x y = 0 \<longleftrightarrow> cmp y x = 0"
  using cmp_sign [of x y] cmp_sign [of y x] by linarith

text \<open>The element moves down behind the last one that is not larger.\<close>

lemma sift_down_split:
  "\<exists>a b. us = a @ b \<and> sift_down cmp (length us) (us @ x # vs) = a @ x # b @ vs \<and>
     (\<forall>y \<in> set b. 0 < cmp y x) \<and> (a \<noteq> [] \<longrightarrow> cmp (last a) x \<le> 0)"
proof (induction us arbitrary: vs rule: rev_induct)
  case (snoc w us)
  show ?case
  proof (cases "0 < cmp w x")
    case True
    have "swp (Suc (length us)) (length us) ((us @ [w]) @ x # vs) = us @ x # w # vs"
      by (rule nth_equalityI) (auto simp: nth_swp nth_append nth_Cons split: nat.splits)
    then have e: "sift_down cmp (length (us @ [w])) ((us @ [w]) @ x # vs) =
        sift_down cmp (length us) (us @ x # w # vs)"
      using True by (simp add: nth_append)
    obtain a b where "us = a @ b" "sift_down cmp (length us) (us @ x # w # vs) = a @ x # b @ w # vs"
      "\<forall>y \<in> set b. 0 < cmp y x" "a \<noteq> [] \<longrightarrow> cmp (last a) x \<le> 0"
      using snoc [of "w # vs"] by blast
    with True show ?thesis unfolding e by (intro exI [of _ a] exI [of _ "b @ [w]"]) simp
  next
    case False
    then show ?thesis by (intro exI [of _ "us @ [w]"] exI [of _ "[]"]) (simp add: nth_append)
  qed
qed simp

lemma sift_down_order:
  assumes "in_order cmp us" and S: "set us \<subseteq> S" "x \<in> S"
  obtains ws where "sift_down cmp (length us) (us @ x # vs) = ws @ vs" "in_order cmp ws"
    "mset ws = add_mset x (mset us)"
proof -
  obtain a b where ab: "us = a @ b" "sift_down cmp (length us) (us @ x # vs) = a @ x # b @ vs"
    "\<forall>y \<in> set b. 0 < cmp y x" "a \<noteq> [] \<longrightarrow> cmp (last a) x \<le> 0"
    using sift_down_split by blast
  have "\<forall>y \<in> set a. cmp y x \<le> 0"
  proof
    fix y assume y: "y \<in> set a"
    then obtain a' z where a: "a = a' @ [z]" by (cases a rule: rev_cases) auto
    have "cmp y z \<le> 0"
      using assms y ab(1) a cmp_self by (auto simp: in_order_append)
    moreover have "cmp z x \<le> 0" using ab(4) a by simp
    ultimately show "cmp y x \<le> 0" using cmp_trans [of y z x] S y ab(1) a by auto
  qed
  moreover have "\<forall>y \<in> set b. cmp x y \<le> 0"
    using ab(1,3) S cmp_pos_le by auto
  ultimately have "in_order cmp (a @ [x] @ b)"
    using assms ab(1) by (auto simp: in_order_append simp del: append_Cons)
  then show thesis using that [of "a @ x # b"] ab by simp
qed

lemma insertion_order:
  assumes "in_order cmp (take pm xs)" and "pm \<le> length xs" and "set xs \<subseteq> S"
  shows "in_order cmp (insertion cmp pm xs) \<and> mset (insertion cmp pm xs) = mset xs"
  using assms
proof (induction "length xs - pm" arbitrary: pm xs)
  case 0
  then show ?case by (simp add: insertion.simps [of cmp pm xs])
next
  case (Suc k)
  let ?us = "take pm xs" and ?x = "xs ! pm" and ?vs = "drop (Suc pm) xs"
  have lt: "pm < length xs" using Suc by simp
  then have xs: "xs = ?us @ ?x # ?vs" by (rule id_take_nth_drop)
  have S: "set ?us \<subseteq> S" "?x \<in> S" using Suc.prems(3) lt set_take_subset [of pm xs] by auto
  obtain ws where ws: "sift_down cmp (length ?us) (?us @ ?x # ?vs) = ws @ ?vs" "in_order cmp ws"
    "mset ws = add_mset ?x (mset ?us)"
    using sift_down_order [OF Suc.prems(1) S] by blast
  have sd: "sift_down cmp pm xs = ws @ ?vs"
    using ws(1) lt by (simp only: xs [symmetric] length_take min_absorb2 less_imp_le_nat)
  have len: "length ws = Suc pm"
    using ws(3) lt by (metis Suc.prems(2) length_take min_absorb2 size_add_mset size_mset)
  have m: "mset (ws @ ?vs) = mset xs"
    using arg_cong [OF xs, of mset] ws(3) by simp
  have st: "set (ws @ ?vs) \<subseteq> S" using Suc.prems(3) m by (metis set_mset_mset)
  have l: "length (ws @ ?vs) = length xs" using m by (metis size_mset)
  have "in_order cmp (insertion cmp (Suc pm) (ws @ ?vs)) \<and>
      mset (insertion cmp (Suc pm) (ws @ ?vs)) = mset (ws @ ?vs)"
    using Suc.hyps(2) ws(2) len lt l st by (intro Suc.hyps(1)) auto
  then show ?case using lt sd m by (simp add: insertion.simps [of cmp pm xs])
qed

lemma insertion_sorts:
  assumes "set xs \<subseteq> S"
  shows "in_order cmp (insertion cmp 1 xs) \<and> mset (insertion cmp 1 xs) = mset xs"
proof (cases xs)
  case Nil
  then show ?thesis by (subst (1 2) insertion.simps) simp
next
  case (Cons y ys)
  with assms show ?thesis by (intro insertion_order) auto
qed

end

subsection \<open>Partitioning\<close>

text \<open>The regions of the array during the partition loop, around the pivot in the first element.\<close>

definition part_inv :: "'a cmpfun \<Rightarrow> 'a list \<Rightarrow> 'a part \<Rightarrow> bool" where
  "part_inv cmp xs p \<longleftrightarrow> mset (p_xs p) = mset xs \<and> 1 \<le> p_a p \<and> p_a p \<le> p_b p \<and>
     p_b p \<le> Suc (p_c p) \<and> p_c p \<le> p_d p \<and> p_d p < length (p_xs p) \<and> p_xs p ! 0 = xs ! 0 \<and>
     (\<forall>i < p_a p. cmp (p_xs p ! i) (xs ! 0) = 0) \<and>
     (\<forall>i. p_a p \<le> i \<and> i < p_b p \<longrightarrow> cmp (p_xs p ! i) (xs ! 0) < 0) \<and>
     (\<forall>i. p_c p < i \<and> i \<le> p_d p \<longrightarrow> cmp (p_xs p ! i) (xs ! 0) > 0) \<and>
     (\<forall>i. p_d p < i \<and> i < length (p_xs p) \<longrightarrow> cmp (p_xs p ! i) (xs ! 0) = 0)"

lemma part_inv_up_eq:
  assumes inv: "part_inv cmp xs p" and le: "p_b p \<le> p_c p" and z: "cmp (p_xs p ! p_b p) (xs ! 0) = 0"
  shows "part_inv cmp xs (p\<lparr>p_cnt := True, p_xs := swp (p_a p) (p_b p) (p_xs p),
    p_a := p_a p + 1, p_b := p_b p + 1\<rparr>)"
proof -
  have l: "p_a p < length (p_xs p)" "p_b p < length (p_xs p)" "0 < p_a p" "0 < p_b p"
    using inv le by (auto simp: part_inv_def)
  have s: "swp (p_a p) (p_b p) (p_xs p) ! i =
      p_xs p ! (if i = p_b p then p_a p else if i = p_a p then p_b p else i)"
    if "i < length (p_xs p)" for i
    using l that by (simp add: nth_swp)
  have "cmp (swp (p_a p) (p_b p) (p_xs p) ! i) (xs ! 0) = 0" if "i < Suc (p_a p)" for i
    using inv le z l that by (subst s) (auto simp: part_inv_def less_Suc_eq)
  moreover have "cmp (swp (p_a p) (p_b p) (p_xs p) ! i) (xs ! 0) < 0"
    if "Suc (p_a p) \<le> i" "i < Suc (p_b p)" for i
    using inv le z l that by (subst s) (auto simp: part_inv_def)
  moreover have "swp (p_a p) (p_b p) (p_xs p) ! 0 = xs ! 0"
    using inv l by (subst s) (auto simp: part_inv_def)
  ultimately show ?thesis
    using inv le l by (auto simp: part_inv_def s)
qed

lemma part_inv_up_less:
  assumes "part_inv cmp xs p" and "p_b p \<le> p_c p" and "cmp (p_xs p ! p_b p) (xs ! 0) < 0"
  shows "part_inv cmp xs (p\<lparr>p_b := p_b p + 1\<rparr>)"
  using assms by (auto simp: part_inv_def less_Suc_eq)

lemma part_inv_down_eq:
  assumes inv: "part_inv cmp xs p" and le: "p_b p \<le> p_c p" and z: "cmp (p_xs p ! p_c p) (xs ! 0) = 0"
  shows "part_inv cmp xs (p\<lparr>p_cnt := True, p_xs := swp (p_c p) (p_d p) (p_xs p),
    p_d := p_d p - 1, p_c := p_c p - 1\<rparr>)"
proof -
  have l: "p_c p < length (p_xs p)" "p_d p < length (p_xs p)" "0 < p_c p" "0 < p_d p"
    using inv le by (auto simp: part_inv_def)
  have s: "swp (p_c p) (p_d p) (p_xs p) ! i =
      p_xs p ! (if i = p_d p then p_c p else if i = p_c p then p_d p else i)"
    if "i < length (p_xs p)" for i
    using l that by (simp add: nth_swp)
  have "cmp (swp (p_c p) (p_d p) (p_xs p) ! i) (xs ! 0) = 0"
    if "p_d p - 1 < i" "i < length (p_xs p)" for i
    using inv le z l that by (cases "i = p_d p") (auto simp: s part_inv_def)
  moreover have "cmp (swp (p_c p) (p_d p) (p_xs p) ! i) (xs ! 0) > 0"
    if "p_c p - 1 < i" "i \<le> p_d p - 1" for i
  proof (cases "i = p_c p")
    case False
    then have "p_c p < i" "i < p_d p" using that l by simp_all
    with False inv l show ?thesis by (subst s) (auto simp: part_inv_def)
  qed (use inv that l in \<open>auto simp: s part_inv_def\<close>)
  moreover have "swp (p_c p) (p_d p) (p_xs p) ! 0 = xs ! 0"
    using inv l by (subst s) (auto simp: part_inv_def)
  moreover have "cmp (swp (p_c p) (p_d p) (p_xs p) ! i) (xs ! 0) = cmp (p_xs p ! i) (xs ! 0)"
    if "i < p_b p" for i
    using inv le l that by (subst s) (auto simp: part_inv_def)
  ultimately show ?thesis
    using inv le l by (auto simp: part_inv_def)
qed

lemma part_inv_down_greater:
  assumes "part_inv cmp xs p" and "p_b p \<le> p_c p" and "cmp (p_xs p ! p_c p) (xs ! 0) > 0"
  shows "part_inv cmp xs (p\<lparr>p_c := p_c p - 1\<rparr>)"
proof -
  have "cmp (p_xs p ! i) (xs ! 0) > 0" if "p_c p - 1 < i" "i \<le> p_d p" for i
    using assms that by (cases "i = p_c p") (auto simp: part_inv_def)
  with assms show ?thesis by (auto simp: part_inv_def)
qed

lemma part_inv_swap:
  assumes inv: "part_inv cmp xs p" and lt: "p_b p < p_c p"
    and b: "0 < cmp (p_xs p ! p_b p) (xs ! 0)" and c: "cmp (p_xs p ! p_c p) (xs ! 0) < 0"
  shows "part_inv cmp xs (p\<lparr>p_xs := swp (p_b p) (p_c p) (p_xs p), p_cnt := True,
    p_b := p_b p + 1, p_c := p_c p - 1\<rparr>)"
proof -
  have l: "p_b p < length (p_xs p)" "p_c p < length (p_xs p)" "0 < p_b p"
    using inv lt by (auto simp: part_inv_def)
  have s: "swp (p_b p) (p_c p) (p_xs p) ! i =
      p_xs p ! (if i = p_c p then p_b p else if i = p_b p then p_c p else i)"
    if "i < length (p_xs p)" for i
    using l that by (simp add: nth_swp)
  have "cmp (swp (p_b p) (p_c p) (p_xs p) ! i) (xs ! 0) < 0"
    if "p_a p \<le> i" "i < Suc (p_b p)" for i
    using inv lt c l that by (subst s) (auto simp: part_inv_def)
  moreover have "cmp (swp (p_b p) (p_c p) (p_xs p) ! i) (xs ! 0) > 0"
    if "p_c p - 1 < i" "i \<le> p_d p" for i
    using inv lt b l that by (subst s) (auto simp: part_inv_def)
  moreover have "swp (p_b p) (p_c p) (p_xs p) ! i = p_xs p ! i"
    if "i < p_b p \<or> p_d p < i" "i < length (p_xs p)" for i
    using inv lt l that by (subst s) (auto simp: part_inv_def)
  moreover have "0 < length (p_xs p)" using l(1) by (rule less_trans [OF l(3)])
  ultimately show ?thesis
    using inv lt l by (auto simp: part_inv_def)
qed

lemma part_up_inv:
  assumes "part_inv cmp xs p"
  shows "part_inv cmp xs (part_up cmp p) \<and> (p_b (part_up cmp p) \<le> p_c p \<longrightarrow>
    0 < cmp (p_xs (part_up cmp p) ! p_b (part_up cmp p)) (xs ! 0))"
  using assms
proof (induction "Suc (p_c p) - p_b p" arbitrary: p rule: less_induct)
  case less
  let ?r = "cmp (p_xs p ! p_b p) (xs ! 0)"
  have z: "p_xs p ! 0 = xs ! 0" using less.prems by (simp add: part_inv_def)
  show ?case
  proof (cases "p_b p \<le> p_c p \<and> ?r \<le> 0")
    case True
    let ?n = "if ?r = 0
         then p\<lparr>p_cnt := True, p_xs := swp (p_a p) (p_b p) (p_xs p), p_a := p_a p + 1,
                p_b := p_b p + 1\<rparr>
         else p\<lparr>p_b := p_b p + 1\<rparr>"
    have n: "part_inv cmp xs ?n" "Suc (p_c ?n) - p_b ?n < Suc (p_c p) - p_b p" "p_c ?n = p_c p"
      using True part_inv_up_eq [OF less.prems] part_inv_up_less [OF less.prems]
      by (auto simp: order_less_le)
    have "part_up cmp p = part_up cmp ?n"
      using True by (subst part_up.simps) (simp add: Let_def z)
    with less.hyps [OF n(2,1)] n(3) show ?thesis by metis
  next
    case False
    then have "part_up cmp p = p" by (subst part_up.simps) (auto simp: Let_def z)
    with False less.prems show ?thesis by auto
  qed
qed

lemma part_down_inv:
  assumes "part_inv cmp xs p" and "p_b p \<le> p_c p \<Longrightarrow> 0 < cmp (p_xs p ! p_b p) (xs ! 0)"
  shows "part_inv cmp xs (part_down cmp p) \<and>
    (p_b p \<le> p_c (part_down cmp p) \<longrightarrow> p_b p < p_c (part_down cmp p) \<and>
       0 < cmp (p_xs (part_down cmp p) ! p_b p) (xs ! 0) \<and>
       cmp (p_xs (part_down cmp p) ! p_c (part_down cmp p)) (xs ! 0) < 0)"
  using assms
proof (induction "p_c p" arbitrary: p rule: less_induct)
  case less
  let ?r = "cmp (p_xs p ! p_c p) (xs ! 0)"
  have z: "p_xs p ! 0 = xs ! 0" and b: "0 < p_b p" using less.prems by (auto simp: part_inv_def)
  show ?case
  proof (cases "p_b p \<le> p_c p \<and> 0 \<le> ?r")
    case True
    let ?n = "if ?r = 0
         then p\<lparr>p_cnt := True, p_xs := swp (p_c p) (p_d p) (p_xs p), p_d := p_d p - 1,
                p_c := p_c p - 1\<rparr>
         else p\<lparr>p_c := p_c p - 1\<rparr>"
    have n: "part_inv cmp xs ?n" "p_c ?n < p_c p" "p_b ?n = p_b p" "p_c ?n = p_c p - 1"
    proof -
      note le = conjunct1 [OF True]
      show "part_inv cmp xs ?n"
      proof (cases "?r = 0")
        case True
        then show ?thesis using part_inv_down_eq [OF less.prems(1) le True]
          by (simp only: if_True refl)
      next
        case False
        then have "0 < ?r" using True by simp
        then show ?thesis using part_inv_down_greater [OF less.prems(1) le] False
          by (simp only: if_False)
      qed
    qed (use True b in simp_all)
    have k: "0 < cmp (p_xs ?n ! p_b ?n) (xs ! 0)" if "p_b ?n \<le> p_c ?n"
    proof -
      have lt: "p_b p < p_c p" "p_c p \<le> p_d p" "p_d p < length (p_xs p)"
        using that [unfolded n(3,4)] b True less.prems(1) by (auto simp: part_inv_def)
      then have "p_xs ?n ! p_b p = p_xs p ! p_b p" by (simp add: nth_swp)
      then show ?thesis using less.prems(2) [OF less_imp_le_nat [OF lt(1)]] by (simp only: n(3))
    qed
    have e: "part_down cmp p = part_down cmp ?n"
      using True b by (subst part_down.simps) (simp add: Let_def z)
    have "part_inv cmp xs (part_down cmp ?n) \<and>
      (p_b ?n \<le> p_c (part_down cmp ?n) \<longrightarrow> p_b ?n < p_c (part_down cmp ?n) \<and>
         0 < cmp (p_xs (part_down cmp ?n) ! p_b ?n) (xs ! 0) \<and>
         cmp (p_xs (part_down cmp ?n) ! p_c (part_down cmp ?n)) (xs ! 0) < 0)"
      using n(2,1) k by (rule less.hyps)
    then show ?thesis unfolding e n(3) .
  next
    case False
    then have e: "part_down cmp p = p" by (subst part_down.simps) (auto simp: Let_def z)
    have "p_b p \<noteq> p_c p" if "p_b p \<le> p_c p" using False less.prems(2) [OF that] that by auto
    then show ?thesis unfolding e using False less.prems(1) less.prems(2) by linarith
  qed
qed

lemma partition_loop_inv:
  assumes "part_inv cmp xs p"
  shows "part_inv cmp xs (partition_loop cmp p) \<and>
    p_b (partition_loop cmp p) = Suc (p_c (partition_loop cmp p))"
  using assms
proof (induction cmp p rule: partition_loop.induct)
  case (1 cmp p)
  let ?q = "part_down cmp (part_up cmp p)"
  let ?n = "?q\<lparr>p_xs := swp (p_b ?q) (p_c ?q) (p_xs ?q), p_cnt := True, p_b := p_b ?q + 1,
    p_c := p_c ?q - 1\<rparr>"
  have u: "part_inv cmp xs (part_up cmp p)" and
    ub: "p_b (part_up cmp p) \<le> p_c (part_up cmp p) \<Longrightarrow>
      0 < cmp (p_xs (part_up cmp p) ! p_b (part_up cmp p)) (xs ! 0)"
    using part_up_inv [OF 1(2)] by auto
  note d = part_down_inv [OF u ub]
  show ?case
  proof (cases "p_b ?q > p_c ?q")
    case True
    with d show ?thesis by (subst (1 2 3) partition_loop.simps) (auto simp: Let_def part_inv_def)
  next
    case False
    have "part_inv cmp xs ?n" using d False by (intro part_inv_swap) auto
    from 1(1) [OF refl False this] False show ?thesis
      by (subst (1 2 3) partition_loop.simps) (simp add: Let_def)
  qed
qed

text \<open>Exchanging as many elements as the shorter of two neighbouring regions has swaps the regions.\<close>

lemma vecswap_exchange:
  assumes len: "lo + k + m \<le> length xs"
    and P: "\<And>i. lo \<le> i \<Longrightarrow> i < lo + k \<Longrightarrow> P (xs ! i)"
    and Q: "\<And>i. lo + k \<le> i \<Longrightarrow> i < lo + k + m \<Longrightarrow> Q (xs ! i)"
  defines "ys \<equiv> vecswap lo (lo + k + m - min k m) (min k m) xs"
  shows "lo \<le> i \<Longrightarrow> i < lo + m \<Longrightarrow> Q (ys ! i)"
    and "lo + m \<le> i \<Longrightarrow> i < lo + m + k \<Longrightarrow> P (ys ! i)"
    and "i < lo \<or> lo + k + m \<le> i \<and> i < length xs \<Longrightarrow> ys ! i = xs ! i"
proof -
  let ?r = "min k m"
  have nth: "ys ! i = xs ! (if lo \<le> i \<and> i < lo + ?r then i - lo + (lo + k + m - ?r)
      else if lo + k + m - ?r \<le> i \<and> i < lo + k + m - ?r + ?r then i - (lo + k + m - ?r) + lo else i)"
    if "i < length xs" for i
    unfolding ys_def using len that by (intro nth_vecswap) auto
  show "Q (ys ! i)" if "lo \<le> i" "i < lo + m"
    using that len by (subst nth) (auto intro!: Q simp: min_def)
  show "P (ys ! i)" if "lo + m \<le> i" "i < lo + m + k"
    using that len by (subst nth) (auto intro!: P simp: min_def)
  show "ys ! i = xs ! i" if "i < lo \<or> lo + k + m \<le> i \<and> i < length xs"
    using that len by (subst nth) (auto simp: min_def)
qed

text \<open>After the exchange of blocks the smaller elements are in front and the larger ones at the end.\<close>

lemma part_finish_regions:
  assumes inv: "part_inv cmp xs q" and fin: "p_b q = Suc (p_c q)"
  shows "mset (part_finish q) = mset xs"
    and "i < p_b q - p_a q \<Longrightarrow> cmp (part_finish q ! i) (xs ! 0) < 0"
    and "p_b q - p_a q \<le> i \<Longrightarrow> i < length xs - (p_d q - p_c q) \<Longrightarrow> cmp (part_finish q ! i) (xs ! 0) = 0"
    and "length xs - (p_d q - p_c q) \<le> i \<Longrightarrow> i < length xs \<Longrightarrow> cmp (part_finish q ! i) (xs ! 0) > 0"
proof -
  let ?n = "length xs" and ?a = "p_a q" and ?b = "p_b q" and ?d = "p_d q" and ?c = "p_c q"
  let ?r = "min ?a (?b - ?a)" and ?t = "min (?d - ?c) (?n - ?d - 1)"
  define ys where "ys = vecswap 0 (?b - ?r) ?r (p_xs q)"
  have n: "length (p_xs q) = ?n" using inv mset_eq_length [of "p_xs q" xs] by (simp add: part_inv_def)
  have o: "1 \<le> ?a" "?a \<le> ?b" "?b = Suc ?c" "?c \<le> ?d" "?d < ?n"
    using inv fin n by (auto simp: part_inv_def)
  have f: "part_finish q = vecswap ?b (?n - ?t) ?t ys"
    by (simp add: part_finish_def Let_def n ys_def)
  show "mset (part_finish q) = mset xs"
    using inv o n by (simp add: f ys_def mset_vecswap part_inv_def)
  have e1: "0 + ?a + (?b - ?a) - min ?a (?b - ?a) = ?b - ?r" using o by simp
  have e2: "?b + (?d - ?c) + (?n - ?d - 1) - min (?d - ?c) (?n - ?d - 1) = ?n - ?t" using o by simp
  have l1: "0 + ?a + (?b - ?a) \<le> length (p_xs q)" using o n by simp
  have P: "cmp (p_xs q ! i) (xs ! 0) = 0" if "0 \<le> i" "i < 0 + ?a" for i
    using inv that by (simp add: part_inv_def)
  have Q: "cmp (p_xs q ! i) (xs ! 0) < 0" if "0 + ?a \<le> i" "i < 0 + ?a + (?b - ?a)" for i
    using inv o that by (simp add: part_inv_def)
  note one = vecswap_exchange [OF l1, where P = "\<lambda>x. cmp x (xs ! 0) = 0" and Q = "\<lambda>x. cmp x (xs ! 0) < 0", OF P Q,
      unfolded e1, folded ys_def]
  have ln: "length ys = ?n" by (simp add: ys_def n)
  have l2: "?b + (?d - ?c) + (?n - ?d - 1) \<le> length ys" using o ln by simp
  have P2: "cmp (ys ! i) (xs ! 0) > 0" if "?b \<le> i" "i < ?b + (?d - ?c)" for i
    using inv o that one(3) [of i] n by (simp add: part_inv_def)
  have Q2: "cmp (ys ! i) (xs ! 0) = 0" if "?b + (?d - ?c) \<le> i" "i < ?b + (?d - ?c) + (?n - ?d - 1)" for i
    using inv o that one(3) [of i] n by (simp add: part_inv_def)
  note two = vecswap_exchange [OF l2, where P = "\<lambda>x. cmp x (xs ! 0) > 0" and Q = "\<lambda>x. cmp x (xs ! 0) = 0", OF P2 Q2,
      unfolded e2, folded f]
  show "cmp (part_finish q ! i) (xs ! 0) < 0" if "i < ?b - ?a"
  proof -
    have "i < ?b" using that by simp
    with two(3) [of i] one(1) [of i] that show ?thesis by simp
  qed
  show "cmp (part_finish q ! i) (xs ! 0) = 0" if "?b - ?a \<le> i" "i < ?n - (?d - ?c)"
  proof (cases "i < ?b")
    case True
    with two(3) [of i] one(2) [of i] that o show ?thesis by simp
  next
    case False
    with two(1) [of i] that o show ?thesis by simp
  qed
  show "cmp (part_finish q ! i) (xs ! 0) > 0" if "?n - (?d - ?c) \<le> i" "i < ?n"
    using that two(2) [of i] o by simp
qed

lemma med3_cases: "med3 cmp xs a b c \<in> {a, b, c}"
  by (simp add: med3_def)

lemma pivot_less: "7 \<le> length xs \<Longrightarrow> pivot cmp xs < length xs"
proof -
  assume n: "7 \<le> length xs"
  have m: "a < length xs \<Longrightarrow> b < length xs \<Longrightarrow> c < length xs \<Longrightarrow> med3 cmp xs a b c < length xs" for a b c
    using med3_cases [of cmp xs a b c] by auto
  show ?thesis using n by (auto simp: pivot_def Let_def intro!: m)
qed

context comparator
begin

lemma qsort_part_correct:
  assumes "7 \<le> length xs" and "set xs \<subseteq> S"
  obtains ys where "mset ys = mset xs" "part_inv cmp ys (qsort_part cmp xs)"
    "p_b (qsort_part cmp xs) = Suc (p_c (qsort_part cmp xs))"
proof -
  let ?ys = "swp 0 (pivot cmp xs) xs"
  have m: "mset ?ys = mset xs" using assms pivot_less [of xs cmp] by (cases xs) auto
  have "?ys ! 0 \<in> S"
  proof -
    have "0 < length ?ys" using assms(1) by (simp flip: length_greater_0_conv)
    then have "?ys ! 0 \<in> set ?ys" by (rule nth_mem)
    also have "set ?ys = set xs" using m by (rule mset_eq_setD)
    finally show ?thesis using assms(2) by blast
  qed
  then have "part_inv cmp ?ys (part_start ?ys)"
    using assms by (auto simp: part_inv_def part_start_def cmp_self)
  from partition_loop_inv [OF this] that [OF m] show thesis
    by (simp add: qsort_part_def)
qed

lemma in_order_around:
  assumes p: "p \<in> S" and S: "set lo \<subseteq> S" "set mid \<subseteq> S" "set hi \<subseteq> S"
    and lo: "\<And>x. x \<in> set lo \<Longrightarrow> cmp x p < 0" and mid: "\<And>x. x \<in> set mid \<Longrightarrow> cmp x p = 0"
    and hi: "\<And>x. x \<in> set hi \<Longrightarrow> 0 < cmp x p"
    and ord: "in_order cmp lo" "in_order cmp hi"
  shows "in_order cmp (lo @ mid @ hi)"
proof -
  have le: "cmp x y \<le> 0" if "cmp x p \<le> 0" "0 \<le> cmp y p" "x \<in> S" "y \<in> S" for x y
  proof -
    have "cmp p y \<le> 0" using cmp_sign [OF that(4) p] cmp_sign [OF p that(4)] that(2) by linarith
    with that show ?thesis using cmp_trans p by blast
  qed
  have eq: "cmp x p \<le> 0" "0 \<le> cmp x p" if "x \<in> set mid" for x
    using mid [OF that] by simp_all
  have "in_order cmp mid"
    unfolding in_order_def sorted_wrt_iff_nth_less
  proof (intro allI impI)
    fix i j assume ij: "i < j" "j < length mid"
    have i: "mid ! i \<in> set mid" using ij by (intro nth_mem) linarith
    have j: "mid ! j \<in> set mid" using ij(2) by (rule nth_mem)
    show "cmp (mid ! i) (mid ! j) \<le> 0"
      by (rule le [OF eq(1) [OF i] eq(2) [OF j] subsetD [OF S(2) i] subsetD [OF S(2) j]])
  qed
  moreover have "cmp x y \<le> 0" if "x \<in> set lo" "y \<in> set mid" for x y
    by (rule le [OF less_imp_le [OF lo [OF that(1)]] eq(2) [OF that(2)] subsetD [OF S(1) that(1)]
          subsetD [OF S(2) that(2)]])
  moreover have "cmp x y \<le> 0" if "x \<in> set lo" "y \<in> set hi" for x y
    by (rule le [OF less_imp_le [OF lo [OF that(1)]] less_imp_le [OF hi [OF that(2)]]
          subsetD [OF S(1) that(1)] subsetD [OF S(3) that(2)]])
  moreover have "cmp x y \<le> 0" if "x \<in> set mid" "y \<in> set hi" for x y
    by (rule le [OF eq(1) [OF that(1)] less_imp_le [OF hi [OF that(2)]]
          subsetD [OF S(2) that(1)] subsetD [OF S(3) that(2)]])
  ultimately show ?thesis using ord by (simp add: in_order_append ball_Un)
qed

lemma part_finish_parts:
  assumes inv: "part_inv cmp xs q" and fin: "p_b q = Suc (p_c q)"
  obtains lo mid hi where "part_finish q = lo @ mid @ hi" "length lo = p_b q - p_a q"
    "length hi = p_d q - p_c q" "length hi < length xs" "length lo < length xs"
    "\<And>x. x \<in> set lo \<Longrightarrow> cmp x (xs ! 0) < 0" "\<And>x. x \<in> set mid \<Longrightarrow> cmp x (xs ! 0) = 0"
    "\<And>x. x \<in> set hi \<Longrightarrow> 0 < cmp x (xs ! 0)"
proof -
  let ?n = "length xs" and ?r = "p_b q - p_a q" and ?t = "p_d q - p_c q" and ?zs = "part_finish q"
  note R = part_finish_regions [OF inv fin]
  have zn: "length ?zs = ?n" using R(1) by (rule mset_eq_length)
  have o: "1 \<le> p_a q" "p_d q < ?n" "p_a q \<le> p_b q" "p_c q \<le> p_d q"
    using inv mset_eq_length [of "p_xs q" xs] by (auto simp: part_inv_def)
  then have rt: "?r + ?t < ?n" using fin by linarith
  show thesis
  proof (rule that [of "take ?r ?zs" "take (?n - ?t - ?r) (drop ?r ?zs)" "drop (?n - ?t) ?zs"])
    have "drop (?n - ?t) ?zs = drop (?n - ?t - ?r) (drop ?r ?zs)" using rt by simp
    then show "?zs = take ?r ?zs @ take (?n - ?t - ?r) (drop ?r ?zs) @ drop (?n - ?t) ?zs"
      by (simp only: append_take_drop_id)
    show "cmp x (xs ! 0) < 0" if "x \<in> set (take ?r ?zs)" for x
      using that R(2) rt zn by (auto simp: in_set_conv_nth)
    show "cmp x (xs ! 0) = 0" if "x \<in> set (take (?n - ?t - ?r) (drop ?r ?zs))" for x
    proof -
      obtain i where "i < ?n - ?t - ?r" "x = ?zs ! (?r + i)"
        using \<open>x \<in> set (take (?n - ?t - ?r) (drop ?r ?zs))\<close> rt zn by (auto simp: in_set_conv_nth)
      then show ?thesis using R(3) [of "?r + i"] by simp
    qed
    show "0 < cmp x (xs ! 0)" if "x \<in> set (drop (?n - ?t) ?zs)" for x
      using that R(4) rt zn by (auto simp: in_set_conv_nth)
  qed (use rt zn in auto)
qed

lemma qsort_step:
  assumes "\<not> length xs < 7" and "p_cnt (qsort_part cmp xs)"
    and "part_finish (qsort_part cmp xs) = lo @ mid @ hi"
    and "length lo = p_b (qsort_part cmp xs) - p_a (qsort_part cmp xs)"
    and "length hi = p_d (qsort_part cmp xs) - p_c (qsort_part cmp xs)"
    and "length (lo @ mid @ hi) = length xs"
  shows "qsort cmp xs = (if 1 < length lo then qsort cmp lo else lo) @ mid @
    (if 1 < length hi then qsort cmp hi else hi)"
proof -
  have "length xs - length hi - length lo = length mid" "length xs - length hi = length (lo @ mid)"
    using assms(6) by simp_all
  then show ?thesis
    using assms(1-3) by (simp add: qsort.simps [of cmp xs] Let_def assms(4,5) [symmetric])
qed

lemma qsort_sorts:
  assumes "set xs \<subseteq> S"
  shows "in_order cmp (qsort cmp xs) \<and> mset (qsort cmp xs) = mset xs"
  using assms
proof (induction "length xs" arbitrary: xs rule: less_induct)
  case less
  show ?case
  proof (cases "length xs < 7")
    case True
    with insertion_sorts [OF less.prems] show ?thesis by (simp add: qsort.simps [of cmp xs])
  next
    case long: False
    let ?q = "qsort_part cmp xs"
    have seven: "7 \<le> length xs" using long by linarith
    obtain ys where ys: "mset ys = mset xs" and q: "part_inv cmp ys ?q" "p_b ?q = Suc (p_c ?q)"
      by (rule qsort_part_correct [OF seven less.prems])
    have len: "length ys = length xs" using ys by (rule mset_eq_length)
    show ?thesis
    proof (cases "p_cnt ?q")
      case False
      have m: "mset (p_xs ?q) = mset xs" using q(1) ys unfolding part_inv_def by metis
      have "set (p_xs ?q) \<subseteq> S" using less.prems unfolding mset_eq_setD [OF m] .
      from insertion_sorts [OF this] m have
        "in_order cmp (insertion cmp 1 (p_xs ?q)) \<and> mset (insertion cmp 1 (p_xs ?q)) = mset xs"
        by (simp only:)
      moreover have "qsort cmp xs = insertion cmp 1 (p_xs ?q)"
        using long False by (simp add: qsort.simps [of cmp xs] Let_def)
      ultimately show ?thesis by (simp only:)
    next
      case True
      obtain lo mid hi where z: "part_finish ?q = lo @ mid @ hi" "length lo = p_b ?q - p_a ?q"
        "length hi = p_d ?q - p_c ?q" and lt: "length hi < length ys" "length lo < length ys"
        and reg: "\<And>x. x \<in> set lo \<Longrightarrow> cmp x (ys ! 0) < 0" "\<And>x. x \<in> set mid \<Longrightarrow> cmp x (ys ! 0) = 0"
          "\<And>x. x \<in> set hi \<Longrightarrow> 0 < cmp x (ys ! 0)"
        by (rule part_finish_parts [OF q]) (rule that; assumption)
      have m: "mset (lo @ mid @ hi) = mset xs" using part_finish_regions(1) [OF q] ys z(1) by simp
      have "set lo \<union> set mid \<union> set hi = set xs" using mset_eq_setD [OF m] by auto
      then have S: "set lo \<subseteq> S" "set mid \<subseteq> S" "set hi \<subseteq> S" using less.prems by auto
      have "ys ! 0 \<in> set ys" using lt by (intro nth_mem) linarith
      then have p: "ys ! 0 \<in> S" using less.prems mset_eq_setD [OF ys] by auto
      define lo' hi' where "lo' = (if 1 < length lo then qsort cmp lo else lo)"
        and "hi' = (if 1 < length hi then qsort cmp hi else hi)"
      have lo': "in_order cmp lo'" "mset lo' = mset lo"
        using less.hyps [OF lt(2) [unfolded len] S(1)] in_order_short [of lo cmp] by (auto simp: lo'_def)
      have hi': "in_order cmp hi'" "mset hi' = mset hi"
        using less.hyps [OF lt(1) [unfolded len] S(3)] in_order_short [of hi cmp] by (auto simp: hi'_def)
      have res: "qsort cmp xs = lo' @ mid @ hi'"
        unfolding lo'_def hi'_def using long True z mset_eq_length [OF m] by (rule qsort_step)
      have "in_order cmp (lo' @ mid @ hi')"
        using S reg mset_eq_setD [OF lo'(2)] mset_eq_setD [OF hi'(2)]
        by (intro in_order_around [OF p _ _ _ _ _ _ lo'(1) hi'(1)]) simp_all
      moreover have "mset (lo' @ mid @ hi') = mset xs" using lo'(2) hi'(2) m by simp
      ultimately show ?thesis by (simp only: res)
    qed
  qed
qed

end

section \<open>Properties\<close>

text \<open>
  C27. \<^verbatim>\<open>qsort\<close> returns, and the array it leaves behind holds the same elements as before, each as
  often, in ascending order of the comparison function. It asks of the comparison only that
  exchanging the arguments changes the sign and that it is transitive on the elements of the
  array; elements that compare equal may come in any order.
\<close>

theorem qsort_correct:
  fixes cmp :: "'a \<Rightarrow> 'a \<Rightarrow> int"
  assumes sign: "\<And>x y. x \<in> set xs \<Longrightarrow> y \<in> set xs \<Longrightarrow> 0 < cmp x y \<longleftrightarrow> cmp y x < 0"
    and trans: "\<And>x y z. x \<in> set xs \<Longrightarrow> y \<in> set xs \<Longrightarrow> z \<in> set xs \<Longrightarrow>
      cmp x y \<le> 0 \<Longrightarrow> cmp y z \<le> 0 \<Longrightarrow> cmp x z \<le> 0"
  shows "mset (qsort cmp xs) = mset xs \<and>
    (\<forall>i j. i < j \<and> j < length xs \<longrightarrow> cmp (qsort cmp xs ! i) (qsort cmp xs ! j) \<le> 0)"
proof -
  have "comparator cmp (set xs)" by unfold_locales (use sign trans in blast)+
  from comparator.qsort_sorts [OF this subset_refl] show ?thesis
    using mset_eq_length [of "qsort cmp xs" xs] by (auto simp: in_order_def sorted_wrt_iff_nth_less)
qed

theorem qsort_correct_witness:
  "mset (qsort (\<lambda>x y. x - y) [4, 9, 1, 7, 3, 8, 2, 6 :: int]) = mset [4, 9, 1, 7, 3, 8, 2, 6] \<and>
   qsort (\<lambda>x y. x - y) [4, 9, 1, 7, 3, 8, 2, 6 :: int] ! 2
     - qsort (\<lambda>x y. x - y) [4, 9, 1, 7, 3, 8, 2, 6] ! 5 \<le> 0"
  using qsort_correct [of "[4, 9, 1, 7, 3, 8, 2, 6 :: int]" "\<lambda>x y. x - y"] by auto

end
