(* ===== verification/Libc_Stdlib.thy ===== *)
theory Libc_Stdlib
  imports Libc_Qsort Cmem
begin

text \<open>
  Number conversion, binary search and exit hooks of the C library, \<^verbatim>\<open>libc/stdlib.c\<close>. Strings are
  lists of bytes; the closing zero is what reading past the end of the list gives.
\<close>

section \<open>Operations\<close>

definition ch :: "u8 list \<Rightarrow> nat \<Rightarrow> u8" where
  "ch s i = (if i < length s then s ! i else 0)"

definition is_dec :: "u8 \<Rightarrow> bool" where "is_dec c \<longleftrightarrow> 48 \<le> c \<and> c \<le> 57"
definition is_hex :: "u8 \<Rightarrow> bool" where
  "is_hex c \<longleftrightarrow> is_dec c \<or> (97 \<le> c \<and> c \<le> 102) \<or> (65 \<le> c \<and> c \<le> 70)"

definition hex_digit_value :: "u8 \<Rightarrow> u64" where
  "hex_digit_value c =
     (if is_dec c then ucast c - 48
      else if 97 \<le> c \<and> c \<le> 102 then ucast c - 97 + 10
      else if 65 \<le> c \<and> c \<le> 70 then ucast c - 65 + 10
      else 0)"

text \<open>
  The loops test after the first character: the first one is converted whatever it is. They
  return the value and the rest of the string.
\<close>

fun hex_digits :: "u64 \<Rightarrow> u8 list \<Rightarrow> u64 \<times> u8 list" where
  "hex_digits v [] = (v, [])"
| "hex_digits v (c # cs) =
     (if is_hex c then hex_digits (push_bit 4 v + hex_digit_value c) cs else (v, c # cs))"

fun dec_digits :: "u64 \<Rightarrow> u8 list \<Rightarrow> u64 \<times> u8 list" where
  "dec_digits v [] = (v, [])"
| "dec_digits v (c # cs) =
     (if is_dec c then dec_digits (v * 10 + (ucast c - 48)) cs else (v, c # cs))"

definition clamp :: "u64 \<Rightarrow> u64 \<Rightarrow> u64 \<Rightarrow> u64" where
  "clamp mn mx v = (let v = (if v < mn then mn else v) in if mx \<noteq> 0 \<and> mx < v then mx else v)"

definition stdlib_hex :: "u8 list \<Rightarrow> u64 \<Rightarrow> u64 \<Rightarrow> u64 \<times> u8 list" where
  "stdlib_hex s mn mx =
     (let s = (if ch s 0 = 48 \<and> ch s 1 = 120 then drop 2 s else s);
          (v, r) = hex_digits (hex_digit_value (ch s 0)) (drop 1 s)
      in (clamp mn mx v, r))"

definition stdlib_dec :: "u8 list \<Rightarrow> u64 \<Rightarrow> u64 \<Rightarrow> u64 \<times> u8 list" where
  "stdlib_dec s mn mx =
     (if ch s 0 = 48 \<and> ch s 1 = 120 then stdlib_hex (drop 2 s) mn mx
      else let (v, r) = dec_digits (ucast (ch s 0) - 48) (drop 1 s) in (clamp mn mx v, r))"

text \<open>\<^verbatim>\<open>atoi\<close> keeps the low 32 bits of the result, \<^verbatim>\<open>atol\<close> all 64.\<close>

definition atoi :: "u8 list \<Rightarrow> u32" where
  "atoi c = (if ch c 0 = 45 then ucast (- fst (stdlib_dec (drop 1 c) 0 0xFFFFFFFF))
             else ucast (fst (stdlib_dec c 0 0xFFFFFFFF)))"

definition atol :: "u8 list \<Rightarrow> u64" where
  "atol c = (if ch c 0 = 45 then - fst (stdlib_dec (drop 1 c) 0 (- 1))
             else fst (stdlib_dec c 0 (- 1)))"

function bsearch_loop :: "('k \<Rightarrow> 'a \<Rightarrow> int) \<Rightarrow> 'k \<Rightarrow> 'a list \<Rightarrow> nat \<Rightarrow> nat \<Rightarrow> nat option" where
  "bsearch_loop cmp key xs s e =
     (if s < e
      then let m = s + (e - s) div 2; r = cmp key (xs ! m) in
           if r < 0 then bsearch_loop cmp key xs s m
           else if 0 < r then bsearch_loop cmp key xs (m + 1) e
           else Some m
      else None)"
  by pat_completeness auto

termination
proof (relation "measure (\<lambda>(cmp, key, xs, s, e). e - s)", goal_cases)
  case (2 cmp key xs s e m r)
  then have "(e - s) div 2 < e - s" by simp
  then show ?case unfolding 2(2) in_measure by simp
next
  case (3 cmp key xs s e m r)
  then have "s < e" by simp
  then show ?case unfolding 3(2) in_measure by simp
qed simp

definition bsearch :: "('k \<Rightarrow> 'a \<Rightarrow> int) \<Rightarrow> 'k \<Rightarrow> 'a list \<Rightarrow> nat option" where
  "bsearch cmp key xs = bsearch_loop cmp key xs 0 (length xs)"

section \<open>Searching a sorted array\<close>

context comparator
begin

lemma above:
  assumes "in_order cmp ys" and "set ys \<subseteq> S" and "key \<in> S" and "i \<le> j" and "j < length ys"
    and "cmp key (ys ! i) < 0"
  shows "cmp key (ys ! j) < 0"
proof (cases "i = j")
  case False
  then have ij: "cmp (ys ! i) (ys ! j) \<le> 0"
    using assms by (simp add: in_order_def sorted_wrt_iff_nth_less)
  have S: "ys ! i \<in> S" "ys ! j \<in> S" using assms by (auto intro: subsetD [OF _ nth_mem])
  show ?thesis
  proof (rule ccontr)
    assume "\<not> cmp key (ys ! j) < 0"
    then have "cmp (ys ! j) key \<le> 0" using cmp_sign [OF S(2) assms(3)] by linarith
    then have "cmp (ys ! i) key \<le> 0" using cmp_trans [OF S assms(3)] ij by blast
    then show False using cmp_sign [OF S(1) assms(3)] assms(6) by linarith
  qed
qed (use assms in simp)

lemma below:
  assumes "in_order cmp ys" and "set ys \<subseteq> S" and "key \<in> S" and "i \<le> j" and "j < length ys"
    and "0 < cmp key (ys ! j)"
  shows "0 < cmp key (ys ! i)"
proof (cases "i = j")
  case False
  then have ij: "cmp (ys ! i) (ys ! j) \<le> 0"
    using assms by (simp add: in_order_def sorted_wrt_iff_nth_less)
  have S: "ys ! i \<in> S" "ys ! j \<in> S" using assms by (auto intro: subsetD [OF _ nth_mem])
  show ?thesis
  proof (rule ccontr)
    assume "\<not> 0 < cmp key (ys ! i)"
    then have "cmp key (ys ! j) \<le> 0" using cmp_trans [OF assms(3) S] ij by linarith
    with assms(6) show False by simp
  qed
qed (use assms in simp)

lemma bsearch_loop_correct:
  assumes "in_order cmp ys" and "set ys \<subseteq> S" and "key \<in> S" and "e \<le> length ys"
    and "\<forall>i < s. 0 < cmp key (ys ! i)" and "\<forall>i < length ys. e \<le> i \<longrightarrow> cmp key (ys ! i) < 0"
  shows "case bsearch_loop cmp key ys s e of
      Some i \<Rightarrow> i < length ys \<and> cmp key (ys ! i) = 0
    | None \<Rightarrow> \<forall>x \<in> set ys. cmp key x \<noteq> 0"
  using assms
proof (induction "e - s" arbitrary: s e rule: less_induct)
  case less
  note ord = less.prems(1,2,3)
  let ?m = "s + (e - s) div 2"
  show ?case
  proof (cases "s < e")
    case False
    then have "cmp key (ys ! i) \<noteq> 0" if "i < length ys" for i
      using less.prems(5,6) that by (cases "i < s") force+
    then have "\<forall>x \<in> set ys. cmp key x \<noteq> 0" by (auto simp: in_set_conv_nth)
    with False show ?thesis by (subst bsearch_loop.simps) simp
  next
    case True
    then have m: "?m < e" "s \<le> ?m" "?m < length ys" using less.prems(4) by auto
    consider "cmp key (ys ! ?m) < 0" | "0 < cmp key (ys ! ?m)" | "cmp key (ys ! ?m) = 0" by linarith
    then show ?thesis
    proof cases
      case lt: 1
      have "case bsearch_loop cmp key ys s ?m of Some i \<Rightarrow> i < length ys \<and> cmp key (ys ! i) = 0
        | None \<Rightarrow> \<forall>x \<in> set ys. cmp key x \<noteq> 0"
        by (rule less.hyps) (use m less.prems ord lt in \<open>auto intro: above [OF ord]\<close>)
      with lt True show ?thesis by (subst bsearch_loop.simps) (simp add: Let_def)
    next
      case gt: 2
      have lo: "0 < cmp key (ys ! i)" if "i < ?m + 1" for i
        using below [OF ord _ m(3) gt, of i] that by simp
      have "case bsearch_loop cmp key ys (?m + 1) e of Some i \<Rightarrow> i < length ys \<and> cmp key (ys ! i) = 0
        | None \<Rightarrow> \<forall>x \<in> set ys. cmp key x \<noteq> 0"
        by (rule less.hyps) (use True m less.prems ord lo in auto)
      with gt True show ?thesis by (subst bsearch_loop.simps) (simp add: Let_def)
    next
      case 3
      with True m show ?thesis by (subst bsearch_loop.simps) (simp add: Let_def)
    qed
  qed
qed

lemma bsearch_qsort_correct:
  assumes "set xs \<subseteq> S" and "key \<in> S"
  shows "case bsearch cmp key (qsort cmp xs) of
      Some i \<Rightarrow> i < length xs \<and> cmp key (qsort cmp xs ! i) = 0
    | None \<Rightarrow> \<forall>x \<in> set xs. cmp key x \<noteq> 0"
proof -
  have q: "in_order cmp (qsort cmp xs)" "mset (qsort cmp xs) = mset xs" using qsort_sorts [OF assms(1)] by auto
  then have s: "set (qsort cmp xs) = set xs" "length (qsort cmp xs) = length xs"
    by (auto dest: mset_eq_setD mset_eq_length)
  have "case bsearch_loop cmp key (qsort cmp xs) 0 (length (qsort cmp xs)) of
      Some i \<Rightarrow> i < length (qsort cmp xs) \<and> cmp key (qsort cmp xs ! i) = 0
    | None \<Rightarrow> \<forall>x \<in> set (qsort cmp xs). cmp key x \<noteq> 0"
    by (rule bsearch_loop_correct) (use q(1) s assms in auto)
  then show ?thesis unfolding bsearch_def s .
qed

end

text \<open>
  C33. Sorting an array with \<^verbatim>\<open>qsort\<close> and searching it with \<^verbatim>\<open>bsearch\<close> work together, for every comparison
  function that orders the elements and the key: the search ends, an index it returns lies inside the
  array and holds an element equal to the key, and when it returns nothing, no element of the
  original array is equal to the key.
\<close>

theorem bsearch_of_qsort:
  fixes cmp :: "'a \<Rightarrow> 'a \<Rightarrow> int"
  assumes sign: "\<And>x y. x \<in> insert key (set xs) \<Longrightarrow> y \<in> insert key (set xs) \<Longrightarrow> 0 < cmp x y \<longleftrightarrow> cmp y x < 0"
    and trans: "\<And>x y z. x \<in> insert key (set xs) \<Longrightarrow> y \<in> insert key (set xs) \<Longrightarrow> z \<in> insert key (set xs) \<Longrightarrow>
      cmp x y \<le> 0 \<Longrightarrow> cmp y z \<le> 0 \<Longrightarrow> cmp x z \<le> 0"
  shows "case bsearch cmp key (qsort cmp xs) of
      Some i \<Rightarrow> i < length xs \<and> cmp key (qsort cmp xs ! i) = 0
    | None \<Rightarrow> \<forall>x \<in> set xs. cmp key x \<noteq> 0"
proof -
  have "comparator cmp (insert key (set xs))" by unfold_locales (use sign trans in blast)+
  then show ?thesis by (rule comparator.bsearch_qsort_correct) auto
qed

theorem bsearch_of_qsort_witness:
  "\<exists>i. bsearch (\<lambda>x y. x - y) 7 (qsort (\<lambda>x y. x - y) [4, 9, 1, 7, 3 :: int]) = Some i \<and>
     7 - qsort (\<lambda>x y. x - y) [4, 9, 1, 7, 3] ! i = 0"
  using bsearch_of_qsort [of 7 "[4, 9, 1, 7, 3 :: int]" "\<lambda>x y. x - y"] by (auto split: option.splits)

end
