(* ===== verification/Core_Env.thy ===== *)
theory Core_Env
  imports Core_State Core_Sprintf Libc_Stdlib
begin

text \<open>
  Boot parameters, \<^verbatim>\<open>core/env.c\<close>, for the x86_64 ibmpc platform and a debug build: the settings the
  core reads from the page of text the loader leaves in \<^verbatim>\<open>environment\<close>, the date editor and the
  conversion of the boot date to a time stamp. The text is a list of bytes that
  starts at the read pointer; what lies behind the list reads as zero. Output on the console is not part of the model.
\<close>

section \<open>State\<close>

text \<open>The fields of the loader's structure that the parser uses.\<close>

record bootboot_t =
  bb_magic :: "u8 list"
  bb_size :: u32
  bb_timezone :: u16
  bb_datetime :: "u8 list"
  bb_arch :: "u64 list"

text \<open>
  The variables of \<^verbatim>\<open>env.c\<close>; \<^verbatim>\<open>quantum\<close>, \<^verbatim>\<open>dmabuf\<close>, \<^verbatim>\<open>clock_tz\<close>, \<^verbatim>\<open>numcores\<close> and \<^verbatim>\<open>srand\<close> are part of the
  state of the core.
\<close>

record env_t =
  core :: kstate
  debug :: u64
  display :: u64
  flags :: u64
  lang :: "u8 list"
  display_drv :: "u8 list"
  display_env :: "u8 list"
  asktime :: bool
  datetime :: "u8 list"
  systables :: "nat \<Rightarrow> u64"

definition FLAG_ASLR :: u64 where "FLAG_ASLR = 1"
definition FLAG_SYSLOG :: u64 where "FLAG_SYSLOG = 2"
definition FLAG_INET :: u64 where "FLAG_INET = 4"
definition FLAG_SOUND :: u64 where "FLAG_SOUND = 8"
definition FLAG_PRINT :: u64 where "FLAG_PRINT = 16"
definition FLAG_RESCUESH :: u64 where "FLAG_RESCUESH = 32"
definition FLAG_SPACEMODE :: u64 where "FLAG_SPACEMODE = 64"

definition PBT_MONO_MONO :: u64 where "PBT_MONO_MONO = 0"
definition PBT_MONO_COLOR :: u64 where "PBT_MONO_COLOR = 1"
definition PBT_STEREO_MONO :: u64 where "PBT_STEREO_MONO = 2"
definition PBT_STEREO_COLOR :: u64 where "PBT_STEREO_COLOR = 3"

lemmas flag_defs = FLAG_ASLR_def FLAG_SYSLOG_def FLAG_INET_def FLAG_SOUND_def FLAG_PRINT_def
  FLAG_RESCUESH_def FLAG_SPACEMODE_def

lemmas pbt_defs = PBT_MONO_MONO_def PBT_MONO_COLOR_def PBT_STEREO_MONO_def PBT_STEREO_COLOR_def

section \<open>The boot date\<close>

text \<open>
  \<^verbatim>\<open>char\<close> is signed: shifting it right keeps the sign, as the division by 16 of the signed value
  does, and the low four bits are the remainder.
\<close>

definition bcd_val :: "u8 \<Rightarrow> int" where
  "bcd_val b = (sint b div 16) * 10 + sint b mod 16"

definition ts_is_bcd :: "u8 list \<Rightarrow> bool" where
  "ts_is_bcd p \<longleftrightarrow> 0x20 \<le> sint (p ! 0) \<and> sint (p ! 0) \<le> 0x30 \<and> p ! 1 \<le> 0x99 \<and>
     0x01 \<le> sint (p ! 2) \<and> sint (p ! 2) \<le> 0x12 \<and> 0x01 \<le> sint (p ! 3) \<and> sint (p ! 3) \<le> 0x31 \<and>
     sint (p ! 4) \<le> 0x23 \<and> sint (p ! 5) \<le> 0x59 \<and> sint (p ! 6) \<le> 0x60"

definition ts_year :: "u8 list \<Rightarrow> u64" where
  "ts_year p =
     (if ts_is_bcd p
      then of_int ((sint (p ! 0) div 16) * 1000 + (sint (p ! 0) mod 16) * 100 + bcd_val (p ! 1))
      else of_int (sint (p ! 1) * 256 + sint (p ! 0)))"

definition ts_field :: "u8 list \<Rightarrow> nat \<Rightarrow> u64" where
  "ts_field p k = of_int (if ts_is_bcd p then bcd_val (p ! k) else sint (p ! k))"

definition year_days :: "u64 \<Rightarrow> u64" where
  "year_days j = (if j AND 3 \<noteq> 0 then 365
     else if j mod 100 = 0 \<and> j mod 400 \<noteq> 0 then 365 else 366)"

text \<open>The loop over the years since 2016.\<close>

function add_years :: "u64 \<Rightarrow> u64 \<Rightarrow> u64 \<Rightarrow> u64" where
  "add_years j y r = (if j < y then add_years (j + 1) y (r + year_days j) else r)"
  by pat_completeness auto
termination
  by (relation "measure (\<lambda>(j, y, r). unat y - unat j)") (auto simp: u64_step_up word_less_nat_alt)

definition feb_days :: "u64 \<Rightarrow> u64" where
  "feb_days y = (if y AND 3 \<noteq> 0 then 28
     else if y mod 100 = 0 \<and> y mod 400 \<noteq> 0 then 28 else 29)"

definition md :: "u64 \<Rightarrow> u64 list" where
  "md y = [31, feb_days y, 31, 30, 31, 30, 31, 31, 30, 31, 30, 31]"

text \<open>
  \<open>env_getts p tz\<close>: the loop over the months reads the table of lengths, so a month beyond 13, which
  the binary form may hold, leaves the table (\<open>None\<close>).
\<close>

definition env_getts :: "u8 list \<Rightarrow> u16 \<Rightarrow> u64 option" where
  "env_getts p tz = (
     let tz = (if sint tz < - 1440 \<or> 1440 < sint tz then 0 else tz);
         y = ts_year p; m = ts_field p 2; d = ts_field p 3;
         h = ts_field p 4; i = ts_field p 5; s = ts_field p 6
     in if 13 < m then None
        else let r = add_years 2016 y 16801;
                 r = r + sum_list (take (unat m - 1) (md y));
                 r = (r + (d - 1)) * (24 * 60 * 60)
             in Some (r + (h * 60 * 60 + (scast tz + i) * 60 + s)))"

section \<open>Parsing values\<close>

definition skip_blanks :: "u8 list \<Rightarrow> u8 list" where
  "skip_blanks s = dropWhile (\<lambda>c. c = 32 \<or> c = 9) s"

text \<open>The value \<open>v\<close> is not cleared before hexadecimal digits are read.\<close>

definition env_hex :: "u8 list \<Rightarrow> u64 \<Rightarrow> u64 \<Rightarrow> u64 \<Rightarrow> u64 \<times> u8 list" where
  "env_hex s v mn mx = (
     let s = skip_blanks s;
         s = (if ch s 0 = 48 \<and> ch s 1 = 120 then drop 2 s else s);
         (v, r) = hex_digits (push_bit 4 v + hex_digit_value (ch s 0)) (drop 1 s)
     in (clamp mn mx v, r))"

definition env_dec :: "u8 list \<Rightarrow> u64 \<Rightarrow> u64 \<Rightarrow> u64 \<Rightarrow> u64 \<times> u8 list" where
  "env_dec s v mn mx = (
     let s = skip_blanks s
     in if ch s 0 = 48 \<and> ch s 1 = 120 then env_hex (drop 2 s) v mn mx
        else let (v, r) = dec_digits (ucast (ch s 0) - 48) (drop 1 s) in (clamp mn mx v, r))"

text \<open>
  The next parsers use a local variable that is not initialised: \<open>stk\<close> is what it happens to hold.
\<close>

definition env_tz :: "u64 \<Rightarrow> u8 list \<Rightarrow> env_t \<Rightarrow> u8 list \<times> env_t" where
  "env_tz stk s e = (
     let s = skip_blanks s; neg = (ch s 0 = 45); s = (if neg then drop 1 s else s)
     in if is_dec (ch s 0)
        then let (v, r) = env_dec s stk 0 1440
             in (r, e\<lparr>core := (core e)\<lparr>clock_tz := ucast (if neg then - v else v)\<rparr>, asktime := False\<rparr>)
        else if ch s 0 = 97
        then (drop 1 s, e\<lparr>core := (core e)\<lparr>clock_tz := 0\<rparr>, asktime := True\<rparr>)
        else (drop 1 s, e))"

definition says_no :: "u8 list \<Rightarrow> bool" where
  "says_no s \<longleftrightarrow> ch s 0 \<in> set (chars ''0fFnNhHkKdD'')
     \<or> (ch s 0 = 111 \<and> ch s 1 = 102) \<or> (ch s 0 = 79 \<and> ch s 1 = 70)"

definition env_bool :: "u64 \<Rightarrow> u8 list \<Rightarrow> env_t \<Rightarrow> u8 list \<times> env_t" where
  "env_bool flag s e = (
     let s = skip_blanks s
     in (drop 1 s, if says_no s then e else e\<lparr>flags := flags e OR flag\<rparr>))"

text \<open>\<open>put_at i bs a\<close> copies bytes into the array \<open>a\<close> from index \<open>i\<close> on.\<close>

definition put_at :: "nat \<Rightarrow> u8 list \<Rightarrow> u8 list \<Rightarrow> u8 list" where
  "put_at i bs a = take i a @ bs @ drop (i + length bs) a"

definition two :: "u8 list \<Rightarrow> string \<Rightarrow> bool" where
  "two s k \<longleftrightarrow> [ch s 0, ch s 1] = chars k"

definition display_flag :: "u8 list \<Rightarrow> u64" where
  "display_flag s =
     (if two s ''vr'' \<or> two s ''sc'' then PBT_STEREO_COLOR
      else if two s ''an'' \<or> two s ''sm'' then PBT_STEREO_MONO
      else if two s ''mc'' then PBT_MONO_COLOR
      else if two s ''mm'' then PBT_MONO_MONO else 1)"

definition not_eol :: "u8 \<Rightarrow> bool" where "not_eol c \<longleftrightarrow> c \<noteq> 0 \<and> c \<noteq> 10"

text \<open>
  The name of the driver stops at a separator, or where only the four bytes of the suffix are left of the 128;
  a colon starts the value of the variable for the display.
\<close>

definition env_display_drv :: "u8 list \<Rightarrow> env_t \<Rightarrow> u8 list \<times> env_t" where
  "env_display_drv s e = (
     let nm = take 107 (takeWhile (\<lambda>c. not_eol c \<and> c \<notin> {47, 46, 58}) s);
         drv = put_at 17 nm (put_at 0 (chars ''/sys/drv/display/'') (display_drv e));
         t = 17 + length nm; s = drop (length nm) s
     in if ch s 0 = 58
        then let s = drop 1 s; v = take 127 (takeWhile not_eol s)
             in (dropWhile not_eol (drop (length v) s),
                 e\<lparr>display_env := put_at 0 (v @ [0]) (display_env e),
                   display_drv := put_at (17 + 6) (chars ''.so'' @ [0]) (put_at 17 (chars ''remote'') drv)\<rparr>)
        else (dropWhile not_eol s, e\<lparr>display_drv := put_at t (chars ''.so'' @ [0]) drv\<rparr>))"

definition env_display :: "u64 \<Rightarrow> u8 list \<Rightarrow> env_t \<Rightarrow> u8 list \<times> env_t" where
  "env_display stk s e = (
     let s = skip_blanks s;
         (s, e) = (if is_dec (ch s 0)
                   then let (v, r) = env_dec s stk 0 3 in (r, e\<lparr>display := ucast (ucast v :: u8)\<rparr>)
                   else (dropWhile (\<lambda>c. not_eol c \<and> c \<noteq> 44) s, e\<lparr>display := display_flag s\<rparr>))
     in if ch s 0 = 44 then env_display_drv (drop 1 s) e else (s, e))"

definition is_lang_char :: "u8 \<Rightarrow> bool" where
  "is_lang_char c \<longleftrightarrow> (97 \<le> c \<and> c \<le> 122) \<or> (65 \<le> c \<and> c \<le> 90) \<or> c = 95"

definition env_lang :: "u8 list \<Rightarrow> env_t \<Rightarrow> u8 list \<times> env_t" where
  "env_lang s e = (
     let s = skip_blanks s; nm = take 5 (takeWhile is_lang_char s);
         l = put_at 0 nm (put_at 0 [0] (lang e))
     in (drop (length nm) s,
         e\<lparr>lang := (if length nm < 2 then put_at 0 (chars ''en'' @ [0]) l
                    else put_at (length nm) [0] l)\<rparr>))"

text \<open>The flags of \<^verbatim>\<open>debug.h\<close>, by the two letters that select them at any place of the value.\<close>

definition debug_keys :: "(string \<times> u64) list" where
  "debug_keys = [(''de'', 2 ^ 7), (''lo'', 2 ^ 10), (''pr'', 2 ^ 0), (''ms'', 2 ^ 9), (''mm'', 2 ^ 1),
     (''ta'', 2 ^ 2), (''el'', 2 ^ 3), (''ir'', 2 ^ 6), (''sc'', 2 ^ 8), (''pm'', 2 ^ 11), (''vm'', 2 ^ 12),
     (''ma'', 2 ^ 13), (''bl'', 2 ^ 14), (''fi'', 2 ^ 15), (''fs'', 2 ^ 16), (''ui'', 2 ^ 18), (''te'', 2 ^ 19)]"

definition debug_bits :: "u8 list \<Rightarrow> u64" where
  "debug_bits s =
     foldr (\<lambda>(k, b) x. if two s k then b OR x else x) debug_keys
       ((if ch s 0 = 114 \<and> (ch s 1 = 105 \<or> ch s 2 = 105) then 2 ^ 4 else 0) OR
        (if ch s 0 = 114 \<and> (ch s 1 = 101 \<or> ch s 2 = 101) then 2 ^ 5 else 0))"

fun debug_loop :: "u64 \<Rightarrow> u8 list \<Rightarrow> u64 \<times> u8 list" where
  "debug_loop d [] = (d, [])"
| "debug_loop d (c # cs) =
     (if \<not> not_eol c then (d, c # cs)
      else if c = 32 \<or> c = 9 \<or> c = 44 then debug_loop d cs
      else if two (c # cs) ''fa'' \<or> two (c # cs) ''no'' \<or> two (c # cs) ''ne'' then (0, c # cs)
      else debug_loop (d OR debug_bits (c # cs)) cs)"

definition env_debug :: "u64 \<Rightarrow> u8 list \<Rightarrow> env_t \<Rightarrow> u8 list \<times> env_t" where
  "env_debug stk s e =
     (if is_dec (ch s 0)
      then let (v, r) = env_dec s stk 0 0xFFFF in (r, e\<lparr>debug := ucast (ucast v :: u16)\<rparr>)
      else let (d, r) = debug_loop 0 s in (r, e\<lparr>debug := d\<rparr>))"

section \<open>The date editor\<close>

definition fix_date :: "u8 list \<Rightarrow> u8 list" where
  "fix_date p = (
     let p = (if p ! 2 < 0x01 then p[2 := 0x12] else p);
         p = (if 0x12 < p ! 2 then p[2 := 0x01] else p);
         p = (if p ! 3 < 0x01 then p[3 := 0x31] else p);
         p = (if 0x31 < p ! 3 then p[3 := 0x01] else p);
         p = (if 0x23 < p ! 4 then p[4 := 0x23] else p);
         p = (if 0x59 < p ! 5 then p[5 := 0x59] else p)
     in if 0x59 < p ! 6 then p[6 := 0x59] else p)"

definition put_digit :: "u8 \<Rightarrow> nat \<Rightarrow> u8 list \<Rightarrow> u8 list" where
  "put_digit c i p = p[i div 2 :=
     (p ! (i div 2) AND (if odd i then 0xF0 else 0xF)) OR (if odd i then c else c * 16)]"

definition tz_wrap :: "u16 \<Rightarrow> u16" where
  "tz_wrap z = (let z = (if sint z < - 1440 then 1440 else z) in if 1440 < sint z then - 1440 else z)"

definition env_asktime_setdigit :: "u8 \<Rightarrow> nat \<Rightarrow> env_t \<Rightarrow> env_t" where
  "env_asktime_setdigit c i e = (
     let c = (if 57 < c then 48 else c); c = (if c < 48 then 57 else c); c = c - 48;
         z = clock_tz (core e);
         (z, p) =
           (if i = 14 \<or> i = 15 then (if c < 5 then z - 60 else z + 60, datetime e)
            else if i = 16 then (if c < 5 then z - 10 else z + 10, datetime e)
            else if i = 17 then (if c < 5 then z - 1 else z + 1, datetime e)
            else (z, fix_date (put_digit c i (datetime e))))
     in e\<lparr>core := (core e)\<lparr>clock_tz := tz_wrap z\<rparr>, datetime := p\<rparr>)"

text \<open>
  What the editor shows, and the column of the digit with number \<open>k\<close> in it; the cursor stays
  where it was when there is no such digit.
\<close>

definition asktime_text :: "env_t \<Rightarrow> u8 list option" where
  "asktime_text e = (
     let z = clock_tz (core e); p = datetime e; b = (\<lambda>k. AInt (ucast (p ! k)));
         tz = (if sint z < 0 then - scast z else scast z :: u64)
     in sprintf ''%1x%1x-%1x-%1x %1x:%1x:%1x GMT%c%1d%1d:%1d%1d''
          [b 0, b 1, b 2, b 3, b 4, b 5, b 6, AInt (if sint z < 0 then 45 else 43),
           AInt (tz div 600), AInt (tz div 60 mod 10), AInt (tz mod 60 div 10), AInt (tz mod 10)])"

fun digit_column :: "nat \<Rightarrow> nat \<Rightarrow> nat \<Rightarrow> u8 list \<Rightarrow> nat" where
  "digit_column k cur kx [] = cur"
| "digit_column k cur kx (c # t) =
     (if is_dec c then if k = 0 then kx else digit_column (k - 1) cur (kx + 1) t
      else digit_column k cur (kx + 1) t)"

text \<open>
  A key from the keyboard is a scan code, one from the serial line a character with the top bit set, possibly the start of
  an escape sequence. \<open>None\<close> among the keys ends the editor; \<open>None\<close> as a result means that
  the editor still waits.
\<close>

fun asktime_key :: "u16 list \<Rightarrow> (u16 option \<times> u16 list) option" where
  "asktime_key [] = None"
| "asktime_key (c # ks) =
     (if c = 1 \<or> c = 28 then Some (None, ks)
      else if c AND 0x8000 = 0 then Some (Some c, ks)
      else let c = c AND NOT 0x8000
           in if c = 10 \<or> c = 13 then Some (None, ks)
              else if c = 27
              then (case ks of [] \<Rightarrow> None
                    | c2 # ks2 \<Rightarrow>
                        if c2 = 0x801b then Some (None, ks2)
                        else if c2 = 0x805b
                        then (case ks2 of [] \<Rightarrow> None
                              | c3 # ks3 \<Rightarrow>
                                  Some (Some (if c3 = 0x8041 then 328 else if c3 = 0x8042 then 336
                                              else if c3 = 0x8043 then 333 else if c3 = 0x8044 then 331
                                              else 0), ks3))
                        else Some (Some 0, ks2))
              else Some (Some (if 48 \<le> c \<and> c \<le> 57 then c - 47 else c), ks))"

definition asktime_edit :: "u16 \<Rightarrow> u8 \<Rightarrow> nat \<Rightarrow> env_t \<Rightarrow> nat \<times> env_t" where
  "asktime_edit c x k e =
     (if c = 331 then (if 0 < k then k - 1 else k, e)
      else if c = 333 then (if k < 17 then k + 1 else k, e)
      else if c = 328 then (k, env_asktime_setdigit (if k < 14 then x + 1 else 57) k e)
      else if c = 336 then (k, env_asktime_setdigit (if k < 14 then x - 1 else 48) k e)
      else (if k < 17 then k + 1 else k, env_asktime_setdigit (ucast (c + 48 - 1)) k e))"

lemma asktime_key_length: "asktime_key ks = Some (c, ks') \<Longrightarrow> length ks' < length ks"
  by (cases ks) (auto simp: Let_def split: if_splits list.splits)

function asktime_loop :: "nat \<Rightarrow> nat \<Rightarrow> u16 list \<Rightarrow> env_t \<Rightarrow> env_t option" where
  "asktime_loop k cur ks e =
     (case asktime_text e of None \<Rightarrow> None
      | Some t \<Rightarrow>
          let cur = digit_column k cur 0 t
          in case asktime_key ks of None \<Rightarrow> None
             | Some (None, _) \<Rightarrow> Some e
             | Some (Some c, ks') \<Rightarrow>
                 let (k, e) = asktime_edit c (ch t cur) k e in asktime_loop k cur ks' e)"
  by pat_completeness auto
termination
  by (relation "measure (\<lambda>(k, cur, ks, e). length ks)") (auto dest: asktime_key_length)

definition env_asktime :: "u16 list \<Rightarrow> env_t \<Rightarrow> env_t option" where
  "env_asktime ks e = asktime_loop 0 0 ks e"

section \<open>The parser\<close>

definition key_at :: "u8 list \<Rightarrow> string \<Rightarrow> nat \<Rightarrow> bool" where
  "key_at s k n \<longleftrightarrow> list_all (\<lambda>i. ch s i = ch (chars k) i) [0..<n]"

definition platform_parse :: "u8 list \<Rightarrow> u8 list" where
  "platform_parse s = drop 1 s"

definition set_dmabuf :: "u64 \<times> u8 list \<Rightarrow> env_t \<Rightarrow> u8 list \<times> env_t" where
  "set_dmabuf r e = (snd r, e\<lparr>core := (core e)\<lparr>dmabuf := fst r\<rparr>\<rparr>)"

definition set_quantum :: "u64 \<times> u8 list \<Rightarrow> env_t \<Rightarrow> u8 list \<times> env_t" where
  "set_quantum r e = (snd r, e\<lparr>core := (core e)\<lparr>quantum := fst r\<rparr>\<rparr>)"

text \<open>The keys, each with the number of bytes the code compares and skips.\<close>

definition env_key :: "u64 \<Rightarrow> u8 list \<Rightarrow> env_t \<Rightarrow> u8 list \<times> env_t" where
  "env_key stk s e =
     (if key_at s ''tz='' 3 then env_tz stk (drop 3 s) e
      else if key_at s ''lang='' 5 then env_lang (drop 5 s) e
      else if key_at s ''dmabuf='' 7 then set_dmabuf (env_dec (drop 7 s) (dmabuf (core e)) 0 2048) e
      else if key_at s ''aslr='' 5 then env_bool FLAG_ASLR (drop 5 s) e
      else if key_at s ''syslog='' 7 then env_bool FLAG_SYSLOG (drop 7 s) e
      else if key_at s ''internet='' 10 then env_bool FLAG_INET (drop 10 s) e
      else if key_at s ''sound='' 6 then env_bool FLAG_SOUND (drop 6 s) e
      else if key_at s ''print='' 6 then env_bool FLAG_PRINT (drop 6 s) e
      else if key_at s ''rescueshell='' 12 then env_bool FLAG_RESCUESH (drop 12 s) e
      else if key_at s ''spacemode='' 11 then env_bool FLAG_SPACEMODE (drop 11 s) e
      else if key_at s ''quantum='' 8 then set_quantum (env_dec (drop 8 s) (quantum (core e)) 10 1000000) e
      else if key_at s ''display='' 8 then env_display stk (drop 8 s) e
      else if key_at s ''debug='' 6 then env_debug stk (drop 6 s) e
      else (platform_parse s, e))"

text \<open>
  Comments. The bytes behind the page are the last \<open>n\<close> of the list: the read pointer is inside the page as
  long as more than \<open>n\<close> are left. The loop for the second kind of comment looks at the byte before the
  read pointer, too (\<open>prev\<close>).
\<close>

definition skip_line :: "nat \<Rightarrow> u8 list \<Rightarrow> u8 list" where
  "skip_line n s = drop (length (takeWhile not_eol (take (length s - n) s))) s"

fun skip_block :: "nat \<Rightarrow> u8 \<Rightarrow> u8 list \<Rightarrow> u8 list" where
  "skip_block n prev [] = []"
| "skip_block n prev (c # s) =
     (if n < length (c # s) \<and> c \<noteq> 0 \<and> prev \<noteq> 42 \<and> c \<noteq> 47 then skip_block n c s else c # s)"

definition env_skip_comment :: "nat \<Rightarrow> u8 list \<Rightarrow> u8 list" where
  "env_skip_comment n s = (
     let s = (if two s ''//'' \<or> ch s 0 = 35 then skip_line n s else s)
     in if two s ''/*'' then skip_block n (ch s 1) (drop 2 s) else s)"

definition env_step :: "nat \<Rightarrow> u64 \<Rightarrow> u8 list \<Rightarrow> env_t \<Rightarrow> u8 list \<times> env_t" where
  "env_step n stk s e = (
     let s = env_skip_comment n s
     in if ch s 0 \<in> {13, 10, 9, 32} then (drop 1 s, e) else env_key stk s e)"

text \<open>No parser goes back: what is left is never longer than what it was given.\<close>

lemma skip_blanks_length [simp]: "length (skip_blanks s) \<le> length s"
  by (simp add: skip_blanks_def length_dropWhile_le)

lemma skip_blanks_diff [simp]: "length (skip_blanks s) - k \<le> length s"
  by (rule order_trans [OF diff_le_self skip_blanks_length])

lemma hex_digits_length [simp]: "length (snd (hex_digits v s)) \<le> length s"
  by (induction v s rule: hex_digits.induct) auto

lemma dec_digits_length [simp]: "length (snd (dec_digits v s)) \<le> length s"
  by (induction v s rule: dec_digits.induct) auto

lemma env_hex_length: "length (snd (env_hex s v mn mx)) \<le> length s"
  unfolding env_hex_def Let_def split_beta snd_conv
  by (rule order_trans [OF hex_digits_length]) (use skip_blanks_length [of s] in auto)

lemma env_dec_length: "length (snd (env_dec s v mn mx)) \<le> length s"
proof -
  have "length (snd (env_hex (drop 2 (skip_blanks s)) v mn mx)) \<le> length s"
    by (rule order_trans [OF env_hex_length]) (use skip_blanks_length [of s] in auto)
  moreover have "length (snd (dec_digits w (drop 1 (skip_blanks s)))) \<le> length s" for w
    by (rule order_trans [OF dec_digits_length]) (use skip_blanks_length [of s] in auto)
  ultimately show ?thesis by (simp add: env_dec_def Let_def split_beta)
qed

lemma debug_loop_length: "length (snd (debug_loop d s)) \<le> length s"
  by (induction d s rule: debug_loop.induct) auto

lemma env_tz_length: "length (fst (env_tz stk s e)) \<le> length s"
proof -
  have 1: "length (drop k (skip_blanks s)) \<le> length s" for k
    using skip_blanks_length [of s] by auto
  have 2: "length (snd (env_dec (drop k (skip_blanks s)) stk 0 1440)) \<le> length s" for k
    by (rule order_trans [OF env_dec_length 1])
  show ?thesis using 1 [of 1] 1 [of 2] 2 [of 0] 2 [of 1]
    by (simp add: env_tz_def Let_def split_beta numeral_2_eq_2)
qed

lemma env_bool_length: "length (fst (env_bool f s e)) \<le> length s"
  using skip_blanks_length [of s] by (auto simp: env_bool_def Let_def)

lemma env_display_drv_length: "length (fst (env_display_drv s e)) \<le> length s"
  unfolding env_display_drv_def Let_def
  by (auto intro!: order_trans [OF length_dropWhile_le])

lemma env_display_length: "length (fst (env_display stk s e)) \<le> length s"
proof -
  have "length (snd (env_dec (skip_blanks s) stk 0 3)) \<le> length s"
    by (rule order_trans [OF env_dec_length skip_blanks_length])
  moreover have "length (dropWhile P (skip_blanks s)) \<le> length s" for P
    by (rule order_trans [OF length_dropWhile_le skip_blanks_length])
  moreover have "length (fst (env_display_drv (drop 1 r) e')) \<le> length s" if "length r \<le> length s" for r e'
    by (rule order_trans [OF env_display_drv_length]) (use that in simp)
  ultimately show ?thesis unfolding env_display_def Let_def split_beta by simp
qed

lemma env_lang_length: "length (fst (env_lang s e)) \<le> length s"
  using skip_blanks_length [of s] by (simp add: env_lang_def Let_def)

lemma env_debug_length: "length (fst (env_debug stk s e)) \<le> length s"
  using debug_loop_length [of 0 s] env_dec_length [of s stk 0 "0xFFFF"]
  by (simp add: env_debug_def split_beta Let_def)

lemmas value_length = env_tz_length env_bool_length env_display_length env_lang_length
  env_debug_length env_dec_length

lemma env_key_length: "s \<noteq> [] \<Longrightarrow> length (fst (env_key stk s e)) < length s"
proof -
  assume "s \<noteq> []"
  then have less: "length r < length s" if "length r \<le> length (drop k s)" and "0 < k" for r :: "u8 list" and k
    using that by (cases s) (auto simp: less_Suc_eq_le intro: order_trans)
  have if_less: "length (fst (if P then a else b)) < length s"
    if "length (fst a) < length s" and "length (fst b) < length s"
    for P and a b :: "u8 list \<times> env_t"
    using that by simp
  show ?thesis
    unfolding env_key_def platform_parse_def set_dmabuf_def set_quantum_def
    by (intro if_less less [OF value_length(1)] less [OF value_length(2)] less [OF value_length(3)]
         less [OF value_length(4)] less [OF value_length(5)])
       (simp_all add: less [OF value_length(6)] \<open>s \<noteq> []\<close>)
qed

lemma env_key_empty: "fst (env_key stk [] e) = []"
  by (simp add: env_key_def key_at_def ch_def platform_parse_def chars_def upt_rec)

lemma skip_block_length: "length (skip_block n prev s) \<le> length s"
  by (induction n prev s rule: skip_block.induct) auto

lemma env_skip_comment_length: "length (env_skip_comment n s) \<le> length s"
proof -
  have "length (skip_block n c (drop 2 r)) \<le> length s" if "length r \<le> length s" for c r
    by (rule order_trans [OF skip_block_length]) (use that in simp)
  then show ?thesis by (simp add: env_skip_comment_def Let_def skip_line_def)
qed

lemma env_step_length: "s \<noteq> [] \<Longrightarrow> length (fst (env_step n stk s e)) < length s"
proof -
  assume "s \<noteq> []"
  let ?r = "env_skip_comment n s"
  show ?thesis
  proof (cases "?r = []")
    case True
    with \<open>s \<noteq> []\<close> show ?thesis by (simp add: env_step_def ch_def env_key_empty)
  next
    case False
    then have "length (fst (env_step n stk s e)) < length ?r"
      using env_key_length [of ?r stk e] by (simp add: env_step_def Let_def)
    with env_skip_comment_length [of n s] show ?thesis by simp
  qed
qed

function env_loop :: "nat \<Rightarrow> u64 \<Rightarrow> u8 list \<Rightarrow> env_t \<Rightarrow> env_t" where
  "env_loop n stk s e =
     (if n < length s \<and> ch s 0 \<noteq> 0
      then case env_step n stk s e of (s', e') \<Rightarrow> env_loop n stk s' e' else e)"
  by pat_completeness auto
termination
proof (relation "measure (\<lambda>(n, stk, s, e). length s)", goal_cases)
  case (2 n stk s e s' e')
  then have "s \<noteq> []" by auto
  from env_step_length [OF this, of n stk e] 2 show ?case by (simp add: split_beta)
qed simp

definition platform_env :: "env_t \<Rightarrow> env_t" where
  "platform_env e = e\<lparr>systables := (systables e)(4 := 0),
     core := (core e)\<lparr>dmabuf := 256, numcores := 1\<rparr>\<rparr>"

definition env_defaults :: "bootboot_t \<Rightarrow> env_t \<Rightarrow> env_t" where
  "env_defaults bb e = e\<lparr>
     flags := FLAG_SYSLOG OR FLAG_INET OR FLAG_SOUND OR FLAG_PRINT,
     core := (core e)\<lparr>dmabuf := 0, quantum := 1000, clock_tz := bb_timezone bb\<rparr>,
     display := PBT_MONO_COLOR, debug := 0,
     asktime := (take 4 (bb_datetime bb) = [0, 0, 0, 0]), datetime := bb_datetime bb,
     lang := put_at 0 (chars ''en'' @ [0]) (lang e),
     systables := (\<lambda>i. if 1 \<le> i \<and> i < 8 then bb_arch bb ! (i - 1) else systables e i)\<rparr>"

text \<open>
  The settings, from the text \<open>s\<close> of the page and the \<open>n\<close> bytes behind it. Then the translations are
  loaded (\<open>lang_init\<close>) and the user is asked for the date when it is not known.
\<close>

definition env_settings :: "nat \<Rightarrow> u64 \<Rightarrow> bootboot_t \<Rightarrow> u8 list \<Rightarrow> env_t \<Rightarrow> env_t outcome" where
  "env_settings n stk bb s e =
     (if bb_magic bb \<noteq> chars ''BOOT'' \<or> 4096 < bb_size bb then KPanic ''BOOTBOOT environment corrupt''
      else Done (env_loop n stk s (platform_env (env_defaults bb e))))"

definition env_seed :: "env_t \<Rightarrow> env_t" where
  "env_seed e = (
     let d = (\<lambda>k. ucast (datetime e ! k) :: u64);
         r = srand_at (1000 * d 7 + 100 * d 6 + d 5) (\<lambda>x. x * 16807) (srand (core e))
     in e\<lparr>core := kentropy ((core e)\<lparr>srand := r\<rparr>)\<rparr>)"

definition env_init ::
    "(env_t \<Rightarrow> env_t outcome) \<Rightarrow> u16 list \<Rightarrow> nat \<Rightarrow> u64 \<Rightarrow> bootboot_t \<Rightarrow> u8 list \<Rightarrow> env_t \<Rightarrow> env_t outcome option" where
  "env_init lang_init ks n stk bb s e = (
     case env_settings n stk bb s e of KPanic m \<Rightarrow> Some (KPanic m)
     | Done e \<Rightarrow>
         (case lang_init e of KPanic m \<Rightarrow> Some (KPanic m)
          | Done e \<Rightarrow>
              if asktime e \<and> flags e AND FLAG_SPACEMODE = 0
              then map_option (\<lambda>e. Done (env_seed e)) (env_asktime ks e)
              else Some (Done e)))"

section \<open>The time stamp\<close>

text \<open>The calendar, one day at a time.\<close>

definition is_leap :: "nat \<Rightarrow> bool" where
  "is_leap y \<longleftrightarrow> 4 dvd y \<and> (100 dvd y \<longrightarrow> 400 dvd y)"

definition month_len :: "nat \<Rightarrow> nat \<Rightarrow> nat" where
  "month_len y m = [31, if is_leap y then 29 else 28, 31, 30, 31, 30, 31, 31, 30, 31, 30, 31] ! (m - 1)"

definition year_len :: "nat \<Rightarrow> nat" where
  "year_len y = (if is_leap y then 366 else 365)"

fun next_day :: "nat \<times> nat \<times> nat \<Rightarrow> nat \<times> nat \<times> nat" where
  "next_day (y, m, d) =
     (if d < month_len y m then (y, m, d + 1) else if m < 12 then (y, m + 1, 1) else (y + 1, 1, 1))"

definition bcd :: "nat \<Rightarrow> u8" where
  "bcd k = of_nat (16 * (k div 10) + k mod 10)"

lemma next_day_in_month: "d + k \<le> month_len y m \<Longrightarrow> (next_day ^^ k) (y, m, d) = (y, m, d + k)"
  by (induction k) auto

lemma month_len_pos: "1 \<le> m \<Longrightarrow> m \<le> 12 \<Longrightarrow> 0 < month_len y m"
  by (auto simp: month_len_def eval_nat_numeral le_Suc_eq)

lemma next_day_month:
  assumes "1 \<le> m" "m \<le> 12"
  shows "(next_day ^^ month_len y m) (y, m, 1) = (if m < 12 then (y, m + 1, 1) else (y + 1, 1, 1))"
proof -
  obtain k where k: "month_len y m = Suc k" using month_len_pos [OF assms, of y] gr0_conv_Suc by blast
  have "(next_day ^^ k) (y, m, 1) = (y, m, 1 + k)" by (rule next_day_in_month) (simp add: k)
  then show ?thesis by (simp add: k)
qed

lemma next_day_months:
  "m < 12 \<Longrightarrow> (next_day ^^ (\<Sum>k\<in>{1..m}. month_len y k)) (y, 1, 1) = (y, m + 1, 1)"
proof (induction m)
  case (Suc m)
  then have "(next_day ^^ (month_len y (Suc m) + (\<Sum>k\<in>{1..m}. month_len y k))) (y, 1, 1) = (y, Suc m + 1, 1)"
    using next_day_month [of "Suc m" y] by (simp add: funpow_add)
  then show ?case by (simp add: add.commute)
qed simp

lemma year_len_months: "year_len y = month_len y 12 + (\<Sum>k\<in>{1..11}. month_len y k)"
  by (simp add: year_len_def month_len_def numeral_eq_Suc)

lemma next_day_year: "(next_day ^^ year_len y) (y, 1, 1) = (y + 1, 1, 1)"
  using next_day_months [of 11 y] next_day_month [of 12 y] by (simp add: year_len_months funpow_add)

lemma next_day_years:
  "(next_day ^^ (\<Sum>k\<in>{a..<a + n}. year_len k)) (a, 1, 1) = (a + n, 1, 1)"
proof (induction n)
  case (Suc n)
  then have "(next_day ^^ (year_len (a + n) + (\<Sum>k\<in>{a..<a + n}. year_len k))) (a, 1, 1) = (a + Suc n, 1, 1)"
    using next_day_year [of "a + n"] by (simp add: funpow_add)
  then show ?case by (simp add: add.commute)
qed simp

definition day_number :: "nat \<Rightarrow> nat \<Rightarrow> nat \<Rightarrow> nat" where
  "day_number y m d = (\<Sum>k\<in>{1970..<y}. year_len k) + (\<Sum>k\<in>{1..m - 1}. month_len y k) + (d - 1)"

lemma next_day_number:
  assumes "1970 \<le> y" "1 \<le> m" "m \<le> 12" "1 \<le> d" "d \<le> month_len y m"
  shows "(next_day ^^ day_number y m d) (1970, 1, 1) = (y, m, d)"
proof -
  have y: "(next_day ^^ (\<Sum>k\<in>{1970..<y}. year_len k)) (1970, 1, 1) = (y, 1, 1)"
    using next_day_years [of 1970 "y - 1970"] assms by simp
  have m: "(next_day ^^ (\<Sum>k\<in>{1..m - 1}. month_len y k)) (y, 1, 1) = (y, m, 1)"
    using next_day_months [of "m - 1" y] assms by simp
  have d: "(next_day ^^ (d - 1)) (y, m, 1) = (y, m, d)"
    using next_day_in_month [of 1 "d - 1" y m] assms by simp
  have "day_number y m d = (d - 1) + ((\<Sum>k\<in>{1..m - 1}. month_len y k) + (\<Sum>k\<in>{1970..<y}. year_len k))"
    by (simp add: day_number_def)
  then show ?thesis by (simp only: funpow_add comp_apply y m d)
qed

lemma days_2016: "(\<Sum>k\<in>{1970..<2016}. year_len k) = 16801"
  unfolding atLeastLessThan_upt sum_set_upt_conv_sum_list_nat by (simp add: year_len_def is_leap_def)

text \<open>The code computes the same numbers.\<close>

lemma leap_u64:
  "(j AND 3 \<noteq> 0 \<or> j mod 100 = 0 \<and> j mod 400 \<noteq> 0) \<longleftrightarrow> \<not> is_leap (unat j)" for j :: u64
proof -
  have "j AND 3 = take_bit 2 j" by (simp add: take_bit_eq_mask mask_eq_exp_minus_1)
  then have "unat (j AND 3) = unat j mod 4"
    by (simp add: take_bit_eq_mod unat_mod)
  then have "j AND 3 = 0 \<longleftrightarrow> 4 dvd unat j" by (simp add: word_eq_iff_unat dvd_eq_mod_eq_0)
  moreover have "j mod 100 = 0 \<longleftrightarrow> 100 dvd unat j" "j mod 400 = 0 \<longleftrightarrow> 400 dvd unat j"
    by (simp_all add: word_eq_iff_unat unat_mod dvd_eq_mod_eq_0)
  moreover have "400 dvd unat j \<Longrightarrow> 100 dvd unat j" by (rule dvd_trans [of 100 400]) simp_all
  ultimately show ?thesis unfolding is_leap_def by argo
qed

lemma if_or: "(if P then a else if Q then a else b) = (if P \<or> Q then a else b)"
  by simp

lemma year_days_eq: "year_days j = of_nat (year_len (unat j))"
  unfolding year_days_def year_len_def if_or leap_u64 by simp

lemma feb_days_eq: "feb_days j = of_nat (month_len (unat j) 2)"
  unfolding feb_days_def if_or leap_u64 by (simp add: month_len_def)

lemma add_years_eq:
  "j \<le> y \<Longrightarrow> add_years j y r = r + of_nat (\<Sum>k\<in>{unat j..<unat y}. year_len k)"
proof (induction j y r rule: add_years.induct)
  case (1 j y r)
  show ?case
  proof (cases "j < y")
    case True
    then have n: "unat (j + 1) = Suc (unat j)" "unat j < unat y"
      using u64_step_up [OF True] by (simp_all add: word_less_nat_alt)
    then have "j + 1 \<le> y" by (simp add: word_le_nat_alt)
    from 1(1) [OF True this] n show ?thesis using True
      by (subst add_years.simps) (simp add: year_days_eq sum.atLeast_Suc_lessThan algebra_simps)
  next
    case False
    with 1(2) show ?thesis by (subst add_years.simps) auto
  qed
qed

lemma md_eq: "1 \<le> m \<Longrightarrow> m \<le> 12 \<Longrightarrow>
  sum_list (take (m - 1) (md y)) = of_nat (\<Sum>k\<in>{1..m - 1}. month_len (unat y) k)"
  by (auto simp: le_Suc_eq numeral_eq_Suc md_def feb_days_eq) (simp_all add: month_len_def numeral_eq_Suc)

lemma sint_of_nat_u8: "n < 128 \<Longrightarrow> sint (of_nat n :: u8) = int n"
  by (simp add: signed_of_nat signed_take_bit_int_eq_self)

lemma sint_bcd: "k < 80 \<Longrightarrow> sint (bcd k) = int (16 * (k div 10) + k mod 10)"
proof -
  assume "k < 80"
  then have "k div 10 \<le> 7" by simp
  then have "16 * (k div 10) + k mod 10 < 128"
    using mod_less_divisor [of 10 k] by linarith
  then show ?thesis unfolding bcd_def by (rule sint_of_nat_u8)
qed

lemma bcd_val_bcd: "k < 80 \<Longrightarrow> bcd_val (bcd k) = int k"
  by (simp add: bcd_val_def sint_bcd zdiv_int zmod_int)

lemma env_getts_parts:
  assumes "ts_is_bcd p" "- 1440 \<le> tz" "tz \<le> 1440"
    and "ts_year p = of_nat y" "2016 \<le> y" "y < 2 ^ 64"
    and "ts_field p 2 = of_nat m" "1 \<le> m" "m \<le> 12"
    and "ts_field p 3 = of_nat d" "1 \<le> d"
    and "ts_field p 4 = of_nat h" "ts_field p 5 = of_nat i" "ts_field p 6 = of_nat s"
  shows "env_getts p (of_int tz) =
    Some (of_int (int (day_number y m d) * 86400 + int h * 3600 + (tz + int i) * 60 + int s))"
proof -
  have tz: "sint (of_int tz :: u16) = tz"
    using assms by (simp add: signed_of_int signed_take_bit_int_eq_self)
  have "scast (of_int tz :: u16) = (of_int (sint (of_int tz :: u16)) :: u64)" by simp
  then have sc: "scast (of_int tz :: u16) = (of_int tz :: u64)" by (simp only: tz)
  have y: "unat (of_nat y :: u64) = y" and m: "unat (of_nat m :: u64) = m"
    using assms by (simp_all add: unat_of_nat)
  have "add_years 2016 (of_nat y) 16801 = 16801 + of_nat (\<Sum>k\<in>{2016..<y}. year_len k)"
    using assms y by (subst add_years_eq) (simp_all add: word_le_nat_alt)
  also have "\<dots> = of_nat (\<Sum>k\<in>{1970..<y}. year_len k)"
    by (subst sum.atLeastLessThan_concat [of 1970 2016 y, symmetric]) (simp_all add: assms days_2016)
  finally have yr: "add_years 2016 (of_nat y) 16801 = (of_nat (\<Sum>k\<in>{1970..<y}. year_len k) :: u64)" .
  have mo: "sum_list (take (m - 1) (md (of_nat y))) = of_nat (\<Sum>k\<in>{1..m - 1}. month_len y k)"
    using md_eq [of m "of_nat y"] assms y by simp
  have d: "of_nat d - 1 = (of_nat (d - 1) :: u64)" using assms by (simp add: of_nat_diff)
  have m13: "((13 :: u64) < of_nat m) = False" using m assms by (simp add: word_less_nat_alt)
  have tzr: "(tz < - 1440 \<or> 1440 < tz) = False" using assms by simp
  have n: "of_nat (\<Sum>k\<in>{1970..<y}. year_len k) + of_nat (\<Sum>k\<in>{1..m - 1}. month_len y k) + of_nat (d - 1) =
      (of_nat (day_number y m d) :: u64)"
    by (simp only: day_number_def of_nat_add)
  have "env_getts p (of_int tz) = Some (of_nat (day_number y m d) * (24 * 60 * 60) +
      (of_nat h * 60 * 60 + (of_int tz + of_nat i) * 60 + of_nat s))"
    unfolding env_getts_def Let_def assms tz tzr if_False m13 m yr mo d n sc ..
  then show ?thesis by (simp add: mult.assoc)
qed

lemma sint_bcd_le: "k \<le> j \<Longrightarrow> j < 80 \<Longrightarrow> sint (bcd k) \<le> int j + 6 * int (j div 10)"
proof -
  assume kj: "k \<le> j" "j < 80"
  have "16 * (k div 10) + k mod 10 = k + 6 * (k div 10)"
    using div_mult_mod_eq [of k 10] by linarith
  moreover have "k div 10 \<le> j div 10" by (rule div_le_mono [OF kj(1)])
  ultimately have "16 * (k div 10) + k mod 10 \<le> j + 6 * (j div 10)" using kj by linarith
  with kj show ?thesis by (simp add: sint_bcd del: of_nat_add of_nat_mult)
qed

lemma sint_bcd_ge: "1 \<le> k \<Longrightarrow> k < 80 \<Longrightarrow> 1 \<le> sint (bcd k)"
proof -
  assume k: "1 \<le> k" "k < 80"
  then have "1 \<le> 16 * (k div 10) + k mod 10" using div_mult_mod_eq [of k 10] by linarith
  with k show ?thesis by (simp add: sint_bcd del: of_nat_add of_nat_mult)
qed

lemma bcd_le_99: "k < 80 \<Longrightarrow> bcd k \<le> 0x99"
proof -
  assume "k < 80"
  then have "k div 10 \<le> 7" by simp
  then have "16 * (k div 10) + k mod 10 < 0x99" using mod_less_divisor [of 10 k] by linarith
  then show ?thesis unfolding bcd_def by (simp add: word_le_nat_alt unat_of_nat del: of_nat_add of_nat_mult)
qed

definition boot_date :: "nat \<Rightarrow> nat \<Rightarrow> nat \<Rightarrow> nat \<Rightarrow> nat \<Rightarrow> nat \<Rightarrow> u8 \<Rightarrow> u8 list" where
  "boot_date y m d h i s x = [0x20, bcd (y - 2000), bcd m, bcd d, bcd h, bcd i, bcd s, x]"

lemma month_len_le: "1 \<le> m \<Longrightarrow> m \<le> 12 \<Longrightarrow> month_len y m \<le> 31"
  by (auto simp: le_Suc_eq numeral_eq_Suc month_len_def)

lemma boot_date_bcd:
  assumes "y < 2080" "1 \<le> m" "m \<le> 12" "1 \<le> d" "d \<le> 31" "h < 24" "i < 60" "s < 60"
  shows "ts_is_bcd (boot_date y m d h i s x)"
  using sint_bcd_le [of m 12] sint_bcd_ge [of m] sint_bcd_le [of d 31] sint_bcd_ge [of d]
    sint_bcd_le [of h 23] sint_bcd_le [of i 59] sint_bcd_le [of s 59] bcd_le_99 [of "y - 2000"] assms
  by (simp add: ts_is_bcd_def boot_date_def)

lemma of_int_u64_eq: "\<bar>b - a\<bar> < 2 ^ 64 \<Longrightarrow> (of_int a :: u64) = of_int b \<longleftrightarrow> a = b" for a b :: int
proof -
  assume d: "\<bar>b - a\<bar> < 2 ^ 64"
  have "(of_int a :: u64) = of_int b \<longleftrightarrow> (2 :: int) ^ 64 dvd b - a"
    by (simp add: word_of_int_eq_iff take_bit_eq_mod mod_eq_dvd_iff dvd_diff_commute)
  also have "\<dots> \<longleftrightarrow> a = b" using d zdvd_imp_le [of "2 ^ 64" "\<bar>b - a\<bar>"] by (cases "a = b") auto
  finally show ?thesis .
qed

text \<open>
  C34. The time stamp of a boot date of the years 2016 to 2079 counts the days the calendar needs from the first of January 1970 to
  the date, in seconds, and adds the time of day and the minutes of the time zone. It is the UTC time stamp exactly for
  the zone zero: the loader documents its date as UTC, for which the zone must not enter, and the comment at the function
  takes it as local time, for which the zone must be subtracted; in every other zone the result is neither. The calendar is given by the
  step from one day to the next; the code computes years and months in two loops from a precomputed number.
\<close>

theorem env_getts_correct:
  assumes "2016 \<le> y" "y < 2080" "1 \<le> m" "m \<le> 12" "1 \<le> d" "d \<le> month_len y m"
    and "h < 24" "i < 60" "s < 60" "- 1440 \<le> tz" "tz \<le> 1440"
  shows "\<exists>n t. (next_day ^^ n) (1970, 1, 1) = (y, m, d) \<and> t = int n * 86400 + int h * 3600 + int i * 60 + int s \<and>
    env_getts (boot_date y m d h i s x) (of_int tz) = Some (of_int (t + 60 * tz)) \<and>
    (env_getts (boot_date y m d h i s x) (of_int tz) = Some (of_int t) \<longleftrightarrow> tz = 0) \<and>
    (env_getts (boot_date y m d h i s x) (of_int tz) = Some (of_int (t - 60 * tz)) \<longleftrightarrow> tz = 0)"
proof -
  let ?p = "boot_date y m d h i s x"
  define t where "t = int (day_number y m d) * 86400 + int h * 3600 + int i * 60 + int s"
  have d: "d \<le> 31" using month_len_le [of m y] assms by linarith
  have b: "ts_is_bcd ?p" by (rule boot_date_bcd) (use assms d in simp_all)
  have n: "(next_day ^^ day_number y m d) (1970, 1, 1) = (y, m, d)"
    by (rule next_day_number) (use assms in simp_all)
  have year: "ts_year ?p = of_nat y"
  proof -
    have "(of_nat (2000 + (y - 2000)) :: u64) = of_nat y" using assms by simp
    then have "(2000 + of_nat (y - 2000) :: u64) = of_nat y" by (simp only: of_nat_add of_nat_numeral)
    with b assms show ?thesis by (simp add: ts_year_def boot_date_def bcd_val_bcd)
  qed
  have "env_getts ?p (of_int tz) =
      Some (of_int (int (day_number y m d) * 86400 + int h * 3600 + (tz + int i) * 60 + int s))"
    by (rule env_getts_parts [OF b])
      (use assms d year in \<open>simp_all add: ts_field_def b\<close>, simp_all add: boot_date_def bcd_val_bcd)
  then have r: "env_getts ?p (of_int tz) = Some (of_int (t + 60 * tz))" by (simp add: t_def algebra_simps)
  have "(of_int (t + 60 * tz) :: u64) = of_int t \<longleftrightarrow> tz = 0" "(of_int (t + 60 * tz) :: u64) = of_int (t - 60 * tz) \<longleftrightarrow> tz = 0"
    using assms by (subst of_int_u64_eq; simp)+
  with n t_def show ?thesis
    unfolding r option.inject by (intro exI [of _ "day_number y m d"] exI [of _ t] conjI refl)
qed

theorem env_getts_correct_witness:
  "\<exists>n t. (next_day ^^ n) (1970, 1, 1) = (2020, 2, 29) \<and> t = int n * 86400 + int 23 * 3600 + int 59 * 60 + int 58 \<and>
    env_getts (boot_date 2020 2 29 23 59 58 0) (of_int 60) = Some (of_int (t + 60 * 60)) \<and>
    (env_getts (boot_date 2020 2 29 23 59 58 0) (of_int 60) = Some (of_int t) \<longleftrightarrow> (60 :: int) = 0) \<and>
    (env_getts (boot_date 2020 2 29 23 59 58 0) (of_int 60) = Some (of_int (t - 60 * 60)) \<longleftrightarrow> (60 :: int) = 0)"
  by (rule env_getts_correct) (simp_all add: month_len_def is_leap_def)

text \<open>
  Outside of these years the conversion goes wrong: \<^verbatim>\<open>char\<close> is signed, so in 2080 the first digit of the
  year is negative and no years are counted.
\<close>

lemma env_getts_2080:
  "env_getts (boot_date 2080 1 1 0 0 0 0) 0 = env_getts (boot_date 2016 1 1 0 0 0 0) 0"
  by (simp add: env_getts_def boot_date_def ts_year_def ts_field_def ts_is_bcd_def bcd_def bcd_val_def md_def)

section \<open>The settings stay in range\<close>

text \<open>
  What the rest of the core relies on, whatever the text says: the time slice and the size of the transfer buffer are
  within their limits, the display type is one of four, the time zone is at most a day, and the three arrays
  have kept their sizes and hold strings with a closing zero.
\<close>

definition tz_ok :: "u16 \<Rightarrow> bool" where "tz_ok z \<longleftrightarrow> - 1440 \<le> sint z \<and> sint z \<le> 1440"

definition str_ok :: "nat \<Rightarrow> u8 list \<Rightarrow> bool" where "str_ok k a \<longleftrightarrow> length a = k \<and> 0 \<in> set a"

definition default_flags :: u64 where
  "default_flags = FLAG_SYSLOG OR FLAG_INET OR FLAG_SOUND OR FLAG_PRINT"

definition env_ok :: "env_t \<Rightarrow> bool" where
  "env_ok e \<longleftrightarrow> 10 \<le> quantum (core e) \<and> quantum (core e) \<le> 1000000 \<and> dmabuf (core e) \<le> 2048 \<and>
     display e \<le> 3 \<and> tz_ok (clock_tz (core e)) \<and> str_ok 6 (lang e) \<and> str_ok 128 (display_drv e) \<and>
     str_ok 128 (display_env e)"

text \<open>The invariant of the loop also has the flags of the services, of which no key clears one.\<close>

definition env_inv :: "env_t \<Rightarrow> bool" where
  "env_inv e \<longleftrightarrow> env_ok e \<and> flags e AND default_flags = default_flags"

lemmas env_inv_defs = env_inv_def env_ok_def

lemma clamp_bounds: "mn \<le> mx \<Longrightarrow> mx \<noteq> 0 \<Longrightarrow> mn \<le> clamp mn mx v \<and> clamp mn mx v \<le> mx"
  by (auto simp: clamp_def Let_def)

lemma env_dec_bounds:
  assumes "mn \<le> mx" "mx \<noteq> 0"
  shows "mn \<le> fst (env_dec s v mn mx) \<and> fst (env_dec s v mn mx) \<le> mx"
  using clamp_bounds [OF assms] by (simp add: env_dec_def env_hex_def Let_def split_beta)

lemma length_put_at: "i + length bs \<le> length a \<Longrightarrow> length (put_at i bs a) = length a"
  by (simp add: put_at_def)

lemma set_put_at: "set bs \<subseteq> set (put_at i bs a)"
  by (auto simp: put_at_def)

lemma str_ok_put_at: "length a = k \<Longrightarrow> i + length bs \<le> k \<Longrightarrow> 0 \<in> set bs \<Longrightarrow> str_ok k (put_at i bs a)"
  using set_put_at [of bs i a] length_put_at [of i bs a] by (auto simp: str_ok_def)

lemma sint_of_int_tz: "- 1440 \<le> tz \<Longrightarrow> tz \<le> 1440 \<Longrightarrow> sint (of_int tz :: u16) = tz"
  by (simp add: signed_of_int signed_take_bit_int_eq_self)

lemma ucast_minus_u16: "ucast (- v) = (- ucast v :: u16)" for v :: u64
proof -
  have "take_bit 16 (- take_bit 64 a) = take_bit 16 (- a)" for a :: int
    by (metis min.absorb1 numeral_le_iff semiring_norm(69,71,68) take_bit_minus take_bit_take_bit)
  then show ?thesis by transfer simp
qed

lemma tz_ok_small: "v \<le> 1440 \<Longrightarrow> tz_ok (ucast v) \<and> tz_ok (ucast (- v))" for v :: u64
proof -
  assume "v \<le> 1440"
  then have n: "uint v \<le> 1440" by (simp add: word_le_def)
  have "ucast v = (of_int (uint v) :: u16)" "ucast (- v) = (of_int (- uint v) :: u16)"
    by (simp_all add: ucast_minus_u16)
  moreover have "sint (of_int (uint v) :: u16) = uint v" "sint (of_int (- uint v) :: u16) = - uint v"
    using n uint_ge_0 [of v] by (intro sint_of_int_tz; linarith)+
  moreover have "- 1440 \<le> uint v" "- uint v \<le> 1440" using uint_ge_0 [of v] by linarith+
  ultimately show ?thesis using n unfolding tz_ok_def by simp
qed

lemma env_inv_tz: "env_inv e \<Longrightarrow> env_inv (snd (env_tz stk s e))"
proof -
  assume e: "env_inv e"
  have v: "tz_ok (ucast v) \<and> tz_ok (ucast (- v))" if "v = fst (env_dec r stk 0 1440)" for r v
    using env_dec_bounds [of 0 1440 r stk] that by (intro tz_ok_small) simp
  have z: "tz_ok 0" by (simp add: tz_ok_def)
  show ?thesis using e v z by (simp add: env_tz_def Let_def split_beta env_inv_defs)
qed

lemma env_inv_bool: "env_inv e \<Longrightarrow> env_inv (snd (env_bool f s e))"
proof -
  assume e: "env_inv e"
  then have "(flags e OR f) AND default_flags = default_flags"
    by (simp add: env_inv_defs bit.conj_disj_distrib2)
  with e show ?thesis by (simp add: env_bool_def Let_def env_inv_defs)
qed

lemma env_inv_lang: "env_inv e \<Longrightarrow> env_inv (snd (env_lang s e))"
proof -
  assume e: "env_inv e"
  then have l: "length (lang e) = 6" by (simp add: env_inv_defs str_ok_def)
  define nm where "nm = take 5 (takeWhile is_lang_char (skip_blanks s))"
  then have n: "length nm \<le> 5" by simp
  have "length (put_at 0 nm (put_at 0 [0] (lang e))) = 6"
    using l n by (subst length_put_at) (simp_all add: length_put_at)
  then have "str_ok 6 (put_at 0 (chars ''en'' @ [0]) (put_at 0 nm (put_at 0 [0] (lang e))))"
    "str_ok 6 (put_at (length nm) [0] (put_at 0 nm (put_at 0 [0] (lang e))))"
    using n by (auto intro!: str_ok_put_at simp: chars_def)
  with e show ?thesis unfolding env_lang_def Let_def nm_def [symmetric] by (simp add: env_inv_defs)
qed

lemma env_inv_display_drv: "env_inv e \<Longrightarrow> env_inv (snd (env_display_drv s e))"
proof -
  assume e: "env_inv e"
  then have l: "length (display_drv e) = 128" "length (display_env e) = 128"
    by (simp_all add: env_inv_defs str_ok_def)
  define drv where "drv nm = put_at 17 nm (put_at 0 (chars ''/sys/drv/display/'') (display_drv e))" for nm
  have d: "length (drv (take 107 t)) = 128" for t
    unfolding drv_def using l by (subst length_put_at) (simp_all add: length_put_at chars_def)
  then have "length (put_at 17 (chars ''remote'') (drv (take 107 t))) = 128" for t
    by (subst length_put_at) (simp_all add: chars_def)
  then have r: "str_ok 128 (put_at 23 (chars ''.so'' @ [0]) (put_at 17 (chars ''remote'') (drv (take 107 t))))" for t
    by (rule str_ok_put_at) (simp_all add: chars_def)
  have n: "str_ok 128 (put_at (17 + length (take 107 t)) (chars ''.so'' @ [0]) (drv (take 107 t)))" for t
    by (rule str_ok_put_at [OF d]) (simp_all add: chars_def)
  have v: "str_ok 128 (put_at 0 (take 127 t @ [0]) (display_env e))" for t
    by (rule str_ok_put_at [OF l(2)]) simp_all
  from e r n v show ?thesis
    unfolding env_display_drv_def Let_def drv_def [symmetric] by (simp add: env_inv_defs)
qed

lemma env_inv_display: "env_inv e \<Longrightarrow> env_inv (snd (env_display stk s e))"
proof -
  assume e: "env_inv e"
  have "ucast (ucast v :: u8) \<le> (3 :: u64)" if "v \<le> 3" for v :: u64
    using that by (simp add: word_le_nat_alt unsigned_ucast_eq unsigned_take_bit_eq take_bit_nat_eq_self)
  then have 1: "env_inv (e\<lparr>display := ucast (ucast (fst (env_dec r stk 0 3)) :: u8)\<rparr>)" for r
    using e env_dec_bounds [of 0 3 r stk] by (simp add: env_inv_defs)
  have 2: "env_inv (e\<lparr>display := display_flag r\<rparr>)" for r
    using e by (simp add: env_inv_defs display_flag_def pbt_defs)
  show ?thesis
    unfolding env_display_def Let_def split_beta using env_inv_display_drv 1 2 by simp
qed

lemma env_inv_debug: "env_inv e \<Longrightarrow> env_inv (snd (env_debug stk s e))"
  by (simp add: env_debug_def Let_def split_beta env_inv_defs)

lemma env_inv_key: "env_inv e \<Longrightarrow> env_inv (snd (env_key stk s e))"
proof -
  assume e: "env_inv e"
  have "env_inv (snd (set_dmabuf (env_dec r v 0 2048) e))" for r v
    using e env_dec_bounds [of 0 2048 r v] by (simp add: set_dmabuf_def env_inv_defs)
  moreover have "env_inv (snd (set_quantum (env_dec r v 10 1000000) e))" for r v
    using e env_dec_bounds [of 10 1000000 r v] by (simp add: set_quantum_def env_inv_defs)
  ultimately show ?thesis
    by (simp add: env_key_def e env_inv_tz env_inv_bool env_inv_lang env_inv_display env_inv_debug)
qed

lemma env_inv_loop: "env_inv e \<Longrightarrow> env_inv (env_loop n stk s e)"
proof (induction n stk s e rule: env_loop.induct)
  case (1 n stk s e)
  obtain s' e' where st: "env_step n stk s e = (s', e')" by fastforce
  have "env_inv (snd (env_step n stk s e))"
    using 1(2) env_inv_key by (simp add: env_step_def Let_def)
  with st have "env_inv e'" by simp
  with 1 st show ?case by (subst env_loop.simps) simp
qed

lemma env_inv_defaults:
  assumes "tz_ok (bb_timezone bb)" "length (lang e) = 6" "str_ok 128 (display_drv e)" "str_ok 128 (display_env e)"
  shows "env_inv (platform_env (env_defaults bb e))"
proof -
  have "str_ok 6 (put_at 0 (chars ''en'' @ [0]) (lang e))"
    using assms by (intro str_ok_put_at) (simp_all add: chars_def)
  with assms show ?thesis
    by (simp add: platform_env_def env_defaults_def env_inv_defs default_flags_def PBT_MONO_COLOR_def)
qed

text \<open>
  C35. Whatever the configuration text holds, and whatever lies behind its page and on the stack, the settings are usable afterwards:
  the time slice is between 10 microseconds and one second, the transfer buffer at most 2048 pages, the display type one
  of four, the time zone within a day, and the language, driver and display strings are closed within their
  arrays. A boot record with a wrong signature or size stops the core instead.
\<close>

theorem env_settings_ok:
  assumes "tz_ok (bb_timezone bb)" "length (lang e) = 6" "str_ok 128 (display_drv e)" "str_ok 128 (display_env e)"
  shows "case env_settings n stk bb s e of
      Done e' \<Rightarrow> env_ok e' \<and> bb_magic bb = chars ''BOOT'' \<and> bb_size bb \<le> 4096
    | KPanic m \<Rightarrow> bb_magic bb \<noteq> chars ''BOOT'' \<or> 4096 < bb_size bb"
  using env_inv_loop [OF env_inv_defaults [OF assms]] by (auto simp: env_settings_def env_inv_def)

definition zero_env :: env_t where
  "zero_env = \<lparr>core = zero_kstate, debug = 0, display = 0, flags = 0, lang = replicate 6 0,
     display_drv = replicate 128 0, display_env = replicate 128 0, asktime = False,
     datetime = replicate 8 0, systables = (\<lambda>_. 0)\<rparr>"

definition boot_2020 :: bootboot_t where
  "boot_2020 = \<lparr>bb_magic = chars ''BOOT'', bb_size = 128, bb_timezone = 60,
     bb_datetime = boot_date 2020 2 29 12 0 0 0, bb_arch = replicate 7 0\<rparr>"

theorem env_settings_ok_witness:
  "case env_settings 0 7 boot_2020 (chars ''tz=-90 quantum=5 display=vr,x:y lang=hu_HU'') zero_env of
      Done e' \<Rightarrow> env_ok e' \<and> bb_magic boot_2020 = chars ''BOOT'' \<and> bb_size boot_2020 \<le> 4096
    | KPanic m \<Rightarrow> bb_magic boot_2020 \<noteq> chars ''BOOT'' \<or> 4096 < bb_size boot_2020"
  by (rule env_settings_ok) (simp_all add: boot_2020_def zero_env_def tz_ok_def str_ok_def)

text \<open>
  The date editor. A date of which a digit was typed has every field within its range: decimal digits, month 1 to
  12, day 1 to 31, and a time of day. The day is not compared with the length of the month.
\<close>

definition bcd_digits :: "u8 \<Rightarrow> bool" where
  "bcd_digits b \<longleftrightarrow> b AND 0xF \<le> 9 \<and> b AND 0xF0 \<le> 0x90"

definition digits_ok :: "u8 list \<Rightarrow> bool" where
  "digits_ok p \<longleftrightarrow> length p = 8 \<and> list_all bcd_digits (take 7 p)"

definition date_ok :: "u8 list \<Rightarrow> bool" where
  "date_ok p \<longleftrightarrow> digits_ok p \<and> 1 \<le> p ! 2 \<and> p ! 2 \<le> 0x12 \<and>
     1 \<le> p ! 3 \<and> p ! 3 \<le> 0x31 \<and> p ! 4 \<le> 0x23 \<and> p ! 5 \<le> 0x59 \<and> p ! 6 \<le> 0x59"

lemma tz_wrap_ok: "tz_ok (tz_wrap z)"
  by (simp add: tz_wrap_def tz_ok_def Let_def)

lemma le_9_cases: "c \<le> 9 \<Longrightarrow> c = 0 \<or> c = 1 \<or> c = 2 \<or> c = 3 \<or> c = 4 \<or> c = 5 \<or> c = 6 \<or> c = 7 \<or> c = 8 \<or> c = 9"
  for c :: u8
proof -
  assume "c \<le> 9"
  then have "unat c \<le> 9" by (simp add: word_le_nat_alt)
  then have "unat c \<in> {0, 1, 2, 3, 4, 5, 6, 7, 8, 9}" by (auto simp: le_Suc_eq numeral_eq_Suc)
  then show ?thesis by (auto simp: word_eq_iff_unat)
qed

lemma bcd_digits_put:
  assumes "bcd_digits b" "c \<le> 9"
  shows "bcd_digits (b AND 0xF0 OR c)" "bcd_digits (b AND 0xF OR c * 16)"
  using assms(1) le_9_cases [OF assms(2)]
  by (auto simp: bcd_digits_def bit.conj_disj_distrib2 and.assoc)

lemma digits_ok_iff: "digits_ok p \<longleftrightarrow> length p = 8 \<and> (\<forall>i < 7. bcd_digits (p ! i))"
  by (auto simp: digits_ok_def list_all_length)

lemma put_digit_bcd: "digits_ok p \<Longrightarrow> c \<le> 9 \<Longrightarrow> i < 14 \<Longrightarrow> digits_ok (put_digit c i p)"
  using bcd_digits_put [of "p ! (i div 2)" c] by (auto simp: digits_ok_iff put_digit_def nth_list_update)

lemma fix_date_ok:
  assumes "digits_ok p"
  shows "date_ok (fix_date p)"
proof -
  obtain a b m d h i s x where p: "p = [a, b, m, d, h, i, s, x]"
    using assms by (auto simp: digits_ok_def numeral_eq_Suc length_Suc_conv)
  have "bcd_digits a" "bcd_digits b" "bcd_digits m" "bcd_digits d" "bcd_digits h" "bcd_digits i" "bcd_digits s"
    using assms by (simp_all add: p digits_ok_def)
  moreover have "bcd_digits 0x12" "bcd_digits 1" "bcd_digits 0x31" "bcd_digits 0x23" "bcd_digits 0x59"
    by (simp_all add: bcd_digits_def)
  moreover have "1 \<le> w \<longleftrightarrow> w \<noteq> 0" for w :: u8 by (metis word_less_1 linorder_not_less)
  ultimately show ?thesis
    by (auto simp: p fix_date_def date_ok_def digits_ok_def Let_def not_less)
qed

text \<open>What holds of a date that is edited from \<open>p\<close> on, and of the time zone.\<close>

definition edit_inv :: "u8 list \<Rightarrow> env_t \<Rightarrow> bool" where
  "edit_inv p e \<longleftrightarrow> tz_ok (clock_tz (core e)) \<and> digits_ok (datetime e) \<and> (datetime e = p \<or> date_ok (datetime e))"

lemma setdigit_ok:
  assumes "edit_inv p e" "i < 18"
  shows "edit_inv p (env_asktime_setdigit c i e)"
proof -
  define c' where "c' = (let c = (if 57 < c then 48 else c); c = (if c < 48 then 57 else c) in c - 48)"
  have "c' \<le> 9" unfolding c'_def Let_def by (auto simp: word_le_nat_alt word_less_nat_alt unat_sub_le)
  then have "date_ok (fix_date (put_digit c' i (datetime e)))" if "i < 14"
    using put_digit_bcd [of "datetime e" c' i] assms(1) that by (intro fix_date_ok) (auto simp: edit_inv_def)
  with assms show ?thesis
    unfolding env_asktime_setdigit_def Let_def c'_def
    by (auto simp: tz_wrap_ok edit_inv_def date_ok_def split: prod.split)
qed

lemma asktime_edit_ok:
  assumes "asktime_edit c x k e = (k1, e1)" "edit_inv p e" "k < 18"
  shows "k1 < 18 \<and> edit_inv p e1"
  using assms setdigit_ok by (auto simp: asktime_edit_def split: if_splits)

lemma asktime_loop_ok:
  assumes "asktime_loop k cur ks e = Some e'" "edit_inv p e" "k < 18"
  shows "edit_inv p e'"
  using assms
proof (induction k cur ks e rule: asktime_loop.induct)
  case (1 k cur ks e)
  obtain t where t: "asktime_text e = Some t" using 1(2) by (auto split: option.splits)
  obtain c ks' where c: "asktime_key ks = Some (c, ks')" using 1(2) t by (auto simp: Let_def split: option.splits)
  show ?case
  proof (cases c)
    case None
    with 1 t c show ?thesis by simp
  next
    case (Some c')
    let ?x = "ch t (digit_column k cur 0 t)"
    obtain k1 e1 where e1: "asktime_edit c' ?x k e = (k1, e1)" by fastforce
    from asktime_edit_ok [OF this 1(3,4)] 1 t c Some e1 show ?thesis by simp
  qed
qed

text \<open>
  Enter, twice at most, ends the editor: the text it shows always exists, and an escape sequence that was begun takes
  the first one.
\<close>

lemma putdec_nonneg: "0 \<le> sint c \<Longrightarrow> sprintf_putdec n c \<noteq> None"
  by (simp add: sprintf_putdec_def split: prod.split)

lemma small_not_negative: "x \<le> 0x7FFFFFFFFFFFFFFF \<Longrightarrow> 0 \<le> sint x" for x :: u64
proof -
  assume "x \<le> 0x7FFFFFFFFFFFFFFF"
  then have "- (2 ^ 63) \<le> uint x" "uint x < 2 ^ 63" by (simp_all add: word_le_def order_trans [OF _ uint_ge_0])
  from signed_take_bit_int_eq_self [OF this] show ?thesis by (simp add: sint_uint)
qed

lemma putdec_quotients:
  "\<exists>t. sprintf_putdec n (x div 600) = Some t" "\<exists>t. sprintf_putdec n (x mod 10) = Some t" "\<exists>t. sprintf_putdec n (x div 10) = Some t"
proof -
  have "x div 600 \<le> 0x7FFFFFFFFFFFFFFF" "x div 10 \<le> 0x7FFFFFFFFFFFFFFF" "x mod 10 \<le> 0x7FFFFFFFFFFFFFFF"
    using unat_u64_less [of x] mod_less_divisor [of 10 "unat x"]
    by (simp_all add: word_le_nat_alt unat_div unat_mod less_mult_imp_div_less)
  then show "\<exists>t. sprintf_putdec n (x div 600) = Some t" "\<exists>t. sprintf_putdec n (x mod 10) = Some t"
    "\<exists>t. sprintf_putdec n (x div 10) = Some t"
    using putdec_nonneg [OF small_not_negative] by blast+
qed

lemma asktime_text_exists: "\<exists>t. asktime_text e = Some t"
proof -
  let ?z = "clock_tz (core e)"
  define tz where "tz = (if sint ?z < 0 then - scast ?z else scast ?z :: u64)"
  obtain t1 t2 t3 t4 where "sprintf_putdec 1 (tz div 600) = Some t1" "sprintf_putdec 1 (tz div 60 mod 10) = Some t2"
    "sprintf_putdec 1 (tz mod 60 div 10) = Some t3" "sprintf_putdec 1 (tz mod 10) = Some t4"
    using putdec_quotients(1) [of 1 tz] putdec_quotients(2) [of 1 "tz div 60"] putdec_quotients(3) [of 1 "tz mod 60"]
      putdec_quotients(2) [of 1 tz] by (elim exE)
  then show ?thesis
    unfolding asktime_text_def Let_def sprintf_def tz_def [symmetric]
    by (simp add: chars_def fmt_spec_def fmt_conv_def)
qed

lemma asktime_key_enter:
  "\<exists>c r. asktime_key (ks @ [28, 28]) = Some (c, r) \<and>
     (c = None \<or> r = [28] \<or> (\<exists>ks1. r = ks1 @ [28, 28] \<and> length ks1 < length ks))"
proof (cases ks)
  case (Cons c ks2)
  have n: "\<exists>ks1. [28, 28 :: u16] = ks1 @ [28, 28] \<and> length ks1 < Suc n" for n by (rule exI [of _ "[]"]) simp
  show ?thesis
  proof (cases ks2)
    case Nil
    with Cons n show ?thesis by (simp add: Let_def)
  next
    case (Cons c2 ks3)
    with \<open>ks = c # ks2\<close> n show ?thesis by (cases ks3) (auto simp: Let_def)
  qed
qed simp

lemma asktime_loop_returns: "\<exists>e'. asktime_loop k cur (ks @ [28, 28]) e = Some e'"
proof (induction "length ks" arbitrary: k cur ks e rule: less_induct)
  case less
  obtain t where t: "asktime_text e = Some t" using asktime_text_exists by blast
  let ?cur = "digit_column k cur 0 t"
  have step: "asktime_loop k cur ks' e = (case asktime_edit c (ch t ?cur) k e of (k, e) \<Rightarrow> asktime_loop k ?cur ks1 e)"
    if "asktime_key ks' = Some (Some c, ks1)" for ks' c ks1
    by (subst asktime_loop.simps) (simp add: t that Let_def)
  have last: "asktime_loop k cur ks' e = Some e" if "asktime_key ks' = Some (None, r)" for k cur ks' e r
    using asktime_text_exists [of e] by (subst asktime_loop.simps) (auto simp: that Let_def)
  obtain c r where r: "asktime_key (ks @ [28, 28]) = Some (c, r)"
    "c = None \<or> r = [28] \<or> (\<exists>ks1. r = ks1 @ [28, 28] \<and> length ks1 < length ks)"
    using asktime_key_enter by blast
  show ?case
  proof (cases c)
    case None
    with r last show ?thesis by blast
  next
    case (Some c')
    have "\<exists>e'. asktime_loop k ?cur r e = Some e'" for k e
      using r(2) Some last [of "[28]"] less by auto
    with step [of "ks @ [28, 28]" c' r] r(1) Some show ?thesis by (simp split: prod.split)
  qed
qed

text \<open>
  C36. The date editor: from any date of decimal digits, the date of zeros for which it is called included, it comes to its end
  when Enter is pressed, whatever keys come before; it leaves a time zone within a day, and either the date as it was or one with every field in
  its range. That the day exists in the month is not checked.
\<close>

theorem env_asktime_ok:
  assumes "digits_ok (datetime e)" "tz_ok (clock_tz (core e))"
  shows "\<exists>e'. env_asktime (ks @ [28, 28]) e = Some e' \<and> tz_ok (clock_tz (core e')) \<and>
     (datetime e' = datetime e \<or> date_ok (datetime e'))"
proof -
  have i: "edit_inv (datetime e) e" using assms by (simp add: edit_inv_def)
  obtain e' where e': "asktime_loop 0 0 (ks @ [28, 28]) e = Some e'"
    using asktime_loop_returns [of 0 0 ks e] by (cases "asktime_loop 0 0 (ks @ [28, 28]) e") auto
  from asktime_loop_ok [OF e' i] e' show ?thesis by (auto simp: env_asktime_def edit_inv_def)
qed

theorem env_asktime_ok_witness:
  "\<exists>e'. env_asktime ([333, 2, 27] @ [28, 28]) zero_env = Some e' \<and> tz_ok (clock_tz (core e')) \<and>
     (datetime e' = datetime zero_env \<or> date_ok (datetime e'))"
  by (rule env_asktime_ok) code_simp+

text \<open>
  The date of zeros is kept when Enter is the only key, and is the last day of 2015 as a time stamp; and the thirty-first of February can
  be typed.
\<close>

definition env_2020 :: env_t where
  "env_2020 = zero_env\<lparr>datetime := boot_date 2020 2 29 12 0 0 0\<rparr>"

lemma env_asktime_keeps_zero: "map_option datetime (env_asktime [28] zero_env) = Some (replicate 8 0)"
  by code_simp

lemma env_getts_zero: "env_getts (replicate 8 0) 0 = Some (16800 * 86400)"
  by code_simp

lemma env_asktime_february_31:
  "map_option datetime (env_asktime (replicate 7 333 @ [2, 331, 331, 4, 28]) env_2020) = Some (boot_date 2020 2 31 12 0 0 0)"
  by code_simp

section \<open>What the parser does not do\<close>

text \<open>
  A comment of the second kind is not skipped: the loop stops at once, as the byte before the read pointer is
  the star that opened the comment. Only the two bytes of the opening are dropped.
\<close>

lemma block_comment_not_skipped:
  assumes "two s ''/*''"
  shows "env_skip_comment n s = drop 2 s"
proof -
  have "ch s 1 = 42" "\<not> two s ''//''" "ch s 0 \<noteq> 35" using assms by (auto simp: two_def chars_def)
  moreover have "skip_block n 42 r = r" for r by (cases r) auto
  ultimately show ?thesis using assms by (simp add: env_skip_comment_def)
qed

text \<open>So a setting in such a comment takes effect.\<close>

lemma block_comment_parsed:
  "display (env_loop 0 0 (chars ''/*display=vr*/'') zero_env) = 3"
  by code_simp

text \<open>
  The keys for the network and for unattended operation are compared with one byte more than they have, the
  closing zero of the literal, so a value never follows them.
\<close>

lemma key_atD: "key_at s k n \<Longrightarrow> i < n \<Longrightarrow> ch s i = ch (chars k) i"
  by (simp add: key_at_def list_all_iff)

lemma long_keys_never_match:
  "ch s 9 \<noteq> 0 \<Longrightarrow> \<not> key_at s ''internet='' 10" "ch s 10 \<noteq> 0 \<Longrightarrow> \<not> key_at s ''spacemode='' 11"
  using key_atD [of s "''internet=''" 10 9] key_atD [of s "''spacemode=''" 11 10]
  by (auto simp: chars_def ch_def)

text \<open>
  No text turns a service of the defaults off, although \<^verbatim>\<open>bootopts.en.md\<close> has the keys for it: a value that says no leaves the
  flag as it is.
\<close>

lemma services_stay_on:
  assumes "env_settings n stk bb s e = Done e'" "tz_ok (bb_timezone bb)" "length (lang e) = 6"
    "str_ok 128 (display_drv e)" "str_ok 128 (display_env e)"
  shows "is_set (flags e') FLAG_SYSLOG \<and> is_set (flags e') FLAG_SOUND \<and> is_set (flags e') FLAG_PRINT"
proof -
  have "env_inv e'" using assms(1) env_inv_loop [OF env_inv_defaults [OF assms(2-5)]]
    by (auto simp: env_settings_def simp del: env_loop.simps split: if_splits)
  then have f: "flags e' AND 30 = 30" by (simp add: env_inv_def default_flags_def flag_defs)
  have "flags e' AND m = m" if "30 AND m = m" for m :: u64
    using f that by (metis and.assoc)
  from this [of 2] this [of 8] this [of 16] show ?thesis by (simp add: flag_defs)
qed

text \<open>A hexadecimal value is appended to the digits of the value before it.\<close>

lemma hex_value_appended: "fst (env_dec (chars ''0x20'') 1000 10 1000000) = 256032"
  by code_simp

text \<open>The value documented for debugging the file systems sets all the lower flags and not that one.\<close>

lemma debug_number_clamped: "debug (snd (env_debug 0 (chars ''65536'') e)) = 65535"
proof -
  have "fst (env_dec (chars ''65536'') 0 0 0xFFFF) = 65535" by code_simp
  moreover have "is_dec (ch (chars ''65536'') 0)" by code_simp
  ultimately show ?thesis by (simp add: env_debug_def split_beta Let_def)
qed

end
