(* ===== verification/Core_Security.thy ===== *)
theory Core_Security
  imports Core_State Cmem
begin

text \<open>
  The message policy, \<^verbatim>\<open>src/core/security.c\<close>: which task may send which event to which service.
  A group name is a byte list (a null pointer counts as the empty one, both are refused), an
  access control entry is its sixteen bytes, the last of which is the access mask.
\<close>

section \<open>Operations\<close>

definition rootuid :: "u8 list" where
  "rootuid = chars ''root'' @ replicate 11 0"

text \<open>The loop over the access control list, at most \<^verbatim>\<open>TCB_MAXACE\<close> entries long.\<close>

fun acl_search :: "uuid list \<Rightarrow> u8 list \<Rightarrow> nat \<Rightarrow> u8 \<Rightarrow> bool" where
  "acl_search [] grp j access = False"
| "acl_search (g # gs) grp j access = (
     if g ! 0 = 0 then False
     else if take j g = take j grp then access = 0 \<or> g ! 15 AND access = access
     else acl_search gs grp j access)"

definition task_allowed :: "tcb_t \<Rightarrow> u8 list \<Rightarrow> u8 \<Rightarrow> bool" where
  "task_allowed tcb grp access = (
     if grp = [] then False
     else acl_search (take TCB_MAXACE (tcb_acl tcb)) grp (min (length grp) 15) access)"

definition is_root :: "tcb_t \<Rightarrow> bool" where
  "is_root tcb \<longleftrightarrow> take 15 (tcb_owner tcb) = rootuid"

text \<open>
  \<open>srv_of\<close> is the negated service number: \<^verbatim>\<open>services[-SRV_FS]\<close> is \<open>services s (srv_of SRV_FS)\<close>.
\<close>

definition srv_of :: "u64 \<Rightarrow> nat" where
  "srv_of n = unat (- n)"

definition is_srv :: "u64 \<Rightarrow> u64 \<Rightarrow> kstate \<Rightarrow> bool" where
  "is_srv dest n s \<longleftrightarrow> dest = n \<or> dest = services s (srv_of n)"

abbreviation srv_pid :: "u64 \<Rightarrow> kstate \<Rightarrow> u64" where
  "srv_pid n s \<equiv> services s (srv_of n)"

definition core_allowed :: "tcb_t \<Rightarrow> u64 \<Rightarrow> bool" where
  "core_allowed sender e = (
     if (e = SYS_regirq \<or> e = SYS_regtmr \<or> e = SYS_drvfind \<or> e = SYS_drvadd) \<and> tcb_priority sender \<noteq> PRI_DRV
     then False
     else if (e = SYS_tskcpy \<or> e = EVT_ack) \<and> tcb_priority sender \<noteq> PRI_DRV \<and> tcb_priority sender \<noteq> PRI_SRV
     then False
     else if is_root sender then True
     else if (e = SYS_stimezone \<or> e = SYS_stime \<or> e = SYS_stimebcd) \<and> \<not> task_allowed sender (chars ''time'') A_WRITE
     then False
     else True)"

definition fs_allowed :: "tcb_t \<Rightarrow> u64 \<Rightarrow> kstate \<Rightarrow> bool" where
  "fs_allowed sender e s = (
     if e = SYS_mountfs \<and> tcb_pid sender \<noteq> srv_pid SRV_FS s then False
     else if e = SYS_getty \<and> tcb_pid sender \<noteq> srv_pid SRV_UI s then False
     else if (e = SYS_mknod \<or> e = SYS_setblock) \<and> tcb_priority sender \<noteq> PRI_DRV \<and> tcb_priority sender \<noteq> PRI_SRV
     then False
     else if is_root sender then True
     else if e = SYS_chroot \<and> \<not> task_allowed sender (chars ''chroot'') A_WRITE then False
     else if (e = SYS_mount \<or> e = SYS_umount) \<and> \<not> task_allowed sender (chars ''storage'') A_WRITE then False
     else True)"

definition msg_decide :: "tcb_t \<Rightarrow> u64 \<Rightarrow> u64 \<Rightarrow> kstate \<Rightarrow> bool" where
  "msg_decide sender dest event s = (
     let e = EVT_FUNC event in
     if dest = SRV_CORE then core_allowed sender e
     else if is_srv dest SRV_FS s then fs_allowed sender e s
     else if is_srv dest SRV_UI s then
       (if task_allowed sender (chars ''noui'') 0 then False
        else if e = SYS_devprogress \<and> tcb_pid sender \<noteq> srv_pid SRV_FS s then False else True)
     else if is_srv dest SRV_syslog s then \<not> task_allowed sender (chars ''nosyslog'') 0
     else if is_srv dest SRV_inet s then \<not> task_allowed sender (chars ''noinet'') 0
     else if is_srv dest SRV_sound s then \<not> task_allowed sender (chars ''nosound'') 0
     else if is_srv dest SRV_init s then \<not> task_allowed sender (chars ''noinit'') 0
     else True)"

definition msg_allowed :: "tcb_t \<Rightarrow> u64 \<Rightarrow> u64 \<Rightarrow> kstate \<Rightarrow> bool \<times> kstate" where
  "msg_allowed sender dest event s =
     (if msg_decide sender dest event s then (True, s) else (False, seterr EPERM s))"

section \<open>The access control list\<close>

text \<open>
  The entries before the first empty one, and the first of them that matches a group.
\<close>

definition acl_live :: "tcb_t \<Rightarrow> uuid list" where
  "acl_live tcb = takeWhile (\<lambda>g. g ! 0 \<noteq> 0) (take TCB_MAXACE (tcb_acl tcb))"

definition ace_for :: "u8 list \<Rightarrow> uuid \<Rightarrow> bool" where
  "ace_for grp g \<longleftrightarrow> take (min (length grp) 15) g = take (min (length grp) 15) grp"

lemma acl_search_find:
  "acl_search acl grp j access =
     (case find (\<lambda>g. take j g = take j grp) (takeWhile (\<lambda>g. g ! 0 \<noteq> 0) acl) of
        None \<Rightarrow> False | Some g \<Rightarrow> access = 0 \<or> g ! 15 AND access = access)"
  by (induction acl) auto

lemma task_allowed_find:
  "grp \<noteq> [] \<Longrightarrow> task_allowed tcb grp access =
     (case find (ace_for grp) (acl_live tcb) of None \<Rightarrow> False | Some g \<Rightarrow> access = 0 \<or> g ! 15 AND access = access)"
  unfolding task_allowed_def acl_live_def ace_for_def [abs_def] by (simp add: acl_search_find)

text \<open>A service list in which every service has a pid of its own.\<close>

definition services_ok :: "kstate \<Rightarrow> bool" where
  "services_ok s \<longleftrightarrow> inj_on (services s) {1..<NUMSRV} \<and>
     (\<forall>i \<in> {1..<NUMSRV}. services s i \<noteq> 0 \<and> unat (services s i) < 2 ^ 48)"

lemma srv_of_simps [simp]:
  "srv_of SRV_FS = 1" "srv_of SRV_UI = 2" "srv_of SRV_syslog = 3" "srv_of SRV_inet = 4"
  "srv_of SRV_sound = 5" "srv_of SRV_print = 6" "srv_of SRV_init = 7"
  by (simp_all add: srv_of_def srv_defs)

lemma services_ok_eq:
  assumes "services_ok s" and "i \<in> {1..<8}" and "j \<in> {1..<8}"
  shows "services s i = services s j \<longleftrightarrow> i = j"
  using assms by (auto simp: services_ok_def NUMSRV_def inj_on_def)

lemma services_ok_not_srv:
  assumes "services_ok s" and "i \<in> {1..<8}" and "k \<in> {1..<8}"
  shows "services s i \<noteq> - of_nat k"
proof
  assume eq: "services s i = - of_nat k"
  have "unat (- of_nat k :: u64) = 2 ^ 64 - k"
  proof -
    from assms(3) consider "k = 1" | "k = 2" | "k = 3" | "k = 4" | "k = 5" | "k = 6" | "k = 7"
      by (simp; linarith)
    then show ?thesis by cases (simp_all add: unsigned_minus_1_eq_mask mask_eq_exp_minus_1)
  qed
  moreover have "unat (services s i) < 2 ^ 48" using assms(1,2) by (simp add: services_ok_def NUMSRV_def)
  ultimately have "(2::nat) ^ 64 - k < 2 ^ 48" using eq by simp
  moreover have "k < 8" using assms(3) by simp
  ultimately show False by simp
qed

text \<open>A service is meant by its number or by its pid, and never by those of another one.\<close>

lemma is_srv_iff:
  assumes "services_ok s" and "i \<in> {1..<8}" and "k \<in> {1..<8}"
  shows "is_srv (services s i) (- of_nat k) s \<longleftrightarrow> i = k" and "is_srv (- of_nat i) (- of_nat k) s \<longleftrightarrow> i = k"
proof -
  have u: "unat (of_nat i :: u64) = i" "unat (of_nat k :: u64) = k"
    using assms(2,3) by (simp_all add: unat_of_nat_u64)
  have k: "srv_of (- of_nat k) = k" "(- of_nat i = (- of_nat k :: u64)) = (i = k)"
    using u by (simp_all only: srv_of_def minus_minus neg_equal_iff_equal) (metis u)
  show "is_srv (services s i) (- of_nat k) s \<longleftrightarrow> i = k" "is_srv (- of_nat i) (- of_nat k) s \<longleftrightarrow> i = k"
    using services_ok_eq [OF assms] services_ok_not_srv [OF assms] services_ok_not_srv [OF assms(1,3,2)]
    unfolding is_srv_def k by auto
qed

section \<open>Properties\<close>


text \<open>
  C14. Naming a service by its pid gives the same answer as naming it by its number, so the
  policy cannot be bypassed by looking up the pid of a service.
\<close>

theorem msg_allowed_no_bypass:
  assumes "services_ok s" and "i \<in> {1..<NUMSRV}"
  shows "msg_allowed sender (services s i) event s = msg_allowed sender (- of_nat i) event s"
proof -
  have i: "i \<in> {1..<8}" using assms(2) by (simp add: NUMSRV_def)
  have nz: "services s i \<noteq> SRV_CORE" "- of_nat i \<noteq> SRV_CORE"
    using assms i by (auto simp: services_ok_def SRV_CORE_def word_eq_iff_unat [of "of_nat i"] unat_of_nat_u64)
  have srv: "SRV_FS = - of_nat 1" "SRV_UI = - of_nat 2" "SRV_syslog = - of_nat 3" "SRV_inet = - of_nat 4"
    "SRV_sound = - of_nat 5" "SRV_init = - of_nat 7" by (simp_all add: srv_defs)
  have "is_srv (services s i) n s = is_srv (- of_nat i) n s"
    if "n \<in> {SRV_FS, SRV_UI, SRV_syslog, SRV_inet, SRV_sound, SRV_init}" for n
  proof -
    have "(1::nat) \<in> {1..<8}" "(2::nat) \<in> {1..<8}" "(3::nat) \<in> {1..<8}" "(4::nat) \<in> {1..<8}"
      "(5::nat) \<in> {1..<8}" "(7::nat) \<in> {1..<8}" by simp_all
    with that obtain k where "k \<in> {1..<8}" "n = - of_nat k" unfolding srv by blast
    then show ?thesis using is_srv_iff [OF assms(1) i] by simp
  qed
  then have "msg_decide sender (services s i) event s = msg_decide sender (- of_nat i) event s"
    using nz by (simp add: msg_decide_def)
  then show ?thesis by (simp add: msg_allowed_def)
qed

text \<open>A task of an ordinary user in the time and storage groups, next to seven services.\<close>

definition sec_ace :: "string \<Rightarrow> u8 \<Rightarrow> uuid" where
  "sec_ace grp acc = take 15 (chars grp @ replicate 15 0) @ [acc]"

definition sec_task :: tcb_t where
  "sec_task = zero_tcb\<lparr>tcb_magic := OSZ_TCB_MAGICH, tcb_priority := PRI_APP, tcb_pid := 77,
     tcb_owner := sec_ace ''bzt'' A_EXEC,
     tcb_acl := [sec_ace ''timezone'' 7, sec_ace ''storage'' 1] @ replicate 126 (replicate 16 0)\<rparr>"

definition sec_state :: kstate where
  "sec_state = zero_kstate\<lparr>services := (\<lambda>i. 30 + of_nat i)\<rparr>"

lemma sec_task_acl: "acl_live sec_task = [sec_ace ''timezone'' 7, sec_ace ''storage'' 1]"
  unfolding acl_live_def sec_task_def TCB_MAXACE_def sec_ace_def chars_def by simp


theorem msg_allowed_no_bypass_witness:
  "msg_allowed sec_task 31 SYS_mount sec_state = msg_allowed sec_task SRV_FS SYS_mount sec_state"
proof -
  have "services_ok sec_state"
    by (auto simp: services_ok_def sec_state_def NUMSRV_def inj_on_def word_eq_iff_unat unat_word_ariths
        unat_of_nat_u64 add_nonneg_eq_0_iff)
  from msg_allowed_no_bypass [OF this, of 1 sec_task SYS_mount] show ?thesis
    by (simp add: NUMSRV_def sec_state_def SRV_FS_def)
qed

text \<open>
  An entry matches every group whose name is a prefix of it, because only the length of
  the requested name is compared: a task in the group \<^verbatim>\<open>timezone\<close>, and in no group named \<^verbatim>\<open>time\<close>,
  may set the clock.
\<close>

lemma task_allowed_prefix:
  "acl_live sec_task = [sec_ace ''timezone'' 7, sec_ace ''storage'' 1] \<and>
   task_allowed sec_task (chars ''time'') A_WRITE \<and>
   fst (msg_allowed sec_task SRV_CORE SYS_stime sec_state)"
proof -
  have e: "EVT_FUNC SYS_stime = SYS_stime" by (simp add: EVT_FUNC_def core_evt_defs)
  have "task_allowed sec_task (chars ''time'') A_WRITE"
    using sec_task_acl by (simp add: task_allowed_find ace_for_def chars_def sec_ace_def A_WRITE_def nth_append)
  then show ?thesis using sec_task_acl
    by (simp add: msg_allowed_def msg_decide_def core_allowed_def e) (simp add: core_evt_defs)
qed

end
