(* ===== verification/Core_Msg.thy ===== *)
theory Core_Msg
  imports Core_Sched_Fair Core_Security Core_Sprintf
begin

text \<open>
  Message passing, \<^verbatim>\<open>src/core/msg.c\<close>. Every task has a ring of 191 message slots behind the queue
  header in its second page; the slots of the two pages behind it become present when they are
  first needed. The running task is \<open>space s\<close>, the task whose address space is active, so its
  control block is what the code finds at address 0 and its queue header what it finds at 4096.
  Reading a slot on a page that is not present is a page fault of the core.
\<close>

section \<open>Operations\<close>

definition MQ_BUF :: u64 where "MQ_BUF = 16384"
definition MQ_MAX :: u64 where "MQ_MAX = (MQ_BUF - PAGESIZE) div 64"
definition PG_QUEUE :: u64 where "PG_QUEUE = 0x8000000000000005"
definition PG_BUFFER :: u64 where "PG_BUFFER = 0x81d"


abbreviation cur_tcb :: "kstate \<Rightarrow> tcb_t" where "cur_tcb s \<equiv> get_tcb (space s) s"
abbreviation cur_pid :: "kstate \<Rightarrow> u64" where "cur_pid s \<equiv> tcb_pid (cur_tcb s)"

definition upd_mq :: "u64 \<Rightarrow> (msghdr_t \<Rightarrow> msghdr_t) \<Rightarrow> kstate \<Rightarrow> kstate" where
  "upd_mq p f s = s\<lparr>mqs := (mqs s)(p := f (mqs s p))\<rparr>"

definition set_pte :: "u64 \<Rightarrow> u64 \<Rightarrow> u64 \<Rightarrow> kstate \<Rightarrow> kstate" where
  "set_pte p v e s = s\<lparr>ptes := (ptes s)(p := (ptes s p)(v := e))\<rparr>"

fun obind :: "'a outcome \<Rightarrow> ('a \<Rightarrow> 'b outcome) \<Rightarrow> 'b outcome" where
  "obind (KPanic e) f = KPanic e"
| "obind (Done x) f = f x"

subsection \<open>Ring indices\<close>

definition mq_wrap :: "u64 \<Rightarrow> u64" where
  "mq_wrap x = (if x \<ge> MQ_MAX then 1 else x)"

definition mq_init :: "msghdr_t \<Rightarrow> msghdr_t" where
  "mq_init q = q\<lparr>mq_start := (if mq_start q = 0 then 1 else mq_start q),
     mq_end := (if mq_end q = 0 then 1 else mq_end q)\<rparr>"

definition mq_advance :: "msghdr_t \<Rightarrow> msghdr_t" where
  "mq_advance q = q\<lparr>mq_end := mq_wrap (mq_end q + 1)\<rparr>"

text \<open>The page of the first page table that holds a slot.\<close>

definition mq_page :: "u64 \<Rightarrow> u64" where
  "mq_page k = (drop_bit 12 (64 * k) + 1) AND 511"

definition mq_next_serial :: "msghdr_t \<Rightarrow> msghdr_t" where
  "mq_next_serial q = q\<lparr>mq_serial := (if mq_serial q \<ge> USHRT_MAX then 1 else mq_serial q + 1)\<rparr>"

subsection \<open>msg_recv\<close>

text \<open>The loop that takes the next message: the slot it stops at and the new start.\<close>

partial_function (option) recv_first ::
  "(u64 \<Rightarrow> bool) \<Rightarrow> msghdr_t \<Rightarrow> u64 \<Rightarrow> (u64 \<times> u64) outcome option" where
  "recv_first present q st = (
     if \<not> present st then Some (KPanic ''page fault'')
     else if MSG_ISRESP (m_evt (mq_slots q (unat st))) \<and> mq_wrap (st + 1) \<noteq> mq_end q
     then recv_first present q (mq_wrap (st + 1))
     else Some (Done (st, mq_wrap (st + 1))))"

definition recv_any :: "(u64 \<Rightarrow> bool) \<Rightarrow> msghdr_t \<Rightarrow> (u64 option \<times> msghdr_t) outcome option" where
  "recv_any present q = map_option (\<lambda>r. obind r (\<lambda>(k, st).
     let msg = mq_slots q (unat k); q' = q\<lparr>mq_start := st\<rparr>
     in if MSG_ISRESP (m_evt msg) then Done (None, q')
        else Done (Some k, q'\<lparr>mq_total := mq_total q + 1,
          mq_bufstart := (if MSG_ISPTR (m_evt msg)
             then push_bit 12 (drop_bit 12 (m_arg0 msg + m_arg1 msg + PAGESIZE - 1)) else mq_bufstart q)\<rparr>)))
     (recv_first present q (mq_start q))"

definition prev_slot :: "u32 \<Rightarrow> u32" where
  "prev_slot i = (if i - 1 = 0 then ucast MQ_MAX - 1 else i - 1)"

definition reply_match :: "u64 \<Rightarrow> msg_t \<Rightarrow> bool" where
  "reply_match serial m \<longleftrightarrow> \<not> MSG_ISRESP (m_evt m) \<and> m_serial m = serial"

text \<open>The loop that looks for an answer from the end of the ring.\<close>

partial_function (option) reply_search ::
  "(u64 \<Rightarrow> bool) \<Rightarrow> msghdr_t \<Rightarrow> u64 \<Rightarrow> u32 \<Rightarrow> u32 outcome option" where
  "reply_search present q serial i = (
     let i' = prev_slot i in
     if \<not> present (ucast i') then Some (KPanic ''page fault'')
     else if \<not> reply_match serial (mq_slots q (unat i')) \<and> ucast i' \<noteq> mq_start q
     then reply_search present q serial i'
     else Some (Done i'))"

definition recv_reply :: "(u64 \<Rightarrow> bool) \<Rightarrow> u64 \<Rightarrow> msghdr_t \<Rightarrow> (u64 option \<times> msghdr_t) outcome option" where
  "recv_reply present serial q = (
     let j = prev_slot (ucast (mq_end q)) in
     map_option (\<lambda>r. obind r (\<lambda>i.
       let msg = mq_slots q (unat i) in
       if \<not> reply_match serial msg then Done (None, q)
       else
         let q' = q\<lparr>mq_total := mq_total q + 1\<rparr> in
         if i = j then Done (Some (ucast i), q'\<lparr>mq_end := ucast j,
             mq_bufend := (if MSG_ISPTR (m_evt msg) then m_arg0 msg AND NOT (PAGESIZE - 1) else mq_bufend q)\<rparr>)
         else Done (Some (ucast i), q'\<lparr>mq_slots := (mq_slots q)(unat i := msg\<lparr>m_evt := m_evt msg OR MSG_RESPONSED\<rparr>)\<rparr>)))
     (reply_search present q serial (ucast (mq_end q))))"

text \<open>The wake-up of a task that is blocked because it could not send.\<close>

definition wake_sender :: "kstate \<Rightarrow> kstate" where
  "wake_sender s = (
     let b = tcb_blksend (cur_tcb s); snd = TCB b in
     if b = 0 then s
     else if tcb_magic (get_tcb snd s) = OSZ_TCB_MAGICH \<and> cur_pid s \<noteq> tcb_pid (get_tcb snd s) then
       sched_awake snd (upd_tcb snd (\<lambda>t. t\<lparr>tcb_blksend := 0\<rparr>)
         (upd_tcb (space s) (\<lambda>t. t\<lparr>tcb_blksend := tcb_blksend (get_tcb snd s)\<rparr>) s))
     else upd_tcb (space s) (\<lambda>t. t\<lparr>tcb_blksend := 0\<rparr>) s)"

definition slot_present :: "kstate \<Rightarrow> u64 \<Rightarrow> bool" where
  "slot_present s k = vmm_ispresent (ptes s (cur_pid s) (drop_bit 12 (PAGESIZE + 64 * k)))"

text \<open>The part of \<open>msg_recv\<close> behind the trace: the slot of the message, if there is one.\<close>

definition recv_queue :: "u64 \<Rightarrow> kstate \<Rightarrow> (u64 option \<times> kstate) outcome option" where
  "recv_queue serial s = (
     let q = mqs s (cur_pid s) in
     if mq_start q = mq_end q then Some (Done (None, s))
     else map_option (\<lambda>r. obind r (\<lambda>(k, q'). Done (k, upd_mq (cur_pid s) (\<lambda>_. q') s)))
       (if serial = 0 then recv_any (slot_present s) q else recv_reply (slot_present s) serial q))"

definition recv_finish :: "u64 option \<Rightarrow> kstate \<Rightarrow> kstate" where
  "recv_finish k s = wake_sender (
     case k of None \<Rightarrow> s
     | Some k \<Rightarrow>
       let msg = mq_slots (mqs s (cur_pid s)) (unat k) in
       if EVT_FUNC (m_evt msg) = EVT_ack then seterr (scast (ucast (m_arg2 msg) :: u32)) s else s)"

subsection \<open>msg_send\<close>

definition evt_task :: "u64 \<Rightarrow> u64" where
  "evt_task event = signed_drop_bit 16 event"

definition send_dest :: "u64 \<Rightarrow> kstate \<Rightarrow> u64 option" where
  "send_dest task s = (
     if sint task < 0 then
       (if sint (- task) < int NUMSRV \<and> services s (unat (- task)) \<noteq> 0 then Some (services s (unat (- task))) else None)
     else Some task)"

text \<open>Making sure the page of the slot at the old end of the ring is there: the slot to use.\<close>

definition msg_page :: "u64 \<Rightarrow> u64 \<Rightarrow> kstate \<Rightarrow> (u64 \<times> kstate) outcome" where
  "msg_page dst k s = (
     let i = mq_page k; q = mqs s dst in
     if vmm_ispresent (ptes s dst i) then Done (k, s)
     else if mq_start q + 1 = mq_end q then Done (1, upd_mq dst (\<lambda>q. q\<lparr>mq_end := 1\<rparr>) s)
     else obind (pmm_alloc (TCB dst) 1 s) (\<lambda>(p, s).
       Done (k, upd_mq dst (\<lambda>q. q\<lparr>mq_slots := (\<lambda>n. if mq_page (of_nat n) = i then zero_msg else mq_slots q n)\<rparr>)
         (set_pte dst i (p OR PG_QUEUE) s))))"

text \<open>
  Mapping the pages of a buffer: \<open>n\<close> of them, from entry \<open>j\<close> of the sender's page table (the one
  that starts with the virtual page \<open>base\<close>) to entry \<open>i\<close> of the receiver's first one.
\<close>

fun link_pages :: "nat \<Rightarrow> u64 \<Rightarrow> u64 \<Rightarrow> u64 \<Rightarrow> u64 \<Rightarrow> u64 \<Rightarrow> kstate \<Rightarrow> kstate" where
  "link_pages 0 src base dst j i s = s"
| "link_pages (Suc n) src base dst j i s = link_pages n src base dst (j + 1) (i + 1)
     (set_pte dst i (vmm_phyaddr (ptes s src (base + j)) OR PG_BUFFER)
       (if ptes s dst i \<noteq> 0 then upd_tcb (TCB dst) (\<lambda>t. t\<lparr>tcb_linkmem := tcb_linkmem t - 1\<rparr>) s else s))"

definition page_up :: "u64 \<Rightarrow> u64" where
  "page_up x = drop_bit 12 (x + PAGESIZE - 1)"

definition map_buffer :: "u64 \<Rightarrow> u64 \<Rightarrow> u64 \<Rightarrow> u64 \<Rightarrow> kstate \<Rightarrow> u64 \<times> kstate" where
  "map_buffer src dst a b s = (
     let q = mqs s dst;
         i = drop_bit 12 (if mq_bufend q + b < SLOTSIZE then mq_bufend q else MQ_BUF);
         i = (if i < 2 then 2 else i);
         j = drop_bit 12 a AND 511;
         k = page_up (a + b) AND 511;
         a' = push_bit 12 i + (a AND (PAGESIZE - 1));
         s = upd_mq dst (\<lambda>q. q\<lparr>mq_bufend := push_bit 12 (page_up (a' + b))\<rparr>) s;
         s = upd_tcb (TCB dst) (\<lambda>t. t\<lparr>tcb_linkmem := tcb_linkmem t + (k - j)\<rparr>) s
     in (a', link_pages (unat k - unat j) src (push_bit 9 (drop_bit 21 a)) dst j i s))"

text \<open>
  The buffer of a message: an error code, or the address the receiver sees it at.
\<close>

definition msg_buffer :: "u64 \<Rightarrow> u64 \<Rightarrow> u64 \<Rightarrow> u64 \<Rightarrow> u64 \<Rightarrow> kstate \<Rightarrow> (u64 + u64) \<times> kstate" where
  "msg_buffer event src dst a b s = (
     if event AND MSG_PTRDATA = 0 then (Inr a, s)
     else if a < TEXT_ADDRESS \<or> (a \<ge> BUF_ADDRESS \<and> a < SDYN_ADDRESS) \<or> a \<ge> LDYN_ADDRESS then (Inl EFAULT, s)
     else if \<not> a < BUF_ADDRESS then (Inr a, s)
     else
       let s = upd_mq dst (\<lambda>q. q\<lparr>mq_bufstart := (if mq_bufstart q < MQ_BUF then MQ_BUF else mq_bufstart q),
                 mq_bufend := (if mq_bufend q < MQ_BUF then MQ_BUF else mq_bufend q)\<rparr>) s;
           q = mqs s dst
       in if b > BUFFSIZE \<or> (mq_bufend q + b > SLOTSIZE \<and> MQ_BUF + b > mq_bufstart q) then (Inl ENOTSHM, s)
          else (case map_buffer src dst a b s of (a', s) \<Rightarrow> (Inr a', s)))"

definition msg_make :: "u64 \<Rightarrow> u64 \<Rightarrow> u64 \<Rightarrow> u64 \<Rightarrow> u64 \<Rightarrow> u64 \<Rightarrow> u64 \<Rightarrow> u64 \<Rightarrow> u64 \<Rightarrow> msg_t" where
  "msg_make srcpid event a b c d e f serial = \<lparr>m_evt = EVT_DEST srcpid OR (event AND 0x7FFF),
     m_arg0 = a, m_arg1 = b, m_arg2 = c, m_arg3 = d, m_arg4 = e, m_arg5 = f, m_serial = serial\<rparr>"

definition mq_put :: "u64 \<Rightarrow> msg_t \<Rightarrow> msghdr_t \<Rightarrow> msghdr_t" where
  "mq_put k m q = q\<lparr>mq_slots := (mq_slots q)(unat k := m)\<rparr>"

text \<open>A full ring: the sender is chained to the receiver and blocked.\<close>

definition send_block :: "(kstate \<Rightarrow> kstate) \<Rightarrow> u64 \<Rightarrow> kstate \<Rightarrow> kstate" where
  "send_block drvready dst s = (
     if \<not> in_trace s \<and> cur_pid s \<noteq> tcb_pid (get_tcb (TCB dst) s) then
       let s = upd_tcb (space s) (\<lambda>t. t\<lparr>tcb_blksend := tcb_blksend (get_tcb (TCB dst) s)\<rparr>) s;
           s = upd_tcb (TCB dst) (\<lambda>t. t\<lparr>tcb_blksend := cur_pid s\<rparr>) s
       in sched_pick drvready (sched_block (space s) s)
     else seterr EBUSY s)"

definition send_queue :: "(kstate \<Rightarrow> kstate) \<Rightarrow> u64 \<Rightarrow> u64 \<Rightarrow> u64 \<Rightarrow> u64 \<Rightarrow> u64 \<Rightarrow> u64 \<Rightarrow> u64 \<Rightarrow> u64 \<Rightarrow>
    u64 \<Rightarrow> kstate \<Rightarrow> (u64 \<times> kstate) outcome" where
  "send_queue drvready dst a b c d e f event serial s = (
     let k = mq_end (mq_init (mqs s dst));
         s = upd_mq dst (\<lambda>q. mq_advance (mq_init q)) s
     in if mq_end (mqs s dst) = mq_start (mqs s dst) then Done (0, send_block drvready dst s)
        else obind (msg_page dst k s) (\<lambda>(k, s).
          case msg_buffer event (cur_pid s) dst a b s of
            (Inl err, s) \<Rightarrow> Done (0, seterr err s)
          | (Inr a', s) \<Rightarrow>
              let s = upd_mq dst mq_next_serial s;
                  r = EVT_DEST (cur_pid s) OR mq_serial (mqs s dst);
                  m = msg_make (cur_pid s) event a' b c d e f (if serial \<noteq> 0 then serial else r)
              in Done (r, sched_awake (TCB dst) (upd_mq dst (mq_put k m) s))))"

text \<open>The text of a trace line and its delivery to the file system service.\<close>

definition TRACEBUFSIZ :: nat where "TRACEBUFSIZ = 256"

definition trace_write :: "u8 list \<Rightarrow> kstate \<Rightarrow> kstate" where
  "trace_write t s = s\<lparr>umem := (umem s)(cur_pid s :=
     put_bytes (tcb_tracebuf (cur_tcb s)) (t @ [0])
       (put_bytes (tcb_tracebuf (cur_tcb s)) (replicate TRACEBUFSIZ 0) (umem s (cur_pid s))))\<rparr>"

definition trace_send_text :: "u64 \<Rightarrow> u64 \<Rightarrow> u64 \<Rightarrow> u64 \<Rightarrow> u64 \<Rightarrow> u64 \<Rightarrow> u64 \<Rightarrow> u64 \<Rightarrow> u64 \<Rightarrow> u64 \<Rightarrow> u8 list option" where
  "trace_send_text ticks dst evt event a b c d e f = (
     case (sprintf ''[%d] %3x.%2x('' [AInt ticks, AInt dst, AInt evt],
           sprintf (if event AND MSG_PTRDATA \<noteq> 0 then ''*%x[%d]'' else ''%x,%x'') [AInt a, AInt b],
           sprintf '',%x,%x,%x,%x)\<newline>'' [AInt c, AInt d, AInt e, AInt f]) of
       (Some x, Some y, Some z) \<Rightarrow> Some (x @ y @ z) | _ \<Rightarrow> None)"

definition trace_event :: u64 where
  "trace_event = EVT_DEST SRV_FS OR SYS_fwrite OR MSG_PTRDATA"

text \<open>
  \<open>msg_send\<close> with the nested call that sends a trace line as an argument. That call runs with
  \<^verbatim>\<open>in_trace\<close> set and never traces itself, so one level of nesting is the whole recursion.
\<close>

definition msg_send_with ::
  "(u64 \<Rightarrow> u64 \<Rightarrow> kstate \<Rightarrow> (u64 \<times> kstate) outcome) \<Rightarrow> (kstate \<Rightarrow> kstate) \<Rightarrow> u64 \<Rightarrow> u64 \<Rightarrow> u64 \<Rightarrow> u64 \<Rightarrow>
    u64 \<Rightarrow> u64 \<Rightarrow> u64 \<Rightarrow> u64 \<Rightarrow> kstate \<Rightarrow> (u64 \<times> kstate) outcome" where
  "msg_send_with nested drvready a b c d e f event serial s = (
     let task = evt_task event; evt = EVT_FUNC event in
     if task = 0 then Done (0, s)
     else case msg_allowed (cur_tcb s) task evt s of
       (False, s) \<Rightarrow> Done (0, s)
     | (True, s) \<Rightarrow>
         (case send_dest task s of
            None \<Rightarrow> Done (0, seterr ESRCH s)
          | Some dst \<Rightarrow>
              let s = s\<lparr>srand := srand_at dst (\<lambda>x. x XOR clock_ts s) (srand s)\<rparr> in
              if tcb_magic (get_tcb (TCB dst) s) \<noteq> OSZ_TCB_MAGICH then Done (0, seterr ESRCH s)
              else if tcb_priority (get_tcb (TCB dst) s) = PRI_DRV \<and> (cur_pid s \<noteq> srv_pid SRV_FS s \<or> evt = 0)
              then Done (0, seterr EPERM s)
              else obind
                (if \<not> in_trace s \<and> tcb_tracebuf (cur_tcb s) \<noteq> 0 \<and> cur_pid s \<noteq> srv_pid SRV_FS s then
                   (case trace_send_text (clock_ticks s) dst evt event a b c d e f of
                      None \<Rightarrow> KPanic ''tmpstr''
                    | Some t \<Rightarrow> obind (nested (tcb_tracebuf (cur_tcb s)) (of_nat (length t + 1))
                          ((trace_write t s)\<lparr>in_trace := True\<rparr>))
                        (\<lambda>(_, s). Done (s\<lparr>in_trace := False\<rparr>)))
                 else Done s)
                (\<lambda>s. send_queue drvready dst a b c d e f event serial (seterr SUCCESS s))))"

definition msg_send_nested :: "(kstate \<Rightarrow> kstate) \<Rightarrow> u64 \<Rightarrow> u64 \<Rightarrow> kstate \<Rightarrow> (u64 \<times> kstate) outcome" where
  "msg_send_nested drvready a b = msg_send_with (\<lambda>_ _ s. Done (0, s)) drvready a b 3 0 0 0 trace_event 0"

definition msg_send :: "(kstate \<Rightarrow> kstate) \<Rightarrow> u64 \<Rightarrow> u64 \<Rightarrow> u64 \<Rightarrow> u64 \<Rightarrow> u64 \<Rightarrow> u64 \<Rightarrow> u64 \<Rightarrow> u64 \<Rightarrow>
    kstate \<Rightarrow> (u64 \<times> kstate) outcome" where
  "msg_send drvready = msg_send_with (msg_send_nested drvready) drvready"

definition recv_trace :: "(kstate \<Rightarrow> kstate) \<Rightarrow> u64 \<Rightarrow> kstate \<Rightarrow> kstate outcome" where
  "recv_trace drvready serial s = (
     if tcb_tracebuf (cur_tcb s) \<noteq> 0 \<and> cur_pid s \<noteq> srv_pid SRV_FS s then
       (case sprintf ''[%d] 000000.0000(%x)\<newline>'' [AInt (clock_ticks s), AInt serial] of
          None \<Rightarrow> KPanic ''tmpstr''
        | Some t \<Rightarrow> obind (msg_send drvready (tcb_tracebuf (cur_tcb s)) (of_nat (length t + 1)) 3 0 0 0 trace_event 0
              (trace_write t s)) (\<lambda>(_, s). Done s))
     else Done s)"

definition msg_recv :: "(kstate \<Rightarrow> kstate) \<Rightarrow> u64 \<Rightarrow> kstate \<Rightarrow> (u64 option \<times> kstate) outcome option" where
  "msg_recv drvready serial s = (
     if cur_pid s = tcb_pid (idle_tcb s) then Some (Done (None, s))
     else case recv_trace drvready serial s of
         KPanic e \<Rightarrow> Some (KPanic e)
       | Done s \<Rightarrow> map_option (\<lambda>r. obind r (\<lambda>(k, s). Done (k, recv_finish k s))) (recv_queue serial s))"

subsection \<open>msg_notify\<close>

definition notify_put :: "u64 \<Rightarrow> u64 \<Rightarrow> u64 \<Rightarrow> u64 \<Rightarrow> msghdr_t \<Rightarrow> msghdr_t" where
  "notify_put k event a ticks q = mq_put k ((mq_slots q (unat k))\<lparr>m_evt := EVT_FUNC event, m_arg0 := a,
     m_arg1 := ticks, m_serial := mq_serial q\<rparr>) q"

definition msg_notify :: "u64 \<Rightarrow> u64 \<Rightarrow> u64 \<Rightarrow> kstate \<Rightarrow> kstate outcome" where
  "msg_notify pid event a s = (
     if pid = 0 \<or> tcb_magic (get_tcb (TCB pid) s) \<noteq> OSZ_TCB_MAGICH then Done s
     else
       let s = sched_awake (TCB pid) s;
           k = mq_end (mq_init (mqs s pid));
           s = upd_mq pid (\<lambda>q. mq_advance (mq_next_serial (mq_init q))) s
       in obind (msg_page pid k s) (\<lambda>(k, s). Done (upd_mq pid (notify_put k event a (clock_ticks s)) s)))"

end
