(* ===== verification/Core_Msg_Queue.thy ===== *)
theory Core_Msg_Queue
  imports Core_Msg "HOL-Library.Sublist"
begin

text \<open>
  The ring of message slots as a list: what appending, taking the next message and waiting for
  an answer do to it, the contract of a bounded queue and the proof that the ring meets it.
\<close>

section \<open>The ring\<close>

text \<open>
  Slot numbers run from 1 to 191. \<open>ring_list S a n\<close> lists \<open>n\<close> slots from \<open>a\<close> on, and
  \<open>ring_len a b\<close> is the number of slots from \<open>a\<close> up to, not including, \<open>b\<close>.
\<close>

definition ring_next :: "nat \<Rightarrow> nat" where
  "ring_next a = (if a = 191 then 1 else a + 1)"

definition ring_len :: "nat \<Rightarrow> nat \<Rightarrow> nat" where
  "ring_len a b = (if a \<le> b then b - a else b + 191 - a)"

definition ring_idx :: "nat \<Rightarrow> nat \<Rightarrow> nat" where
  "ring_idx a i = (if a + i \<le> 191 then a + i else a + i - 191)"

primrec ring_list :: "(nat \<Rightarrow> 'a) \<Rightarrow> nat \<Rightarrow> nat \<Rightarrow> 'a list" where
  "ring_list S a 0 = []"
| "ring_list S a (Suc n) = S a # ring_list S (ring_next a) n"

lemma length_ring_list [simp]: "length (ring_list S a n) = n"
  by (induction n arbitrary: a) auto

lemma ring_list_append:
  assumes "1 \<le> a" "a \<le> 191" "n < 191"
  shows "ring_list S a (Suc n) = ring_list S a n @ [S (ring_idx a n)]"
  using assms
proof (induction n arbitrary: a)
  case 0
  then show ?case by (simp add: ring_idx_def)
next
  case (Suc n)
  have n: "1 \<le> ring_next a" "ring_next a \<le> 191" "ring_idx (ring_next a) n = ring_idx a (Suc n)"
    using Suc.prems by (auto simp: ring_next_def ring_idx_def)
  have "ring_list S a (Suc (Suc n)) = S a # ring_list S (ring_next a) (Suc n)" by (simp only: ring_list.simps(2))
  also have "ring_list S (ring_next a) (Suc n) = ring_list S (ring_next a) n @ [S (ring_idx a (Suc n))]"
    using Suc.IH [OF n(1,2)] Suc.prems n(3) by simp
  finally show ?case by simp
qed

lemma ring_list_cong:
  assumes "\<And>i. i < n \<Longrightarrow> S (ring_idx a i) = S' (ring_idx a i)" and "1 \<le> a" "a \<le> 191" "n \<le> 191"
  shows "ring_list S a n = ring_list S' a n"
  using assms
proof (induction n arbitrary: a)
  case (Suc n)
  have n: "1 \<le> ring_next a" "ring_next a \<le> 191"
    using Suc.prems by (auto simp: ring_next_def)
  have i: "ring_idx (ring_next a) i = ring_idx a (Suc i)" if "i < n" for i
    using Suc.prems that by (auto simp: ring_next_def ring_idx_def)
  have "ring_list S (ring_next a) n = ring_list S' (ring_next a) n"
    using Suc.prems(1) [of "Suc _"] i Suc.prems(4) by (intro Suc.IH n) auto
  moreover have "S a = S' a" using Suc.prems(1) [of 0] Suc.prems(2,3) by (simp add: ring_idx_def)
  ultimately show ?case by simp
qed simp

lemma ring_len_simps:
  assumes "1 \<le> a" "a \<le> 191" "1 \<le> b" "b \<le> 191"
  shows "ring_len a b < 191" and "ring_len a b = 0 \<longleftrightarrow> a = b" and "ring_idx a (ring_len a b) = b"
    and "a \<noteq> b \<Longrightarrow> ring_len a b = Suc (ring_len (ring_next a) b)"
    and "ring_next b \<noteq> a \<Longrightarrow> ring_len a (ring_next b) = Suc (ring_len a b)"
    and "ring_next b = a \<Longrightarrow> ring_len a b = 190"
  using assms by (auto simp: ring_len_def ring_idx_def ring_next_def split: if_splits)

lemma ring_idx_inj:
  assumes "1 \<le> a" "a \<le> 191" "i < 191" "j < 191" "ring_idx a i = ring_idx a j"
  shows "i = j"
  using assms by (auto simp: ring_idx_def split: if_splits)

lemma ring_idx_range: "1 \<le> a \<Longrightarrow> a \<le> 191 \<Longrightarrow> i < 191 \<Longrightarrow> 1 \<le> ring_idx a i \<and> ring_idx a i \<le> 191"
  by (auto simp: ring_idx_def)

lemma MQ_MAX_eq: "MQ_MAX = 192"
  by (simp add: MQ_MAX_def MQ_BUF_def PAGESIZE_def)

lemma unat_mq_wrap:
  assumes "1 \<le> unat k" "unat k \<le> 191"
  shows "unat (mq_wrap (k + 1)) = ring_next (unat k)"
proof -
  have "unat (k + 1) = unat k + 1" using assms by (simp add: unat_word_ariths)
  then show ?thesis using assms
    by (auto simp: mq_wrap_def MQ_MAX_eq word_le_nat_alt ring_next_def)
qed

subsection \<open>Queues\<close>

definition mq_ok :: "msghdr_t \<Rightarrow> bool" where
  "mq_ok q \<longleftrightarrow> 1 \<le> unat (mq_start q) \<and> unat (mq_start q) \<le> 191 \<and> 1 \<le> unat (mq_end q) \<and> unat (mq_end q) \<le> 191"

definition mq_len :: "msghdr_t \<Rightarrow> nat" where
  "mq_len q = ring_len (unat (mq_start q)) (unat (mq_end q))"

definition mq_list :: "msghdr_t \<Rightarrow> msg_t list" where
  "mq_list q = ring_list (mq_slots q) (unat (mq_start q)) (mq_len q)"

definition mq_enq :: "msg_t \<Rightarrow> msghdr_t \<Rightarrow> msghdr_t" where
  "mq_enq m q = mq_put (mq_end q) m (mq_advance q)"

definition mq_pending :: "msghdr_t \<Rightarrow> msg_t list" where
  "mq_pending q = filter (\<lambda>m. \<not> MSG_ISRESP (m_evt m)) (mq_list q)"

lemma mq_init_ok: "mq_ok q \<Longrightarrow> mq_init q = q"
  by (auto simp: mq_ok_def mq_init_def)

lemma mq_fields [simp]:
  "mq_start (mq_put k m q) = mq_start q" "mq_end (mq_put k m q) = mq_end q"
  "mq_slots (mq_put k m q) = (mq_slots q)(unat k := m)"
  "mq_start (mq_advance q) = mq_start q" "mq_end (mq_advance q) = mq_wrap (mq_end q + 1)"
  "mq_slots (mq_advance q) = mq_slots q"
  "mq_start (mq_next_serial q) = mq_start q" "mq_end (mq_next_serial q) = mq_end q"
  "mq_slots (mq_next_serial q) = mq_slots q"
  by (simp_all add: mq_put_def mq_advance_def mq_next_serial_def)

text \<open>The ring is full when advancing its end would meet the start.\<close>

lemma mq_full_iff:
  assumes "mq_ok q"
  shows "mq_wrap (mq_end q + 1) = mq_start q \<longleftrightarrow> mq_len q = 190"
proof -
  let ?a = "unat (mq_start q)" and ?b = "unat (mq_end q)"
  have ab: "1 \<le> ?a" "?a \<le> 191" "1 \<le> ?b" "?b \<le> 191" using assms by (auto simp: mq_ok_def)
  have "(mq_wrap (mq_end q + 1) = mq_start q) = (ring_next ?b = ?a)"
    using unat_mq_wrap [OF ab(3,4)] by (metis word_eq_iff_unat)
  also have "\<dots> = (mq_len q = 190)"
    using ab by (auto simp: mq_len_def ring_len_def ring_next_def)
  finally show ?thesis .
qed

lemma mq_enq_list:
  assumes "mq_ok q" and "mq_len q < 190"
  shows "mq_ok (mq_enq m q)" and "mq_list (mq_enq m q) = mq_list q @ [m]" and "mq_len (mq_enq m q) = Suc (mq_len q)"
proof -
  let ?a = "unat (mq_start q)" and ?b = "unat (mq_end q)"
  have ab: "1 \<le> ?a" "?a \<le> 191" "1 \<le> ?b" "?b \<le> 191" using assms(1) by (auto simp: mq_ok_def)
  note w = unat_mq_wrap [OF ab(3,4)]
  show ok: "mq_ok (mq_enq m q)"
    using ab by (auto simp: mq_ok_def mq_enq_def w ring_next_def)
  have ne: "ring_next ?b \<noteq> ?a" using assms(2) ring_len_simps(6) [OF ab] by (auto simp: mq_len_def)
  show len: "mq_len (mq_enq m q) = Suc (mq_len q)"
    using ring_len_simps(5) [OF ab ne] by (simp add: mq_len_def mq_enq_def w)
  have l: "mq_len q < 191" using assms(2) by simp
  have idx: "ring_idx ?a (mq_len q) = ?b" using ring_len_simps(3) [OF ab] by (simp add: mq_len_def)
  have "ring_list ((mq_slots q)(?b := m)) ?a (mq_len q) = ring_list (mq_slots q) ?a (mq_len q)"
  proof (rule ring_list_cong)
    fix i assume "i < mq_len q"
    then have "ring_idx ?a i \<noteq> ?b"
      using ring_idx_inj [OF ab(1,2), of i "mq_len q"] l idx by auto
    then show "((mq_slots q)(?b := m)) (ring_idx ?a i) = mq_slots q (ring_idx ?a i)" by simp
  qed (use ab l in auto)
  then show "mq_list (mq_enq m q) = mq_list q @ [m]"
    using ring_list_append [OF ab(1,2) l, of "(mq_slots q)(?b := m)"] idx len
    by (simp add: mq_list_def mq_enq_def)
qed

text \<open>
  Taking the next message out: the loop of \<open>msg_recv\<close> skips the answered ones. On a list, the leading elements to be
  skipped go, and the next one, if there is any, is the result.
\<close>

definition skip_deq :: "('m \<Rightarrow> bool) \<Rightarrow> 'm list \<Rightarrow> 'm option \<times> 'm list" where
  "skip_deq skip xs = (case dropWhile skip xs of [] \<Rightarrow> (None, []) | m # ms \<Rightarrow> (Some m, ms))"

lemma skip_deq_simps [simp]:
  "skip_deq skip [] = (None, [])" "skip m \<Longrightarrow> skip_deq skip (m # ms) = skip_deq skip ms"
  "\<not> skip m \<Longrightarrow> skip_deq skip (m # ms) = (Some m, ms)"
  by (simp_all add: skip_deq_def)

abbreviation answered :: "msg_t \<Rightarrow> bool" where "answered m \<equiv> MSG_ISRESP (m_evt m)"

lemma recv_first_spec:
  assumes "mq_ok (q\<lparr>mq_start := st\<rparr>)" and "mq_len (q\<lparr>mq_start := st\<rparr>) = Suc n"
    and "\<And>k. 1 \<le> unat k \<Longrightarrow> unat k \<le> 191 \<Longrightarrow> present k"
  shows "\<exists>k st'. recv_first present q st = Some (Done (k, st')) \<and> mq_ok (q\<lparr>mq_start := st'\<rparr>) \<and>
     1 \<le> unat k \<and> unat k \<le> 191 \<and> mq_len (q\<lparr>mq_start := st'\<rparr>) \<le> n \<and>
     (if MSG_ISRESP (m_evt (mq_slots q (unat k))) then mq_pending (q\<lparr>mq_start := st\<rparr>) = [] \<and> mq_pending (q\<lparr>mq_start := st'\<rparr>) = []
      else mq_pending (q\<lparr>mq_start := st\<rparr>) = mq_slots q (unat k) # mq_pending (q\<lparr>mq_start := st'\<rparr>)) \<and>
     skip_deq answered (mq_list (q\<lparr>mq_start := st\<rparr>)) =
       (if answered (mq_slots q (unat k)) then None else Some (mq_slots q (unat k)), mq_list (q\<lparr>mq_start := st'\<rparr>))"
  using assms
proof (induction n arbitrary: st rule: less_induct)
  case (less n)
  let ?b = "unat (mq_end q)" and ?nx = "mq_wrap (st + 1)"
  have ab: "1 \<le> unat st" "unat st \<le> 191" "1 \<le> ?b" "?b \<le> 191" using less.prems(1) by (auto simp: mq_ok_def)
  note w = unat_mq_wrap [OF ab(1,2)]
  have ne: "unat st \<noteq> ?b" using less.prems(2) ring_len_simps(2) [OF ab] by (simp add: mq_len_def)
  have len: "mq_len (q\<lparr>mq_start := ?nx\<rparr>) = n"
    using ring_len_simps(4) [OF ab ne] less.prems(2) by (simp add: mq_len_def w)
  have ok: "mq_ok (q\<lparr>mq_start := ?nx\<rparr>)" using ab by (auto simp: mq_ok_def w ring_next_def)
  have lst: "mq_list (q\<lparr>mq_start := st\<rparr>) = mq_slots q (unat st) # mq_list (q\<lparr>mq_start := ?nx\<rparr>)"
    using less.prems(2) len by (simp add: mq_list_def w)
  have pres: "present st" using less.prems(3) ab by simp
  let ?m = "mq_slots q (unat st)"
  consider (skip) "MSG_ISRESP (m_evt ?m)" "?nx \<noteq> mq_end q" | (last) "MSG_ISRESP (m_evt ?m)" "?nx = mq_end q"
    | (take) "\<not> MSG_ISRESP (m_evt ?m)" by blast
  then show ?case
  proof cases
    case skip
    have "n \<noteq> 0" using skip(2) len ring_len_simps(2) [of "unat ?nx" ?b] ok ab
      by (auto simp: mq_len_def mq_ok_def word_eq_iff_unat)
    then obtain n' where n': "n = Suc n'" by (cases n) auto
    have r: "recv_first present q st = recv_first present q ?nx"
      using skip pres by (simp add: recv_first.simps [of present q st])
    have p: "mq_pending (q\<lparr>mq_start := st\<rparr>) = mq_pending (q\<lparr>mq_start := ?nx\<rparr>)"
      using skip lst by (simp add: mq_pending_def)
    have "mq_len (q\<lparr>mq_start := ?nx\<rparr>) = Suc n'" using len n' by simp
    from less.IH [OF _ ok this less.prems(3)] n' obtain k st' where
      "recv_first present q ?nx = Some (Done (k, st'))" "mq_ok (q\<lparr>mq_start := st'\<rparr>)" "1 \<le> unat k" "unat k \<le> 191"
      "mq_len (q\<lparr>mq_start := st'\<rparr>) \<le> n'"
      "if MSG_ISRESP (m_evt (mq_slots q (unat k))) then mq_pending (q\<lparr>mq_start := ?nx\<rparr>) = [] \<and> mq_pending (q\<lparr>mq_start := st'\<rparr>) = []
       else mq_pending (q\<lparr>mq_start := ?nx\<rparr>) = mq_slots q (unat k) # mq_pending (q\<lparr>mq_start := st'\<rparr>)"
      "skip_deq answered (mq_list (q\<lparr>mq_start := ?nx\<rparr>)) =
        (if answered (mq_slots q (unat k)) then None else Some (mq_slots q (unat k)), mq_list (q\<lparr>mq_start := st'\<rparr>))"
      by blast
    moreover have "skip_deq answered (mq_list (q\<lparr>mq_start := st\<rparr>)) = skip_deq answered (mq_list (q\<lparr>mq_start := ?nx\<rparr>))"
      using skip(1) lst by simp
    ultimately show ?thesis unfolding r p n' by (intro exI [of _ k] exI [of _ st']) auto
  next
    case last
    then have "n = 0" using len ring_len_simps(2) [of ?b ?b] ab by (simp add: mq_len_def)
    then have "mq_list (q\<lparr>mq_start := ?nx\<rparr>) = []" using len by (simp add: mq_list_def)
    then show ?thesis using last pres ok ab lst len
      by (intro exI [of _ st] exI [of _ ?nx]) (simp add: recv_first.simps [of present q st] mq_pending_def)
  next
    case take
    then show ?thesis using pres ok ab lst len
      by (intro exI [of _ st] exI [of _ ?nx]) (simp add: recv_first.simps [of present q st] mq_pending_def)
  qed
qed

text \<open>Fields that are not part of the ring do not matter to its contents.\<close>

lemma mq_list_cong:
  assumes "mq_start q' = mq_start q" "mq_end q' = mq_end q" "mq_slots q' = mq_slots q"
  shows "mq_list q' = mq_list q" "mq_len q' = mq_len q" "mq_ok q' = mq_ok q" "mq_pending q' = mq_pending q"
  using assms by (simp_all add: mq_list_def mq_len_def mq_ok_def mq_pending_def)

lemma recv_any_spec:
  assumes "mq_ok q" and "mq_start q \<noteq> mq_end q" and "\<And>k. 1 \<le> unat k \<Longrightarrow> unat k \<le> 191 \<Longrightarrow> present k"
  shows "\<exists>k q'. recv_any present q = Some (Done (k, q')) \<and> mq_ok q' \<and> mq_len q' < mq_len q \<and>
     mq_end q' = mq_end q \<and> mq_slots q' = mq_slots q \<and>
     (case k of None \<Rightarrow> mq_pending q = [] \<and> mq_pending q' = []
      | Some k \<Rightarrow> 1 \<le> unat k \<and> unat k \<le> 191 \<and> mq_pending q = mq_slots q (unat k) # mq_pending q') \<and>
     skip_deq answered (mq_list q) = (map_option (\<lambda>k. mq_slots q (unat k)) k, mq_list q')"
proof -
  have st: "q\<lparr>mq_start := mq_start q\<rparr> = q" by simp
  have "mq_len q \<noteq> 0"
    using assms(1,2) ring_len_simps(2) [of "unat (mq_start q)" "unat (mq_end q)"]
    by (auto simp: mq_len_def mq_ok_def word_eq_iff_unat)
  then obtain n where n: "mq_len q = Suc n" by (cases "mq_len q") auto
  from recv_first_spec [of "mq_start q" q n present, unfolded st, OF assms(1) n assms(3)]
  obtain k st' where r: "recv_first present q (mq_start q) = Some (Done (k, st'))" "mq_ok (q\<lparr>mq_start := st'\<rparr>)"
    "1 \<le> unat k" "unat k \<le> 191" "mq_len (q\<lparr>mq_start := st'\<rparr>) \<le> n"
    "if MSG_ISRESP (m_evt (mq_slots q (unat k))) then mq_pending q = [] \<and> mq_pending (q\<lparr>mq_start := st'\<rparr>) = []
     else mq_pending q = mq_slots q (unat k) # mq_pending (q\<lparr>mq_start := st'\<rparr>)"
    "skip_deq answered (mq_list q) =
      (if answered (mq_slots q (unat k)) then None else Some (mq_slots q (unat k)), mq_list (q\<lparr>mq_start := st'\<rparr>))"
    by blast
  note c = mq_list_cong [of _ "q\<lparr>mq_start := st'\<rparr>"]
  show ?thesis
  proof (cases "MSG_ISRESP (m_evt (mq_slots q (unat k)))")
    case True
    with r n show ?thesis by (auto simp: recv_any_def Let_def)
  next
    case False
    let ?q = "q\<lparr>mq_start := st', mq_total := mq_total q + 1,
          mq_bufstart := (if MSG_ISPTR (m_evt (mq_slots q (unat k)))
             then push_bit 12 (drop_bit 12 (m_arg0 (mq_slots q (unat k)) + m_arg1 (mq_slots q (unat k)) + PAGESIZE - 1)) else mq_bufstart q)\<rparr>"
    have "recv_any present q = Some (Done (Some k, ?q))" using False r(1) by (simp add: recv_any_def Let_def)
    moreover have "mq_ok ?q" "mq_len ?q < mq_len q" "mq_pending ?q = mq_pending (q\<lparr>mq_start := st'\<rparr>)"
      "mq_list ?q = mq_list (q\<lparr>mq_start := st'\<rparr>)"
      using r n c [of ?q] by simp_all
    ultimately show ?thesis using r False by (intro exI [of _ "Some k"] exI [of _ ?q]) simp
  qed
qed

subsection \<open>First in, first out\<close>

text \<open>
  Sequences of sends and receives, on any queue. The abstract queue is a list of at most \<open>cap\<close> messages; a send to a
  full one leaves it empty: the message and all that waited are lost.
\<close>

datatype 'm fifo_op = Send 'm | Recv

fun run_queue :: "('m \<Rightarrow> 'q \<Rightarrow> 'q) \<Rightarrow> ('q \<Rightarrow> 'm option \<times> 'q) \<Rightarrow> 'm fifo_op list \<Rightarrow> 'q \<Rightarrow> 'm list \<times> 'q" where
  "run_queue enq deq [] q = ([], q)"
| "run_queue enq deq (Send m # ops) q = run_queue enq deq ops (enq m q)"
| "run_queue enq deq (Recv # ops) q = (case deq q of (r, q') \<Rightarrow>
     case run_queue enq deq ops q' of (ms, q'') \<Rightarrow> (case r of None \<Rightarrow> ms | Some m \<Rightarrow> m # ms, q''))"

fun sent :: "'m fifo_op list \<Rightarrow> 'm list" where
  "sent [] = []"
| "sent (Send m # ops) = m # sent ops"
| "sent (Recv # ops) = sent ops"

definition lossy_enq :: "nat \<Rightarrow> 'm \<Rightarrow> 'm list \<Rightarrow> 'm list" where
  "lossy_enq cap m xs = (if length xs = cap then [] else xs @ [m])"

fun lost :: "nat \<Rightarrow> ('m \<Rightarrow> bool) \<Rightarrow> 'm fifo_op list \<Rightarrow> 'm list \<Rightarrow> 'm list" where
  "lost cap skip [] xs = []"
| "lost cap skip (Send m # ops) xs =
     (if length xs = cap then xs @ [m] else []) @ lost cap skip ops (lossy_enq cap m xs)"
| "lost cap skip (Recv # ops) xs = lost cap skip ops (snd (skip_deq skip xs))"

text \<open>
  What is received and what still waits is a part, in the same order, of what waited and what was sent; together with the
  lost messages it is all of it.
\<close>

lemma lossy_order:
  assumes "run_queue (lossy_enq cap) (skip_deq skip) ops xs = (out, ys)"
  shows "subseq (out @ filter (\<lambda>m. \<not> skip m) ys) (filter (\<lambda>m. \<not> skip m) (xs @ sent ops)) \<and>
    mset out + filter_mset (\<lambda>m. \<not> skip m) (mset ys + mset (lost cap skip ops xs)) =
      filter_mset (\<lambda>m. \<not> skip m) (mset (xs @ sent ops))"
  using assms
proof (induction ops arbitrary: xs out ys)
  case Nil
  then show ?case by simp
next
  case (Cons op ops)
  show ?case
  proof (cases op)
    case (Send m)
    with Cons.prems have r: "run_queue (lossy_enq cap) (skip_deq skip) ops (lossy_enq cap m xs) = (out, ys)" by simp
    note IH = Cons.IH [OF r]
    show ?thesis
    proof (cases "length xs = cap")
      case True
      have "subseq (out @ filter (\<lambda>m. \<not> skip m) ys) (filter (\<lambda>m. \<not> skip m) (xs @ [m]) @ filter (\<lambda>m. \<not> skip m) (sent ops))"
        using IH True by (intro list_emb_append2) (simp add: lossy_enq_def)
      with IH True Send show ?thesis by (auto simp: lossy_enq_def ac_simps)
    next
      case False
      with IH Send show ?thesis by (simp add: lossy_enq_def)
    qed
  next
    case Recv
    obtain ms q where r: "run_queue (lossy_enq cap) (skip_deq skip) ops (snd (skip_deq skip xs)) = (ms, q)" by fastforce
    have f: "filter (\<lambda>m. \<not> skip m) xs = filter (\<lambda>m. \<not> skip m) (dropWhile skip xs)" by (induction xs) auto
    have mf: "filter_mset (\<lambda>m. \<not> skip m) (mset xs) = filter_mset (\<lambda>m. \<not> skip m) (mset (dropWhile skip xs))"
      using arg_cong [OF f, of mset] by simp
    show ?thesis
    proof (cases "dropWhile skip xs")
      case Nil
      have d: "skip_deq skip xs = (None, [])" unfolding skip_deq_def Nil by simp
      with Cons.prems Recv r have "out = ms" "ys = q" by simp_all
      with Cons.IH [OF r] d f mf Nil Recv show ?thesis by simp
    next
      case (Cons m xs')
      have d: "skip_deq skip xs = (Some m, xs')" unfolding skip_deq_def Cons by simp
      have m: "\<not> skip m" using Cons by (auto simp: dropWhile_eq_Cons_conv)
      from d \<open>run_queue _ _ (op # ops) xs = (out, ys)\<close> Recv r have "out = m # ms" "ys = q" by simp_all
      with Cons.IH [OF r] d f mf m Cons Recv show ?thesis by simp
    qed
  qed
qed

text \<open>The contract of a queue that loses what it holds when it overflows.\<close>

locale lossy_fifo =
  fixes inv :: "'q \<Rightarrow> bool" and items :: "'q \<Rightarrow> 'm list" and cap :: nat and skip :: "'m \<Rightarrow> bool"
    and enq :: "'m \<Rightarrow> 'q \<Rightarrow> 'q" and deq :: "'q \<Rightarrow> 'm option \<times> 'q"
  assumes enq_law: "inv q \<Longrightarrow> inv (enq m q) \<and> items (enq m q) = lossy_enq cap m (items q)"
    and deq_law: "inv q \<Longrightarrow> deq q = (r, q') \<Longrightarrow> inv q' \<and> skip_deq skip (items q) = (r, items q')"
begin

lemma run_refines:
  assumes "inv q" and "run_queue enq deq ops q = (out, q')"
  shows "inv q' \<and> run_queue (lossy_enq cap) (skip_deq skip) ops (items q) = (out, items q')"
  using assms
proof (induction ops arbitrary: q out q')
  case (Cons op ops)
  show ?case
  proof (cases op)
    case (Send m)
    note l = enq_law [OF Cons.prems(1), of m]
    have "run_queue enq deq ops (enq m q) = (out, q')" using Cons.prems(2) Send by simp
    from Cons.IH [OF conjunct1 [OF l] this] l Send show ?thesis by simp
  next
    case Recv
    obtain r q1 where d: "deq q = (r, q1)" by fastforce
    obtain ms q2 where r: "run_queue enq deq ops q1 = (ms, q2)" by fastforce
    note l = deq_law [OF Cons.prems(1) d]
    from Cons.IH [OF conjunct1 [OF l] r] l d r Recv Cons.prems(2) show ?thesis by simp
  qed
qed simp

lemma run_order:
  assumes "inv q" and "run_queue enq deq ops q = (out, q')"
  shows "inv q' \<and> run_queue (lossy_enq cap) (skip_deq skip) ops (items q) = (out, items q') \<and>
    subseq (out @ filter (\<lambda>m. \<not> skip m) (items q')) (filter (\<lambda>m. \<not> skip m) (items q @ sent ops)) \<and>
    mset out + filter_mset (\<lambda>m. \<not> skip m) (mset (items q') + mset (lost cap skip ops (items q))) =
      filter_mset (\<lambda>m. \<not> skip m) (mset (items q @ sent ops)) \<and>
    (lost cap skip ops (items q) = [] \<longrightarrow>
      out @ filter (\<lambda>m. \<not> skip m) (items q') = filter (\<lambda>m. \<not> skip m) (items q @ sent ops))"
proof -
  let ?f = "filter (\<lambda>m. \<not> skip m)"
  note r = run_refines [OF assms]
  note o = lossy_order [OF conjunct2 [OF r]]
  have "out @ ?f (items q') = ?f (items q @ sent ops)" if "lost cap skip ops (items q) = []"
  proof (rule subseq_same_length)
    have "mset (out @ ?f (items q')) = mset (?f (items q @ sent ops))" using o that by simp
    then show "length (out @ ?f (items q')) = length (?f (items q @ sent ops))" by (metis size_mset)
  qed (use o in blast)
  with r o show ?thesis by blast
qed

end

text \<open>
  The ring of a task, with all its pages present: what a send and a receive do to it. A send first moves the end on and then
  tests whether the ring is full.
\<close>

definition ring_send :: "msg_t \<Rightarrow> msghdr_t \<Rightarrow> msghdr_t" where
  "ring_send m q =
     (let q' = mq_advance (mq_init q)
      in if mq_end q' = mq_start q' then q' else mq_put (mq_end (mq_init q)) m (mq_next_serial q'))"

definition ring_recv :: "msghdr_t \<Rightarrow> msg_t option \<times> msghdr_t" where
  "ring_recv q = (if mq_start q = mq_end q then (None, q)
     else case recv_any (\<lambda>_. True) q of
       Some (Done (k, q')) \<Rightarrow> (map_option (\<lambda>k. mq_slots q (unat k)) k, q') | _ \<Rightarrow> (None, q))"

lemma mq_empty_pending: "mq_start q = mq_end q \<Longrightarrow> mq_pending q = []"
  by (simp add: mq_pending_def mq_list_def mq_len_def ring_len_def)

lemma mq_empty_list: "mq_start q = mq_end q \<Longrightarrow> mq_list q = []"
  by (simp add: mq_list_def mq_len_def ring_len_def)

lemma mq_len_less: "mq_ok q \<Longrightarrow> mq_len q < 191"
  using ring_len_simps(1) by (simp add: mq_ok_def mq_len_def)

lemma length_mq_list [simp]: "length (mq_list q) = mq_len q"
  by (simp add: mq_list_def)

lemma ring_send_spec:
  assumes ok: "mq_ok q"
  shows "mq_ok (ring_send m q) \<and> mq_list (ring_send m q) = lossy_enq 190 m (mq_list q)"
proof (cases "mq_len q = 190")
  case True
  then have f: "mq_wrap (mq_end q + 1) = mq_start q" using mq_full_iff [OF ok] by simp
  then have r: "ring_send m q = mq_advance q" by (simp add: ring_send_def mq_init_ok [OF ok])
  have "mq_ok (mq_advance q)" using ok f by (simp add: mq_ok_def)
  moreover have "mq_list (mq_advance q) = []" using f by (simp add: mq_empty_list)
  ultimately show ?thesis using True by (simp add: r lossy_enq_def)
next
  case False
  then have l: "mq_len q < 190" using mq_len_less [OF ok] by simp
  have "mq_wrap (mq_end q + 1) \<noteq> mq_start q" using mq_full_iff [OF ok] False by simp
  then have r: "ring_send m q = mq_put (mq_end q) m (mq_next_serial (mq_advance q))"
    by (simp add: ring_send_def mq_init_ok [OF ok])
  have "mq_list (ring_send m q) = mq_list (mq_enq m q)" "mq_ok (ring_send m q) = mq_ok (mq_enq m q)"
    unfolding r by (rule mq_list_cong; simp add: mq_enq_def)+
  with mq_enq_list [OF ok l, of m] False show ?thesis by (simp add: lossy_enq_def)
qed

interpretation mq: lossy_fifo mq_ok mq_list 190 answered ring_send ring_recv
proof
  fix q and m :: msg_t
  assume "mq_ok q"
  then show "mq_ok (ring_send m q) \<and> mq_list (ring_send m q) = lossy_enq 190 m (mq_list q)" by (rule ring_send_spec)
next
  fix q r q'
  assume q: "mq_ok q" "ring_recv q = (r, q')"
  show "mq_ok q' \<and> skip_deq answered (mq_list q) = (r, mq_list q')"
  proof (cases "mq_start q = mq_end q")
    case True
    with q show ?thesis by (simp add: ring_recv_def mq_empty_list)
  next
    case False
    from recv_any_spec [OF q(1) False, of "\<lambda>_. True"] q(2) False show ?thesis by (auto simp: ring_recv_def)
  qed
qed

subsection \<open>Waiting for an answer\<close>

lemma nth_ring_list:
  "i < n \<Longrightarrow> 1 \<le> a \<Longrightarrow> a \<le> 191 \<Longrightarrow> n \<le> 191 \<Longrightarrow> ring_list S a n ! i = S (ring_idx a i)"
proof (induction n arbitrary: a i)
  case (Suc n)
  have n: "1 \<le> ring_next a" "ring_next a \<le> 191" using Suc.prems by (auto simp: ring_next_def)
  show ?case
  proof (cases i)
    case 0
    then show ?thesis using Suc.prems by (simp add: ring_idx_def)
  next
    case (Suc j)
    have "ring_idx (ring_next a) j = ring_idx a (Suc j)"
      using Suc.prems Suc by (auto simp: ring_next_def ring_idx_def)
    then show ?thesis using Suc.IH [of j "ring_next a"] Suc.prems Suc n by simp
  qed
qed simp

lemma mq_list_nth: "mq_ok q \<Longrightarrow> i < mq_len q \<Longrightarrow> mq_list q ! i = mq_slots q (ring_idx (unat (mq_start q)) i)"
  using mq_len_less [of q] by (simp add: mq_list_def nth_ring_list mq_ok_def)

lemma prev_slot_idx:
  assumes "unat i = ring_idx a (Suc n)" "1 \<le> a" "a \<le> 191" "n < 191"
  shows "unat (prev_slot i) = ring_idx a n"
proof -
  have i: "1 \<le> unat i" "unat i \<le> 192" using assms by (auto simp: ring_idx_def split: if_splits)
  have "unat (i - 1) = unat i - 1" using i unat_sub_le [of 1 i] by simp
  then have "unat (prev_slot i) = (if unat i = 1 then 191 else unat i - 1)"
    by (simp add: prev_slot_def MQ_MAX_eq) (simp add: word_eq_iff_unat [of i])
  then show ?thesis using assms by (auto simp: ring_idx_def split: if_splits)
qed

lemma reply_search_spec:
  assumes "mq_ok q" and "Suc n \<le> mq_len q" and "unat i = ring_idx (unat (mq_start q)) (Suc n)"
    and "\<And>k. 1 \<le> unat k \<Longrightarrow> unat k \<le> 191 \<Longrightarrow> present k"
  shows "\<exists>r j. reply_search present q serial i = Some (Done r) \<and> j \<le> n \<and> unat r = ring_idx (unat (mq_start q)) j \<and>
     (\<forall>l. j < l \<and> l \<le> n \<longrightarrow> \<not> reply_match serial (mq_list q ! l)) \<and> (j = 0 \<or> reply_match serial (mq_list q ! j))"
  using assms
proof (induction n arbitrary: i)
  case 0
  let ?a = "unat (mq_start q)"
  have a: "1 \<le> ?a" "?a \<le> 191" using assms(1) by (auto simp: mq_ok_def)
  have p: "unat (prev_slot i) = ?a" using prev_slot_idx [OF 0(3) a] a by (simp add: ring_idx_def)
  then have u: "unat (ucast (prev_slot i) :: u64) = ?a" using a by (simp add: unsigned_ucast_eq take_bit_nat_eq_self)
  then have "present (ucast (prev_slot i))" using 0(4) a by simp
  moreover have "ucast (prev_slot i) = mq_start q" using u by (simp add: word_eq_iff_unat)
  ultimately have "reply_search present q serial i = Some (Done (prev_slot i))"
    by (simp add: reply_search.simps [of present q serial i] Let_def)
  then show ?case using p a by (intro exI [of _ "prev_slot i"] exI [of _ 0]) (simp add: ring_idx_def)
next
  case (Suc n)
  let ?a = "unat (mq_start q)"
  have a: "1 \<le> ?a" "?a \<le> 191" using assms(1) by (auto simp: mq_ok_def)
  have n: "Suc n < 191" "Suc n < mq_len q" using Suc.prems(2) mq_len_less [OF assms(1)] by simp_all
  have p: "unat (prev_slot i) = ring_idx ?a (Suc n)" using prev_slot_idx [OF Suc.prems(3) a n(1)] .
  have r: "1 \<le> ring_idx ?a (Suc n)" "ring_idx ?a (Suc n) \<le> 191" using ring_idx_range [OF a n(1)] by auto
  have u: "unat (ucast (prev_slot i) :: u64) = ring_idx ?a (Suc n)"
    using p r by (simp add: unsigned_ucast_eq take_bit_nat_eq_self)
  then have pr: "present (ucast (prev_slot i))" using Suc.prems(4) r by simp
  have nst: "ucast (prev_slot i) \<noteq> mq_start q"
    using u n a by (auto simp: word_eq_iff_unat ring_idx_def)
  have m: "mq_slots q (unat (prev_slot i)) = mq_list q ! Suc n" using mq_list_nth [OF assms(1) n(2)] p by simp
  show ?case
  proof (cases "reply_match serial (mq_list q ! Suc n)")
    case True
    then show ?thesis using pr m p
      by (intro exI [of _ "prev_slot i"] exI [of _ "Suc n"]) (auto simp: reply_search.simps [of present q serial i] Let_def)
  next
    case False
    have "reply_search present q serial i = reply_search present q serial (prev_slot i)"
      using False pr m nst by (simp add: reply_search.simps [of present q serial i] Let_def)
    moreover from Suc.IH [OF assms(1) _ p Suc.prems(4)] Suc.prems(2) obtain rr j where
      "reply_search present q serial (prev_slot i) = Some (Done rr)" "j \<le> n" "unat rr = ring_idx ?a j"
      "\<forall>l. j < l \<and> l \<le> n \<longrightarrow> \<not> reply_match serial (mq_list q ! l)" "j = 0 \<or> reply_match serial (mq_list q ! j)"
      by auto
    ultimately show ?thesis using False
      by (intro exI [of _ rr] exI [of _ j]) (auto simp: le_Suc_eq)
  qed
qed

lemma filter_list_update:
  assumes "i < length xs" and "\<not> P y"
  shows "filter P (xs[i := y]) = filter P (take i xs @ drop (Suc i) xs)"
  using assms by (simp add: upd_conv_take_nth_drop)

text \<open>
  Waiting for an answer takes the newest message with the given serial that is not answered
  yet: from the end of the ring if it is there, otherwise by marking its slot.
\<close>

lemma recv_reply_spec:
  assumes ok: "mq_ok q" and ne: "mq_start q \<noteq> mq_end q" and pr: "\<And>k. 1 \<le> unat k \<Longrightarrow> unat k \<le> 191 \<Longrightarrow> present k"
  shows "\<exists>k q'. recv_reply present serial q = Some (Done (k, q')) \<and> mq_ok q' \<and>
     (case k of None \<Rightarrow> q' = q \<and> (\<forall>m \<in> set (mq_list q). \<not> reply_match serial m)
      | Some k \<Rightarrow> (\<exists>j < mq_len q. unat k = ring_idx (unat (mq_start q)) j \<and> mq_list q ! j = mq_slots q (unat k) \<and>
          reply_match serial (mq_list q ! j) \<and> (\<forall>l. j < l \<and> l < mq_len q \<longrightarrow> \<not> reply_match serial (mq_list q ! l)) \<and>
          mq_pending q' = filter (\<lambda>m. \<not> MSG_ISRESP (m_evt m)) (take j (mq_list q) @ drop (Suc j) (mq_list q))))"
proof -
  let ?a = "unat (mq_start q)" and ?b = "unat (mq_end q)" and ?P = "\<lambda>m. \<not> MSG_ISRESP (m_evt m)"
  have ab: "1 \<le> ?a" "?a \<le> 191" "1 \<le> ?b" "?b \<le> 191" using ok by (auto simp: mq_ok_def)
  have "mq_len q \<noteq> 0" using ne ring_len_simps(2) [OF ab] by (simp add: mq_len_def word_eq_iff_unat)
  then obtain n where n: "mq_len q = Suc n" by (cases "mq_len q") auto
  have n191: "n < 190" using mq_len_less [OF ok] n by simp
  define e where "e = (ucast (mq_end q) :: u32)"
  have e: "unat e = ring_idx ?a (Suc n)"
    using ab ring_len_simps(3) [OF ab] n by (simp add: e_def mq_len_def unsigned_ucast_eq take_bit_nat_eq_self)
  have last: "unat (prev_slot e) = ring_idx ?a n" using prev_slot_idx [OF e ab(1,2)] n191 by simp
  from reply_search_spec [where present = present and serial = serial, OF ok _ e pr] n obtain r j where
    r: "reply_search present q serial e = Some (Done r)" "j \<le> n" "unat r = ring_idx ?a j"
      "\<forall>l. j < l \<and> l \<le> n \<longrightarrow> \<not> reply_match serial (mq_list q ! l)" "j = 0 \<or> reply_match serial (mq_list q ! j)"
    by auto
  have j: "j < mq_len q" "j < 191" using r(2) n n191 by simp_all
  have rr: "1 \<le> unat r" "unat r \<le> 191" using ring_idx_range [OF ab(1,2) j(2)] r(3) by auto
  have u: "unat (ucast r :: u64) = unat r" using rr by (simp add: unsigned_ucast_eq take_bit_nat_eq_self)
  have m: "mq_slots q (unat r) = mq_list q ! j" using mq_list_nth [OF ok j(1)] r(3) by simp
  show ?thesis
  proof (cases "reply_match serial (mq_list q ! j)")
    case False
    with r(5) have "j = 0" by simp
    have "\<not> reply_match serial x" if "x \<in> set (mq_list q)" for x
    proof -
      from that obtain l where "l < mq_len q" "x = mq_list q ! l" by (metis in_set_conv_nth length_mq_list)
      then show ?thesis using False \<open>j = 0\<close> r(4) n by (cases l) auto
    qed
    moreover have "recv_reply present serial q = Some (Done (None, q))"
      using r(1) False m by (simp add: recv_reply_def e_def [symmetric] Let_def)
    ultimately show ?thesis using ok by (intro exI [of _ None] exI [of _ q]) simp
  next
    case True
    have newest: "\<forall>l. j < l \<and> l < mq_len q \<longrightarrow> \<not> reply_match serial (mq_list q ! l)" using r(4) n by auto
    show ?thesis
    proof (cases "r = prev_slot e")
      case eq: True
      then have jn: "j = n" using ring_idx_inj [OF ab(1,2) j(2), of n] n191 r(3) last by simp
      let ?q = "q\<lparr>mq_total := mq_total q + 1, mq_end := ucast r,
         mq_bufend := (if MSG_ISPTR (m_evt (mq_list q ! j)) then m_arg0 (mq_list q ! j) AND NOT (PAGESIZE - 1) else mq_bufend q)\<rparr>"
      have q: "recv_reply present serial q = Some (Done (Some (ucast r), ?q))"
        using r(1) True m eq by (simp add: recv_reply_def e_def [symmetric] Let_def)
      have ok': "mq_ok ?q" using ok rr u by (simp add: mq_ok_def)
      have len: "mq_len ?q = n"
        using ab rr r(3) jn n191 by (simp add: mq_len_def u) (auto simp: ring_len_def ring_idx_def split: if_splits)
      have "mq_list ?q = butlast (mq_list q)"
        using ring_list_append [OF ab(1,2), of n "mq_slots q"] n191 len n by (simp add: mq_list_def)
      then have "mq_list ?q = take j (mq_list q) @ drop (Suc j) (mq_list q)"
        using jn n by (simp add: butlast_conv_take)
      then show ?thesis using q ok' True newest j m u r(3)
        by (intro exI [of _ "Some (ucast r)"] exI [of _ ?q]) (auto simp: mq_pending_def)
    next
      case neq: False
      let ?m = "(mq_list q ! j)\<lparr>m_evt := m_evt (mq_list q ! j) OR MSG_RESPONSED\<rparr>"
      let ?q = "q\<lparr>mq_total := mq_total q + 1, mq_slots := (mq_slots q)(unat r := ?m)\<rparr>"
      have q: "recv_reply present serial q = Some (Done (Some (ucast r), ?q))"
        using r(1) True m neq by (simp add: recv_reply_def e_def [symmetric] Let_def)
      have ok': "mq_ok ?q" and len: "mq_len ?q = mq_len q" using ok by (simp_all add: mq_ok_def mq_len_def)
      have lst: "mq_list ?q = (mq_list q)[j := ?m]"
      proof (rule nth_equalityI)
        fix l assume "l < length (mq_list ?q)"
        then have l: "l < mq_len q" by (simp only: length_mq_list len)
        have "mq_list ?q ! l = mq_slots ?q (ring_idx ?a l)" using mq_list_nth [OF ok', of l] l len by simp
        also have "\<dots> = (mq_list q)[j := ?m] ! l"
          using l j r(3) ring_idx_inj [OF ab(1,2) j(2), of l] mq_len_less [OF ok] mq_list_nth [OF ok l]
          by (cases "l = j") auto
        finally show "mq_list ?q ! l = (mq_list q)[j := ?m] ! l" .
      qed (simp only: length_mq_list length_list_update len)
      have "MSG_ISRESP (m_evt ?m)"
        by (simp add: MSG_ISRESP_def MSG_RESPONSED_def bit.conj_disj_distrib2)
      then have "mq_pending ?q = filter ?P (take j (mq_list q) @ drop (Suc j) (mq_list q))"
        unfolding mq_pending_def lst using j by (intro filter_list_update) simp_all
      then show ?thesis using q ok' True newest j m u r(3)
        by (intro exI [of _ "Some (ucast r)"] exI [of _ ?q]) auto
    qed
  qed
qed

end
