(* ===== verification/Core_Msg_Prop.thy ===== *)
theory Core_Msg_Prop
  imports Core_Msg_Queue
begin

text \<open>
  Sending and receiving on the state of the core: the effect of \<open>msg_send\<close> and \<open>msg_recv\<close> on the
  queues, and the properties of message passing.
\<close>

section \<open>Sending and receiving\<close>

text \<open>The scheduler does not touch queues, page tables or the run level.\<close>

definition same_mem :: "kstate \<Rightarrow> kstate \<Rightarrow> bool" where
  "same_mem s s' \<longleftrightarrow> mqs s' = mqs s \<and> ptes s' = ptes s \<and> runlevel s' = runlevel s \<and> services s' = services s"

lemma same_mem_refl [simp]: "same_mem s s"
  by (simp add: same_mem_def)

lemma same_mem_trans: "same_mem s s' \<Longrightarrow> same_mem s' s'' \<Longrightarrow> same_mem s s''"
  by (simp add: same_mem_def)

lemma same_mem_upd [simp]:
  "same_mem s (upd_tcb p f s') = same_mem s s'" "same_mem s (upd_ccb c g s') = same_mem s s'"
  "same_mem s (seterr e s') = same_mem s s'" "same_mem s (s'\<lparr>win_alarm := v\<rparr>) = same_mem s s'"
  "same_mem s (s'\<lparr>awakened := as\<rparr>) = same_mem s s'" "same_mem s (s'\<lparr>space := t\<rparr>) = same_mem s s'"
  "same_mem s (s'\<lparr>sched_irq_on := x\<rparr>) = same_mem s s'"
  "same_mem s (s'\<lparr>intr_next := y\<rparr>) = same_mem s s'"
  by (cases p; simp add: same_mem_def upd_tcb_def) (simp_all add: same_mem_def upd_ccb_def seterr_def)

lemmas sched_set_defs = set_hd_active_def set_cr_active_def set_hd_blocked_def set_hd_timerq_def

lemma same_mem_parts [simp]:
  "same_mem s (drop_active c t s') = same_mem s s'" "same_mem s (drop_current c t s') = same_mem s s'"
  "same_mem s (drop_blocked c t s') = same_mem s s'" "same_mem s (timerq_advance c t s') = same_mem s s'"
  "same_mem s (sched_unlink t s') = same_mem s s'" "same_mem s (awake_account t s') = same_mem s s'"
  "same_mem s (awake_next c t s') = same_mem s s'" "same_mem s (awake_cpu c s') = same_mem s s'"
  "same_mem s (blocked_push c t s') = same_mem s s'" "same_mem s (sched_add t s') = same_mem s s'"
  by (simp_all add: drop_active_def drop_current_def drop_blocked_def timerq_advance_def sched_unlink_def
      awake_account_def awake_next_def awake_cpu_def blocked_push_def sched_add_def sched_set_defs Let_def)

lemma same_mem_timer [simp]:
  "same_mem s (drop_timer c t s') = same_mem s s'" "same_mem s (awake_timer c t s') = same_mem s s'"
  by (simp_all add: drop_timer_def awake_timer_def)

lemma same_mem_sched [simp]:
  "same_mem s (sched_remove t s') = same_mem s s'" "same_mem s (sched_awake t s') = same_mem s s'"
  by (simp_all add: sched_remove_def sched_awake_def Let_def)

lemma same_mem_sched_block [simp]: "same_mem s (sched_block t s') = same_mem s s'"
  by (simp add: sched_block_def Let_def)

lemma same_mem_sched_timer [simp]: "same_mem s (sched_timer t s') = same_mem s s'"
  by (simp add: sched_timer_def Let_def)

lemma same_mem_switch [simp]: "same_mem s (sched_switch t s') = same_mem s s'"
  by (simp add: sched_switch_def Let_def)

lemma same_mem_set_cr' [simp]: "same_mem s (set_cr_active c i v s') = same_mem s s'"
  by (simp add: set_cr_active_def)

lemma same_mem_found [simp]: "same_mem s (pick_found i s') = same_mem s s'"
  by (simp add: pick_found_def Let_def)

lemma same_mem_set_cr [simp]: "same_mem (set_cr_active c i v s) s' = same_mem s s'"
  by (simp add: same_mem_def set_cr_active_def upd_ccb_def)

lemma same_mem_pick_round: "case pick_round i b s of Found _ s' \<Rightarrow> same_mem s s' | Round _ s' \<Rightarrow> same_mem s s'"
proof (induction i b s rule: pick_round.induct)
  case (1 i b s)
  then show ?case
    by (subst pick_round.simps)
      (auto simp: Let_def split: pick_result.splits)
qed

lemma same_mem_pick_loop: "case pick_loop s of Inl (_, s') \<Rightarrow> same_mem s s' | Inr s' \<Rightarrow> same_mem s s'"
proof (induction s rule: pick_loop.induct)
  case (1 s)
  have r: "case pick_round 0 False s of Found _ s' \<Rightarrow> same_mem s s' | Round _ s' \<Rightarrow> same_mem s s'"
    by (rule same_mem_pick_round)
  show ?case
  proof (cases "pick_round 0 False s")
    case (Found i s')
    then show ?thesis using r by (simp add: pick_loop.simps [of s])
  next
    case (Round b s')
    then show ?thesis using r 1 [of b s']
      by (auto simp: pick_loop.simps [of s] split: sum.splits intro: same_mem_trans)
  qed
qed

lemma same_mem_sched_pick:
  assumes "runlevel s = RUNLVL_NORM"
  shows "same_mem s (sched_pick dr s)"
proof (cases "pick_loop s")
  case (Inl r)
  then show ?thesis using same_mem_pick_loop [of s]
    by (cases r) (simp add: sched_pick_def Let_def)
next
  case (Inr s')
  then have s': "same_mem s s'" using same_mem_pick_loop [of s] by simp
  then have "runlevel s' \<noteq> RUNLVL_COOP" using assms by (simp add: same_mem_def runlvl_defs)
  moreover have "runlevel (set_cr_active c i v s') = runlevel s'" for c i v
    by (simp add: set_cr_active_def upd_ccb_def)
  ultimately show ?thesis using s' Inr
    by (simp add: sched_pick_def Let_def Let_def)
qed

text \<open>
  A send that passes all checks before the queue: the receiver exists, the policy allows the
  event, drivers are only addressed by the file system service, and no trace line is due.
\<close>

definition send_ready :: "u64 \<Rightarrow> u64 \<Rightarrow> kstate \<Rightarrow> bool" where
  "send_ready event dst s \<longleftrightarrow> evt_task event \<noteq> 0 \<and>
     msg_decide (cur_tcb s) (evt_task event) (EVT_FUNC event) s \<and> send_dest (evt_task event) s = Some dst \<and>
     tcb_magic (tcbs s dst) = OSZ_TCB_MAGICH \<and>
     (tcb_priority (tcbs s dst) = PRI_DRV \<longrightarrow> cur_pid s = srv_pid SRV_FS s \<and> EVT_FUNC event \<noteq> 0) \<and>
     (tcb_tracebuf (cur_tcb s) = 0 \<or> in_trace s \<or> cur_pid s = srv_pid SRV_FS s)"

definition after_checks :: "u64 \<Rightarrow> kstate \<Rightarrow> kstate" where
  "after_checks dst s = seterr SUCCESS (s\<lparr>srand := srand_at dst (\<lambda>x. x XOR clock_ts s) (srand s)\<rparr>)"

lemma after_checks_simps [simp]:
  "mqs (after_checks dst s) = mqs s" "ptes (after_checks dst s) = ptes s" "tcbs (after_checks dst s) = tcbs s"
  "space (after_checks dst s) = space s" "runlevel (after_checks dst s) = runlevel s"
  "get_tcb p (after_checks dst s) = get_tcb p s" "in_trace (after_checks dst s) = in_trace s"
  "services (after_checks dst s) = services s"
  by (simp_all add: after_checks_def seterr_def upd_ccb_def get_tcb_def split: tcbptr.splits)

lemma msg_send_ready:
  assumes "send_ready event dst s"
  shows "msg_send dr a b c d e f event serial s = send_queue dr dst a b c d e f event serial (after_checks dst s)"
proof -
  let ?s = "s\<lparr>srand := srand_at dst (\<lambda>x. x XOR clock_ts s) (srand s)\<rparr>"
  have g: "get_tcb p ?s = get_tcb p s" for p by (simp add: get_tcb_def split: tcbptr.splits)
  have d: "get_tcb (TCB dst) s = tcbs s dst" by (simp add: get_tcb_def)
  have "msg_allowed (cur_tcb s) (evt_task event) (EVT_FUNC event) s = (True, s)"
    using assms by (simp add: msg_allowed_def send_ready_def)
  moreover have "\<not> (tcb_priority (get_tcb (TCB dst) s) = PRI_DRV \<and> (cur_pid s \<noteq> srv_pid SRV_FS s \<or> EVT_FUNC event = 0))"
    "\<not> (\<not> in_trace s \<and> tcb_tracebuf (cur_tcb s) \<noteq> 0 \<and> cur_pid s \<noteq> srv_pid SRV_FS s)"
    "evt_task event \<noteq> 0" "send_dest (evt_task event) s = Some dst" "tcb_magic (get_tcb (TCB dst) s) = OSZ_TCB_MAGICH"
    using assms by (auto simp: send_ready_def d)
  ultimately show ?thesis
    unfolding msg_send_def msg_send_with_def after_checks_def Let_def by (simp add: g del: de_Morgan_conj)
qed

lemma upd_mq_simps [simp]:
  "mqs (upd_mq p f s) = (mqs s)(p := f (mqs s p))" "ptes (upd_mq p f s) = ptes s" "tcbs (upd_mq p f s) = tcbs s"
  "space (upd_mq p f s) = space s" "get_tcb t (upd_mq p f s) = get_tcb t s" "runlevel (upd_mq p f s) = runlevel s"
  "in_trace (upd_mq p f s) = in_trace s" "pmm_freepages (upd_mq p f s) = pmm_freepages s"
  by (simp_all add: upd_mq_def get_tcb_def split: tcbptr.splits)

lemma mqs_sched_awake [simp]: "mqs (sched_awake t s) = mqs s"
  using same_mem_sched(2) [of s t s] by (simp add: same_mem_def del: same_mem_sched)

text \<open>The message that ends up in the ring, and the serial the sender gets back.\<close>

definition send_serial :: "u64 \<Rightarrow> kstate \<Rightarrow> u64" where
  "send_serial dst s = EVT_DEST (cur_pid s) OR mq_serial (mq_next_serial (mqs s dst))"

lemma send_queue_plain:
  assumes "mq_ok (mqs s dst)" and "mq_len (mqs s dst) < 190"
    and "vmm_ispresent (ptes s dst (mq_page (mq_end (mqs s dst))))" and "event AND MSG_PTRDATA = 0"
  shows "\<exists>s'. send_queue dr dst a b c d e f event serial s = Done (send_serial dst s, s') \<and>
     (\<forall>p. p \<noteq> dst \<longrightarrow> mqs s' p = mqs s p) \<and> mq_ok (mqs s' dst) \<and>
     mq_list (mqs s' dst) = mq_list (mqs s dst) @
       [msg_make (cur_pid s) event a b c d e f (if serial \<noteq> 0 then serial else send_serial dst s)] \<and>
     mqs s' dst = ring_send (msg_make (cur_pid s) event a b c d e f (if serial \<noteq> 0 then serial else send_serial dst s)) (mqs s dst)"
proof -
  let ?q = "mqs s dst"
  let ?m = "msg_make (cur_pid s) event a b c d e f (if serial \<noteq> 0 then serial else send_serial dst s)"
  have i: "mq_init ?q = ?q" by (rule mq_init_ok [OF assms(1)])
  have nf: "mq_wrap (mq_end ?q + 1) \<noteq> mq_start ?q" using mq_full_iff [OF assms(1)] assms(2) by simp
  have ser: "mq_serial (mq_next_serial (mq_advance ?q)) = mq_serial (mq_next_serial ?q)"
    by (simp add: mq_next_serial_def mq_advance_def)
  let ?q' = "mq_put (mq_end ?q) ?m (mq_next_serial (mq_advance ?q))"
  let ?s = "sched_awake (TCB dst) (upd_mq dst (\<lambda>_. ?q') s)"
  have "send_queue dr dst a b c d e f event serial s = Done (send_serial dst s,
      sched_awake (TCB dst) (upd_mq dst (mq_put (mq_end ?q) ?m) (upd_mq dst mq_next_serial (upd_mq dst (\<lambda>q. mq_advance (mq_init q)) s))))"
    using nf i assms(3,4)
    by (simp add: send_queue_def msg_page_def msg_buffer_def Let_def send_serial_def ser)
  also have "upd_mq dst (mq_put (mq_end ?q) ?m) (upd_mq dst mq_next_serial (upd_mq dst (\<lambda>q. mq_advance (mq_init q)) s)) =
      upd_mq dst (\<lambda>_. ?q') s"
    using i by (simp add: upd_mq_def)
  finally have r: "send_queue dr dst a b c d e f event serial s = Done (send_serial dst s, ?s)" .
  have c: "mq_list ?q' = mq_list (mq_enq ?m ?q)" "mq_ok ?q' = mq_ok (mq_enq ?m ?q)"
    using mq_list_cong [of ?q' "mq_enq ?m ?q"] by (simp_all add: mq_enq_def)
  have "ring_send ?m ?q = ?q'" using nf i by (simp add: ring_send_def)
  then show ?thesis using r c mq_enq_list [OF assms(1,2), of ?m] by (intro exI [of _ ?s]) simp
qed

text \<open>Every slot of the ring can be read.\<close>

definition slots_present :: "kstate \<Rightarrow> bool" where
  "slots_present s \<longleftrightarrow> (\<forall>v \<in> {1, 2, 3}. vmm_ispresent (ptes s (cur_pid s) v))"

lemma slot_page: "1 \<le> unat k \<Longrightarrow> unat k \<le> 191 \<Longrightarrow> drop_bit 12 (PAGESIZE + 64 * k) \<in> {1, 2, 3}"
proof -
  assume k: "1 \<le> unat k" "unat k \<le> 191"
  have "unat (64 * k) = 64 * unat k" using k by (simp add: unat_word_ariths)
  then have "unat (PAGESIZE + 64 * k) = 4096 + 64 * unat k" using k by (simp add: PAGESIZE_def unat_word_ariths)
  then have u: "unat (drop_bit 12 (PAGESIZE + 64 * k)) = (4096 + 64 * unat k) div 4096"
    by (simp add: drop_bit_eq_div unat_div)
  have "(4096 + 64 * unat k) div 4096 \<in> {1, 2, 3}" using k by auto
  then have "unat (drop_bit 12 (PAGESIZE + 64 * k)) \<in> {1, 2, 3}" using u by simp
  then show ?thesis by (auto simp: word_eq_iff_unat)
qed

lemma slots_presentD: "slots_present s \<Longrightarrow> 1 \<le> unat k \<Longrightarrow> unat k \<le> 191 \<Longrightarrow> slot_present s k"
  using slot_page [of k] by (auto simp: slots_present_def slot_present_def)

lemma mqs_wake_sender [simp]: "mqs (wake_sender s) = mqs s"
proof -
  have "mqs (upd_tcb p f s') = mqs s'" for p f s' by (cases p) (simp_all add: upd_tcb_def)
  then show ?thesis by (simp add: wake_sender_def Let_def)
qed

lemma mqs_recv_finish [simp]: "mqs (recv_finish k s) = mqs s"
  by (cases k) (simp_all add: recv_finish_def Let_def seterr_def upd_ccb_def)

lemma msg_recv_untraced:
  assumes "cur_pid s \<noteq> tcb_pid (idle_tcb s)" and "tcb_tracebuf (cur_tcb s) = 0 \<or> cur_pid s = srv_pid SRV_FS s"
  shows "msg_recv dr serial s =
     map_option (\<lambda>r. obind r (\<lambda>(k, s). Done (k, recv_finish k s))) (recv_queue serial s)"
  using assms by (auto simp: msg_recv_def recv_trace_def)

text \<open>The wrong turns a send can take before it reaches the queue.\<close>

lemma msg_send_refused:
  "evt_task event = 0 \<Longrightarrow> msg_send dr a b c d e f event serial s = Done (0, s)"
  "evt_task event \<noteq> 0 \<Longrightarrow> \<not> msg_decide (cur_tcb s) (evt_task event) (EVT_FUNC event) s \<Longrightarrow>
     msg_send dr a b c d e f event serial s = Done (0, seterr EPERM s)"
  "evt_task event \<noteq> 0 \<Longrightarrow> msg_decide (cur_tcb s) (evt_task event) (EVT_FUNC event) s \<Longrightarrow>
     send_dest (evt_task event) s = None \<Longrightarrow> msg_send dr a b c d e f event serial s = Done (0, seterr ESRCH s)"
  by (simp_all add: msg_send_def msg_send_with_def Let_def msg_allowed_def)

section \<open>Properties\<close>





text \<open>
  C11. A send that passes the checks appends exactly one message to the receiver's ring when
  there is room and the page of the slot is present: it carries the sender's pid, the event
  without the answered bit, the six arguments, and as serial either the one given or the
  value returned. No other task's queue changes.
\<close>

theorem msg_send_appends:
  assumes "send_ready event dst s" and "mq_ok (mqs s dst)" and "mq_len (mqs s dst) < 190"
    and "vmm_ispresent (ptes s dst (mq_page (mq_end (mqs s dst))))" and "event AND MSG_PTRDATA = 0"
  shows "\<exists>s'. msg_send dr a b c d e f event serial s = Done (send_serial dst s, s') \<and>
     (\<forall>p. p \<noteq> dst \<longrightarrow> mqs s' p = mqs s p) \<and> mq_ok (mqs s' dst) \<and>
     mq_list (mqs s' dst) = mq_list (mqs s dst) @
       [msg_make (cur_pid s) event a b c d e f (if serial \<noteq> 0 then serial else send_serial dst s)]"
proof -
  have "send_serial dst (after_checks dst s) = send_serial dst s" by (simp add: send_serial_def)
  moreover have "\<exists>s'. P s' \<and> Q s' \<and> R s' \<and> S s' \<and> T s' \<Longrightarrow> \<exists>s'. P s' \<and> Q s' \<and> R s' \<and> S s'" for P Q R S T by blast
  ultimately show ?thesis
    using send_queue_plain [of "after_checks dst s" dst event dr a b c d e f serial] assms(2-5)
    by (simp only: msg_send_ready [OF assms(1)] after_checks_simps) blast
qed

text \<open>A task 40 that runs, and the file system service 31.\<close>

definition msg_task :: "u64 \<Rightarrow> u8 \<Rightarrow> tcb_t" where
  "msg_task pid pri = zero_tcb\<lparr>tcb_magic := OSZ_TCB_MAGICH, tcb_pid := pid, tcb_priority := pri,
     tcb_state := TCB_STATE_RUNNING\<rparr>"

definition msg_state :: "u64 \<Rightarrow> u64 \<Rightarrow> kstate" where
  "msg_state st en = zero_kstate\<lparr>services := (\<lambda>i. if i = 1 then 31 else 0), space := TCB 40, runlevel := RUNLVL_NORM,
     idle_tcb := msg_task 9 8, tcbs := (\<lambda>p. msg_task p (if p = 31 then PRI_SRV else PRI_APP)),
     ptes := (\<lambda>_ v. if v = 1 then 1 else 0), mqs := (\<lambda>_. zero_mq\<lparr>mq_start := st, mq_end := en\<rparr>)\<rparr>"

lemma msg_state_simps [simp]:
  "space (msg_state st en) = TCB 40" "services (msg_state st en) = (\<lambda>i. if i = 1 then 31 else 0)"
  "get_tcb (TCB p) (msg_state st en) = msg_task p (if p = 31 then PRI_SRV else PRI_APP)"
  "tcbs (msg_state st en) p = msg_task p (if p = 31 then PRI_SRV else PRI_APP)"
  "mqs (msg_state st en) p = zero_mq\<lparr>mq_start := st, mq_end := en\<rparr>" "runlevel (msg_state st en) = RUNLVL_NORM"
  "ptes (msg_state st en) p v = (if v = 1 then 1 else 0)" "in_trace (msg_state st en) = False"
  "idle_tcb (msg_state st en) = msg_task 9 8"
  "tcb_pid (msg_task p pri) = p" "tcb_magic (msg_task p pri) = OSZ_TCB_MAGICH" "tcb_priority (msg_task p pri) = pri"
  "tcb_tracebuf (msg_task p pri) = 0" "tcb_blksend (msg_task p pri) = 0"
  by (simp_all add: msg_state_def get_tcb_def msg_task_def zero_tcb_def zero_kstate_def)

lemma msg_state_ready: "evt_task event = SRV_FS \<Longrightarrow> EVT_FUNC event = SYS_fread \<Longrightarrow> send_ready event 31 (msg_state st en)"
  by (simp add: send_ready_def send_dest_def SRV_FS_def NUMSRV_def msg_decide_def is_srv_def SRV_CORE_def
      fs_allowed_def EVT_FUNC_def fs_evt_defs pri_defs)

lemma msg_state_ok:
  "1 \<le> unat st \<Longrightarrow> unat st \<le> 191 \<Longrightarrow> 1 \<le> unat en \<Longrightarrow> unat en \<le> 191 \<Longrightarrow> mq_ok (zero_mq\<lparr>mq_start := st, mq_end := en\<rparr>)"
  by (simp add: mq_ok_def)

theorem msg_send_appends_witness:
  "\<exists>s'. msg_send id 1 2 3 4 5 6 (EVT_DEST SRV_FS OR SYS_fread) 0 (msg_state 3 5) = Done (send_serial 31 (msg_state 3 5), s') \<and>
     mq_len (mqs s' 31) = 3"
proof -
  have e: "evt_task (EVT_DEST SRV_FS OR SYS_fread) = SRV_FS" "EVT_FUNC (EVT_DEST SRV_FS OR SYS_fread) = SYS_fread"
    "(EVT_DEST SRV_FS OR SYS_fread) AND MSG_PTRDATA = 0"
    by code_simp+
  have "mq_ok (mqs (msg_state 3 5) 31)" "mq_len (mqs (msg_state 3 5) 31) = 2" "mq_page 5 = 1"
    by (simp_all add: mq_ok_def mq_len_def ring_len_def mq_page_def)
  then obtain s' m where
    s': "msg_send id 1 2 3 4 5 6 (EVT_DEST SRV_FS OR SYS_fread) 0 (msg_state 3 5) = Done (send_serial 31 (msg_state 3 5), s')"
      "mq_list (mqs s' 31) = mq_list (mqs (msg_state 3 5) 31) @ [m]"
    using msg_send_appends [OF msg_state_ready [OF e(1,2)], of 3 5 id 1 2 3 4 5 6 0] e(3)
    by (auto simp: vmm_ispresent_def)
  have "length (mq_list (mqs s' 31)) = 3"
    unfolding s'(2) using \<open>mq_len (mqs (msg_state 3 5) 31) = 2\<close> by simp
  with s'(1) show ?thesis by auto
qed

text \<open>
  C12. Receiving always returns when the slots of the ring can be read. Without a serial it takes
  the oldest message that is not answered, out of the ring together with the answered ones in
  front of it; with a serial it takes the newest message that carries it. Nothing else leaves
  the ring, and when there is no such message nothing is returned.
\<close>

theorem msg_recv_correct:
  assumes "cur_pid s \<noteq> tcb_pid (idle_tcb s)" and "tcb_tracebuf (cur_tcb s) = 0 \<or> cur_pid s = srv_pid SRV_FS s"
    and "mq_ok (mqs s (cur_pid s))" and "slots_present s"
  shows "\<exists>k s'. msg_recv dr serial s = Some (Done (k, s')) \<and> mq_ok (mqs s' (cur_pid s)) \<and>
     (\<forall>p. p \<noteq> cur_pid s \<longrightarrow> mqs s' p = mqs s p) \<and>
     (serial = 0 \<longrightarrow> (case k of None \<Rightarrow> mq_pending (mqs s (cur_pid s)) = [] \<and> mq_pending (mqs s' (cur_pid s)) = []
        | Some k \<Rightarrow> mq_pending (mqs s (cur_pid s)) =
            mq_slots (mqs s (cur_pid s)) (unat k) # mq_pending (mqs s' (cur_pid s)))) \<and>
     (serial \<noteq> 0 \<longrightarrow> (case k of None \<Rightarrow> mqs s' (cur_pid s) = mqs s (cur_pid s) \<and>
          (\<forall>m \<in> set (mq_list (mqs s (cur_pid s))). \<not> reply_match serial m)
        | Some k \<Rightarrow> \<exists>xs ys. mq_list (mqs s (cur_pid s)) = xs @ mq_slots (mqs s (cur_pid s)) (unat k) # ys \<and>
            reply_match serial (mq_slots (mqs s (cur_pid s)) (unat k)) \<and> (\<forall>m \<in> set ys. \<not> reply_match serial m) \<and>
            mq_pending (mqs s' (cur_pid s)) = filter (\<lambda>m. \<not> MSG_ISRESP (m_evt m)) (xs @ ys)))"
    (is "\<exists>k s'. ?P k s'")
proof -
  let ?q = "mqs s (cur_pid s)"
  have pr: "slot_present s k" if "1 \<le> unat k" "unat k \<le> 191" for k
    using slots_presentD [OF assms(4) that] .
  show ?thesis
  proof (cases "mq_start ?q = mq_end ?q")
    case True
    then have "msg_recv dr serial s = Some (Done (None, recv_finish None s))"
      by (simp add: msg_recv_untraced [OF assms(1,2)] recv_queue_def)
    moreover have "mq_list ?q = []" using True by (simp add: mq_list_def mq_len_def ring_len_def)
    ultimately show ?thesis using assms(3) mq_empty_pending [OF True]
      by (intro exI [of _ None] exI [of _ "recv_finish None s"]) simp
  next
    case ne: False
    show ?thesis
    proof (cases "serial = 0")
      case True
      from recv_any_spec [of ?q "slot_present s", OF assms(3) ne pr] obtain k q' where
        r: "recv_any (slot_present s) ?q = Some (Done (k, q'))" "mq_ok q'"
          "case k of None \<Rightarrow> mq_pending ?q = [] \<and> mq_pending q' = []
            | Some k \<Rightarrow> 1 \<le> unat k \<and> unat k \<le> 191 \<and> mq_pending ?q = mq_slots ?q (unat k) # mq_pending q'"
        by blast
      have "msg_recv dr serial s = Some (Done (k, recv_finish k (upd_mq (cur_pid s) (\<lambda>_. q') s)))"
        using r(1) ne True by (simp add: msg_recv_untraced [OF assms(1,2)] recv_queue_def Let_def)
      then show ?thesis using r(2,3) True
        by (intro exI [of _ k] exI [of _ "recv_finish k (upd_mq (cur_pid s) (\<lambda>_. q') s)"])
          (auto split: option.splits)
    next
      case False
      from recv_reply_spec [of ?q "slot_present s" serial, OF assms(3) ne pr] obtain k q' where
        r: "recv_reply (slot_present s) serial ?q = Some (Done (k, q'))" "mq_ok q'"
          "case k of None \<Rightarrow> q' = ?q \<and> (\<forall>m \<in> set (mq_list ?q). \<not> reply_match serial m)
           | Some k \<Rightarrow> (\<exists>j < mq_len ?q. unat k = ring_idx (unat (mq_start ?q)) j \<and> mq_list ?q ! j = mq_slots ?q (unat k) \<and>
              reply_match serial (mq_list ?q ! j) \<and> (\<forall>l. j < l \<and> l < mq_len ?q \<longrightarrow> \<not> reply_match serial (mq_list ?q ! l)) \<and>
              mq_pending q' = filter (\<lambda>m. \<not> MSG_ISRESP (m_evt m)) (take j (mq_list ?q) @ drop (Suc j) (mq_list ?q)))"
        by blast
      have m: "msg_recv dr serial s = Some (Done (k, recv_finish k (upd_mq (cur_pid s) (\<lambda>_. q') s)))"
        using r(1) ne False by (simp add: msg_recv_untraced [OF assms(1,2)] recv_queue_def Let_def)
      show ?thesis
      proof (cases k)
        case None
        then show ?thesis using m r(2,3) False by auto
      next
        case (Some k')
        with r(3) obtain j where j: "j < mq_len ?q" "mq_list ?q ! j = mq_slots ?q (unat k')"
          "reply_match serial (mq_list ?q ! j)" "\<forall>l. j < l \<and> l < mq_len ?q \<longrightarrow> \<not> reply_match serial (mq_list ?q ! l)"
          "mq_pending q' = filter (\<lambda>m. \<not> MSG_ISRESP (m_evt m)) (take j (mq_list ?q) @ drop (Suc j) (mq_list ?q))"
          by auto
        have l: "mq_list ?q = take j (mq_list ?q) @ mq_slots ?q (unat k') # drop (Suc j) (mq_list ?q)"
          using id_take_nth_drop [of j "mq_list ?q"] j(1,2) by simp
        have nw: "\<forall>m \<in> set (drop (Suc j) (mq_list ?q)). \<not> reply_match serial m"
          using j(4) by (auto simp: in_set_conv_nth)
        have "\<exists>xs ys. mq_list ?q = xs @ mq_slots ?q (unat k') # ys \<and> reply_match serial (mq_slots ?q (unat k')) \<and>
            (\<forall>m \<in> set ys. \<not> reply_match serial m) \<and> mq_pending q' = filter (\<lambda>m. \<not> MSG_ISRESP (m_evt m)) (xs @ ys)"
          using l nw j(2,3,5) by (metis (no_types, lifting))
        then show ?thesis using m r(2) False Some
          by (intro exI [of _ k] exI [of _ "recv_finish k (upd_mq (cur_pid s) (\<lambda>_. q') s)"]) simp
      qed
    qed
  qed
qed

theorem msg_recv_correct_witness:
  "\<exists>k s'. msg_recv id 0 ((msg_state 3 5)\<lparr>ptes := \<lambda>_ _. 1\<rparr>) = Some (Done (k, s')) \<and> mq_ok (mqs s' 40)"
proof -
  have g: "get_tcb (TCB 40) ((msg_state 3 5)\<lparr>ptes := \<lambda>_ _. 1\<rparr>) = msg_task 40 PRI_APP"
    by (simp add: get_tcb_def)
  show ?thesis
    using msg_recv_correct [of "(msg_state 3 5)\<lparr>ptes := \<lambda>_ _. 1\<rparr>" id 0]
    by (auto simp: g slots_present_def vmm_ispresent_def mq_ok_def)
qed

text \<open>
  A send to a full ring loses everything in it. The end of the ring is moved on before the
  check and not moved back when the sender is blocked, so the ring, which held 190 messages,
  is empty afterwards.
\<close>

lemma msg_send_full_drops:
  assumes "send_ready event dst s" and "mq_ok (mqs s dst)" and "mq_len (mqs s dst) = 190" and "runlevel s = RUNLVL_NORM"
  shows "\<exists>s'. msg_send dr a b c d e f event serial s = Done (0, s') \<and>
     length (mq_list (mqs s dst)) = 190 \<and> mq_list (mqs s' dst) = [] \<and> mqs s' dst = ring_send m (mqs s dst)"
proof -
  let ?s = "upd_mq dst (\<lambda>q. mq_advance (mq_init q)) (after_checks dst s)"
  have q: "mqs ?s dst = mq_advance (mqs s dst)" using mq_init_ok [OF assms(2)] by simp
  have eq: "mq_end (mq_advance (mqs s dst)) = mq_start (mqs s dst)"
    using mq_full_iff [OF assms(2)] assms(3) by simp
  then have "msg_send dr a b c d e f event serial s = Done (0, send_block dr dst ?s)"
    using q by (simp add: msg_send_ready [OF assms(1)] send_queue_def Let_def)
  moreover have "same_mem ?s (send_block dr dst ?s)"
  proof -
    have r: "runlevel (upd_tcb p f s') = runlevel s'" for p f s' by (cases p) (simp_all add: upd_tcb_def)
    have "same_mem s' (sched_pick dr (sched_block t s'))" if "runlevel s' = RUNLVL_NORM" for s' t
    proof -
      have "same_mem s' (sched_block t s')" by simp
      moreover from this have "runlevel (sched_block t s') = RUNLVL_NORM" using that by (simp only: same_mem_def)
      ultimately show ?thesis using same_mem_sched_pick same_mem_trans by blast
    qed
    then have "same_mem (upd_tcb p f (upd_tcb p' f' s')) (sched_pick dr (sched_block t (upd_tcb p f (upd_tcb p' f' s'))))"
      if "runlevel s' = RUNLVL_NORM" for s' p f p' f' t using that by (simp add: r)
    moreover have "same_mem s' (upd_tcb p f (upd_tcb p' f' s'))" for s' p f p' f' by simp
    ultimately have "same_mem s' (sched_pick dr (sched_block t (upd_tcb p f (upd_tcb p' f' s'))))"
      if "runlevel s' = RUNLVL_NORM" for s' p f p' f' t using that same_mem_trans by blast
    then show ?thesis using assms(4) by (simp add: send_block_def Let_def)
  qed
  moreover have "ring_send m (mqs s dst) = mq_advance (mqs s dst)"
    using eq by (simp add: ring_send_def mq_init_ok [OF assms(2)])
  ultimately show ?thesis using q eq assms(3)
    by (simp add: same_mem_def mq_list_def mq_len_def ring_len_def)
qed

text \<open>On the ring of the receiver, a send that passes the checks does what \<open>ring_send\<close> does, full or not.\<close>

lemma msg_send_ring:
  assumes ready: "send_ready event dst s" and ok: "mq_ok (mqs s dst)" and run: "runlevel s = RUNLVL_NORM"
    and page: "vmm_ispresent (ptes s dst (mq_page (mq_end (mqs s dst))))" and plain: "event AND MSG_PTRDATA = 0"
  shows "\<exists>r m s'. msg_send dr a b c d e f event serial s = Done (r, s') \<and> mqs s' dst = ring_send m (mqs s dst) \<and>
    m = msg_make (cur_pid s) event a b c d e f (if serial \<noteq> 0 then serial else send_serial dst s)"
proof (cases "mq_len (mqs s dst) = 190")
  case True
  show ?thesis using msg_send_full_drops [OF ready ok True run] by blast
next
  case False
  then have l: "mq_len (mqs s dst) < 190" using mq_len_less [OF ok] by simp
  have "send_serial dst (after_checks dst s) = send_serial dst s" by (simp add: send_serial_def)
  then show ?thesis
    using send_queue_plain [of "after_checks dst s" dst event dr a b c d e f serial] ok l page plain
    by (simp only: msg_send_ready [OF ready] after_checks_simps) blast
qed

lemma msg_send_full_drops_witness:
  "\<exists>s'. msg_send id 1 2 3 4 5 6 0xFFFFFFFFFFFF0012 0 (msg_state 2 1) = Done (0, s') \<and> mq_list (mqs s' 31) = []"
proof -
  have "evt_task 0xFFFFFFFFFFFF0012 = SRV_FS" "EVT_FUNC 0xFFFFFFFFFFFF0012 = SYS_fread" by code_simp+
  note r = msg_state_ready [OF this, of 2 1]
  have "mq_ok (mqs (msg_state 2 1) 31)" "mq_len (mqs (msg_state 2 1) 31) = 190"
    by (simp_all add: mq_ok_def mq_len_def ring_len_def)
  then show ?thesis using msg_send_full_drops [OF r, of id 1 2 3 4 5 6 0] by auto
qed

text \<open>
  A message refused because of its buffer still takes its slot: the end of the ring has been
  moved on and the slot keeps what an earlier message left there, which the receiver will get
  again.
\<close>

lemma msg_send_fault_leaves_slot:
  assumes "send_ready event dst s" and "mq_ok (mqs s dst)" and "mq_len (mqs s dst) < 190"
    and "vmm_ispresent (ptes s dst (mq_page (mq_end (mqs s dst))))" and "event AND MSG_PTRDATA \<noteq> 0" and "a < TEXT_ADDRESS"
  shows "\<exists>s'. msg_send dr a b c d e f event serial s = Done (0, s') \<and> core_errno s' = EFAULT \<and>
     mq_list (mqs s' dst) = mq_list (mqs s dst) @ [mq_slots (mqs s dst) (unat (mq_end (mqs s dst)))]"
proof -
  let ?q = "mqs s dst"
  let ?s = "upd_mq dst (\<lambda>q. mq_advance (mq_init q)) (after_checks dst s)"
  have i: "mq_init ?q = ?q" by (rule mq_init_ok [OF assms(2)])
  have nf: "mq_wrap (mq_end ?q + 1) \<noteq> mq_start ?q" using mq_full_iff [OF assms(2)] assms(3) by simp
  have "msg_send dr a b c d e f event serial s = Done (0, seterr EFAULT ?s)"
    using assms(4,5,6) i nf
    by (simp add: msg_send_ready [OF assms(1)] send_queue_def msg_page_def msg_buffer_def Let_def)
  moreover have "mq_list (mqs (seterr EFAULT ?s) dst) = mq_list ?q @ [mq_slots ?q (unat (mq_end ?q))]"
  proof -
    have "mq_list (mq_advance ?q) = mq_list (mq_enq (mq_slots ?q (unat (mq_end ?q))) ?q)"
      by (rule mq_list_cong) (simp_all add: mq_enq_def fun_upd_idem)
    then show ?thesis using mq_enq_list(2) [OF assms(2,3)] i by (simp add: seterr_def upd_ccb_def)
  qed
  ultimately show ?thesis by simp
qed

lemma msg_send_fault_leaves_slot_witness:
  "\<exists>s'. msg_send id 1 2 3 4 5 6 0xFFFFFFFFFFFF4012 0 (msg_state 3 5) = Done (0, s') \<and> core_errno s' = EFAULT"
proof -
  have "evt_task 0xFFFFFFFFFFFF4012 = SRV_FS" "EVT_FUNC 0xFFFFFFFFFFFF4012 = SYS_fread" by code_simp+
  note r = msg_state_ready [OF this, of 3 5]
  have "mq_ok (mqs (msg_state 3 5) 31)" "mq_len (mqs (msg_state 3 5) 31) = 2" "mq_page 5 = 1" "(1 :: u64) < TEXT_ADDRESS"
    "(0xFFFFFFFFFFFF4012 :: u64) AND MSG_PTRDATA \<noteq> 0"
    by (simp_all add: mq_ok_def mq_len_def ring_len_def mq_page_def TEXT_ADDRESS_def MSG_PTRDATA_def)
  then show ?thesis using msg_send_fault_leaves_slot [OF r, of 1 id 2 3 4 5 6 0] by (auto simp: vmm_ispresent_def)
qed

text \<open>
  The 64th message to an idle task is lost. Its slot is the first one on the second page of
  the ring, which is not present yet; since the ring is empty the code starts over at slot 1,
  but it sets only the end of the ring to 1 and leaves the start at 64. The receiver then
  reads slot 64 and faults, and the message waits in slot 1, outside of what is to be read.
\<close>

lemma msg_send_restart_loses:
  "\<exists>s'. msg_send id 1 2 3 4 5 6 0xFFFFFFFFFFFF0012 0 (msg_state 64 64) = Done (send_serial 31 (msg_state 64 64), s') \<and>
     m_arg0 (mq_slots (mqs s' 31) 1) = 1 \<and> mq_start (mqs s' 31) = 64 \<and> mq_end (mqs s' 31) = 1 \<and>
     recv_any (\<lambda>k. mq_page k = 1) (mqs s' 31) = Some (KPanic ''page fault'')"
proof -
  have "evt_task 0xFFFFFFFFFFFF0012 = SRV_FS" "EVT_FUNC 0xFFFFFFFFFFFF0012 = SYS_fread" by code_simp+
  note r = msg_state_ready [OF this, of 64 64]
  have p: "mq_page 64 = 2" "mq_page 64 \<noteq> 1" by (simp_all add: mq_page_def)
  have e: "(0xFFFFFFFFFFFF0012 :: u64) AND MSG_PTRDATA = 0" by (simp add: MSG_PTRDATA_def)
  define q where "q = zero_mq\<lparr>mq_start := 64, mq_end := 1, mq_serial := 1,
    mq_slots := (\<lambda>_. zero_msg)(1 := msg_make 40 0xFFFFFFFFFFFF0012 1 2 3 4 5 6 (send_serial 31 (msg_state 64 64)))\<rparr>"
  let ?s = "sched_awake (TCB 31) (upd_mq 31 (\<lambda>_. q) (after_checks 31 (msg_state 64 64)))"
  have u: "upd_mq d f (upd_mq d g s) = upd_mq d (\<lambda>x. f (g x)) s" for d f g s by (simp add: upd_mq_def)
  have c: "upd_mq 31 f (after_checks 31 (msg_state 64 64)) = upd_mq 31 (\<lambda>_. q) (after_checks 31 (msg_state 64 64))"
    if "f (zero_mq\<lparr>mq_start := 64, mq_end := 64\<rparr>) = q" for f using that by (simp add: upd_mq_def)
  have "msg_send id 1 2 3 4 5 6 0xFFFFFFFFFFFF0012 0 (msg_state 64 64) = Done (send_serial 31 (msg_state 64 64), ?s)"
    using p e
    by (simp add: msg_send_ready [OF r] send_queue_def msg_page_def msg_buffer_def Let_def mq_init_def mq_wrap_def
        MQ_MAX_eq vmm_ispresent_def send_serial_def mq_next_serial_def mq_advance_def u word_le_nat_alt USHRT_MAX_def zero_mq_def)
     (rule arg_cong [of _ _ "sched_awake (TCB 31)"], rule c,
      simp add: q_def mq_put_def mq_next_serial_def mq_advance_def mq_init_def send_serial_def zero_mq_def mq_wrap_def
        MQ_MAX_eq word_le_nat_alt USHRT_MAX_def)
  moreover have "mqs ?s 31 = q" by simp
  ultimately show ?thesis using p(2)
    by (simp add: recv_any_def recv_first.simps q_def msg_make_def)
qed

end
