(* ===== verification/Core_Vmm.thy ===== *)
theory Core_Vmm
  imports Core_Pmm Core_Libc
begin

text \<open>
  The virtual memory manager, \<^verbatim>\<open>core/vmm.c\<close> and \<^verbatim>\<open>vmm_new\<close> of \<^verbatim>\<open>core/x86_64/vmm.c\<close>. Page tables are pages of physical
  memory with 512 entries of eight bytes. The code reaches a table by mapping it in a window of the CPU
  (\<^verbatim>\<open>LDYN_tmpctrl\<close>, \<^verbatim>\<open>LDYN_tmpmap1\<close> and so on) and flushing the window from the translation cache; here a table is
  accessed by its physical address. A window that another operation sees is set with \<open>vmm_page\<close>, which changes
  the entry of the window in the tables of the CPU.
\<close>

section \<open>Tables\<close>

definition PG_CORE_RW :: u64 where "PG_CORE_RW = 0x0003"
definition PG_CORE_RWNOCACHE :: u64 where "PG_CORE_RWNOCACHE = 0x001b"
definition PG_USER_RW :: u64 where "PG_USER_RW = 0x0007"
definition PG_USER_RWNOCACHE :: u64 where "PG_USER_RWNOCACHE = 0x0017"
definition PG_USER_RO :: u64 where "PG_USER_RO = 0x0005"
definition PG_PAGE :: u64 where "PG_PAGE = 0x0001"
definition PG_SLOT :: u64 where "PG_SLOT = 0x0081"
definition PG_SHARED :: u64 where "PG_SHARED = 0x800"
definition PG_NX :: u64 where "PG_NX = 0x8000000000000000"
definition CDYN_TOP :: u64 where "CDYN_TOP = 0xfffffffff8000000"

lemmas pg_defs = PG_CORE_RW_def PG_CORE_RWNOCACHE_def PG_USER_RW_def PG_USER_RWNOCACHE_def
  PG_USER_RO_def PG_PAGE_def PG_SLOT_def PG_SHARED_def PG_NX_def

definition vmm_isslot :: "u64 \<Rightarrow> bool" where "vmm_isslot p \<longleftrightarrow> p AND 0x80 \<noteq> 0"
definition vmm_wnx :: "u64 \<Rightarrow> u64" where "vmm_wnx access = (if access AND 2 \<noteq> 0 then PG_NX else 0)"

text \<open>Reading and writing a word of memory, and an entry of a table.\<close>

definition get64 :: "mem \<Rightarrow> u64 \<Rightarrow> u64" where
  "get64 m a = foldr (\<lambda>b w. push_bit 8 w OR ucast b) (bytes_at m a 8) 0"

definition pt :: "kstate \<Rightarrow> u64 \<Rightarrow> nat \<Rightarrow> u64" where
  "pt s t i = get64 (phymem s) (t + 8 * of_nat i)"

definition set_pt :: "u64 \<Rightarrow> nat \<Rightarrow> u64 \<Rightarrow> kstate \<Rightarrow> kstate" where
  "set_pt t i v s = s\<lparr>phymem := put_bytes (t + 8 * of_nat i) (le64 v) (phymem s)\<rparr>"

text \<open>The index of an address in a table whose entries cover \<open>2 ^ k\<close> bytes.\<close>

definition idx :: "nat \<Rightarrow> u64 \<Rightarrow> nat" where
  "idx k v = unat (drop_bit k v AND 511)"

definition upd_linkmem :: "tcbptr \<Rightarrow> (u64 \<Rightarrow> u64) \<Rightarrow> kstate \<Rightarrow> kstate" where
  "upd_linkmem tcb f s = upd_tcb tcb (\<lambda>t. t\<lparr>tcb_linkmem := f (tcb_linkmem t)\<rparr>) s"

section \<open>vmm_page\<close>

text \<open>
  What the processor uses: the root of the current address space, and the physical addresses of the tables the CPU has
  mapped at \<^verbatim>\<open>LDYN_4K\<close> and \<^verbatim>\<open>LDYN_2M\<close>.
\<close>

record mmu_t =
  mmu_cr3 :: u64
  mmu_4k :: u64
  mmu_2m :: u64

text \<open>
  The entry behind a frequently used window: the window of the alarm queue, the seven windows for single pages, and the one
  for slots.
\<close>

definition window_entry :: "mmu_t \<Rightarrow> u64 \<Rightarrow> (u64 \<times> nat) option" where
  "window_entry c v =
     (if v = LDYN_ADDRESS + PAGESIZE then Some (mmu_4k c, 1)
      else if v \<in> {LDYN_ADDRESS + 8 * PAGESIZE, LDYN_ADDRESS + 9 * PAGESIZE, LDYN_ADDRESS + 10 * PAGESIZE,
                   LDYN_ADDRESS + 11 * PAGESIZE, LDYN_ADDRESS + 12 * PAGESIZE, LDYN_ADDRESS + 13 * PAGESIZE,
                   LDYN_ADDRESS + 14 * PAGESIZE}
      then Some (mmu_4k c, idx 12 v)
      else if v = LDYN_ADDRESS + SLOTSIZE then Some (mmu_2m c, 1)
      else None)"

text \<open>The walk through the tables, for all other addresses; \<open>None\<close> stands for the panic.\<close>

definition page_entry :: "u64 \<Rightarrow> u64 \<Rightarrow> u64 \<Rightarrow> kstate \<Rightarrow> (u64 \<times> nat) option" where
  "page_entry root v access s =
     (if drop_bit 48 v \<noteq> 0 \<and> drop_bit 48 v \<noteq> 0xffff then None
      else if drop_bit 39 v \<noteq> 0 \<and> drop_bit 39 v AND 511 \<noteq> 511 then None
      else let e4 = pt s (vmm_phyaddr root) (idx 39 v) in
        if \<not> vmm_ispresent e4 then None
        else let e3 = pt s (vmm_phyaddr e4) (idx 30 v) in
          if \<not> vmm_ispresent e3 then None
          else if vmm_isslot access then Some (vmm_phyaddr e3, idx 21 v)
          else let e2 = pt s (vmm_phyaddr e3) (idx 21 v) in
            if \<not> vmm_ispresent e2 then None else Some (vmm_phyaddr e2, idx 12 v))"

definition set_page :: "u64 \<times> nat \<Rightarrow> u64 \<Rightarrow> u64 \<Rightarrow> kstate \<Rightarrow> kstate" where
  "set_page e phys access s =
     set_pt (fst e) (snd e)
       (vmm_phyaddr (if phys \<noteq> - 1 then phys else pt s (fst e) (snd e)) OR access OR vmm_wnx access) s"

definition vmm_page :: "mmu_t \<Rightarrow> u64 \<Rightarrow> u64 \<Rightarrow> u64 \<Rightarrow> u64 \<Rightarrow> kstate \<Rightarrow> kstate outcome" where
  "vmm_page c memroot v phys access s =
     (case window_entry c v of
        Some e \<Rightarrow> Done (set_page e phys access s)
      | None \<Rightarrow>
          (case page_entry (if memroot = 0 then mmu_cr3 c else memroot) v access s of
             Some e \<Rightarrow> Done (set_page e phys access s)
           | None \<Rightarrow> KPanic ''page translation error''))"

section \<open>vmm_map\<close>

text \<open>How a pass through the tables ends: mapped, failed, or with a rest to map.\<close>

datatype map_end = MapDone | MapFail | MapAgain u64 u64 nat

text \<open>The table behind an entry, allocated when it is missing; \<open>False\<close> when there is no memory.\<close>

definition need_table :: "tcbptr \<Rightarrow> u64 \<Rightarrow> nat \<Rightarrow> u64 \<Rightarrow> kstate \<Rightarrow> (bool \<times> kstate) outcome" where
  "need_table tcb t i access s =
     (if vmm_ispresent (pt s t i) then Done (True, s)
      else case pmm_alloc tcb 1 s of KPanic m \<Rightarrow> KPanic m
        | Done (page, s) \<Rightarrow>
            if page = 0 then Done (False, s) else Done (True, set_pt t i (page OR access OR PG_PAGE) s))"

text \<open>The loop over pages of 4K; the size is counted in pages, it is a multiple of the page size.\<close>

fun map_pages :: "tcbptr \<Rightarrow> u64 \<Rightarrow> u64 \<Rightarrow> nat \<Rightarrow> u64 \<Rightarrow> u64 \<Rightarrow> nat \<Rightarrow> kstate \<Rightarrow> (map_end \<times> kstate) outcome" where
  "map_pages tcb a t i bss phys 0 s = Done (MapDone, s)"
| "map_pages tcb a t i bss phys (Suc n) s =
     (if vmm_ispresent (pt s t i) then Done (MapFail, seterr EFAULT s)
      else
        let next = (\<lambda>phys s. if 511 \<le> i then Done (MapAgain (bss + PAGESIZE) phys n, s)
                             else map_pages tcb a t (i + 1) (bss + PAGESIZE) phys n s)
        in if phys \<noteq> 0
           then next (phys + PAGESIZE)
             (upd_linkmem tcb (\<lambda>l. l + 1) (set_pt t i (phys OR a OR PG_PAGE OR PG_SHARED) s))
           else case pmm_alloc tcb 1 s of KPanic m \<Rightarrow> KPanic m
             | Done (page, s) \<Rightarrow>
                 if page = 0 then Done (MapFail, s) else next 0 (set_pt t i (page OR a OR PG_PAGE) s))"

text \<open>The loop over slots of 2M.\<close>

function map_slots :: "tcbptr \<Rightarrow> u64 \<Rightarrow> u64 \<Rightarrow> nat \<Rightarrow> u64 \<Rightarrow> u64 \<Rightarrow> nat \<Rightarrow> kstate \<Rightarrow> (map_end \<times> kstate) outcome" where
  "map_slots tcb a t i bss phys n s =
     (if n < 512 \<or> 512 \<le> i then Done (MapAgain bss phys n, s)
      else if vmm_ispresent (pt s t i) then Done (MapFail, seterr EFAULT s)
      else if phys \<noteq> 0
      then map_slots tcb a t (i + 1) (bss + SLOTSIZE) (phys + SLOTSIZE) (n - 512)
             (upd_linkmem tcb (\<lambda>l. l + SLOTSIZE div PAGESIZE) (set_pt t i (phys OR a OR PG_SLOT OR PG_SHARED) s))
      else case pmm_allocslot tcb s of KPanic m \<Rightarrow> KPanic m
        | Done (page, s) \<Rightarrow>
            if page = 0 then Done (MapFail, s)
            else map_slots tcb a t (i + 1) (bss + SLOTSIZE) 0 (n - 512) (set_pt t i (page OR a OR PG_SLOT) s))"
  by pat_completeness auto
termination
  by (relation "measure (\<lambda>(tcb, a, t, i, bss, phys, n, s). 512 - i)") auto

declare map_slots.simps [simp del]

text \<open>One pass from the label \<^verbatim>\<open>again\<close>.\<close>

definition map_pass ::
    "tcbptr \<Rightarrow> u64 \<Rightarrow> u64 \<Rightarrow> u64 \<Rightarrow> u64 \<Rightarrow> u64 \<Rightarrow> nat \<Rightarrow> kstate \<Rightarrow> (map_end \<times> kstate) outcome" where
  "map_pass tcb memroot access a bss phys n s =
     (case need_table tcb memroot (idx 30 bss) access s of KPanic m \<Rightarrow> KPanic m
      | Done (False, s) \<Rightarrow> Done (MapFail, s)
      | Done (True, s) \<Rightarrow>
          let t2 = vmm_phyaddr (pt s memroot (idx 30 bss)); i = idx 21 bss
          in if \<not> vmm_ispresent (pt s t2 i) \<and> phys AND (SLOTSIZE - 1) = 0 \<and> bss AND (SLOTSIZE - 1) = 0 \<and> 512 \<le> n
             then map_slots tcb a t2 i bss phys n s
             else case need_table tcb t2 i access s of KPanic m \<Rightarrow> KPanic m
               | Done (False, s) \<Rightarrow> Done (MapFail, s)
               | Done (True, s) \<Rightarrow> map_pages tcb a (vmm_phyaddr (pt s t2 i)) (idx 12 bss) bss phys n s)"

lemma map_pages_again:
  "map_pages tcb a t i bss phys n s = Done (MapAgain bss' phys' n', s') \<Longrightarrow> n' < n"
proof (induction n arbitrary: i bss phys s)
  case (Suc n)
  show ?case
  proof (cases "phys = 0")
    case True
    with Suc.prems Suc.IH show ?thesis
      by (fastforce simp: Let_def less_Suc_eq split: if_splits outcome.splits prod.splits)
  next
    case False
    with Suc.prems Suc.IH show ?thesis by (fastforce simp: Let_def less_Suc_eq split: if_splits)
  qed
qed simp

lemma map_slots_again:
  "map_slots tcb a t i bss phys n s = Done (MapAgain bss' phys' n', s') \<Longrightarrow>
     n' \<le> n \<and> (512 \<le> n \<and> i < 512 \<longrightarrow> n' < n)"
proof (induction tcb a t i bss phys n s rule: map_slots.induct)
  case (1 tcb a t i bss phys n s)
  note eq = map_slots.simps [of tcb a t i bss phys n s]
  show ?case
  proof (cases "n < 512 \<or> 512 \<le> i")
    case True
    with 1(3) show ?thesis unfolding eq by auto
  next
    case False
    with 1 have "n' \<le> n - 512"
      unfolding eq by (fastforce split: if_splits outcome.splits prod.splits)
    with False show ?thesis by linarith
  qed
qed

lemma idx_less [simp]: "idx k v < 512"
proof -
  have "drop_bit k v AND 511 = take_bit 9 (drop_bit k v)"
    by (simp add: take_bit_eq_mask mask_eq_exp_minus_1)
  then show ?thesis
    by (simp add: idx_def unsigned_take_bit_eq take_bit_nat_less_exp [of 9, simplified])
qed

lemma map_pass_again:
  assumes "map_pass tcb memroot access a bss phys n s = Done (MapAgain bss' phys' n', s')"
  shows "n' < n"
  using assms map_slots_again [where i = "idx 21 bss" and n = n] map_pages_again
  unfolding map_pass_def Let_def by (fastforce split: outcome.splits prod.splits bool.splits if_splits)

function map_loop ::
    "tcbptr \<Rightarrow> u64 \<Rightarrow> u64 \<Rightarrow> u64 \<Rightarrow> u64 \<Rightarrow> u64 \<Rightarrow> nat \<Rightarrow> kstate \<Rightarrow> (bool \<times> kstate) outcome" where
  "map_loop tcb memroot access a bss phys n s =
     (case map_pass tcb memroot access a bss phys n s of KPanic m \<Rightarrow> KPanic m
      | Done (MapDone, s) \<Rightarrow> Done (True, s)
      | Done (MapFail, s) \<Rightarrow> Done (False, s)
      | Done (MapAgain bss phys n, s) \<Rightarrow> map_loop tcb memroot access a bss phys n s)"
  by pat_completeness auto
termination
  by (relation "measure (\<lambda>(tcb, memroot, access, a, bss, phys, n, s). n)") (auto dest: map_pass_again)

declare map_loop.simps [simp del]

text \<open>
  The access bits: the caller's choice is only kept for entries of a task's own buffers; dynamic memory, shared memory and the
  memory of the core have fixed ones. The first component is used for tables, the second for pages.
\<close>

definition map_access :: "u64 \<Rightarrow> u64 \<Rightarrow> u64 \<times> u64" where
  "map_access bss access =
     (if bss < SDYN_ADDRESS
      then if DYN_ADDRESS \<le> bss \<and> bss < BUF_ADDRESS then (PG_NX OR PG_USER_RW, PG_NX OR PG_USER_RW)
           else (access, access OR PG_NX)
      else if bss < LDYN_ADDRESS then (PG_NX OR PG_USER_RWNOCACHE, access OR PG_NX)
      else (PG_NX OR PG_CORE_RWNOCACHE, PG_NX OR PG_CORE_RWNOCACHE))"

text \<open>\<open>vmm_getmemroot\<close>: shared and core memory is charged to the idle task.\<close>

definition map_tcb :: "u64 \<Rightarrow> tcbptr \<Rightarrow> tcbptr" where
  "map_tcb bss tcb = (if SDYN_ADDRESS \<le> bss then TCBIdle else tcb)"

definition getmemroot :: "u64 \<Rightarrow> tcbptr \<Rightarrow> kstate \<Rightarrow> u64" where
  "getmemroot bss tcb s = vmm_phyaddr (pt s (vmm_phyaddr (tcb_memroot (get_tcb (map_tcb bss tcb) s))) (idx 39 bss))"

definition page_round :: "u64 \<Rightarrow> u64" where
  "page_round n = (n + PAGESIZE - 1) AND NOT (PAGESIZE - 1)"

definition vmm_map :: "tcbptr \<Rightarrow> u64 \<Rightarrow> u64 \<Rightarrow> u64 \<Rightarrow> u64 \<Rightarrow> kstate \<Rightarrow> (u64 \<times> kstate) outcome" where
  "vmm_map tcb bss phys n access s = (
     let phys = vmm_phyaddr phys; n = page_round n
     in if n = 0 \<or> tcb \<noteq> TCBIdle \<and> bss = 0 \<or> drop_bit 39 bss \<noteq> 0 \<and> drop_bit 39 bss AND 511 \<noteq> 511
        then Done (- 1, seterr EINVAL s)
        else if bss < SDYN_ADDRESS \<and> tcb_magic (get_tcb tcb s) \<noteq> OSZ_TCB_MAGICH then Done (- 1, s)
        else if SDYN_ADDRESS \<le> bss \<and> bss \<le> CDYN_TOP \<and> CDYN_TOP \<le> bss + n then Done (- 1, seterr ENOMEM s)
        else
          let (access', a) = map_access bss access
          in case map_loop (map_tcb bss tcb) (getmemroot bss tcb s) access' a bss phys (unat (n div PAGESIZE)) s of
               KPanic m \<Rightarrow> KPanic m
             | Done (ok, s) \<Rightarrow> Done (if ok then bss else - 1, s))"

section \<open>vmm_maptext and vmm_swaptextbuf\<close>

text \<open>
  \<^verbatim>\<open>vmm_maptext\<close> maps the pages of an array, from index \<open>p\<close> on, and never uses slots. An occupied page
  makes it return an invalid pointer, a lack of memory a null pointer.
\<close>

datatype text_end = TextDone | TextFail u64 | TextAgain u64 nat nat

fun text_pages :: "tcbptr \<Rightarrow> (nat \<Rightarrow> u64) \<Rightarrow> u64 \<Rightarrow> nat \<Rightarrow> u64 \<Rightarrow> nat \<Rightarrow> nat \<Rightarrow> kstate \<Rightarrow> text_end \<times> kstate" where
  "text_pages tcb phys t i bss p 0 s = (TextDone, s)"
| "text_pages tcb phys t i bss p (Suc n) s =
     (if vmm_ispresent (pt s t i) then (TextFail (- 1), seterr EFAULT s)
      else
        let s = upd_linkmem tcb (\<lambda>l. l + 1) (set_pt t i (phys p OR PG_USER_RO OR PG_PAGE OR PG_SHARED) s)
        in if 511 \<le> i then (TextAgain (bss + PAGESIZE) (p + 1) n, s)
           else text_pages tcb phys t (i + 1) (bss + PAGESIZE) (p + 1) n s)"

definition text_pass ::
    "tcbptr \<Rightarrow> u64 \<Rightarrow> (nat \<Rightarrow> u64) \<Rightarrow> u64 \<Rightarrow> nat \<Rightarrow> nat \<Rightarrow> kstate \<Rightarrow> (text_end \<times> kstate) outcome" where
  "text_pass tcb memroot phys bss p n s =
     (case need_table tcb memroot (idx 30 bss) PG_USER_RW s of KPanic m \<Rightarrow> KPanic m
      | Done (False, s) \<Rightarrow> Done (TextFail 0, s)
      | Done (True, s) \<Rightarrow>
          let t2 = vmm_phyaddr (pt s memroot (idx 30 bss)); i = idx 21 bss
          in case need_table tcb t2 i PG_USER_RW s of KPanic m \<Rightarrow> KPanic m
             | Done (False, s) \<Rightarrow> Done (TextFail 0, s)
             | Done (True, s) \<Rightarrow> Done (text_pages tcb phys (vmm_phyaddr (pt s t2 i)) (idx 12 bss) bss p n s))"

lemma text_pages_again: "text_pages tcb phys t i bss p n s = (TextAgain bss' p' n', s') \<Longrightarrow> n' < n"
proof (induction n arbitrary: i bss p s)
  case (Suc n)
  from Suc.prems Suc.IH show ?case by (fastforce simp: Let_def less_Suc_eq split: if_splits)
qed simp

lemma text_pass_again: "text_pass tcb memroot phys bss p n s = Done (TextAgain bss' p' n', s') \<Longrightarrow> n' < n"
  using text_pages_again unfolding text_pass_def Let_def
  by (fastforce split: outcome.splits prod.splits bool.splits)

function text_loop ::
    "tcbptr \<Rightarrow> u64 \<Rightarrow> (nat \<Rightarrow> u64) \<Rightarrow> u64 \<Rightarrow> u64 \<Rightarrow> nat \<Rightarrow> nat \<Rightarrow> kstate \<Rightarrow> (u64 \<times> kstate) outcome" where
  "text_loop tcb memroot phys ret bss p n s =
     (case text_pass tcb memroot phys bss p n s of KPanic m \<Rightarrow> KPanic m
      | Done (TextDone, s) \<Rightarrow> Done (ret, s)
      | Done (TextFail r, s) \<Rightarrow> Done (r, s)
      | Done (TextAgain bss p n, s) \<Rightarrow> text_loop tcb memroot phys ret bss p n s)"
  by pat_completeness auto
termination
  by (relation "measure (\<lambda>(tcb, memroot, phys, ret, bss, p, n, s). n)") (auto dest: text_pass_again)

declare text_loop.simps [simp del]

text \<open>The root of the task's tables is used as it is, without the mask of \<^verbatim>\<open>vmm_phyaddr\<close>; the window takes its page.\<close>

definition vmm_maptext :: "tcbptr \<Rightarrow> u64 \<Rightarrow> (nat \<Rightarrow> u64) \<Rightarrow> u64 \<Rightarrow> kstate \<Rightarrow> (u64 \<times> kstate) outcome" where
  "vmm_maptext tcb bss phys n s = (
     let n = page_round n
     in if n = 0 \<or> bss < BUF_ADDRESS + TEXT_ADDRESS \<or> BUF_ADDRESS + DYN_ADDRESS < bss \<or>
           tcb_magic (get_tcb tcb s) \<noteq> OSZ_TCB_MAGICH
        then Done (0, seterr EINVAL s)
        else text_loop tcb (vmm_phyaddr (tcb_taskmemroot (get_tcb tcb s))) phys bss bss 0 (unat (n div PAGESIZE)) s)"

text \<open>The first four entries of the task's table, 1G each, are exchanged with those of the buffer area.\<close>

definition swap_entries :: "u64 \<Rightarrow> nat \<Rightarrow> nat \<Rightarrow> kstate \<Rightarrow> kstate" where
  "swap_entries t i j s = set_pt t i (pt s t j) (set_pt t j (pt s t i) s)"

definition swap_text :: "u64 \<Rightarrow> kstate \<Rightarrow> kstate" where
  "swap_text t s = foldl (\<lambda>s i. swap_entries t i (idx 30 BUF_ADDRESS + i) s) s [0..<unat (DYN_ADDRESS div 0x40000000)]"

definition vmm_swaptextbuf :: "mmu_t \<Rightarrow> tcbptr \<Rightarrow> kstate \<Rightarrow> kstate outcome" where
  "vmm_swaptextbuf c tcb s = (
     let t = get_tcb tcb s; root = tcb_memroot t
     in if tcb_magic t \<noteq> OSZ_TCB_MAGICH then Done (seterr EINVAL s)
        else case vmm_page c root BUF_ADDRESS (- 1) (PG_CORE_RW OR PG_PAGE OR PG_SHARED)
                    (swap_text (vmm_phyaddr (tcb_taskmemroot t)) s) of KPanic m \<Rightarrow> KPanic m
          | Done s \<Rightarrow>
              (case vmm_page c root 0 (- 1) (PG_CORE_RW OR PG_PAGE) s of KPanic m \<Rightarrow> KPanic m
               | Done s \<Rightarrow> vmm_page c root PAGESIZE (- 1) (PG_USER_RO OR PG_PAGE) s))"

section \<open>vmm_free, vmm_del, vmm_new\<close>

definition any_present :: "u64 \<Rightarrow> kstate \<Rightarrow> bool" where
  "any_present t s \<longleftrightarrow> list_ex (\<lambda>k. vmm_ispresent (pt s t k)) [0..<512]"

text \<open>Giving back what an entry maps: a shared page is only taken off the account.\<close>

definition free_entry :: "tcbptr \<Rightarrow> u64 \<Rightarrow> nat \<Rightarrow> u64 \<Rightarrow> kstate \<Rightarrow> kstate outcome" where
  "free_entry tcb t i pages s = (
     let e = pt s t i
     in case (if e AND PG_SHARED \<noteq> 0 then Done (upd_linkmem tcb (\<lambda>l. l - pages) s)
              else pmm_free tcb (vmm_phyaddr e) pages s) of KPanic m \<Rightarrow> KPanic m
        | Done s \<Rightarrow> Done (set_pt t i 0 s))"

text \<open>A table that has become empty is given back with its entry.\<close>

definition free_table :: "tcbptr \<Rightarrow> u64 \<Rightarrow> nat \<Rightarrow> kstate \<Rightarrow> kstate outcome" where
  "free_table tcb t i s =
     (if any_present (vmm_phyaddr (pt s t i)) s then Done s
      else case pmm_free tcb (vmm_phyaddr (pt s t i)) 1 s of KPanic m \<Rightarrow> KPanic m
        | Done s \<Rightarrow> Done (set_pt t i 0 s))"

function free_pages_loop ::
    "tcbptr \<Rightarrow> u64 \<Rightarrow> nat \<Rightarrow> u64 \<Rightarrow> nat \<Rightarrow> u64 \<Rightarrow> kstate \<Rightarrow> (u64 \<times> kstate) outcome" where
  "free_pages_loop tcb t ke stop k bss s =
     (if k \<le> ke \<and> bss < stop
      then if vmm_ispresent (pt s t k)
           then case free_entry tcb t k 1 s of KPanic m \<Rightarrow> KPanic m
             | Done s \<Rightarrow> free_pages_loop tcb t ke stop (k + 1) (bss + PAGESIZE) s
           else free_pages_loop tcb t ke stop (k + 1) (bss + PAGESIZE) s
      else Done (bss, s))"
  by pat_completeness auto
termination
  by (relation "measure (\<lambda>(tcb, t, ke, stop, k, bss, s). ke + 1 - k)") auto

declare free_pages_loop.simps [simp del]

text \<open>One entry of a table of 2M entries: absent, a slot, or a table of pages.\<close>

definition free_slot ::
    "tcbptr \<Rightarrow> u64 \<Rightarrow> u64 \<Rightarrow> u64 \<Rightarrow> nat \<Rightarrow> u64 \<Rightarrow> kstate \<Rightarrow> (u64 \<times> kstate) outcome" where
  "free_slot tcb t start stop j bss s = (
     let e = pt s t j
     in if \<not> vmm_ispresent e then Done (bss + SLOTSIZE, s)
        else if vmm_isslot e
        then case free_entry tcb t j (SLOTSIZE div PAGESIZE) s of KPanic m \<Rightarrow> KPanic m
          | Done s \<Rightarrow> Done (bss + SLOTSIZE, s)
        else
          let ke = (if drop_bit 21 stop = drop_bit 21 bss then idx 12 stop else 511);
              k = (if drop_bit 12 start = drop_bit 12 bss then idx 12 bss else 0)
          in case free_pages_loop tcb (vmm_phyaddr e) ke stop k bss s of KPanic m \<Rightarrow> KPanic m
             | Done (bss, s) \<Rightarrow>
                 (case free_table tcb t j s of KPanic m \<Rightarrow> KPanic m | Done s \<Rightarrow> Done (bss, s)))"

function free_slots_loop ::
    "tcbptr \<Rightarrow> u64 \<Rightarrow> nat \<Rightarrow> u64 \<Rightarrow> u64 \<Rightarrow> nat \<Rightarrow> u64 \<Rightarrow> kstate \<Rightarrow> (u64 \<times> kstate) outcome" where
  "free_slots_loop tcb t je start stop j bss s =
     (if j \<le> je \<and> bss < stop
      then case free_slot tcb t start stop j bss s of KPanic m \<Rightarrow> KPanic m
        | Done (bss, s) \<Rightarrow> free_slots_loop tcb t je start stop (j + 1) bss s
      else Done (bss, s))"
  by pat_completeness auto
termination
  by (relation "measure (\<lambda>(tcb, t, je, start, stop, j, bss, s). je + 1 - j)") auto

declare free_slots_loop.simps [simp del]

definition free_gig ::
    "tcbptr \<Rightarrow> u64 \<Rightarrow> u64 \<Rightarrow> u64 \<Rightarrow> u64 \<Rightarrow> kstate \<Rightarrow> (u64 \<times> kstate) outcome" where
  "free_gig tcb memroot start stop bss s = (
     let i = idx 30 bss; e = pt s memroot i
     in if \<not> vmm_ispresent e then Done (bss + 0x40000000, s)
        else
          let je = (if drop_bit 21 stop = drop_bit 21 bss then idx 21 bss else 511);
              j = (if drop_bit 21 start = drop_bit 21 bss then idx 21 bss else 0)
          in case free_slots_loop tcb (vmm_phyaddr e) je start stop j bss s of KPanic m \<Rightarrow> KPanic m
             | Done (bss, s) \<Rightarrow>
                 if stop < SDYN_ADDRESS
                 then (case free_table tcb memroot i s of KPanic m \<Rightarrow> KPanic m | Done s \<Rightarrow> Done (bss, s))
                 else Done (bss, s))"

text \<open>The outer loop may run forever when the address wraps around at the end of the address space (\<open>None\<close>).\<close>

partial_function (option) free_loop ::
    "tcbptr \<Rightarrow> u64 \<Rightarrow> u64 \<Rightarrow> u64 \<Rightarrow> u64 \<Rightarrow> kstate \<Rightarrow> kstate outcome option" where
  "free_loop tcb memroot start stop bss s =
     (if bss < stop
      then case free_gig tcb memroot start stop bss s of KPanic m \<Rightarrow> Some (KPanic m)
        | Done (bss, s) \<Rightarrow> free_loop tcb memroot start stop bss s
      else Some (Done s))"

declare free_loop.simps [code]

definition vmm_free :: "tcbptr \<Rightarrow> u64 \<Rightarrow> u64 \<Rightarrow> kstate \<Rightarrow> kstate outcome option" where
  "vmm_free tcb bss n s = (
     let n = page_round n
     in if n = 0 \<or> drop_bit 39 bss \<noteq> 0 \<and> drop_bit 39 bss AND 511 \<noteq> 511 \<or> tcb_magic (get_tcb tcb s) \<noteq> OSZ_TCB_MAGICH
        then Some (Done (seterr EINVAL s))
        else free_loop (map_tcb bss tcb) (getmemroot bss tcb s) bss (bss + n) bss s)"

text \<open>
  The chain of first entries below the root of an address space; the contents of a table are still there after it was
  given back.
\<close>

partial_function (option) del_chain :: "tcbptr \<Rightarrow> u64 \<Rightarrow> kstate \<Rightarrow> kstate outcome option" where
  "del_chain tcb t s =
     (if pt s t 0 AND PG_PAGE \<noteq> 0
      then case pmm_free tcb (vmm_phyaddr (pt s t 0)) 1 s of KPanic m \<Rightarrow> Some (KPanic m)
        | Done s \<Rightarrow> del_chain tcb (vmm_phyaddr (pt s t 0)) s
      else Some (Done s))"

declare del_chain.simps [code]

definition vmm_del :: "tcbptr \<Rightarrow> kstate \<Rightarrow> kstate outcome option" where
  "vmm_del tcb s = (
     let root = vmm_phyaddr (tcb_memroot (get_tcb tcb s))
     in if tcb_magic (get_tcb tcb s) \<noteq> OSZ_TCB_MAGICH then Some (Done s)
        else case vmm_free tcb 0 (BUF_ADDRESS + DYN_ADDRESS) s of None \<Rightarrow> None
          | Some (KPanic m) \<Rightarrow> Some (KPanic m)
          | Some (Done s) \<Rightarrow>
              (case del_chain tcb root s of None \<Rightarrow> None
               | Some (KPanic m) \<Rightarrow> Some (KPanic m)
               | Some (Done s) \<Rightarrow>
                   (case pmm_free tcb root 1 s of KPanic m \<Rightarrow> Some (KPanic m)
                    | Done s \<Rightarrow>
                        if tcb_linkmem (get_tcb tcb s) \<noteq> 0 \<or> tcb_allocmem (get_tcb tcb s) \<noteq> 0
                        then Some (KPanic ''vmm_del: memleak'') else Some (Done s))))"

text \<open>
  \<^verbatim>\<open>vmm_new\<close>: five pages, which are charged to the idle task until the new control block exists: the root, one table of each
  level and the control block itself. \<open>shared\<close> is the table of shared memory of the chosen CPU
  (\<^verbatim>\<open>ccb->sharedroot\<close>). The result is the identifier of the task, the number of the page of its control block. The
  registers in the control block are not part of the model.
\<close>

fun alloc_pages :: "nat \<Rightarrow> kstate \<Rightarrow> (u64 list \<times> kstate) outcome" where
  "alloc_pages 0 s = Done ([], s)"
| "alloc_pages (Suc n) s =
     (case pmm_alloc TCBIdle 1 s of KPanic m \<Rightarrow> KPanic m
      | Done (p, s) \<Rightarrow> (case alloc_pages n s of KPanic m \<Rightarrow> KPanic m | Done (ps, s) \<Rightarrow> Done (p # ps, s)))"

definition new_tcb :: "u16 \<Rightarrow> u8 \<Rightarrow> u64 \<Rightarrow> u64 \<Rightarrow> u64 \<Rightarrow> kstate \<Rightarrow> tcb_t" where
  "new_tcb cpu priority pid cr3 pml4 s = zero_tcb\<lparr>tcb_magic := OSZ_TCB_MAGICH,
     tcb_cpuid := (if ucast cpu < numcores s then ucast cpu else 0), tcb_priority := priority,
     tcb_pid := pid, tcb_memroot := cr3, tcb_taskmemroot := pml4, tcb_allocmem := 5\<rparr>"

definition new_tables :: "u64 \<Rightarrow> u64 list \<Rightarrow> kstate \<Rightarrow> kstate" where
  "new_tables shared ps s =
     set_pt (ps ! 3) 0 (ps ! 4 OR PG_NX OR PG_CORE_RW OR PG_PAGE)
       (set_pt (ps ! 2) 0 (ps ! 3 OR PG_USER_RW OR PG_PAGE)
         (set_pt (ps ! 1) 0 (ps ! 2 OR PG_USER_RW OR PG_PAGE)
           (set_pt (ps ! 0) 511 (shared OR PG_USER_RW OR PG_PAGE)
             (set_pt (ps ! 0) 0 (ps ! 1 OR PG_USER_RW OR PG_PAGE) s))))"

definition vmm_new :: "u64 \<Rightarrow> u16 \<Rightarrow> u8 \<Rightarrow> kstate \<Rightarrow> (u64 \<times> kstate) outcome" where
  "vmm_new shared cpu priority s =
     (case alloc_pages 5 s of KPanic m \<Rightarrow> KPanic m
      | Done (ps, s) \<Rightarrow>
          let pid = drop_bit PAGEBITS (ps ! 4); s = new_tables shared ps s;
              s = s\<lparr>tcbs := (tcbs s)(pid := new_tcb cpu priority pid (ps ! 0) (ps ! 1) s)\<rparr>
          in Done (pid, upd_tcb TCBIdle (\<lambda>t. t\<lparr>tcb_allocmem := tcb_allocmem t - 5\<rparr>) s))"

end
