(* ===== verification/Core_Vmm_Prop.thy ===== *)
theory Core_Vmm_Prop
  imports Core_Vmm
begin

text \<open>
  Correctness of the virtual memory manager: entries of tables as a store, the tree of tables of an address space and its
  invariant, and what mapping, exchanging and removing do to the translation of addresses.
\<close>

section \<open>Entries as a store\<close>

lemma length_le64 [simp]: "length (le64 v) = 8"
  by (simp add: le64_def)

lemma get64_bytes:
  "foldr (\<lambda>b w. push_bit 8 w OR ucast b) (map (\<lambda>i. ucast (drop_bit (8 * (k + i)) v) :: u8) [0..<n]) 0 =
     take_bit (8 * n) (drop_bit (8 * k) v)" for v :: u64
proof (induction n arbitrary: k)
  case (Suc n)
  have split: "[0..<Suc n] = 0 # map Suc [0..<n]" by (simp add: map_Suc_upt upt_conv_Cons)
  have "push_bit 8 (take_bit (8 * n) (drop_bit (8 * Suc k) v)) OR ucast (ucast (drop_bit (8 * k) v) :: u8) =
      take_bit (8 * Suc n) (drop_bit (8 * k) v)"
    by (rule bit_word_eqI) (auto simp: bit_simps not_less less_diff_conv2 algebra_simps)
  with Suc.IH [of "Suc k"] show ?case unfolding split by (simp add: comp_def add.left_commute)
qed simp

lemma get64_le64: "foldr (\<lambda>b w. push_bit 8 w OR ucast b) (le64 v) 0 = v"
  using get64_bytes [of 0 v 8] by (simp add: le64_def take_bit_word_eq_self)

lemma get64_put_same: "get64 (put_bytes a (le64 v) m) a = v"
  using bytes_at_put_same [of "le64 v" a m] by (simp add: get64_def get64_le64)

lemma get64_put_other: "disjoint_runs a 8 b 8 \<Longrightarrow> get64 (put_bytes a (le64 v) m) b = get64 m b"
  using bytes_at_put_disjoint [of a "le64 v" b 8 m] by (simp add: get64_def)

definition aligned :: "u64 \<Rightarrow> bool" where "aligned t \<longleftrightarrow> 4096 dvd unat t"

lemma entry_addr:
  assumes "aligned t" "i < 512"
  shows "unat (t + 8 * of_nat i) = unat t + 8 * i"
proof -
  obtain k where k: "unat t = 4096 * k" using assms by (auto simp: aligned_def)
  then have "4096 * k < 18446744073709551616" using unat_u64_less [of t] by simp
  then have "unat t + 4096 \<le> 18446744073709551616" using k by simp
  moreover have "unat (8 * of_nat i :: u64) = 8 * i"
  proof -
    have "(8 * of_nat i :: u64) = of_nat (8 * i)" by simp
    then show ?thesis using unat_of_nat_u64 [of "8 * i"] assms by simp
  qed
  ultimately show ?thesis using assms by (subst unat_add_le) simp_all
qed

lemma entries_disjoint:
  assumes "aligned t" "i < 512" "aligned t'" "i' < 512" "(t, i) \<noteq> (t', i')"
  shows "disjoint_runs (t + 8 * of_nat i) 8 (t' + 8 * of_nat i') 8"
proof -
  let ?a = "t + 8 * of_nat i" and ?b = "t' + 8 * of_nat i'"
  obtain k k' where k: "unat t = 4096 * k" "unat t' = 4096 * k'"
    using assms(1,3) unfolding aligned_def by (elim dvdE) blast
  have a: "unat ?a = 8 * (512 * k + i)" and b: "unat ?b = 8 * (512 * k' + i')"
    using entry_addr assms k by simp_all
  have ne: "512 * k + i \<noteq> 512 * k' + i'"
  proof
    assume eq: "512 * k + i = 512 * k' + i'"
    then have "(512 * k + i) div 512 = (512 * k' + i') div 512" by simp
    then have "k = k'" using assms by simp
    with eq k assms(5) show False by (auto simp: word_eq_iff_unat)
  qed
  have "512 * k + i < 2305843009213693952" using unat_u64_less [of ?a] unfolding a by simp
  moreover have "512 * k' + i' < 2305843009213693952" using unat_u64_less [of ?b] unfolding b by simp
  moreover note a b ne
  ultimately show ?thesis
    by (simp add: disjoint_runs_def unat_sub_if_size word_size) linarith
qed

lemma pt_set_pt:
  assumes "aligned t" "i < 512" "aligned t'" "i' < 512"
  shows "pt (set_pt t i v s) t' i' = (if t' = t \<and> i' = i then v else pt s t' i')"
proof (cases "t' = t \<and> i' = i")
  case True
  then show ?thesis by (simp add: pt_def set_pt_def get64_put_same)
next
  case False
  then have "disjoint_runs (t + 8 * of_nat i) 8 (t' + 8 * of_nat i') 8"
    using assms by (intro entries_disjoint) auto
  with False show ?thesis by (auto simp: pt_def set_pt_def get64_put_other)
qed

lemma phyaddr_aligned [simp]: "aligned (vmm_phyaddr x)"
proof -
  have "take_bit 12 (vmm_phyaddr x) = 0"
    by (simp add: vmm_phyaddr_def take_bit_eq_mask mask_eq_exp_minus_1 and.assoc)
  then have "unat (vmm_phyaddr x) mod 2 ^ 12 = 0"
    by (metis take_bit_eq_mod unsigned_take_bit_eq unsigned_0)
  then show ?thesis by (simp add: aligned_def dvd_eq_mod_eq_0)
qed

lemma phyaddr_less [simp]: "unat (vmm_phyaddr x) < 2 ^ 56"
proof -
  have "vmm_phyaddr x \<le> 0x00FFFFFFFFFFF000" unfolding vmm_phyaddr_def by (rule word_and_le1)
  then show ?thesis by (simp add: word_le_nat_alt)
qed

lemma phyaddr_page:
  assumes "aligned t" "unat t < 2 ^ 56"
  shows "vmm_phyaddr t = t"
proof -
  have "take_bit 12 t = 0"
  proof -
    have "unat (take_bit 12 t) = 0"
      using assms by (simp add: take_bit_eq_mod unat_mod aligned_def dvd_eq_mod_eq_0)
    then show ?thesis by (simp only: unat_eq_zero)
  qed
  moreover have "take_bit 56 t = t" 
    using assms by (simp add: word_eq_iff_unat unsigned_take_bit_eq take_bit_nat_eq_self)
  moreover have "t AND 0x00FFFFFFFFFFF000 = take_bit 56 t - (take_bit 56 t AND mask 12)"
  proof -
    have "t AND 0x00FFFFFFFFFFF000 = (t AND mask 56) AND NOT (mask 12)"
      by (simp add: and.assoc mask_eq_exp_minus_1)
    then show ?thesis by (simp add: and_not_sub take_bit_eq_mask)
  qed
  ultimately show ?thesis by (simp add: vmm_phyaddr_def take_bit_eq_mask)
qed

lemma phyaddr_or:
  assumes "aligned t" "unat t < 2 ^ 56" "vmm_phyaddr f = 0"
  shows "vmm_phyaddr (t OR f) = t"
  using phyaddr_page [OF assms(1,2)] assms(3) by (simp add: vmm_phyaddr_def bit.conj_disj_distrib2)

section \<open>The tree of tables\<close>

text \<open>
  A table is named by the indices that lead to it from the table \<open>m\<close> of 1G entries. In a proper tree different paths lead to
  different pages, and no table lies in free memory.
\<close>

fun walk :: "kstate \<Rightarrow> u64 \<Rightarrow> nat list \<Rightarrow> u64 option" where
  "walk s t [] = Some t"
| "walk s t (i # P) =
     (let e = pt s t i in if vmm_ispresent e \<and> \<not> vmm_isslot e then walk s (vmm_phyaddr e) P else None)"

definition path :: "nat list \<Rightarrow> bool" where
  "path P \<longleftrightarrow> length P \<le> 2 \<and> (\<forall>i \<in> set P. i < 512)"

abbreviation avail :: "kstate \<Rightarrow> nat multiset" where "avail s \<equiv> free_pages (pmm_entries s)"
definition pn :: "u64 \<Rightarrow> nat" where "pn a = unat a div 4096"

definition tree :: "u64 \<Rightarrow> kstate \<Rightarrow> bool" where
  "tree m s \<longleftrightarrow> aligned m \<and>
     (\<forall>P Q t. path P \<and> path Q \<and> walk s m P = Some t \<and> walk s m Q = Some t \<longrightarrow> P = Q) \<and>
     (\<forall>P t. path P \<and> walk s m P = Some t \<longrightarrow> pn t \<notin># avail s) \<and>
     (\<forall>i < 512. vmm_ispresent (pt s m i) \<longrightarrow> \<not> vmm_isslot (pt s m i))"

text \<open>The entry that maps page number \<open>q\<close> of the area \<open>m\<close> covers, of a page or of a slot.\<close>

definition lookup_page :: "kstate \<Rightarrow> u64 \<Rightarrow> nat \<Rightarrow> u64 option" where
  "lookup_page s m q =
     (case walk s m [q div 262144 mod 512] of None \<Rightarrow> None
      | Some t \<Rightarrow>
          let e = pt s t (q div 512 mod 512) in
          if \<not> vmm_ispresent e then None else if vmm_isslot e then Some e
          else let e = pt s (vmm_phyaddr e) (q mod 512) in if vmm_ispresent e then Some e else None)"

definition page_path :: "nat \<Rightarrow> nat list" where
  "page_path q = [q div 262144 mod 512, q div 512 mod 512]"

lemma path_simps [simp]:
  "path []" "path [i] \<longleftrightarrow> i < 512" "path [i, j] \<longleftrightarrow> i < 512 \<and> j < 512" "path (page_path q)"
  by (auto simp: path_def page_path_def)

lemma path_cases:
  assumes "path P"
  obtains "P = []" | i where "P = [i]" "i < 512" | i j where "P = [i, j]" "i < 512" "j < 512"
  using assms by (cases P rule: list.exhaust [OF _ list.exhaust [of "tl P"]])
    (auto simp: path_def Suc_le_eq length_Suc_conv less_Suc_eq numeral_2_eq_2 neq_Nil_conv)

lemma walk_aligned: "aligned t \<Longrightarrow> walk s t P = Some u \<Longrightarrow> aligned u"
  by (induction s t P rule: walk.induct) (auto simp: Let_def split: if_splits)

lemma walk_snoc: "walk s t (P @ [i]) = (case walk s t P of None \<Rightarrow> None | Some u \<Rightarrow> walk s u [i])"
  by (induction s t P rule: walk.induct) (auto simp: Let_def)

text \<open>The walk only depends on the entries of the tables above its end.\<close>

lemma walk_cong:
  assumes "path P" "\<And>Q t i. path Q \<Longrightarrow> length Q < length P \<Longrightarrow> walk s m Q = Some t \<Longrightarrow> i < 512 \<Longrightarrow> pt s' t i = pt s t i"
  shows "walk s' m P = walk s m P"
  using assms(1)
proof (cases rule: path_cases)
  case (2 i)
  with assms(2) [of "[]" m i] show ?thesis by (simp add: Let_def)
next
  case (3 i j)
  then have 1: "pt s' m i = pt s m i" using assms(2) [of "[]" m i] by simp
  show ?thesis
  proof (cases "walk s m [i]")
    case None
    with 1 3 show ?thesis by (auto simp: Let_def split: if_splits)
  next
    case (Some t)
    with assms(2) [of "[i]" t j] 3 have "pt s' t j = pt s t j" by simp
    with 1 3 Some show ?thesis by (auto simp: Let_def split: if_splits)
  qed
qed simp

lemma lookup_cong_path:
  assumes w: "walk s' m [q div 262144 mod 512] = walk s m [q div 262144 mod 512]"
    and "\<And>t i. walk s m [q div 262144 mod 512] = Some t \<Longrightarrow> i < 512 \<Longrightarrow> pt s' t i = pt s t i"
    and "\<And>t i. walk s m (page_path q) = Some t \<Longrightarrow> i < 512 \<Longrightarrow> pt s' t i = pt s t i"
  shows "lookup_page s' m q = lookup_page s m q"
proof (cases "walk s m [q div 262144 mod 512]")
  case None
  then show ?thesis using w by (simp add: lookup_page_def del: walk.simps)
next
  case (Some t)
  let ?e = "pt s t (q div 512 mod 512)"
  have e: "pt s' t (q div 512 mod 512) = ?e" using assms(2) [OF Some] by simp
  have "pt s' (vmm_phyaddr ?e) (q mod 512) = pt s (vmm_phyaddr ?e) (q mod 512)"
    if "vmm_ispresent ?e" "\<not> vmm_isslot ?e"
    using assms(3) [of "vmm_phyaddr ?e"] Some that
    by (auto simp: page_path_def Let_def split: if_splits)
  with e Some w show ?thesis by (simp add: lookup_page_def Let_def del: walk.simps)
qed

lemma lookup_cong:
  assumes "\<And>Q t i. path Q \<Longrightarrow> walk s m Q = Some t \<Longrightarrow> i < 512 \<Longrightarrow> pt s' t i = pt s t i"
  shows "lookup_page s' m q = lookup_page s m q"
proof (rule lookup_cong_path)
  show "walk s' m [q div 262144 mod 512] = walk s m [q div 262144 mod 512]" by (rule walk_cong [OF _ assms]) simp
qed (rule assms; simp del: walk.simps)+

lemma lookup_of_path:
  assumes "walk s m (page_path q) = Some t"
  shows "lookup_page s m q = (if vmm_ispresent (pt s t (q mod 512)) then Some (pt s t (q mod 512)) else None)"
  using assms by (auto simp: lookup_page_def page_path_def Let_def split: if_splits)

section \<open>Steps that extend an address space\<close>

definition vm_ok :: "tcbptr \<Rightarrow> u64 \<Rightarrow> kstate \<Rightarrow> bool" where
  "vm_ok p m s \<longleftrightarrow> pmm_inv s \<and> tcb_magic (get_tcb p s) = OSZ_TCB_MAGICH \<and> (\<forall>q \<in># avail s. q < 2 ^ 44) \<and> tree m s"

definition is_table :: "u64 \<Rightarrow> kstate \<Rightarrow> nat \<Rightarrow> bool" where
  "is_table m s q \<longleftrightarrow> (\<exists>P t. path P \<and> walk s m P = Some t \<and> pn t = q)"

text \<open>
  What every step of a mapping keeps: the tables stay, new ones come from free memory, free memory only gets less, and
  memory changes in tables and formerly free pages only.
\<close>

definition ext :: "u64 \<Rightarrow> kstate \<Rightarrow> kstate \<Rightarrow> bool" where
  "ext m s s' \<longleftrightarrow> (\<forall>P t. path P \<and> walk s m P = Some t \<longrightarrow> walk s' m P = Some t) \<and>
     (\<forall>q. is_table m s' q \<longrightarrow> is_table m s q \<or> q \<in># avail s) \<and> avail s' \<subseteq># avail s \<and>
     (\<forall>a. phymem s' a \<noteq> phymem s a \<longrightarrow> pn a \<in># avail s \<or> is_table m s (pn a))"

lemma ext_refl [simp]: "ext m s s"
  by (simp add: ext_def)

lemma ext_trans:
  assumes "ext m s s1" "ext m s1 s2"
  shows "ext m s s2"
proof -
  have sub: "avail s2 \<subseteq># avail s1" "avail s1 \<subseteq># avail s" using assms by (simp_all add: ext_def)
  have mem: "q \<in># avail s1 \<Longrightarrow> q \<in># avail s" for q by (rule mset_subset_eqD [OF sub(2)])
  have "pn a \<in># avail s \<or> is_table m s (pn a)" if "phymem s2 a \<noteq> phymem s a" for a
  proof (cases "phymem s1 a = phymem s a")
    case True
    with that assms(2) have "pn a \<in># avail s1 \<or> is_table m s1 (pn a)" by (simp add: ext_def)
    with mem assms(1) show ?thesis unfolding ext_def by blast
  next
    case False
    with assms(1) show ?thesis by (simp add: ext_def)
  qed
  moreover have "is_table m s q \<or> q \<in># avail s" if "is_table m s2 q" for q
  proof -
    have "is_table m s1 q \<or> q \<in># avail s1" using assms(2) that by (simp add: ext_def)
    then show ?thesis using mem assms(1) by (auto simp: ext_def)
  qed
  moreover have "walk s2 m P = Some t" if "path P" "walk s m P = Some t" for P t
    using assms that by (simp add: ext_def)
  ultimately show ?thesis using subset_mset.order_trans [OF sub] by (simp add: ext_def)
qed

lemma ext_sizes: "ext m s s' \<Longrightarrow> size (avail s') \<le> size (avail s)"
  by (simp add: ext_def size_mset_mono)

text \<open>Fields of the state a change of an entry or of the account does not touch.\<close>

lemma set_pt_frame [simp]:
  "pmm_entries (set_pt t i v s) = pmm_entries s" "pmm_inv (set_pt t i v s) = pmm_inv s"
  "get_tcb p (set_pt t i v s) = get_tcb p s" "runlevel (set_pt t i v s) = runlevel s"
  by (simp_all add: set_pt_def pmm_inv_def get_tcb_def split: tcbptr.splits)

lemma walk_pt_cong: "pt s' = pt s \<Longrightarrow> walk s' m P = walk s m P"
  by (induction P arbitrary: m) (simp_all add: Let_def)

lemma linkmem_frame [simp]:
  "pmm_entries (upd_linkmem p f s) = pmm_entries s" "phymem (upd_linkmem p f s) = phymem s"
  "pmm_inv (upd_linkmem p f s) = pmm_inv s" "pt (upd_linkmem p f s) = pt s"
  "walk (upd_linkmem p f s) m P = walk s m P"
proof -
  show pt: "pt (upd_linkmem p f s) = pt s" by (simp add: fun_eq_iff pt_def upd_linkmem_def frame_simps)
  show "walk (upd_linkmem p f s) m P = walk s m P" by (rule walk_pt_cong [OF pt])
qed (simp_all add: upd_linkmem_def frame_simps pmm_inv_def)

lemma linkmem_magic: "tcb_magic (get_tcb q (upd_linkmem p f s)) = tcb_magic (get_tcb q s)"
  by (cases p; cases q) (auto simp: upd_linkmem_def upd_tcb_def get_tcb_def)

lemma linkmem_ok [simp]: "vm_ok q m (upd_linkmem p f s) = vm_ok q m s"
  by (simp add: vm_ok_def tree_def linkmem_magic)

lemma linkmem_ext [simp]: "ext m s (upd_linkmem p f s') = ext m s s'"
  by (simp add: ext_def is_table_def)

lemma linkmem_lookup [simp]: "lookup_page (upd_linkmem p f s) m q = lookup_page s m q"
  by (simp add: lookup_page_def Let_def)

text \<open>The pages a change of an entry touches.\<close>

lemma set_pt_mem:
  assumes "aligned t" "i < 512" "phymem (set_pt t i v s) a \<noteq> phymem s a"
  shows "pn a = pn t"
proof -
  let ?b = "t + 8 * of_nat i"
  have d: "unat (a - ?b) < 8" using assms(3) by (auto simp: set_pt_def put_bytes_def split: if_splits)
  have b: "unat ?b = unat t + 8 * i" by (rule entry_addr [OF assms(1,2)])
  obtain k where k: "unat t = 4096 * k" using assms(1) by (auto simp: aligned_def)
  have "k < 4503599627370496" using unat_u64_less [of t] unfolding k by simp
  then have "unat ?b + 8 \<le> 18446744073709551616" using b k assms(2) by linarith
  then have "unat a = unat ?b + unat (a - ?b)"
    using d unat_add_le [of ?b "a - ?b"] by (cases "unat ?b + unat (a - ?b) < 2 ^ 64") auto
  with b d assms(2) k show ?thesis by (simp add: pn_def)
qed

lemma zero_entry:
  assumes "aligned b" "i < 512" "\<forall>a. pn a = pn b \<longrightarrow> phymem s a = 0"
  shows "pt s b i = 0"
proof -
  have "phymem s (b + 8 * of_nat i + of_nat j) = 0" if "j < 8" for j
  proof (rule assms(3) [rule_format])
    obtain k where k: "unat b = 4096 * k" using assms(1) by (auto simp: aligned_def)
    have e: "unat (b + 8 * of_nat i) = 4096 * k + 8 * i" using entry_addr [OF assms(1,2)] k by simp
    have "k < 4503599627370496" using unat_u64_less [of b] unfolding k by simp
    then have "unat (b + 8 * of_nat i + of_nat j) = 4096 * k + 8 * i + j"
      using that assms(2) e by (subst unat_add_le) (simp_all add: unat_of_nat_u64)
    then show "pn (b + 8 * of_nat i + of_nat j) = pn b" using that assms(2) k by (simp add: pn_def)
  qed
  then have "bytes_at (phymem s) (b + 8 * of_nat i) 8 = replicate 8 0"
    by (intro nth_equalityI) simp_all
  then show ?thesis by (simp add: pt_def get64_def numeral_eq_Suc)
qed

text \<open>One page from the allocator.\<close>

lemma pn_page_run: "page_run b 1 = {#pn b#}"
  by (simp add: page_run_def pn_def)

lemma pn_eq_iff:
  assumes "aligned a" "aligned b"
  shows "pn a = pn b \<longleftrightarrow> a = b"
  using assms by (auto simp: pn_def aligned_def word_eq_iff_unat elim!: dvdE)

lemma in_page:
  assumes "aligned b"
  shows "pn a = pn b \<longleftrightarrow> unat b \<le> unat a \<and> unat a < unat b + 4096"
proof -
  obtain k where k: "unat b = 4096 * k" using assms by (auto simp: aligned_def)
  have "unat a div 4096 = k \<longleftrightarrow> 4096 * k \<le> unat a \<and> unat a < 4096 * k + 4096"
    using div_mult_mod_eq [of "unat a" 4096] mod_less_divisor [of 4096 "unat a"] by (auto simp: div_nat_eqI)
  then show ?thesis by (simp add: pn_def k)
qed

lemma alloc_page:
  assumes "vm_ok p m s" "avail s \<noteq> {#}"
  obtains b s' where "pmm_alloc p 1 s = Done (b, s')" "b \<noteq> 0" "aligned b" "unat b < 2 ^ 56"
    "avail s = add_mset (pn b) (avail s')" "\<forall>a. pn a = pn b \<longrightarrow> phymem s' a = 0"
    "\<forall>a. pn a \<noteq> pn b \<longrightarrow> phymem s' a = phymem s a" "pmm_inv s'"
    "tcb_magic (get_tcb p s') = OSZ_TCB_MAGICH"
proof -
  have inv: "pmm_inv s" and mg: "tcb_magic (get_tcb p s) = OSZ_TCB_MAGICH" and small: "\<forall>q \<in># avail s. q < 2 ^ 44"
    using assms(1) by (simp_all add: vm_ok_def)
  have "pmm_entries s \<noteq> []" using assms(2) by auto
  then obtain x where x: "x \<in> set (pmm_entries s)" using list.set_sel(1) by blast
  then have "\<not> pe_size x < 1"
    using inv by (auto simp: pmm_inv_def wf_entries_def valid_run_def word_less_nat_alt)
  with x have "pmm_take 1 (pmm_entries s) \<noteq> None" by (auto simp: pmm_take_None_iff)
  then obtain b es where t: "pmm_take 1 (pmm_entries s) = Some (b, es)" by auto
  have "(1 :: u64) \<noteq> 0" by simp
  from pmm_alloc_Some [OF inv mg this t] obtain s' where s': "pmm_alloc p 1 s = Done (b, s')" "valid_run b 1"
    "avail s = page_run b 1 + avail s'" "pmm_inv s'" "phymem s' = zero_range b 4096 (phymem s)"
    "get_tcb p s' = (get_tcb p s)\<lparr>tcb_allocmem := tcb_allocmem (get_tcb p s) + 1\<rparr>" by auto
  have b: "b \<noteq> 0" "aligned b" "unat b + 4096 < 2 ^ 64" using s'(2) by (simp_all add: valid_run_def aligned_def)
  have av: "avail s = add_mset (pn b) (avail s')" using s'(3) by (simp add: pn_page_run)
  have "pn b < 2 ^ 44" using small av by simp
  then have b56: "unat b < 2 ^ 56" by (simp add: pn_def div_less_iff_less_mult)
  have z: "\<forall>a. pn a = pn b \<longrightarrow> phymem s' a = 0"
    unfolding s'(5) using in_page [OF b(2)] by (intro allI impI zero_range_cleared) auto
  have o: "\<forall>a. pn a \<noteq> pn b \<longrightarrow> phymem s' a = phymem s a"
    unfolding s'(5)
  proof (intro allI impI zero_range_outside [OF _ b(3)])
    fix a assume "pn a \<noteq> pn b"
    then show "unat a < unat b \<or> unat b + 4096 \<le> unat a" using in_page [OF b(2), of a] by linarith
  qed
  have mg': "tcb_magic (get_tcb p s') = OSZ_TCB_MAGICH" using s'(6) mg by simp
  show thesis by (rule that; fact s' b b56 av z o mg')
qed

lemma pt_other_page:
  assumes "aligned t" "i < 512" "pn t \<noteq> pn b" "\<forall>a. pn a \<noteq> pn b \<longrightarrow> phymem s' a = phymem s a"
  shows "pt s' t i = pt s t i"
proof -
  have "pn (t + 8 * of_nat i + of_nat j) = pn t" if "j < 8" for j
  proof -
    have e: "unat (t + 8 * of_nat i) = unat t + 8 * i" by (rule entry_addr [OF assms(1,2)])
    obtain k where k: "unat t = 4096 * k" using assms(1) by (auto simp: aligned_def)
    have "k < 4503599627370496" using unat_u64_less [of t] unfolding k by simp
    then have "unat (t + 8 * of_nat i + of_nat j) = 4096 * k + 8 * i + j"
      using that assms(2) e k by (subst unat_add_le) (simp_all add: unat_of_nat_u64)
    then show ?thesis using that assms(2) k by (simp add: pn_def)
  qed
  then have "bytes_at (phymem s') (t + 8 * of_nat i) 8 = bytes_at (phymem s) (t + 8 * of_nat i) 8"
    using assms(3,4) by (simp add: bytes_at_eq_iff)
  then show ?thesis by (simp add: pt_def get64_def)
qed

text \<open>Taking a page out of free memory does not disturb the tables.\<close>

lemma alloc_keeps:
  assumes "vm_ok p m s" "avail s = add_mset (pn b) (avail s')" "aligned b"
    "\<forall>a. pn a \<noteq> pn b \<longrightarrow> phymem s' a = phymem s a" "pmm_inv s'" "tcb_magic (get_tcb p s') = OSZ_TCB_MAGICH"
  shows "vm_ok p m s'" "ext m s s'" "\<And>P. path P \<Longrightarrow> walk s' m P = walk s m P"
    "\<And>q. lookup_page s' m q = lookup_page s m q" "\<And>P t. path P \<Longrightarrow> walk s' m P = Some t \<Longrightarrow> t \<noteq> b"
proof -
  have tr: "tree m s" using assms(1) by (simp add: vm_ok_def)
  then have m: "aligned m" by (simp add: tree_def)
  have nb: "pn t \<noteq> pn b" if "path P" "walk s m P = Some t" for P t
    using tr that assms(2) by (auto simp: tree_def)
  have pt: "pt s' t i = pt s t i" if "path P" "walk s m P = Some t" "i < 512" for P t i
    using pt_other_page [OF walk_aligned [OF m that(2)] that(3) nb [OF that(1,2)] assms(4)] .
  show w: "walk s' m P = walk s m P" if "path P" for P by (rule walk_cong [OF that pt])
  show "lookup_page s' m q = lookup_page s m q" for q by (rule lookup_cong [OF pt])
  show "t \<noteq> b" if "path P" "walk s' m P = Some t" for P t using nb [of P t] w [of P] that by auto
  have sub: "q \<in># avail s' \<Longrightarrow> q \<in># avail s" for q using assms(2) by simp
  have "tree m s'"
    using tr sub w pt [of "[]" m] unfolding tree_def by (metis path_simps(1) walk.simps(1))
  then show "vm_ok p m s'" using assms sub by (auto simp: vm_ok_def)
  show "ext m s s'"
    using assms(2,4) w unfolding ext_def is_table_def by (auto simp: subset_mset.add_increasing2)
qed

text \<open>A new table below an entry that was not present.\<close>

definition new_table :: "tcbptr \<Rightarrow> u64 \<Rightarrow> kstate \<Rightarrow> nat list \<Rightarrow> u64 \<Rightarrow> nat \<Rightarrow> u64 \<Rightarrow> u64 \<Rightarrow> bool" where
  "new_table p m s P t i b v \<longleftrightarrow> vm_ok p m s \<and> path P \<and> length P < 2 \<and> walk s m P = Some t \<and> i < 512 \<and>
     \<not> vmm_ispresent (pt s t i) \<and> aligned b \<and> (\<forall>j < 512. pt s b j = 0) \<and>
     (\<forall>Q u. path Q \<longrightarrow> walk s m Q = Some u \<longrightarrow> u \<noteq> b) \<and>
     vmm_phyaddr v = b \<and> vmm_ispresent v \<and> \<not> vmm_isslot v \<and> pn b \<notin># avail s"

lemma walk_link:
  assumes new: "new_table p m s P t i b v" and "path Q"
  shows "walk (set_pt t i v s) m Q = (if Q = P @ [i] then Some b else walk s m Q)"
proof -
  have ok: "vm_ok p m s" and P: "path P" "length P < 2" "walk s m P = Some t" and i: "i < 512"
    and absent: "\<not> vmm_ispresent (pt s t i)" and b: "aligned b" "\<And>j. j < 512 \<Longrightarrow> pt s b j = 0"
    and nb: "\<And>Q u. path Q \<Longrightarrow> walk s m Q = Some u \<Longrightarrow> u \<noteq> b"
    and v: "vmm_phyaddr v = b" "vmm_ispresent v" "\<not> vmm_isslot v"
    using new by (auto simp: new_table_def)
  let ?s = "set_pt t i v s"
  have tr: "tree m s" using ok by (simp add: vm_ok_def)
  then have m: "aligned m" by (simp add: tree_def)
  have t: "aligned t" by (rule walk_aligned [OF m P(3)])
  have pt: "pt ?s u j = (if u = t \<and> j = i then v else pt s u j)" if "aligned u" "j < 512" for u j
    by (rule pt_set_pt [OF t i that])
  have inj: "Q = P" if "path Q" "walk s m Q = Some t" for Q
    using tr P that by (auto simp: tree_def)
  have absent0: "\<not> vmm_ispresent 0" by (simp add: vmm_ispresent_def)
  have tb: "t \<noteq> b" by (rule nb [OF P(1,3)])
  show ?thesis using assms(2)
  proof (cases rule: path_cases)
    case (2 j)
    show ?thesis
    proof (cases "m = t \<and> j = i")
      case True
      with inj [of "[]"] have "P = []" by simp
      with True 2 v m i pt show ?thesis by (simp add: Let_def)
    next
      case False
      with P(3) have "[j] \<noteq> P @ [i]" by auto
      with False 2 m pt show ?thesis by (auto simp: Let_def)
    qed
  next
    case (3 j k)
    show ?thesis
    proof (cases "m = t \<and> j = i")
      case True
      with inj [of "[]"] have "P = []" by simp
      with True 3 v m i pt [of m] pt [of b] b tb absent absent0 show ?thesis by (simp add: Let_def)
    next
      case False
      then have e: "pt ?s m j = pt s m j" using 3 m pt [of m j] by auto
      show ?thesis
      proof (cases "walk s m [j]")
        case None
        with P(3) have "[j, k] \<noteq> P @ [i]" by (cases P) auto
        with None 3 e show ?thesis by (auto simp: Let_def split: if_splits)
      next
        case (Some u)
        then have u: "aligned u" by (rule walk_aligned [OF m])
        show ?thesis
        proof (cases "u = t \<and> k = i")
          case True
          with Some inj [of "[j]"] 3 have "P = [j]" by simp
          with True Some 3 e v u pt show ?thesis by (auto simp: Let_def split: if_splits)
        next
          case False
          with Some P(3) have "[j, k] \<noteq> P @ [i]" by (cases P) auto
          with False Some 3 e u pt show ?thesis by (auto simp: Let_def split: if_splits)
        qed
      qed
    qed
  qed simp
qed

lemma link_lookup:
  assumes new: "new_table p m s P t i b v"
  shows "lookup_page (set_pt t i v s) m q = lookup_page s m q"
proof -
  let ?s = "set_pt t i v s" and ?i = "q div 262144 mod 512" and ?j = "q div 512 mod 512" and ?k = "q mod 512"
  have P: "path P" "walk s m P = Some t" and i: "i < 512" and absent: "\<not> vmm_ispresent (pt s t i)"
    and b: "aligned b" "\<And>j. j < 512 \<Longrightarrow> pt s b j = 0" and v: "vmm_phyaddr v = b" "\<not> vmm_isslot v"
    and nb: "\<And>Q u. path Q \<Longrightarrow> walk s m Q = Some u \<Longrightarrow> u \<noteq> b" and m: "aligned m"
    using new by (auto simp: new_table_def vm_ok_def tree_def)
  note w = walk_link [OF new]
  have t: "aligned t" by (rule walk_aligned [OF m P(2)])
  have pt: "pt ?s u j = (if u = t \<and> j = i then v else pt s u j)" if "aligned u" "j < 512" for u j
    by (rule pt_set_pt [OF t i that])
  have zero: "pt ?s b j = 0" if "j < 512" for j using pt [of b j] b that nb [OF P] by auto
  have absent0: "\<not> vmm_ispresent 0" by (simp add: vmm_ispresent_def)
  show ?thesis
  proof (cases "[?i] = P @ [i]")
    case True
    then have "P = []" "?i = i" "m = t" using P by simp_all
    then have "walk s m [?i] = None" using absent by (simp add: Let_def)
    moreover have "walk ?s m [?i] = Some b" using w [of "[?i]"] True i by (simp del: walk.simps)
    ultimately show ?thesis using zero absent0 by (simp add: lookup_page_def Let_def del: walk.simps)
  next
    case False
    then have wi: "walk ?s m [?i] = walk s m [?i]" using w [of "[?i]"] by (auto simp del: walk.simps)
    show ?thesis
    proof (cases "walk s m [?i]")
      case (Some u)
      then have u: "aligned u" by (rule walk_aligned [OF m])
      let ?e = "pt s u ?j"
      show ?thesis
      proof (cases "u = t \<and> ?j = i")
        case True
        with Some wi absent u pt [of u ?j] v zero absent0 i show ?thesis
          by (simp add: lookup_page_def Let_def del: walk.simps)
      next
        case False
        then have e: "pt ?s u ?j = ?e" using pt [of u ?j] u by auto
        have "pt ?s (vmm_phyaddr ?e) ?k = pt s (vmm_phyaddr ?e) ?k"
          if "vmm_ispresent ?e" "\<not> vmm_isslot ?e"
        proof -
          have w2: "walk s m [?i, ?j] = Some (vmm_phyaddr ?e)"
            using Some that walk_snoc [of s m "[?i]" ?j] by (simp add: Let_def del: walk.simps) (simp add: Let_def)
          have "length [?i, ?j] \<noteq> length P" using new by (simp add: new_table_def)
          then have "vmm_phyaddr ?e \<noteq> t"
            using w2 P new unfolding new_table_def vm_ok_def tree_def by (metis path_simps(3) mod_less_divisor zero_less_numeral)
          then show ?thesis using pt [of "vmm_phyaddr ?e" ?k] by simp
        qed
        with Some wi e show ?thesis by (simp add: lookup_page_def Let_def del: walk.simps)
      qed
    qed (simp add: lookup_page_def wi del: walk.simps)
  qed
qed

lemma link_old:
  assumes "new_table p m s P t i b v" "path Q" "walk s m Q = Some u"
  shows "walk (set_pt t i v s) m Q = Some u"
  using walk_link [OF assms(1,2)] assms walk_snoc [of s m P i] by (auto simp: new_table_def Let_def)

lemma link_table:
  assumes new: "new_table p m s P t i b v"
  shows "vm_ok p m (set_pt t i v s)" "walk (set_pt t i v s) m (P @ [i]) = Some b"
proof -
  let ?s = "set_pt t i v s"
  note w = walk_link [OF new]
  have ok: "vm_ok p m s" and P: "path P" "length P < 2" "walk s m P = Some t" and i: "i < 512"
    and b: "aligned b" and nb: "\<And>Q u. path Q \<Longrightarrow> walk s m Q = Some u \<Longrightarrow> u \<noteq> b"
    and v: "\<not> vmm_isslot v" and free: "pn b \<notin># avail s" and tr: "tree m s"
    using new by (auto simp: new_table_def vm_ok_def)
  then have m: "aligned m" by (simp add: tree_def)
  have path: "path (P @ [i])" using P i by (simp add: path_def)
  then show "walk ?s m (P @ [i]) = Some b" using w by simp
  have "tree m ?s"
    unfolding tree_def
  proof (intro conjI allI impI m)
    fix Q R u assume a: "path Q \<and> path R \<and> walk ?s m Q = Some u \<and> walk ?s m R = Some u"
    have inj: "Q = R" if "walk s m Q = Some u" "walk s m R = Some u" using tr a that unfolding tree_def by blast
    from a show "Q = R"
      using w [of Q] w [of R] nb [of Q u] nb [of R u] inj by (metis option.inject)
  next
    fix Q u assume "path Q \<and> walk ?s m Q = Some u"
    then show "pn u \<notin># avail ?s" using w [of Q] free tr by (auto simp: tree_def split: if_splits)
  next
    fix j assume "j < 512" "vmm_ispresent (pt ?s m j)"
    then show "\<not> vmm_isslot (pt ?s m j)"
      using pt_set_pt [OF walk_aligned [OF m P(3)] i m, of j] v tr by (auto simp: tree_def split: if_splits)
  qed
  with ok show "vm_ok p m ?s" by (simp add: vm_ok_def)
qed

text \<open>Access bits for a table: present once the page bit is added, no slot, and no address bits.\<close>

definition table_bits :: "u64 \<Rightarrow> bool" where
  "table_bits f \<longleftrightarrow> vmm_phyaddr f = 0 \<and> \<not> vmm_isslot f"

lemma entry_value:
  assumes "aligned b" "unat b < 2 ^ 56" "table_bits f"
  shows "vmm_phyaddr (b OR f OR PG_PAGE) = b" "vmm_ispresent (b OR f OR PG_PAGE)" "\<not> vmm_isslot (b OR f OR PG_PAGE)"
proof -
  have "vmm_phyaddr (f OR PG_PAGE) = 0"
    using assms(3) by (simp add: table_bits_def vmm_phyaddr_def bit.conj_disj_distrib2 PG_PAGE_def)
  then show "vmm_phyaddr (b OR f OR PG_PAGE) = b"
    using phyaddr_or [OF assms(1,2), of "f OR PG_PAGE"] by (simp add: or.assoc)
  have "(b OR f OR PG_PAGE) AND 1 = 1"
    unfolding PG_PAGE_def by (rule bit_word_eqI) (auto simp: bit_simps)
  then show "vmm_ispresent (b OR f OR PG_PAGE)" by (simp add: vmm_ispresent_def)
  have "b AND 0x80 = (vmm_phyaddr b) AND 0x80" using phyaddr_page [OF assms(1,2)] by simp
  then have "b AND 0x80 = 0" by (simp add: vmm_phyaddr_def and.assoc)
  with assms(3) show "\<not> vmm_isslot (b OR f OR PG_PAGE)"
    by (simp add: table_bits_def vmm_isslot_def bit.conj_disj_distrib2 PG_PAGE_def)
qed

lemma set_pt_ext:
  assumes "tree m s" "path P" "walk s m P = Some t" "i < 512"
    and "\<And>Q u. path Q \<Longrightarrow> walk (set_pt t i v s) m Q = Some u \<Longrightarrow> walk s m Q = Some u \<or> pn u \<in> X"
  shows "\<forall>a. phymem (set_pt t i v s) a \<noteq> phymem s a \<longrightarrow> is_table m s (pn a)"
    "\<forall>q. is_table m (set_pt t i v s) q \<longrightarrow> is_table m s q \<or> q \<in> X"
proof -
  have "aligned t" using assms(1) walk_aligned [OF _ assms(3)] by (simp add: tree_def)
  then show "\<forall>a. phymem (set_pt t i v s) a \<noteq> phymem s a \<longrightarrow> is_table m s (pn a)"
    using set_pt_mem [of t i v s] assms(2,3,4) by (auto simp: is_table_def)
  show "\<forall>q. is_table m (set_pt t i v s) q \<longrightarrow> is_table m s q \<or> q \<in> X"
    using assms(5) by (fastforce simp: is_table_def)
qed

lemma need_table_spec:
  assumes ok: "vm_ok p m s" and P: "path P" "length P < 2" "walk s m P = Some t" and i: "i < 512"
    and f: "table_bits f" and av: "avail s \<noteq> {#}"
  obtains s' where "need_table p t i f s = Done (True, s')" "vm_ok p m s'" "ext m s s'"
    "\<not> (vmm_ispresent (pt s t i) \<and> vmm_isslot (pt s t i)) \<longrightarrow> walk s' m (P @ [i]) = Some (vmm_phyaddr (pt s' t i))" "\<And>q. lookup_page s' m q = lookup_page s m q"
    "size (avail s) \<le> size (avail s') + 1"
proof (cases "vmm_ispresent (pt s t i)")
  case True
  then have "need_table p t i f s = Done (True, s)" by (simp add: need_table_def)
  moreover have "\<not> vmm_isslot (pt s t i) \<longrightarrow> walk s m (P @ [i]) = Some (vmm_phyaddr (pt s t i))"
    using True P(3) by (simp add: walk_snoc Let_def)
  ultimately show ?thesis using that [of s] ok True by simp
next
  case False
  obtain b s1 where a: "pmm_alloc p 1 s = Done (b, s1)" "b \<noteq> 0" "aligned b" "unat b < 2 ^ 56"
    "avail s = add_mset (pn b) (avail s1)" "\<forall>a. pn a = pn b \<longrightarrow> phymem s1 a = 0"
    "\<forall>a. pn a \<noteq> pn b \<longrightarrow> phymem s1 a = phymem s a" "pmm_inv s1" "tcb_magic (get_tcb p s1) = OSZ_TCB_MAGICH"
    by (rule alloc_page [OF ok av]) blast
  note k = alloc_keeps [OF ok a(5,3,7,8,9)]
  let ?v = "b OR f OR PG_PAGE"
  let ?s = "set_pt t i ?v s1"
  have tr: "tree m s1" using k(1) by (simp add: vm_ok_def)
  have wP: "walk s1 m P = Some t" using k(3) [OF P(1)] P(3) by simp
  have nf: "pn b \<notin># avail s1"
  proof -
    have "count (avail s) (pn b) \<le> 1" using ok by (simp add: vm_ok_def pmm_inv_def wf_entries_def)
    then show ?thesis using a(5) by (simp add: not_in_iff)
  qed
  have "pt s1 t i = pt s t i"
    using pt_other_page [of t i b s1 s] walk_aligned [OF _ wP] tr i k(5) [OF P(1) wP] a(3,7) pn_eq_iff [of t b]
    by (simp add: tree_def)
  then have new: "new_table p m s1 P t i b ?v"
    unfolding new_table_def using k(1,5) P(1,2) wP i False a(3) nf entry_value [OF a(3,4) f] zero_entry [OF a(3) _ a(6)]
    by auto
  note l = link_table [OF new] and w = walk_link [OF new]
  have e: "\<forall>a. phymem ?s a \<noteq> phymem s1 a \<longrightarrow> is_table m s1 (pn a)"
    "\<forall>q. is_table m ?s q \<longrightarrow> is_table m s1 q \<or> q \<in> {pn b}"
    by (rule set_pt_ext [OF tr P(1) wP i]; use w in \<open>auto split: if_splits\<close>)+
  have tbl: "is_table m s1 q \<longleftrightarrow> is_table m s q" for q using k(3) by (auto simp: is_table_def)
  have "ext m s ?s"
    unfolding ext_def
  proof (intro conjI allI impI)
    show "walk ?s m Q = Some u" if "path Q \<and> walk s m Q = Some u" for Q u
      using link_old [OF new] that k(3) by simp
    show "is_table m s q \<or> q \<in># avail s" if "is_table m ?s q" for q using e(2) that tbl a(5) by auto
    show "avail ?s \<subseteq># avail s" using a(5) by simp
    show "pn x \<in># avail s \<or> is_table m s (pn x)" if "phymem ?s x \<noteq> phymem s x" for x
      using that e(1) tbl a(5,7) by (cases "pn x = pn b") auto
  qed
  moreover have "need_table p t i f s = Done (True, ?s)" using False a by (simp add: need_table_def)
  moreover have "vmm_phyaddr (pt ?s t i) = b"
    using pt_set_pt [of t i t i ?v s1] walk_aligned [OF _ wP] tr i entry_value(1) [OF a(3,4) f] by (simp add: tree_def)
  ultimately show ?thesis using that [of ?s] l link_lookup [OF new] k(4) a(5) by simp
qed

text \<open>An entry for a page.\<close>

lemma page_path_eq:
  assumes "q < 2 ^ 27" "q' < 2 ^ 27" "page_path q = page_path q'" "q mod 512 = q' mod 512"
  shows "q = q'"
proof -
  have "q div 512 mod 512 = q' div 512 mod 512" "q div 262144 mod 512 = q' div 262144 mod 512"
    using assms(3) by (simp_all add: page_path_def)
  moreover have "x div 262144 mod 512 = x div 262144" if "x < 2 ^ 27" for x :: nat
    using that by (simp add: less_mult_imp_div_less)
  moreover have "x = x div 512 * 512 + x mod 512" "x div 512 = x div 262144 * 512 + x div 512 mod 512" for x :: nat
    using div_mult_mod_eq [of "x div 512" 512] by (simp_all add: div_mult2_eq [symmetric])
  ultimately show ?thesis using assms by metis
qed

lemma set_leaf:
  assumes ok: "vm_ok p m s" and t: "walk s m (page_path q) = Some t" and q: "q < 2 ^ 27" and v: "vmm_ispresent v"
  shows "vm_ok p m (set_pt t (q mod 512) v s)" "ext m s (set_pt t (q mod 512) v s)"
    "\<And>P. path P \<Longrightarrow> walk (set_pt t (q mod 512) v s) m P = walk s m P"
    "\<And>q'. q' < 2 ^ 27 \<Longrightarrow> lookup_page (set_pt t (q mod 512) v s) m q' = (if q' = q then Some v else lookup_page s m q')"
proof -
  let ?i = "q mod 512"
  let ?s = "set_pt t ?i v s"
  have tr: "tree m s" and m: "aligned m" using ok by (simp_all add: vm_ok_def tree_def)
  have ta: "aligned t" by (rule walk_aligned [OF m t])
  have inj: "P = page_path q" if "path P" "walk s m P = Some t" for P
    using tr t that path_simps(4) [of q] unfolding tree_def by blast
  have pt: "pt ?s u j = (if u = t \<and> j = ?i then v else pt s u j)" if "aligned u" "j < 512" for u j
    by (rule pt_set_pt [OF ta _ that]) simp
  have same: "pt ?s u j = pt s u j" if "path P" "walk s m P = Some u" "P \<noteq> page_path q" "j < 512" for P u j
    using pt [OF walk_aligned [OF m that(2)] that(4)] inj that by auto
  show w: "walk ?s m P = walk s m P" if "path P" for P
    by (rule walk_cong [OF that], rule same) (use that in \<open>auto simp: path_def page_path_def\<close>)
  have "tree m ?s"
    using tr w same [of "[]" m] unfolding tree_def by (simp add: page_path_def) metis
  with ok show "vm_ok p m ?s" by (simp add: vm_ok_def)
  have "\<forall>a. phymem ?s a \<noteq> phymem s a \<longrightarrow> is_table m s (pn a)"
    "\<forall>x. is_table m ?s x \<longrightarrow> is_table m s x \<or> x \<in> {}"
    by (rule set_pt_ext [OF tr path_simps(4) t]; use w in simp)+
  then show "ext m s ?s" using w by (simp add: ext_def)
  show "lookup_page ?s m q' = (if q' = q then Some v else lookup_page s m q')" if "q' < 2 ^ 27" for q'
  proof (cases "page_path q' = page_path q")
    case True
    then have "walk ?s m (page_path q') = Some t" "walk s m (page_path q') = Some t" using w [of "page_path q"] t by simp_all
    moreover have "q' mod 512 = ?i \<longleftrightarrow> q' = q" using page_path_eq [OF that q True] by auto
    ultimately show ?thesis using pt [OF ta, of "q' mod 512"] v by (auto simp: lookup_of_path)
  next
    case False
    have "lookup_page ?s m q' = lookup_page s m q'"
    proof (rule lookup_cong_path)
      show "walk ?s m [q' div 262144 mod 512] = walk s m [q' div 262144 mod 512]" by (rule w) simp
      show "pt ?s u j = pt s u j" if "walk s m [q' div 262144 mod 512] = Some u" "j < 512" for u j
        using that by (intro same [OF _ that(1)]) (simp_all add: page_path_def)
      show "pt ?s u j = pt s u j" if "walk s m (page_path q') = Some u" "j < 512" for u j
        using that False by (intro same [OF _ that(1)]) simp_all
    qed
    with False show ?thesis by auto
  qed
qed

section \<open>Mapping\<close>

text \<open>
  The frames behind \<open>n\<close> mapped pages: those that follow \<open>phys\<close>, or pages taken from free memory, which are different from each
  other and read as zero.
\<close>

definition frames_ok :: "u64 \<Rightarrow> u64 \<Rightarrow> nat \<Rightarrow> (nat \<Rightarrow> u64) \<Rightarrow> kstate \<Rightarrow> kstate \<Rightarrow> bool" where
  "frames_ok m phys n fr s s' \<longleftrightarrow>
     (if phys \<noteq> 0 then \<forall>j < n. fr j = phys + of_nat j * PAGESIZE
      else inj_on fr {..<n} \<and> (\<forall>j < n. aligned (fr j) \<and> pn (fr j) \<in># avail s \<and> pn (fr j) \<notin># avail s' \<and>
        \<not> is_table m s' (pn (fr j)) \<and>
        (\<forall>a. pn a = pn (fr j) \<longrightarrow> phymem s' a = 0)))"

definition page_bits :: "u64 \<Rightarrow> u64 \<Rightarrow> u64" where
  "page_bits phys a = a OR PG_PAGE OR (if phys \<noteq> 0 then PG_SHARED else 0)"

text \<open>What a part of the mapping achieves for the pages from \<open>q\<close> on.\<close>

definition maps :: "tcbptr \<Rightarrow> u64 \<Rightarrow> u64 \<Rightarrow> u64 \<Rightarrow> nat \<Rightarrow> nat \<Rightarrow> kstate \<Rightarrow> kstate \<Rightarrow> bool" where
  "maps p m phys a q n s s' \<longleftrightarrow> vm_ok p m s' \<and> ext m s s' \<and>
     (\<exists>fr. frames_ok m phys n fr s s' \<and> (\<forall>j < n. lookup_page s' m (q + j) = Some (fr j OR page_bits phys a))) \<and>
     (\<forall>x < 2 ^ 27. x < q \<or> q + n \<le> x \<longrightarrow> lookup_page s' m x = lookup_page s m x)"

lemma maps_0: "vm_ok p m s' \<Longrightarrow> ext m s s' \<Longrightarrow> (\<And>x. lookup_page s' m x = lookup_page s m x) \<Longrightarrow> maps p m phys a q 0 s s'"
  by (simp add: maps_def frames_ok_def)

lemma maps_0_iff:
  "maps p m phys a q 0 s s' \<longleftrightarrow> vm_ok p m s' \<and> ext m s s' \<and> (\<forall>x < 2 ^ 27. lookup_page s' m x = lookup_page s m x)"
proof -
  have "x < q \<or> q + 0 \<le> x" for x by auto
  then show ?thesis unfolding maps_def frames_ok_def by simp
qed

definition advance :: "u64 \<Rightarrow> nat \<Rightarrow> u64" where
  "advance phys n = (if phys \<noteq> 0 then phys + of_nat n * PAGESIZE else 0)"

text \<open>A range of physical addresses that does not leave the address bits of an entry.\<close>

definition phys_ok :: "u64 \<Rightarrow> nat \<Rightarrow> bool" where
  "phys_ok phys n \<longleftrightarrow> unat phys + n * 4096 \<le> 2 ^ 56"

lemma phys_ok_mono: "phys_ok phys n \<Longrightarrow> k \<le> n \<Longrightarrow> phys_ok phys k"
  unfolding phys_ok_def by linarith

lemma advance_phys:
  assumes "phys_ok phys (k + n)"
  shows "phys_ok (advance phys k) n" "advance phys k = 0 \<longleftrightarrow> phys = 0"
proof -
  have "unat (phys + of_nat k * PAGESIZE) = unat phys + k * 4096"
  proof -
    have "k * 4096 < 2 ^ 64" using assms by (simp add: phys_ok_def)
    then have "unat (of_nat (k * 4096) :: u64) = k * 4096" by (rule unat_of_nat_u64)
    moreover have "of_nat k * PAGESIZE = of_nat (k * 4096)" by (simp add: PAGESIZE_def)
    ultimately show ?thesis using assms by (subst unat_add_le) (simp_all add: phys_ok_def)
  qed
  with assms show "phys_ok (advance phys k) n" "advance phys k = 0 \<longleftrightarrow> phys = 0"
    by (auto simp: phys_ok_def advance_def word_eq_iff_unat)
qed

lemma advance_0: "advance phys 0 = phys"
  by (simp add: advance_def)

lemma advance_advance:
  "advance (advance phys k) n = advance phys (k + n)" if "phys_ok phys (k + n)"
  using advance_phys(2) [OF that] by (auto simp: advance_def algebra_simps)

text \<open>A page that is neither free nor a table keeps its contents.\<close>

lemma frame_kept:
  assumes "ext m s1 s2" "pn b \<notin># avail s1" "\<not> is_table m s1 (pn b)"
  shows "pn b \<notin># avail s2" "\<not> is_table m s2 (pn b)" "\<forall>a. pn a = pn b \<longrightarrow> phymem s2 a = phymem s1 a"
  using assms mset_subset_eqD [of "avail s2" "avail s1"] by (auto simp: ext_def)

lemma frames_trans:
  assumes 1: "frames_ok m phys k f s s1" and 2: "frames_ok m (advance phys k) n g s1 s2" and e: "ext m s s1" "ext m s1 s2"
    and ok: "phys_ok phys (k + n)"
  shows "frames_ok m phys (k + n) (\<lambda>j. if j < k then f j else g (j - k)) s s2"
proof (cases "phys = 0")
  case False
  then have "g (j - k) = phys + of_nat j * PAGESIZE" if "j < k + n" "\<not> j < k" for j
    using 2 advance_phys(2) [OF ok] that by (simp add: frames_ok_def advance_def of_nat_diff algebra_simps)
  with False 1 show ?thesis by (simp add: frames_ok_def)
next
  case True
  let ?h = "\<lambda>j. if j < k then f j else g (j - k)"
  have F: "inj_on f {..<k}" "\<forall>j < k. aligned (f j) \<and> pn (f j) \<in># avail s \<and> pn (f j) \<notin># avail s1 \<and>
      \<not> is_table m s1 (pn (f j)) \<and> (\<forall>a. pn a = pn (f j) \<longrightarrow> phymem s1 a = 0)"
    using 1 True by (simp_all add: frames_ok_def)
  have G: "inj_on g {..<n}" "\<forall>j < n. aligned (g j) \<and> pn (g j) \<in># avail s1 \<and> pn (g j) \<notin># avail s2 \<and>
      \<not> is_table m s2 (pn (g j)) \<and> (\<forall>a. pn a = pn (g j) \<longrightarrow> phymem s2 a = 0)"
    using 2 True by (simp_all add: frames_ok_def advance_def)
  have sub: "x \<in># avail s1 \<Longrightarrow> x \<in># avail s" for x using e(1) mset_subset_eqD by (auto simp: ext_def)
  have "aligned (?h j) \<and> pn (?h j) \<in># avail s \<and> pn (?h j) \<notin># avail s2 \<and>
      \<not> is_table m s2 (pn (?h j)) \<and> (\<forall>a. pn a = pn (?h j) \<longrightarrow> phymem s2 a = 0)" if "j < k + n" for j
  proof (cases "j < k")
    case True
    then show ?thesis using F(2) frame_kept [OF e(2), of "f j"] by simp
  next
    case False
    then have "j - k < n" using that by simp
    with G(2) sub False show ?thesis by auto
  qed
  moreover have "inj_on ?h {..<k + n}"
  proof (rule inj_onI)
    fix x y assume xy: "x \<in> {..<k + n}" "y \<in> {..<k + n}" "?h x = ?h y"
    have cross: "f u \<noteq> g v" if "u < k" "v < n" for u v using F(2) G(2) that by metis
    show "x = y"
    proof (cases "x < k"; cases "y < k")
      assume "x < k" "y < k"
      then show ?thesis using xy F(1) by (simp add: inj_on_def)
    next
      assume "\<not> x < k" "\<not> y < k"
      then have "x - k = y - k" using xy G(1) by (auto simp: inj_on_def)
      then show ?thesis using \<open>\<not> x < k\<close> \<open>\<not> y < k\<close> by simp
    qed (use xy cross [of x "y - k"] cross [of y "x - k"] less_diff_conv2 [of k x n] less_diff_conv2 [of k y n] in auto)
  qed
  ultimately show ?thesis using True by (simp add: frames_ok_def)
qed

text \<open>Parts that follow each other.\<close>

lemma maps_trans:
  assumes 1: "maps p m phys a q k s s1" and 2: "maps p m (advance phys k) a (q + k) n s1 s2" and ok: "phys_ok phys (k + n)"
    and q: "q + k + n \<le> 2 ^ 27"
  shows "maps p m phys a q (k + n) s s2"
proof -
  obtain f where f: "frames_ok m phys k f s s1" "\<forall>j < k. lookup_page s1 m (q + j) = Some (f j OR page_bits phys a)"
    using 1 by (auto simp: maps_def)
  obtain g where g: "frames_ok m (advance phys k) n g s1 s2"
    "\<forall>j < n. lookup_page s2 m (q + k + j) = Some (g j OR page_bits (advance phys k) a)"
    using 2 by (auto simp: maps_def)
  have e: "ext m s s1" "ext m s1 s2" using 1 2 by (simp_all add: maps_def)
  have bits: "page_bits (advance phys k) a = page_bits phys a" using advance_phys(2) [OF ok] by (simp add: page_bits_def)
  have keep: "lookup_page s2 m x = lookup_page s1 m x" if "x < 2 ^ 27" "x < q + k \<or> q + k + n \<le> x" for x
    using 2 that unfolding maps_def by blast
  have "lookup_page s2 m (q + j) = Some ((if j < k then f j else g (j - k)) OR page_bits phys a)" if "j < k + n" for j
  proof (cases "j < k")
    case True
    then show ?thesis using keep [of "q + j"] f(2) q by simp
  next
    case False
    then show ?thesis using g(2) [rule_format, of "j - k"] that bits by simp
  qed
  moreover have "lookup_page s2 m x = lookup_page s m x" if "x < 2 ^ 27" "x < q \<or> q + (k + n) \<le> x" for x
    using keep [OF that(1)] 1 that by (auto simp: maps_def)
  ultimately show ?thesis
    using 2 ext_trans [OF e] frames_trans [OF f(1) g(1) e ok] unfolding maps_def by blast
qed

text \<open>One page.\<close>

definition leaf_bits :: "u64 \<Rightarrow> bool" where "leaf_bits a \<longleftrightarrow> vmm_phyaddr a = 0"

lemma present_or: "vmm_ispresent (x OR PG_PAGE OR y)"
proof -
  have "(x OR PG_PAGE OR y) AND 1 = 1"
    unfolding PG_PAGE_def by (rule bit_word_eqI) (auto simp: bit_simps)
  then show ?thesis by (simp add: vmm_ispresent_def)
qed

lemma map_given:
  fixes a :: u64
  assumes ok: "vm_ok p m s" and t: "walk s m (page_path q) = Some t" and q: "q < 2 ^ 27" and phys: "phys \<noteq> 0"
  defines "s1 \<equiv> upd_linkmem p (\<lambda>l. l + 1) (set_pt t (q mod 512) (phys OR a OR PG_PAGE OR PG_SHARED) s)"
  shows "maps p m phys a q 1 s s1" "\<And>P. path P \<Longrightarrow> walk s1 m P = walk s m P"
proof -
  let ?v = "phys OR a OR PG_PAGE OR PG_SHARED"
  have v: "vmm_ispresent ?v" using present_or [of "phys OR a" PG_SHARED] by (simp add: or.assoc)
  note l = set_leaf [OF ok t q v]
  show "walk s1 m P = walk s m P" if "path P" for P using l(3) [OF that] by (simp add: s1_def)
  have "frames_ok m phys 1 (\<lambda>_. phys) s s1" using phys by (simp add: frames_ok_def)
  moreover have "?v = phys OR page_bits phys a" using phys by (simp add: page_bits_def or.assoc)
  ultimately show "maps p m phys a q 1 s s1"
    using l q unfolding maps_def s1_def by (auto simp: less_Suc_eq)
qed

lemma map_fresh:
  assumes ok: "vm_ok p m s" and t: "walk s m (page_path q) = Some t" and q: "q < 2 ^ 27" and av: "avail s \<noteq> {#}"
  obtains b s1 where "pmm_alloc p 1 s = Done (b, s1)" "b \<noteq> 0"
    "maps p m 0 a q 1 s (set_pt t (q mod 512) (b OR a OR PG_PAGE) s1)"
    "\<And>P. path P \<Longrightarrow> walk (set_pt t (q mod 512) (b OR a OR PG_PAGE) s1) m P = walk s m P"
    "size (avail s) = size (avail (set_pt t (q mod 512) (b OR a OR PG_PAGE) s1)) + 1"
proof -
  obtain b s1 where b: "pmm_alloc p 1 s = Done (b, s1)" "b \<noteq> 0" "aligned b" "unat b < 2 ^ 56"
    "avail s = add_mset (pn b) (avail s1)" "\<forall>a. pn a = pn b \<longrightarrow> phymem s1 a = 0"
    "\<forall>a. pn a \<noteq> pn b \<longrightarrow> phymem s1 a = phymem s a" "pmm_inv s1" "tcb_magic (get_tcb p s1) = OSZ_TCB_MAGICH"
    by (rule alloc_page [OF ok av]) blast
  note k = alloc_keeps [OF ok b(5,3,7,8,9)]
  let ?v = "b OR a OR PG_PAGE"
  let ?s = "set_pt t (q mod 512) ?v s1"
  have v: "vmm_ispresent ?v" using present_or [of "b OR a" 0] by (simp add: or.assoc)
  have t1: "walk s1 m (page_path q) = Some t" using k(3) t by simp
  note l = set_leaf [OF k(1) t1 q v]
  have w: "walk ?s m P = walk s m P" if "path P" for P using l(3) k(3) that by simp
  have nf: "pn b \<notin># avail s1"
  proof -
    have "count (avail s) (pn b) \<le> 1" using ok by (simp add: vm_ok_def pmm_inv_def wf_entries_def)
    then show ?thesis using b(5) by (simp add: not_in_iff)
  qed
  have m: "aligned m" using ok by (simp add: vm_ok_def tree_def)
  have nt: "\<not> is_table m s1 (pn b)"
    using k(5) pn_eq_iff [OF walk_aligned [OF m] b(3)] by (auto simp: is_table_def)
  have "frames_ok m 0 1 (\<lambda>_. b) s ?s"
    using frame_kept [OF l(2) nf nt] b by (simp add: frames_ok_def inj_on_def)
  then have "maps p m 0 a q 1 s ?s"
    using l ext_trans [OF k(2) l(2)] k(4) q unfolding maps_def by (auto simp: page_bits_def or.assoc less_Suc_eq)
  then show thesis using that [OF b(1,2)] w b(5) by simp
qed

text \<open>One round of the loop over pages.\<close>

lemma map_pages_step:
  assumes ok: "vm_ok p m s" and t: "walk s m (page_path q) = Some t" and q: "q + Suc n \<le> 2 ^ 27"
    and un: "lookup_page s m q = None" and phys: "phys_ok phys (Suc n)" and av: "avail s \<noteq> {#}"
  obtains s1 where "maps p m phys a q 1 s s1" "\<And>P. path P \<Longrightarrow> walk s1 m P = walk s m P"
    "size (avail s) \<le> size (avail s1) + 1"
    "map_pages p a t (q mod 512) bss phys (Suc n) s =
       (if 511 \<le> q mod 512 then Done (MapAgain (bss + PAGESIZE) (advance phys 1) n, s1)
        else map_pages p a t (q mod 512 + 1) (bss + PAGESIZE) (advance phys 1) n s1)"
proof -
  have np: "\<not> vmm_ispresent (pt s t (q mod 512))" using un lookup_of_path [OF t] by (simp split: if_splits)
  have q': "q < 2 ^ 27" using q by simp
  show thesis
  proof (cases "phys = 0")
    case True
    obtain b s1 where "pmm_alloc p 1 s = Done (b, s1)" "b \<noteq> 0"
      "maps p m 0 a q 1 s (set_pt t (q mod 512) (b OR a OR PG_PAGE) s1)"
      "\<And>P. path P \<Longrightarrow> walk (set_pt t (q mod 512) (b OR a OR PG_PAGE) s1) m P = walk s m P"
      "size (avail s) = size (avail (set_pt t (q mod 512) (b OR a OR PG_PAGE) s1)) + 1"
      by (rule map_fresh [OF ok t q' av]) blast
    with True np show thesis
      by (intro that [of "set_pt t (q mod 512) (b OR a OR PG_PAGE) s1"]) (simp_all add: Let_def advance_def)
  next
    case False
    note g = map_given [OF ok t q' False, where a = a]
    show thesis
      by (rule that [OF g]) (use False np in \<open>simp_all add: Let_def advance_def\<close>)
  qed
qed

definition pages_end :: "nat \<Rightarrow> u64 \<Rightarrow> u64 \<Rightarrow> nat \<Rightarrow> map_end" where
  "pages_end i bss phys n =
     (if n < 512 - i then MapDone
      else MapAgain (bss + of_nat (512 - i) * PAGESIZE) (advance phys (512 - i)) (n - (512 - i)))"

lemma next_page:
  assumes "q mod 512 < 511"
  shows "page_path (q + 1) = page_path q" "(q + 1) mod 512 = q mod 512 + 1"
proof -
  have "(q + 1) div 512 = q div 512" using assms by (subst div_add1_eq) simp
  moreover from this have "(q + 1) div 262144 = q div 262144" using div_mult2_eq [of _ 512 512] by simp
  ultimately show "page_path (q + 1) = page_path q" by (simp add: page_path_def)
  show "(q + 1) mod 512 = q mod 512 + 1" using assms by (simp add: mod_Suc)
qed

lemma pages_end_step:
  assumes "i < 511" "phys_ok phys (Suc n)"
  shows "pages_end (i + 1) (bss + PAGESIZE) (advance phys 1) n = pages_end i bss phys (Suc n)"
proof -
  have "512 - i = Suc (512 - (i + 1))" using assms by simp
  moreover have "advance (advance phys 1) k = advance phys (Suc k)" if "k \<le> n" for k
    using advance_advance [of phys 1 k] assms that by (simp add: phys_ok_def)
  ultimately show ?thesis by (auto simp: pages_end_def algebra_simps)
qed

lemma map_pages_spec:
  assumes "vm_ok p m s" "walk s m (page_path q) = Some t" "q + n \<le> 2 ^ 27" "\<forall>j < n. lookup_page s m (q + j) = None"
    "phys_ok phys n" "n \<le> size (avail s)"
  shows "\<exists>s'. map_pages p a t (q mod 512) bss phys n s = Done (pages_end (q mod 512) bss phys n, s') \<and>
     maps p m phys a q (min n (512 - q mod 512)) s s' \<and> size (avail s) \<le> size (avail s') + min n (512 - q mod 512)"
  using assms
proof (induction n arbitrary: q bss phys s)
  case 0
  then show ?case by (simp add: pages_end_def maps_0)
next
  case (Suc n)
  have "avail s \<noteq> {#}" "lookup_page s m q = None" using Suc.prems(4,6) by auto
  then obtain s1 where 1: "maps p m phys a q 1 s s1" "\<And>P. path P \<Longrightarrow> walk s1 m P = walk s m P"
    "size (avail s) \<le> size (avail s1) + 1"
    "map_pages p a t (q mod 512) bss phys (Suc n) s =
       (if 511 \<le> q mod 512 then Done (MapAgain (bss + PAGESIZE) (advance phys 1) n, s1)
        else map_pages p a t (q mod 512 + 1) (bss + PAGESIZE) (advance phys 1) n s1)"
    using map_pages_step [OF Suc.prems(1-3) _ Suc.prems(5)] by blast
  show ?case
  proof (cases "q mod 512 < 511")
    case True
    have "lookup_page s1 m (q + 1 + j) = None" if "j < n" for j
      using 1(1) Suc.prems(3) Suc.prems(4) [rule_format, of "Suc j"] that by (simp add: maps_def)
    moreover have "phys_ok (advance phys 1) n" using advance_phys(1) [of phys 1 n] Suc.prems(5) by simp
    moreover have "walk s1 m (page_path (q + 1)) = Some t" using 1(2) next_page(1) [OF True] Suc.prems(2) by simp
    ultimately obtain s' where s': "map_pages p a t ((q + 1) mod 512) (bss + PAGESIZE) (advance phys 1) n s1 =
        Done (pages_end ((q + 1) mod 512) (bss + PAGESIZE) (advance phys 1) n, s')"
      "maps p m (advance phys 1) a (q + 1) (min n (512 - (q + 1) mod 512)) s1 s'"
      "size (avail s1) \<le> size (avail s') + min n (512 - (q + 1) mod 512)"
      using Suc.IH [of s1 "q + 1" "advance phys 1" "bss + PAGESIZE"] 1(1,3) Suc.prems(3,6) by (auto simp: maps_def)
    have k: "1 + min n (512 - (q + 1) mod 512) = min (Suc n) (512 - q mod 512)" using next_page(2) [OF True] True by simp
    then have "phys_ok phys (1 + min n (512 - (q + 1) mod 512))" "q + 1 + min n (512 - (q + 1) mod 512) \<le> 2 ^ 27"
      using Suc.prems(3) by (auto intro: phys_ok_mono [OF Suc.prems(5)])
    from maps_trans [OF 1(1) s'(2) this] have "maps p m phys a q (min (Suc n) (512 - q mod 512)) s s'" unfolding k .
    moreover have "map_pages p a t (q mod 512) bss phys (Suc n) s = Done (pages_end (q mod 512) bss phys (Suc n), s')"
      using 1(4) s'(1) True unfolding next_page(2) [OF True] pages_end_step [OF True Suc.prems(5)] by simp
    moreover have "size (avail s) \<le> size (avail s') + min (Suc n) (512 - q mod 512)" using 1(3) s'(3) k by linarith
    ultimately show ?thesis by blast
  next
    case False
    then have "q mod 512 = 511" using mod_less_divisor [of 512 q] by linarith
    with 1 show ?thesis by (auto simp: pages_end_def)
  qed
qed

text \<open>One pass: at most two tables are added before the pages.\<close>

definition pg :: "u64 \<Rightarrow> nat" where "pg bss = unat bss div 4096 mod 2 ^ 27"

lemma pg_less: "pg bss < 2 ^ 27"
  by (simp add: pg_def)

lemma idx_pg:
  "idx 30 bss = pg bss div 262144 mod 512" "idx 21 bss = pg bss div 512 mod 512" "idx 12 bss = pg bss mod 512"
proof -
  have i: "idx k bss = unat bss div 2 ^ k mod 512" for k
  proof -
    have "drop_bit k bss AND 511 = take_bit 9 (drop_bit k bss)" by (simp add: take_bit_eq_mask mask_eq_exp_minus_1)
    then have "idx k bss = take_bit 9 (drop_bit k (unat bss))"
      using unat_u64_less [of bss]
      by (simp only: idx_def unsigned_take_bit_eq unsigned_drop_bit_eq) (simp add: take_bit_nat_eq_self)
    then show ?thesis by (simp add: drop_bit_eq_div take_bit_eq_mod)
  qed
  have d: "x mod 2 ^ 27 div 2 ^ k mod 512 = x div 2 ^ k mod 512" if "k + 9 \<le> 27" for x k :: nat
  proof -
    have "take_bit 9 (drop_bit k (take_bit 27 x)) = take_bit 9 (drop_bit k x)"
      using that by (intro bit_eqI) (auto simp: bit_simps)
    then show ?thesis by (simp add: take_bit_eq_mod drop_bit_eq_div)
  qed
  show "idx 30 bss = pg bss div 262144 mod 512" "idx 21 bss = pg bss div 512 mod 512" "idx 12 bss = pg bss mod 512"
    using d [of 18 "unat bss div 4096"] d [of 9 "unat bss div 4096"] d [of 0 "unat bss div 4096"]
    by (simp_all add: i pg_def div_mult2_eq [symmetric])
qed

lemma pg_add: "pg (bss + of_nat k * PAGESIZE) = (pg bss + k) mod 2 ^ 27"
proof -
  have "bss + of_nat k * PAGESIZE = word_of_nat (unat bss + k * 4096)" by (simp add: PAGESIZE_def)
  then have "unat (bss + of_nat k * PAGESIZE) = (unat bss + k * 4096) mod 2 ^ 64"
    by (simp only: unat_of_nat) simp
  moreover have "x mod 2 ^ 64 div 4096 mod 2 ^ 27 = x div 4096 mod 2 ^ 27" for x :: nat
  proof -
    have "take_bit 27 (drop_bit 12 (take_bit 64 x)) = take_bit 27 (drop_bit 12 x)"
      by (intro bit_eqI) (auto simp: bit_simps)
    then show ?thesis by (simp add: take_bit_eq_mod drop_bit_eq_div)
  qed
  ultimately show ?thesis by (simp add: pg_def mod_simps add.commute)
qed

lemma maps_after:
  assumes "vm_ok p m s1" "ext m s s1" "\<And>x. lookup_page s1 m x = lookup_page s m x" "maps p m phys a q n s1 s2"
    "phys_ok phys n" "q + n \<le> 2 ^ 27"
  shows "maps p m phys a q n s s2"
  using maps_trans [OF maps_0 [OF assms(1-3), of phys a q], of n s2] assms(4-6) advance_0 [of phys] by simp

lemma lookup_slot:
  assumes "walk s m [q div 262144 mod 512] = Some t" "lookup_page s m q = None"
  shows "\<not> (vmm_ispresent (pt s t (q div 512 mod 512)) \<and> vmm_isslot (pt s t (q div 512 mod 512)))"
  using assms by (auto simp: lookup_page_def Let_def simp del: walk.simps)

lemma map_pass_spec:
  assumes ok: "vm_ok p m s" and q: "pg bss + n \<le> 2 ^ 27" and un: "\<forall>j < n. lookup_page s m (pg bss + j) = None"
    and phys: "phys_ok phys n" and n: "n < 512" "n + 2 \<le> size (avail s)" and f: "table_bits f"
  shows "\<exists>s'. map_pass p m f a bss phys n s = Done (pages_end (pg bss mod 512) bss phys n, s') \<and>
     maps p m phys a (pg bss) (min n (512 - pg bss mod 512)) s s' \<and>
     size (avail s) \<le> size (avail s') + 2 + min n (512 - pg bss mod 512)"
proof -
  let ?q = "pg bss"
  have "avail s \<noteq> {#}" using n by auto
  with ok f obtain s1 where 1: "need_table p m (idx 30 bss) f s = Done (True, s1)" "vm_ok p m s1" "ext m s s1"
    "\<not> (vmm_ispresent (pt s m (idx 30 bss)) \<and> vmm_isslot (pt s m (idx 30 bss))) \<longrightarrow>
       walk s1 m ([] @ [idx 30 bss]) = Some (vmm_phyaddr (pt s1 m (idx 30 bss)))"
    "\<And>q. lookup_page s1 m q = lookup_page s m q" "size (avail s) \<le> size (avail s1) + 1"
    by (elim need_table_spec [of p m s "[]" m "idx 30 bss" f]) simp_all
  let ?t = "vmm_phyaddr (pt s1 m (idx 30 bss))"
  have "\<not> (vmm_ispresent (pt s m (idx 30 bss)) \<and> vmm_isslot (pt s m (idx 30 bss)))"
    using ok by (auto simp: vm_ok_def tree_def)
  with 1(4) have t: "walk s1 m [idx 30 bss] = Some ?t" by simp
  have "avail s1 \<noteq> {#}" using n 1(6) by auto
  with 1(2) t f obtain s2 where 2: "need_table p ?t (idx 21 bss) f s1 = Done (True, s2)" "vm_ok p m s2" "ext m s1 s2"
    "\<not> (vmm_ispresent (pt s1 ?t (idx 21 bss)) \<and> vmm_isslot (pt s1 ?t (idx 21 bss))) \<longrightarrow>
       walk s2 m ([idx 30 bss] @ [idx 21 bss]) = Some (vmm_phyaddr (pt s2 ?t (idx 21 bss)))"
    "\<And>q. lookup_page s2 m q = lookup_page s1 m q" "size (avail s1) \<le> size (avail s2) + 1"
    by (elim need_table_spec [of p m s1 "[idx 30 bss]" ?t "idx 21 bss" f]) simp_all
  let ?u = "vmm_phyaddr (pt s2 ?t (idx 21 bss))"
  have l: "lookup_page s2 m x = lookup_page s m x" for x using 1(5) 2(5) by simp
  have e: "ext m s s2" by (rule ext_trans [OF 1(3) 2(3)])
  have pass: "map_pass p m f a bss phys n s = map_pages p a ?u (idx 12 bss) bss phys n s2"
    using 1(1) 2(1) n by (simp add: map_pass_def)
  show ?thesis
  proof (cases "n = 0")
    case True
    have "512 - ?q mod 512 > 0" by simp
    with True pass maps_0 [OF 2(2) e l] 1(6) 2(6) show ?thesis by (auto simp: pages_end_def)
  next
    case False
    then have "lookup_page s1 m ?q = None" using un [rule_format, of 0] 1(5) by simp
    from lookup_slot [OF _ this] t 2(4) have w: "walk s2 m (page_path ?q) = Some ?u"
      by (simp add: page_path_def idx_pg del: walk.simps)
    let ?k = "min n (512 - ?q mod 512)"
    have av: "n \<le> size (avail s2)" using n 1(6) 2(6) by linarith
    have un2: "\<forall>j < n. lookup_page s2 m (?q + j) = None" using un l by simp
    obtain s3 where 3: "map_pages p a ?u (?q mod 512) bss phys n s2 = Done (pages_end (?q mod 512) bss phys n, s3)"
      "maps p m phys a ?q ?k s2 s3" "size (avail s2) \<le> size (avail s3) + ?k"
      using map_pages_spec [OF 2(2) w q un2 phys av] by blast
    have "maps p m phys a ?q ?k s s3"
      by (rule maps_after [OF 2(2) e l 3(2)]) (use q in \<open>auto intro: phys_ok_mono [OF phys]\<close>)
    with 3 pass 1(6) 2(6) show ?thesis by (intro exI [of _ s3]) (simp add: idx_pg)
  qed
qed

text \<open>The whole loop, for less than a slot: at most two passes.\<close>

lemma map_loop_spec:
  assumes ok: "vm_ok p m s" and q: "pg bss + n \<le> 2 ^ 27" and un: "\<forall>j < n. lookup_page s m (pg bss + j) = None"
    and phys: "phys_ok phys n" and n: "n < 512" "n + 4 \<le> size (avail s)" and f: "table_bits f"
  obtains s' where "map_loop p m f a bss phys n s = Done (True, s')" "maps p m phys a (pg bss) n s s'"
proof -
  let ?q = "pg bss" and ?k = "512 - pg bss mod 512"
  have n2: "n + 2 \<le> size (avail s)" using n by simp
  obtain s1 where 1: "map_pass p m f a bss phys n s = Done (pages_end (?q mod 512) bss phys n, s1)"
    "maps p m phys a ?q (min n ?k) s s1" "size (avail s) \<le> size (avail s1) + 2 + min n ?k"
    using map_pass_spec [OF ok q un phys n(1) n2 f] by blast
  show thesis
  proof (cases "n < ?k")
    case True
    with 1 show thesis
      by (intro that [of s1]) (simp_all add: pages_end_def map_loop.simps [of _ _ _ _ bss phys n s])
  next
    case False
    let ?b = "bss + of_nat ?k * PAGESIZE" and ?n = "n - ?k"
    have k: "?k + ?n = n" "min n ?k = ?k" using False by simp_all
    have al: "(?q + ?k) mod 512 = 0"
    proof -
      have "d * 512 + r + (512 - r) = (d + 1) * 512" if "r < 512" for d r :: nat using that by simp
      from this [of "?q mod 512" "?q div 512"] have "?q + ?k = (?q div 512 + 1) * 512" by simp
      then show ?thesis by (simp only: mod_mult_self2_is_0)
    qed
    have b: "pg ?b = (?q + ?k) mod 2 ^ 27" by (rule pg_add)
    have b0: "pg ?b mod 512 = 0" unfolding b using al mod_mod_cancel [of 512 "2 ^ 27" "?q + ?k"] by simp
    have bq: "pg ?b = ?q + ?k" if "?n \<noteq> 0" using b q k that by simp
    have q1: "pg ?b + ?n \<le> 2 ^ 27" using bq q k pg_less [of ?b] by (cases "?n = 0") linarith+
    have "lookup_page s1 m (?q + ?k + j) = None" if "j < ?n" for j
      using 1(2) k q un [rule_format, of "?k + j"] that by (simp add: maps_def add.assoc)
    then have un1: "\<forall>j < ?n. lookup_page s1 m (pg ?b + j) = None" using bq by (cases "?n = 0") simp_all
    have phys1: "phys_ok (advance phys ?k) ?n" using advance_phys(1) [of phys ?k ?n] phys k by simp
    have n1: "?n < 512" "?n + 2 \<le> size (avail s1)" using n 1(3) k by linarith+
    have ok1: "vm_ok p m s1" using 1(2) by (simp add: maps_def)
    obtain s2 where 2: "map_pass p m f a ?b (advance phys ?k) ?n s1 = Done (pages_end 0 ?b (advance phys ?k) ?n, s2)"
      "maps p m (advance phys ?k) a (pg ?b) ?n s1 s2"
      using map_pass_spec [OF ok1 q1 un1 phys1 n1 f] n1(1) unfolding b0 by (auto simp: min_absorb1)
    have "maps p m (advance phys ?k) a (?q + ?k) ?n s1 s2"
    proof (cases "?n = 0")
      case True
      then show ?thesis using 2(2) maps_0_iff by metis
    qed (use 2(2) bq in metis)
    with 1(2) k q phys have "maps p m phys a ?q (?k + ?n) s s2" by (intro maps_trans [of p m phys a ?q ?k s s1]) simp_all
    moreover have "map_loop p m f a bss phys n s = Done (True, s2)"
    proof -
      have "map_loop p m f a bss phys n s = map_loop p m f a ?b (advance phys ?k) ?n s1"
        by (subst map_loop.simps) (use 1(1) False in \<open>simp add: pages_end_def\<close>)
      also have "\<dots> = Done (True, s2)"
        by (subst map_loop.simps) (use 2(1) n1(1) in \<open>simp add: pages_end_def\<close>)
      finally show ?thesis .
    qed
    ultimately show thesis using that k by simp
  qed
qed

text \<open>The arguments \<^verbatim>\<open>vmm_map\<close> accepts, and access bits that do not reach into the address of an entry.\<close>

definition map_args :: "tcbptr \<Rightarrow> u64 \<Rightarrow> u64 \<Rightarrow> kstate \<Rightarrow> bool" where
  "map_args tcb bss n s \<longleftrightarrow> page_round n \<noteq> 0 \<and> (tcb = TCBIdle \<or> bss \<noteq> 0) \<and>
     (drop_bit 39 bss = 0 \<or> drop_bit 39 bss AND 511 = 511) \<and>
     (bss < SDYN_ADDRESS \<longrightarrow> tcb_magic (get_tcb tcb s) = OSZ_TCB_MAGICH) \<and>
     \<not> (SDYN_ADDRESS \<le> bss \<and> bss \<le> CDYN_TOP \<and> CDYN_TOP \<le> bss + page_round n)"

lemma vmm_map_unfold:
  assumes "map_args tcb bss n s"
  shows "vmm_map tcb bss phys n access s =
     (case map_loop (map_tcb bss tcb) (getmemroot bss tcb s) (fst (map_access bss access)) (snd (map_access bss access)) bss
             (vmm_phyaddr phys) (unat (page_round n div PAGESIZE)) s of
        KPanic m \<Rightarrow> KPanic m | Done (ok, s) \<Rightarrow> Done (if ok then bss else - 1, s))"
  using assms unfolding map_args_def vmm_map_def Let_def by (auto simp: case_prod_beta)

lemma bits_or: "vmm_phyaddr (x OR y) = vmm_phyaddr x OR vmm_phyaddr y"
  by (simp add: vmm_phyaddr_def bit.conj_disj_distrib2)

lemma access_bits:
  assumes "table_bits access"
  shows "table_bits (fst (map_access bss access))" "leaf_bits (snd (map_access bss access))"
proof -
  have c: "table_bits (PG_NX OR PG_USER_RW)" "table_bits (PG_NX OR PG_USER_RWNOCACHE)" "table_bits (PG_NX OR PG_CORE_RWNOCACHE)"
    "vmm_phyaddr PG_NX = 0"
    by (simp_all add: table_bits_def vmm_phyaddr_def vmm_isslot_def pg_defs)
  from assms c show "table_bits (fst (map_access bss access))" by (simp add: map_access_def)
  from assms c show "leaf_bits (snd (map_access bss access))"
    by (simp add: map_access_def leaf_bits_def table_bits_def bits_or)
qed

lemma entry_frame:
  assumes "frames_ok m phys n fr s s'" "j < n" "phys_ok phys n" "aligned phys" "\<forall>q \<in># avail s. q < 2 ^ 44" "leaf_bits a"
  shows "vmm_phyaddr (fr j OR page_bits phys a) = fr j"
proof (rule phyaddr_or)
  show "vmm_phyaddr (page_bits phys a) = 0"
    using assms(6) by (simp add: page_bits_def leaf_bits_def bits_or) (simp add: vmm_phyaddr_def pg_defs)
  have "aligned (fr j) \<and> unat (fr j) < 2 ^ 56"
  proof (cases "phys = 0")
    case True
    with assms have "aligned (fr j)" "pn (fr j) < 2 ^ 44" by (simp_all add: frames_ok_def)
    then show ?thesis by (simp add: pn_def div_less_iff_less_mult)
  next
    case False
    then have f: "fr j = phys + of_nat (j * 4096)" using assms(1,2) by (simp add: frames_ok_def PAGESIZE_def)
    have b: "unat phys + j * 4096 < 2 ^ 56" using assms(2,3) unfolding phys_ok_def by simp
    then have "unat (of_nat (j * 4096) :: u64) = j * 4096" by (intro unat_of_nat_u64) simp
    then have "unat (fr j) = unat phys + j * 4096" unfolding f using b by (subst unat_add_le) simp_all
    with assms(4) b show ?thesis by (simp add: aligned_def)
  qed
  then show "aligned (fr j)" "unat (fr j) < 2 ^ 56" by simp_all
qed

text \<open>
  C16. Mapping part of a slot. The range has to be unmapped and to end inside the area of its table, and free memory has to
  hold the pages and four tables. Then the call returns the address; page \<open>j\<close> of the range is translated to page \<open>j\<close> of the given
  physical memory, or to a zeroed page that was free and belongs to no other page of the range; all other pages keep
  their translation, the tables stay a tree, and memory outside of tables and formerly free pages keeps its contents.
\<close>

theorem vmm_map_correct:
  assumes args: "map_args tcb bss n s" and ok: "vm_ok (map_tcb bss tcb) (getmemroot bss tcb s) s"
    and N: "N = unat (page_round n div PAGESIZE)" "N < 512" and m: "m = getmemroot bss tcb s"
    and range: "pg bss + N \<le> 2 ^ 27" and un: "\<forall>j < N. lookup_page s m (pg bss + j) = None"
    and phys: "phys_ok (vmm_phyaddr phys) N" and free: "N + 4 \<le> size (avail s)" and access: "table_bits access"
  shows "\<exists>s' fr. vmm_map tcb bss phys n access s = Done (bss, s') \<and> vm_ok (map_tcb bss tcb) m s' \<and>
     frames_ok m (vmm_phyaddr phys) N fr s s' \<and>
     (\<forall>j < N. map_option vmm_phyaddr (lookup_page s' m (pg bss + j)) = Some (fr j)) \<and>
     (\<forall>q < 2 ^ 27. q < pg bss \<or> pg bss + N \<le> q \<longrightarrow> lookup_page s' m q = lookup_page s m q) \<and>
     avail s' \<subseteq># avail s \<and> (\<forall>a. phymem s' a \<noteq> phymem s a \<longrightarrow> pn a \<in># avail s \<or> is_table m s (pn a))"
proof -
  let ?p = "map_tcb bss tcb" and ?a = "snd (map_access bss access)"
  obtain s' where s': "map_loop ?p m (fst (map_access bss access)) ?a bss (vmm_phyaddr phys) N s = Done (True, s')"
    "maps ?p m (vmm_phyaddr phys) ?a (pg bss) N s s'"
    using map_loop_spec [OF _ range un phys N(2) free access_bits(1) [OF access]] ok m by blast
  then obtain fr where fr: "frames_ok m (vmm_phyaddr phys) N fr s s'"
    "\<forall>j < N. lookup_page s' m (pg bss + j) = Some (fr j OR page_bits (vmm_phyaddr phys) ?a)"
    by (auto simp: maps_def)
  have "vmm_phyaddr (fr j OR page_bits (vmm_phyaddr phys) ?a) = fr j" if "j < N" for j
    by (rule entry_frame [OF fr(1) that phys phyaddr_aligned _ access_bits(2) [OF access]]) (use ok in \<open>simp add: vm_ok_def\<close>)
  with fr(2) have "\<forall>j < N. map_option vmm_phyaddr (lookup_page s' m (pg bss + j)) = Some (fr j)" by simp
  moreover have "vmm_map tcb bss phys n access s = Done (bss, s')"
    using s'(1) vmm_map_unfold [OF args] N(1) m by simp
  ultimately show ?thesis using s'(2) fr(1) unfolding maps_def ext_def by blast
qed

text \<open>A machine with one task, whose tables consist of a root and an empty table below it.\<close>

definition vmm_example :: kstate where
  "vmm_example = set_pt 0x800000 0 0x801007
     (pmm_example\<lparr>tcbs := (\<lambda>_. zero_tcb\<lparr>tcb_magic := OSZ_TCB_MAGICH, tcb_memroot := 0x800000\<rparr>)\<rparr>)"

lemma vmm_example_pt:
  assumes "aligned t" "i < 512"
  shows "pt vmm_example t i = (if t = 0x800000 \<and> i = 0 then 0x801007 else 0)"
proof -
  have "aligned 0x800000" by (simp add: aligned_def)
  from pt_set_pt [OF this _ assms] zero_entry [OF assms] show ?thesis
    by (simp add: vmm_example_def pmm_example_def zero_kstate_def)
qed

lemma vmm_example_simps [simp]:
  "pmm_entries vmm_example = pmm_entries pmm_example" "get_tcb (TCB p) vmm_example =
     zero_tcb\<lparr>tcb_magic := OSZ_TCB_MAGICH, tcb_memroot := 0x800000\<rparr>"
  by (simp_all add: vmm_example_def) (simp add: get_tcb_def)

lemma vmm_example_tables:
  "getmemroot 0x100000000 (TCB 7) vmm_example = 0x801000" "lookup_page vmm_example 0x801000 q = None"
  "vm_ok (TCB 7) 0x801000 vmm_example"
proof -
  have a: "aligned 0x800000" "aligned 0x801000" by (simp_all add: aligned_def)
  show "getmemroot 0x100000000 (TCB 7) vmm_example = 0x801000"
    using vmm_example_pt [OF a(1)]
    by (simp add: getmemroot_def map_tcb_def SDYN_ADDRESS_def idx_def vmm_phyaddr_def)
  have e: "\<not> vmm_ispresent (pt vmm_example 0x801000 i)" if "i < 512" for i
    using vmm_example_pt [OF a(2) that] by (simp add: vmm_ispresent_def)
  then show "lookup_page vmm_example 0x801000 q = None" by (simp add: lookup_page_def Let_def)
  have w: "P = [] \<and> t = 0x801000" if "path P" "walk vmm_example 0x801000 P = Some t" for P t
    using that e by (cases P) (auto simp: Let_def path_def)
  have "tree 0x801000 vmm_example"
    unfolding tree_def using a e by (auto simp: pn_def page_run_def dest: w)
  moreover have "pmm_inv vmm_example" using pmm_example_inv by (simp add: vmm_example_def pmm_inv_def set_pt_def)
  ultimately show "vm_ok (TCB 7) 0x801000 vmm_example"
    by (auto simp: vm_ok_def page_run_def)
qed

theorem vmm_map_correct_witness:
  "\<exists>s' fr. vmm_map (TCB 7) 0x100000000 0 0x2800 PG_USER_RW vmm_example = Done (0x100000000, s') \<and>
     frames_ok 0x801000 0 3 fr vmm_example s' \<and>
     (\<forall>j < 3. map_option vmm_phyaddr (lookup_page s' 0x801000 (pg 0x100000000 + j)) = Some (fr j))"
proof -
  have round: "page_round 0x2800 = 0x3000" by (simp add: page_round_def PAGESIZE_def)
  have args: "map_args (TCB 7) 0x100000000 0x2800 vmm_example"
    by (simp add: map_args_def round SDYN_ADDRESS_def)
  have tcb: "map_tcb 0x100000000 (TCB 7) = TCB 7" by (simp add: map_tcb_def SDYN_ADDRESS_def)
  have ok: "vm_ok (map_tcb 0x100000000 (TCB 7)) (getmemroot 0x100000000 (TCB 7) vmm_example) vmm_example"
    unfolding tcb vmm_example_tables(1) by (rule vmm_example_tables(3))
  have N: "(3 :: nat) = unat (page_round 0x2800 div PAGESIZE)" "(3 :: nat) < 512" by (simp_all add: round PAGESIZE_def)
  have range: "pg 0x100000000 + 3 \<le> 2 ^ 27" and phys: "phys_ok (vmm_phyaddr 0) 3" and p0: "vmm_phyaddr 0 = 0"
    by (simp_all add: phys_ok_def pg_def vmm_phyaddr_def)
  have un: "\<forall>j < 3. lookup_page vmm_example 0x801000 (pg 0x100000000 + j) = None" using vmm_example_tables(2) by simp
  have free: "3 + 4 \<le> size (avail vmm_example)" by (simp add: page_run_def)
  have access: "table_bits PG_USER_RW" by (simp add: table_bits_def PG_USER_RW_def vmm_phyaddr_def vmm_isslot_def)
  show ?thesis
    using vmm_map_correct [OF args ok N vmm_example_tables(1) [symmetric] range un phys free access] unfolding p0 by blast
qed

section \<open>Results of vmm_map\<close>

text \<open>Every failure is the invalid pointer, never a null pointer.\<close>

lemma vmm_map_result:
  assumes "vmm_map tcb bss phys n access s = Done (r, s')"
  shows "r = bss \<or> r = - 1"
  using assms unfolding vmm_map_def Let_def by (auto split: if_splits prod.splits outcome.splits)

text \<open>
  When the entry of the 2M table is present it is taken for a table of pages, whatever it maps: for a slot, the entries of the
  new mapping are looked for, and written, in the slot itself.
\<close>

lemma map_pass_into_slot:
  assumes "vmm_ispresent (pt s m (idx 30 bss))" "t = vmm_phyaddr (pt s m (idx 30 bss))" "vmm_ispresent (pt s t (idx 21 bss))"
  shows "map_pass tcb m access a bss phys n s =
     map_pages tcb a (vmm_phyaddr (pt s t (idx 21 bss))) (idx 12 bss) bss phys n s"
  using assms by (simp add: map_pass_def need_table_def)

section \<open>vmm_page\<close>

lemma page_entry_walk:
  assumes m: "vmm_ispresent (pt s (vmm_phyaddr root) (idx 39 v))" "vmm_phyaddr (pt s (vmm_phyaddr root) (idx 39 v)) = m"
    and w: "walk s m (page_path (pg v)) = Some t"
    and v: "drop_bit 48 v = 0 \<or> drop_bit 48 v = 0xffff" "drop_bit 39 v = 0 \<or> drop_bit 39 v AND 511 = 511"
    and access: "\<not> vmm_isslot access"
  shows "page_entry root v access s = Some (t, pg v mod 512)"
  using assms unfolding page_entry_def page_path_def Let_def idx_pg [symmetric]
  by (auto simp: Let_def split: if_splits)

text \<open>
  C17. An address that is not one of the fast windows and whose tables exist: \<^verbatim>\<open>vmm_page\<close> sets exactly the entry the processor finds for
  that address, with the frame (or the old one when only the access changes) and the execution bit taken from writable
  pages; no other page of the address space is translated differently, and the tables stay a tree.
\<close>

theorem vmm_page_correct:
  assumes window: "window_entry c v = None" and ok: "vm_ok p m s"
    and root: "r = (if root = 0 then mmu_cr3 c else root)" "vmm_ispresent (pt s (vmm_phyaddr r) (idx 39 v))"
      "vmm_phyaddr (pt s (vmm_phyaddr r) (idx 39 v)) = m"
    and t: "walk s m (page_path (pg v)) = Some t"
    and v: "drop_bit 48 v = 0 \<or> drop_bit 48 v = 0xffff" "drop_bit 39 v = 0 \<or> drop_bit 39 v AND 511 = 511"
    and access: "\<not> vmm_isslot access" "vmm_ispresent access"
  shows "\<exists>s'. vmm_page c root v phys access s = Done s' \<and> vm_ok p m s' \<and>
     lookup_page s' m (pg v) =
       Some (vmm_phyaddr (if phys \<noteq> - 1 then phys else pt s t (pg v mod 512)) OR access OR vmm_wnx access) \<and>
     (\<forall>q < 2 ^ 27. q \<noteq> pg v \<longrightarrow> lookup_page s' m q = lookup_page s m q)"
proof -
  let ?e = "vmm_phyaddr (if phys \<noteq> - 1 then phys else pt s t (pg v mod 512)) OR access OR vmm_wnx access"
  have "?e AND 1 \<noteq> 0"
  proof
    assume "?e AND 1 = 0"
    then have "access AND 1 = 0" by (auto simp: bit.conj_disj_distrib2 or_eq_0_iff simp del: and_one_eq)
    with access(2) show False by (simp add: vmm_ispresent_def)
  qed
  then have e: "vmm_ispresent ?e" by (simp add: vmm_ispresent_def)
  note l = set_leaf [OF ok t pg_less e]
  have "vmm_page c root v phys access s = Done (set_pt t (pg v mod 512) ?e s)"
    using window page_entry_walk [OF root(2,3) t v access(1)] root(1) by (simp add: vmm_page_def set_page_def)
  with l pg_less show ?thesis by simp
qed

section \<open>vmm_swaptextbuf\<close>

lemma swap_entries_pt:
  assumes "aligned t" "i < 512" "j < 512" "aligned u" "k < 512"
  shows "pt (swap_entries t i j s) u k = (if u = t then pt s t (if k = i then j else if k = j then i else k) else pt s u k)"
  using assms by (auto simp: swap_entries_def pt_set_pt)

text \<open>
  Exchanging the text segment with its buffer: the first four entries of the task's table and the last four change
  places, everything else in every table stays; doing it twice is the identity on all tables.
\<close>

lemma swap_text_correct:
  assumes "aligned t" "aligned u" "k < 512"
  shows "pt (swap_text t s) u k =
       (if u = t \<and> k < 4 then pt s t (k + 508) else if u = t \<and> 508 \<le> k then pt s t (k - 508) else pt s u k) \<and>
     pt (swap_text t (swap_text t s)) u k = pt s u k"
proof -
  have r: "[0..<unat (DYN_ADDRESS div 0x40000000)] = [0, 1, 2, 3]" by (simp add: DYN_ADDRESS_def upt_rec)
  have b: "idx 30 BUF_ADDRESS = 508" by (simp add: idx_def BUF_ADDRESS_def DYN_ADDRESS_def)
  have one: "pt (swap_text t s) u k =
      (if u = t \<and> k < 4 then pt s t (k + 508) else if u = t \<and> 508 \<le> k then pt s t (k - 508) else pt s u k)"
    if "aligned u" "k < 512" for u k s
  proof -
    have "k < 4 \<longleftrightarrow> k \<in> {0, 1, 2, 3}" "508 \<le> k \<longleftrightarrow> k \<in> {508, 509, 510, 511}" using that(2) by auto
    then show ?thesis
      using assms(1) that unfolding swap_text_def r b by (auto simp: swap_entries_pt)
  qed
  show ?thesis using one [OF assms(2,3)] one [OF assms(1)] assms(3) by auto
qed

lemma swap_text_correct_witness: "pt (swap_text 0x800000 vmm_example) 0x800000 508 = 0x801007"
proof -
  have a: "aligned 0x800000" by (simp add: aligned_def)
  show ?thesis using swap_text_correct [OF a a, of 508 vmm_example] vmm_example_pt [OF a] by simp
qed

text \<open>The same machine with a table for pages at 4G.\<close>

definition page_example :: kstate where
  "page_example = set_pt 0x802000 0 0x803007 (set_pt 0x801000 4 0x802007 vmm_example)"

lemma page_example_pt:
  assumes "aligned t" "i < 512"
  shows "pt page_example t i =
     (if t = 0x802000 \<and> i = 0 then 0x803007 else if t = 0x801000 \<and> i = 4 then 0x802007 else pt vmm_example t i)"
proof -
  have "aligned 0x801000" "aligned 0x802000" by (simp_all add: aligned_def)
  then show ?thesis using assms by (simp add: page_example_def pt_set_pt)
qed

lemma page_example_walk:
  assumes "path P"
  shows "walk page_example 0x801000 P =
     (if P = [] then Some 0x801000 else if P = [4] then Some 0x802000 else if P = [4, 0] then Some 0x803000 else None)"
proof -
  have a: "aligned 0x801000" "aligned 0x802000" by (simp_all add: aligned_def)
  have e: "vmm_ispresent 0x802007" "vmm_ispresent 0x803007" "\<not> vmm_isslot 0x802007" "\<not> vmm_isslot 0x803007"
    "vmm_phyaddr 0x802007 = 0x802000" "vmm_phyaddr 0x803007 = 0x803000" "\<not> vmm_ispresent 0"
    by (simp_all add: vmm_ispresent_def vmm_isslot_def vmm_phyaddr_def)
  show ?thesis
    using assms
  proof (cases rule: path_cases)
    case (2 i)
    then show ?thesis by (simp add: Let_def page_example_pt [OF a(1)] vmm_example_pt [OF a(1)] e)
  next
    case (3 i j)
    then show ?thesis
      by (simp add: Let_def page_example_pt [OF a(1)] vmm_example_pt [OF a(1)] e)
        (simp add: page_example_pt [OF a(2)] vmm_example_pt [OF a(2)] e)
  qed simp
qed

lemma page_example_ok: "vm_ok (TCB 7) 0x801000 page_example"
proof -
  have a: "aligned 0x801000" by (simp add: aligned_def)
  have av: "avail page_example = avail vmm_example" by (simp add: page_example_def)
  have "tree 0x801000 page_example"
    unfolding tree_def av
    by (auto simp: a page_example_walk pn_def page_run_def split: if_splits)
      (auto simp: page_example_pt [OF a] vmm_example_pt [OF a] vmm_isslot_def vmm_ispresent_def split: if_splits)
  then show ?thesis using vmm_example_tables(3) unfolding vm_ok_def av by (simp add: page_example_def)
qed

theorem vmm_page_correct_witness:
  "\<exists>s'. vmm_page (mmu_t.make 0x800000 0 0) 0 0x100003000 0x1234000 PG_USER_RW page_example = Done s' \<and>
     lookup_page s' 0x801000 (pg 0x100003000) = Some 0x8000000001234007"
proof -
  let ?c = "mmu_t.make 0x800000 0 0"
  have a: "aligned 0x800000" by (simp add: aligned_def)
  have q: "pg 0x100003000 = 0x100003" by (simp add: pg_def)
  have window: "window_entry ?c 0x100003000 = None"
    by (simp add: window_entry_def LDYN_ADDRESS_def PAGESIZE_def SLOTSIZE_def)
  have pa: "vmm_phyaddr 0x800000 = 0x800000" and i: "idx 39 0x100003000 = 0" by (simp_all add: vmm_phyaddr_def idx_def)
  have e: "pt page_example (vmm_phyaddr 0x800000) (idx 39 0x100003000) = 0x801007"
    unfolding pa i by (simp add: page_example_pt [OF a] vmm_example_pt [OF a])
  have r: "0x800000 = (if (0 :: u64) = 0 then mmu_cr3 ?c else 0)" by (simp add: mmu_t.defs)
  have m: "vmm_ispresent (pt page_example (vmm_phyaddr 0x800000) (idx 39 0x100003000))"
    "vmm_phyaddr (pt page_example (vmm_phyaddr 0x800000) (idx 39 0x100003000)) = 0x801000"
    unfolding e by (simp_all add: vmm_ispresent_def vmm_phyaddr_def)
  have t: "walk page_example 0x801000 (page_path (pg 0x100003000)) = Some 0x803000"
    by (simp add: q page_path_def page_example_walk del: walk.simps)
  have v: "drop_bit 48 0x100003000 = (0 :: u64) \<or> drop_bit 48 0x100003000 = (0xffff :: u64)"
    "drop_bit 39 0x100003000 = (0 :: u64) \<or> drop_bit 39 0x100003000 AND 511 = (511 :: u64)" by simp_all
  have access: "\<not> vmm_isslot PG_USER_RW" "vmm_ispresent PG_USER_RW"
    by (simp_all add: vmm_isslot_def vmm_ispresent_def PG_USER_RW_def)
  show ?thesis
    using vmm_page_correct [where phys = "0x1234000", OF window page_example_ok r m t v access]
    by (auto simp: vmm_phyaddr_def PG_USER_RW_def vmm_wnx_def PG_NX_def)
qed

end
