(* ===== verification/Libc_String.thy ===== *)
theory Libc_String
  imports Core_Libc
begin

text \<open>
  The string functions of the user space library, \<^verbatim>\<open>libc/string.c\<close>, on byte addressed memory. The
  routines it shares word for word with the core (\<^verbatim>\<open>strlen\<close>, \<^verbatim>\<open>mbstrlen\<close>, \<^verbatim>\<open>strcmp\<close>, \<^verbatim>\<open>strncpy\<close>) and the memory
  routines are those of \<^verbatim>\<open>Core_Libc\<close>. The allocator of the duplicating functions is an argument: it takes a size
  and gives an address, zero when there is no memory. A character passed by value is
  searched for by its bytes, the lowest first.
\<close>

section \<open>Characters\<close>

text \<open>\<^verbatim>\<open>chr\<close> writes a code point as UTF-8 with a closing zero and moves the pointer behind it.\<close>

definition utf8_bytes :: "u32 \<Rightarrow> u8 list" where
  "utf8_bytes u =
     (if u < 0x80 then [ucast u]
      else if u < 0x800 then
        [ucast ((drop_bit 6 u AND 0x1F) OR 0xC0), ucast ((u AND 0x3F) OR 0x80)]
      else if u < 0x10000 then
        [ucast ((drop_bit 12 u AND 0x0F) OR 0xE0), ucast ((drop_bit 6 u AND 0x3F) OR 0x80), ucast ((u AND 0x3F) OR 0x80)]
      else
        [ucast ((drop_bit 18 u AND 0x07) OR 0xF0), ucast ((drop_bit 12 u AND 0x3F) OR 0x80),
         ucast ((drop_bit 6 u AND 0x3F) OR 0x80), ucast ((u AND 0x3F) OR 0x80)])"

definition chr :: "u64 \<Rightarrow> u32 \<Rightarrow> mem \<Rightarrow> u64 \<times> mem" where
  "chr s u m = (s + of_nat (length (utf8_bytes u)), put_bytes s (utf8_bytes u @ [0]) m)"

text \<open>\<^verbatim>\<open>ord\<close> reads a code point and moves the pointer behind it.\<close>

definition ord :: "u64 \<Rightarrow> mem \<Rightarrow> u32 \<times> u64" where
  "ord s m =
     (let b = (\<lambda>i. ucast (m (s + i)) :: u32); tail = (\<lambda>i. b i AND 0x3F) in
      if m s AND 128 = 0 then (b 0, s + 1)
      else if m s AND 32 = 0 then (push_bit 6 (b 0 AND 0x1F) OR tail 1, s + 1 + 1)
      else if m s AND 16 = 0 then (push_bit 12 (b 0 AND 0xF) OR push_bit 6 (tail 1) OR tail 2, s + 2 + 1)
      else if m s AND 8 = 0 then
        (push_bit 18 (b 0 AND 0x7) OR push_bit 12 (tail 1) OR push_bit 6 (tail 2) OR tail 3, s + 3 + 1)
      else (0, s + 1))"

text \<open>
  \<^verbatim>\<open>strtolower\<close>: the same, with the code point mapped to its lower case form (and digits of other scripts to
  the ASCII digits) and packed as UTF-8 into a number.
\<close>

abbreviation (input) within :: "u32 \<Rightarrow> u32 \<Rightarrow> u32 \<Rightarrow> bool" where
  "within c a b \<equiv> a \<le> c \<and> c \<le> b"

definition fold_ranges :: "u32 \<Rightarrow> u32" where
  "fold_ranges c =
     (if within c 0x41 0x5A \<or> within c 0xC0 0xDE \<or> within c 0x391 0x3AB \<or> within c 0x410 0x43F then c + 32
      else if within c 0x400 0x40F then c + 0x50
      else if within c 0x530 0x558 \<or> within c 0x10A0 0x10C5 then c + 0x30
      else if within c 0x660 0x669 then c - (0x660 - 0x30) else if within c 0x6F0 0x6F9 then c - (0x6F0 - 0x30)
      else if within c 0x7C0 0x7C9 then c - (0x7C0 - 0x30) else if within c 0xED0 0xED9 then c - (0xED0 - 0x30)
      else if within c 0xF20 0xF29 then c - (0x7C0 - 0x30) else if within c 0x1040 0x1049 then c - (0x1040 - 0x30)
      else if within c 0x1369 0x1372 then c - (0x1369 - 0x31) else if within c 0x17E0 0x17E9 then c - (0x17E0 - 0x30)
      else if within c 0x1810 0x1819 then c - (0x1810 - 0x30) else if within c 0x19D0 0x19D9 then c - (0x19D0 - 0x30)
      else if within c 0x1A80 0x1A89 then c - (0x1A80 - 0x30) else if within c 0x1A90 0x1A99 then c - (0x1A90 - 0x30)
      else if within c 0x1BB0 0x1BB9 then c - (0x1BB0 - 0x30) else if within c 0x1C40 0x1C49 then c - (0x1C40 - 0x30)
      else if within c 0x1C50 0x1C59 then c - (0x1C50 - 0x30) else if within c 0x3021 0x3029 then c - (0x3021 - 0x31)
      else c)"

definition fold_single :: "u32 \<Rightarrow> u32" where
  "fold_single c =
     (if c = 0x178 then 0xFF else if c = 0x181 then 0x180 else if c = 0x1F6 then 0x195 else if c = 0x1F7 then 0x1BF
      else if c = 0x220 then 0x19E else if c = 0x23D then 0x19A else if c = 0x243 then 0x180 else if c = 0x3007 then 0x30
      else if c = 0x18E \<or> c = 0x18F then 0x1DD
      else if c \<in> {0x187, 0x18B, 0x191, 0x198, 0x19D, 0x1A7, 0x1AC, 0x1AF, 0x1B8, 0x1BC, 0x1F4, 0x23B, 0x241} then c + 1
      else if c = 0x1C4 \<or> c = 0x1C5 then 0x1C6 else if c = 0x1C7 \<or> c = 0x1C8 then 0x1C9
      else if c = 0x1CA \<or> c = 0x1CB then 0x1CC else if c = 0x1F1 \<or> c = 0x1F2 then 0x1F3
      else c)"

definition fold_pairs :: "u32 \<Rightarrow> u32" where
  "fold_pairs c =
     (if within c 0x1F00 0x1FFF \<and> 7 < c AND 15 then c - 8
      else if c AND 1 = 0 \<and> (within c 0x100 0x136 \<or> within c 0x14A 0x176 \<or> within c 0x1A0 0x1A4 \<or> within c 0x182 0x184 \<or>
          within c 0x1DE 0x1EE \<or> within c 0x1F8 0x21E \<or> within c 0x222 0x232 \<or> within c 0x246 0x24E \<or>
          within c 0x3D8 0x3FA \<or> within c 0x460 0x480 \<or> within c 0x48A 0x4BE \<or> within c 0x4D0 0x524 \<or>
          within c 0x1E00 0x1EF8) \<or>
        c AND 1 \<noteq> 0 \<and> (within c 0x139 0x147 \<or> within c 0x179 0x17D \<or> within c 0x1B3 0x1B5 \<or> within c 0x1CD 0x1DB \<or>
          within c 0x4C1 0x4CD)
      then c + 1
      else fold_single c)"

definition utf8_pack :: "u32 \<Rightarrow> u32" where
  "utf8_pack c =
     (if c < 0x80 then c
      else if c < 0x800 then push_bit 8 ((c AND 0x3F) OR 0x80) OR ((drop_bit 6 c AND 0x1F) OR 0xC0)
      else if c < 0x10000 then
        push_bit 16 ((c AND 0x3F) OR 0x80) OR push_bit 8 ((drop_bit 6 c AND 0x3F) OR 0x80) OR
          ((drop_bit 12 c AND 0x0F) OR 0xE0)
      else
        push_bit 24 ((c AND 0x3F) OR 0x80) OR push_bit 16 ((drop_bit 6 c AND 0x3F) OR 0x80) OR
          push_bit 8 ((drop_bit 12 c AND 0x3F) OR 0x80) OR ((drop_bit 18 c AND 0x07) OR 0xF0))"

definition strtolower :: "u64 \<Rightarrow> mem \<Rightarrow> u32 \<times> u64" where
  "strtolower s m = (case ord s m of (c, s') \<Rightarrow> (utf8_pack (fold_pairs (fold_ranges c)), s'))"

text \<open>The bytes of a number in memory, the lowest first.\<close>

definition le32 :: "u32 \<Rightarrow> u8 list" where
  "le32 w = map (\<lambda>i. ucast (drop_bit (8 * i) w)) [0..<4]"

section \<open>Memory blocks\<close>

text \<open>
  \<^verbatim>\<open>memmove\<close>: blocks that overlap are copied from their last byte to the first, whichever of them lies
  in front.
\<close>

primrec copy_down :: "nat \<Rightarrow> u64 \<Rightarrow> u64 \<Rightarrow> mem \<Rightarrow> u64 \<times> mem" where
  "copy_down 0 a b m = (a, m)"
| "copy_down (Suc n) a b m = copy_down n (a - 1) (b - 1) (m(a := m b))"

definition memmove :: "u64 \<Rightarrow> u64 \<Rightarrow> u64 \<Rightarrow> mem \<Rightarrow> u64 \<times> mem" where
  "memmove dst src n m =
     (if src \<noteq> 0 \<and> dst \<noteq> 0 \<and> 0 < n
      then if dst < src \<and> src < dst + n \<or> src < dst \<and> dst < src + n
           then copy_down (unat n) (dst + (n - 1)) (src + (n - 1)) m
           else memcpy dst src n m
      else (dst, m))"

lemma u64_step_down: "p < e \<Longrightarrow> unat (e - 1) = unat e - 1" for p e :: u64
  by (rule unat_minus_one) auto

function memchr_loop :: "mem \<Rightarrow> u8 \<Rightarrow> u64 \<Rightarrow> u64 \<Rightarrow> u64" where
  "memchr_loop m c e p = (if p < e then if m p = c then p else memchr_loop m c e (p + 1) else 0)"
  by auto
termination
  by (relation "measure (\<lambda>(m, c, e, p). unat e - unat p)")
    (auto simp: u64_step_up word_less_nat_alt)

declare memchr_loop.simps [simp del]

definition memchr :: "u64 \<Rightarrow> u8 \<Rightarrow> u64 \<Rightarrow> mem \<Rightarrow> u64" where
  "memchr s c n m = (if s \<noteq> 0 \<and> n \<noteq> 0 then memchr_loop m c (s + n) s else 0)"

text \<open>The search from the end starts at the byte behind the block and does not look at the first one.\<close>

function memrchr_loop :: "mem \<Rightarrow> u8 \<Rightarrow> u64 \<Rightarrow> u64 \<Rightarrow> u64" where
  "memrchr_loop m c p e = (if p < e then if m e = c then e else memrchr_loop m c p (e - 1) else 0)"
  by auto
termination
  by (relation "measure (\<lambda>(m, c, p, e). unat e)") (auto simp: u64_step_down word_less_nat_alt)

declare memrchr_loop.simps [simp del]

definition memrchr :: "u64 \<Rightarrow> u8 \<Rightarrow> u64 \<Rightarrow> mem \<Rightarrow> u64" where
  "memrchr s c n m = (if s \<noteq> 0 \<and> n \<noteq> 0 then memrchr_loop m c s (s + n) else 0)"

text \<open>
  Searching for a block. The number of positions tried is the difference of the lengths, one less than there
  are.
\<close>

primrec mem_search :: "mem \<Rightarrow> u8 list \<Rightarrow> u64 \<Rightarrow> nat \<Rightarrow> u64 \<Rightarrow> u64" where
  "mem_search m needle step 0 c = 0"
| "mem_search m needle step (Suc hl) c =
     (if bytes_at m c (length needle) = needle then c else mem_search m needle step hl (c + step))"

definition mem_find :: "u64 \<Rightarrow> u64 \<Rightarrow> u8 list \<Rightarrow> mem \<Rightarrow> u64" where
  "mem_find hay hl needle m =
     (if hay = 0 \<or> hl = 0 \<or> needle = [] \<or> unat hl < length needle then 0
      else mem_search m needle 1 (unat hl - length needle) hay)"

definition memmem :: "u64 \<Rightarrow> u64 \<Rightarrow> u64 \<Rightarrow> u64 \<Rightarrow> mem \<Rightarrow> u64" where
  "memmem hay hl needle nl m = (if needle = 0 then 0 else mem_find hay hl (bytes_at m needle (unat nl)) m)"

definition memrmem :: "u64 \<Rightarrow> u64 \<Rightarrow> u64 \<Rightarrow> u64 \<Rightarrow> mem \<Rightarrow> u64" where
  "memrmem hay hl needle nl m =
     (if hay = 0 \<or> needle = 0 \<or> hl = 0 \<or> nl = 0 \<or> hl < nl then 0
      else mem_search m (bytes_at m needle (unat nl)) (- 1) (unat (hl - nl)) (hay + (hl - nl)))"

section \<open>Messages\<close>

definition sigs :: "string list" where
  "sigs = [''NONE'', ''HUP'', ''INT'', ''QUIT'', ''ILL'', ''TRAP'', ''ABRT'', ''EMT'', ''FPE'', ''KILL'', ''BUS'', ''SEGV'',
    ''SYS'', ''PIPE'', ''ALRM'', ''TERM'', ''URG'', ''STOP'', ''TSTP'', ''CONT'', ''CHLD'', ''TTIN'', ''TTOU'', ''IO'', ''XCPU'', ''XFSZ'',
    ''VTALRM'', ''PROF'', ''WINCH'', ''INFO'', ''USR1'', ''USR2'']"

definition strsignal :: "32 word \<Rightarrow> string" where
  "strsignal sig = (if 0 \<le> sint sig \<and> sint sig < int (length sigs) then sigs ! nat (sint sig) else ''?'')"

section \<open>Lengths\<close>

function strnlen_loop :: "mem \<Rightarrow> u64 \<Rightarrow> u64 \<Rightarrow> u64 \<Rightarrow> u64" where
  "strnlen_loop m e s c = (if s < e \<and> m s \<noteq> 0 then strnlen_loop m e (s + 1) (c + 1) else c)"
  by auto
termination
  by (relation "measure (\<lambda>(m, e, s, c). unat e - unat s)") (auto simp: u64_step_up word_less_nat_alt)

declare strnlen_loop.simps [simp del]

definition strnlen :: "u64 \<Rightarrow> u64 \<Rightarrow> mem \<Rightarrow> u64" where
  "strnlen s n m = (if s \<noteq> 0 then strnlen_loop m (s + n) s 0 else 0)"

partial_function (option) mbstrnlen_loop :: "mem \<Rightarrow> u64 \<Rightarrow> u64 \<Rightarrow> u64 \<Rightarrow> u64 option" where
  "mbstrnlen_loop m e s c =
     (if s < e \<and> m s \<noteq> 0 then mbstrnlen_loop m e (s + utf8_skip (m s) + 1) (c + 1) else Some c)"

definition mbstrnlen :: "u64 \<Rightarrow> u64 \<Rightarrow> mem \<Rightarrow> u64 option" where
  "mbstrnlen s n m = (if s \<noteq> 0 then mbstrnlen_loop m (s + n) s 0 else Some 0)"

section \<open>Comparison\<close>

definition char_diff :: "mem \<Rightarrow> u64 \<Rightarrow> u64 \<Rightarrow> int" where
  "char_diff m s1 s2 = sint (m s1) - sint (m s2)"

partial_function (option) strncmp_loop :: "mem \<Rightarrow> u64 \<Rightarrow> u64 \<Rightarrow> u64 \<Rightarrow> int option" where
  "strncmp_loop m e s1 s2 =
     (if m s1 \<noteq> m s2 then Some (char_diff m s1 s2)
      else if m (s1 + 1) \<noteq> 0 \<and> s1 + 1 < e then strncmp_loop m e (s1 + 1) (s2 + 1)
      else Some (char_diff m (s1 + 1) (s2 + 1)))"

definition strncmp :: "u64 \<Rightarrow> u64 \<Rightarrow> u64 \<Rightarrow> mem \<Rightarrow> int option" where
  "strncmp s1 s2 n m = (if s1 \<noteq> 0 \<and> s2 \<noteq> 0 \<and> s1 \<noteq> s2 \<and> 0 < n then strncmp_loop m (s1 + n) s1 s2 else Some 0)"

text \<open>Without regard to case. The difference of two packed characters is a number of 32 bits.\<close>

partial_function (option) strcasecmp_loop :: "mem \<Rightarrow> u64 \<Rightarrow> u64 \<Rightarrow> int option" where
  "strcasecmp_loop m s1 s2 =
     (case strtolower s1 m of (a, t1) \<Rightarrow> case strtolower s2 m of (b, t2) \<Rightarrow>
        if a \<noteq> b then Some (sint (a - b))
        else if m t1 \<noteq> 0 then strcasecmp_loop m t1 t2
        else Some (char_diff m t1 t2))"

definition strcasecmp :: "u64 \<Rightarrow> u64 \<Rightarrow> mem \<Rightarrow> int option" where
  "strcasecmp s1 s2 m = (if s1 \<noteq> 0 \<and> s2 \<noteq> 0 \<and> s1 \<noteq> s2 then strcasecmp_loop m s1 s2 else Some 0)"

partial_function (option) strncasecmp_loop :: "mem \<Rightarrow> u64 \<Rightarrow> u64 \<Rightarrow> u64 \<Rightarrow> int option" where
  "strncasecmp_loop m e s1 s2 =
     (case strtolower s1 m of (a, t1) \<Rightarrow> case strtolower s2 m of (b, t2) \<Rightarrow>
        if a \<noteq> b then Some (sint (a - b))
        else if a \<noteq> 0 \<and> t1 < e then strncasecmp_loop m e t1 t2
        else Some (char_diff m t1 t2))"

definition strncasecmp :: "u64 \<Rightarrow> u64 \<Rightarrow> u64 \<Rightarrow> mem \<Rightarrow> int option" where
  "strncasecmp s1 s2 n m =
     (if s1 \<noteq> 0 \<and> s2 \<noteq> 0 \<and> s1 \<noteq> s2 \<and> 0 < n then strncasecmp_loop m (s1 + n) s1 s2 else Some 0)"

section \<open>Copying\<close>

text \<open>The copying functions answer the address of the closing zero, not the start of the result.\<close>

partial_function (option) strcpy_loop :: "u64 \<Rightarrow> u64 \<Rightarrow> mem \<Rightarrow> (u64 \<times> mem) option" where
  "strcpy_loop dst src m =
     (if m src \<noteq> 0 then strcpy_loop (dst + 1) (src + 1) (m(dst := m src)) else Some (dst, m(dst := 0)))"

definition strcpy :: "u64 \<Rightarrow> u64 \<Rightarrow> mem \<Rightarrow> (u64 \<times> mem) option" where
  "strcpy dst src m = (if src \<noteq> 0 \<and> dst \<noteq> 0 then strcpy_loop dst src m else Some (dst, m))"

definition strcat :: "u64 \<Rightarrow> u64 \<Rightarrow> mem \<Rightarrow> (u64 \<times> mem) option" where
  "strcat dst src m =
     (if src \<noteq> 0 \<and> dst \<noteq> 0 then Option.bind (strlen dst m) (\<lambda>l. strcpy_loop (dst + l) src m) else Some (dst, m))"

definition strncat :: "u64 \<Rightarrow> u64 \<Rightarrow> u64 \<Rightarrow> mem \<Rightarrow> (u64 \<times> mem) option" where
  "strncat dst src n m =
     (if src \<noteq> 0 \<and> dst \<noteq> 0 \<and> 0 < n
      then Option.bind (strlen dst m) (\<lambda>l. strncpy_loop (src + n) (dst + l) src m) else Some (dst, m))"

text \<open>
  Copies in lower case append each character with \<^verbatim>\<open>strcat\<close>, so they continue whatever string stands at the
  destination.
\<close>

definition strcat_char :: "u64 \<Rightarrow> u32 \<Rightarrow> mem \<Rightarrow> (u64 \<times> mem) option" where
  "strcat_char dst l m =
     (let b = takeWhile (\<lambda>x. x \<noteq> 0) (le32 l) in
      if dst \<noteq> 0 then map_option (\<lambda>k. (dst + k + of_nat (length b), put_bytes (dst + k) (b @ [0]) m)) (strlen dst m)
      else Some (dst, m))"

partial_function (option) casecpy_loop :: "u64 option \<Rightarrow> u64 \<Rightarrow> u64 \<Rightarrow> mem \<Rightarrow> (u64 \<times> mem) option" where
  "casecpy_loop e dst src m =
     (if m src \<noteq> 0 \<and> (case e of None \<Rightarrow> True | Some e \<Rightarrow> src < e)
      then case strtolower src m of (l, src') \<Rightarrow>
        Option.bind (strcat_char dst l m) (\<lambda>r. casecpy_loop e (fst r) src' (snd r))
      else Some (dst, m))"

definition strcasecpy :: "u64 \<Rightarrow> u64 \<Rightarrow> mem \<Rightarrow> (u64 \<times> mem) option" where
  "strcasecpy dst src m = (if src \<noteq> 0 \<and> dst \<noteq> 0 then casecpy_loop None dst src m else Some (dst, m))"

definition strncasecpy :: "u64 \<Rightarrow> u64 \<Rightarrow> u64 \<Rightarrow> mem \<Rightarrow> (u64 \<times> mem) option" where
  "strncasecpy dst src n m =
     (if src \<noteq> 0 \<and> dst \<noteq> 0 \<and> 0 < n then casecpy_loop (Some (src + n)) dst src m else Some (dst, m))"

text \<open>A length kept in an \<^verbatim>\<open>int\<close> and passed as a size again.\<close>

definition int_size :: "u64 \<Rightarrow> u64" where
  "int_size n = scast (ucast n :: u32)"

type_synonym alloc = "u64 \<Rightarrow> mem \<Rightarrow> u64 \<times> mem"

definition strdup :: "alloc \<Rightarrow> u64 \<Rightarrow> mem \<Rightarrow> (u64 \<times> mem) option" where
  "strdup malloc s m =
     Option.bind (strlen s m) (\<lambda>l. let i = int_size (l + 1) in
       case malloc i m of (s2, m) \<Rightarrow> Some (s2, if s2 \<noteq> 0 then snd (memcpy s2 s i m) else m))"

definition strndup :: "alloc \<Rightarrow> u64 \<Rightarrow> u64 \<Rightarrow> mem \<Rightarrow> u64 \<times> mem" where
  "strndup malloc s n m =
     (let i = int_size (strnlen s n m) in
      case malloc (int_size (i + 1)) m of (s2, m) \<Rightarrow>
        (s2, if s2 \<noteq> 0 then (snd (memcpy s2 s i m))(s2 + i := 0) else m))"

definition strcasedup :: "alloc \<Rightarrow> u64 \<Rightarrow> mem \<Rightarrow> (u64 \<times> mem) option" where
  "strcasedup malloc s m =
     Option.bind (strlen s m) (\<lambda>l. case malloc (int_size (l + 1)) m of (s2, m) \<Rightarrow>
       if s2 \<noteq> 0 then map_option (\<lambda>r. (s2, snd r)) (casecpy_loop None s2 s m) else Some (s2, m))"

text \<open>The length only limits the room for the copy, not the copy.\<close>

definition strncasedup :: "alloc \<Rightarrow> u64 \<Rightarrow> u64 \<Rightarrow> mem \<Rightarrow> (u64 \<times> mem) option" where
  "strncasedup malloc s n m =
     (case malloc (int_size (strnlen s n m + 1)) m of (s2, m) \<Rightarrow>
       if s2 \<noteq> 0 then map_option (\<lambda>r. (s2, snd r)) (casecpy_loop None s2 s m) else Some (s2, m))"

section \<open>Searching\<close>

text \<open>The bytes of a character that was packed into a number.\<close>

definition char_len :: "u32 \<Rightarrow> nat" where
  "char_len c = 1 + unat (utf8_skip (ucast c))"

definition strchr :: "u64 \<Rightarrow> u32 \<Rightarrow> mem \<Rightarrow> u64 option" where
  "strchr s c m =
     (if s \<noteq> 0 then map_option (\<lambda>l. mem_find s l (take (char_len c) (le32 c)) m) (strlen s m) else Some 0)"

text \<open>The search from the end moves the wrong pointer: the same place is compared until the start has wrapped.\<close>

function strrchr_loop :: "mem \<Rightarrow> u8 list \<Rightarrow> u64 \<Rightarrow> u64 \<Rightarrow> u64" where
  "strrchr_loop m b e s =
     (if s < e then if bytes_at m e (length b) = b then e
        else strrchr_loop m b e (s - 1)
      else 0)"
  by auto
termination
proof (relation "measure (\<lambda>(m, b, e, s). if s < e then Suc (unat s) else 0)", goal_cases)
  case (2 m b e s)
  have "unat (s - 1) = unat s - 1" if "s \<noteq> 0" using that by (rule unat_minus_one)
  then show ?case using 2 by (cases "s = 0") (auto simp: not_less unat_gt_0)
qed simp

declare strrchr_loop.simps [simp del]

definition strrchr :: "u64 \<Rightarrow> u32 \<Rightarrow> mem \<Rightarrow> u64 option" where
  "strrchr s c m =
     (if s \<noteq> 0
      then map_option (\<lambda>l. strrchr_loop m (take (char_len c) (le32 c)) (s + l - of_nat (char_len c)) s) (strlen s m)
      else Some 0)"

definition strstr :: "u64 \<Rightarrow> u64 \<Rightarrow> mem \<Rightarrow> u64 option" where
  "strstr hay needle m =
     Option.bind (strlen hay m) (\<lambda>hl. map_option (\<lambda>nl. memmem hay hl needle nl m) (strlen needle m))"

definition strrstr :: "u64 \<Rightarrow> u64 \<Rightarrow> mem \<Rightarrow> u64 option" where
  "strrstr hay needle m =
     Option.bind (strlen hay m) (\<lambda>hl. map_option (\<lambda>nl. memrmem hay hl needle nl m) (strlen needle m))"

primrec case_search :: "mem \<Rightarrow> u64 \<Rightarrow> u64 \<Rightarrow> u64 \<Rightarrow> nat \<Rightarrow> u64 \<Rightarrow> u64 option" where
  "case_search m needle nl step 0 c = Some 0"
| "case_search m needle nl step (Suc hl) c =
     Option.bind (strncasecmp c needle nl m)
       (\<lambda>r. if r = 0 then Some c else case_search m needle nl step hl (c + step))"

definition case_find :: "bool \<Rightarrow> u64 \<Rightarrow> u64 \<Rightarrow> mem \<Rightarrow> u64 option" where
  "case_find back hay needle m =
     Option.bind (strlen hay m) (\<lambda>hl. Option.bind (strlen needle m) (\<lambda>nl.
       if hay = 0 \<or> needle = 0 \<or> hl = 0 \<or> nl = 0 \<or> hl < nl then Some 0
       else case_search m needle nl (if back then - 1 else 1) (unat (hl - nl)) (if back then hay + (hl - nl) else hay)))"

definition strcasestr :: "u64 \<Rightarrow> u64 \<Rightarrow> mem \<Rightarrow> u64 option" where
  "strcasestr = case_find False"

definition strrcasestr :: "u64 \<Rightarrow> u64 \<Rightarrow> mem \<Rightarrow> u64 option" where
  "strrcasestr = case_find True"

section \<open>Parts of a path\<close>

text \<open>
  The positions are signed numbers of 32 bits. The copy stops one byte short of the part that was found, and
  relies on the allocator for its closing zero.
\<close>

definition at_int :: "mem \<Rightarrow> u64 \<Rightarrow> u32 \<Rightarrow> u8" where
  "at_int m s i = m (s + scast i)"

partial_function (option) name_start :: "mem \<Rightarrow> u64 \<Rightarrow> u32 \<Rightarrow> u32 option" where
  "name_start m s i = (if 1 <s i \<and> at_int m s (i - 1) \<noteq> 47 then name_start m s (i - 1) else Some i)"

partial_function (option) last_slash :: "mem \<Rightarrow> u64 \<Rightarrow> u32 \<Rightarrow> u32 option" where
  "last_slash m s i = (if 0 <s i \<and> at_int m s i \<noteq> 47 then last_slash m s (i - 1) else Some i)"

definition path_end :: "mem \<Rightarrow> u64 \<Rightarrow> u32 option" where
  "path_end m s = map_option (\<lambda>l. let e = ucast (l - 1) in if at_int m s e = 47 then e - 1 else e) (strlen s m)"

definition basename :: "alloc \<Rightarrow> u64 \<Rightarrow> mem \<Rightarrow> (u64 \<times> mem) option" where
  "basename malloc s m =
     (if s = 0 then Some (0, m)
      else Option.bind (path_end m s) (\<lambda>e. Option.bind (name_start m s e) (\<lambda>i.
        if i = e then Some (0, m)
        else case malloc (scast (e - i + 1)) m of (r, m) \<Rightarrow> Some (r, snd (memcpy r (s + scast i) (scast (e - i)) m)))))"

definition dirname :: "alloc \<Rightarrow> u64 \<Rightarrow> mem \<Rightarrow> (u64 \<times> mem) option" where
  "dirname malloc s m =
     (if s = 0 then Some (0, m)
      else Option.bind (path_end m s) (\<lambda>e. Option.bind (last_slash m s e) (\<lambda>i.
        if i = e \<or> i = 0 then Some (0, m)
        else case malloc (scast i) m of (r, m) \<Rightarrow> Some (r, snd (memcpy r s (scast (i - 1)) m)))))"

section \<open>Tokens\<close>

text \<open>
  The two searches for a delimiter: the first one ends at the closing zero of the delimiters without a match,
  the second one takes it as a delimiter.
\<close>

partial_function (option) is_delim :: "mem \<Rightarrow> u64 \<Rightarrow> u8 \<Rightarrow> bool option" where
  "is_delim m sp c = (if m sp = 0 then Some False else if m sp = c then Some True else is_delim m (sp + 1) c)"

partial_function (option) ends_token :: "mem \<Rightarrow> u64 \<Rightarrow> u8 \<Rightarrow> bool option" where
  "ends_token m sp c = (if m sp = c then Some True else if m sp = 0 then Some False else ends_token m (sp + 1) c)"

text \<open>
  A token starts at \<open>tok\<close>, and \<open>s\<close> is behind its last character. The answer is the token, the place to go on
  at, and the memory with the delimiter replaced by a zero.
\<close>

partial_function (option) token_end :: "u64 \<Rightarrow> u64 \<Rightarrow> u64 \<Rightarrow> mem \<Rightarrow> (u64 \<times> u64 \<times> mem) option" where
  "token_end d tok s m =
     Option.bind (ends_token m d (m s)) (\<lambda>fin.
       if fin then Some (if m s = 0 then (tok, 0, m) else (tok, s + 1, m(s := 0)))
       else token_end d tok (s + 1) m)"

partial_function (option) token_start :: "u64 \<Rightarrow> bool \<Rightarrow> u64 \<Rightarrow> mem \<Rightarrow> (u64 \<times> u64 \<times> mem) option" where
  "token_start d skip s m =
     Option.bind (is_delim m d (m s)) (\<lambda>del.
       if del then if skip then token_start d skip (s + 1) m else Some (s, s + 1, m(s := 0))
       else if m s = 0 then Some (0, 0, m)
       else token_end d s (s + 1) m)"

definition strtok_rest :: "u64 \<Rightarrow> u64 \<Rightarrow> u64 \<Rightarrow> bool \<Rightarrow> mem \<Rightarrow> (u64 \<times> u64 \<times> mem) option" where
  "strtok_rest s d p skip m =
     (if d = 0 \<or> s = 0 \<and> p = 0 then Some (0, p, m) else token_start d skip (if s = 0 then p else s) m)"

definition strtok :: "u64 \<Rightarrow> u64 \<Rightarrow> mem \<Rightarrow> (u64 \<times> mem) option" where
  "strtok s delim m = map_option (\<lambda>(t, p, m). (t, m)) (strtok_rest s delim s True m)"

definition strtok_r :: "u64 \<Rightarrow> u64 \<Rightarrow> u64 \<Rightarrow> mem \<Rightarrow> (u64 \<times> u64 \<times> mem) option" where
  "strtok_r s delim p m = strtok_rest s delim p True m"

definition strsep :: "u64 \<Rightarrow> u64 \<Rightarrow> mem \<Rightarrow> (u64 \<times> u64 \<times> mem) option" where
  "strsep stringp delim m = strtok_rest stringp delim stringp False m"

section \<open>UTF-8\<close>

lemma utf8_consts:
  "(0x7::u32) = mask 3" "(0xF::u32) = mask 4" "(0x1F::u32) = mask 5" "(0x3F::u32) = mask 6"
  "(0x80::u32) = push_bit 6 2" "(0xC0::u32) = push_bit 5 6" "(0xE0::u32) = push_bit 4 14" "(0xF0::u32) = push_bit 3 30"
  by (simp_all add: mask_eq_exp_minus_1)

lemma utf8_payload:
  "k \<le> 8 \<Longrightarrow> ucast (ucast ((x AND mask k) OR push_bit k y) :: u8) AND mask k = x AND mask k" for x y :: u32
  by (rule bit_word_eqI) (auto simp: bit_simps)

lemma join_bits: "push_bit i (drop_bit i u AND mask j) OR (u AND mask i) = u AND mask (i + j)" for u :: u32
  by (rule bit_word_eqI) (auto simp: bit_simps)

lemma join_bits_shift:
  "push_bit (i + k) (drop_bit (i + k) u AND mask j) OR push_bit k (drop_bit k u AND mask i) =
   push_bit k (drop_bit k u AND mask (i + j))" for u :: u32
proof (rule bit_word_eqI, goal_cases)
  case (1 n)
  then show ?case by (cases "i + k \<le> n") (auto simp: bit_simps)
qed

text \<open>The tests on the first byte of a character, as tests of single bits.\<close>

lemma byte_tests:
  "b AND 128 = 0 \<longleftrightarrow> \<not> bit b 7" "b AND 32 = 0 \<longleftrightarrow> \<not> bit b 5" "b AND 16 = 0 \<longleftrightarrow> \<not> bit b 4" "b AND 8 = 0 \<longleftrightarrow> \<not> bit b 3"
  for b :: u8
  using and_exp_eq_0_iff_not_bit [of b 7] and_exp_eq_0_iff_not_bit [of b 5] and_exp_eq_0_iff_not_bit [of b 4]
    and_exp_eq_0_iff_not_bit [of b 3] by simp_all

lemma utf8_parts:
  "ucast (ucast ((x AND 0x3F) OR 0x80) :: u8) AND 0x3F = x AND 0x3F"
  "ucast (ucast ((x AND 0x1F) OR 0xC0) :: u8) AND 0x1F = x AND 0x1F"
  "ucast (ucast ((x AND 0xF) OR 0xE0) :: u8) AND 0xF = x AND 0xF"
  "ucast (ucast ((x AND 0x7) OR 0xF0) :: u8) AND 0x7 = x AND 0x7" for x :: u32
  unfolding utf8_consts by (rule utf8_payload; simp)+

lemma utf8_two:
  "u < 0x800 \<Longrightarrow> push_bit 6 (drop_bit 6 u AND 0x1F) OR (u AND 0x3F) = u" for u :: u32
  unfolding utf8_consts using join_bits [of 6 u 5] less_mask_eq [of u 11] by simp

lemma utf8_three:
  "u < 0x10000 \<Longrightarrow>
   push_bit 12 (drop_bit 12 u AND 0xF) OR push_bit 6 (drop_bit 6 u AND 0x3F) OR (u AND 0x3F) = u" for u :: u32
  unfolding utf8_consts using join_bits [of 6 u 10] join_bits_shift [of 6 6 u 4] less_mask_eq [of u 16]
  by (simp add: or.assoc [symmetric])

lemma utf8_four:
  "u < 0x200000 \<Longrightarrow>
   push_bit 18 (drop_bit 18 u AND 0x7) OR push_bit 12 (drop_bit 12 u AND 0x3F) OR
     push_bit 6 (drop_bit 6 u AND 0x3F) OR (u AND 0x3F) = u" for u :: u32
  unfolding utf8_consts
  using join_bits [of 6 u 15] join_bits_shift [of 6 6 u 9] join_bits_shift [of 6 12 u 3] less_mask_eq [of u 21]
  by (simp add: or.assoc [symmetric])

lemma chr_reads:
  assumes "i \<le> length (utf8_bytes u)"
  shows "put_bytes s (utf8_bytes u @ [0]) m (s + of_nat i) = (utf8_bytes u @ [0]) ! i"
  using assms by (intro put_bytes_inside) (auto simp: utf8_bytes_def)

lemma utf8_first_zero: "length (utf8_bytes u) \<noteq> 0" "utf8_bytes u ! 0 = 0 \<longleftrightarrow> u = 0"
proof -
  have n: "ucast ((x AND a) OR b) \<noteq> (0 :: u8)" if "bit b 7" for x a b :: u32
    using that by (auto simp: bit_eq_iff bit_simps intro!: exI [of _ 7])
  have "ucast u = (0 :: u8) \<longleftrightarrow> u = 0" if "u < 0x80" using that by transfer (simp add: take_bit_eq_mod)
  with n show "utf8_bytes u ! 0 = 0 \<longleftrightarrow> u = 0" by (auto simp: utf8_bytes_def)
qed (simp add: utf8_bytes_def)

lemma ord_chr:
  assumes u: "u < 0x200000" and m': "m' = put_bytes s (utf8_bytes u @ [0]) m"
  shows "ord s m' = (u, s + of_nat (length (utf8_bytes u))) \<and> utf8_skip (m' s) + 1 = of_nat (length (utf8_bytes u))"
proof -
  have r: "m' s = (utf8_bytes u @ [0]) ! 0"
    "1 \<le> length (utf8_bytes u) \<Longrightarrow> m' (s + 1) = (utf8_bytes u @ [0]) ! 1"
    "2 \<le> length (utf8_bytes u) \<Longrightarrow> m' (s + 2) = (utf8_bytes u @ [0]) ! 2"
    "3 \<le> length (utf8_bytes u) \<Longrightarrow> m' (s + 3) = (utf8_bytes u @ [0]) ! 3"
    using chr_reads [of 0 u s m] chr_reads [of 1 u s m] chr_reads [of 2 u s m] chr_reads [of 3 u s m]
    by (simp_all add: m')
  consider "u < 0x80" | "\<not> u < 0x80" "u < 0x800" | "\<not> u < 0x80" "\<not> u < 0x800" "u < 0x10000"
    | "\<not> u < 0x80" "\<not> u < 0x800" "\<not> u < 0x10000" by blast
  then show ?thesis
  proof cases
    case 1
    then have b: "utf8_bytes u = [ucast u]" by (simp add: utf8_bytes_def)
    have k: "u AND mask 7 = u" using 1 less_mask_eq [of u 7] by simp
    have h: "n < 7" if "bit u n" for n using that arg_cong [OF k, of "\<lambda>x. bit x n"] by (simp add: bit_simps)
    have "ucast (ucast u :: u8) = u" by (rule bit_word_eqI) (auto simp: bit_simps dest: h)
    moreover have "\<not> bit u 7" using h [of 7] by auto
    ultimately show ?thesis using b r(1) by (simp add: ord_def utf8_skip_def byte_tests bit_simps)
  next
    case 2
    then have b: "utf8_bytes u = [ucast ((drop_bit 6 u AND 0x1F) OR 0xC0), ucast ((u AND 0x3F) OR 0x80)]"
      by (auto simp: utf8_bytes_def)
    have "bit (m' s) 7" "\<not> bit (m' s) 5" using r(1) by (simp_all add: b bit_simps)
    then show ?thesis using r(1,2) b utf8_two [OF 2(2)] by (simp add: ord_def utf8_skip_def byte_tests utf8_parts del: push_bit_and)
  next
    case 3
    then have b: "utf8_bytes u = [ucast ((drop_bit 12 u AND 0xF) OR 0xE0), ucast ((drop_bit 6 u AND 0x3F) OR 0x80),
      ucast ((u AND 0x3F) OR 0x80)]"
      by (auto simp: utf8_bytes_def)
    have "bit (m' s) 7" "bit (m' s) 5" "\<not> bit (m' s) 4" using r(1) by (simp_all add: b bit_simps)
    then show ?thesis using r(1-3) b utf8_three [OF 3(3)] by (simp add: ord_def utf8_skip_def byte_tests utf8_parts del: push_bit_and)
  next
    case 4
    then have b: "utf8_bytes u = [ucast ((drop_bit 18 u AND 0x7) OR 0xF0), ucast ((drop_bit 12 u AND 0x3F) OR 0x80),
      ucast ((drop_bit 6 u AND 0x3F) OR 0x80), ucast ((u AND 0x3F) OR 0x80)]"
      by (auto simp: utf8_bytes_def)
    have "bit (m' s) 7" "bit (m' s) 5" "bit (m' s) 4" "\<not> bit (m' s) 3" using r(1) by (simp_all add: b bit_simps)
    then show ?thesis using r b utf8_four [OF u] by (simp add: ord_def utf8_skip_def byte_tests utf8_parts del: push_bit_and)
  qed
qed

text \<open>A packed character, as \<^verbatim>\<open>strtolower\<close> returns it, has the bytes of its code point in memory order.\<close>

lemma le32_pack:
  "le32 (push_bit 24 (ucast a) OR push_bit 16 (ucast b) OR push_bit 8 (ucast c) OR ucast d) = [d, c, b, a]"
  for a b c d :: u8
  unfolding le32_def
  by (simp add: upt_rec) (intro conjI bit_word_eqI; auto simp: bit_simps dest: bit_imp_le_length)

lemma low_byte: "ucast (ucast ((x AND mask k) OR y) :: u8) = (x AND mask k) OR y" if "k \<le> 8" "y < 256" for x y :: u32
proof -
  have y: "n < 8" if "bit y n" for n
    using arg_cong [OF less_mask_eq [of y 8], of "\<lambda>x. bit x n"] \<open>y < 256\<close> that by (simp add: bit_simps)
  show ?thesis using \<open>k \<le> 8\<close> by (intro bit_word_eqI) (auto simp: bit_simps dest: y)
qed

lemma replicate_zeros: "replicate 3 x = [x, x, x]" "replicate 2 x = [x, x]"
  by (simp_all add: numeral_eq_Suc)

lemma le32_utf8_pack: "le32 (utf8_pack c) = utf8_bytes c @ replicate (4 - length (utf8_bytes c)) 0"
proof -
  let ?w = "\<lambda>k x y. ucast ((x AND mask k) OR y :: u32) :: u8"
  have one: "ucast (ucast c :: u8) = c" if "c < 0x80"
    using low_byte [of 0 c c] less_trans [OF that, of 256] by simp
  note b = low_byte [of 6] low_byte [of 5] low_byte [of 4] low_byte [of 3]
  consider "c < 0x80" | "\<not> c < 0x80" "c < 0x800" | "\<not> c < 0x80" "\<not> c < 0x800" "c < 0x10000"
    | "\<not> c < 0x80" "\<not> c < 0x800" "\<not> c < 0x10000" by blast
  then show ?thesis
  proof cases
    case 1
    then show ?thesis using le32_pack [of 0 0 0 "ucast c"] one by (simp add: utf8_pack_def utf8_bytes_def replicate_zeros)
  next
    case 2
    then show ?thesis
      using le32_pack [of 0 0 "?w 6 c 0x80" "?w 5 (drop_bit 6 c) 0xC0"] b
      by (simp add: utf8_pack_def utf8_bytes_def utf8_consts(1-4) replicate_zeros)
  next
    case 3
    then show ?thesis
      using le32_pack [of 0 "?w 6 c 0x80" "?w 6 (drop_bit 6 c) 0x80" "?w 4 (drop_bit 12 c) 0xE0"] b
      by (simp add: utf8_pack_def utf8_bytes_def utf8_consts(1-4) replicate_zeros)
  next
    case 4
    then show ?thesis
      using le32_pack [of "?w 6 c 0x80" "?w 6 (drop_bit 6 c) 0x80" "?w 6 (drop_bit 12 c) 0x80" "?w 3 (drop_bit 18 c) 0xF0"] b
      by (simp add: utf8_pack_def utf8_bytes_def utf8_consts(1-4) replicate_zeros)
  qed
qed

text \<open>
  C26. Characters survive UTF-8: what \<^verbatim>\<open>chr\<close> writes is read back by \<^verbatim>\<open>ord\<close> as the same code point, up to the 21 bits
  the encoding has room for, with both pointers at the closing zero. The text counts as one character, no
  other byte of memory changes, and the packed form that the functions without regard to case use has the same bytes.
\<close>

theorem utf8_roundtrip:
  assumes u: "u < 0x200000"
  shows "case chr s u m of (e, m') \<Rightarrow> ord s m' = (u, e) \<and> m' e = 0 \<and> e - s \<le> 4 \<and>
    mbstrlen_loop m' s 0 = Some (if u = 0 then 0 else 1) \<and>
    (\<forall>x. e - s < x - s \<longrightarrow> m' x = m x) \<and>
    take (unat (e - s)) (le32 (utf8_pack u)) = bytes_at m' s (unat (e - s))"
proof -
  define bs where "bs = utf8_bytes u"
  define m' where "m' = put_bytes s (bs @ [0]) m"
  define e where "e = s + of_nat (length bs)"
  have len: "1 \<le> length bs" "length bs \<le> 4" by (simp_all add: bs_def utf8_bytes_def)
  have es: "e - s = of_nat (length bs)" "unat (e - s) = length bs"
    using len unat_of_nat_u64 [of "length bs"] by (simp_all add: e_def)
  have o: "ord s m' = (u, e)" "utf8_skip (m' s) + 1 = of_nat (length bs)"
    using ord_chr [OF u, of m' s m] by (simp_all add: m'_def bs_def e_def)
  have z: "m' e = 0" using chr_reads [of "length bs" u s m] by (simp add: m'_def bs_def e_def)
  have "m' s = 0 \<longleftrightarrow> u = 0" using chr_reads [of 0 u s m] utf8_first_zero [of u] by (simp add: m'_def bs_def nth_append)
  moreover have "s + utf8_skip (m' s) + 1 = e" using o(2) by (simp add: e_def add.assoc)
  ultimately have "mbstrlen_loop m' s 0 = Some (if u = 0 then 0 else 1)"
    using z by (simp add: mbstrlen_loop.simps [of m' s] mbstrlen_loop.simps [of m' e])
  moreover have "m' x = m x" if "e - s < x - s" for x
    using that es len unfolding m'_def by (intro put_bytes_outside) (simp add: word_less_nat_alt)
  moreover have "bytes_at m' s (length bs) = bs"
    using chr_reads [of _ u s m] by (simp add: list_eq_iff_nth_eq m'_def bs_def nth_append)
  ultimately show ?thesis
    using o z es len by (simp add: chr_def m'_def bs_def e_def le32_utf8_pack word_le_nat_alt)
qed

theorem utf8_roundtrip_witness:
  "case chr 64 0x20AC (\<lambda>_. 0) of (e, m') \<Rightarrow> ord 64 m' = (0x20AC, e) \<and> mbstrlen_loop m' 64 0 = Some 1"
  using utf8_roundtrip [where u = "0x20AC" and s = 64 and m = "\<lambda>_. 0"] by (simp split: prod.splits)

section \<open>Defects\<close>

declare strlen_loop.simps [code] name_start.simps [code] last_slash.simps [code]

definition sample_text :: "string \<Rightarrow> mem" where
  "sample_text t a = (if 64 \<le> a \<and> unat (a - 64) < length t then of_char (t ! unat (a - 64)) else 0)"

text \<open>Moving a block to the front by less than its length destroys it: the last byte is copied over and over.\<close>

lemma memmove_down_wrong:
  "bytes_at (snd (memmove 64 65 3 (sample_text ''abcd''))) 64 4 = chars ''dddd''"
  by code_simp

text \<open>The place at the very end is never looked at, and searching from the end skips the first byte.\<close>

lemma mem_find_skips_end:
  "mem_find 64 4 (chars ''cd'') (sample_text ''abcd'') = 0"
  "mem_find 64 4 (chars ''abcd'') (sample_text ''abcd'') = 0"
  "memrchr 64 (of_char (CHR ''a'')) 4 (sample_text ''abcd'') = 0"
  by code_simp+

text \<open>Both parts of a path lose their last character.\<close>

lemma path_parts_short:
  "map_option (\<lambda>(r, m). bytes_at m r 3) (basename (\<lambda>n m. (512, m)) 64 (sample_text ''/bin/sh'')) = Some [of_char (CHR ''s''), 0, 0]"
  "map_option (\<lambda>(r, m). bytes_at m r 4) (dirname (\<lambda>n m. (512, m)) 64 (sample_text ''/bin/sh'')) = Some (chars ''/bi'' @ [0])"
  by code_simp+

text \<open>\<^verbatim>\<open>strtok\<close> keeps no place to go on at: a call that continues the last one finds nothing.\<close>

lemma strtok_forgets: "strtok 0 delim m = Some (0, m)"
  by (simp add: strtok_def strtok_rest_def)

end
