(* ===== verification/Libc_Alloc.thy ===== *)
theory Libc_Alloc
  imports Core_Libc Osz_Types
begin

text \<open>
  The memory allocator, \<^verbatim>\<open>libc/bztalloc.c\<close>, as it is compiled for user space. An arena is an array of
  pointers to allocation maps, an allocation map a list of chunks. A chunk of a quantum below 2M holds 512
  units with one bit each, a larger one holds a single block whose size is in the first word of the bit map.
  The tables of the allocator are kept apart from the memory it hands out. What the kernel is asked to map or to unmap
  is collected in \<open>h_os\<close>; whether it grants a request to map is the argument \<open>grant\<close>. The lock bit of
  the arena is clear outside of a call and is left out.
\<close>

section \<open>Arenas\<close>

record chunkmap_t =
  cm_quantum :: u64
  cm_ptr :: u64
  cm_map :: "u64 list"

record allocmap_t =
  am_addr :: u64
  am_chunks :: "chunkmap_t list"

datatype oscall = Mmap u64 u64 | Munmap u64 u64

record heap_t =
  h_arena :: u64
  h_count :: u64
  h_maps :: "nat \<Rightarrow> allocmap_t option"
  h_mem :: mem
  h_errno :: u64
  h_os :: "oscall list"

definition ALLOCSIZE :: u64 where "ALLOCSIZE = SLOTSIZE"
definition ARENASIZE :: u64 where "ARENASIZE = ALLOCSIZE"
definition MAXARENA :: nat where "MAXARENA = 262143"
definition BITMAPSIZE :: nat where "BITMAPSIZE = 8"
definition MAXCHUNKS :: nat where "MAXCHUNKS = (2097152 - 8) div 80"

lemmas alloc_defs = ALLOCSIZE_def ARENASIZE_def SLOTSIZE_def PAGESIZE_def BITMAPSIZE_def MAXCHUNKS_def

definition numallocmaps :: "heap_t \<Rightarrow> u64" where
  "numallocmaps h = h_count h AND 0x7FFFFFFFF"

definition chunksize :: "u64 \<Rightarrow> u64" where
  "chunksize q = (q * of_nat BITMAPSIZE * 8 * 8 div PAGESIZE) * PAGESIZE"

definition chunk_len :: "chunkmap_t \<Rightarrow> u64" where
  "chunk_len c = (if cm_quantum c < ALLOCSIZE then chunksize (cm_quantum c) else cm_map c ! 0)"

definition chunk_end :: "chunkmap_t \<Rightarrow> u64" where
  "chunk_end c = cm_ptr c + chunk_len c"

definition in_chunk :: "u64 \<Rightarrow> chunkmap_t \<Rightarrow> bool" where
  "in_chunk p c \<longleftrightarrow> cm_ptr c \<le> p \<and> p < chunk_end c"

definition no_memory :: "heap_t \<Rightarrow> heap_t" where
  "no_memory h = h\<lparr>h_errno := ENOMEM\<rparr>"

definition mmap :: "(u64 \<Rightarrow> u64 \<Rightarrow> bool) \<Rightarrow> u64 \<Rightarrow> u64 \<Rightarrow> heap_t \<Rightarrow> bool \<times> heap_t" where
  "mmap grant p n h = (grant p n, h\<lparr>h_os := h_os h @ [Mmap p n]\<rparr>)"

definition munmap :: "u64 \<Rightarrow> u64 \<Rightarrow> heap_t \<Rightarrow> heap_t" where
  "munmap p n h = h\<lparr>h_os := h_os h @ [Munmap p n]\<rparr>"

definition upd_chunks :: "nat \<Rightarrow> (chunkmap_t list \<Rightarrow> chunkmap_t list) \<Rightarrow> heap_t \<Rightarrow> heap_t" where
  "upd_chunks i f h = h\<lparr>h_maps := (h_maps h)(i := map_option (\<lambda>am. am\<lparr>am_chunks := f (am_chunks am)\<rparr>) (h_maps h i))\<rparr>"

definition chunk_at :: "heap_t \<Rightarrow> nat \<Rightarrow> nat \<Rightarrow> chunkmap_t option" where
  "chunk_at h i j =
     (case h_maps h i of Some am \<Rightarrow> if j < length (am_chunks am) then Some (am_chunks am ! j) else None | None \<Rightarrow> None)"

section \<open>Bit maps\<close>

definition unit_used :: "u64 list \<Rightarrow> nat \<Rightarrow> bool" where
  "unit_used m k = bit (m ! (k div 64)) (k mod 64)"

definition set_unit :: "nat \<Rightarrow> chunkmap_t \<Rightarrow> chunkmap_t" where
  "set_unit k c = c\<lparr>cm_map := update_at (k div 64) (\<lambda>w. set_bit (k mod 64) w) (cm_map c)\<rparr>"

definition clear_unit :: "nat \<Rightarrow> chunkmap_t \<Rightarrow> chunkmap_t" where
  "clear_unit k c = c\<lparr>cm_map := update_at (k div 64) (\<lambda>w. unset_bit (k mod 64) w) (cm_map c)\<rparr>"

text \<open>The first free unit, among those whose number is a multiple of the step.\<close>

definition free_unit :: "u64 list \<Rightarrow> nat \<Rightarrow> nat option" where
  "free_unit m sf = find (\<lambda>k. \<not> unit_used m k) (filter (\<lambda>k. k mod sf = 0) [0..<BITMAPSIZE * 64])"

section \<open>Releasing\<close>

text \<open>
  The units in use are not counted: the words of the bit map are added up, in 64 bits when a block is freed
  (\<open>wide\<close>), in 32 when it is reallocated. A chunk whose sum is zero is given back. \<open>n\<close> is the number of chunks
  the code compares with, which is that of the map it looked at last.
\<close>

definition words_sum :: "bool \<Rightarrow> u64 list \<Rightarrow> u64" where
  "words_sum wide m = (if wide then sum_list m else ucast (ucast (sum_list m) :: u32))"

definition drop_chunk :: "nat \<Rightarrow> nat \<Rightarrow> chunkmap_t list \<Rightarrow> chunkmap_t list" where
  "drop_chunk n j cs = (if j + 1 < n then take j cs @ drop (j + 1) cs else butlast cs)"

definition remove_chunk :: "nat \<Rightarrow> nat \<Rightarrow> nat \<Rightarrow> heap_t \<Rightarrow> heap_t" where
  "remove_chunk n i j h =
     (let h = upd_chunks i (drop_chunk n j) h in
      case h_maps h i of
        Some am \<Rightarrow>
          if am_chunks am = []
          then let h = munmap (am_addr am) ALLOCSIZE h in h\<lparr>h_maps := (h_maps h)(i := None), h_count := h_count h - 1\<rparr>
          else h
      | None \<Rightarrow> h)"

definition release :: "bool \<Rightarrow> nat \<Rightarrow> nat \<Rightarrow> nat \<Rightarrow> chunkmap_t \<Rightarrow> u64 \<Rightarrow> heap_t \<Rightarrow> heap_t" where
  "release wide n i j c ptr h =
     (if cm_quantum c < ALLOCSIZE
      then
        let c = clear_unit (unat ((ptr - cm_ptr c) div cm_quantum c)) c;
            h = upd_chunks i (\<lambda>cs. cs[j := c]) h;
            l = words_sum wide (cm_map c);
            h = (if cm_quantum c < PAGESIZE then if l = 0 then munmap (cm_ptr c) (chunksize (cm_quantum c)) h else h
                 else munmap ptr (cm_quantum c) h)
        in if l = 0 then remove_chunk n i j h else h
      else remove_chunk n i j (munmap (cm_ptr c) (cm_map c ! 0) h))"

text \<open>\<^verbatim>\<open>bzt_free\<close>: the loop over the maps, and the first chunk that holds the pointer.\<close>

function free_scan :: "u64 \<Rightarrow> nat \<Rightarrow> nat \<Rightarrow> heap_t \<Rightarrow> (nat \<times> nat \<times> chunkmap_t) option" where
  "free_scan ptr cnt i h =
     (if i < MAXARENA \<and> cnt < unat (numallocmaps h)
      then case h_maps h i of
             None \<Rightarrow> free_scan ptr cnt (Suc i) h
           | Some am \<Rightarrow>
               (case find_index (in_chunk ptr) (am_chunks am) of
                  Some j \<Rightarrow> Some (i, j, am_chunks am ! j)
                | None \<Rightarrow> free_scan ptr (Suc cnt) (Suc i) h)
      else None)"
  by auto
termination
  by (relation "measure (\<lambda>(p, cnt, i, h). MAXARENA - i)") auto

declare free_scan.simps [simp del]

definition bzt_free :: "u64 \<Rightarrow> heap_t \<Rightarrow> heap_t" where
  "bzt_free ptr h =
     (if ptr = 0 then h
      else case free_scan ptr 0 1 h of
             None \<Rightarrow> h\<lparr>h_errno := EFAULT\<rparr>
           | Some (i, j, c) \<Rightarrow>
               release True (case h_maps h i of Some am \<Rightarrow> length (am_chunks am) | None \<Rightarrow> 0) i j c ptr h)"

section \<open>Allocation\<close>

text \<open>The smallest power of two that is large enough. For sizes beyond half of the address space it does not exist.\<close>

partial_function (option) quantum :: "u64 \<Rightarrow> u64 \<Rightarrow> u64 option" where
  "quantum s q = (if q < s then quantum s (push_bit 1 q) else Some q)"

text \<open>
  What the loop over the maps collects: the end of the used area, the lowest chunk, the end of the first
  map (zero is the null pointer), the first map with room, the chunk and unit to use, the chunk of the old block and the last map.
\<close>

record scan_t =
  sc_fp :: u64
  sc_sp :: u64
  sc_lp :: u64
  sc_fc :: nat
  sc_ncm :: "(nat \<times> nat) option"
  sc_sh :: nat
  sc_ocm :: "(nat \<times> nat) option"
  sc_am :: nat

definition scan_chunk :: "u64 \<Rightarrow> u64 \<Rightarrow> u64 \<Rightarrow> nat \<Rightarrow> nat \<Rightarrow> chunkmap_t \<Rightarrow> scan_t \<Rightarrow> scan_t" where
  "scan_chunk a q ptr i j c st =
     (let st = (if cm_quantum c = q \<and> q < ALLOCSIZE \<and> cm_ptr c AND (a - 1) = 0
                then case free_unit (cm_map c) (unat (a div q)) of
                       Some k \<Rightarrow> st\<lparr>sc_ncm := Some (i, j), sc_sh := k\<rparr>
                     | None \<Rightarrow> st
                else st);
          st = (if ptr \<noteq> 0 \<and> in_chunk ptr c then st\<lparr>sc_ocm := Some (i, j)\<rparr> else st);
          st = (if sc_sp st = 0 \<or> cm_ptr c < sc_sp st then st\<lparr>sc_sp := cm_ptr c\<rparr> else st)
      in if sc_fp st < chunk_end c then st\<lparr>sc_fp := chunk_end c\<rparr> else st)"

primrec scan_chunks :: "u64 \<Rightarrow> u64 \<Rightarrow> u64 \<Rightarrow> nat \<Rightarrow> nat \<Rightarrow> chunkmap_t list \<Rightarrow> scan_t \<Rightarrow> scan_t" where
  "scan_chunks a q ptr i j [] st = st"
| "scan_chunks a q ptr i j (c # cs) st = scan_chunks a q ptr i (Suc j) cs (scan_chunk a q ptr i j c st)"

definition scan_map :: "u64 \<Rightarrow> u64 \<Rightarrow> u64 \<Rightarrow> nat \<Rightarrow> allocmap_t \<Rightarrow> scan_t \<Rightarrow> scan_t" where
  "scan_map a q ptr i am st =
     (let e = am_addr am + ALLOCSIZE;
          st = st\<lparr>sc_am := i\<rparr>;
          st = (if sc_fp st < e then st\<lparr>sc_fp := e\<rparr> else st);
          st = (if sc_lp st = 0 \<or> e < sc_lp st then st\<lparr>sc_lp := e\<rparr> else st);
          st = (if sc_fc st = 0 \<and> length (am_chunks am) < MAXCHUNKS then st\<lparr>sc_fc := i\<rparr> else st)
      in scan_chunks a q ptr i 0 (am_chunks am) st)"

function alloc_scan :: "u64 \<Rightarrow> u64 \<Rightarrow> u64 \<Rightarrow> nat \<Rightarrow> nat \<Rightarrow> heap_t \<Rightarrow> scan_t \<Rightarrow> nat \<times> scan_t" where
  "alloc_scan a q ptr cnt i h st =
     (if i < MAXARENA \<and> cnt < unat (numallocmaps h)
      then case h_maps h i of
             None \<Rightarrow> alloc_scan a q ptr cnt (Suc i) h st
           | Some am \<Rightarrow> alloc_scan a q ptr (Suc cnt) (Suc i) h (scan_map a q ptr i am st)
      else (i, st))"
  by auto
termination
  by (relation "measure (\<lambda>(a, q, p, cnt, i, h, st). MAXARENA - i)") auto

declare alloc_scan.simps [simp del]

text \<open>The very first map of an arena.\<close>

definition first_map :: "(u64 \<Rightarrow> u64 \<Rightarrow> bool) \<Rightarrow> heap_t \<Rightarrow> bool \<times> heap_t" where
  "first_map grant h =
     (if numallocmaps h \<noteq> 0 then (True, h)
      else case mmap grant (h_arena h + ARENASIZE) PAGESIZE h of (ok, h) \<Rightarrow>
        if ok
        then (True, h\<lparr>h_count := h_count h + 1,
               h_maps := (h_maps h)(1 \<mapsto> \<lparr>am_addr = h_arena h + ARENASIZE, am_chunks = []\<rparr>)\<rparr>)
        else (False, no_memory h))"

text \<open>A further map when all are full: it is asked for only if the loop ended before the number of maps.\<close>

definition next_map :: "(u64 \<Rightarrow> u64 \<Rightarrow> bool) \<Rightarrow> nat \<Rightarrow> u64 \<Rightarrow> heap_t \<Rightarrow> bool \<times> heap_t" where
  "next_map grant i fp h =
     (if unat (numallocmaps h) \<le> i then (False, no_memory h)
      else case mmap grant fp ALLOCSIZE h of (ok, h) \<Rightarrow>
        if \<not> ok then (False, no_memory h)
        else
          let n = h_count h + 1; h = h\<lparr>h_count := n\<rparr> in
          case (if n * 8 div PAGESIZE \<noteq> (n + 1) * 8 div PAGESIZE then mmap grant (h_arena h + 8 * n) PAGESIZE h else (True, h))
            of (ok, h) \<Rightarrow>
              if ok then (True, h\<lparr>h_maps := (h_maps h)(i \<mapsto> \<lparr>am_addr = fp, am_chunks = []\<rparr>)\<rparr>)
              else (False, no_memory h))"

definition align_up :: "u64 \<Rightarrow> u64 \<Rightarrow> u64" where
  "align_up p a = ((p + a - 1) div a) * a"

text \<open>A new chunk at the end of map \<open>fc\<close>. It stays in the map when the kernel refuses the memory for it.\<close>

definition new_chunk :: "(u64 \<Rightarrow> u64 \<Rightarrow> bool) \<Rightarrow> bool \<Rightarrow> u64 \<Rightarrow> nat \<Rightarrow> u64 \<Rightarrow> heap_t \<Rightarrow> bool \<times> heap_t" where
  "new_chunk grant sparse q fc fp h =
     (let h = upd_chunks fc (\<lambda>cs. cs @ [\<lparr>cm_quantum = q, cm_ptr = fp, cm_map = replicate BITMAPSIZE 0\<rparr>]) h in
      if \<not> sparse \<and> q < PAGESIZE
      then case mmap grant fp (chunksize q) h of (ok, h) \<Rightarrow> if ok then (True, h) else (False, no_memory h)
      else (True, h))"

text \<open>Take the unit, or the whole chunk of a large block; the answer is zero when the kernel refuses.\<close>

definition take_unit :: "(u64 \<Rightarrow> u64 \<Rightarrow> bool) \<Rightarrow> bool \<Rightarrow> nat \<Rightarrow> nat \<Rightarrow> nat \<Rightarrow> u64 \<Rightarrow> u64 \<Rightarrow> heap_t \<Rightarrow> (u64 \<times> heap_t) option" where
  "take_unit grant sparse i j sh s fp h =
     (case chunk_at h i j of
        None \<Rightarrow> None
      | Some c \<Rightarrow>
          if cm_quantum c < ALLOCSIZE
          then
            let h = upd_chunks i (\<lambda>cs. cs[j := set_unit sh c]) h; p = cm_ptr c + of_nat sh * cm_quantum c in
            if \<not> sparse \<and> PAGESIZE \<le> cm_quantum c
            then case mmap grant p (cm_quantum c) h of (ok, h) \<Rightarrow> Some (if ok then p else 0, h)
            else Some (p, h)
          else
            let s = ((s + ALLOCSIZE - 1) div ALLOCSIZE) * ALLOCSIZE; big = (\<lambda>cs. cs[j := c\<lparr>cm_map := (cm_map c)[0 := s]\<rparr>]) in
            if sparse then Some (fp, upd_chunks i big h)
            else case mmap grant fp s h of (ok, h) \<Rightarrow> if ok then Some (fp, upd_chunks i big h) else Some (0, h))"

text \<open>
  The contents: a fresh block is cleared, a block that is moved is copied with the size of the old quantum,
  which may be larger than the new block.
\<close>

definition fill_block :: "bool \<Rightarrow> u64 \<Rightarrow> u64 \<Rightarrow> u64 \<Rightarrow> u64 option \<Rightarrow> heap_t \<Rightarrow> heap_t" where
  "fill_block sparse fp ptr nq oq h =
     (if sparse then h
      else h\<lparr>h_mem :=
        (case oq of
           None \<Rightarrow> snd (memset fp 0 nq (h_mem h))
         | Some oq \<Rightarrow>
             let m = snd (memcpy fp ptr oq (h_mem h)) in
             if oq < nq then snd (memset (fp + oq) 0 (nq - oq) m) else m)\<rparr>)"

text \<open>The chunk for the block: the one that was found, or a new one, with the unit, the address and the last map.\<close>

definition choose_chunk ::
  "(u64 \<Rightarrow> u64 \<Rightarrow> bool) \<Rightarrow> u64 \<Rightarrow> u64 \<Rightarrow> u64 \<Rightarrow> bool \<Rightarrow> nat \<Rightarrow> scan_t \<Rightarrow> heap_t
    \<Rightarrow> ((nat \<times> nat) \<times> nat \<times> u64 \<times> nat) option \<times> heap_t" where
  "choose_chunk grant a q s sparse i st h =
     (let fp = (if sc_lp st \<noteq> 0 \<and> sc_sp st \<noteq> 0 \<and>
             sc_lp st + ((s + ALLOCSIZE - 1) div ALLOCSIZE) * ALLOCSIZE < sc_sp st \<and> sc_lp st AND (a - 1) = 0
           then sc_lp st else sc_fp st)
      in case sc_ncm st of
           Some ij \<Rightarrow> (Some (ij, sc_sh st, fp, sc_am st), h)
         | None \<Rightarrow>
             (case (if sc_fc st = 0 then next_map grant i fp h else (True, h)) of (ok, h) \<Rightarrow>
              if \<not> ok then (None, h)
              else
                let fp = (if sc_fc st = 0 then fp + ALLOCSIZE else fp);
                    fc = (if sc_fc st = 0 then i else sc_fc st);
                    fp = (if ALLOCSIZE \<le> q then align_up fp a else fp);
                    n = (case h_maps h fc of Some am \<Rightarrow> length (am_chunks am) | None \<Rightarrow> 0)
                in case new_chunk grant sparse q fc fp h of (ok, h) \<Rightarrow>
                  (if ok then Some ((fc, n), 0, fp, fc) else None, h)))"

text \<open>The old block is released when the new one is complete. \<open>old\<close> is its chunk.\<close>

definition finish_alloc ::
  "bool \<Rightarrow> u64 \<Rightarrow> u64 \<Rightarrow> u64 \<Rightarrow> (nat \<times> nat) option \<Rightarrow> nat \<Rightarrow> heap_t \<Rightarrow> (u64 \<times> heap_t) option" where
  "finish_alloc sparse fp ptr q old am h =
     (if fp = 0 then Some (0, no_memory h)
      else case old of
             None \<Rightarrow> Some (fp, fill_block sparse fp ptr q None h)
           | Some (oi, oj) \<Rightarrow>
               Option.bind (chunk_at h oi oj) (\<lambda>c.
                 Some (fp, release False (case h_maps h am of Some m \<Rightarrow> length (am_chunks m) | None \<Rightarrow> 0) oi oj c ptr
                   (fill_block sparse fp ptr q (Some (cm_quantum c)) h))))"

definition bzt_alloc :: "(u64 \<Rightarrow> u64 \<Rightarrow> bool) \<Rightarrow> u64 \<Rightarrow> u64 \<Rightarrow> u64 \<Rightarrow> bool \<Rightarrow> heap_t \<Rightarrow> (u64 \<times> heap_t) option" where
  "bzt_alloc grant a ptr s sparse h =
     (if s = 0 then Some (0, bzt_free ptr h)
      else Option.bind (quantum s 8) (\<lambda>q.
        let a = (if a < q then q else a) in
        case first_map grant h of (ok, h) \<Rightarrow>
        if \<not> ok then Some (0, h)
        else case alloc_scan a q ptr 0 1 h
            \<lparr>sc_fp = h_arena h + ARENASIZE + ALLOCSIZE, sc_sp = 0, sc_lp = 0, sc_fc = 0, sc_ncm = None, sc_sh = 0,
             sc_ocm = None, sc_am = 0\<rparr> of (i, st) \<Rightarrow>
        if q < ALLOCSIZE \<and> ptr \<noteq> 0 \<and> sc_ncm st \<noteq> None \<and> sc_ncm st = sc_ocm st then Some (ptr, h)
        else case choose_chunk grant a q s sparse i st h of
            (None, h) \<Rightarrow> Some (0, h)
          | (Some ((i, j), sh, fp, am), h) \<Rightarrow>
              Option.bind (take_unit grant sparse i j sh s fp h) (\<lambda>(fp, h).
                finish_alloc sparse fp ptr q (sc_ocm st) am h)))"

text \<open>The calls of the library, on the arena of the task.\<close>

definition malloc :: "(u64 \<Rightarrow> u64 \<Rightarrow> bool) \<Rightarrow> u64 \<Rightarrow> heap_t \<Rightarrow> (u64 \<times> heap_t) option" where
  "malloc grant s = bzt_alloc grant 8 0 s False"

definition calloc :: "(u64 \<Rightarrow> u64 \<Rightarrow> bool) \<Rightarrow> u64 \<Rightarrow> u64 \<Rightarrow> heap_t \<Rightarrow> (u64 \<times> heap_t) option" where
  "calloc grant n s = bzt_alloc grant 8 0 (n * s) False"

definition realloc :: "(u64 \<Rightarrow> u64 \<Rightarrow> bool) \<Rightarrow> u64 \<Rightarrow> u64 \<Rightarrow> heap_t \<Rightarrow> (u64 \<times> heap_t) option" where
  "realloc grant p s = bzt_alloc grant 8 p s False"

definition aligned_alloc :: "(u64 \<Rightarrow> u64 \<Rightarrow> bool) \<Rightarrow> u64 \<Rightarrow> u64 \<Rightarrow> heap_t \<Rightarrow> (u64 \<times> heap_t) option" where
  "aligned_alloc grant a s = bzt_alloc grant a 0 s False"

section \<open>The quantum\<close>

lemma quantum_power:
  assumes "k \<le> 40" and "s \<le> 2 ^ 40"
  shows "\<exists>n. k \<le> n \<and> n \<le> 40 \<and> quantum s (2 ^ k) = Some (2 ^ n) \<and> s \<le> 2 ^ n"
  using assms(1)
proof (induction "40 - k" arbitrary: k)
  case 0
  then have "k = 40" by simp
  then show ?case using assms(2) by (subst quantum.simps) (auto simp: not_less)
next
  case (Suc d)
  show ?case
  proof (cases "(2 :: u64) ^ k < s")
    case True
    have "d = 40 - Suc k" "Suc k \<le> 40" using Suc.hyps(2) by simp_all
    from Suc.hyps(1) [OF this] obtain n where
      n: "Suc k \<le> n" "n \<le> 40" "quantum s (2 ^ Suc k) = Some (2 ^ n)" "s \<le> 2 ^ n" by blast
    moreover have "push_bit 1 ((2 :: u64) ^ k) = 2 ^ Suc k" by (simp add: push_bit_eq_mult)
    ultimately show ?thesis using True by (intro exI [of _ n]) (simp add: quantum.simps [of s "2 ^ k"] mult.commute)
  next
    case False
    then show ?thesis using Suc.prems by (intro exI [of _ k]) (simp add: quantum.simps [of s "2 ^ k"] not_less leD)
  qed
qed

section \<open>Well formed arenas\<close>

text \<open>There is never more than one map: a second one is refused by the comparison in \<open>next_map\<close>.\<close>

definition chunks :: "heap_t \<Rightarrow> chunkmap_t list" where
  "chunks h = (case h_maps h 1 of Some am \<Rightarrow> am_chunks am | None \<Rightarrow> [])"

definition heap_base :: "heap_t \<Rightarrow> nat" where
  "heap_base h = unat (h_arena h) + 4194304"

definition chunk_ok :: "chunkmap_t \<Rightarrow> bool" where
  "chunk_ok c \<longleftrightarrow> length (cm_map c) = BITMAPSIZE \<and> cm_quantum c \<noteq> 0 \<and> 8 dvd unat (cm_quantum c) \<and>
     unat (cm_ptr c) + unat (chunk_len c) \<le> 2 ^ 62"

definition chunk_span :: "chunkmap_t \<Rightarrow> nat set" where
  "chunk_span c = {unat (cm_ptr c) ..< unat (cm_ptr c) + unat (chunk_len c)}"

definition arena_ok :: "heap_t \<Rightarrow> bool" where
  "arena_ok h \<longleftrightarrow> heap_base h \<le> 2 ^ 61 \<and>
     (h_count h = 0 \<and> h_maps h = Map.empty \<or>
      h_count h = 1 \<and> h_maps h = [1 \<mapsto> \<lparr>am_addr = h_arena h + ARENASIZE, am_chunks = chunks h\<rparr>]) \<and>
     (\<forall>c \<in> set (chunks h). chunk_ok c \<and> heap_base h \<le> unat (cm_ptr c)) \<and>
     sorted_wrt (\<lambda>c d. chunk_span c \<inter> chunk_span d = {}) (chunks h)"

definition chunk_blocks :: "chunkmap_t \<Rightarrow> (u64 \<times> u64) set" where
  "chunk_blocks c =
     (if cm_quantum c < ALLOCSIZE
      then (\<lambda>k. (cm_ptr c + of_nat k * cm_quantum c, cm_quantum c)) ` {k. k < 512 \<and> unit_used (cm_map c) k}
      else if cm_map c ! 0 = 0 then {} else {(cm_ptr c, cm_map c ! 0)})"

definition live :: "heap_t \<Rightarrow> (u64 \<times> u64) set" where
  "live h = (\<Union>c \<in> set (chunks h). chunk_blocks c)"

definition span :: "u64 \<times> u64 \<Rightarrow> nat set" where
  "span b = {unat (fst b) ..< unat (fst b) + unat (snd b)}"

lemma chunksize_eq:
  assumes "q < ALLOCSIZE" and "8 dvd unat q"
  shows "unat (chunksize q) = unat q * 512"
proof -
  obtain m where m: "unat q = 8 * m" using assms(2) by (elim dvdE)
  have q: "unat q < 2097152" using assms(1) by (simp add: alloc_defs word_less_nat_alt)
  have "unat (q * of_nat BITMAPSIZE * 8 * 8) = unat q * 512"
    using q by (simp add: alloc_defs unat_word_ariths mult.assoc)
  then have "unat (q * of_nat BITMAPSIZE * 8 * 8 div PAGESIZE) = m"
    by (simp add: unat_div alloc_defs m)
  then have "unat (chunksize q) = (m * 4096) mod 2 ^ 64"
    by (simp add: chunksize_def unat_word_ariths alloc_defs)
  with q m show ?thesis by simp
qed

lemma chunk_len_small:
  "chunk_ok c \<Longrightarrow> cm_quantum c < ALLOCSIZE \<Longrightarrow> unat (chunk_len c) = unat (cm_quantum c) * 512"
  by (simp add: chunk_len_def chunksize_eq chunk_ok_def)

lemma unat_chunk_end: "chunk_ok c \<Longrightarrow> unat (chunk_end c) = unat (cm_ptr c) + unat (chunk_len c)"
  unfolding chunk_end_def by (rule unat_add_lem [THEN iffD1]) (simp add: chunk_ok_def)

lemma unat_unit:
  assumes "chunk_ok c" and "cm_quantum c < ALLOCSIZE" and "k < 512"
  shows "unat (cm_ptr c + of_nat k * cm_quantum c) = unat (cm_ptr c) + k * unat (cm_quantum c)"
proof -
  have "k * unat (cm_quantum c) \<le> 512 * unat (cm_quantum c)" using assms(3) by simp
  then have l: "k * unat (cm_quantum c) \<le> unat (chunk_len c)"
    using chunk_len_small [OF assms(1,2)] by simp
  have "unat (of_nat k * cm_quantum c) = k * unat (cm_quantum c)"
    using assms(3) l assms(1) unat_mult_lem [of "of_nat k" "cm_quantum c"]
    by (simp add: unat_of_nat_u64 chunk_ok_def)
  then show ?thesis
    using l assms(1) by (subst unat_add_lem [THEN iffD1]) (simp_all add: chunk_ok_def)
qed

lemma unit_span:
  assumes "chunk_ok c" and "cm_quantum c < ALLOCSIZE" and "k < 512"
  shows "span (cm_ptr c + of_nat k * cm_quantum c, cm_quantum c) =
      {unat (cm_ptr c) + k * unat (cm_quantum c) ..< unat (cm_ptr c) + Suc k * unat (cm_quantum c)}"
    and "span (cm_ptr c + of_nat k * cm_quantum c, cm_quantum c) \<subseteq> chunk_span c"
proof -
  show s: "span (cm_ptr c + of_nat k * cm_quantum c, cm_quantum c) =
      {unat (cm_ptr c) + k * unat (cm_quantum c) ..< unat (cm_ptr c) + Suc k * unat (cm_quantum c)}"
    using unat_unit [OF assms] by (simp add: span_def algebra_simps)
  have "Suc k * unat (cm_quantum c) \<le> 512 * unat (cm_quantum c)" using assms(3) by (intro mult_le_mono1) simp
  then show "span (cm_ptr c + of_nat k * cm_quantum c, cm_quantum c) \<subseteq> chunk_span c"
    unfolding s chunk_span_def chunk_len_small [OF assms(1,2)] by (auto simp del: mult_Suc)
qed

lemma units_disjoint:
  assumes "chunk_ok c" and "cm_quantum c < ALLOCSIZE" and "k < 512" and "l < 512" and "k \<noteq> l"
  shows "span (cm_ptr c + of_nat k * cm_quantum c, cm_quantum c) \<inter> span (cm_ptr c + of_nat l * cm_quantum c, cm_quantum c) = {}"
proof -
  have "Suc i * q \<le> j * q" if "i < j" for i j q :: nat using that by (intro mult_le_mono1) simp
  then have "k < l \<Longrightarrow> Suc k * unat (cm_quantum c) \<le> l * unat (cm_quantum c)"
    "l < k \<Longrightarrow> Suc l * unat (cm_quantum c) \<le> k * unat (cm_quantum c)" by blast+
  then show ?thesis
    unfolding unit_span(1) [OF assms(1-3)] unit_span(1) [OF assms(1,2,4)] using assms(5)
    by (cases k l rule: linorder_cases) (auto simp del: mult_Suc)
qed

lemma block_in_chunk:
  assumes c: "chunk_ok c" and b: "b \<in> chunk_blocks c"
  shows "span b \<subseteq> chunk_span c"
proof (cases "cm_quantum c < ALLOCSIZE")
  case True
  with b obtain k where k: "b = (cm_ptr c + of_nat k * cm_quantum c, cm_quantum c)" "k < 512"
    by (auto simp: chunk_blocks_def)
  then show ?thesis using unit_span(2) [OF c True k(2)] by simp
next
  case False
  then show ?thesis using b by (auto simp: chunk_blocks_def span_def chunk_span_def chunk_len_def split: if_splits)
qed

section \<open>Units\<close>

lemma find_SomeD: "find P xs = Some x \<Longrightarrow> P x \<and> x \<in> set xs"
  by (induction xs) (auto split: if_splits)

lemma free_unit_Some: "free_unit m n = Some k \<Longrightarrow> k < 512 \<and> \<not> unit_used m k"
  using find_SomeD [of "\<lambda>k. \<not> unit_used m k"] by (fastforce simp: free_unit_def BITMAPSIZE_def simp del: upt_conv_Cons)

lemma set_unit_used:
  assumes "length (cm_map c) = BITMAPSIZE" and "k < 512" and "l < 512"
  shows "unit_used (cm_map (set_unit k c)) l \<longleftrightarrow> l = k \<or> unit_used (cm_map c) l"
proof -
  define kd km ld lm where d: "kd = k div 64" "km = k mod 64" "ld = l div 64" "lm = l mod 64"
  have r: "kd < length (cm_map c)" "ld < length (cm_map c)" "lm < 64" using assms by (auto simp: d BITMAPSIZE_def)
  have eq: "l = k \<longleftrightarrow> ld = kd \<and> lm = km" unfolding d by (metis div_mult_mod_eq)
  show ?thesis unfolding eq set_unit_def unit_used_def d [symmetric] using r
    by (cases "ld = kd") (auto simp: update_at_def bit_set_bit_iff)
qed

lemma set_unit_simps [simp]:
  "cm_ptr (set_unit k c) = cm_ptr c" "cm_quantum (set_unit k c) = cm_quantum c" "length (cm_map (set_unit k c)) = length (cm_map c)"
  by (simp_all add: set_unit_def)

lemma set_unit_len [simp]: "cm_quantum c < ALLOCSIZE \<Longrightarrow> chunk_len (set_unit k c) = chunk_len c"
  by (simp add: chunk_len_def)

lemma set_unit_blocks:
  assumes "chunk_ok c" and "cm_quantum c < ALLOCSIZE" and "k < 512"
  shows "chunk_blocks (set_unit k c) = insert (cm_ptr c + of_nat k * cm_quantum c, cm_quantum c) (chunk_blocks c)"
  using assms set_unit_used [of c k] by (auto simp: chunk_blocks_def chunk_ok_def)

section \<open>The loop over the chunks\<close>

lemma scan_chunk_fresh:
  "sc_lp (scan_chunk a q 0 i j c st) = sc_lp st" "sc_fc (scan_chunk a q 0 i j c st) = sc_fc st"
  "sc_ocm (scan_chunk a q 0 i j c st) = sc_ocm st" "sc_am (scan_chunk a q 0 i j c st) = sc_am st"
  "sc_fp (scan_chunk a q 0 i j c st) = (if sc_fp st < chunk_end c then chunk_end c else sc_fp st)"
  "sc_sp (scan_chunk a q 0 i j c st) = (if sc_sp st = 0 \<or> cm_ptr c < sc_sp st then cm_ptr c else sc_sp st)"
  by (simp_all add: scan_chunk_def Let_def split: option.split)

text \<open>The chunk that is chosen has the right quantum and a free unit.\<close>

definition good_unit :: "u64 \<Rightarrow> u64 \<Rightarrow> chunkmap_t \<Rightarrow> nat \<Rightarrow> bool" where
  "good_unit a q c k \<longleftrightarrow> cm_quantum c = q \<and> q < ALLOCSIZE \<and> free_unit (cm_map c) (unat (a div q)) = Some k"

lemma scan_chunk_unit:
  "sc_ncm (scan_chunk a q 0 i j c st) = sc_ncm st \<and> sc_sh (scan_chunk a q 0 i j c st) = sc_sh st \<or>
   sc_ncm (scan_chunk a q 0 i j c st) = Some (i, j) \<and> good_unit a q c (sc_sh (scan_chunk a q 0 i j c st))"
  by (simp add: scan_chunk_def good_unit_def Let_def split: option.split)

lemma scan_chunks_fresh:
  "sc_lp (scan_chunks a q 0 i j cs st) = sc_lp st \<and> sc_fc (scan_chunks a q 0 i j cs st) = sc_fc st \<and>
   sc_ocm (scan_chunks a q 0 i j cs st) = sc_ocm st \<and> sc_am (scan_chunks a q 0 i j cs st) = sc_am st \<and>
   sc_fp st \<le> sc_fp (scan_chunks a q 0 i j cs st) \<and>
   (\<forall>c \<in> set cs. chunk_end c \<le> sc_fp (scan_chunks a q 0 i j cs st)) \<and>
   (sc_fp (scan_chunks a q 0 i j cs st) = sc_fp st \<or> (\<exists>c \<in> set cs. sc_fp (scan_chunks a q 0 i j cs st) = chunk_end c))"
proof (induction cs arbitrary: j st)
  case (Cons c cs)
  from Cons.IH [of "Suc j" "scan_chunk a q 0 i j c st"] show ?case
    by (auto simp: scan_chunk_fresh not_less split: if_splits)
qed simp

lemma scan_chunks_low:
  assumes "\<forall>c \<in> set cs. cm_ptr c \<noteq> 0"
  shows "(sc_sp st \<noteq> 0 \<longrightarrow> sc_sp (scan_chunks a q 0 i j cs st) \<le> sc_sp st) \<and>
    (\<forall>c \<in> set cs. sc_sp (scan_chunks a q 0 i j cs st) \<le> cm_ptr c)"
  using assms
proof (induction cs arbitrary: j st)
  case (Cons c cs)
  let ?st = "scan_chunk a q 0 i j c st"
  have "sc_sp ?st \<noteq> 0" "sc_sp ?st \<le> cm_ptr c" "sc_sp st \<noteq> 0 \<longrightarrow> sc_sp ?st \<le> sc_sp st"
    using Cons.prems by (auto simp: scan_chunk_fresh)
  with Cons.IH [of ?st "Suc j"] Cons.prems show ?case by (auto intro: order_trans)
qed simp

lemma scan_chunks_unit:
  "sc_ncm (scan_chunks a q 0 i j cs st) = sc_ncm st \<and> sc_sh (scan_chunks a q 0 i j cs st) = sc_sh st \<or>
   (\<exists>k < length cs. sc_ncm (scan_chunks a q 0 i j cs st) = Some (i, j + k) \<and>
      good_unit a q (cs ! k) (sc_sh (scan_chunks a q 0 i j cs st)))"
proof (induction cs arbitrary: j st)
  case (Cons c cs)
  let ?st = "scan_chunk a q 0 i j c st"
  from Cons.IH [of "Suc j" ?st] scan_chunk_unit [of a q i j c st] show ?case
    by (elim disjE exE conjE) (simp, simp, force, force)
qed simp

section \<open>Steps of an allocation\<close>

definition gapless :: "heap_t \<Rightarrow> bool" where
  "gapless h \<longleftrightarrow> chunks h = [] \<or> (\<exists>c \<in> set (chunks h). unat (cm_ptr c) = heap_base h)"

definition heap_below :: "heap_t \<Rightarrow> nat \<Rightarrow> bool" where
  "heap_below h n \<longleftrightarrow> heap_base h \<le> n \<and> (\<forall>c \<in> set (chunks h). unat (chunk_end c) \<le> n)"

lemma numallocmaps_one: "h_count h = 1 \<Longrightarrow> numallocmaps h = 1" "h_count h = 0 \<Longrightarrow> numallocmaps h = 0"
  by (simp_all add: numallocmaps_def)

lemma first_map_ok:
  assumes "arena_ok h" and "first_map grant h = (ok, h1)"
  shows "arena_ok h1 \<and> chunks h1 = chunks h \<and> h_arena h1 = h_arena h \<and> h_mem h1 = h_mem h \<and>
    (if ok then h_count h1 = 1 else h_errno h1 = ENOMEM) \<and> ((\<forall>x y. grant x y) \<longrightarrow> ok)"
  using assms
  by (auto simp: first_map_def arena_ok_def numallocmaps_one chunks_def heap_base_def mmap_def no_memory_def split: if_splits)

lemma unat_base: "arena_ok h \<Longrightarrow> unat (h_arena h + ARENASIZE + ALLOCSIZE) = heap_base h"
  by (simp add: arena_ok_def heap_base_def alloc_defs unat_word_ariths)

abbreviation (input) scan_start :: "heap_t \<Rightarrow> scan_t" where
  "scan_start h \<equiv> \<lparr>sc_fp = h_arena h + ARENASIZE + ALLOCSIZE, sc_sp = 0, sc_lp = 0, sc_fc = 0, sc_ncm = None, sc_sh = 0,
     sc_ocm = None, sc_am = 0\<rparr>"

lemma alloc_scan_one:
  assumes "h_count h = 1" and "h_maps h = [1 \<mapsto> am]"
  shows "alloc_scan a q ptr 0 1 h st = (2, scan_map a q ptr 1 am st)"
  using assms by (simp add: alloc_scan.simps [of _ _ _ 0] alloc_scan.simps [of _ _ _ "Suc 0"] numallocmaps_one MAXARENA_def numeral_2_eq_2)

lemma round_up_size:
  assumes "unat s \<le> 2 ^ 40"
  shows "unat (((s + ALLOCSIZE - 1) div ALLOCSIZE) * ALLOCSIZE) = (unat s + 2097151) div 2097152 * 2097152"
    "unat s \<le> (unat s + 2097151) div 2097152 * 2097152" "(unat s + 2097151) div 2097152 * 2097152 \<le> unat s + 2097151"
proof -
  have "unat (s + ALLOCSIZE - 1) = unat s + 2097151"
    using assms unat_add_lem [of s 2097151] by (simp add: alloc_defs add_diff_eq [symmetric])
  moreover have le: "(unat s + 2097151) div 2097152 * 2097152 \<le> unat s + 2097151" by simp
  ultimately show "unat (((s + ALLOCSIZE - 1) div ALLOCSIZE) * ALLOCSIZE) = (unat s + 2097151) div 2097152 * 2097152"
    using assms by (subst unat_mult_lem [THEN iffD1]) (simp_all add: unat_div alloc_defs)
  show "(unat s + 2097151) div 2097152 * 2097152 \<le> unat s + 2097151" by (rule le)
  show "unat s \<le> (unat s + 2097151) div 2097152 * 2097152"
    using div_mult_mod_eq [of "unat s + 2097151" 2097152] mod_less_divisor [of 2097152 "unat s + 2097151"] by linarith
qed

text \<open>What the loop over the maps finds for a new block when there is no gap below the chunks.\<close>

lemma malloc_search:
  assumes ok: "arena_ok h" "h_count h = 1" and gap: "gapless h" and s: "unat s \<le> 2 ^ 40"
    and st: "alloc_scan q q 0 0 1 h (scan_start h) = (i, st)"
  shows "i = 2" "sc_ocm st = None" "sc_am st = 1" "sc_fc st = (if length (chunks h) < MAXCHUNKS then 1 else 0)"
    "\<not> (sc_lp st \<noteq> 0 \<and> sc_sp st \<noteq> 0 \<and> sc_lp st + ((s + ALLOCSIZE - 1) div ALLOCSIZE) * ALLOCSIZE < sc_sp st \<and>
      sc_lp st AND (q - 1) = 0)"
    "heap_below h (unat (sc_fp st))"
    "heap_below h n \<Longrightarrow> unat (sc_fp st) \<le> n"
    "sc_ncm st = None \<or> (\<exists>j < length (chunks h). sc_ncm st = Some (1, j) \<and> good_unit q q (chunks h ! j) (sc_sh st))"
proof -
  define e where "e = h_arena h + ARENASIZE + ALLOCSIZE"
  define am where "am = \<lparr>am_addr = h_arena h + ARENASIZE, am_chunks = chunks h\<rparr>"
  define st0 where "st0 = \<lparr>sc_fp = e, sc_sp = 0, sc_lp = e, sc_fc = if length (chunks h) < MAXCHUNKS then 1 else 0,
    sc_ncm = None, sc_sh = 0, sc_ocm = None, sc_am = 1\<rparr>"
  have m: "h_maps h = [1 \<mapsto> am]" using ok by (simp add: arena_ok_def am_def)
  have e: "unat e = heap_base h" "heap_base h \<le> 2 ^ 61" "e \<noteq> 0"
    using unat_base [OF ok(1)] ok(1) by (auto simp: e_def arena_ok_def heap_base_def)
  have c: "cm_ptr c \<noteq> 0" "e \<le> cm_ptr c" if "c \<in> set (chunks h)" for c
    using that ok(1) e by (auto simp: arena_ok_def heap_base_def word_le_nat_alt)
  have "scan_map q q 0 1 am (scan_start h) = scan_chunks q q 0 1 0 (chunks h) st0"
    by (simp add: scan_map_def am_def st0_def e_def Let_def)
  then have sc: "i = 2" "st = scan_chunks q q 0 1 0 (chunks h) st0"
    using st alloc_scan_one [OF ok(2) m, of q q 0 "scan_start h"] by simp_all
  note f = scan_chunks_fresh [of q q 1 0 "chunks h" st0, folded sc(2)]
  show "i = 2" "sc_ocm st = None" "sc_am st = 1" "sc_fc st = (if length (chunks h) < MAXCHUNKS then 1 else 0)"
    using sc(1) f by (auto simp: st0_def)
  have lp: "sc_lp st = e" using f by (simp add: st0_def)
  show "\<not> (sc_lp st \<noteq> 0 \<and> sc_sp st \<noteq> 0 \<and> sc_lp st + ((s + ALLOCSIZE - 1) div ALLOCSIZE) * ALLOCSIZE < sc_sp st \<and>
      sc_lp st AND (q - 1) = 0)"
  proof (cases "chunks h = []")
    case True
    then show ?thesis by (simp add: sc(2) st0_def)
  next
    case False
    then obtain c0 where c0: "c0 \<in> set (chunks h)" "cm_ptr c0 = e"
      using gap e(1) by (auto simp: gapless_def word_unat_eq_iff)
    have "sc_sp st \<le> e" using scan_chunks_low [of "chunks h" st0 q q 1 0, folded sc(2)] c c0 by auto
    moreover have "e \<le> e + ((s + ALLOCSIZE - 1) div ALLOCSIZE) * ALLOCSIZE"
      using e(1,2) round_up_size [OF s] s by (subst word_le_nat_alt, subst unat_add_lem [THEN iffD1]) simp_all
    ultimately show ?thesis using lp by auto
  qed
  show "heap_below h (unat (sc_fp st))"
    using f e(1) by (auto simp: heap_below_def st0_def word_le_nat_alt)
  show "heap_below h n \<Longrightarrow> unat (sc_fp st) \<le> n"
    using f e(1) by (auto simp: heap_below_def st0_def)
  show "sc_ncm st = None \<or> (\<exists>j < length (chunks h). sc_ncm st = Some (1, j) \<and> good_unit q q (chunks h ! j) (sc_sh st))"
    using scan_chunks_unit [of q q 1 0 "chunks h" st0, folded sc(2)] by (auto simp: st0_def)
qed

lemma heap_frame [simp]:
  "chunks (h\<lparr>h_os := x\<rparr>) = chunks h" "chunks (h\<lparr>h_errno := y\<rparr>) = chunks h" "chunks (h\<lparr>h_mem := m\<rparr>) = chunks h"
  "live (h\<lparr>h_os := x\<rparr>) = live h" "live (h\<lparr>h_errno := y\<rparr>) = live h" "live (h\<lparr>h_mem := m\<rparr>) = live h"
  "arena_ok (h\<lparr>h_os := x\<rparr>) = arena_ok h" "arena_ok (h\<lparr>h_errno := y\<rparr>) = arena_ok h" "arena_ok (h\<lparr>h_mem := m\<rparr>) = arena_ok h"
  "heap_below (h\<lparr>h_os := x\<rparr>) = heap_below h"
  by (simp_all add: chunks_def live_def arena_ok_def heap_base_def heap_below_def fun_eq_iff)

lemma upd_chunks_ok:
  assumes ok: "arena_ok h" "h_count h = 1" and c: "\<forall>c \<in> set (f (chunks h)). chunk_ok c \<and> heap_base h \<le> unat (cm_ptr c)"
    and d: "sorted_wrt (\<lambda>c d. chunk_span c \<inter> chunk_span d = {}) (f (chunks h))"
  shows "arena_ok (upd_chunks 1 f h)" "chunks (upd_chunks 1 f h) = f (chunks h)" "h_mem (upd_chunks 1 f h) = h_mem h"
    "h_count (upd_chunks 1 f h) = 1" "heap_base (upd_chunks 1 f h) = heap_base h"
proof -
  have m: "h_maps h = [1 \<mapsto> \<lparr>am_addr = h_arena h + ARENASIZE, am_chunks = chunks h\<rparr>]"
    using ok by (simp add: arena_ok_def)
  show k: "chunks (upd_chunks 1 f h) = f (chunks h)" "h_mem (upd_chunks 1 f h) = h_mem h" "h_count (upd_chunks 1 f h) = 1"
    "heap_base (upd_chunks 1 f h) = heap_base h"
    using ok(2) m by (simp_all add: upd_chunks_def chunks_def [of "h_maps_update _ _"] heap_base_def)
  show "arena_ok (upd_chunks 1 f h)"
    using ok(1) c d k m by (auto simp: arena_ok_def) (simp add: upd_chunks_def fun_eq_iff)
qed

lemma below_chunk:
  "arena_ok h \<Longrightarrow> heap_below h n \<Longrightarrow> d \<in> set (chunks h) \<Longrightarrow> unat (cm_ptr d) + unat (chunk_len d) \<le> n"
  using unat_chunk_end [of d] by (auto simp: heap_below_def arena_ok_def)

lemma append_chunk_ok:
  assumes ok: "arena_ok h" "h_count h = 1" and c: "chunk_ok c" "heap_below h (unat (cm_ptr c))"
  shows "arena_ok (upd_chunks 1 (\<lambda>cs. cs @ [c]) h)" "chunks (upd_chunks 1 (\<lambda>cs. cs @ [c]) h) = chunks h @ [c]"
    "h_mem (upd_chunks 1 (\<lambda>cs. cs @ [c]) h) = h_mem h" "h_count (upd_chunks 1 (\<lambda>cs. cs @ [c]) h) = 1"
    "heap_base (upd_chunks 1 (\<lambda>cs. cs @ [c]) h) = heap_base h"
proof -
  have "chunk_span d \<inter> chunk_span c = {}" if "d \<in> set (chunks h)" for d
  proof -
    have "unat (cm_ptr d) + unat (chunk_len d) \<le> unat (cm_ptr c)"
      using below_chunk [OF ok(1) c(2) that] .
    then show ?thesis by (auto simp: chunk_span_def)
  qed
  then have "sorted_wrt (\<lambda>c d. chunk_span c \<inter> chunk_span d = {}) (chunks h @ [c])"
    using ok(1) by (auto simp: arena_ok_def sorted_wrt_append)
  moreover have "\<forall>d \<in> set (chunks h @ [c]). chunk_ok d \<and> heap_base h \<le> unat (cm_ptr d)"
    using ok(1) c by (auto simp: arena_ok_def heap_below_def)
  ultimately show "arena_ok (upd_chunks 1 (\<lambda>cs. cs @ [c]) h)" "chunks (upd_chunks 1 (\<lambda>cs. cs @ [c]) h) = chunks h @ [c]"
    "h_mem (upd_chunks 1 (\<lambda>cs. cs @ [c]) h) = h_mem h" "h_count (upd_chunks 1 (\<lambda>cs. cs @ [c]) h) = 1"
    "heap_base (upd_chunks 1 (\<lambda>cs. cs @ [c]) h) = heap_base h"
    using upd_chunks_ok [OF ok, of "\<lambda>cs. cs @ [c]"] by simp_all
qed

lemma replace_chunk_ok:
  assumes ok: "arena_ok h" "h_count h = 1" and j: "j < length (chunks h)" and c: "chunk_ok c" "cm_ptr c = cm_ptr (chunks h ! j)"
    and l: "chunk_len c = chunk_len (chunks h ! j) \<or> heap_below h (unat (cm_ptr c))"
  shows "arena_ok (upd_chunks 1 (\<lambda>cs. cs[j := c]) h)" "chunks (upd_chunks 1 (\<lambda>cs. cs[j := c]) h) = (chunks h)[j := c]"
    "h_mem (upd_chunks 1 (\<lambda>cs. cs[j := c]) h) = h_mem h"
proof -
  have pw: "chunk_span (chunks h ! i) \<inter> chunk_span (chunks h ! k) = {}" if "i < k" "k < length (chunks h)" for i k
    using that ok(1) unfolding arena_ok_def sorted_wrt_iff_nth_less by blast
  have apart: "chunk_span c \<inter> chunk_span (chunks h ! k) = {}" if k: "k < length (chunks h)" "k \<noteq> j" for k
    using l
  proof
    assume "chunk_len c = chunk_len (chunks h ! j)"
    then have "chunk_span c = chunk_span (chunks h ! j)" using c(2) by (simp add: chunk_span_def)
    then show ?thesis using pw [of j k] pw [of k j] j k by (cases k j rule: linorder_cases) auto
  next
    assume "heap_below h (unat (cm_ptr c))"
    then have "unat (cm_ptr (chunks h ! k)) + unat (chunk_len (chunks h ! k)) \<le> unat (cm_ptr c)"
      using below_chunk [OF ok(1)] nth_mem [OF k(1)] by blast
    then show ?thesis by (auto simp: chunk_span_def)
  qed
  have "sorted_wrt (\<lambda>c d. chunk_span c \<inter> chunk_span d = {}) ((chunks h)[j := c])"
    unfolding sorted_wrt_iff_nth_less
  proof (intro allI impI)
    fix i k assume "i < k" "k < length ((chunks h)[j := c])"
    then show "chunk_span ((chunks h)[j := c] ! i) \<inter> chunk_span ((chunks h)[j := c] ! k) = {}"
      using pw [of i k] apart [of i] apart [of k] by (cases "i = j"; cases "k = j") (auto simp: Int_commute)
  qed
  moreover have "\<forall>d \<in> set ((chunks h)[j := c]). chunk_ok d \<and> heap_base h \<le> unat (cm_ptr d)"
    using ok(1) c j by (auto simp: arena_ok_def dest!: set_update_subset_insert [THEN subsetD])
  ultimately show "arena_ok (upd_chunks 1 (\<lambda>cs. cs[j := c]) h)" "chunks (upd_chunks 1 (\<lambda>cs. cs[j := c]) h) = (chunks h)[j := c]"
    "h_mem (upd_chunks 1 (\<lambda>cs. cs[j := c]) h) = h_mem h"
    using upd_chunks_ok [OF ok, of "\<lambda>cs. cs[j := c]"] by simp_all
qed

lemma unat_power: "n \<le> 40 \<Longrightarrow> unat ((2 :: u64) ^ n) = 2 ^ n"
  using power_strict_increasing [of n 64 "2 :: nat"] unat_of_nat_u64 [of "2 ^ n"] by simp

lemma align_up_power:
  assumes "n \<le> 40" and "unat p \<le> 2 ^ 60"
  shows "unat p \<le> unat (align_up p (2 ^ n))" "unat (align_up p (2 ^ n)) \<le> 2 ^ 60 + 2 ^ 40"
proof -
  let ?q = "2 ^ n :: nat"
  have q: "?q \<le> 2 ^ 40" "1 \<le> ?q" using power_increasing [OF assms(1), of "2 :: nat"] by simp_all
  have a: "unat (p + 2 ^ n - 1) = unat p + (?q - 1)"
  proof -
    have "unat (p + (2 ^ n - 1)) = unat p + unat ((2 :: u64) ^ n - 1)"
      using assms q unat_power [OF assms(1)] unat_minus_one [of "2 ^ n :: u64"]
      by (intro unat_add_lem [THEN iffD1]) (auto simp: word_unat_eq_iff)
    then show ?thesis using unat_power [OF assms(1)] unat_minus_one [of "2 ^ n :: u64"] q
      by (auto simp: word_unat_eq_iff algebra_simps)
  qed
  have le: "(unat p + (?q - 1)) div ?q * ?q \<le> unat p + (?q - 1)" by simp
  have bound: "unat p + (?q - 1) \<le> 2 ^ 60 + 2 ^ 40" using assms(2) q by simp
  have u: "unat (align_up p (2 ^ n)) = (unat p + (?q - 1)) div ?q * ?q"
  proof -
    have d: "unat ((p + 2 ^ n - 1) div 2 ^ n) = (unat p + (?q - 1)) div ?q"
      by (simp only: unat_div a unat_power [OF assms(1)])
    have "(unat p + (?q - 1)) div ?q * ?q < 2 ^ 64" using le_less_trans [OF le] bound by simp
    then show ?thesis
      unfolding align_up_def using unat_mult_lem [of "(p + 2 ^ n - 1) div 2 ^ n" "2 ^ n"]
      by (simp only: d unat_power [OF assms(1)]) simp
  qed
  show "unat (align_up p (2 ^ n)) \<le> 2 ^ 60 + 2 ^ 40" unfolding u using le bound by (rule order_trans)
  have "(unat p + (?q - 1)) mod ?q \<le> ?q - 1" using q mod_less_divisor [of ?q "unat p + (?q - 1)"] by linarith
  then show "unat p \<le> unat (align_up p (2 ^ n))" unfolding u
    using div_mult_mod_eq [of "unat p + (?q - 1)" ?q] by linarith
qed

lemma new_chunk_props:
  assumes "n \<le> 40" and "3 \<le> n" and "unat p \<le> 2 ^ 60 + 2 ^ 40" and "c = \<lparr>cm_quantum = 2 ^ n, cm_ptr = p, cm_map = replicate BITMAPSIZE 0\<rparr>"
  shows "chunk_ok c" "chunk_blocks c = {}" "k < 512 \<Longrightarrow> \<not> unit_used (cm_map c) k" "cm_map c ! 0 = 0"
proof -
  have z: "replicate BITMAPSIZE (0 :: u64) ! i = 0" if "i < 8" for i using that by (simp add: BITMAPSIZE_def)
  show uu: "\<not> unit_used (cm_map c) k" if "k < 512" for k
    using that z [of "k div 64"] by (simp add: assms(4) unit_used_def)
  show "cm_map c ! 0 = 0" using z [of 0] by (simp add: assms(4))
  then show "chunk_blocks c = {}" using uu by (auto simp: chunk_blocks_def)
  have dv: "8 dvd (2 :: nat) ^ n" using le_imp_power_dvd [OF assms(2), of "2 :: nat"] by simp
  then have "unat (chunk_len c) \<le> 2 ^ 21 * 512"
    using chunksize_eq [of "2 ^ n"] z [of 0] unat_power [OF assms(1)]
    by (auto simp: chunk_len_def assms(4) alloc_defs word_less_nat_alt)
  then show "chunk_ok c" using dv assms unat_power [OF assms(1)] by (auto simp: chunk_ok_def word_unat_eq_iff)
qed

definition chosen :: "nat \<Rightarrow> heap_t \<Rightarrow> (nat \<times> nat) \<times> nat \<times> u64 \<times> nat \<Rightarrow> bool" where
  "chosen n h = (\<lambda>((i, j), sh, fp, am). i = 1 \<and> j < length (chunks h) \<and> cm_quantum (chunks h ! j) = 2 ^ n \<and>
     (if (2 :: u64) ^ n < ALLOCSIZE then sh < 512 \<and> \<not> unit_used (cm_map (chunks h ! j)) sh
      else cm_map (chunks h ! j) ! 0 = 0 \<and> cm_ptr (chunks h ! j) = fp \<and> heap_below h (unat fp) \<and> unat fp \<le> 2 ^ 60 + 2 ^ 40))"

lemma live_append: "chunks h' = chunks h @ [c] \<Longrightarrow> chunk_blocks c = {} \<Longrightarrow> live h' = live h"
  by (simp add: live_def)

lemma new_chunk_ok:
  assumes ok: "arena_ok h" "h_count h = 1" and n: "3 \<le> n" "n \<le> 40" and p: "unat p \<le> 2 ^ 60 + 2 ^ 40" "heap_below h (unat p)"
    and r: "new_chunk grant False (2 ^ n) 1 p h = (b, h2)"
  shows "arena_ok h2 \<and> h_count h2 = 1 \<and> live h2 = live h \<and> h_mem h2 = h_mem h \<and>
    (if b then chosen n h2 ((1, length (chunks h)), 0, p, 1) else h_errno h2 = ENOMEM \<and> \<not> (\<forall>x y. grant x y))"
proof -
  define c where "c = \<lparr>cm_quantum = 2 ^ n, cm_ptr = p, cm_map = replicate BITMAPSIZE 0\<rparr>"
  define h1 where "h1 = upd_chunks 1 (\<lambda>cs. cs @ [c]) h"
  note c = new_chunk_props [OF n(2,1) p(1) c_def]
  have ptr: "cm_ptr c = p" by (simp add: c_def)
  note a = append_chunk_ok [OF ok c(1), unfolded ptr, OF p(2), folded h1_def]
  have lv: "live h1 = live h" using a(2) c(2) by (rule live_append)
  have big: "heap_below h1 (unat p)" if "\<not> (2 :: u64) ^ n < ALLOCSIZE"
  proof -
    have "chunk_end c = p" using that c(4) by (simp add: chunk_end_def chunk_len_def c_def)
    then show ?thesis using p(2) a(2,5) by (simp add: heap_below_def)
  qed
  have ch: "chosen n h1 ((1, length (chunks h)), 0, p, 1)"
    using a(2) c(3) [of 0] c(4) big p(1) by (simp add: chosen_def) (simp add: c_def)
  have fr: "chosen n (h1\<lparr>h_os := x\<rparr>) y = chosen n h1 y" for x y by (simp add: chosen_def split: prod.split)
  show ?thesis
    using r a lv ch fr unfolding new_chunk_def c_def [symmetric] h1_def [symmetric]
    by (auto simp: mmap_def no_memory_def Let_def split: if_splits)
qed

lemma choose_ok:
  assumes ok: "arena_ok h" "h_count h = 1" and gap: "gapless h" and s: "unat s \<le> 2 ^ 40" and n: "3 \<le> n" "n \<le> 40"
    and top: "heap_below h (2 ^ 60)"
    and st: "alloc_scan (2 ^ n) (2 ^ n) 0 0 1 h (scan_start h) = (i, st)"
    and r: "choose_chunk grant (2 ^ n) (2 ^ n) s False i st h = (r, h2)"
  shows "arena_ok h2 \<and> h_count h2 = 1 \<and> live h2 = live h \<and> h_mem h2 = h_mem h \<and>
    (case r of None \<Rightarrow> h_errno h2 = ENOMEM \<and> \<not> ((\<forall>x y. grant x y) \<and> length (chunks h) < MAXCHUNKS)
     | Some x \<Rightarrow> chosen n h2 x)"
proof -
  note f = malloc_search [OF ok gap s st]
  have fp: "unat (sc_fp st) \<le> 2 ^ 60" using f(7) [OF top] .
  show ?thesis
  proof (cases "sc_ncm st")
    case (Some ij)
    with f(8) obtain j where j: "j < length (chunks h)" "ij = (1, j)" "good_unit (2 ^ n) (2 ^ n) (chunks h ! j) (sc_sh st)" by auto
    have "r = Some (ij, sc_sh st, sc_fp st, 1)" "h2 = h"
      using r Some f(3) f(5) by (auto simp: choose_chunk_def Let_def)
    moreover have "sc_sh st < 512" "\<not> unit_used (cm_map (chunks h ! j)) (sc_sh st)"
      using free_unit_Some j(3) unfolding good_unit_def by blast+
    ultimately show ?thesis using ok j by (auto simp: chosen_def good_unit_def)
  next
    case None
    show ?thesis
    proof (cases "length (chunks h) < MAXCHUNKS")
      case False
      then have "r = None" "h2 = no_memory h"
        using r None f(1,4,5) ok(2) by (auto simp: choose_chunk_def Let_def next_map_def numallocmaps_one)
      then show ?thesis using False ok by (simp add: no_memory_def)
    next
      case True
      define p where "p = (if ALLOCSIZE \<le> (2 :: u64) ^ n then align_up (sc_fp st) (2 ^ n) else sc_fp st)"
      have le: "unat (sc_fp st) \<le> unat p" "unat p \<le> 2 ^ 60 + 2 ^ 40"
        using align_up_power [OF n(2) fp] fp by (auto simp: p_def)
      have hb: "heap_below h (unat p)" using f(6) le(1) by (auto simp: heap_below_def)
      obtain b where nc: "new_chunk grant False (2 ^ n) 1 p h = (b, h2)"
        and r': "r = (if b then Some ((1, length (chunks h)), 0, p, 1) else None)"
      proof -
        have m: "(case h_maps h 1 of Some am \<Rightarrow> length (am_chunks am) | None \<Rightarrow> 0) = length (chunks h)"
          by (simp add: chunks_def split: option.split)
        show thesis
          using r None True f(4,5) m that unfolding choose_chunk_def p_def by (auto simp: Let_def split: prod.splits)
      qed
      show ?thesis using new_chunk_ok [OF ok n le(2) hb nc] r' True by auto
    qed
  qed
qed

lemma live_update:
  assumes "j < length (chunks h)" and "chunks h' = (chunks h)[j := c]" and "chunk_blocks c = insert b (chunk_blocks (chunks h ! j))"
  shows "live h' = insert b (live h)"
proof -
  have e: "set ((chunks h)[j := c]) = insert c (set ((chunks h)[j := c]))" using assms(1) by (simp add: insert_absorb set_update_memI)
  have "live h = chunk_blocks (chunks h ! j) \<union> (\<Union>k \<in> {..<length (chunks h)} - {j}. chunk_blocks (chunks h ! k))"
    using assms(1) by (auto simp: live_def set_conv_nth)
  moreover have "live h' = chunk_blocks c \<union> (\<Union>k \<in> {..<length (chunks h)} - {j}. chunk_blocks (chunks h ! k))"
    using assms(1,2) by (auto simp: live_def set_conv_nth nth_list_update split: if_splits)
  ultimately show ?thesis using assms(3) by auto
qed

lemma small_unit_disjoint:
  assumes ok: "arena_ok h" and j: "j < length (chunks h)" and c: "c = chunks h ! j" "cm_quantum c < ALLOCSIZE"
    and sh: "sh < 512" "\<not> unit_used (cm_map c) sh" and b: "b \<in> live h"
  shows "span b \<inter> span (cm_ptr c + of_nat sh * cm_quantum c, cm_quantum c) = {}"
proof -
  have all: "chunk_ok d" if "d \<in> set (chunks h)" for d using ok that by (auto simp: arena_ok_def)
  have cok: "chunk_ok c" using all j c(1) by simp
  obtain k where k: "k < length (chunks h)" "b \<in> chunk_blocks (chunks h ! k)" using b by (auto simp: live_def set_conv_nth)
  show ?thesis
  proof (cases "k = j")
    case True
    with k c obtain l where l: "b = (cm_ptr c + of_nat l * cm_quantum c, cm_quantum c)" "l < 512" "unit_used (cm_map c) l"
      by (auto simp: chunk_blocks_def)
    then show ?thesis using units_disjoint [OF cok c(2) l(2) sh(1)] sh(2) by auto
  next
    case False
    have "chunk_span (chunks h ! k) \<inter> chunk_span c = {}"
      using False j k(1) ok unfolding arena_ok_def sorted_wrt_iff_nth_less c(1)
      by (cases k j rule: linorder_cases) (blast, simp, metis Int_commute)
    moreover have "span b \<subseteq> chunk_span (chunks h ! k)" using block_in_chunk [OF all k(2)] k(1) by simp
    ultimately show ?thesis using unit_span(2) [OF cok c(2) sh(1)] by blast
  qed
qed

text \<open>The answer of \<open>take_unit\<close>: the block, its size and the room it may use.\<close>

definition taken :: "nat \<Rightarrow> u64 \<Rightarrow> heap_t \<Rightarrow> heap_t \<Rightarrow> u64 \<Rightarrow> bool" where
  "taken n s h h' p \<longleftrightarrow> (\<exists>m. unat s \<le> unat m \<and> unat m \<le> 2 ^ n \<and> live h' = insert (p, m) (live h) \<and>
     unat p + 2 ^ n \<le> 2 ^ 63 \<and> (\<forall>b \<in> live h. span b \<inter> {unat p ..< unat p + 2 ^ n} = {}))"

lemma take_small:
  assumes ok: "arena_ok h" "h_count h = 1" and n: "n \<le> 40" and s: "s \<le> 2 ^ n"
    and ch: "chosen n h ((i, j), sh, fp, am)" and small: "(2 :: u64) ^ n < ALLOCSIZE"
  shows "\<exists>p h2. take_unit grant False i j sh s fp h = Some (p, h2) \<and> arena_ok h2 \<and> h_mem h2 = h_mem h \<and>
    live h \<subseteq> live h2 \<and> (if p = 0 then \<not> (\<forall>x y. grant x y) else taken n s h h2 p)"
proof -
  define c where "c = chunks h ! j"
  have j: "i = 1" "j < length (chunks h)" "cm_quantum c = 2 ^ n" and sh: "sh < 512" "\<not> unit_used (cm_map c) sh"
    using ch small by (auto simp: chosen_def c_def)
  have q: "cm_quantum c < ALLOCSIZE" using small j(3) by simp
  have cok: "chunk_ok c" "heap_base h \<le> unat (cm_ptr c)" using ok j(2) by (auto simp: arena_ok_def c_def)
  define p where "p = cm_ptr c + of_nat sh * cm_quantum c"
  define h1 where "h1 = upd_chunks 1 (\<lambda>cs. cs[j := set_unit sh c]) h"
  have at: "chunk_at h i j = Some c"
    using j(1,2) ok by (auto simp: chunk_at_def c_def arena_ok_def)
  have "chunk_ok (set_unit sh c)" using cok(1) q by (simp add: chunk_ok_def)
  then have r: "arena_ok h1" "chunks h1 = (chunks h)[j := set_unit sh c]" "h_mem h1 = h_mem h"
    using replace_chunk_ok [OF ok j(2), of "set_unit sh c"] q by (simp_all add: h1_def c_def)
  have lv: "live h1 = insert (p, 2 ^ n) (live h)"
    using live_update [OF j(2) r(2)] set_unit_blocks [OF cok(1) q sh(1)] j(3) by (simp add: p_def c_def)
  have up: "unat p = unat (cm_ptr c) + sh * unat (cm_quantum c)" unfolding p_def by (rule unat_unit [OF cok(1) q sh(1)])
  have sp: "span (p, 2 ^ n) = {unat p ..< unat p + 2 ^ n}" by (simp add: span_def unat_power n)
  have "unat p + 2 ^ n \<le> 2 ^ 63"
  proof -
    have "Suc sh * unat (cm_quantum c) \<le> 512 * unat (cm_quantum c)" using sh(1) by (intro mult_le_mono1) simp
    then have "unat p + unat (cm_quantum c) \<le> unat (cm_ptr c) + unat (chunk_len c)"
      using up chunk_len_small [OF cok(1) q] by simp
    then show ?thesis using cok(1) j(3) n by (simp add: chunk_ok_def unat_power)
  qed
  moreover have "span b \<inter> {unat p ..< unat p + 2 ^ n} = {}" if "b \<in> live h" for b
    using small_unit_disjoint [OF ok(1) j(2) c_def q sh that, folded p_def] j(3) sp by simp
  ultimately have tk: "taken n s h h1 p"
    using lv s n unfolding taken_def by (intro exI [of _ "2 ^ n"]) (simp add: unat_power word_le_nat_alt)
  have p0: "p \<noteq> 0" using up cok(2) by (auto simp: heap_base_def word_unat_eq_iff)
  have fr: "taken n s h (h1\<lparr>h_os := x\<rparr>) y = taken n s h h1 y" for x y by (simp add: taken_def)
  have t: "take_unit grant False i j sh s fp h =
      (if PAGESIZE \<le> cm_quantum c
       then Some (if grant p (cm_quantum c) then p else 0, h1\<lparr>h_os := h_os h1 @ [Mmap p (cm_quantum c)]\<rparr>) else Some (p, h1))"
    using j(1) at q by (simp add: take_unit_def p_def h1_def Let_def mmap_def)
  show ?thesis unfolding t using r lv tk p0 fr by auto
qed

lemma take_big:
  assumes ok: "arena_ok h" "h_count h = 1" and n: "n \<le> 40" and s: "s \<le> 2 ^ n" "0 < s"
    and ch: "chosen n h ((i, j), sh, fp, am)" and big: "\<not> (2 :: u64) ^ n < ALLOCSIZE"
  shows "\<exists>p h2. take_unit grant False i j sh s fp h = Some (p, h2) \<and> arena_ok h2 \<and> h_mem h2 = h_mem h \<and>
    live h \<subseteq> live h2 \<and> (if p = 0 then \<not> (\<forall>x y. grant x y) else taken n s h h2 p)"
proof -
  define c where "c = chunks h ! j"
  define m where "m = ((s + ALLOCSIZE - 1) div ALLOCSIZE) * ALLOCSIZE"
  define c' where "c' = c\<lparr>cm_map := (cm_map c)[0 := m]\<rparr>"
  have j: "i = 1" "j < length (chunks h)" "cm_quantum c = 2 ^ n" and z: "cm_map c ! 0 = 0" "cm_ptr c = fp"
    and fp: "heap_below h (unat fp)" "unat fp \<le> 2 ^ 60 + 2 ^ 40"
    using ch big by (auto simp: chosen_def c_def)
  have q: "\<not> cm_quantum c < ALLOCSIZE" using big j(3) by simp
  have cok: "chunk_ok c" "heap_base h \<le> unat (cm_ptr c)" using ok j(2) by (auto simp: arena_ok_def c_def)
  have two: "(2 :: nat) ^ n \<le> 2 ^ 40" using power_increasing [OF n, of "2 :: nat"] by simp
  have sn: "unat s \<le> 2 ^ n" using s(1) n by (simp add: word_le_nat_alt unat_power)
  then have s40: "unat s \<le> 2 ^ 40" using two by linarith
  have n21: "(2 :: nat) ^ 21 dvd 2 ^ n"
  proof (rule le_imp_power_dvd, rule ccontr)
    assume "\<not> 21 \<le> n"
    then have "(2 :: nat) ^ n < 2 ^ 21" by (intro power_strict_increasing) simp_all
    then show False using big n by (simp add: alloc_defs word_less_nat_alt unat_power)
  qed
  have m: "unat m = (unat s + 2097151) div 2097152 * 2097152" "unat s \<le> unat m"
    using round_up_size [OF s40] by (simp_all add: m_def)
  have mn: "unat m \<le> 2 ^ n"
  proof -
    obtain d where d: "(2 :: nat) ^ n = 2097152 * d" using n21 by (auto elim: dvdE)
    have "(unat s + 2097151) div 2097152 \<le> d" using sn d div_le_mono [of "unat s + 2097151" "2097152 * d + 2097151" 2097152] by simp
    then show ?thesis using m(1) d by simp
  qed
  have m0: "m \<noteq> 0" using m(2) s(2) by (auto simp: word_less_nat_alt)
  have len: "chunk_len c' = m" using q cok(1) by (simp add: chunk_len_def c'_def chunk_ok_def BITMAPSIZE_def)
  have c'ok: "chunk_ok c'" using cok(1) len mn two fp(2) z(2) unfolding chunk_ok_def by (auto simp: c'_def)
  define h1 where "h1 = upd_chunks 1 (\<lambda>cs. cs[j := c']) h"
  have r: "arena_ok h1" "chunks h1 = (chunks h)[j := c']" "h_mem h1 = h_mem h"
    using replace_chunk_ok [OF ok j(2) c'ok] fp(1) z(2) by (simp_all add: h1_def c'_def c_def)
  have "chunk_blocks c = {}" using z(1) q by (simp add: chunk_blocks_def)
  moreover have "chunk_blocks c' = {(fp, m)}"
    using q m0 z(2) cok(1) by (simp add: chunk_blocks_def c'_def chunk_ok_def BITMAPSIZE_def)
  ultimately have lv: "live h1 = insert (fp, m) (live h)" using live_update [OF j(2) r(2), of "(fp, m)"] by (simp add: c_def)
  have "span b \<inter> {unat fp ..< unat fp + 2 ^ n} = {}" if "b \<in> live h" for b
  proof -
    from that obtain d where d: "d \<in> set (chunks h)" "b \<in> chunk_blocks d" unfolding live_def by blast
    have "span b \<subseteq> chunk_span d" using block_in_chunk d ok(1) by (auto simp: arena_ok_def)
    then show ?thesis using below_chunk [OF ok(1) fp(1) d(1)] by (force simp: chunk_span_def)
  qed
  then have tk: "taken n s h h1 fp"
    using lv m(2) mn fp(2) two unfolding taken_def by (intro exI [of _ m]) auto
  have at: "chunk_at h i j = Some c"
    using j(1,2) ok by (auto simp: chunk_at_def c_def arena_ok_def)
  have p0: "fp \<noteq> 0" using z(2) cok(2) by (auto simp: heap_base_def word_unat_eq_iff)
  have upd: "upd_chunks k f (h\<lparr>h_os := x\<rparr>) = (upd_chunks k f h)\<lparr>h_os := x\<rparr>" for k f x by (simp add: upd_chunks_def)
  have fr: "taken n s h (h1\<lparr>h_os := x\<rparr>) y = taken n s h h1 y" for x y by (simp add: taken_def)
  have t: "take_unit grant False i j sh s fp h =
      (if grant fp m then Some (fp, h1\<lparr>h_os := h_os h @ [Mmap fp m]\<rparr>) else Some (0, h\<lparr>h_os := h_os h @ [Mmap fp m]\<rparr>))"
    using j(1) at q by (simp add: take_unit_def h1_def Let_def mmap_def upd m_def [symmetric] c'_def [symmetric])
  show ?thesis unfolding t using r lv tk p0 fr ok by auto
qed

lemma bytes_at_put_outside:
  assumes d: "span (p, k) \<inter> {unat a ..< unat a + n} = {}" and n: "length xs \<le> n" "unat a + n \<le> 2 ^ 63"
    and k: "unat p + unat k \<le> 2 ^ 63"
  shows "bytes_at (put_bytes a xs m) p (unat k) = bytes_at m p (unat k)"
proof -
  have "put_bytes a xs m (p + of_nat j) = m (p + of_nat j)" if j: "j < unat k" for j
  proof (rule put_bytes_outside)
    let ?x = "p + of_nat j"
    have x: "unat ?x = unat p + j"
      using j k unat_add_lem [of p "of_nat j"] unat_of_nat_u64 [of j] by simp
    then have out: "\<not> (unat a \<le> unat ?x \<and> unat ?x < unat a + n)" using d j by (auto simp: span_def)
    show "\<not> unat (?x - a) < length xs"
    proof (cases "unat a \<le> unat ?x")
      case True
      then have "unat (?x - a) = unat ?x - unat a" by (simp add: unat_sub_le word_le_nat_alt)
      then show ?thesis using out True n by simp
    next
      case False
      then have "unat (a - ?x) = unat a - unat ?x" by (simp add: unat_sub_le word_le_nat_alt)
      moreover have "unat (?x - a) + unat (a - ?x) = 2 ^ 64" using False by (intro unat_diff_sym) auto
      ultimately show ?thesis using n False by simp
    qed
  qed
  then show ?thesis by (simp add: bytes_at_eq_iff)
qed

lemma take_ok:
  assumes "arena_ok h" and "h_count h = 1" and "n \<le> 40" and "s \<le> 2 ^ n" and "0 < s" and "chosen n h ((i, j), sh, fp, am)"
  shows "\<exists>p h2. take_unit grant False i j sh s fp h = Some (p, h2) \<and> arena_ok h2 \<and> h_mem h2 = h_mem h \<and>
    live h \<subseteq> live h2 \<and> (if p = 0 then \<not> (\<forall>x y. grant x y) else taken n s h h2 p)"
  using take_small [OF assms(1-4,6)] take_big [OF assms] by (cases "(2 :: u64) ^ n < ALLOCSIZE") simp_all

lemma live_bound:
  assumes "arena_ok h" and "b \<in> live h" and "snd b \<noteq> 0"
  shows "unat (fst b) + unat (snd b) \<le> 2 ^ 63"
proof -
  from assms(2) obtain d where d: "d \<in> set (chunks h)" "b \<in> chunk_blocks d" unfolding live_def by blast
  then have c: "chunk_ok d" using assms(1) by (auto simp: arena_ok_def)
  have "0 < unat (snd b)" using assms(3) by (simp add: unat_gt_0)
  then have "unat (fst b) + unat (snd b) - 1 \<in> span b" by (simp add: span_def)
  then have "unat (fst b) + unat (snd b) - 1 < unat (cm_ptr d) + unat (chunk_len d)"
    using block_in_chunk [OF c d(2)] by (auto simp: chunk_span_def)
  moreover have "unat (cm_ptr d) + unat (chunk_len d) \<le> 2 ^ 62" using c by (simp add: chunk_ok_def)
  ultimately show ?thesis by simp
qed

lemma cleared:
  assumes "k \<le> n" and "unat p + n \<le> 2 ^ 63"
  shows "bytes_at (put_bytes p (replicate n 0) m) p k = replicate k 0"
proof -
  have "n \<le> 2 ^ 64" using assms(2) by simp
  then have "bytes_at (put_bytes p (replicate n 0) m) p n = replicate n 0"
    using bytes_at_put_same [of "replicate n 0" p m] by simp
  moreover have "bytes_at m' p k = take k (bytes_at m' p n)" for m'
    using bytes_at_add [of m' p k "n - k"] assms(1) by simp
  ultimately show ?thesis using assms(1) by simp
qed

text \<open>The last step of a fresh allocation: the block is cleared, and the other blocks keep their contents.\<close>

lemma finish_fresh:
  assumes ok: "arena_ok h" and n: "n \<le> 40" and p: "p \<noteq> 0" and t: "arena_ok h3" "h_mem h3 = h_mem h" "taken n s h h3 p"
  shows "\<exists>h' m. finish_alloc False p 0 (2 ^ n) None am h3 = Some (p, h') \<and> arena_ok h' \<and> s \<le> m \<and>
    live h' = insert (p, m) (live h) \<and> (\<forall>b \<in> live h. span b \<inter> span (p, m) = {}) \<and>
    bytes_at (h_mem h') p (unat s) = replicate (unat s) 0 \<and>
    (\<forall>b \<in> live h. bytes_at (h_mem h') (fst b) (unat (snd b)) = bytes_at (h_mem h) (fst b) (unat (snd b)))"
proof -
  obtain k where k: "unat s \<le> unat k" "unat k \<le> 2 ^ n" "live h3 = insert (p, k) (live h)"
    "unat p + 2 ^ n \<le> 2 ^ 63" "\<And>b. b \<in> live h \<Longrightarrow> span b \<inter> {unat p ..< unat p + 2 ^ n} = {}"
    using t(3) unfolding taken_def by auto
  define h4 where "h4 = h3\<lparr>h_mem := put_bytes p (replicate (2 ^ n) 0) (h_mem h)\<rparr>"
  have r: "finish_alloc False p 0 (2 ^ n) None am h3 = Some (p, h4)"
    using p t(2) memset_eq [OF p, of 0 "2 ^ n" "h_mem h"] by (simp add: finish_alloc_def fill_block_def h4_def unat_power n)
  have keep: "bytes_at (h_mem h4) (fst b) (unat (snd b)) = bytes_at (h_mem h) (fst b) (unat (snd b))" if b: "b \<in> live h" for b
  proof (cases "snd b = 0")
    case False
    then show ?thesis
      using bytes_at_put_outside [of "fst b" "snd b" p "2 ^ n" "replicate (2 ^ n) 0" "h_mem h"] k(5) [OF b] k(4)
        live_bound [OF ok b] by (simp add: h4_def)
  qed simp
  have "span (p, k) \<subseteq> {unat p ..< unat p + 2 ^ n}" using k(2) by (auto simp: span_def)
  then have apart: "span b \<inter> span (p, k) = {}" if "b \<in> live h" for b using k(5) [OF that] by blast
  have z: "bytes_at (h_mem h4) p (unat s) = replicate (unat s) 0"
    using cleared [of "unat s" "2 ^ n" p] k(1,2,4) by (simp add: h4_def)
  have "arena_ok h4" "live h4 = insert (p, k) (live h)" using t(1) k(3) by (simp_all add: h4_def)
  then show ?thesis using r keep apart z k(1) unfolding word_le_nat_alt by blast
qed

text \<open>The steps of \<open>malloc\<close>, with the alignment replaced by the quantum.\<close>

definition fresh_run :: "(u64 \<Rightarrow> u64 \<Rightarrow> bool) \<Rightarrow> nat \<Rightarrow> u64 \<Rightarrow> heap_t \<Rightarrow> (u64 \<times> heap_t) option" where
  "fresh_run grant n s h =
     (case first_map grant h of (ok, h) \<Rightarrow> if \<not> ok then Some (0, h)
       else case alloc_scan (2 ^ n) (2 ^ n) 0 0 1 h (scan_start h) of (i, st) \<Rightarrow>
         case choose_chunk grant (2 ^ n) (2 ^ n) s False i st h of (None, h) \<Rightarrow> Some (0, h)
         | (Some ((i, j), sh, fp, am), h) \<Rightarrow> Option.bind (take_unit grant False i j sh s fp h)
             (\<lambda>(fp, h). finish_alloc False fp 0 (2 ^ n) (sc_ocm st) am h))"

lemma malloc_steps:
  assumes "0 < s" and "s \<le> 2 ^ 40"
  shows "\<exists>n. 3 \<le> n \<and> n \<le> 40 \<and> s \<le> 2 ^ n \<and> malloc grant s h = fresh_run grant n s h"
proof -
  obtain n where n: "3 \<le> n" "n \<le> 40" "quantum s 8 = Some (2 ^ n)" "s \<le> 2 ^ n"
    using quantum_power [of 3 s] assms(2) by auto
  have "(2 :: nat) ^ 3 \<le> 2 ^ n" using n(1) by (rule power_increasing) simp
  then have "(8 :: u64) \<le> 2 ^ n" using n(2) by (simp add: word_le_nat_alt unat_power)
  then have q8: "(if 8 < (2 :: u64) ^ n then 2 ^ n else 8) = (2 :: u64) ^ n" by auto
  obtain b h1 i st where f: "first_map grant h = (b, h1)" "alloc_scan (2 ^ n) (2 ^ n) 0 0 1 h1 (scan_start h1) = (i, st)"
    by fastforce
  have "s \<noteq> 0" using assms(1) by auto
  then have "malloc grant s h = fresh_run grant n s h"
    using n(3) unfolding malloc_def bzt_alloc_def fresh_run_def Let_def by (simp add: q8 f [simplified])
  with n show ?thesis by blast
qed

text \<open>
  C24. A block from \<^verbatim>\<open>malloc\<close> is new memory: it is at least as large as asked for, cleared, and shares no byte with
  any block that is still in use; those keep their contents, and the arena stays well formed. The answer is zero, with
  \<^verbatim>\<open>ENOMEM\<close> and no block lost, only when the kernel refused memory or the map of the arena is full. Required are
  that the lowest chunk lies right behind the map (no gap was left by freeing it) and that the request and
  the addresses are far from the end of the address space.
\<close>

theorem malloc_fresh:
  assumes ok: "arena_ok h" and gap: "gapless h" and top: "heap_below h (2 ^ 60)" and s: "0 < s" "s \<le> 2 ^ 40"
  shows "\<exists>p h'. malloc grant s h = Some (p, h') \<and> arena_ok h' \<and> live h \<subseteq> live h' \<and>
    (\<forall>b \<in> live h. bytes_at (h_mem h') (fst b) (unat (snd b)) = bytes_at (h_mem h) (fst b) (unat (snd b))) \<and>
    (if p = 0 then h_errno h' = ENOMEM \<and> \<not> ((\<forall>x y. grant x y) \<and> length (chunks h) < MAXCHUNKS)
     else \<exists>m. s \<le> m \<and> live h' = insert (p, m) (live h) \<and> (\<forall>b \<in> live h. span b \<inter> span (p, m) = {}) \<and>
       bytes_at (h_mem h') p (unat s) = replicate (unat s) 0)"
proof -
  have s40: "unat s \<le> 2 ^ 40" using s(2) by (simp add: word_le_nat_alt)
  from malloc_steps [OF s, of grant h] obtain n where
    n: "3 \<le> n" "n \<le> 40" "s \<le> 2 ^ n" and m: "malloc grant s h = fresh_run grant n s h" by blast
  obtain okf h1 where fm: "first_map grant h = (okf, h1)" by fastforce
  note f = first_map_ok [OF ok fm]
  have lv1: "live h1 = live h" using f by (simp add: live_def)
  show ?thesis
  proof (cases okf)
    case False
    then show ?thesis using m f lv1 fm by (auto simp: fresh_run_def)
  next
    case True
    obtain i st where sc: "alloc_scan (2 ^ n) (2 ^ n) 0 0 1 h1 (scan_start h1) = (i, st)" by fastforce
    obtain r h2 where chk: "choose_chunk grant (2 ^ n) (2 ^ n) s False i st h1 = (r, h2)" by fastforce
    have b1: "arena_ok h1" "h_count h1 = 1" "gapless h1" "heap_below h1 (2 ^ 60)"
      using f True gap top by (simp_all add: gapless_def heap_below_def heap_base_def)
    note c = choose_ok [OF b1(1-3) s40 n(1,2) b1(4) sc chk] and oc = malloc_search(2) [OF b1(1-3) s40 sc]
    show ?thesis
    proof (cases r)
      case None
      then show ?thesis using m fm sc chk True c f lv1 by (auto simp: fresh_run_def)
    next
      case (Some x)
      obtain i j sh fp am where x: "x = ((i, j), sh, fp, am)" by (metis prod.exhaust)
      then have ch: "chosen n h2 ((i, j), sh, fp, am)" "arena_ok h2" "h_count h2 = 1" "live h2 = live h" "h_mem h2 = h_mem h"
        using c Some f lv1 by auto
      from take_ok [OF ch(2,3) n(2,3) s(1) ch(1), of grant] obtain p h3 where
        t: "take_unit grant False i j sh s fp h2 = Some (p, h3)" "arena_ok h3" "h_mem h3 = h_mem h2" "live h2 \<subseteq> live h3"
          "if p = 0 then \<not> (\<forall>x y. grant x y) else taken n s h2 h3 p" by blast
      have m': "malloc grant s h = finish_alloc False p 0 (2 ^ n) None am h3"
        using m fm sc chk True Some x t(1) oc by (simp add: fresh_run_def)
      show ?thesis
      proof (cases "p = 0")
        case True
        then show ?thesis using m' t ch by (auto simp: finish_alloc_def no_memory_def)
      next
        case False
        then have "taken n s h h3 p" using t(5) ch(4) by (simp add: taken_def)
        from finish_fresh [OF ok n(2) False t(2) _ this, of am] show ?thesis using t(3) ch(5) m' False by auto
      qed
    qed
  qed
qed

text \<open>An arena before its first use.\<close>

definition empty_heap :: heap_t where
  "empty_heap = \<lparr>h_arena = 0x400000, h_count = 0, h_maps = Map.empty, h_mem = (\<lambda>_. 7), h_errno = 0, h_os = []\<rparr>"

theorem malloc_fresh_witness:
  "\<exists>p h' m. malloc (\<lambda>_ _. True) 100 empty_heap = Some (p, h') \<and> p \<noteq> 0 \<and> arena_ok h' \<and> 100 \<le> m \<and> live h' = {(p, m)} \<and>
     bytes_at (h_mem h') p 100 = replicate 100 0"
proof -
  have e: "arena_ok empty_heap" "gapless empty_heap" "heap_below empty_heap (2 ^ 60)" "live empty_heap = {}" "chunks empty_heap = []"
    by (simp_all add: arena_ok_def gapless_def heap_below_def live_def chunks_def heap_base_def empty_heap_def)
  show ?thesis using malloc_fresh [OF e(1-3), of 100 "\<lambda>_ _. True"] e(4,5) by (auto simp: MAXCHUNKS_def split: if_splits)
qed

section \<open>Defects\<close>

lemma free_scan_one:
  assumes "h_count h = 1" and "h_maps h = [1 \<mapsto> am]"
  shows "free_scan ptr 0 1 h =
    map_option (\<lambda>j. (1, j, am_chunks am ! j)) (find_index (in_chunk ptr) (am_chunks am))"
  using assms
  by (simp add: free_scan.simps [of _ 0] free_scan.simps [of _ "Suc 0"] numallocmaps_one MAXARENA_def split: option.split)

text \<open>
  A chunk is taken for empty when the words of its bit map add up to zero, which they also do when the sum wraps:
  with the units 63 and 127 still in use, freeing a third block gives the whole chunk back to the kernel.
\<close>

definition sample_heap :: heap_t where
  "sample_heap = empty_heap\<lparr>h_count := 1, h_maps := [1 \<mapsto> \<lparr>am_addr = 0x600000,
     am_chunks = [\<lparr>cm_quantum = 8, cm_ptr = 0x800000, cm_map = [0x8000000000000001, 0x8000000000000000, 0, 0, 0, 0, 0, 0]\<rparr>]\<rparr>]\<rparr>"

lemma free_drops_live_units:
  "unit_used (cm_map (chunks sample_heap ! 0)) 63" "unit_used (cm_map (chunks sample_heap ! 0)) 127"
  "chunks (bzt_free 0x800000 sample_heap) = []"
  "h_os (bzt_free 0x800000 sample_heap) = [Munmap 0x800000 4096, Munmap 0x600000 2097152]"
proof -
  define c where "c = \<lparr>cm_quantum = 8, cm_ptr = 0x800000, cm_map = [0x8000000000000001, 0x8000000000000000, 0, 0, 0, 0, 0, 0 :: u64]\<rparr>"
  have m: "h_maps sample_heap = [1 \<mapsto> \<lparr>am_addr = 0x600000, am_chunks = [c]\<rparr>]" "h_count sample_heap = 1"
    by (simp_all add: sample_heap_def c_def)
  have "in_chunk 0x800000 c" by (simp add: in_chunk_def chunk_end_def chunk_len_def chunksize_def alloc_defs c_def)
  then have "free_scan 0x800000 0 1 sample_heap = Some (1, 0, c)"
    unfolding free_scan_one [OF m(2,1)] by simp
  then have f: "bzt_free 0x800000 sample_heap = release True 1 1 0 c 0x800000 sample_heap"
    using m(1) by (simp add: bzt_free_def)
  show "chunks (bzt_free 0x800000 sample_heap) = []"
    "h_os (bzt_free 0x800000 sample_heap) = [Munmap 0x800000 4096, Munmap 0x600000 2097152]"
    unfolding f
    by (simp_all add: release_def c_def alloc_defs clear_unit_def update_at_def words_sum_def Let_def chunksize_def
        remove_chunk_def upd_chunks_def drop_chunk_def munmap_def chunks_def sample_heap_def empty_heap_def)
  show "unit_used (cm_map (chunks sample_heap ! 0)) 63" "unit_used (cm_map (chunks sample_heap ! 0)) 127"
    by (simp_all add: unit_used_def chunks_def sample_heap_def)
qed

text \<open>
  When a block shrinks, the whole old block is copied, over whatever lies behind the new one: here 16 bytes
  into a unit of 8, next to a unit that is in use.
\<close>

definition shrink_heap :: heap_t where
  "shrink_heap = empty_heap\<lparr>h_count := 1, h_maps := [1 \<mapsto> \<lparr>am_addr = 0x600000,
     am_chunks = [\<lparr>cm_quantum = 8, cm_ptr = 0x800000, cm_map = [2, 0, 0, 0, 0, 0, 0, 0]\<rparr>,
                  \<lparr>cm_quantum = 16, cm_ptr = 0x801000, cm_map = [1, 0, 0, 0, 0, 0, 0, 0]\<rparr>]\<rparr>],
     h_mem := (\<lambda>a. if a < 0x801000 then 1 else 2)\<rparr>"

lemma free_unit_first: "\<not> unit_used m 0 \<Longrightarrow> free_unit m sf = Some 0"
  by (simp add: free_unit_def BITMAPSIZE_def upt_conv_Cons)

lemmas scan_defs = scan_map_def scan_chunk_def chunk_end_def chunk_len_def chunksize_def in_chunk_def alloc_defs Let_def

lemma release_mem [simp]: "h_mem (release w n i j c p h) = h_mem h"
  by (simp add: release_def remove_chunk_def upd_chunks_def munmap_def Let_def split: option.split)

lemma realloc_overwrites_neighbour:
  "unit_used (cm_map (chunks shrink_heap ! 0)) 1"
  "map_option (\<lambda>(p, h). (p, h_mem shrink_heap 0x800008, h_mem h 0x800008)) (realloc (\<lambda>_ _. True) 0x801000 8 shrink_heap) =
     Some (0x800000, 1, 2)"
proof -
  define c where "c = \<lparr>cm_quantum = 8, cm_ptr = 0x800000, cm_map = [2, 0, 0, 0, 0, 0, 0, 0 :: u64]\<rparr>"
  define d where "d = \<lparr>cm_quantum = 16, cm_ptr = 0x801000, cm_map = [1, 0, 0, 0, 0, 0, 0, 0 :: u64]\<rparr>"
  have m: "h_maps shrink_heap = [1 \<mapsto> \<lparr>am_addr = 0x600000, am_chunks = [c, d]\<rparr>]" "h_count shrink_heap = 1"
    by (simp_all add: shrink_heap_def c_def d_def)
  have q: "quantum 8 8 = Some 8" by (simp add: quantum.simps)
  have u: "\<not> unit_used (cm_map c) 0" by (simp add: unit_used_def c_def)
  have mc: "snd (memcpy 0x800000 0x801000 16 (h_mem shrink_heap)) 0x800008 = 2"
  proof -
    have dr: "disjoint_runs 0x800000 (unat (16 :: u64)) 0x801000 (unat (16 :: u64))" by (simp add: disjoint_runs_def)
    have "put_bytes 0x800000 (bytes_at (h_mem shrink_heap) 0x801000 16) (h_mem shrink_heap) (0x800000 + of_nat 8) =
        bytes_at (h_mem shrink_heap) 0x801000 16 ! 8"
      by (rule put_bytes_inside) simp_all
    then show ?thesis using memcpy_eq [OF _ _ dr, of "h_mem shrink_heap"] by (simp add: shrink_heap_def)
  qed
  show "unit_used (cm_map (chunks shrink_heap ! 0)) 1" by (simp add: unit_used_def chunks_def shrink_heap_def)
  have "alloc_scan 8 8 0x801000 0 1 shrink_heap (scan_start shrink_heap) = (2, \<lparr>sc_fp = 0x803000, sc_sp = 0x800000,
      sc_lp = 0x800000, sc_fc = 1, sc_ncm = Some (1, 0), sc_sh = 0, sc_ocm = Some (1, 1), sc_am = 1\<rparr>)"
    unfolding alloc_scan_one [OF m(2,1)] using free_unit_first [OF u]
    by (simp add: scan_defs c_def d_def shrink_heap_def empty_heap_def)
  moreover have "first_map (\<lambda>_ _. True) shrink_heap = (True, shrink_heap)" by (simp add: first_map_def numallocmaps_one m)
  ultimately show "map_option (\<lambda>(p, h). (p, h_mem shrink_heap 0x800008, h_mem h 0x800008)) (realloc (\<lambda>_ _. True) 0x801000 8 shrink_heap) =
     Some (0x800000, 1, 2)"
    using q m mc
    by (simp add: realloc_def bzt_alloc_def Let_def choose_chunk_def take_unit_def chunk_at_def finish_alloc_def upd_chunks_def
        fill_block_def c_def d_def alloc_defs) (simp add: shrink_heap_def)
qed

text \<open>
  With a gap below the chunks a new chunk may overlap an old one: the test compares the gap with the size of
  the block and not of the chunk.
\<close>

definition gap_heap :: heap_t where
  "gap_heap = empty_heap\<lparr>h_count := 1, h_maps := [1 \<mapsto> \<lparr>am_addr = 0x600000,
     am_chunks = [\<lparr>cm_quantum = 8, cm_ptr = 0xB00000, cm_map = [1, 0, 0, 0, 0, 0, 0, 0]\<rparr>]\<rparr>]\<rparr>"

lemma gap_chunk_overlaps:
  "map_option (\<lambda>(p, h). map (\<lambda>c. (cm_ptr c, chunk_end c)) (chunks h)) (malloc (\<lambda>_ _. True) 0x4000 gap_heap) =
     Some [(0xB00000, 0xB01000), (0x800000, 0x1000000)]"
proof -
  define c where "c = \<lparr>cm_quantum = 8, cm_ptr = 0xB00000, cm_map = [1, 0, 0, 0, 0, 0, 0, 0 :: u64]\<rparr>"
  have m: "h_maps gap_heap = [1 \<mapsto> \<lparr>am_addr = 0x600000, am_chunks = [c]\<rparr>]" "h_count gap_heap = 1"
    by (simp_all add: gap_heap_def c_def)
  have q: "quantum 0x4000 8 = Some 0x4000" by (simp add: quantum.simps)
  have "alloc_scan 0x4000 0x4000 0 0 1 gap_heap (scan_start gap_heap) = (2, \<lparr>sc_fp = 0xB01000, sc_sp = 0xB00000,
      sc_lp = 0x800000, sc_fc = 1, sc_ncm = None, sc_sh = 0, sc_ocm = None, sc_am = 1\<rparr>)"
    unfolding alloc_scan_one [OF m(2,1)] by (simp add: scan_defs c_def gap_heap_def empty_heap_def)
  moreover have "first_map (\<lambda>_ _. True) gap_heap = (True, gap_heap)" by (simp add: first_map_def numallocmaps_one m)
  ultimately show ?thesis
    using q m
    by (simp add: malloc_def bzt_alloc_def Let_def choose_chunk_def new_chunk_def take_unit_def chunk_at_def finish_alloc_def
        upd_chunks_def fill_block_def mmap_def alloc_defs chunks_def set_unit_def chunk_end_def chunk_len_def chunksize_def c_def)
qed

end
