(* ===== verification/Fs_State.thy ===== *)
theory Fs_State
  imports Cmem "HOL-Library.Monad_Syntax"
begin

text \<open>
  The data of the file system service, \<^verbatim>\<open>src/fs\<close>: file control blocks, mount table, devices,
  pipes, block cache, task contexts and the globals of the handlers, as one record.

  Conventions. Strings are lists of bytes without the closing zero, and a \<^verbatim>\<open>char*\<close> that may be
  \<^verbatim>\<open>NULL\<close> is an option. Arrays that grow with \<^verbatim>\<open>realloc\<close> are lists, and the counter beside them
  (\<^verbatim>\<open>nfcb\<close>, \<^verbatim>\<open>ndev\<close>, \<^verbatim>\<open>npipe\<close>, \<^verbatim>\<open>nmtab\<close>, \<^verbatim>\<open>nfsdrv\<close>) is their length; new memory reads as zero, as the
  allocator hands it out. Chains of nodes (cache lines, task contexts) are kept in an explicit
  store with \<^verbatim>\<open>next\<close> pointers, because some operations build cycles in them. \<open>heap_ok\<close> is the
  answer of the allocator to the requests of one operation. An operation returns an option:
  \<open>None\<close> stands for a run that does not come back, because a loop does not end or because it
  uses an invalid pointer.
\<close>

section \<open>Constants\<close>

definition FCB_TYPE_REG_FILE :: u8 where "FCB_TYPE_REG_FILE = 0"
definition FCB_TYPE_REG_DIR :: u8 where "FCB_TYPE_REG_DIR = 1"
definition FCB_TYPE_DEVICE :: u8 where "FCB_TYPE_DEVICE = 2"
definition FCB_TYPE_PIPE :: u8 where "FCB_TYPE_PIPE = 3"
definition FCB_TYPE_SOCKET :: u8 where "FCB_TYPE_SOCKET = 4"
definition FCB_TYPE_UNION :: u8 where "FCB_TYPE_UNION = 5"
definition FCB_FLAG_EXCL :: u8 where "FCB_FLAG_EXCL = 1"

lemmas fcb_type_defs = FCB_TYPE_REG_FILE_def FCB_TYPE_REG_DIR_def FCB_TYPE_DEVICE_def
  FCB_TYPE_PIPE_def FCB_TYPE_SOCKET_def FCB_TYPE_UNION_def FCB_FLAG_EXCL_def

definition MEMFS_MAJOR :: u64 where "MEMFS_MAJOR = 0"
definition MEMFS_ZERO :: u64 where "MEMFS_ZERO = 0"
definition MEMFS_RAMDISK :: u64 where "MEMFS_RAMDISK = 1"
definition MEMFS_RANDOM :: u64 where "MEMFS_RANDOM = 2"
definition MEMFS_NULL :: u64 where "MEMFS_NULL = 3"

lemmas memfs_defs = MEMFS_MAJOR_def MEMFS_ZERO_def MEMFS_RAMDISK_def MEMFS_RANDOM_def MEMFS_NULL_def

definition OF_MODE_TTY :: u32 where "OF_MODE_TTY = 0x4000"
definition OF_MODE_READDIR :: u32 where "OF_MODE_READDIR = 0x8000"
definition OF_MODE_EOF :: u32 where "OF_MODE_EOF = 0x10000"

lemmas of_mode_defs = OF_MODE_TTY_def OF_MODE_READDIR_def OF_MODE_EOF_def

definition ROOTMTAB :: nat where "ROOTMTAB = 0"
definition ROOTFCB :: u64 where "ROOTFCB = 0"
definition DEVFCB :: u64 where "DEVFCB = 1"
definition DEVPATH :: "u8 list" where "DEVPATH = chars ''/dev/''"
definition PATHSTACKSIZE :: nat where "PATHSTACKSIZE = 64"

definition DRV_read :: u64 where "DRV_read = 3"
definition DRV_write :: u64 where "DRV_write = 4"
definition DRV_ioctl :: u64 where "DRV_ioctl = 5"
definition BUFSIZ :: u64 where "BUFSIZ = 65536"

definition S_IFUNI :: u32 where "S_IFUNI = 0x02000000"
definition S_IFCHR :: u32 where "S_IFCHR = 0x03000000"
definition S_IFDIR :: u32 where "S_IFDIR = 0x010000"
definition S_IFIFO :: u32 where "S_IFIFO = 0x030000"
definition S_IFTTY :: u32 where "S_IFTTY = 0x080000"
definition S_IMODE :: u32 where "S_IMODE = 0xFFF"

lemmas s_mode_defs = S_IFUNI_def S_IFCHR_def S_IFDIR_def S_IFIFO_def S_IFTTY_def S_IMODE_def

text \<open>
  The sources write the invalid index as \<^verbatim>\<open>-1U\<close>, a 32 bit value that widens to \<open>0xFFFFFFFF\<close>;
  some callers compare with \<^verbatim>\<open>-1UL\<close>, which is the 64 bit value.
\<close>

definition NOFID :: u64 where "NOFID = 0xFFFFFFFF"
definition NOFID64 :: u64 where "NOFID64 = - 1"
definition NOFS :: u16 where "NOFS = - 1"

lemmas nofid_defs = NOFID_def NOFID64_def NOFS_def

section \<open>Data types\<close>

record writebuf_t =
  w_offs :: u64
  w_size :: u64
  w_data :: "u8 list"

text \<open>
  \<^verbatim>\<open>fcb_t\<close>. The variants of the \<^verbatim>\<open>data\<close> union share their first words: \<^verbatim>\<open>storage\<close>, \<^verbatim>\<open>inode\<close> and
  \<^verbatim>\<open>filesize\<close> have the same place in every variant that has them, and \<^verbatim>\<open>pipe.idx\<close> lies on \<^verbatim>\<open>storage\<close>.
  The remaining words (\<^verbatim>\<open>blksize\<close>, \<^verbatim>\<open>buf\<close>, \<^verbatim>\<open>ver\<close>, \<^verbatim>\<open>unionlist\<close>) are kept apart: an entry is used with
  the variant of its type only.
\<close>

record fcb_t =
  f_abspath :: "u8 list option"
  f_nopen :: u64
  f_type :: u8
  f_flags :: u8
  f_fs :: u16
  f_mode :: u32
  f_storage :: u64
  f_inode :: u64
  f_filesize :: u64
  f_blksize :: u32
  f_buf :: "writebuf_t list"
  f_ver :: u8
  f_unionlist :: "u64 list option"

definition zero_fcb :: fcb_t where
  "zero_fcb = \<lparr>f_abspath = None, f_nopen = 0, f_type = 0, f_flags = 0, f_fs = 0, f_mode = 0,
     f_storage = 0, f_inode = 0, f_filesize = 0, f_blksize = 0, f_buf = [], f_ver = 0,
     f_unionlist = None\<rparr>"

record mtab_t =
  mt_mountpoint :: u64
  mt_storage :: u64
  mt_fstype :: u64

record devfs_t =
  d_fid :: u64
  d_drivertask :: u64
  d_device :: u64
  d_recent :: u64
  d_total :: u64
  d_out :: u64

definition zero_dev :: devfs_t where
  "zero_dev = \<lparr>d_fid = 0, d_drivertask = 0, d_device = 0, d_recent = 0, d_total = 0, d_out = 0\<rparr>"

record pipe_t =
  pp_reader :: u64
  pp_fid :: u64
  pp_nopen :: u64
  pp_rd :: u64
  pp_size :: u64
  pp_data :: "u8 list option"
  pp_owner :: uuid
  pp_rdtime :: u64
  pp_wrtime :: u64

definition zero_pipe :: pipe_t where
  "zero_pipe = \<lparr>pp_reader = 0, pp_fid = 0, pp_nopen = 0, pp_rd = 0, pp_size = 0, pp_data = None,
     pp_owner = replicate 16 0, pp_rdtime = 0, pp_wrtime = 0\<rparr>"

text \<open>A node of a cache line; the low 60 bits of \<open>c_fd\<close> are the device, the high ones the priority.\<close>

record cache_t =
  c_fd :: u64
  c_lsn :: u64
  c_blk :: "u8 list"
  c_next :: "nat option"

record openfiles_t =
  o_fid :: u64
  o_mode :: u32
  o_offs :: u64
  o_unionidx :: u32
  o_trid :: u32

definition zero_of :: openfiles_t where
  "zero_of = \<lparr>o_fid = 0, o_mode = 0, o_offs = 0, o_unionidx = 0, o_trid = 0\<rparr>"

text \<open>
  \<^verbatim>\<open>taskctx_t\<close>. The array of open files is \<^verbatim>\<open>NULL\<close> exactly when the list is empty: \<^verbatim>\<open>nopenfiles\<close>
  is its length, and the last slot is freed with the array.
\<close>

record taskctx_t =
  tc_pid :: u64
  tc_rootdir :: u64
  tc_workdir :: u64
  tc_workoffs :: u64
  tc_workleft :: u64
  tc_nfiles :: u64
  tc_openfiles :: "openfiles_t list"
  tc_msg :: msg_t
  tc_next :: "nat option"

definition zero_tc :: taskctx_t where
  "zero_tc = \<lparr>tc_pid = 0, tc_rootdir = 0, tc_workdir = 0, tc_workoffs = 0, tc_workleft = 0,
     tc_nfiles = 0, tc_openfiles = [], tc_msg = zero_msg, tc_next = None\<rparr>"

record stat_t =
  st_dev :: u64
  st_ino :: u64
  st_mode :: u32
  st_type :: "u8 list"
  st_mime :: "u8 list"
  st_nlink :: u64
  st_owner :: uuid
  st_size :: u64
  st_blksize :: u32
  st_blocks :: u64
  st_atime :: u64
  st_mtime :: u64
  st_ctime :: u64

definition zero_stat :: stat_t where
  "zero_stat = \<lparr>st_dev = 0, st_ino = 0, st_mode = 0, st_type = replicate 4 0,
     st_mime = replicate 44 0, st_nlink = 0, st_owner = replicate 16 0, st_size = 0, st_blksize = 0,
     st_blocks = 0, st_atime = 0, st_mtime = 0, st_ctime = 0\<rparr>"

record dirent_t =
  de_dev :: u64
  de_ino :: u64
  de_icon :: "u8 list"
  de_filesize :: u64
  de_type :: u32
  de_len :: u32
  de_name :: "u8 list"

record fsck_t =
  fk_dev :: u64
  fk_step :: u8
  fk_fix :: bool
  fk_fs :: u16

text \<open>
  A pointer to a block: a place in the address space of the service (the ram disk, message
  buffers, shared memory), or a block of the heap with its bytes.
\<close>

datatype bptr = Mem u64 | Blk "u8 list"

text \<open>
  What leaves the service: messages with their destination, function code and arguments, and
  \<^verbatim>\<open>tskcpy\<close>, which copies bytes into the address space of another task; the two structures that are
  copied this way are kept as they are.
\<close>

datatype marg = Num u64 | Ptr bptr

datatype fsout =
    Send u64 u64 "marg list"
  | Tskcpy u64 u64 "u8 list"
  | Tskstat u64 u64 stat_t
  | Tskdirent u64 u64 dirent_t

record fsstate =
  fcbs :: "fcb_t list"
  mtab :: "mtab_t list"
  rootmounted :: bool
  devs :: "devfs_t list"
  dev_recent :: u64
  devidx :: "u32 list"
  pipes :: "pipe_t list"
  cachelines :: u32
  cachelimit :: u32
  cache_inflush :: u64
  cnodes :: "nat \<Rightarrow> cache_t option"
  cfresh :: nat
  cache :: "nat option list"
  tctxs :: "nat \<Rightarrow> taskctx_t option"
  tfresh :: nat
  taskctx :: "u64 \<Rightarrow> nat option"
  ntaskctx :: u64
  ctx :: "nat option"
  fs_errno :: u64
  ackdelayed :: bool
  nomem :: bool
  fsck :: fsck_t
  pathmax :: u32
  devfsidx :: u16
  heap_ok :: bool
  fmem :: mem
  outbox :: "fsout list"
  s_now :: u64
  s_uidof :: "u64 \<Rightarrow> uuid"
  s_entropy :: "u8 list"
  lastsec :: u64

section \<open>Access\<close>

definition seterr :: "u64 \<Rightarrow> fsstate \<Rightarrow> fsstate" where "seterr e s = s\<lparr>fs_errno := e\<rparr>"

definition mq_send :: "u64 \<Rightarrow> u64 \<Rightarrow> marg list \<Rightarrow> fsstate \<Rightarrow> fsstate" where
  "mq_send dst func args s = s\<lparr>outbox := outbox s @ [Send dst func args]\<rparr>"

definition tskcpy :: "u64 \<Rightarrow> u64 \<Rightarrow> u8 list \<Rightarrow> fsstate \<Rightarrow> fsstate" where
  "tskcpy pid dst xs s = s\<lparr>outbox := outbox s @ [Tskcpy pid dst xs]\<rparr>"

text \<open>Element access with the index of the source; outside the array the access is invalid.\<close>

definition at :: "'a list \<Rightarrow> 'b::len word \<Rightarrow> 'a option" where
  "at xs i = (if unat i < length xs then Some (xs ! unat i) else None)"

definition upd_fcb :: "u64 \<Rightarrow> (fcb_t \<Rightarrow> fcb_t) \<Rightarrow> fsstate \<Rightarrow> fsstate" where
  "upd_fcb i g s = s\<lparr>fcbs := update_at (unat i) g (fcbs s)\<rparr>"

definition upd_dev :: "u64 \<Rightarrow> (devfs_t \<Rightarrow> devfs_t) \<Rightarrow> fsstate \<Rightarrow> fsstate" where
  "upd_dev i g s = s\<lparr>devs := update_at (unat i) g (devs s)\<rparr>"

definition upd_pipe :: "u64 \<Rightarrow> (pipe_t \<Rightarrow> pipe_t) \<Rightarrow> fsstate \<Rightarrow> fsstate" where
  "upd_pipe i g s = s\<lparr>pipes := update_at (unat i) g (pipes s)\<rparr>"

text \<open>The bytes a block pointer refers to, \<open>n\<close> of them; a heap block that is shorter is overrun.\<close>

definition blk_bytes :: "fsstate \<Rightarrow> bptr \<Rightarrow> nat \<Rightarrow> u8 list option" where
  "blk_bytes s p n =
     (case p of Mem a \<Rightarrow> Some (bytes_at (fmem s) a n)
      | Blk xs \<Rightarrow> if n \<le> length xs then Some (take n xs) else None)"

text \<open>
  Delivery to a reader: shared memory, whose addresses are negative, is written directly, and
  any other address through the kernel.
\<close>

definition deliver :: "u64 \<Rightarrow> u64 \<Rightarrow> u8 list \<Rightarrow> fsstate \<Rightarrow> fsstate" where
  "deliver pid dst xs s =
     (if dst <s 0 then s\<lparr>fmem := put_bytes dst xs (fmem s)\<rparr> else tskcpy pid dst xs s)"

lemma at_Some_iff: "at xs i = Some x \<longleftrightarrow> unat i < length xs \<and> xs ! unat i = x"
  by (auto simp: at_def)

lemma at_None_iff: "at xs i = None \<longleftrightarrow> length xs \<le> unat i"
  by (auto simp: at_def)

lemma at_in [simp]: "unat i < length xs \<Longrightarrow> at xs i = Some (xs ! unat i)"
  by (simp add: at_def)

text \<open>The tables of the service stay far below the invalid index.\<close>

definition small_tables :: "fsstate \<Rightarrow> bool" where
  "small_tables s \<longleftrightarrow> length (fcbs s) < 2 ^ 31 \<and> length (devs s) < 2 ^ 31 \<and> length (pipes s) < 2 ^ 31"

text \<open>The globals when the service starts, before the initialisation functions run.\<close>

definition fs_start :: fsstate where
  "fs_start = \<lparr>fcbs = [], mtab = [], rootmounted = False, devs = [], dev_recent = 0, devidx = [],
     pipes = [], cachelines = 0, cachelimit = 0, cache_inflush = 0, cnodes = (\<lambda>_. None), cfresh = 0,
     cache = [], tctxs = (\<lambda>_. None), tfresh = 0, taskctx = (\<lambda>_. None), ntaskctx = 0, ctx = None,
     fs_errno = 0, ackdelayed = False, nomem = False,
     fsck = \<lparr>fk_dev = 0, fk_step = 0, fk_fix = False, fk_fs = 0\<rparr>, pathmax = 512,
     devfsidx = NOFS, heap_ok = True, fmem = (\<lambda>_. 0), outbox = [], s_now = 0,
     s_uidof = (\<lambda>_. replicate 16 0), s_entropy = [], lastsec = 0\<rparr>"

end
