(* ===== verification/Fs_Fcb.thy ===== *)
theory Fs_Fcb
  imports Fs_State
begin

text \<open>
  The table of file control blocks, \<^verbatim>\<open>fs/fcb.c\<close>: searching, adding and removing entries, and the
  write buffers of open files. A pointer to an entry is its index.
\<close>

section \<open>The table\<close>

text \<open>\<^verbatim>\<open>fcb_get\<close> also finds a directory whose path is given without the closing slash.\<close>

definition with_slash :: "u8 list \<Rightarrow> u8 list option" where
  "with_slash p = (if last p \<noteq> of_char (CHR ''/'') then Some (p @ [of_char (CHR ''/'')]) else None)"

definition fcb_match :: "fsstate \<Rightarrow> u8 list \<Rightarrow> fcb_t \<Rightarrow> bool" where
  "fcb_match s p f \<longleftrightarrow> f_abspath f \<noteq> None \<and>
     (f_abspath f = Some p \<or> heap_ok s \<and> with_slash p \<noteq> None \<and> f_abspath f = with_slash p)"

definition fcb_get :: "u8 list option \<Rightarrow> fsstate \<Rightarrow> u64" where
  "fcb_get abspath s =
     (case abspath of
        None \<Rightarrow> NOFID
      | Some p \<Rightarrow>
          if p = [] then NOFID
          else (case find_index (fcb_match s p) (fcbs s) of Some i \<Rightarrow> of_nat i | None \<Rightarrow> NOFID))"

text \<open>
  \<^verbatim>\<open>fcb_add\<close> returns the entry with the path, or fills the first free slot, or appends one. When the
  table cannot grow it is lost: the pointer is overwritten and the count already raised.
\<close>

definition fcb_fill :: "u8 list \<Rightarrow> u8 \<Rightarrow> fcb_t \<Rightarrow> fcb_t" where
  "fcb_fill p type f =
     (let f = f\<lparr>f_abspath := Some p, f_type := type\<rparr> in
      if type < FCB_TYPE_PIPE then f\<lparr>f_fs := NOFS\<rparr> else f)"

definition fcb_add :: "u8 list \<Rightarrow> u8 \<Rightarrow> fsstate \<Rightarrow> (u64 \<times> fsstate) option" where
  "fcb_add abspath type s =
     (case find_index (\<lambda>f. f_abspath f = Some abspath) (fcbs s) of
        Some i \<Rightarrow> Some (of_nat i, s)
      | None \<Rightarrow>
          (case find_index (\<lambda>f. f_abspath f = None) (fcbs s) of
             Some j \<Rightarrow>
               if heap_ok s
               then Some (of_nat j, s\<lparr>fcbs := update_at j (fcb_fill abspath type) (fcbs s)\<rparr>)
               else Some (of_nat j, s\<lparr>fcbs := update_at j ((\<lambda>f. f\<lparr>f_abspath := None\<rparr>) \<circ> fcb_fill abspath type) (fcbs s)\<rparr>)
           | None \<Rightarrow>
               if heap_ok s
               then Some (of_nat (length (fcbs s)), s\<lparr>fcbs := fcbs s @ [fcb_fill abspath type zero_fcb]\<rparr>)
               else None))"

text \<open>
  \<^verbatim>\<open>fcb_del\<close> lowers the reference count; the last reference removes the entry together with the
  references a union holds on its members, and the free slots at the end of the table are given
  back. The recursion over the members is run with an explicit stack of pending calls: the
  removal of an entry comes after the calls for its members.
\<close>

datatype del_call = Del u64 | Fin u64

definition fcb_shrink :: "fcb_t list \<Rightarrow> fcb_t list" where
  "fcb_shrink fs = rev (dropWhile (\<lambda>f. f_abspath f = None) (rev fs))"

definition del_members :: "u64 \<Rightarrow> fcb_t \<Rightarrow> u64 list" where
  "del_members idx f =
     (if f_type f = FCB_TYPE_UNION
      then (case f_unionlist f of
              Some ul \<Rightarrow> filter (\<lambda>i. i \<noteq> idx) (takeWhile (\<lambda>i. i \<noteq> 0) ul)
            | None \<Rightarrow> [])
      else [])"

definition del_entry :: "fcb_t \<Rightarrow> fcb_t" where
  "del_entry f =
     (if f_type f = FCB_TYPE_UNION
      then f\<lparr>f_unionlist := None, f_abspath := None, f_filesize := 0\<rparr>
      else f\<lparr>f_abspath := None, f_filesize := 0\<rparr>)"

partial_function (option) del_run :: "del_call list \<Rightarrow> fcb_t list \<Rightarrow> fcb_t list option" where
  "del_run todo fs =
     (case todo of
        [] \<Rightarrow> Some fs
      | Fin idx # rest \<Rightarrow> del_run rest (fcb_shrink (update_at (unat idx) del_entry fs))
      | Del idx # rest \<Rightarrow>
          if length fs \<le> unat idx \<or> f_abspath (fs ! unat idx) = None then del_run rest fs
          else
            let f = fs ! unat idx;
                n = (if 0 < f_nopen f then f_nopen f - 1 else f_nopen f);
                fs' = update_at (unat idx) (\<lambda>f. f\<lparr>f_nopen := n\<rparr>) fs
            in if n \<noteq> 0 then del_run rest fs'
               else del_run (map Del (del_members idx f) @ Fin idx # rest) fs')"

definition fcb_del :: "u64 \<Rightarrow> fsstate \<Rightarrow> fsstate option" where
  "fcb_del idx s = map_option (\<lambda>fs. s\<lparr>fcbs := fs\<rparr>) (del_run [Del idx] (fcbs s))"

text \<open>
  \<^verbatim>\<open>fcb_free\<close> goes over the table until a round finds no entry without references.
\<close>

partial_function (option) free_round :: "nat \<Rightarrow> bool \<Rightarrow> fsstate \<Rightarrow> (bool \<times> fsstate) option" where
  "free_round i was s =
     (if i < length (fcbs s)
      then if f_nopen (fcbs s ! i) = 0
           then Option.bind (fcb_del (of_nat i) s) (free_round (Suc i) True)
           else free_round (Suc i) was s
      else Some (was, s))"

partial_function (option) fcb_free :: "fsstate \<Rightarrow> fsstate option" where
  "fcb_free s =
     (case free_round 0 False s of
        None \<Rightarrow> None
      | Some (was, s') \<Rightarrow> if was then fcb_free s' else Some s')"

section \<open>Write buffers\<close>

text \<open>
  \<^verbatim>\<open>fcb_write\<close> first drops the buffers that the new one covers. When the very first buffer of the
  list is dropped the loop goes on from a null pointer.
\<close>

fun drop_covered :: "u64 \<Rightarrow> u64 \<Rightarrow> bool \<Rightarrow> writebuf_t list \<Rightarrow> writebuf_t list option" where
  "drop_covered offs e first [] = Some []"
| "drop_covered offs e first (w # ws) =
     (if offs \<le> w_offs w \<and> w_offs w + w_size w \<le> e
      then (if first then None else drop_covered offs e False ws)
      else map_option (Cons w) (drop_covered offs e False ws))"

text \<open>
  Then the place of the new buffer is searched. The pointer to the previous buffer is never
  advanced in this loop, so a buffer that ends before an existing one becomes the head of the
  list whatever came before it; and a list that is run through to its end gets nothing added.
  A buffer that overlaps the end of an existing one is written through a block that is too small
  and freed at once. Result: the list and whether the buffer was stored.
\<close>

fun place_buffer :: "writebuf_t \<Rightarrow> writebuf_t list \<Rightarrow> writebuf_t list \<Rightarrow> (bool \<times> writebuf_t list) option" where
  "place_buffer nw pre [] = Some (False, pre)"
| "place_buffer nw pre (w # ws) =
     (let offs = w_offs nw; e = w_offs nw + w_size nw; we = w_offs w + w_size w in
      if e < w_offs w then Some (True, nw # w # ws)
      else if offs < w_offs w \<and> w_offs w \<le> e \<and> e < we
      then Some (True, pre @ \<lparr>w_offs = offs, w_size = we - offs,
             w_data = w_data nw @ take (unat (we - e)) (w_data w)\<rparr> # ws)
      else if w_offs w \<le> offs \<and> e \<le> we
      then Some (True, pre @ w\<lparr>w_data := take (unat (offs - w_offs w)) (w_data w) @ w_data nw @
             drop (unat (offs - w_offs w) + length (w_data nw)) (w_data w)\<rparr> # ws)
      else if w_offs w < offs \<and> offs \<le> we \<and> we < e then None
      else place_buffer nw (pre @ [w]) ws)"

text \<open>
  The file system drivers are not part of the service: what \<^verbatim>\<open>fcb_write\<close> needs to know of the
  driver of a file is whether there is one with a \<^verbatim>\<open>write\<close> function, \<open>writable\<close>.
\<close>

definition fcb_write :: "(u16 \<Rightarrow> bool) \<Rightarrow> u64 \<Rightarrow> u64 \<Rightarrow> u8 list \<Rightarrow> fsstate \<Rightarrow> (bool \<times> fsstate) option" where
  "fcb_write writable idx offs buf s =
     (if length (fcbs s) \<le> unat idx then Some (False, seterr EFAULT s)
      else
        let f = fcbs s ! unat idx in
        if f_type f \<noteq> FCB_TYPE_REG_FILE then Some (False, seterr EBADF s)
        else if f_storage f \<noteq> NOFID \<and> fk_dev (fsck s) = f_storage f then Some (False, seterr EBUSY s)
        else if f_mode f AND O_WRITE = 0 then Some (False, seterr EACCES s)
        else if \<not> writable (f_fs f) then Some (False, seterr EROFS s)
        else if \<not> heap_ok s \<or> buf = [] then Some (False, s)
        else
          let nw = \<lparr>w_offs = offs, w_size = of_nat (length buf), w_data = buf\<rparr> in
          (case drop_covered offs (offs + of_nat (length buf)) True (f_buf f) of
             None \<Rightarrow> None
           | Some ws \<Rightarrow>
               (case place_buffer nw [] ws of
                  None \<Rightarrow> None
                | Some (chk, ws') \<Rightarrow> Some (chk, upd_fcb idx (\<lambda>f. f\<lparr>f_buf := ws'\<rparr>) s))))"

section \<open>The table: invariant and operations\<close>

text \<open>
  A well formed table: no path occurs twice, a free slot has no references, and the table does
  not end with a free slot.
\<close>

definition fcb_distinct :: "fcb_t list \<Rightarrow> bool" where
  "fcb_distinct fs \<longleftrightarrow> (\<forall>i j. i < j \<and> j < length fs \<and> f_abspath (fs ! i) \<noteq> None \<longrightarrow>
     f_abspath (fs ! i) \<noteq> f_abspath (fs ! j))"

definition fcb_trim :: "fcb_t list \<Rightarrow> bool" where
  "fcb_trim fs \<longleftrightarrow> (fs \<noteq> [] \<longrightarrow> f_abspath (last fs) \<noteq> None)"

definition fcb_wf :: "fsstate \<Rightarrow> bool" where
  "fcb_wf s \<longleftrightarrow> fcb_distinct (fcbs s) \<and> fcb_trim (fcbs s) \<and> length (fcbs s) < 2 ^ 31 \<and>
     (\<forall>f \<in> set (fcbs s). f_abspath f = None \<longrightarrow> f_nopen f = 0)"

lemma fcb_shrink_append:
  obtains r where "fs = fcb_shrink fs @ r" "\<forall>f \<in> set r. f_abspath f = None"
proof -
  have "rev fs = takeWhile (\<lambda>f. f_abspath f = None) (rev fs) @ dropWhile (\<lambda>f. f_abspath f = None) (rev fs)"
    by simp
  then have "fs = fcb_shrink fs @ rev (takeWhile (\<lambda>f. f_abspath f = None) (rev fs))"
    unfolding fcb_shrink_def by (metis rev_append rev_rev_ident)
  then show thesis by (rule that) (auto dest: set_takeWhileD)
qed

lemma fcb_shrink_trim: "fcb_trim (fcb_shrink fs)"
proof (cases "dropWhile (\<lambda>f. f_abspath f = None) (rev fs)")
  case (Cons a as)
  then have "f_abspath a \<noteq> None" by (metis (mono_tags, lifting) hd_dropWhile list.distinct(1) list.sel(1))
  with Cons show ?thesis by (simp add: fcb_trim_def fcb_shrink_def)
qed (simp add: fcb_trim_def fcb_shrink_def)

lemma fcb_shrink_id: "fcb_trim fs \<Longrightarrow> fcb_shrink fs = fs"
  by (cases fs rule: rev_cases) (auto simp: fcb_trim_def fcb_shrink_def)

lemma fcb_distinctD:
  "fcb_distinct fs \<Longrightarrow> i < j \<Longrightarrow> j < length fs \<Longrightarrow> f_abspath (fs ! i) = Some p \<Longrightarrow> f_abspath (fs ! j) \<noteq> Some p"
  unfolding fcb_distinct_def by force

lemma fcb_distinct_append:
  assumes "fcb_distinct (xs @ ys)"
  shows "fcb_distinct xs"
  unfolding fcb_distinct_def
proof (intro allI impI)
  fix i j assume "i < j \<and> j < length xs \<and> f_abspath (xs ! i) \<noteq> None"
  then show "f_abspath (xs ! i) \<noteq> f_abspath (xs ! j)"
    using fcb_distinctD [OF assms, of i j] by (auto simp: nth_append)
qed

lemma fcb_distinct_shrink: "fcb_distinct fs \<Longrightarrow> fcb_distinct (fcb_shrink fs)"
  by (rule fcb_shrink_append [of fs]) (metis fcb_distinct_append)

lemma fcb_distinct_update:
  assumes "fcb_distinct fs" and "f_abspath x = None \<or> f_abspath x = f_abspath (fs ! i)"
  shows "fcb_distinct (fs[i := x])"
proof (cases "i < length fs")
  case True
  show ?thesis unfolding fcb_distinct_def
  proof (intro allI impI)
    fix j k assume "j < k \<and> k < length (fs[i := x]) \<and> f_abspath (fs[i := x] ! j) \<noteq> None"
    then show "f_abspath (fs[i := x] ! j) \<noteq> f_abspath (fs[i := x] ! k)"
      using assms(2) fcb_distinctD [OF assms(1), of j k] True
      by (cases "i = j"; cases "i = k") auto
  qed
qed (use assms in \<open>simp add: list_update_beyond\<close>)

text \<open>Entries that are not unions: removal needs no recursion.\<close>

lemma u64_pred_nonzero: "(if 0 < w then w - 1 else w) \<noteq> 0 \<longleftrightarrow> 1 < w" for w :: u64
proof -
  have "1 < w \<longleftrightarrow> w \<noteq> 0 \<and> w \<noteq> 1"
    unfolding word_less_nat_alt word_eq_iff_unat by auto
  then show ?thesis by (simp add: word_gt_0)
qed

lemma del_run_simple:
  assumes "i < length fs" and "f_type (fs ! i) \<noteq> FCB_TYPE_UNION" and "length fs < 2 ^ 64"
  shows "del_run [Del (of_nat i)] fs =
    (if f_abspath (fs ! i) = None then Some fs
     else if 1 < f_nopen (fs ! i)
     then Some (fs[i := (fs ! i)\<lparr>f_nopen := f_nopen (fs ! i) - 1\<rparr>])
     else Some (fcb_shrink (fs[i := (fs ! i)\<lparr>f_nopen := 0, f_abspath := None, f_filesize := 0\<rparr>])))"
proof -
  have u: "unat (of_nat i :: u64) = i" using assms by (intro unat_of_nat_u64) simp
  let ?n = "if 0 < f_nopen (fs ! i) then f_nopen (fs ! i) - 1 else f_nopen (fs ! i)"
  show ?thesis
  proof (cases "f_abspath (fs ! i) = None")
    case True
    then show ?thesis by (simp add: del_run.simps [of "Del (of_nat i) # _"] del_run.simps [of "[]"] u)
  next
    case False
    then obtain p where p: "f_abspath (fs ! i) = Some p" by blast
    show ?thesis
    proof (cases "1 < f_nopen (fs ! i)")
      case True
      then have "0 < f_nopen (fs ! i)" "?n \<noteq> 0" using u64_pred_nonzero [of "f_nopen (fs ! i)"]
        by (auto simp: word_gt_0 split: if_splits)
      then show ?thesis using p assms True
        by (simp add: del_run.simps [of "Del (of_nat i) # _"] del_run.simps [of "[]"] u Let_def update_at_def)
    next
      case le: False
      then have "?n = 0" using u64_pred_nonzero by blast
      then show ?thesis using p le assms
        by (simp add: del_run.simps [of "Del (of_nat i) # _"] del_run.simps [of "Fin (of_nat i) # _"]
            del_run.simps [of "[]"] u Let_def update_at_def del_members_def del_entry_def)
    qed
  qed
qed

section \<open>Releasing unused entries\<close>

text \<open>A table in which an entry without references stands before one that is in use.\<close>

definition free_gap :: "fcb_t list \<Rightarrow> bool" where
  "free_gap fs \<longleftrightarrow> (\<exists>i j. i < j \<and> j < length fs \<and> f_nopen (fs ! i) = 0 \<and> f_nopen (fs ! j) \<noteq> 0)"

definition no_unions :: "fcb_t list \<Rightarrow> bool" where
  "no_unions fs \<longleftrightarrow> (\<forall>f \<in> set fs. f_type f \<noteq> FCB_TYPE_UNION)"

lemma fcb_del_unused:
  assumes "i < length (fcbs s)" and "no_unions (fcbs s)" and "length (fcbs s) < 2 ^ 31"
    and "f_nopen (fcbs s ! i) = 0"
  shows "fcb_del (of_nat i) s = Some (s\<lparr>fcbs :=
    (if f_abspath (fcbs s ! i) = None then fcbs s
     else fcb_shrink ((fcbs s)[i := (fcbs s ! i)\<lparr>f_nopen := 0, f_abspath := None, f_filesize := 0\<rparr>]))\<rparr>)"
proof -
  have "f_type (fcbs s ! i) \<noteq> FCB_TYPE_UNION" using assms by (auto simp: no_unions_def)
  with assms show ?thesis by (simp add: fcb_del_def del_run_simple)
qed

text \<open>
  The entry at the end of the gap keeps the table from shrinking, and the one at its start is
  found unused in every round.
\<close>

definition gap_at :: "nat \<Rightarrow> nat \<Rightarrow> fcb_t list \<Rightarrow> bool" where
  "gap_at i j fs \<longleftrightarrow> i < j \<and> j < length fs \<and> length fs < 2 ^ 31 \<and> no_unions fs \<and>
     f_nopen (fs ! i) = 0 \<and> f_nopen (fs ! j) \<noteq> 0 \<and> f_abspath (fs ! j) \<noteq> None"

lemma no_unions_shrink: "no_unions fs \<Longrightarrow> no_unions (fcb_shrink fs)"
  by (rule fcb_shrink_append [of fs]) (metis (no_types, lifting) UnCI no_unions_def set_append)

lemma no_unions_update:
  assumes "no_unions fs" and "f_type x \<noteq> FCB_TYPE_UNION"
  shows "no_unions (fs[i := x])"
  using assms set_update_subset_insert [of fs i x] by (auto simp: no_unions_def)

lemma no_unions_nth: "no_unions fs \<Longrightarrow> i < length fs \<Longrightarrow> f_type (fs ! i) \<noteq> FCB_TYPE_UNION"
  by (simp add: no_unions_def)

lemma length_shrink: "length (fcb_shrink fs) \<le> length fs"
  by (rule fcb_shrink_append [of fs]) (metis le_add1 length_append)

lemma nth_shrink: "i < length (fcb_shrink fs) \<Longrightarrow> fcb_shrink fs ! i = fs ! i"
  by (rule fcb_shrink_append [of fs]) (metis nth_append)

lemma shrink_keeps: "i < length fs \<Longrightarrow> f_abspath (fs ! i) \<noteq> None \<Longrightarrow> i < length (fcb_shrink fs)"
proof (rule fcb_shrink_append [of fs])
  fix r assume "i < length fs" "f_abspath (fs ! i) \<noteq> None" "fs = fcb_shrink fs @ r"
    "\<forall>f \<in> set r. f_abspath f = None"
  then show "i < length (fcb_shrink fs)"
    by (metis (no_types, lifting) in_set_conv_nth length_append nat_add_left_cancel_less
        not_less_iff_gr_or_eq nth_append nth_append_length_plus less_iff_Suc_add linorder_neqE_nat
        add_diff_inverse_nat)
qed

lemma gap_del:
  assumes g: "gap_at i j (fcbs s)" and k: "k < length (fcbs s)" "f_nopen (fcbs s ! k) = 0"
  obtains s' where "fcb_del (of_nat k) s = Some s'" "gap_at i j (fcbs s')"
proof -
  let ?fs = "(fcbs s)[k := (fcbs s ! k)\<lparr>f_nopen := 0, f_abspath := None, f_filesize := 0\<rparr>]"
  have kj: "k \<noteq> j" using g k by (auto simp: gap_at_def)
  then have j: "j < length (fcb_shrink ?fs)" using g by (intro shrink_keeps) (auto simp: gap_at_def)
  have n: "fcb_shrink ?fs ! m = ?fs ! m" if "m \<le> j" for m using j that by (intro nth_shrink) simp
  have u: "no_unions (fcb_shrink ?fs)"
    using g k(1) by (intro no_unions_shrink) (auto simp: gap_at_def no_unions_nth intro!: no_unions_update)
  have ij: "i \<le> j" "f_nopen (?fs ! i) = 0" "?fs ! j = fcbs s ! j"
    using g k kj by (auto simp: gap_at_def nth_list_update)
  have "gap_at i j (fcb_shrink ?fs)"
    using g j u length_shrink [of ?fs] n [OF ij(1)] n [OF order_refl] ij
    unfolding gap_at_def by (simp only: length_list_update) auto
  with g k show thesis
    by (intro that [OF fcb_del_unused]) (auto simp: gap_at_def)
qed

lemma free_round_gap_step:
  assumes rec: "\<And>k was s r. rec k was s = Some r \<Longrightarrow>
      gap_at i j (fcbs s) \<longrightarrow> gap_at i j (fcbs (snd r)) \<and> (was \<or> k \<le> i \<longrightarrow> fst r)"
    and run: "(if k < length (fcbs s)
      then if f_nopen (fcbs s ! k) = 0
           then Option.bind (fcb_del (of_nat k) s) (rec (Suc k) True)
           else rec (Suc k) was s
      else Some (was, s)) = Some r" and gap: "gap_at i j (fcbs s)"
  shows "gap_at i j (fcbs (snd r)) \<and> (was \<or> k \<le> i \<longrightarrow> fst r)"
proof (cases "k < length (fcbs s) \<and> f_nopen (fcbs s ! k) = 0")
  case True
  then obtain s' where "fcb_del (of_nat k) s = Some s'" "gap_at i j (fcbs s')"
    using gap_del [OF gap] by blast
  with rec [of "Suc k" True s' r] run True show ?thesis by simp
next
  case False
  have "k \<noteq> i" if "k < length (fcbs s)" using gap False that by (auto simp: gap_at_def)
  moreover have "\<not> k \<le> i" if "\<not> k < length (fcbs s)" using gap that by (auto simp: gap_at_def)
  ultimately show ?thesis
    using False run gap rec [of "Suc k" was s r] by (cases "k < length (fcbs s)") auto
qed

lemma free_round_gap:
  assumes "free_round k was s = Some r"
  shows "gap_at i j (fcbs s) \<longrightarrow> gap_at i j (fcbs (snd r)) \<and> (was \<or> k \<le> i \<longrightarrow> fst r)"
  by (rule free_round.raw_induct [OF _ assms], rule impI, rule free_round_gap_step)

lemma fcb_free_gap: "gap_at i j (fcbs s) \<Longrightarrow> fcb_free s = None"
proof (rule ccontr)
  assume g: "gap_at i j (fcbs s)" and "fcb_free s \<noteq> None"
  then obtain s' where "fcb_free s = Some s'" by blast
  then have "\<not> gap_at i j (fcbs s)"
  proof (rule fcb_free.raw_induct [rotated], intro notI)
    fix rec s s'
    assume rec: "\<And>s y. rec s = Some y \<Longrightarrow> \<not> gap_at i j (fcbs s)"
      and run: "(case free_round 0 False s of None \<Rightarrow> None
        | Some (was, s') \<Rightarrow> if was then rec s' else Some s') = Some s'"
      and g: "gap_at i j (fcbs s)"
    then obtain was t where r: "free_round 0 False s = Some (was, t)"
      by (cases "free_round 0 False s") auto
    with free_round_gap [OF r, of i j] g run have "rec t = Some s'" "gap_at i j (fcbs t)" by auto
    then show False using rec by blast
  qed
  with g show False by blast
qed

text \<open>Without a gap the unused entries stand at the end of the table and one round removes them.\<close>

lemma free_round_used:
  assumes "k \<le> m" and "m \<le> length (fcbs s)" and "\<And>i. i < m \<Longrightarrow> f_nopen (fcbs s ! i) \<noteq> 0"
  shows "free_round k was s = free_round m was s"
  using assms(1)
proof (induction "m - k" arbitrary: k)
  case (Suc d)
  then have k: "k < m" by simp
  with assms have "k < length (fcbs s)" "f_nopen (fcbs s ! k) \<noteq> 0" by simp_all
  then have "free_round k was s = free_round (Suc k) was s"
    by (simp add: free_round.simps [of k])
  also have "\<dots> = free_round m was s" using Suc k by (intro Suc.hyps) simp_all
  finally show ?case .
qed simp

lemma fcb_shrink_tail:
  assumes "fcb_trim us" and "\<forall>f \<in> set rs. f_abspath f = None"
  shows "fcb_shrink (us @ rs) = us"
proof -
  have "dropWhile (\<lambda>f. f_abspath f = None) (rev rs @ rev us) = dropWhile (\<lambda>f. f_abspath f = None) (rev us)"
    using assms(2) by (intro dropWhile_append2) simp
  with fcb_shrink_id [OF assms(1)] show ?thesis by (simp add: fcb_shrink_def)
qed

lemma free_round_tail:
  assumes "fcbs s = us @ rs" and "fcb_trim us" and "no_unions (us @ rs)" and "length (us @ rs) < 2 ^ 31"
    and "\<And>i. k \<le> i \<Longrightarrow> i < length (us @ rs) \<Longrightarrow> f_nopen ((us @ rs) ! i) = 0"
    and "length us \<le> k" and "k < length (us @ rs)" and "f_abspath (last rs) \<noteq> None"
    and "\<And>i. length us \<le> i \<Longrightarrow> i < k \<Longrightarrow> f_abspath ((us @ rs) ! i) = None"
  shows "free_round k was s = Some (True, s\<lparr>fcbs := us\<rparr>)"
  using assms
proof (induction "length (us @ rs) - k" arbitrary: k was s rs)
  case 0
  then show ?case by simp
next
  case (Suc d)
  let ?fs = "us @ rs" and ?f = "(us @ rs) ! k"
  let ?g = "?f\<lparr>f_nopen := 0, f_abspath := None, f_filesize := 0\<rparr>"
  let ?rs = "rs[k - length us := ?g]"
  have del: "fcb_del (of_nat k) s = Some (s\<lparr>fcbs := (if f_abspath ?f = None then ?fs else fcb_shrink (?fs[k := ?g]))\<rparr>)"
    using fcb_del_unused [of k s] Suc.prems by simp
  have upd: "?fs[k := ?g] = us @ ?rs" using Suc.prems(6) by (simp add: list_update_append)
  have step: "free_round k was s = Option.bind (fcb_del (of_nat k) s) (free_round (Suc k) True)"
    using Suc.prems by (simp add: free_round.simps [of k])
  show ?case
  proof (cases "Suc k = length ?fs")
    case True
    obtain p where "f_abspath ?f = Some p"
      using Suc.prems(6-8) True by (cases rs rule: rev_cases) (auto simp: nth_append)
    moreover have "f_abspath x = None" if x: "x \<in> set ?rs" for x
    proof -
      obtain i where i: "i < length rs" "x = ?rs ! i" using x by (auto simp: in_set_conv_nth)
      show ?thesis
      proof (cases "i = k - length us")
        case False
        then have "length us + i < k" using i True by simp
        then show ?thesis using i False Suc.prems(9) [of "length us + i"] by simp
      qed (use i in simp)
    qed
    ultimately have "fcb_del (of_nat k) s = Some (s\<lparr>fcbs := us\<rparr>)"
      using del upd fcb_shrink_tail [OF Suc.prems(2), of ?rs] by simp
    then show ?thesis using step True Suc.prems(6)
      by (simp add: free_round.simps [of "length us + length rs"])
  next
    case False
    then have lt: "Suc k < length ?fs" using Suc.prems(7) by simp
    have ne: "rs \<noteq> []" using Suc.prems(6,7) by auto
    have last: "rs \<noteq> []" "last rs = rs ! (length rs - 1)" "k - length us \<noteq> length rs - 1"
      using Suc.prems(6,7) lt ne last_conv_nth [OF ne] by auto
    have lp: "f_abspath (last ?rs) \<noteq> None"
      using last Suc.prems(8) by (simp add: last_conv_nth nth_list_update)
    have keep: "fcb_shrink (us @ ?rs) = us @ ?rs"
      using lp last(1) by (intro fcb_shrink_id) (simp add: fcb_trim_def)
    define rs' where "rs' = (if f_abspath ?f = None then rs else ?rs)"
    have l: "length rs' = length rs" by (simp add: rs'_def)
    have d: "fcb_del (of_nat k) s = Some (s\<lparr>fcbs := us @ rs'\<rparr>)"
      unfolding del upd keep rs'_def by simp
    have n: "f_nopen ((us @ rs') ! i) = 0" if "Suc k \<le> i" "i < length (us @ rs')" for i
      using Suc.prems(5) [of i] that l upd by (auto simp: rs'_def simp flip: upd)
    have a: "f_abspath ((us @ rs') ! i) = None" if "length us \<le> i" "i < Suc k" for i
      using Suc.prems(7,9) that by (auto simp: rs'_def nth_list_update less_Suc_eq simp flip: upd)
    have u: "no_unions (us @ rs')"
      using Suc.prems(3,7) no_unions_nth [OF Suc.prems(3,7)]
      by (auto simp: rs'_def simp flip: upd intro!: no_unions_update)
    have "free_round (Suc k) True (s\<lparr>fcbs := us @ rs'\<rparr>) = Some (True, (s\<lparr>fcbs := us @ rs'\<rparr>)\<lparr>fcbs := us\<rparr>)"
    proof (rule Suc.hyps(1) [where rs = rs' and k = "Suc k"])
      show "f_abspath (last rs') \<noteq> None" using lp Suc.prems(8) by (simp add: rs'_def)
    qed (use Suc.hyps(2) Suc.prems(2,4,6) lt l n a u in simp_all)
    then show ?thesis using step d by simp
  qed
qed

lemma no_gap_split:
  assumes "\<not> free_gap fs"
  obtains us rs where "fs = us @ rs" "us = takeWhile (\<lambda>f. f_nopen f \<noteq> 0) fs"
    "\<forall>f \<in> set us. f_nopen f \<noteq> 0" "\<forall>f \<in> set rs. f_nopen f = 0"
proof -
  define us rs where "us = takeWhile (\<lambda>f. f_nopen f \<noteq> 0) fs" and "rs = dropWhile (\<lambda>f. f_nopen f \<noteq> 0) fs"
  have fs: "fs = us @ rs" by (simp add: us_def rs_def)
  have "f_nopen f = 0" if f: "f \<in> set rs" for f
  proof (rule ccontr)
    assume n: "f_nopen f \<noteq> 0"
    obtain r ts where rs: "rs = r # ts" using f by (cases rs) auto
    have r: "f_nopen r = 0"
      using hd_dropWhile [of "\<lambda>f. f_nopen f \<noteq> 0" fs] rs unfolding rs_def by force
    with n f rs have "f \<in> set ts" by auto
    then obtain k where k: "k < length ts" "f = ts ! k" by (auto simp: in_set_conv_nth)
    have "length us < length us + Suc k" "length us + Suc k < length fs"
      "f_nopen (fs ! length us) = 0" "f_nopen (fs ! (length us + Suc k)) \<noteq> 0"
      using k r n by (simp_all add: fs rs nth_append)
    then show False using assms unfolding free_gap_def by metis
  qed
  then show thesis using fs
    by (intro that [of us rs]) (auto simp: us_def dest: set_takeWhileD)
qed

text \<open>
  \<^verbatim>\<open>fcb_free\<close>, which the out of memory handler, the exit of a task and \<^verbatim>\<open>fcloseall\<close> run, comes
  back exactly when no unused entry stands before an entry that is in use; then it cuts off the
  unused end of the table. With an unused entry further ahead, for example the path of a closed
  file, every round finds that entry again and the service never answers another message.
\<close>

lemma fcb_free_result:
  assumes wf: "fcb_wf s" and nu: "no_unions (fcbs s)"
  shows "fcb_free s = (if free_gap (fcbs s) then None
    else Some (s\<lparr>fcbs := takeWhile (\<lambda>f. f_nopen f \<noteq> 0) (fcbs s)\<rparr>))"
proof (cases "free_gap (fcbs s)")
  case True
  then obtain i j where "i < j" "j < length (fcbs s)" "f_nopen (fcbs s ! i) = 0" "f_nopen (fcbs s ! j) \<noteq> 0"
    by (auto simp: free_gap_def)
  with wf nu have "gap_at i j (fcbs s)" by (auto simp: gap_at_def fcb_wf_def)
  with True fcb_free_gap show ?thesis by simp
next
  case False
  then obtain us rs where fs: "fcbs s = us @ rs" and tw: "us = takeWhile (\<lambda>f. f_nopen f \<noteq> 0) (fcbs s)"
    and us: "\<forall>f \<in> set us. f_nopen f \<noteq> 0" and rs: "\<forall>f \<in> set rs. f_nopen f = 0"
    by (rule no_gap_split)
  have used: "free_round 0 was t = free_round (length us) was t" if "fcbs t = us @ ts" for was t ts
    using us that by (intro free_round_used) (auto simp: nth_append)
  have stop: "fcb_free t = Some t" if "fcbs t = us" for t
    using used [of t "[]" False] that by (subst fcb_free.simps) (simp add: free_round.simps [of "length us"])
  have trim: "fcb_trim us"
  proof (cases us rule: rev_cases)
    case (snoc vs u)
    then have "f_abspath u \<noteq> None" using wf us fs by (auto simp: fcb_wf_def)
    with snoc show ?thesis by (simp add: fcb_trim_def)
  qed (simp add: fcb_trim_def)
  show ?thesis
  proof (cases "rs = []")
    case True
    then have "takeWhile (\<lambda>f. f_nopen f \<noteq> 0) (fcbs s) = fcbs s" using fs us by simp
    then have "s\<lparr>fcbs := takeWhile (\<lambda>f. f_nopen f \<noteq> 0) (fcbs s)\<rparr> = s" by (simp only:) simp
    then show ?thesis using True False fs stop [of s] by simp
  next
    case nonempty: False
    have "free_round (length us) False s = Some (True, s\<lparr>fcbs := us\<rparr>)"
      using wf nu rs nonempty fs trim
      by (intro free_round_tail [of s us rs]) (auto simp: fcb_wf_def fcb_trim_def nth_append)
    then have "fcb_free s = fcb_free (s\<lparr>fcbs := us\<rparr>)"
      using used [OF fs] by (subst fcb_free.simps) simp
    then show ?thesis using False stop [of "s\<lparr>fcbs := us\<rparr>"] by (simp flip: tw)
  qed
qed

definition sample_dir :: "u8 list \<Rightarrow> u64 \<Rightarrow> fcb_t" where
  "sample_dir p n = zero_fcb\<lparr>f_abspath := Some p, f_nopen := n, f_type := FCB_TYPE_REG_DIR\<rparr>"

lemma sample_dir_simps [simp]:
  "f_abspath (sample_dir p n) = Some p" "f_nopen (sample_dir p n) = n"
  "f_type (sample_dir p n) = FCB_TYPE_REG_DIR"
  by (simp_all add: sample_dir_def)

lemma sample_table_wf:
  assumes "distinct [p, q, r]"
  shows "fcb_wf (s\<lparr>fcbs := [sample_dir p i, sample_dir q j, sample_dir r k]\<rparr>)"
    and "no_unions [sample_dir p i, sample_dir q j, sample_dir r k]"
  using assms by (auto simp: fcb_wf_def fcb_distinct_def fcb_trim_def no_unions_def less_Suc_eq fcb_type_defs)

lemma fcb_free_result_witness:
  "fcb_free (fs_start\<lparr>fcbs := [sample_dir [47] 1, sample_dir [97] 0, sample_dir [98] 1]\<rparr>) = None \<and>
   fcb_free (fs_start\<lparr>fcbs := [sample_dir [47] 1, sample_dir [97] 2, sample_dir [98] 0]\<rparr>) =
     Some (fs_start\<lparr>fcbs := [sample_dir [47] 1, sample_dir [97] 2]\<rparr>)"
proof
  have "free_gap [sample_dir [47] 1, sample_dir [97] 0, sample_dir [98] 1]"
    unfolding free_gap_def by (rule exI [of _ 1], rule exI [of _ 2]) simp
  then show "fcb_free (fs_start\<lparr>fcbs := [sample_dir [47] 1, sample_dir [97] 0, sample_dir [98] 1]\<rparr>) = None"
    by (subst fcb_free_result) (simp_all add: sample_table_wf)
  have "\<not> free_gap [sample_dir [47] 1, sample_dir [97] 2, sample_dir [98] 0]"
    by (auto simp: free_gap_def less_Suc_eq)
  then show "fcb_free (fs_start\<lparr>fcbs := [sample_dir [47] 1, sample_dir [97] 2, sample_dir [98] 0]\<rparr>) =
      Some (fs_start\<lparr>fcbs := [sample_dir [47] 1, sample_dir [97] 2]\<rparr>)"
    by (subst fcb_free_result) (simp_all add: sample_table_wf)
qed

section \<open>Adding, finding and releasing an entry\<close>

lemma fcb_fill_simps [simp]:
  "f_abspath (fcb_fill p t f) = Some p" "f_nopen (fcb_fill p t f) = f_nopen f" "f_type (fcb_fill p t f) = t"
  by (simp_all add: fcb_fill_def Let_def)

lemma fcb_get_unique:
  assumes "fcb_wf s" and "p \<noteq> []" and "i < length (fcbs s)" and "f_abspath (fcbs s ! i) = Some p"
    and "\<forall>f \<in> set (fcbs s). f_abspath f \<noteq> with_slash p \<or> f_abspath f = None"
  shows "fcb_get (Some p) s = of_nat i"
proof -
  have m: "fcb_match s p f \<longleftrightarrow> f_abspath f = Some p" if "f \<in> set (fcbs s)" for f
    using assms(5) that by (auto simp: fcb_match_def)
  have "find_index (fcb_match s p) (fcbs s) = Some i"
  proof (cases "find_index (fcb_match s p) (fcbs s)")
    case None
    then show ?thesis using assms(3,4) m by (auto simp: find_index_None_iff)
  next
    case (Some j)
    then have j: "j < length (fcbs s)" "f_abspath (fcbs s ! j) = Some p" "\<not> i < j"
      using find_index_SomeD [OF Some] m assms(3,4) by auto
    then have "j = i" using assms(1,3,4) fcb_distinctD [of "fcbs s" j i p] by (force simp: fcb_wf_def)
    with Some show ?thesis by simp
  qed
  then show ?thesis using assms(2) by (simp add: fcb_get_def)
qed

lemma fcb_distinct_fill:
  assumes "fcb_distinct fs" and "\<forall>f \<in> set fs. f_abspath f \<noteq> Some p" and "f_abspath x = Some p"
  shows "fcb_distinct (fs[i := x])"
proof (cases "i < length fs")
  case True
  show ?thesis unfolding fcb_distinct_def
  proof (intro allI impI)
    fix j k assume a: "j < k \<and> k < length (fs[i := x]) \<and> f_abspath (fs[i := x] ! j) \<noteq> None"
    then have "fs ! j \<in> set fs" "fs ! k \<in> set fs" by simp_all
    then have "f_abspath (fs ! j) \<noteq> Some p" "f_abspath (fs ! k) \<noteq> Some p" using assms(2) by blast+
    then show "f_abspath (fs[i := x] ! j) \<noteq> f_abspath (fs[i := x] ! k)"
      using a assms(3) fcb_distinctD [OF assms(1), of j k] True by (cases "i = j"; cases "i = k") auto
  qed
qed (use assms in \<open>simp add: list_update_beyond\<close>)

lemma fcb_distinct_snoc:
  assumes "fcb_distinct fs" and "\<forall>f \<in> set fs. f_abspath f \<noteq> Some p" and "f_abspath x = Some p"
  shows "fcb_distinct (fs @ [x])"
  unfolding fcb_distinct_def
proof (intro allI impI)
  fix j k assume a: "j < k \<and> k < length (fs @ [x]) \<and> f_abspath ((fs @ [x]) ! j) \<noteq> None"
  then show "f_abspath ((fs @ [x]) ! j) \<noteq> f_abspath ((fs @ [x]) ! k)"
    using assms fcb_distinctD [OF assms(1), of j k] nth_mem [of j fs]
    by (cases "k = length fs") (auto simp: nth_append)
qed

lemma fcb_trim_update:
  "fcb_trim fs \<Longrightarrow> f_abspath x \<noteq> None \<Longrightarrow> fcb_trim (fs[i := x])"
  by (auto simp: fcb_trim_def last_list_update)

text \<open>The three ways \<^verbatim>\<open>fcb_add\<close> ends: the path is there, a free slot is filled, the table grows.\<close>

lemma fcb_add_cases:
  assumes "heap_ok s"
  obtains i where "fcb_add p t s = Some (of_nat i, s)" "i < length (fcbs s)" "f_abspath (fcbs s ! i) = Some p"
  | i where "\<forall>f \<in> set (fcbs s). f_abspath f \<noteq> Some p" "i < length (fcbs s)" "f_abspath (fcbs s ! i) = None"
      "fcb_add p t s = Some (of_nat i, s\<lparr>fcbs := (fcbs s)[i := fcb_fill p t (fcbs s ! i)]\<rparr>)"
  | "\<forall>f \<in> set (fcbs s). f_abspath f \<noteq> Some p"
      "fcb_add p t s = Some (of_nat (length (fcbs s)), s\<lparr>fcbs := fcbs s @ [fcb_fill p t zero_fcb]\<rparr>)"
proof (cases "find_index (\<lambda>f. f_abspath f = Some p) (fcbs s)")
  case (Some i)
  then show thesis using find_index_SomeD [OF Some] by (intro that(1) [of i]) (auto simp: fcb_add_def)
next
  case np: None
  then have n: "\<forall>f \<in> set (fcbs s). f_abspath f \<noteq> Some p" by (simp add: find_index_None_iff)
  show thesis
  proof (cases "find_index (\<lambda>f. f_abspath f = None) (fcbs s)")
    case (Some i)
    then show thesis using np n find_index_SomeD [OF Some] assms
      by (intro that(2) [of i]) (simp_all add: fcb_add_def update_at_def)
  next
    case None
    then show thesis using np n assms by (intro that(3)) (simp_all add: fcb_add_def)
  qed
qed

lemma fcb_add_wf:
  assumes wf: "fcb_wf s" and room: "length (fcbs s) + 1 < 2 ^ 31" and heap: "heap_ok s"
  obtains i s' where "fcb_add p t s = Some (of_nat i, s')" "s' = s\<lparr>fcbs := fcbs s'\<rparr>" "fcb_wf s'"
    "i < length (fcbs s')" "f_abspath (fcbs s' ! i) = Some p" "length (fcbs s) \<le> length (fcbs s')"
    "\<And>j. j < length (fcbs s) \<Longrightarrow> j \<noteq> i \<Longrightarrow> fcbs s' ! j = fcbs s ! j"
    "\<And>f. f \<in> set (fcbs s') \<Longrightarrow> f_abspath f = Some p \<or> f \<in> set (fcbs s)"
    "i < length (fcbs s) \<Longrightarrow> f_abspath (fcbs s ! i) \<in> {None, Some p}"
  using heap
proof (cases rule: fcb_add_cases [of s p t])
  case (1 i)
  then show thesis using wf by (intro that [of i s]) auto
next
  case (2 i)
  let ?f = "fcb_fill p t (fcbs s ! i)"
  have "fcb_wf (s\<lparr>fcbs := (fcbs s)[i := ?f]\<rparr>)"
    using wf 2 fcb_distinct_fill [of "fcbs s" p ?f i] fcb_trim_update [of "fcbs s" ?f i]
    by (auto simp: fcb_wf_def dest!: subsetD [OF set_update_subset_insert])
  then show thesis using 2
    by (intro that [of i "s\<lparr>fcbs := (fcbs s)[i := ?f]\<rparr>"]) (auto dest!: subsetD [OF set_update_subset_insert])
next
  case 3
  let ?fs = "fcbs s @ [fcb_fill p t zero_fcb]"
  have "fcb_wf (s\<lparr>fcbs := ?fs\<rparr>)"
    using wf 3 room fcb_distinct_snoc [of "fcbs s" p "fcb_fill p t zero_fcb"]
    by (auto simp: fcb_wf_def fcb_trim_def)
  then show thesis using 3
    by (intro that [of "length (fcbs s)" "s\<lparr>fcbs := ?fs\<rparr>"]) (auto simp: nth_append)
qed

text \<open>
  C28. Adding a path to the table of file control blocks and looking it up again gives the same
  entry, the table stays well formed (no path twice, no free slot at its end, free slots without
  references) and every other entry is left alone. This holds for a new path, which takes the
  first free slot or a new one, and for a path that is already there; only a directory entry
  that differs in the closing slash may hide the new entry.
\<close>

theorem fcb_add_get:
  assumes wf: "fcb_wf s" and room: "length (fcbs s) + 1 < 2 ^ 31" and heap: "heap_ok s"
    and p: "p \<noteq> []" and slash: "\<forall>f \<in> set (fcbs s). f_abspath f \<noteq> with_slash p \<or> f_abspath f = None"
  shows "\<exists>i s'. fcb_add p t s = Some (i, s') \<and> fcb_wf s' \<and> fcb_get (Some p) s' = i \<and>
    unat i < length (fcbs s') \<and> f_abspath (fcbs s' ! unat i) = Some p \<and>
    (\<forall>j < length (fcbs s). j \<noteq> unat i \<longrightarrow> fcbs s' ! j = fcbs s ! j)"
proof -
  obtain i s' where a: "fcb_add p t s = Some (of_nat i, s')" "fcb_wf s'" "i < length (fcbs s')"
    "f_abspath (fcbs s' ! i) = Some p" "\<And>j. j < length (fcbs s) \<Longrightarrow> j \<noteq> i \<Longrightarrow> fcbs s' ! j = fcbs s ! j"
    and old: "\<And>f. f \<in> set (fcbs s') \<Longrightarrow> f_abspath f = Some p \<or> f \<in> set (fcbs s)"
    by (rule fcb_add_wf [OF wf room heap]) blast
  have u: "unat (of_nat i :: u64) = i" using a(2,3) by (intro unat_of_nat_u64) (simp add: fcb_wf_def)
  have "\<forall>f \<in> set (fcbs s'). f_abspath f \<noteq> with_slash p \<or> f_abspath f = None"
  proof
    fix f assume "f \<in> set (fcbs s')"
    with old [of f] slash show "f_abspath f \<noteq> with_slash p \<or> f_abspath f = None"
      by (auto simp: with_slash_def)
  qed
  then have "fcb_get (Some p) s' = of_nat i" using a p by (intro fcb_get_unique) auto
  with a u show ?thesis by auto
qed

theorem fcb_add_get_witness:
  "\<exists>i s'. fcb_add [99] 0 (fs_start\<lparr>fcbs := [sample_dir [47] 1, sample_dir [97] 2, sample_dir [98] 0]\<rparr>)
     = Some (i, s') \<and> fcb_wf s' \<and> fcb_get (Some [99]) s' = i"
proof -
  let ?s = "fs_start\<lparr>fcbs := [sample_dir [47] 1, sample_dir [97] 2, sample_dir [98] 0]\<rparr>"
  have "heap_ok ?s" by (simp add: fs_start_def)
  moreover have "\<forall>f \<in> set (fcbs ?s). f_abspath f \<noteq> with_slash [99] \<or> f_abspath f = None"
    by (simp add: with_slash_def)
  ultimately show ?thesis using fcb_add_get [of ?s "[99]" 0] sample_table_wf(1) by fastforce
qed

text \<open>
  C29. Releasing an entry that is not a union returns and keeps the table well formed. With more
  than one reference only the count goes down; the last reference removes the path from the
  table. No other path is lost.
\<close>

theorem fcb_del_release:
  assumes wf: "fcb_wf s" and i: "i < length (fcbs s)" and ty: "f_type (fcbs s ! i) \<noteq> FCB_TYPE_UNION"
    and p: "f_abspath (fcbs s ! i) = Some p"
  shows "\<exists>s'. fcb_del (of_nat i) s = Some s' \<and> fcb_wf s' \<and>
    (1 < f_nopen (fcbs s ! i) \<longrightarrow>
       fcbs s' = (fcbs s)[i := (fcbs s ! i)\<lparr>f_nopen := f_nopen (fcbs s ! i) - 1\<rparr>]) \<and>
    (\<not> 1 < f_nopen (fcbs s ! i) \<longrightarrow> (\<forall>f \<in> set (fcbs s'). f_abspath f \<noteq> Some p)) \<and>
    (\<forall>j < length (fcbs s). j \<noteq> i \<and> f_abspath (fcbs s ! j) \<noteq> None \<longrightarrow>
       j < length (fcbs s') \<and> fcbs s' ! j = fcbs s ! j)"
proof (cases "1 < f_nopen (fcbs s ! i)")
  case True
  let ?f = "(fcbs s ! i)\<lparr>f_nopen := f_nopen (fcbs s ! i) - 1\<rparr>"
  have "fcb_del (of_nat i) s = Some (s\<lparr>fcbs := (fcbs s)[i := ?f]\<rparr>)"
    using del_run_simple [of i "fcbs s"] wf i ty p True by (simp add: fcb_del_def fcb_wf_def)
  moreover have "fcb_wf (s\<lparr>fcbs := (fcbs s)[i := ?f]\<rparr>)"
    using wf p i fcb_distinct_update [of "fcbs s" ?f i] fcb_trim_update [of "fcbs s" ?f i]
    by (auto simp: fcb_wf_def dest!: subsetD [OF set_update_subset_insert])
  ultimately show ?thesis using True by auto
next
  case False
  let ?f = "(fcbs s ! i)\<lparr>f_nopen := 0, f_abspath := None, f_filesize := 0\<rparr>"
  let ?fs = "(fcbs s)[i := ?f]"
  have del: "fcb_del (of_nat i) s = Some (s\<lparr>fcbs := fcb_shrink ?fs\<rparr>)"
    using del_run_simple [of i "fcbs s"] wf i ty p False by (simp add: fcb_del_def fcb_wf_def)
  have n: "\<forall>f \<in> set ?fs. f_abspath f = None \<longrightarrow> f_nopen f = 0"
    using wf by (auto simp: fcb_wf_def dest!: subsetD [OF set_update_subset_insert])
  have sub: "set (fcb_shrink ?fs) \<subseteq> set ?fs"
    by (rule fcb_shrink_append [of ?fs]) (metis Un_upper1 set_append)
  have wf': "fcb_wf (s\<lparr>fcbs := fcb_shrink ?fs\<rparr>)"
    using wf n sub fcb_distinct_update [of "fcbs s" ?f i] length_shrink [of ?fs]
    by (auto simp: fcb_wf_def fcb_shrink_trim intro!: fcb_distinct_shrink)
  have gone: "f_abspath f \<noteq> Some p" if f: "f \<in> set (fcb_shrink ?fs)" for f
  proof -
    have "f \<in> set ?fs" using f sub by blast
    then obtain j where j: "j < length (fcbs s)" "f = ?fs ! j" by (metis in_set_conv_nth length_list_update)
    have d: "fcb_distinct (fcbs s)" using wf by (simp add: fcb_wf_def)
    show ?thesis
    proof (cases i j rule: linorder_cases)
      case less
      then show ?thesis using fcb_distinctD [OF d less j(1) p] j by simp
    next
      case greater
      then show ?thesis using fcb_distinctD [OF d greater i, of p] p j by auto
    qed (use j in simp)
  qed
  have keep: "j < length (fcb_shrink ?fs) \<and> fcb_shrink ?fs ! j = fcbs s ! j"
    if "j < length (fcbs s)" "j \<noteq> i" "f_abspath (fcbs s ! j) \<noteq> None" for j
    using that shrink_keeps [of j ?fs] nth_shrink [of j ?fs] by simp
  show ?thesis using del wf' gone keep False by auto
qed

theorem fcb_del_release_witness:
  "\<exists>s'. fcb_del (of_nat 1) (fs_start\<lparr>fcbs := [sample_dir [47] 1, sample_dir [97] 1, sample_dir [98] 0]\<rparr>)
     = Some s' \<and> fcb_wf s' \<and> Some [97] \<notin> f_abspath ` set (fcbs s')"
proof -
  let ?s = "fs_start\<lparr>fcbs := [sample_dir [47] 1, sample_dir [97] 1, sample_dir [98] 0]\<rparr>"
  have "1 < length (fcbs ?s)" "f_type (fcbs ?s ! 1) \<noteq> FCB_TYPE_UNION" "f_abspath (fcbs ?s ! 1) = Some [97]"
    "\<not> 1 < f_nopen (fcbs ?s ! 1)"
    by (simp_all add: fcb_type_defs)
  moreover have "fcb_wf ?s" by (rule sample_table_wf) simp
  ultimately obtain s' where "fcb_del (of_nat 1) ?s = Some s'" "fcb_wf s'" "\<forall>f \<in> set (fcbs s'). f_abspath f \<noteq> Some [97]"
    using fcb_del_release [of ?s 1 "[97]"] by auto
  then show ?thesis by auto
qed

section \<open>Buffered writes\<close>

text \<open>The byte a list of buffers holds for a position of the file.\<close>

fun wb_byte :: "writebuf_t list \<Rightarrow> u64 \<Rightarrow> u8 option" where
  "wb_byte [] x = None"
| "wb_byte (w # ws) x =
     (if w_offs w \<le> x \<and> unat (x - w_offs w) < length (w_data w) then Some (w_data w ! unat (x - w_offs w))
      else wb_byte ws x)"

text \<open>A buffer holds as many bytes as it says, and ends inside the address range.\<close>

definition wb_ok :: "writebuf_t \<Rightarrow> bool" where
  "wb_ok w \<longleftrightarrow> length (w_data w) = unat (w_size w) \<and> unat (w_offs w) + unat (w_size w) < 2 ^ 64"

definition wb_end :: "writebuf_t \<Rightarrow> u64" where "wb_end w = w_offs w + w_size w"

lemma unat_wb_end: "wb_ok w \<Longrightarrow> unat (wb_end w) = unat (w_offs w) + unat (w_size w)"
  unfolding wb_end_def wb_ok_def by (intro unat_add_le) simp

lemma wb_byte_append:
  "wb_byte (pre @ ws) x = (case wb_byte pre x of Some b \<Rightarrow> Some b | None \<Rightarrow> wb_byte ws x)"
  by (induction pre x rule: wb_byte.induct) auto

lemma wb_byte_before:
  assumes "\<forall>v \<in> set pre. wb_ok v \<and> wb_end v \<le> x"
  shows "wb_byte pre x = None"
  using assms
proof (induction pre)
  case (Cons v pre)
  have "\<not> (w_offs v \<le> x \<and> unat (x - w_offs v) < length (w_data v))"
    using Cons.prems unat_wb_end [of v]
    by (auto simp: wb_ok_def word_le_nat_alt unat_sub_le)
  with Cons show ?case by auto
qed simp

lemma drop_covered_none:
  "\<forall>w \<in> set ws. \<not> (offs \<le> w_offs w \<and> wb_end w \<le> e) \<Longrightarrow> drop_covered offs e first ws = Some ws"
  by (induction offs e first ws rule: drop_covered.induct) (auto simp: wb_end_def)

lemma place_buffer_skip:
  assumes "\<forall>v \<in> set pre. wb_ok v \<and> wb_end v < w_offs nw" and "wb_ok nw"
  shows "place_buffer nw acc (pre @ ws) = place_buffer nw (acc @ pre) ws"
  using assms(1)
proof (induction pre arbitrary: acc)
  case (Cons v pre)
  have v: "w_offs v \<le> wb_end v" "wb_end v < w_offs nw" "w_offs nw \<le> wb_end nw"
    using Cons.prems assms(2) unat_wb_end [of v] unat_wb_end [of nw]
    by (auto simp: word_le_nat_alt)
  then have "place_buffer nw acc ((v # pre) @ ws) = place_buffer nw (acc @ [v]) (pre @ ws)"
    by (auto simp: Let_def simp flip: wb_end_def)
  with Cons show ?case by simp
qed simp

lemma nth_replace:
  assumes "a + length ys \<le> length xs" and "i < length xs"
  shows "(take a xs @ ys @ drop (a + length ys) xs) ! i =
    (if a \<le> i \<and> i < a + length ys then ys ! (i - a) else xs ! i)"
  using assms by (auto simp: nth_append min_def)

lemma wb_byte_replace:
  assumes ok: "wb_ok w" "wb_ok nw" and ins: "w_offs w \<le> w_offs nw" "wb_end nw \<le> wb_end w"
  shows "wb_byte (w\<lparr>w_data := take (unat (w_offs nw - w_offs w)) (w_data w) @ w_data nw @
      drop (unat (w_offs nw - w_offs w) + length (w_data nw)) (w_data w)\<rparr> # ws) x =
    (if w_offs nw \<le> x \<and> x < wb_end nw then Some (w_data nw ! unat (x - w_offs nw)) else wb_byte (w # ws) x)"
proof -
  let ?a = "unat (w_offs nw - w_offs w)"
  have n: "unat (wb_end nw) = unat (w_offs nw) + unat (w_size nw)" "unat (wb_end w) = unat (w_offs w) + unat (w_size w)"
    using ok by (simp_all add: unat_wb_end)
  have a: "?a = unat (w_offs nw) - unat (w_offs w)" using ins(1) by (simp add: unat_sub_le word_le_nat_alt)
  have len: "?a + length (w_data nw) \<le> length (w_data w)"
    using n ok ins by (simp add: a wb_ok_def word_le_nat_alt)
  define d where "d = take ?a (w_data w) @ w_data nw @ drop (?a + length (w_data nw)) (w_data w)"
  have l: "length d = length (w_data w)" using len by (simp add: d_def)
  show ?thesis
  proof (cases "w_offs w \<le> x \<and> unat (x - w_offs w) < length (w_data w)")
    case True
    then have x: "unat (x - w_offs w) = unat x - unat (w_offs w)" "unat (w_offs w) \<le> unat x"
      by (simp_all add: unat_sub_le word_le_nat_alt)
    have "?a \<le> unat (x - w_offs w) \<and> unat (x - w_offs w) < ?a + length (w_data nw) \<longleftrightarrow>
        w_offs nw \<le> x \<and> x < wb_end nw"
      using x a n ok ins by (auto simp: wb_ok_def word_le_nat_alt word_less_nat_alt)
    moreover have "unat (x - w_offs w) - ?a = unat (x - w_offs nw)" if "w_offs nw \<le> x"
      using that x a ins(1) by (simp add: unat_sub_le word_le_nat_alt)
    ultimately show ?thesis
      using True l nth_replace [OF len conjunct2 [OF True]] unfolding d_def [symmetric] by auto
  next
    case False
    have "\<not> (w_offs nw \<le> x \<and> x < wb_end nw)"
    proof
      assume x: "w_offs nw \<le> x \<and> x < wb_end nw"
      then have "w_offs w \<le> x" using ins(1) by auto
      moreover have "unat x < unat (wb_end w)" using x ins(2) by (simp add: word_less_nat_alt word_le_nat_alt)
      ultimately show False using False n ok by (auto simp: unat_sub_le word_le_nat_alt wb_ok_def)
    qed
    with False show ?thesis unfolding d_def [symmetric] using l by auto
  qed
qed

lemma place_buffer_inside:
  assumes ok: "\<forall>v \<in> set (pre @ w # post). wb_ok v" "wb_ok nw"
    and pre: "\<forall>v \<in> set pre. wb_end v < w_offs nw"
    and ins: "w_offs w \<le> w_offs nw" "wb_end nw \<le> wb_end w"
  shows "place_buffer nw [] (pre @ w # post) = Some (True, pre @
    w\<lparr>w_data := take (unat (w_offs nw - w_offs w)) (w_data w) @ w_data nw @
      drop (unat (w_offs nw - w_offs w) + length (w_data nw)) (w_data w)\<rparr> # post)"
proof -
  have "w_offs w \<le> wb_end nw"
    using ins(1) unat_wb_end [OF ok(2)] by (simp add: word_le_nat_alt)
  then have "\<not> wb_end nw < w_offs w" by simp
  moreover have "place_buffer nw [] (pre @ w # post) = place_buffer nw pre (w # post)"
    using pre ok by (subst place_buffer_skip) auto
  ultimately show ?thesis using ins by (auto simp: Let_def simp flip: wb_end_def)
qed

lemma not_covered_inside:
  assumes ok: "\<forall>v \<in> set (pre @ w # post). wb_ok v" "wb_ok nw"
    and pre: "\<forall>v \<in> set pre. wb_end v < w_offs nw"
    and ins: "w_offs w \<le> w_offs nw" "wb_end nw \<le> wb_end w" "w_size nw \<noteq> w_size w"
    and post: "\<forall>v \<in> set post. wb_end w < w_offs v"
  shows "drop_covered (w_offs nw) (wb_end nw) True (pre @ w # post) = Some (pre @ w # post)"
proof (rule drop_covered_none, intro ballI notI)
  fix v assume v: "v \<in> set (pre @ w # post)" and c: "w_offs nw \<le> w_offs v \<and> wb_end v \<le> wb_end nw"
  have n: "unat (wb_end u) = unat (w_offs u) + unat (w_size u)" if "u = v \<or> u = w \<or> u = nw" for u
    using ok v that by (intro unat_wb_end) auto
  have nn: "unat (wb_end v) = unat (w_offs v) + unat (w_size v)" "unat (wb_end w) = unat (w_offs w) + unat (w_size w)"
    "unat (wb_end nw) = unat (w_offs nw) + unat (w_size nw)"
    using n [of v] n [of w] n [of nw] by simp_all
  note c' = c [unfolded word_le_nat_alt]
  from v consider "v \<in> set pre" | "v = w" | "v \<in> set post" by auto
  then show False
  proof cases
    case 1
    with pre have "unat (wb_end v) < unat (w_offs nw)" by (simp add: word_less_nat_alt)
    with c' nn show False by linarith
  next
    case 2
    have "unat (w_offs nw) \<le> unat (w_offs w)" "unat (wb_end w) \<le> unat (wb_end nw)" using c' 2 by auto
    with nn ins(1,2) have "unat (w_size nw) = unat (w_size w)" unfolding word_le_nat_alt by linarith
    with ins(3) show False by (simp add: word_eq_iff_unat)
  next
    case 3
    with post have "unat (wb_end w) < unat (w_offs v)" by (simp add: word_less_nat_alt)
    with c' nn ins show False unfolding word_le_nat_alt by linarith
  qed
qed

text \<open>
  C30. A write that lies inside a buffered range of an open file, without filling it, succeeds and
  replaces exactly its own bytes: the buffers afterwards hold the new bytes there and the old
  ones everywhere else. (The buffers before that range end before the write begins, and the ones
  behind it begin after the range.) This is the branch of the code for a range that is buffered already; that the code never
  stores the first buffer of a file is \<open>fcb_write_first_lost\<close> below.
\<close>

theorem fcb_write_inside:
  assumes idx: "unat idx < length (fcbs s)" and f: "f = fcbs s ! unat idx"
    and chk: "f_type f = FCB_TYPE_REG_FILE" "f_storage f \<noteq> fk_dev (fsck s)" "f_mode f AND O_WRITE \<noteq> 0"
      "writable (f_fs f)" "heap_ok s"
    and buf: "buf \<noteq> []" "unat offs + length buf < 2 ^ 64" "f_buf f = pre @ w # post"
    and ok: "\<forall>v \<in> set (f_buf f). wb_ok v"
    and pre: "\<forall>v \<in> set pre. wb_end v < offs" and post: "\<forall>v \<in> set post. wb_end w < w_offs v"
    and ins: "w_offs w \<le> offs" "offs + of_nat (length buf) \<le> wb_end w" "unat (w_size w) \<noteq> length buf"
  shows "\<exists>s'. fcb_write writable idx offs buf s = Some (True, s') \<and>
    (\<forall>x. wb_byte (f_buf (fcbs s' ! unat idx)) x =
       (if offs \<le> x \<and> x < offs + of_nat (length buf) then Some (buf ! unat (x - offs))
        else wb_byte (f_buf f) x))"
proof -
  define nw where "nw = \<lparr>w_offs = offs, w_size = of_nat (length buf), w_data = buf\<rparr>"
  have size: "unat (of_nat (length buf) :: u64) = length buf" using buf(2) by (intro unat_of_nat_u64) simp
  have nw: "wb_ok nw" "w_offs nw = offs" "wb_end nw = offs + of_nat (length buf)" "w_data nw = buf" "w_size nw \<noteq> w_size w"
    using buf size ins(3) by (auto simp: nw_def wb_ok_def wb_end_def)
  let ?w = "w\<lparr>w_data := take (unat (w_offs nw - w_offs w)) (w_data w) @ w_data nw @
      drop (unat (w_offs nw - w_offs w) + length (w_data nw)) (w_data w)\<rparr>"
  have cov: "drop_covered offs (offs + of_nat (length buf)) True (f_buf f) = Some (f_buf f)"
    using not_covered_inside [of pre w post nw] ok nw pre post ins buf(3) by simp
  have place: "place_buffer nw [] (f_buf f) = Some (True, pre @ ?w # post)"
    using place_buffer_inside [of pre w post nw] ok nw pre ins buf(3) by simp
  have "fcb_write writable idx offs buf s = Some (True, upd_fcb idx (\<lambda>f. f\<lparr>f_buf := pre @ ?w # post\<rparr>) s)"
    using idx chk buf(1) cov place by (simp add: fcb_write_def Let_def f [symmetric] nw_def)
  moreover have repl: "wb_byte (?w # post) x =
      (if offs \<le> x \<and> x < offs + of_nat (length buf) then Some (buf ! unat (x - offs)) else wb_byte (w # post) x)" for x
    using wb_byte_replace [of w nw post x] ok nw ins buf(3) by simp
  moreover have "wb_byte (pre @ ?w # post) x =
      (if offs \<le> x \<and> x < offs + of_nat (length buf) then Some (buf ! unat (x - offs)) else wb_byte (f_buf f) x)" for x
  proof (cases "offs \<le> x \<and> x < offs + of_nat (length buf)")
    case True
    then have "\<forall>v \<in> set pre. wb_ok v \<and> wb_end v \<le> x" using ok pre buf(3) by auto
    then have "wb_byte pre x = None" by (rule wb_byte_before)
    then show ?thesis using True by (simp only: repl wb_byte_append option.case if_True simp_thms)
  next
    case False
    then have "wb_byte (?w # post) x = wb_byte (w # post) x" by (simp only: repl if_False)
    then show ?thesis using False by (simp only: wb_byte_append buf(3) if_False)
  qed
  ultimately show ?thesis using idx by (simp add: upd_fcb_def)
qed

theorem fcb_write_inside_witness:
  "\<exists>s'. fcb_write (\<lambda>_. True) 0 2 [9]
     (fs_start\<lparr>fsck := \<lparr>fk_dev = NOFID, fk_step = 0, fk_fix = False, fk_fs = 0\<rparr>,
        fcbs := [zero_fcb\<lparr>f_abspath := Some [97], f_mode := O_RDWR,
        f_buf := [\<lparr>w_offs = 0, w_size = 4, w_data = [1, 2, 3, 4]\<rparr>]\<rparr>]\<rparr>) = Some (True, s') \<and>
     wb_byte (f_buf (fcbs s' ! 0)) 2 = Some 9 \<and> wb_byte (f_buf (fcbs s' ! 0)) 3 = Some 4"
proof -
  let ?w = "\<lparr>w_offs = 0, w_size = 4, w_data = [1, 2, 3, 4]\<rparr> :: writebuf_t"
  let ?f = "zero_fcb\<lparr>f_abspath := Some [97], f_mode := O_RDWR, f_buf := [?w]\<rparr>"
  let ?s = "fs_start\<lparr>fsck := \<lparr>fk_dev = NOFID, fk_step = 0, fk_fix = False, fk_fs = 0\<rparr>, fcbs := [?f]\<rparr>"
  have "\<exists>s'. fcb_write (\<lambda>_. True) 0 2 [9] ?s = Some (True, s') \<and>
    (\<forall>x. wb_byte (f_buf (fcbs s' ! unat (0 :: u64))) x =
       (if 2 \<le> x \<and> x < 2 + of_nat (length [9 :: u8]) then Some ([9] ! unat (x - 2)) else wb_byte (f_buf ?f) x))"
    by (rule fcb_write_inside [where pre = "[]" and post = "[]" and w = ?w and f = ?f])
      (simp_all add: zero_fcb_def fs_start_def fcb_type_defs mode_defs wb_ok_def wb_end_def NOFID_def)
  then show ?thesis by (auto simp: zero_fcb_def)
qed

text \<open>
  The first write to an open file that has no buffered data is lost: all checks pass, the
  loop that places the buffer has no list to walk, and \<^verbatim>\<open>fcb_write\<close> reports failure without an
  error code and without storing anything.
\<close>

lemma fcb_write_first_lost:
  assumes idx: "unat idx < length (fcbs s)" and f: "f = fcbs s ! unat idx"
    and chk: "f_type f = FCB_TYPE_REG_FILE" "f_storage f \<noteq> fk_dev (fsck s)" "f_mode f AND O_WRITE \<noteq> 0"
      "writable (f_fs f)" "heap_ok s"
    and buf: "buf \<noteq> []" "f_buf f = []"
  shows "fcb_write writable idx offs buf s = Some (False, s)"
proof -
  have "update_at (unat idx) (\<lambda>f. f\<lparr>f_buf := []\<rparr>) (fcbs s) = fcbs s"
    using idx f buf(2) by (simp add: update_at_def list_update_same_conv)
  then have "upd_fcb idx (\<lambda>f. f\<lparr>f_buf := []\<rparr>) s = s" by (simp add: upd_fcb_def)
  with idx chk buf show ?thesis by (simp add: fcb_write_def Let_def f [symmetric])
qed

lemma fcb_write_first_lost_witness:
  "fcb_write (\<lambda>_. True) 0 2 [9]
     (fs_start\<lparr>fsck := \<lparr>fk_dev = NOFID, fk_step = 0, fk_fix = False, fk_fs = 0\<rparr>,
        fcbs := [zero_fcb\<lparr>f_abspath := Some [97], f_mode := O_RDWR\<rparr>]\<rparr>) =
   Some (False, fs_start\<lparr>fsck := \<lparr>fk_dev = NOFID, fk_step = 0, fk_fix = False, fk_fs = 0\<rparr>,
        fcbs := [zero_fcb\<lparr>f_abspath := Some [97], f_mode := O_RDWR\<rparr>]\<rparr>)"
  by (rule fcb_write_first_lost [OF _ refl])
    (simp_all add: zero_fcb_def fs_start_def fcb_type_defs mode_defs NOFID_def)

end
