(* ===== verification/Fs_Cache.thy ===== *)
theory Fs_Cache
  imports Fs_Fcb
begin

text \<open>
  The block cache, \<^verbatim>\<open>fs/cache.c\<close>: an array of lines, each the head of a chain of nodes. The nodes are
  kept in a store, so that the pointer updates of the code can be followed one by one; a walk
  over a chain is a partial function, undefined on a chain that runs in a circle or into a freed
  node. The settings \<^verbatim>\<open>cachelimit\<close> and \<^verbatim>\<open>cachelines\<close> come from the environment and are arguments
  of \<open>cache_init\<close>.
\<close>

section \<open>Operations\<close>

definition BLKPRIO_NOTDIRTY :: u8 where "BLKPRIO_NOTDIRTY = 0"
definition BLKPRIO_CRIT :: u8 where "BLKPRIO_CRIT = 1"
definition BLKPRIO_META :: u8 where "BLKPRIO_META = 4"

definition CACHE_FD :: "u64 \<Rightarrow> u64" where "CACHE_FD x = x AND 0xFFFFFFFFFFFFFFF"
definition CACHE_PRIO :: "u64 \<Rightarrow> u64" where "CACHE_PRIO x = drop_bit 60 x"

type_synonym cstore = "nat \<Rightarrow> cache_t option"

definition cache_init :: "u32 \<Rightarrow> u32 \<Rightarrow> fsstate \<Rightarrow> fsstate option" where
  "cache_init limit lines s =
     (let s = s\<lparr>cachelimit := limit, cachelines := lines\<rparr> in
      if \<not> heap_ok s \<or> fs_errno s \<noteq> 0 then None
      else Some (s\<lparr>cache := replicate (unat lines) None, cache_inflush := 0\<rparr>))"

definition cache_line :: "u64 \<Rightarrow> fsstate \<Rightarrow> nat" where
  "cache_line lsn s = unat (lsn mod ucast (cachelines s))"

text \<open>Walk a chain until the block is found; the previous node is kept for unlinking.\<close>

partial_function (option) cache_find ::
  "cstore \<Rightarrow> u64 \<Rightarrow> u64 \<Rightarrow> nat option \<Rightarrow> nat option \<Rightarrow> (nat option \<times> nat option) option" where
  "cache_find N fd lsn l c =
     (case c of
        None \<Rightarrow> Some (l, None)
      | Some a \<Rightarrow>
          (case N a of
             None \<Rightarrow> None
           | Some n \<Rightarrow>
               if CACHE_FD (c_fd n) = fd \<and> c_lsn n = lsn then Some (l, Some a)
               else cache_find N fd lsn (Some a) (c_next n)))"

definition set_next :: "nat \<Rightarrow> nat option \<Rightarrow> cstore \<Rightarrow> cstore" where
  "set_next a nx N = N(a := map_option (\<lambda>n. n\<lparr>c_next := nx\<rparr>) (N a))"

definition next_of :: "cstore \<Rightarrow> nat \<Rightarrow> nat option" where
  "next_of N a = (case N a of Some n \<Rightarrow> c_next n | None \<Rightarrow> None)"

text \<open>\<^verbatim>\<open>if(l) l->next = c->next; c->next = cache[j]; cache[j] = c;\<close>\<close>

definition to_front :: "nat \<Rightarrow> nat option \<Rightarrow> nat \<Rightarrow> fsstate \<Rightarrow> fsstate" where
  "to_front j l a s =
     (let N = (case l of Some b \<Rightarrow> set_next b (next_of (cnodes s) a) (cnodes s) | None \<Rightarrow> cnodes s)
      in s\<lparr>cnodes := set_next a (cache s ! j) N, cache := (cache s)[j := Some a]\<rparr>)"

definition ctx_pid :: "fsstate \<Rightarrow> u64 option" where
  "ctx_pid s = Option.bind (ctx s) (\<lambda>a. map_option tc_pid (tctxs s a))"

definition cache_getblock :: "u64 \<Rightarrow> u64 \<Rightarrow> fsstate \<Rightarrow> (bptr option \<times> fsstate) option" where
  "cache_getblock fd lsn s =
     (let j = cache_line lsn s in
      if length (fcbs s) \<le> unat fd \<or> lsn = NOFID \<or> f_type (fcbs s ! unat fd) \<noteq> FCB_TYPE_DEVICE \<or>
         cache s ! j = None
      then Some (None, s)
      else
        let f = fcbs s ! unat fd in
        if f_filesize f < (lsn + 1) * ucast (f_blksize f) then Some (None, seterr EFAULT s)
        else
          (case cache_find (cnodes s) fd lsn None (cache s ! j) of
             None \<Rightarrow> None
           | Some (l, Some a) \<Rightarrow>
               Some (map_option (\<lambda>n. Blk (c_blk n)) (cnodes s a), to_front j l a s)
           | Some (l, None) \<Rightarrow>
               (let i = f_inode f; bs = ucast (f_blksize f) :: u64;
                    bs = (if lsn = 0 \<and> bs < BUFSIZ then BUFSIZ else bs)
                in do {
                  d \<leftarrow> at (devs s) i;
                  pid \<leftarrow> ctx_pid s;
                  Some (None, (mq_send (d_drivertask d) DRV_read
                    [Num (d_device d), Num lsn, Num bs, Num pid, Num i] s)\<lparr>ackdelayed := True\<rparr>)
                })))"

text \<open>\<^verbatim>\<open>nc->fd\<close> carries the priority in its upper four bits.\<close>

definition prio_fd :: "u64 \<Rightarrow> u8 \<Rightarrow> u64" where
  "prio_fd fd prio = CACHE_FD fd OR push_bit 60 (ucast prio AND 0xF)"

definition cache_setblock :: "u64 \<Rightarrow> u64 \<Rightarrow> bptr \<Rightarrow> u8 \<Rightarrow> fsstate \<Rightarrow> (bool \<times> fsstate) option" where
  "cache_setblock fd lsn blk prio s =
     (let j = cache_line lsn s in
      if length (fcbs s) \<le> unat fd \<or> lsn = NOFID \<or> f_type (fcbs s ! unat fd) \<noteq> FCB_TYPE_DEVICE
      then Some (False, s)
      else
        let f = fcbs s ! unat fd; bs = ucast (f_blksize f) :: u64 in
        if bs \<le> 1 then Some (False, s)
        else if f_filesize f < (lsn + 1) * bs then Some (False, seterr EFAULT s)
        else do {
          (l, found) \<leftarrow> cache_find (cnodes s) fd lsn None (cache s ! j);
          if found = None \<and> \<not> heap_ok s then Some (False, s)
          else do {
            data \<leftarrow> blk_bytes s blk (unat bs);
            let s1 = (case found of
                 Some a \<Rightarrow> to_front j l a s
               | None \<Rightarrow> to_front j None (cfresh s)
                   (s\<lparr>cnodes := (cnodes s)(cfresh s \<mapsto>
                        \<lparr>c_fd = 0, c_lsn = lsn, c_blk = [], c_next = None\<rparr>)\<rparr>));
                a = (case found of Some a \<Rightarrow> a | None \<Rightarrow> cfresh s);
                upd = (\<lambda>n. n\<lparr>c_fd := prio_fd fd prio, c_blk := data\<rparr>)
            in Some (True, s1\<lparr>cnodes := (cnodes s1)(a := map_option upd (cnodes s1 a)),
                 cfresh := (if found = None then Suc (cfresh s) else cfresh s)\<rparr>)
          }
        })"

text \<open>
  \<^verbatim>\<open>cache_freeblocks\<close>: a line is read into an array and its nodes are freed from the last to the
  first. The list is given in reverse, so the next element is the previous node of the chain.
\<close>

partial_function (option) chain_nodes :: "cstore \<Rightarrow> nat option \<Rightarrow> nat list option" where
  "chain_nodes N c =
     (case c of
        None \<Rightarrow> Some []
      | Some a \<Rightarrow> (case N a of None \<Rightarrow> None | Some n \<Rightarrow>
          Option.bind (chain_nodes N (c_next n)) (\<lambda>r. Some (a # r))))"

fun free_chain :: "u64 \<Rightarrow> nat list \<Rightarrow> cstore \<times> nat option \<times> u64 \<Rightarrow> cstore \<times> nat option \<times> u64" where
  "free_chain fd [] (N, h, cnt) = (N, h, cnt)"
| "free_chain fd (a # before) (N, h, cnt) =
     (case N a of
        None \<Rightarrow> free_chain fd before (N, h, cnt)
      | Some n \<Rightarrow>
          if CACHE_FD (c_fd n) = fd
          then (case before of
                  b # _ \<Rightarrow> free_chain fd before ((set_next b (c_next n) N)(a := None), h, cnt + 1)
                | [] \<Rightarrow> free_chain fd before (N(a := None), c_next n, cnt + 1))
          else free_chain fd before (N, h, cnt))"

fun free_lines :: "u64 \<Rightarrow> u64 \<Rightarrow> nat \<Rightarrow> u64 \<Rightarrow> fsstate \<Rightarrow> (u64 \<times> fsstate) option" where
  "free_lines fd needed 0 cnt s = Some (cnt, s)"
| "free_lines fd needed (Suc j) cnt s =
     (if needed = 0 \<or> cnt < needed
      then do {
        r \<leftarrow> chain_nodes (cnodes s) (cache s ! j);
        let (N, h, cnt') = free_chain fd (rev r) (cnodes s, cache s ! j, cnt) in
        free_lines fd needed j cnt' (s\<lparr>cnodes := N, cache := (cache s)[j := h]\<rparr>)
      }
      else Some (cnt, s))"

text \<open>
  The fallback when there is no memory for the array. The node after a freed one is skipped, a
  freed head stays in the line, and freeing the last node goes on through a null pointer.
\<close>

partial_function (option) failsafe_chain ::
  "u64 \<Rightarrow> nat \<Rightarrow> nat option \<Rightarrow> cstore \<Rightarrow> u64 \<Rightarrow> (cstore \<times> u64) option" where
  "failsafe_chain fd l c N cnt =
     (case c of
        None \<Rightarrow> Some (N, cnt)
      | Some a \<Rightarrow>
          (case N a of
             None \<Rightarrow> None
           | Some n \<Rightarrow>
               if CACHE_FD (c_fd n) = fd
               then (case c_next n of
                       None \<Rightarrow> None
                     | Some b \<Rightarrow>
                         let N' = (set_next l (c_next n) N)(a := None)
                         in failsafe_chain fd b (next_of N' b) N' (cnt + 1))
               else failsafe_chain fd a (c_next n) N cnt))"

fun failsafe_lines :: "u64 \<Rightarrow> u64 \<Rightarrow> nat \<Rightarrow> u64 \<Rightarrow> fsstate \<Rightarrow> (u64 \<times> fsstate) option" where
  "failsafe_lines fd needed 0 cnt s = Some (cnt, s)"
| "failsafe_lines fd needed (Suc j) cnt s =
     (if needed = 0 \<or> cnt < needed
      then (case cache s ! j of
              None \<Rightarrow> failsafe_lines fd needed j cnt s
            | Some a \<Rightarrow> do {
                (N, cnt') \<leftarrow> failsafe_chain fd a (Some a) (cnodes s) cnt;
                failsafe_lines fd needed j cnt' (s\<lparr>cnodes := N\<rparr>)
              })
      else Some (cnt, s))"

definition cache_freeblocks :: "u64 \<Rightarrow> u64 \<Rightarrow> fsstate \<Rightarrow> (u64 \<times> fsstate) option" where
  "cache_freeblocks fd needed s =
     (if length (fcbs s) \<le> unat fd \<or> f_type (fcbs s ! unat fd) \<noteq> FCB_TYPE_DEVICE \<or>
         f_blksize (fcbs s ! unat fd) \<le> 1
      then Some (0, s)
      else if heap_ok s then free_lines fd needed (unat (cachelines s)) 0 s
      else failsafe_lines fd needed (unat (cachelines s)) 0 s)"

text \<open>\<^verbatim>\<open>cache_flush\<close>: every dirty block goes to its driver, in the order of the priorities.\<close>

definition flush_node :: "u64 \<Rightarrow> nat \<Rightarrow> fsstate \<Rightarrow> fsstate option" where
  "flush_node p a s =
     (case cnodes s a of
        None \<Rightarrow> None
      | Some c \<Rightarrow>
          if CACHE_PRIO (c_fd c) = p
          then do {
            f \<leftarrow> at (fcbs s) (CACHE_FD (c_fd c));
            d \<leftarrow> at (devs s) (f_inode f);
            let s = mq_send (d_drivertask d) (DRV_write OR MSG_PTRDATA)
                 [Ptr (Blk (c_blk c)), Num (ucast (f_blksize f)), Num (d_device d), Num (CACHE_FD (c_fd c)),
                  Num (c_lsn c), Num (f_inode f)] s in
            Some ((upd_dev (f_inode f) (\<lambda>d. d\<lparr>d_total := d_total d + 1\<rparr>) s)
              \<lparr>cache_inflush := cache_inflush s + 1\<rparr>)
          }
          else Some s)"

fun flush_nodes :: "u64 \<Rightarrow> nat list \<Rightarrow> fsstate \<Rightarrow> fsstate option" where
  "flush_nodes p [] s = Some s"
| "flush_nodes p (a # as) s = Option.bind (flush_node p a s) (flush_nodes p as)"

fun flush_lines :: "u64 \<Rightarrow> nat option list \<Rightarrow> fsstate \<Rightarrow> fsstate option" where
  "flush_lines p [] s = Some s"
| "flush_lines p (h # hs) s = do {
     r \<leftarrow> chain_nodes (cnodes s) h;
     s' \<leftarrow> flush_nodes p r s;
     flush_lines p hs s'
   }"

definition cache_flush :: "fsstate \<Rightarrow> fsstate option" where
  "cache_flush s = do {
     s \<leftarrow> flush_lines 1 (cache s) (s\<lparr>cache_inflush := 0\<rparr>);
     s \<leftarrow> flush_lines 2 (cache s) s;
     s \<leftarrow> flush_lines 3 (cache s) s;
     flush_lines 4 (cache s) s
   }"

definition cache_cleardirty :: "u64 \<Rightarrow> u64 \<Rightarrow> fsstate \<Rightarrow> (bool \<times> fsstate) option" where
  "cache_cleardirty fd lsn s =
     (let j = cache_line lsn s in
      if length (fcbs s) \<le> unat fd \<or> lsn = NOFID \<or> f_type (fcbs s ! unat fd) \<noteq> FCB_TYPE_DEVICE \<or>
         cache s ! j = None
      then Some (False, s)
      else do {
        (l, found) \<leftarrow> cache_find (cnodes s) fd lsn None (cache s ! j);
        let s1 = (case found of
                Some a \<Rightarrow> s\<lparr>cnodes := (cnodes s)(a := map_option (\<lambda>n. n\<lparr>c_fd := CACHE_FD fd\<rparr>) (cnodes s a))\<rparr>
              | None \<Rightarrow> s);
            i = f_inode (fcbs s ! unat fd) in do {
        d \<leftarrow> at (devs s) i;
        let out = d_out d + 1;
            (out, total) = (if d_total d \<le> out then (0, 0) else (out, d_total d));
            s2 = upd_dev i (\<lambda>d. d\<lparr>d_out := out, d_total := total\<rparr>) s1;
            s3 = mq_send SRV_UI SYS_devprogress [Num fd, Num out, Num total] s2;
            n = cache_inflush s - 1 in
        Some (n = 0, s3\<lparr>cache_inflush := n\<rparr>)
      }})"

section \<open>Chains\<close>

text \<open>\<open>chain N c xs\<close>: following the pointers from \<open>c\<close> visits the nodes \<open>xs\<close> and then ends.\<close>

primrec chain :: "cstore \<Rightarrow> nat option \<Rightarrow> nat list \<Rightarrow> bool" where
  "chain N c [] \<longleftrightarrow> c = None"
| "chain N c (a # as) \<longleftrightarrow> c = Some a \<and> (\<exists>n. N a = Some n \<and> chain N (c_next n) as)"

definition holds :: "cstore \<Rightarrow> u64 \<Rightarrow> u64 \<Rightarrow> nat \<Rightarrow> bool" where
  "holds N fd lsn a \<longleftrightarrow> (\<exists>n. N a = Some n \<and> CACHE_FD (c_fd n) = fd \<and> c_lsn n = lsn)"

lemma chain_append:
  "chain N c (us @ a # vs) \<Longrightarrow> chain N (Some a) (a # vs) \<and> (us = [] \<longrightarrow> c = Some a)"
  by (induction us arbitrary: c) auto

lemma cache_find_miss:
  "chain N c xs \<Longrightarrow> \<forall>a \<in> set xs. \<not> holds N fd lsn a \<Longrightarrow>
     cache_find N fd lsn l c = Some (if xs = [] then l else Some (last xs), None)"
proof (induction xs arbitrary: c l)
  case Nil
  then show ?case by (simp add: cache_find.simps)
next
  case (Cons a xs)
  then show ?case by (subst cache_find.simps) (auto simp: holds_def)
qed

lemma cache_find_hit:
  "chain N c (us @ a # vs) \<Longrightarrow> \<forall>b \<in> set us. \<not> holds N fd lsn b \<Longrightarrow> holds N fd lsn a \<Longrightarrow>
     cache_find N fd lsn l c = Some (if us = [] then l else Some (last us), Some a)"
proof (induction us arbitrary: c l)
  case Nil
  then show ?case by (subst cache_find.simps) (auto simp: holds_def)
next
  case (Cons b us)
  then show ?case by (subst cache_find.simps) (auto simp: holds_def)
qed

lemma chain_nodes_chain: "chain N c xs \<Longrightarrow> chain_nodes N c = Some xs"
proof (induction xs arbitrary: c)
  case Nil
  then show ?case by (simp add: chain_nodes.simps)
next
  case (Cons a xs)
  then show ?case by (subst chain_nodes.simps) auto
qed

lemma cache_find_terminates:
  assumes "chain N c xs"
  obtains a us vs where "xs = us @ a # vs" "\<forall>b \<in> set us. \<not> holds N fd lsn b" "holds N fd lsn a"
    "cache_find N fd lsn None c = Some (if us = [] then None else Some (last us), Some a)"
  | "\<forall>a \<in> set xs. \<not> holds N fd lsn a"
    "cache_find N fd lsn None c = Some (if xs = [] then None else Some (last xs), None)"
proof (cases "\<exists>a \<in> set xs. holds N fd lsn a")
  case True
  then obtain us a vs where x: "xs = us @ a # vs" "holds N fd lsn a" "\<forall>b \<in> set us. \<not> holds N fd lsn b"
    using split_list_first_prop [of xs "holds N fd lsn"] by blast
  with assms show thesis by (intro that(1) [of us a vs] cache_find_hit) auto
next
  case False
  with assms show thesis by (intro that(2) cache_find_miss) auto
qed

text \<open>Nodes outside a chain may change.\<close>

lemma chain_cong: "chain N c xs \<Longrightarrow> \<forall>a \<in> set xs. N' a = N a \<Longrightarrow> chain N' c xs"
  by (induction xs arbitrary: c) auto

lemma set_next_other [simp]: "b \<noteq> a \<Longrightarrow> set_next a nx N b = N b"
  by (simp add: set_next_def)

lemma set_next_same [simp]: "set_next a nx N a = map_option (\<lambda>n. n\<lparr>c_next := nx\<rparr>) (N a)"
  by (simp add: set_next_def)

lemma chain_set_next_last:
  "chain N c (us @ b # vs) \<Longrightarrow> distinct (us @ b # vs) \<Longrightarrow> chain (set_next b nx N) nx ws \<Longrightarrow>
     chain (set_next b nx N) c (us @ b # ws)"
  by (induction us arbitrary: c) auto

text \<open>A block that is found behind the head moves to the front; the others keep their order.\<close>

lemma to_front_chain:
  assumes ch: "chain (cnodes s) (cache s ! j) (us @ a # vs)" and d: "distinct (us @ a # vs)"
    and us: "us \<noteq> []" and j: "j < length (cache s)"
  shows "chain (cnodes (to_front j (Some (last us)) a s)) (cache (to_front j (Some (last us)) a s) ! j)
    (a # us @ vs)"
proof -
  obtain ws b where ub: "us = ws @ [b]" using us by (cases us rule: rev_cases) auto
  let ?N = "cnodes s" and ?h = "cache s ! j"
  obtain n where n: "?N a = Some n" "chain ?N (c_next n) vs"
    using chain_append [OF ch] by auto
  let ?N1 = "set_next b (c_next n) ?N"
  have tl: "chain ?N1 (c_next n) vs" using d ub by (intro chain_cong [OF n(2)]) (auto intro!: set_next_other)
  have full: "chain ?N ?h (ws @ b # a # vs)" "distinct (ws @ b # a # vs)"
    using ch d unfolding ub append_assoc append_Cons append_Nil .
  have mid: "chain ?N1 ?h (ws @ b # vs)" by (rule chain_set_next_last [OF full tl])
  have "chain (set_next a ?h ?N1) ?h (ws @ b # vs)"
    using full(2) by (intro chain_cong [OF mid] ballI set_next_other) auto
  moreover have "?N1 a = Some n" using n d ub by simp
  ultimately show ?thesis using n j ub by (simp add: to_front_def next_of_def Let_def)
qed

section \<open>Reading what was stored\<close>

lemma unat_ucast_u32: "unat (ucast (w :: u32) :: u64) = unat w"
proof -
  have "unat w < 2 ^ LENGTH(32)" by (rule unsigned_less)
  then show ?thesis by (simp add: unsigned_ucast_eq take_bit_nat_eq_self)
qed

lemma CACHE_FD_mask: "CACHE_FD x = take_bit 60 x"
proof -
  have "(0xFFFFFFFFFFFFFFF :: u64) = mask 60" by (simp add: mask_eq_exp_minus_1)
  then show ?thesis by (simp add: CACHE_FD_def take_bit_eq_mask)
qed

lemma CACHE_FD_prio [simp]: "CACHE_FD (prio_fd fd prio) = CACHE_FD fd"
  by (simp add: prio_fd_def CACHE_FD_mask take_bit_or take_bit_push_bit)

lemma CACHE_FD_small: "unat fd < 2 ^ 60 \<Longrightarrow> CACHE_FD fd = fd"
  by (simp add: CACHE_FD_mask take_bit_eq_mod word_eq_iff_unat unat_mod)

definition cache_wf :: "fsstate \<Rightarrow> bool" where
  "cache_wf s \<longleftrightarrow> length (cache s) = unat (cachelines s) \<and> cachelines s \<noteq> 0 \<and>
     (\<forall>j < length (cache s). \<exists>xs. chain (cnodes s) (cache s ! j) xs \<and> distinct xs \<and>
        cfresh s \<notin> set xs) \<and> length (fcbs s) < 2 ^ 31"

lemma cache_line_less: "cache_wf s \<Longrightarrow> cache_line lsn s < length (cache s)"
proof -
  assume wf: "cache_wf s"
  have c: "unat (ucast (cachelines s) :: u64) = unat (cachelines s)" by (rule unat_ucast_u32)
  have "unat (cachelines s) > 0" using wf by (simp add: cache_wf_def unat_gt_0)
  then show ?thesis using wf c by (simp add: cache_line_def cache_wf_def unat_mod)
qed

lemma to_front_simps [simp]:
  "fcbs (to_front j l a s) = fcbs s" "cachelines (to_front j l a s) = cachelines s"
  "j < length (cache s) \<Longrightarrow> cache (to_front j l a s) ! j = Some a"
  by (simp_all add: to_front_def Let_def split: option.split)

lemma to_front_node:
  "map_option (\<lambda>n. n\<lparr>c_next := None\<rparr>) (cnodes (to_front j l a s) a) =
   map_option (\<lambda>n. n\<lparr>c_next := None\<rparr>) (cnodes s a)"
  by (simp add: to_front_def Let_def set_next_def option.map_comp comp_def split: option.split)

lemma to_front_node_fields:
  assumes "cnodes s a = Some n"
  obtains m where "cnodes (to_front j l a s) a = Some m" "c_fd m = c_fd n" "c_lsn m = c_lsn n" "c_blk m = c_blk n"
proof -
  from to_front_node [of j l a s] assms obtain m where
    m: "cnodes (to_front j l a s) a = Some m" "m\<lparr>c_next := None\<rparr> = n\<lparr>c_next := None\<rparr>"
    by (cases "cnodes (to_front j l a s) a") auto
  have "c_fd (m\<lparr>c_next := None\<rparr>) = c_fd (n\<lparr>c_next := None\<rparr>)"
    "c_lsn (m\<lparr>c_next := None\<rparr>) = c_lsn (n\<lparr>c_next := None\<rparr>)"
    "c_blk (m\<lparr>c_next := None\<rparr>) = c_blk (n\<lparr>c_next := None\<rparr>)" using m(2) by simp_all
  with m(1) show thesis by (intro that [of m]) simp_all
qed

text \<open>A block request or delivery for a device that exists and an address inside it.\<close>

definition cache_ok :: "u64 \<Rightarrow> u64 \<Rightarrow> fsstate \<Rightarrow> bool" where
  "cache_ok fd lsn s \<longleftrightarrow> unat fd < length (fcbs s) \<and> lsn \<noteq> NOFID \<and>
     f_type (fcbs s ! unat fd) = FCB_TYPE_DEVICE \<and> 1 < f_blksize (fcbs s ! unat fd) \<and>
     (lsn + 1) * ucast (f_blksize (fcbs s ! unat fd)) \<le> f_filesize (fcbs s ! unat fd)"

text \<open>When the block is at the head of its line, it is found at once.\<close>

lemma cache_getblock_head:
  assumes "cache_ok fd lsn s" and "cache s ! cache_line lsn s = Some a" and "cnodes s a = Some n"
    and "CACHE_FD (c_fd n) = fd" and "c_lsn n = lsn"
  shows "cache_getblock fd lsn s = Some (Some (Blk (c_blk n)), to_front (cache_line lsn s) None a s)"
proof -
  have "cache_find (cnodes s) fd lsn None (Some a) = Some (None, Some a)"
    using assms(3-5) by (simp add: cache_find.simps)
  with assms(1-3) show ?thesis by (simp add: cache_getblock_def cache_ok_def Let_def not_less)
qed

text \<open>A cache with two lines for one device; the first line holds the blocks 0 and 2.\<close>

definition sample_cache :: fsstate where
  "sample_cache = fs_start\<lparr>cachelines := 2, cache := [Some 0, None], cfresh := 2,
     cnodes := [0 \<mapsto> \<lparr>c_fd = 0, c_lsn = 0, c_blk = [1, 2], c_next = Some 1\<rparr>,
                1 \<mapsto> \<lparr>c_fd = 0, c_lsn = 2, c_blk = [3, 4], c_next = None\<rparr>],
     fcbs := [zero_fcb\<lparr>f_abspath := Some [100], f_type := FCB_TYPE_DEVICE, f_mode := O_RDWR,
       f_blksize := 2, f_filesize := 64\<rparr>]\<rparr>"

lemma sample_cache_wf: "cache_wf sample_cache"
proof -
  have "\<exists>xs. chain (cnodes sample_cache) (cache sample_cache ! j) xs \<and> distinct xs \<and> cfresh sample_cache \<notin> set xs"
    if "j < 2" for j
  proof -
    have "chain (cnodes sample_cache) (Some 0) [0, 1]" "chain (cnodes sample_cache) None []"
      by (simp_all add: sample_cache_def)
    moreover from that have "j = 0 \<or> j = 1" by auto
    ultimately show ?thesis
      by (auto simp: sample_cache_def intro: exI [of _ "[0, 1]"] exI [of _ "[]"])
  qed
  then show ?thesis by (simp add: cache_wf_def sample_cache_def)
qed

lemma sample_cache_ok:
  "cache_ok 0 0 sample_cache" "cache_ok 0 2 sample_cache"
  "cache_line 0 sample_cache = 0" "cache_line 2 sample_cache = 0"
  by (simp_all add: cache_ok_def cache_line_def sample_cache_def NOFID_def zero_fcb_def)

text \<open>
  C31. A block that a driver or a file system hands to the cache is what the next request for it
  returns: on a well formed cache \<^verbatim>\<open>cache_setblock\<close> succeeds whether the block was there before or
  not, and \<^verbatim>\<open>cache_getblock\<close> then answers with the stored bytes, without asking the driver.
\<close>

theorem cache_set_get:
  assumes wf: "cache_wf s" and ok: "cache_ok fd lsn s" and heap: "heap_ok s"
    and data: "blk_bytes s blk (unat (f_blksize (fcbs s ! unat fd))) = Some data"
  shows "\<exists>s' s''. cache_setblock fd lsn blk prio s = Some (True, s') \<and>
    cache_getblock fd lsn s' = Some (Some (Blk data), s'') \<and> outbox s'' = outbox s"
proof -
  let ?j = "cache_line lsn s" and ?bs = "ucast (f_blksize (fcbs s ! unat fd)) :: u64"
  have j: "?j < length (cache s)" using wf by (rule cache_line_less)
  obtain xs where xs: "chain (cnodes s) (cache s ! ?j) xs" using wf j by (auto simp: cache_wf_def)
  have fd: "CACHE_FD fd = fd" using wf ok by (intro CACHE_FD_small) (simp add: cache_wf_def cache_ok_def)
  have bs: "unat ?bs = unat (f_blksize (fcbs s ! unat fd))" by (rule unat_ucast_u32)
  have one: "\<not> ?bs \<le> 1" using ok bs by (simp add: cache_ok_def word_le_nat_alt word_less_nat_alt)
  obtain l found where f: "cache_find (cnodes s) fd lsn None (cache s ! ?j) = Some (l, found)"
    "\<And>a. found = Some a \<Longrightarrow> holds (cnodes s) fd lsn a"
    using xs by (rule cache_find_terminates [of "cnodes s" "cache s ! ?j" xs fd lsn]) auto
  define a s1 where "a = (case found of Some a \<Rightarrow> a | None \<Rightarrow> cfresh s)"
    and "s1 = (case found of Some a \<Rightarrow> to_front ?j l a s
      | None \<Rightarrow> to_front ?j None (cfresh s)
          (s\<lparr>cnodes := (cnodes s)(cfresh s \<mapsto> \<lparr>c_fd = 0, c_lsn = lsn, c_blk = [], c_next = None\<rparr>)\<rparr>))"
  obtain n where n: "cnodes s1 a = Some n" "c_lsn n = lsn"
  proof (cases found)
    case None
    let ?n = "\<lparr>c_fd = 0, c_lsn = lsn, c_blk = [], c_next = None\<rparr> :: cache_t"
    have "cnodes (s\<lparr>cnodes := (cnodes s)(cfresh s \<mapsto> ?n)\<rparr>) (cfresh s) = Some ?n" by simp
    then obtain m where "cnodes (to_front ?j None (cfresh s) (s\<lparr>cnodes := (cnodes s)(cfresh s \<mapsto> ?n)\<rparr>)) (cfresh s) = Some m"
      "c_lsn m = c_lsn ?n" by (rule to_front_node_fields)
    with None show thesis by (intro that [of m]) (simp_all add: a_def s1_def)
  next
    case (Some b)
    then obtain k where k: "cnodes s b = Some k" "c_lsn k = lsn" using f(2) by (auto simp: holds_def)
    obtain m where "cnodes (to_front ?j l b s) b = Some m" "c_lsn m = c_lsn k"
      by (rule to_front_node_fields [OF k(1)])
    with Some k show thesis by (intro that [of m]) (simp_all add: a_def s1_def)
  qed
  define s' where "s' = s1\<lparr>cnodes := (cnodes s1)(a := map_option (\<lambda>n. n\<lparr>c_fd := prio_fd fd prio, c_blk := data\<rparr>) (cnodes s1 a)),
    cfresh := (if found = None then Suc (cfresh s) else cfresh s)\<rparr>"
  have set: "cache_setblock fd lsn blk prio s = Some (True, s')"
    using ok f(1) data one heap bs
    by (simp add: cache_setblock_def cache_ok_def Let_def not_less s'_def s1_def a_def)
  have frame: "fcbs s1 = fcbs s" "cachelines s1 = cachelines s" "cache s1 ! ?j = Some a" "outbox s1 = outbox s"
    using j by (auto simp: s1_def a_def to_front_def Let_def split: option.split)
  then have "cache_ok fd lsn s'" "cache s' ! cache_line lsn s' = Some a"
    using ok by (simp_all add: s'_def cache_ok_def cache_line_def)
  moreover have "cnodes s' a = Some (n\<lparr>c_fd := prio_fd fd prio, c_blk := data\<rparr>)" by (simp add: s'_def n)
  ultimately have "cache_getblock fd lsn s' = Some (Some (Blk data), to_front (cache_line lsn s') None a s')"
    using cache_getblock_head [of fd lsn s' a] n(2) fd by simp
  with set frame(4) show ?thesis by (simp add: to_front_def s'_def Let_def)
qed

lemma cache_find_loop:
  assumes "N a = Some n" and "c_next n = Some a" and "\<not> (CACHE_FD (c_fd n) = fd \<and> c_lsn n = lsn)"
  shows "cache_find N fd lsn l (Some a) = None"
proof (rule ccontr)
  assume "cache_find N fd lsn l (Some a) \<noteq> None"
  then obtain r where "cache_find N fd lsn l (Some a) = Some r" by blast
  then have "N = N \<and> fd = fd \<and> lsn = lsn \<and> Some a = Some a \<longrightarrow> False"
  proof (rule cache_find.raw_induct [rotated, where P = "\<lambda>N' fd' lsn' l c r. N' = N \<and> fd' = fd \<and> lsn' = lsn \<and> c = Some a \<longrightarrow> False"])
    fix rec N' fd' lsn' l c r
    assume rec: "\<And>N' fd' lsn' l c y. rec N' fd' lsn' l c = Some y \<Longrightarrow>
        N' = N \<and> fd' = fd \<and> lsn' = lsn \<and> c = Some a \<longrightarrow> False"
      and run: "(case c of None \<Rightarrow> Some (l, None) | Some a \<Rightarrow>
          (case N' a of None \<Rightarrow> None | Some n \<Rightarrow>
            if CACHE_FD (c_fd n) = fd' \<and> c_lsn n = lsn' then Some (l, Some a)
            else rec N' fd' lsn' (Some a) (c_next n))) = Some r"
    show "N' = N \<and> fd' = fd \<and> lsn' = lsn \<and> c = Some a \<longrightarrow> False"
      using run rec [of N fd lsn "Some a" "Some a" r] assms by auto
  qed
  then show False by simp
qed

theorem cache_set_get_witness:
  "\<exists>s' s''. cache_setblock 0 2 (Blk [7, 8]) 1 sample_cache = Some (True, s') \<and>
     cache_getblock 0 2 s' = Some (Some (Blk [7, 8]), s'') \<and> outbox s'' = outbox sample_cache"
  by (rule cache_set_get [OF sample_cache_wf sample_cache_ok(2)])
    (simp_all add: sample_cache_def fs_start_def zero_fcb_def blk_bytes_def)

text \<open>
  A hit on the most recently used block of a line destroys the line. The node is not unlinked
  (there is no previous node), so linking it to the front makes it point to itself: the other
  blocks of the line are lost, and the next request for any other block of that line, present
  before or not, walks in a circle and never returns.
\<close>

lemma cache_head_hit_hangs:
  assumes ok: "cache_ok fd lsn s" "cache_wf s" and head: "cache s ! cache_line lsn s = Some a"
    and hit: "holds (cnodes s) fd lsn a"
    and other: "cache_ok fd' lsn' s" "cache_line lsn' s = cache_line lsn s" "(fd', lsn') \<noteq> (fd, lsn)"
  shows "\<exists>b s'. cache_getblock fd lsn s = Some (Some b, s') \<and> cache_getblock fd' lsn' s' = None"
proof -
  let ?j = "cache_line lsn s"
  obtain n where n: "cnodes s a = Some n" "CACHE_FD (c_fd n) = fd" "c_lsn n = lsn"
    using hit by (auto simp: holds_def)
  define s' where "s' = to_front ?j None a s"
  have get: "cache_getblock fd lsn s = Some (Some (Blk (c_blk n)), s')"
    unfolding s'_def by (rule cache_getblock_head [OF ok(1) head n])
  have j: "?j < length (cache s)" using ok(2) by (rule cache_line_less)
  have loop: "cnodes s' a = Some (n\<lparr>c_next := Some a\<rparr>)" "cache s' ! ?j = Some a"
    using head j n by (simp_all add: s'_def to_front_def Let_def)
  have miss: "\<not> (CACHE_FD (c_fd n) = fd' \<and> c_lsn n = lsn')" using n other(3) by auto
  have "cache_find (cnodes s') fd' lsn' None (cache s' ! ?j) = None"
    unfolding loop(2) using miss by (intro cache_find_loop [where n = "n\<lparr>c_next := Some a\<rparr>"]) (simp_all add: loop(1))
  moreover have "cache_line lsn' s' = ?j" "fcbs s' = fcbs s"
    using other(2) by (simp_all add: s'_def cache_line_def)
  ultimately have "cache_getblock fd' lsn' s' = None"
    using other(1) loop(2) by (simp add: cache_getblock_def cache_ok_def Let_def not_less)
  with get show ?thesis by blast
qed

lemma cache_head_hit_hangs_witness:
  "\<exists>b s'. cache_getblock 0 0 sample_cache = Some (Some b, s') \<and> cache_getblock 0 2 s' = None"
  by (rule cache_head_hit_hangs [OF sample_cache_ok(1) sample_cache_wf _ _ sample_cache_ok(2), of 0])
    (simp_all add: sample_cache_ok(3,4) holds_def, simp_all add: sample_cache_def CACHE_FD_def)

end
