(* ===== verification/Fs_Fsdrv.thy ===== *)
theory Fs_Fsdrv
  imports Fs_State
begin

text \<open>
  The table of file system drivers, \<^verbatim>\<open>fs/fsdrv.c\<close>. A driver is a record of optional functions on
  the state of the service, as the structure of function pointers in \<^verbatim>\<open>fs/fsdrv.h\<close>. The table is
  passed to the operations that use it and is not part of the state record.
\<close>

text \<open>
  The path of a search is a pointer into a buffer, which the driver may change: the bytes of the buffer and the position.
\<close>

record locate_t =
  l_inode :: u64
  l_filesize :: u64
  l_fileblk :: "bptr option"
  l_buf :: "u8 list"
  l_off :: nat
  l_type :: u8
  l_creat :: bool

definition l_path :: "locate_t \<Rightarrow> u8 list" where
  "l_path loc = takeWhile (\<lambda>c. c \<noteq> 0) (drop (l_off loc) (l_buf loc))"

type_synonym 'a fsop = "fsstate \<Rightarrow> ('a \<times> fsstate) option"

record fsdrv_t =
  dr_name :: "u8 list option"
  dr_desc :: "u8 list"
  dr_detect :: "(u64 \<Rightarrow> bptr \<Rightarrow> bool fsop) option"
  dr_locate :: "(u64 \<Rightarrow> u64 \<Rightarrow> locate_t \<Rightarrow> (u64 \<times> locate_t) fsop) option"
  dr_resizefs :: "(u64 \<Rightarrow> unit fsop) option"
  dr_checkfs :: "(u64 \<Rightarrow> bool fsop) option"
  dr_stat :: "(u64 \<Rightarrow> u64 \<Rightarrow> stat_t \<Rightarrow> (bool \<times> stat_t \<times> u8 list option) fsop) option"
  dr_getdirent :: "(bptr option \<Rightarrow> u64 \<Rightarrow> dirent_t \<Rightarrow> (u64 \<times> dirent_t) fsop) option"
  dr_read :: "(u64 \<Rightarrow> u64 \<Rightarrow> u32 \<Rightarrow> u64 \<Rightarrow> u64 \<Rightarrow> (bptr option \<times> u64) fsop) option"
  dr_writetrb :: "(u64 \<Rightarrow> u64 \<Rightarrow> bool fsop) option"
  dr_write :: "(u64 \<Rightarrow> u64 \<Rightarrow> u64 \<Rightarrow> u8 list \<Rightarrow> bool fsop) option"
  dr_writetre :: "(u64 \<Rightarrow> u64 \<Rightarrow> bool fsop) option"

type_synonym fsdrvs = "fsdrv_t list"

text \<open>
  \<^verbatim>\<open>fsdrv_reg\<close>. Only the device list may come without \<^verbatim>\<open>detect\<close> and \<^verbatim>\<open>locate\<close>. The service ends
  (\<open>None\<close>) when the table cannot grow or when an earlier error code is still set.
\<close>

definition fsdrv_reg :: "fsdrv_t \<Rightarrow> fsdrvs \<Rightarrow> fsstate \<Rightarrow> (u16 \<times> fsdrvs \<times> fsstate) option" where
  "fsdrv_reg fs D s =
     (case dr_name fs of
        None \<Rightarrow> Some (NOFS, D, s)
      | Some name \<Rightarrow>
          if name = [] then Some (NOFS, D, s)
          else
            let isdevfs = (name = chars ''devfs'') in
            if \<not> isdevfs \<and> (dr_detect fs = None \<or> dr_locate fs = None) then Some (NOFS, D, s)
            else if \<not> heap_ok s \<or> fs_errno s \<noteq> 0 then None
            else
              let i = of_nat (length D) :: u16 in
              Some (i, D @ [fs], (if devfsidx s = NOFS \<and> isdevfs then s\<lparr>devfsidx := i\<rparr> else s)))"

definition fsdrv_get :: "u8 list \<Rightarrow> fsdrvs \<Rightarrow> u16" where
  "fsdrv_get name D =
     (case find_index (\<lambda>d. dr_name d = Some name) D of Some i \<Rightarrow> of_nat i | None \<Rightarrow> NOFS)"

text \<open>Registering a driver and asking for it by name: the first one with the name is found.\<close>

lemma fsdrv_get_new:
  assumes "fsdrv_reg fs D s = Some (i, D', s')" and "i \<noteq> NOFS" and "dr_name fs = Some n"
    and "\<forall>d \<in> set D. dr_name d \<noteq> Some n"
  shows "fsdrv_get n D' = i"
proof -
  have D': "D' = D @ [fs]" "i = of_nat (length D)"
    using assms by (auto simp: fsdrv_reg_def Let_def split: if_splits)
  have "find_index (\<lambda>d. dr_name d = Some n) (D @ [fs]) = Some (length D)"
    using assms(3,4) by (induction D) auto
  then show ?thesis by (simp add: fsdrv_get_def D')
qed

end
