(* ===== verification/Fs_Devfs.thy ===== *)
theory Fs_Devfs
  imports Fs_Cache Fs_Fsdrv Libc_Qsort
begin

text \<open>
  The list of devices, \<^verbatim>\<open>fs/devfs.c\<close>, and the two cache operations that depend on it
  (\<^verbatim>\<open>cache_free\<close> of \<^verbatim>\<open>fs/cache.c\<close>).
\<close>

section \<open>Operations\<close>

text \<open>
  \<^verbatim>\<open>strcmp\<close> on strings, which are compared as signed characters with the closing zero included. The
  loop of the code looks at the first characters before it tests for the end, which differs for two
  empty strings only; paths are never empty.
\<close>

fun str_cmp :: "u8 list \<Rightarrow> u8 list \<Rightarrow> int" where
  "str_cmp [] [] = 0"
| "str_cmp [] (y # ys) = - sint y"
| "str_cmp (x # xs) [] = sint x"
| "str_cmp (x # xs) (y # ys) = (if x \<noteq> y then sint x - sint y else str_cmp xs ys)"

definition dev_path :: "fsstate \<Rightarrow> u32 \<Rightarrow> u8 list" where
  "dev_path s i =
     (case at (devs s) i of
        Some d \<Rightarrow> (case at (fcbs s) (d_fid d) of
                     Some f \<Rightarrow> (case f_abspath f of Some p \<Rightarrow> p | None \<Rightarrow> [])
                   | None \<Rightarrow> [])
      | None \<Rightarrow> [])"

definition devfs_cmp :: "fsstate \<Rightarrow> u32 \<Rightarrow> u32 \<Rightarrow> int" where
  "devfs_cmp s a b =
     (if a = - 1 then 1 else if b = - 1 then - 1 else str_cmp (dev_path s b) (dev_path s a))"

text \<open>
  \<^verbatim>\<open>devfs_add\<close>. The search compares the path of every slot; a slot that was freed refers to no
  entry of the table, and reading through it is invalid.
\<close>

fun devfs_search :: "u8 list \<Rightarrow> fcb_t list \<Rightarrow> devfs_t list \<Rightarrow> nat \<Rightarrow> nat option option" where
  "devfs_search p fs [] i = Some None"
| "devfs_search p fs (d # ds) i =
     (case at fs (d_fid d) of
        None \<Rightarrow> None
      | Some f \<Rightarrow> if f_abspath f = Some p \<or> f_abspath f = None then Some (Some i)
                  else devfs_search p fs ds (Suc i))"

definition devfs_path :: "u8 list \<Rightarrow> u8 list" where
  "devfs_path name = DEVPATH @ take 64 name"

definition devfs_add ::
  "u8 list \<Rightarrow> u64 \<Rightarrow> u64 \<Rightarrow> u32 \<Rightarrow> u32 \<Rightarrow> u64 \<Rightarrow> fsstate \<Rightarrow> (u32 \<times> fsstate) option" where
  "devfs_add name drivertask device mode blksize blkcnt s =
     (let tmp = devfs_path name in
      case devfs_search tmp (fcbs s) (devs s) 0 of
        None \<Rightarrow> None
      | Some (Some i) \<Rightarrow> Some (of_nat i, s)
      | Some None \<Rightarrow>
          let i = length (devs s); n = of_nat (Suc i) :: u32 in
          if length (fcbs s) \<le> 1 \<or> \<not> heap_ok s then None
          else do {
            let s1 = upd_fcb 1 (\<lambda>f. f\<lparr>f_filesize := ucast (n * 48)\<rparr>) s;
            (f, s2) \<leftarrow> fcb_add tmp FCB_TYPE_DEVICE s1;
            let s3 = upd_fcb f (\<lambda>e. e\<lparr>f_nopen := f_nopen e + 1, f_mode := mode AND O_AMSK,
                   f_inode := of_nat i, f_blksize := blksize, f_filesize := ucast blksize * blkcnt,
                   f_storage := DEVFCB\<rparr>) s2;
            let r = dev_recent s + 1;
            let s4 = s3\<lparr>devs := devs s @ [zero_dev\<lparr>d_fid := f, d_drivertask := drivertask,
                       d_device := device, d_recent := r\<rparr>], dev_recent := r\<rparr>;
            Some (of_nat i, s4\<lparr>devidx := qsort (devfs_cmp s4) (devidx s @ [of_nat i])\<rparr>)
          })"

definition devfs_used :: "u64 \<Rightarrow> fsstate \<Rightarrow> fsstate" where
  "devfs_used idx s =
     (let idx = ucast idx :: u32 in
      if length (devs s) \<le> unat idx then s
      else
        let s = (if 0xFFFFFFFFFFFFFFF < dev_recent s
                 then s\<lparr>dev_recent := drop_bit 48 (dev_recent s),
                        devs := map (\<lambda>d. if d_fid d \<noteq> NOFID
                          then d\<lparr>d_recent := drop_bit 48 (d_recent d) + 1\<rparr> else d) (devs s)\<rparr>
                 else s);
            r = dev_recent s + 1
        in (upd_dev (ucast idx) (\<lambda>d. d\<lparr>d_recent := r\<rparr>) s)\<lparr>dev_recent := r\<rparr>)"

text \<open>
  \<^verbatim>\<open>devfs_lastused\<close>. The smallest count so far is kept in 32 bits. Result: the index, and the
  state in which the device is not offered again.
\<close>

fun lastused_loop :: "bool \<Rightarrow> devfs_t list \<Rightarrow> u32 \<Rightarrow> u32 \<Rightarrow> u32 \<Rightarrow> u32" where
  "lastused_loop all [] i l k = l"
| "lastused_loop all (d # ds) i l k =
     (if d_fid d \<noteq> NOFID \<and> d_recent d < ucast k \<and> (all \<or> d_recent d \<noteq> 0)
      then lastused_loop all ds (i + 1) i (ucast (d_recent d))
      else lastused_loop all ds (i + 1) l k)"

definition devfs_lastused :: "bool \<Rightarrow> fsstate \<Rightarrow> (u32 \<times> fsstate) option" where
  "devfs_lastused all s =
     (let l = lastused_loop all (devs s) 0 0 (ucast (dev_recent s)) in
      if all then Some (l, s)
      else if unat l < length (devs s) then Some (l, upd_dev (ucast l) (\<lambda>d. d\<lparr>d_recent := 0\<rparr>) s)
      else None)"

text \<open>
  \<^verbatim>\<open>devfs_del\<close>: the mounts of the device go, then its files, its cached blocks and its own entry.
  In the first loop the counter is not adjusted after a removal, so the entry that moves into
  the freed place is skipped.
\<close>

partial_function (option) del_mounts :: "nat \<Rightarrow> u64 \<Rightarrow> fsstate \<Rightarrow> fsstate option" where
  "del_mounts i fid s =
     (if i < length (mtab s)
      then if mt_storage (mtab s ! i) = fid
           then Option.bind (fcb_del (mt_mountpoint (mtab s ! i)) s)
                  (\<lambda>s. del_mounts (Suc i) fid (s\<lparr>mtab := remove_at i (mtab s)\<rparr>))
           else del_mounts (Suc i) fid s
      else Some s)"

partial_function (option) del_files :: "nat \<Rightarrow> u64 \<Rightarrow> fsstate \<Rightarrow> fsstate option" where
  "del_files i fid s =
     (if i < length (fcbs s)
      then if f_type (fcbs s ! i) < FCB_TYPE_PIPE \<and> f_storage (fcbs s ! i) = fid
           then Option.bind (fcb_del (of_nat i) (upd_fcb (of_nat i) (\<lambda>f. f\<lparr>f_nopen := 0\<rparr>) s))
                  (del_files (Suc i) fid)
           else del_files (Suc i) fid s
      else Some s)"

definition dev_shrink :: "devfs_t list \<Rightarrow> devfs_t list" where
  "dev_shrink ds = rev (dropWhile (\<lambda>d. d_fid d = NOFID) (rev ds))"

definition devfs_del :: "u32 \<Rightarrow> fsstate \<Rightarrow> fsstate option" where
  "devfs_del idx s =
     (if length (devs s) \<le> unat idx then Some s
      else
        let fid = d_fid (devs s ! unat idx) in do {
        s \<leftarrow> del_mounts 0 fid s;
        s \<leftarrow> del_files 0 fid s;
        (_, s) \<leftarrow> cache_freeblocks fid 0 s;
        f \<leftarrow> at (fcbs s) fid;
        s \<leftarrow> fcb_del fid (upd_fcb fid (\<lambda>f. f\<lparr>f_nopen := 0\<rparr>) s);
        let ds = dev_shrink ((devs s)[unat idx := (devs s ! unat idx)\<lparr>d_fid := NOFID\<rparr>]);
        let s1 = s\<lparr>devs := ds\<rparr>;
        let ix = map (\<lambda>i. if i = idx then - 1 else i) (take (length ds) (devidx s));
        Some (s1\<lparr>devidx := qsort (devfs_cmp s1) ix\<rparr>)
      })"

text \<open>\<^verbatim>\<open>devfs_getdirent\<close>: the next directory entry and the number of slots passed, 0 at the end.\<close>

partial_function (option) dirent_skip :: "fsstate \<Rightarrow> u64 \<Rightarrow> u64 \<Rightarrow> (u64 \<times> u64) option" where
  "dirent_skip s offs n =
     (if offs \<noteq> NOFID \<and> unat offs < length (devs s)
      then Option.bind (at (devidx s) offs) (\<lambda>k.
        if k = - 1 then Some (offs, n)
        else Option.bind (at (devs s) k) (\<lambda>d.
          if d_fid d = NOFID then dirent_skip s (offs + 1) (n + 1) else Some (offs, n)))
      else Some (offs, n))"

definition devfs_getdirent :: "u64 \<Rightarrow> dirent_t \<Rightarrow> fsstate \<Rightarrow> (u64 \<times> dirent_t) option" where
  "devfs_getdirent offs dirent s = do {
     (offs, n) \<leftarrow> dirent_skip s offs 1;
     if length (devs s) \<le> unat offs then Some (0, dirent)
     else do {
       k \<leftarrow> at (devidx s) offs;
       if k = - 1 then Some (0, dirent)
       else do {
         d \<leftarrow> at (devs s) k;
         f \<leftarrow> at (fcbs s) (d_fid d);
         p \<leftarrow> f_abspath f;
         let name = drop (length DEVPATH) p;
         Some (n, dirent\<lparr>de_dev := DEVFCB, de_ino := offs, de_icon := chars ''dev'' @ drop 3 (de_icon dirent),
           de_filesize := f_filesize f,
           de_type := ucast FCB_TYPE_DEVICE OR (if f_blksize f \<le> 1 then drop_bit 16 S_IFCHR else 0),
           de_name := name, de_len := of_nat (length name)\<rparr>)
       }
     }
   }"

definition devdrv :: fsdrv_t where
  "devdrv = \<lparr>dr_name = Some (chars ''devfs''), dr_desc = chars ''Device list'', dr_detect = None,
     dr_locate = None, dr_resizefs = None, dr_checkfs = None, dr_stat = None, dr_getdirent = None,
     dr_read = None, dr_writetrb = None, dr_write = None, dr_writetre = None\<rparr>"

text \<open>
  \<^verbatim>\<open>devfs_init\<close>. The size of the initial ram disk is read from the superblock at its start: the
  number of sectors and their logarithmic size are arguments.
\<close>

definition devfs_init :: "u64 \<Rightarrow> u8 \<Rightarrow> fsdrvs \<Rightarrow> fsstate \<Rightarrow> (fsdrvs \<times> fsstate) option" where
  "devfs_init numsec logsec D s = do {
     (_, D, s) \<leftarrow> fsdrv_reg devdrv D s;
     let n = drop_bit 12 (numsec * push_bit (unat logsec + 11) 1 + 4096 - 1);
     (_, s) \<leftarrow> fcb_add DEVPATH FCB_TYPE_REG_DIR s;
     (r, s) \<leftarrow> devfs_add (chars ''zero'') MEMFS_MAJOR MEMFS_ZERO O_RDONLY 4096 1 s;
     if r = - 1 then None else do {
     (r, s) \<leftarrow> devfs_add (chars ''root'') MEMFS_MAJOR MEMFS_RAMDISK O_RDWR 4096 n s;
     if r = - 1 then None else do {
     (r, s) \<leftarrow> devfs_add (chars ''random'') MEMFS_MAJOR MEMFS_RANDOM O_RDONLY 4096 1 s;
     if r = - 1 then None else do {
     (r, s) \<leftarrow> devfs_add (chars ''null'') MEMFS_MAJOR MEMFS_NULL O_WRONLY 4096 0 s;
     if r = - 1 then None else Some (D, s)
     }}}
   }"

text \<open>
  \<^verbatim>\<open>cache_free\<close>: at least half of the cached blocks are freed, device by device, the least
  recently used one first, until the same device comes up twice.
\<close>

fun count_blocks :: "cstore \<Rightarrow> nat option list \<Rightarrow> u64 option" where
  "count_blocks N [] = Some 0"
| "count_blocks N (h # hs) = do {
     r \<leftarrow> chain_nodes N h;
     n \<leftarrow> count_blocks N hs;
     Some (of_nat (length r) + n)
   }"

partial_function (option) cache_free_loop :: "u64 \<Rightarrow> u64 \<Rightarrow> u64 \<Rightarrow> u64 \<Rightarrow> fsstate \<Rightarrow> fsstate option" where
  "cache_free_loop tot freed i k s =
     (if freed < tot \<and> i \<noteq> k
      then Option.bind (devfs_lastused False s) (\<lambda>(l, s).
           Option.bind (at (devs s) l) (\<lambda>d.
           Option.bind (cache_freeblocks (d_fid d) (tot - freed) s) (\<lambda>(n, s).
           cache_free_loop tot (freed + n) k (ucast l) s)))
      else Some s)"

definition cache_free :: "fsstate \<Rightarrow> fsstate option" where
  "cache_free s = do {
     tot \<leftarrow> count_blocks (cnodes s) (cache s);
     cache_free_loop (drop_bit 1 tot) 0 0 (- 1) s
   }"

section \<open>The order of the device list\<close>

lemma sint_eq_iff_u8: "sint a = sint b \<longleftrightarrow> a = b" for a b :: u8
  by (metis signed_word_eqI)

lemma sint_zero_iff_u8: "sint a = 0 \<longleftrightarrow> a = 0" for a :: u8
  by (metis signed_0 sint_eq_iff_u8)

lemma str_cmp_sign: "0 < str_cmp x y \<longleftrightarrow> str_cmp y x < 0"
  by (induction x y rule: str_cmp.induct) auto

lemma str_cmp_trans:
  "str_cmp x y \<le> 0 \<Longrightarrow> str_cmp y z \<le> 0 \<Longrightarrow> 0 \<notin> set x \<Longrightarrow> 0 \<notin> set y \<Longrightarrow> 0 \<notin> set z \<Longrightarrow> str_cmp x z \<le> 0"
proof (induction x y arbitrary: z rule: str_cmp.induct)
  case (2 y ys)
  then show ?case using sint_zero_iff_u8 [of y] by (cases z) (auto split: if_splits)
next
  case (3 x xs)
  then show ?case using sint_zero_iff_u8 [of x] by (cases z) auto
next
  case (4 x xs y ys)
  then show ?case using sint_eq_iff_u8 [of x y] by (cases z) (auto split: if_splits)
qed simp

text \<open>Device paths contain no zero byte, so the comparison orders them.\<close>

definition dev_named :: "fsstate \<Rightarrow> u32 set" where
  "dev_named s = {i. i \<noteq> - 1 \<and> 0 \<notin> set (dev_path s i)}"

interpretation dv: comparator "devfs_cmp s" "dev_named s" for s
  by unfold_locales (auto simp: devfs_cmp_def dev_named_def str_cmp_sign intro: str_cmp_trans)

definition devfs_wf :: "fsstate \<Rightarrow> bool" where
  "devfs_wf s \<longleftrightarrow> fcb_wf s \<and> length (devs s) < 2 ^ 31 \<and>
     (\<forall>d \<in> set (devs s). \<exists>f p. at (fcbs s) (d_fid d) = Some f \<and> f_abspath f = Some p \<and> 0 \<notin> set p) \<and>
     mset (devidx s) = mset (map of_nat [0..<length (devs s)])"

lemma of_nat_u32_less: "i < 2 ^ 31 \<Longrightarrow> unat (of_nat i :: u32) = i"
  by (simp add: unat_of_nat take_bit_nat_eq_self)

lemma of_nat_u32_valid:
  assumes "i < 2 ^ 31"
  shows "(of_nat i :: u32) \<noteq> - 1"
proof
  assume "(of_nat i :: u32) = - 1"
  then have "unat (of_nat i :: u32) = unat (- 1 :: u32)" by simp
  with assms show False by (simp add: of_nat_u32_less unsigned_minus_1_eq_mask mask_eq_exp_minus_1)
qed

lemma dev_path_wf:
  assumes "devfs_wf s" and "i < length (devs s)"
  shows "of_nat i \<in> dev_named s"
proof -
  have i: "i < 2 ^ 31" using assms by (simp add: devfs_wf_def)
  obtain f p where "at (fcbs s) (d_fid (devs s ! i)) = Some f" "f_abspath f = Some p" "0 \<notin> set p"
    using assms by (auto simp: devfs_wf_def) (metis nth_mem)
  then show ?thesis
    using assms(2) by (simp add: dev_named_def of_nat_u32_valid [OF i] dev_path_def of_nat_u32_less [OF i])
qed

lemma devfs_search_new:
  assumes "\<And>d. d \<in> set ds \<Longrightarrow> \<exists>f q. at fs (d_fid d) = Some f \<and> f_abspath f = Some q \<and> q \<noteq> p"
  shows "devfs_search p fs ds i = Some None"
  using assms
proof (induction ds arbitrary: i)
  case (Cons d ds)
  obtain f q where "at fs (d_fid d) = Some f" "f_abspath f = Some q" "q \<noteq> p" using Cons.prems [of d] by auto
  with Cons show ?case by simp
qed simp

lemma upd_fcb_simps [simp]:
  "length (fcbs (upd_fcb i g s)) = length (fcbs s)" "devs (upd_fcb i g s) = devs s"
  "devidx (upd_fcb i g s) = devidx s" "dev_recent (upd_fcb i g s) = dev_recent s" "heap_ok (upd_fcb i g s) = heap_ok s"
  by (simp_all add: upd_fcb_def)

text \<open>Updates that keep paths and references of free slots keep the table well formed.\<close>

lemma fcb_wf_upd:
  assumes wf: "fcb_wf s" and g: "\<And>f. f_abspath (g f) = f_abspath f"
    and n: "unat i < length (fcbs s) \<Longrightarrow> f_abspath (fcbs s ! unat i) = None \<Longrightarrow> f_nopen (g (fcbs s ! unat i)) = 0"
  shows "fcb_wf (upd_fcb i g s)"
proof (cases "unat i < length (fcbs s)")
  case True
  let ?fs = "(fcbs s)[unat i := g (fcbs s ! unat i)]"
  have d: "fcb_distinct ?fs" using wf g by (intro fcb_distinct_update) (auto simp: fcb_wf_def)
  have t: "fcb_trim ?fs"
    using wf g True by (auto simp: fcb_wf_def fcb_trim_def last_conv_nth nth_list_update)
  have "\<forall>f \<in> set ?fs. f_abspath f = None \<longrightarrow> f_nopen f = 0"
    using wf g n [OF True] by (auto simp: fcb_wf_def dest!: subsetD [OF set_update_subset_insert])
  with d t wf True show ?thesis by (simp add: fcb_wf_def upd_fcb_def update_at_def)
next
  case False
  then have "upd_fcb i g s = s" by (simp add: upd_fcb_def update_at_def)
  with wf show ?thesis by simp
qed

lemma at_upd_fcb_path:
  assumes "\<And>f. f_abspath (g f) = f_abspath f"
  shows "map_option f_abspath (at (fcbs (upd_fcb i g s)) k) = map_option f_abspath (at (fcbs s) k)"
  using assms by (auto simp: at_def upd_fcb_def nth_update_at)

lemma devfs_cmp_cong:
  "devs t = devs s \<Longrightarrow> fcbs t = fcbs s \<Longrightarrow> devfs_cmp t = devfs_cmp s \<and> dev_path t = dev_path s"
proof
  assume d: "devs t = devs s" and f: "fcbs t = fcbs s"
  show p: "dev_path t = dev_path s"
    by (rule ext) (simp add: dev_path_def d f split: option.split)
  show "devfs_cmp t = devfs_cmp s" by (intro ext) (simp add: devfs_cmp_def p)
qed

lemma devfs_wf_sort:
  assumes wf: "devfs_wf t" and s': "s' = t\<lparr>devidx := qsort (devfs_cmp t) (devidx t)\<rparr>"
  shows "devfs_wf s'"
    and "i < j \<Longrightarrow> j < length (devidx s') \<Longrightarrow>
      str_cmp (dev_path s' (devidx s' ! j)) (dev_path s' (devidx s' ! i)) \<le> 0"
proof -
  have "set (devidx t) = of_nat ` {0..<length (devs t)}"
    using wf mset_eq_setD [of "devidx t" "map of_nat [0..<length (devs t)]"] by (auto simp: devfs_wf_def)
  then have named: "set (devidx t) \<subseteq> dev_named t" using dev_path_wf [OF wf] by auto
  then have q: "in_order (devfs_cmp t) (devidx s')" "mset (devidx s') = mset (devidx t)"
    using dv.qsort_sorts [of "devidx t" t] by (simp_all add: s')
  then show "devfs_wf s'" using wf by (simp add: devfs_wf_def s' fcb_wf_def)
  show "str_cmp (dev_path s' (devidx s' ! j)) (dev_path s' (devidx s' ! i)) \<le> 0"
    if ij: "i < j" "j < length (devidx s')"
  proof -
    have "devfs_cmp s' (devidx s' ! i) (devidx s' ! j) \<le> 0"
      using q(1) ij devfs_cmp_cong [of s' t] by (simp add: in_order_def sorted_wrt_iff_nth_less s')
    moreover have "set (devidx s') \<subseteq> dev_named t" using named mset_eq_setD [OF q(2)] by simp
    then have "devidx s' ! j \<in> dev_named t" "devidx s' ! i \<in> dev_named t" using ij by (meson less_trans nth_mem subsetD)+
    ultimately show ?thesis by (simp add: devfs_cmp_def dev_named_def)
  qed
qed

text \<open>
  C32. Adding a device with a new name succeeds and keeps the device table well formed: the new
  device is the last of the table with the driver, number and access mode it was given, its name
  appears under \<^verbatim>\<open>/dev/\<close>, and the directory listing holds every device exactly once, ordered by
  name (from the last name to the first).
\<close>

theorem devfs_add_listing:
  assumes wf: "devfs_wf s" and heap: "heap_ok s" and root: "1 < length (fcbs s)"
    and room: "length (fcbs s) + 1 < 2 ^ 31" "length (devs s) + 1 < 2 ^ 31"
    and name: "0 \<notin> set name"
    and new: "\<And>i. i < length (devs s) \<Longrightarrow> dev_path s (of_nat i) \<noteq> devfs_path name"
  shows "\<exists>s'. devfs_add name drivertask device mode blksize blkcnt s = Some (of_nat (length (devs s)), s') \<and>
    devfs_wf s' \<and> length (devs s') = length (devs s) + 1 \<and>
    dev_path s' (of_nat (length (devs s))) = devfs_path name \<and>
    d_drivertask (last (devs s')) = drivertask \<and> d_device (last (devs s')) = device \<and>
    (\<forall>i j. i < j \<and> j < length (devidx s') \<longrightarrow>
       str_cmp (dev_path s' (devidx s' ! j)) (dev_path s' (devidx s' ! i)) \<le> 0)"
proof -
  let ?p = "devfs_path name" and ?n = "length (devs s)"
  define s1 where "s1 = upd_fcb 1 (\<lambda>f. f\<lparr>f_filesize := ucast (of_nat (Suc ?n) * 48 :: u32)\<rparr>) s"
  have dv: "\<exists>f q. at (fcbs s) (d_fid d) = Some f \<and> f_abspath f = Some q \<and> q \<noteq> ?p" if d: "d \<in> set (devs s)" for d
  proof -
    obtain i where i: "i < ?n" "d = devs s ! i" using d by (auto simp: in_set_conv_nth)
    obtain f q where f: "at (fcbs s) (d_fid d) = Some f" "f_abspath f = Some q"
      using wf d by (auto simp: devfs_wf_def)
    have "dev_path s (of_nat i) = q"
      using f i room(2) by (simp add: dev_path_def of_nat_u32_less)
    with new [OF i(1)] f show ?thesis by auto
  qed
  have search: "devfs_search ?p (fcbs s) (devs s) 0 = Some None" by (rule devfs_search_new) (rule dv)
  have wf1: "fcb_wf s1" using wf unfolding s1_def by (intro fcb_wf_upd) (auto simp: devfs_wf_def fcb_wf_def)
  have room1: "length (fcbs s1) + 1 < 2 ^ 31" "heap_ok s1" using room heap by (simp_all add: s1_def)
  obtain f s2 where a: "fcb_add ?p FCB_TYPE_DEVICE s1 = Some (of_nat f, s2)" "s2 = s1\<lparr>fcbs := fcbs s2\<rparr>"
    "fcb_wf s2" "f < length (fcbs s2)" "f_abspath (fcbs s2 ! f) = Some ?p" "length (fcbs s1) \<le> length (fcbs s2)"
    "\<And>j. j < length (fcbs s1) \<Longrightarrow> j \<noteq> f \<Longrightarrow> fcbs s2 ! j = fcbs s1 ! j"
    "f < length (fcbs s1) \<Longrightarrow> f_abspath (fcbs s1 ! f) \<in> {None, Some ?p}"
    by (rule fcb_add_wf [OF wf1 room1(1,2)]) blast
  define g :: "fcb_t \<Rightarrow> fcb_t" where "g = (\<lambda>e. e\<lparr>f_nopen := f_nopen e + 1, f_mode := mode AND O_AMSK,
    f_inode := of_nat ?n, f_blksize := blksize, f_filesize := ucast blksize * blkcnt, f_storage := DEVFCB\<rparr>)"
  define D where "D = zero_dev\<lparr>d_fid := of_nat f, d_drivertask := drivertask, d_device := device,
    d_recent := dev_recent s + 1\<rparr>"
  define s4 where "s4 = (upd_fcb (of_nat f) g s2)\<lparr>devs := devs s @ [D], dev_recent := dev_recent s + 1\<rparr>"
  define t where "t = s4\<lparr>devidx := devidx s @ [of_nat ?n]\<rparr>"
  define s' where "s' = s4\<lparr>devidx := qsort (devfs_cmp s4) (devidx s @ [of_nat ?n])\<rparr>"
  have g: "f_abspath (g e) = f_abspath e" for e by (simp add: g_def)
  have u: "unat (of_nat f :: u64) = f" using a(3,4) by (intro unat_of_nat_u64) (simp add: fcb_wf_def)
  have add: "devfs_add name drivertask device mode blksize blkcnt s = Some (of_nat ?n, s')"
    using search heap root a(1) [unfolded s1_def] unfolding devfs_add_def
    by (simp add: Let_def s'_def s4_def g_def D_def)
  have path: "map_option f_abspath (at (fcbs t) k) = map_option f_abspath (at (fcbs s2) k)" for k :: u64
    using at_upd_fcb_path [of g "of_nat f" s2 k] g by (simp add: t_def s4_def)
  have old: "\<exists>e q. at (fcbs t) (d_fid d) = Some e \<and> f_abspath e = Some q \<and> 0 \<notin> set q" if d: "d \<in> set (devs s)" for d
  proof -
    obtain e q where e: "at (fcbs s) (d_fid d) = Some e" "f_abspath e = Some q" "0 \<notin> set q" "q \<noteq> ?p"
      using wf d dv [OF d] by (force simp: devfs_wf_def)
    then have "map_option f_abspath (at (fcbs s1) (d_fid d)) = Some (Some q)"
      unfolding s1_def by (subst at_upd_fcb_path) auto
    then have k: "unat (d_fid d) < length (fcbs s1)" "f_abspath (fcbs s1 ! unat (d_fid d)) = Some q"
      by (auto simp: at_def split: if_splits)
    then have "unat (d_fid d) \<noteq> f" using a(8) e(4) by auto
    with k a(6,7) have "map_option f_abspath (at (fcbs s2) (d_fid d)) = Some (Some q)" by (simp add: at_def)
    with path [of "d_fid d"] e(3) show ?thesis by auto
  qed
  have "map_option f_abspath (at (fcbs s2) (of_nat f :: u64)) = Some (Some ?p)" using a(4,5) u by (simp add: at_def)
  with path [of "of_nat f"] have newp: "map_option f_abspath (at (fcbs t) (of_nat f :: u64)) = Some (Some ?p)" by (simp only:)
  have wft: "devfs_wf t"
  proof -
    have "fcb_wf (upd_fcb (of_nat f) g s2)" using a(3,5) g u by (intro fcb_wf_upd) auto
    moreover have "0 \<notin> set ?p" using name by (auto simp: devfs_path_def DEVPATH_def chars_def dest: in_set_takeD)
    ultimately show ?thesis
      using old newp wf room(2) by (auto simp: devfs_wf_def t_def s4_def D_def fcb_wf_def)
  qed
  have "devfs_cmp t = devfs_cmp s4" by (intro conjunct1 [OF devfs_cmp_cong]) (simp_all add: t_def)
  then have s't: "s' = t\<lparr>devidx := qsort (devfs_cmp t) (devidx t)\<rparr>" by (simp add: s'_def t_def)
  have "at (devs s') (of_nat ?n :: u32) = Some D" using room(2) by (simp add: at_def s'_def s4_def of_nat_u32_less)
  moreover have "fcbs s' = fcbs t" "d_fid D = of_nat f" by (simp_all add: s't D_def)
  ultimately have "dev_path s' (of_nat ?n) = ?p" using newp by (auto simp: dev_path_def)
  moreover have "length (devs s') = ?n + 1" "last (devs s') = D" by (simp_all add: s'_def s4_def)
  ultimately show ?thesis using add devfs_wf_sort [OF wft s't] by (auto simp: D_def)
qed

theorem devfs_add_listing_witness:
  "\<exists>s'. devfs_add [104] 3 7 O_RDWR 512 8
      (fs_start\<lparr>fcbs := [sample_dir [47] 1, sample_dir DEVPATH 1, sample_dir [98] 0]\<rparr>) = Some (0, s') \<and>
     devfs_wf s' \<and> dev_path s' 0 = devfs_path [104]"
proof -
  let ?s = "fs_start\<lparr>fcbs := [sample_dir [47] 1, sample_dir DEVPATH 1, sample_dir [98] 0]\<rparr>"
  have "fcb_wf ?s" by (rule sample_table_wf) (simp add: DEVPATH_def chars_def)
  then have "devfs_wf ?s" "heap_ok ?s" by (simp_all add: devfs_wf_def fs_start_def)
  then show ?thesis
    using devfs_add_listing [of ?s "[104]" 3 7 O_RDWR 512 8] by (auto simp: fs_start_def)
qed

end
