(* ===== verification/Fs_Path.thy ===== *)
theory Fs_Path
  imports Fs_Fcb Libc_Stdlib
begin

text \<open>
  Paths in the file system service, the first part of \<^verbatim>\<open>fs/vfs.c\<close>: the stack of directories,
  concatenation, canonical form, and the version and offset suffixes.
\<close>

section \<open>Operations\<close>

text \<open>
  The stack keeps the last 64 directories, each with a pointer into the path that is looked up, given as a position; the oldest
  one is dropped when the stack is full.
\<close>

record pathstack_t =
  ps_inode :: u64
  ps_path :: nat

definition pathpush :: "u64 \<Rightarrow> nat \<Rightarrow> pathstack_t list \<Rightarrow> pathstack_t list" where
  "pathpush lsn path st =
     (if length st = PATHSTACKSIZE then drop 1 st else st) @ [\<lparr>ps_inode = lsn, ps_path = path\<rparr>]"

definition pathpop :: "pathstack_t list \<Rightarrow> pathstack_t option \<times> pathstack_t list" where
  "pathpop st = (if st = [] then (None, st) else (Some (last st), butlast st))"

text \<open>A buffer read as a C string.\<close>

definition cstring :: "u8 list \<Rightarrow> u8 list" where
  "cstring b = takeWhile (\<lambda>c. c \<noteq> 0) b"

definition PATHEND :: "u8 \<Rightarrow> bool" where
  "PATHEND c \<longleftrightarrow> c = 59 \<or> c = 35 \<or> c = 0"

definition pathcat :: "u32 \<Rightarrow> u8 list \<Rightarrow> u8 list option \<Rightarrow> u8 list option" where
  "pathcat pmax path filename =
     (if path = [] then None
      else case filename of
        None \<Rightarrow> Some path
      | Some f \<Rightarrow>
          if f = [] then Some path
          else if unat pmax \<le> length path + length f then None
          else Some (path @ (if last path \<noteq> 47 then [47] else []) @ (if f ! 0 = 47 then drop 1 f else f)))"

text \<open>
  \<^verbatim>\<open>canonize\<close>. The result buffer is a list of the bytes written so far and may hold zero bytes: the
  length of the device directory is taken with \<^verbatim>\<open>sizeof\<close>, which counts the closing zero of the
  literal. The scan state is the buffer and the position in the path.
\<close>

definition canon_start :: "u8 list \<Rightarrow> u8 list \<Rightarrow> u8 list \<Rightarrow> u8 list \<times> nat" where
  "canon_start root work p =
     (let i = length (takeWhile (\<lambda>c. c \<noteq> 58 \<and> c \<noteq> 47 \<and> \<not> PATHEND c) p) in
      if ch p i = 58
      then ((if i = 4 \<and> take 4 p = chars ''root'' then [] else DEVPATH @ [0] @ take i p) @ [47],
            if i + 1 < length p \<and> ch p (i + 1) = 47 then i + 2 else i + 1)
      else if ch p 0 = 47 then (root, if last root = 47 then 1 else 0)
      else (work, 0))"

definition minus_skip :: "u8 list \<Rightarrow> nat \<Rightarrow> nat" where
  "minus_skip p i = (if i < length p \<and> ch p i = 45 then i + 1 else i)"

definition canon_version :: "u8 list \<Rightarrow> u8 list \<Rightarrow> nat \<Rightarrow> u8 list \<times> nat" where
  "canon_version p res i =
     (let i = minus_skip p (i + 1) in
      if i + 1 < length p \<and> 49 \<le> ch p i \<and> ch p i \<le> 57 \<and> (ch p (i + 1) = 35 \<or> ch p (i + 1) = 0)
      then (res @ [59, ch p i], i + 1) else (res, i))"

definition canon_offset :: "u8 list \<Rightarrow> u8 list \<Rightarrow> nat \<Rightarrow> u8 list \<times> nat" where
  "canon_offset p res i =
     (let i = minus_skip p (i + 1) in
      if i < length p \<and> 49 \<le> ch p i \<and> ch p i \<le> 57
      then let ds = takeWhile is_dec (drop i p)
           in (res @ [35] @ (if ch p (i - 1) = 45 then [45] else []) @ ds, i + length ds)
      else (res, i))"

text \<open>
  One component: the answer says whether the scan goes on. When it does, the position has moved,
  so the test for this in the loop below always succeeds.
\<close>

definition canon_step :: "u8 list \<Rightarrow> u8 list \<Rightarrow> nat \<Rightarrow> bool \<times> u8 list \<times> nat" where
  "canon_step p res i =
     (let res = (if last res \<noteq> 47 then res @ [47] else res);
          i = i + length (takeWhile (\<lambda>c. c = 47) (drop i p)) in
      if ch p i = 46 \<and> i + 1 < length p \<and> (ch p (i + 1) = 47 \<or> PATHEND (ch p (i + 1)))
      then (True, res, i + 2)
      else if 4 < length res \<and> ch p i = 46 \<and> i + 2 < length p \<and> ch p (i + 1) = 46 \<and>
        (ch p (i + 2) = 47 \<or> PATHEND (ch p (i + 2))) \<and> drop (length res - 4) res = chars ''.../''
      then (True, take (length res - 4) res, i + 3)
      else
        let name = takeWhile (\<lambda>c. c \<noteq> 47 \<and> \<not> PATHEND c) (drop i p);
            res = res @ name; i = i + length name in
        if ch p i = 59 \<and> last res = 47 then (False, res, i)
        else
          let (res, i) = (if ch p i = 59 then canon_version p res i else (res, i)) in
          if ch p i = 35
          then if last res = 47 then (False, res, i)
               else let (res, i) = canon_offset p res i in (False, res, i)
          else (True, res, i + 1))"

function canon_loop :: "u32 \<Rightarrow> u8 list \<Rightarrow> u8 list \<Rightarrow> nat \<Rightarrow> (u8 list \<times> nat) option" where
  "canon_loop pmax p res i =
     (if res = [] \<or> unat pmax < length res + (if last res \<noteq> 47 then 1 else 0) then None
      else if i < length p \<and> \<not> PATHEND (ch p i)
      then let (more, res, i') = canon_step p res i in
           if more \<and> i < i' then canon_loop pmax p res i' else Some (res, i')
      else Some (res, i))"
  by pat_completeness auto

termination
  by (relation "measure (\<lambda>(pmax, p, res, i). length p - i)") auto

declare canon_loop.simps [simp del]

definition canon_end :: "u8 list \<Rightarrow> u8 list \<times> nat \<Rightarrow> u8 list" where
  "canon_end p r =
     (let (res, i) = r;
          res = (if res \<noteq> [] \<and> last res = 47 then butlast res else res)
      in if 0 < i \<and> ch p (i - 1) = 47 then res @ [47] else res)"

text \<open>
  The whole of \<^verbatim>\<open>canonize\<close> for the root and working directory of the current task. \<open>None\<close>: a
  missing context or directory, or a result that does not fit in its buffer of \<^verbatim>\<open>pathmax\<close> bytes;
  \<open>Some None\<close>: the null pointer.
\<close>

definition dir_path :: "fsstate \<Rightarrow> u64 \<Rightarrow> u8 list option" where
  "dir_path s f = Option.bind (at (fcbs s) f) f_abspath"

definition canonize :: "u8 list option \<Rightarrow> fsstate \<Rightarrow> u8 list option option" where
  "canonize path s =
     (case path of
        None \<Rightarrow> Some None
      | Some p \<Rightarrow>
          if p = [] \<or> \<not> heap_ok s then Some None
          else do {
            a \<leftarrow> ctx s;
            t \<leftarrow> tctxs s a;
            root \<leftarrow> dir_path s (tc_rootdir t);
            work \<leftarrow> dir_path s (tc_workdir t);
            let (res, i) = canon_start root work p;
            r \<leftarrow> canon_loop (pathmax s) p res i;
            let c = canon_end p r;
            if unat (pathmax s) \<le> length c then None else Some (Some c)
          })"

text \<open>The suffixes: the version is kept in a byte, the offset is signed.\<close>

definition getver :: "u8 list option \<Rightarrow> u8" where
  "getver path =
     (case path of
        None \<Rightarrow> 0
      | Some p \<Rightarrow> (case dropWhile (\<lambda>c. c \<noteq> 59) p of [] \<Rightarrow> 0 | _ # r \<Rightarrow> ucast (atoi r)))"

definition getoffs :: "u8 list option \<Rightarrow> u64" where
  "getoffs path =
     (case path of
        None \<Rightarrow> 0
      | Some p \<Rightarrow> (case dropWhile (\<lambda>c. c \<noteq> 35) p of [] \<Rightarrow> 0 | _ # r \<Rightarrow> atol r))"

section \<open>Canonical paths\<close>

lemma canon_version_ge: "canon_version p res i = (res', i') \<Longrightarrow> i < i'"
  by (simp add: canon_version_def minus_skip_def Let_def split: if_splits)

lemma canon_step_progress:
  assumes "canon_step p res i = (True, res', i')"
  shows "i < i'"
proof -
  define k where "k = i + length (takeWhile (\<lambda>c. c = 47) (drop i p))"
  define n where "n = k + length (takeWhile (\<lambda>c. c \<noteq> 47 \<and> \<not> PATHEND c) (drop k p))"
  have "i \<le> k" "k \<le> n" by (simp_all add: k_def n_def)
  moreover have "i' \<in> {k + 2, k + 3, n + 1} \<or> (\<exists>r r' j. canon_version p r n = (r', j) \<and> i' = j + 1)"
    using assms unfolding canon_step_def Let_def k_def [symmetric] n_def [symmetric]
    by (auto split: if_split_asm prod.split_asm)
  ultimately show ?thesis using canon_version_ge by fastforce
qed

lemma ch_append [simp]: "ch (pre @ ys) (length pre + k) = ch ys k"
  by (simp add: ch_def)

lemma ch_append0 [simp]: "ch (pre @ ys) (length pre) = ch ys 0"
  using ch_append [of pre ys 0] by simp

text \<open>
  A path as a list of components, each with the number of surplus slashes in front of it, and the
  path with single slashes and without the references to the directory itself.
\<close>

definition render :: "(nat \<times> u8 list) list \<Rightarrow> u8 list" where
  "render segs = concat (map (\<lambda>(n, c). replicate (Suc n) 47 @ c) segs)"

definition join_path :: "u8 list list \<Rightarrow> u8 list" where
  "join_path cs = concat (map (\<lambda>c. 47 # c) cs)"

definition seg_names :: "(nat \<times> u8 list) list \<Rightarrow> u8 list list" where
  "seg_names segs = filter (\<lambda>c. c \<noteq> [46]) (map snd segs)"

definition seg_ok :: "u8 list \<Rightarrow> bool" where
  "seg_ok c \<longleftrightarrow> c \<noteq> [] \<and> (\<forall>x \<in> set c. x \<noteq> 47 \<and> \<not> PATHEND x) \<and> c \<noteq> [46, 46]"

definition add_slash :: "u8 list \<Rightarrow> u8 list" where
  "add_slash res = (if last res \<noteq> 47 then res @ [47] else res)"

lemma takeWhile_slashes: "seg_ok c \<Longrightarrow> takeWhile (\<lambda>c. c = 47) (replicate m 47 @ c @ ys) = replicate m 47"
proof (induction m)
  case 0
  then show ?case by (cases c) (auto simp: seg_ok_def)
qed simp

lemma takeWhile_name:
  assumes "seg_ok c" and "ys = [] \<or> hd ys = 47"
  shows "takeWhile (\<lambda>c. c \<noteq> 47 \<and> \<not> PATHEND c) (c @ ys) = c"
proof -
  have "takeWhile (\<lambda>c. c \<noteq> 47 \<and> \<not> PATHEND c) (c @ ys) = c @ takeWhile (\<lambda>c. c \<noteq> 47 \<and> \<not> PATHEND c) ys"
    using assms(1) by (intro takeWhile_append2) (auto simp: seg_ok_def)
  also have "takeWhile (\<lambda>c. c \<noteq> 47 \<and> \<not> PATHEND c) ys = []" using assms(2) by (cases ys) auto
  finally show ?thesis by simp
qed

lemma canon_step_dot:
  assumes "ys \<noteq> []" and "hd ys = 47"
  shows "canon_step (pre @ replicate m 47 @ [46] @ ys) res (length pre) =
    (True, add_slash res, length pre + m + 2)"
proof -
  let ?p = "pre @ replicate m 47 @ [46] @ ys"
  have t: "takeWhile (\<lambda>c. c = 47) (drop (length pre) ?p) = replicate m 47"
    using takeWhile_slashes [of "[46]" m ys] by (simp add: seg_ok_def PATHEND_def)
  have c: "ch ?p (length pre + m) = 46" "ch ?p (length pre + m + 1) = 47"
    using assms ch_append [of "pre @ replicate m 47" "[46] @ ys" 0]
      ch_append [of "pre @ replicate m 47" "[46] @ ys" 1] by (auto simp: ch_def hd_conv_nth)
  have "length pre + m + 1 < length ?p" using assms(1) by simp
  with t c show ?thesis by (simp add: canon_step_def Let_def add_slash_def)
qed

lemma canon_step_name:
  assumes c: "seg_ok c" "c \<noteq> [46]" and ys: "ys = [] \<or> hd ys = 47"
  shows "canon_step (pre @ replicate m 47 @ c @ ys) res (length pre) =
    (True, add_slash res @ c, length pre + m + length c + 1)"
proof -
  let ?p = "pre @ replicate m 47 @ c @ ys" and ?i = "length pre + m"
  have p: "?p = (pre @ replicate m 47) @ c @ ys" and i: "?i = length (pre @ replicate m 47)" by simp_all
  have t: "takeWhile (\<lambda>c. c = 47) (drop (length pre) ?p) = replicate m 47"
    using takeWhile_slashes [OF c(1)] by simp
  have n: "takeWhile (\<lambda>c. c \<noteq> 47 \<and> \<not> PATHEND c) (drop ?i ?p) = c"
    unfolding p i using takeWhile_name [OF c(1) ys] by simp
  have at: "ch ?p (?i + k) = ch (c @ ys) k" for k unfolding p i by (rule ch_append)
  have "\<not> (ch (c @ ys) 0 = 46 \<and> ?i + 1 < length ?p \<and> (ch (c @ ys) 1 = 47 \<or> PATHEND (ch (c @ ys) 1)))"
    using c ys by (cases c rule: list.exhaust; cases "tl c") (auto simp: seg_ok_def ch_def)
  moreover have "\<not> (ch (c @ ys) 0 = 46 \<and> ?i + 2 < length ?p \<and> ch (c @ ys) 1 = 46 \<and>
      (ch (c @ ys) 2 = 47 \<or> PATHEND (ch (c @ ys) 2)))"
  proof (cases c)
    case (Cons x c')
    then show ?thesis
    proof (cases c')
      case Nil
      with Cons ys show ?thesis by (cases ys) (auto simp: ch_def)
    next
      case (Cons y c'')
      with \<open>c = x # c'\<close> c(1) show ?thesis by (cases c'') (auto simp: seg_ok_def ch_def)
    qed
  qed (use c in \<open>simp add: seg_ok_def\<close>)
  moreover have "ch ?p (?i + length c) = ch ys 0" unfolding p i by (simp add: ch_def nth_append)
  moreover have "ch ys 0 \<noteq> 59" "ch ys 0 \<noteq> 35" using ys by (auto simp: ch_def hd_conv_nth)
  ultimately show ?thesis
    using t n at [of 0] at [of 1] at [of 2]
    by (auto simp: canon_step_def Let_def add_slash_def)
qed

lemma render_Cons: "render ((n, c) # segs) = 47 # replicate n 47 @ c @ render segs"
  by (simp add: render_def)

lemma render_hd: "render segs = [] \<or> hd (render segs) = 47"
  by (cases segs) (auto simp: render_Cons render_def)

definition no_slash_end :: "u8 list \<Rightarrow> u8 list" where
  "no_slash_end res = (if last res = 47 then butlast res else res)"

lemma add_slash_base: "res \<noteq> [] \<Longrightarrow> add_slash res = no_slash_end res @ [47]"
  by (auto simp: add_slash_def no_slash_end_def) (metis append_butlast_last_id)

lemma seg_ok_last: "seg_ok c \<Longrightarrow> last c \<noteq> 47 \<and> c \<noteq> []"
  by (auto simp: seg_ok_def)

lemma canon_loop_render:
  assumes "seg_ok c" and "\<forall>(n, d) \<in> set segs. seg_ok d" and "snd (last ((m, c) # segs)) \<noteq> [46]" and "res \<noteq> []"
    and "p = pre @ replicate m 47 @ c @ render segs"
    and "length res + m + length c + length (render segs) + 1 < unat pmax"
  shows "canon_loop pmax p res (length pre) =
    Some (no_slash_end res @ join_path (seg_names ((m, c) # segs)), length p + 1)"
  using assms
proof (induction segs arbitrary: m c res pre)
  case Nil
  then have c: "seg_ok c" "c \<noteq> [46]" by simp_all
  have p: "p = pre @ replicate m 47 @ c @ []" using Nil.prems(5) by (simp add: render_def)
  have go: "length pre < length p" "\<not> PATHEND (ch p (length pre))"
    using c Nil.prems(5) by (auto simp: seg_ok_def ch_def nth_append PATHEND_def render_def)
  have step: "canon_step p res (length pre) = (True, add_slash res @ c, length p + 1)"
    unfolding p by (subst canon_step_name [OF c]) simp_all
  have "canon_loop pmax p (add_slash res @ c) (length p + 1) = Some (add_slash res @ c, length p + 1)"
    using Nil.prems(4,6) seg_ok_last [OF c(1)] by (subst canon_loop.simps) (auto simp: add_slash_def render_def)
  then have "canon_loop pmax p res (length pre) = Some (add_slash res @ c, length p + 1)"
    using Nil.prems(4,6) go step by (subst canon_loop.simps) simp
  with Nil.prems(4) c(2) show ?case by (simp add: add_slash_base join_path_def seg_names_def)
next
  case (Cons nd segs)
  obtain n d where nd: "nd = (n, d)" by (cases nd)
  let ?ys = "render ((n, d) # segs)"
  have ys: "?ys \<noteq> []" "hd ?ys = 47" by (simp_all add: render_Cons)
  have go: "length pre < length p" "\<not> PATHEND (ch p (length pre))"
    using Cons.prems(1,5) by (auto simp: seg_ok_def ch_def nth_append PATHEND_def)
  have d: "seg_ok d" "\<forall>(n, d) \<in> set segs. seg_ok d" "snd (last ((n, d) # segs)) \<noteq> [46]"
    using Cons.prems(2,3) nd by auto
  show ?case
  proof (cases "c = [46]")
    case True
    have p: "p = (pre @ replicate m 47 @ [46, 47]) @ replicate n 47 @ d @ render segs"
      using Cons.prems(5) True by (simp add: nd render_Cons)
    have "canon_step p res (length pre) = (True, add_slash res, length pre + m + 2)"
      using canon_step_dot [OF ys, of pre m res] Cons.prems(5) True by (simp add: nd)
    then have "canon_loop pmax p res (length pre) = canon_loop pmax p (add_slash res) (length pre + m + 2)"
      using Cons.prems(4,6) go by (subst canon_loop.simps) simp
    also have "\<dots> = Some (no_slash_end (add_slash res) @ join_path (seg_names ((n, d) # segs)), length p + 1)"
    proof -
      have "length (add_slash res) \<le> length res + 1" "add_slash res \<noteq> []" using Cons.prems(4) by (auto simp: add_slash_def)
      then show ?thesis using Cons.IH [OF d _ p, of "add_slash res"] Cons.prems(6) by (simp add: nd render_Cons)
    qed
    also have "no_slash_end (add_slash res) = no_slash_end res"
      using Cons.prems(4) by (simp add: add_slash_base) (simp add: no_slash_end_def)
    finally show ?thesis using True by (simp add: nd seg_names_def)
  next
    case False
    have p: "p = (pre @ replicate m 47 @ c @ [47]) @ replicate n 47 @ d @ render segs"
      using Cons.prems(5) by (simp add: nd render_Cons)
    have "canon_step p res (length pre) = (True, add_slash res @ c, length pre + m + length c + 1)"
      using canon_step_name [OF Cons.prems(1) False, of ?ys pre m res] ys Cons.prems(5) by (simp add: nd)
    then have "canon_loop pmax p res (length pre) = canon_loop pmax p (add_slash res @ c) (length pre + m + length c + 1)"
      using Cons.prems(4,6) go by (subst canon_loop.simps) simp
    also have "\<dots> = Some (no_slash_end (add_slash res @ c) @ join_path (seg_names ((n, d) # segs)), length p + 1)"
    proof -
      have "length (add_slash res) \<le> length res + 1" "add_slash res \<noteq> []" using Cons.prems(4) by (auto simp: add_slash_def)
      then show ?thesis using Cons.IH [OF d _ p, of "add_slash res @ c"] Cons.prems(6) by (simp add: nd render_Cons add.assoc)
    qed
    also have "no_slash_end (add_slash res @ c) = no_slash_end res @ 47 # c"
      using Cons.prems(4) seg_ok_last [OF Cons.prems(1)] by (simp add: add_slash_base) (simp add: no_slash_end_def)
    finally show ?thesis using False by (simp add: nd seg_names_def join_path_def)
  qed
qed

text \<open>
  C40. An absolute path is brought to its canonical form: surplus slashes and references to the
  directory itself (\<^verbatim>\<open>.\<close>) disappear, and all other components stay as they are and in order. The
  task has the root directory \<^verbatim>\<open>/\<close>, the path fits in the buffer, its last component is not \<^verbatim>\<open>.\<close>, and no
  component is \<^verbatim>\<open>..\<close> or carries a version or offset suffix.
\<close>

theorem canonize_normal_form:
  assumes c: "heap_ok s" "ctx s = Some a" "tctxs s a = Some t" "dir_path s (tc_rootdir t) = Some [47]"
    "dir_path s (tc_workdir t) = Some w"
    and segs: "segs \<noteq> []" "\<forall>(n, c) \<in> set segs. seg_ok c" "snd (last segs) \<noteq> [46]"
    and size: "length (render segs) + 1 < unat (pathmax s)"
  shows "canonize (Some (render segs)) s = Some (Some (join_path (seg_names segs)))"
proof -
  obtain m d segs' where s: "segs = (m, d) # segs'" using segs(1) by (cases segs) auto
  let ?p = "render segs"
  have p: "?p = [47] @ replicate m 47 @ d @ render segs'" by (simp add: s render_Cons)
  have start: "canon_start [47] w ?p = ([47], 1)" by (simp add: canon_start_def Let_def s render_Cons ch_def)
  have loop: "canon_loop (pathmax s) ?p [47] (length [47 :: u8]) =
      Some (no_slash_end [47] @ join_path (seg_names ((m, d) # segs')), length ?p + 1)"
    by (rule canon_loop_render [OF _ _ _ _ p]) (use segs size in \<open>auto simp: s render_Cons\<close>)
  have names: "seg_names segs \<noteq> []" "\<forall>c \<in> set (seg_names segs). seg_ok c" "set (seg_names segs) \<subseteq> snd ` set segs"
    using segs by (auto simp: seg_names_def filter_empty_conv image_iff intro!: bexI [of _ "last segs"])
  have last: "last (join_path cs) \<noteq> 47" if "cs \<noteq> []" "\<forall>c \<in> set cs. seg_ok c" for cs
    using that seg_ok_last by (induction cs rule: rev_induct) (auto simp: join_path_def)
  have len: "length (join_path (seg_names segs)) \<le> length (render segs)"
    unfolding join_path_def seg_names_def render_def by (induction segs) auto
  have "canon_end ?p (join_path (seg_names segs), length ?p + 1) = join_path (seg_names segs)"
    using last [OF names(1,2)] by (simp add: canon_end_def ch_def)
  moreover have "?p \<noteq> []" by (simp add: p)
  ultimately show ?thesis
    using c start loop size len by (simp add: canonize_def s [symmetric] no_slash_end_def)
qed

text \<open>A task whose root is the first entry of the table, and the path \<^verbatim>\<open>//usr/./bin///sh\<close>.\<close>

definition sample_root :: fsstate where
  "sample_root = fs_start\<lparr>fcbs := [zero_fcb\<lparr>f_abspath := Some [47]\<rparr>], ctx := Some 0,
     tctxs := (\<lambda>a. if a = 0 then Some zero_tc else None)\<rparr>"

theorem canonize_normal_form_witness:
  "canonize (Some (render [(1, chars ''usr''), (0, chars ''.''), (0, chars ''bin''), (2, chars ''sh'')])) sample_root =
   Some (Some (chars ''/usr/bin/sh''))"
proof -
  let ?segs = "[(1, chars ''usr''), (0, chars ''.''), (0, chars ''bin''), (2, chars ''sh'')]"
  have "canonize (Some (render ?segs)) sample_root = Some (Some (join_path (seg_names ?segs)))"
    by (rule canonize_normal_form [where a = 0 and t = zero_tc and w = "[47]"])
      (simp_all add: sample_root_def fs_start_def zero_tc_def dir_path_def at_def zero_fcb_def seg_ok_def
        PATHEND_def chars_def render_def)
  then show ?thesis by (simp add: join_path_def seg_names_def chars_def)
qed

text \<open>
  A path of the form \<^verbatim>\<open>device:path\<close> is not translated into a path below the device directory: the zero
  byte that closes the literal is counted with it, so that the result reads as the device directory
  itself, whatever follows.
\<close>

lemma device_path_collapses:
  "map_option (map_option cstring) (canonize (Some (chars ''usb:/x'')) sample_root) = Some (Some DEVPATH)"
  by code_simp

text \<open>A version at the end of a path is dropped; it survives only in front of an offset.\<close>

lemma version_suffix_dropped:
  "canonize (Some (chars ''/a;2'')) sample_root = Some (Some (chars ''/a''))"
  "canonize (Some (chars ''/a;2#5'')) sample_root = Some (Some (chars ''/a;2#5''))"
  by code_simp+

end
