(* ===== verification/Fs_Vfs.thy ===== *)
theory Fs_Vfs
  imports Fs_Devfs Fs_Path
begin

text \<open>
  Block access and path lookup, the second part of \<^verbatim>\<open>fs/vfs.c\<close>, with the detection of file systems
  of \<^verbatim>\<open>fs/fsdrv.c\<close>. The table of file system drivers is the argument \<open>D\<close>.
\<close>

section \<open>Operations\<close>

text \<open>Bytes the kernel hands out as random data, in the order of the requests.\<close>

definition getentropy :: "nat \<Rightarrow> fsstate \<Rightarrow> u8 list \<times> fsstate" where
  "getentropy n s =
     (map (\<lambda>i. if i < length (s_entropy s) then s_entropy s ! i else 0) [0..<n],
      s\<lparr>s_entropy := drop n (s_entropy s)\<rparr>)"

text \<open>A driver of the table that offers the operation.\<close>

definition drv :: "fsdrvs \<Rightarrow> u16 \<Rightarrow> (fsdrv_t \<Rightarrow> 'a option) \<Rightarrow> 'a option" where
  "drv D fs sel = Option.bind (at D fs) sel"

text \<open>
  The part of a block that is still in a write buffer: a block inside one buffer is served from it,
  and a block that overlaps one at an end is merged with it, which makes the buffer larger.
\<close>

definition buf_inside :: "u64 \<Rightarrow> u64 \<Rightarrow> writebuf_t \<Rightarrow> bool" where
  "buf_inside b e w \<longleftrightarrow> w_offs w \<le> b \<and> e \<le> w_offs w + w_size w"

definition buf_tail :: "u64 \<Rightarrow> writebuf_t \<Rightarrow> u8 list" where
  "buf_tail b w = drop (unat (b - w_offs w)) (w_data w)"

fun buf_merge ::
  "bool \<Rightarrow> (nat \<Rightarrow> u8 list option) \<Rightarrow> u64 \<Rightarrow> u64 \<Rightarrow> writebuf_t list \<Rightarrow> (u8 list option \<times> writebuf_t list) option" where
  "buf_merge heap rd b e [] = Some (None, [])"
| "buf_merge heap rd b e (w # ws) =
     (let we = w_offs w + w_size w in
      if b < w_offs w \<and> w_offs w < e \<and> e \<le> we
      then if \<not> heap then Some (None, w # ws)
           else do {
             x \<leftarrow> rd (unat (w_offs w - b));
             Some (Some (x @ w_data w), \<lparr>w_offs = b, w_size = we - b, w_data = x @ w_data w\<rparr> # ws)
           }
      else if w_offs w < b \<and> b < we \<and> we < e
      then if \<not> heap then Some (None, w\<lparr>w_data := []\<rparr> # ws)
           else do {
             x \<leftarrow> rd (unat (e - b));
             let w' = w\<lparr>w_data := w_data w @ drop (unat (we - b)) x, w_size := e - w_offs w\<rparr>;
             Some (Some (buf_tail b w'), w' # ws)
           }
      else do {
        (r, ws') \<leftarrow> buf_merge heap rd b e ws;
        Some (r, w # ws')
      })"

text \<open>
  \<^verbatim>\<open>readblock\<close> from an image file. The driver is called with the version in the place of the inode
  and the inode in the place of the version, as the code does.
\<close>

definition readblock_file :: "fsdrvs \<Rightarrow> u64 \<Rightarrow> fcb_t \<Rightarrow> u64 \<Rightarrow> fsstate \<Rightarrow> (bptr option \<times> fsstate) option" where
  "readblock_file D fd f lsn s =
     (if f_storage f = NOFID then Some (None, seterr ENODEV s)
      else do {
        st \<leftarrow> at (fcbs s) (f_storage f);
        if f_type st \<noteq> FCB_TYPE_DEVICE then Some (None, seterr ENODEV s)
        else do {
          let s = devfs_used (f_inode st) s;
          let bs = (ucast (f_blksize st) :: u64);
          let bs = (if lsn = 0 \<and> bs < BUFSIZ then BUFSIZ else bs);
          if bs \<le>s 0 then Some (None, seterr EINVAL s)
          else do {
            let b = lsn * bs;
            let e = b + bs;
            case find_index (buf_inside b e) (f_buf f) of
              Some i \<Rightarrow> Some (Some (Blk (buf_tail b (f_buf f ! i))), s)
            | None \<Rightarrow>
                if f_filesize f < (lsn + 1) * bs then Some (None, seterr EFAULT s)
                else do {
                  ((blk, n), s) \<leftarrow> (case drv D (f_fs f) dr_read of
                      Some rd \<Rightarrow> rd (f_storage f) (ucast (f_ver f)) (ucast (f_inode f)) (lsn * bs) bs s
                    | None \<Rightarrow> Some ((None, bs), s));
                  if drv D (f_fs f) dr_read \<noteq> None \<and> (ackdelayed s \<or> n = 0) then Some (None, s)
                  else do {
                    let blk = (case blk of Some p \<Rightarrow> p | None \<Rightarrow> Blk (replicate (unat n) 0));
                    (r, ws) \<leftarrow> buf_merge (heap_ok s) (blk_bytes s blk) b e (f_buf f);
                    Some (Some (case r of Some d \<Rightarrow> Blk d | None \<Rightarrow> blk), upd_fcb fd (\<lambda>f. f\<lparr>f_buf := ws\<rparr>) s)
                  }
                }
          }
        }
      })"

definition readblock_device :: "u64 \<Rightarrow> fcb_t \<Rightarrow> u64 \<Rightarrow> fsstate \<Rightarrow> (bptr option \<times> fsstate) option" where
  "readblock_device fd f lsn s =
     (if length (devs s) \<le> unat (f_inode f) then Some (None, seterr ENODEV s)
      else
        let d = devs s ! unat (f_inode f);
            s = devfs_used (f_inode f) s;
            bs = ucast (f_blksize f) :: u64
        in if f_blksize f \<le>s 0 then Some (None, seterr EINVAL s)
           else if d_drivertask d = MEMFS_MAJOR
           then if d_device d = MEMFS_NULL then Some (None, s)
                else if d_device d = MEMFS_ZERO
                then Some (if heap_ok s then Some (Blk (replicate (unat bs) 0)) else None, s)
                else if d_device d = MEMFS_RANDOM
                then if heap_ok s then let (r, s) = getentropy (unat bs) s in Some (Some (Blk r), s)
                     else Some (None, s)
                else if d_device d = MEMFS_RAMDISK
                then if f_filesize f < (lsn + 1) * bs then Some (None, seterr EFAULT s)
                     else Some (Some (Mem (BUF_ADDRESS + lsn * bs)), s)
                else Some (None, seterr ENODEV s)
           else cache_getblock fd lsn s)"

definition readblock :: "fsdrvs \<Rightarrow> u64 \<Rightarrow> u64 \<Rightarrow> fsstate \<Rightarrow> (bptr option \<times> fsstate) option" where
  "readblock D fd lsn s =
     (if length (fcbs s) \<le> unat fd \<or> lsn = NOFID then Some (None, seterr EFAULT s)
      else
        let f = fcbs s ! unat fd in
        if f_mode f AND O_READ = 0 then Some (None, seterr EACCES s)
        else if f_type f = FCB_TYPE_REG_FILE then readblock_file D fd f lsn s
        else if f_type f = FCB_TYPE_DEVICE then readblock_device fd f lsn s
        else Some (None, seterr EPERM s))"

definition writable :: "fsdrvs \<Rightarrow> u16 \<Rightarrow> bool" where
  "writable D fs \<longleftrightarrow> drv D fs dr_write \<noteq> None"

definition writeblock_device :: "u64 \<Rightarrow> fcb_t \<Rightarrow> u64 \<Rightarrow> bptr \<Rightarrow> u8 \<Rightarrow> fsstate \<Rightarrow> (bool \<times> fsstate) option" where
  "writeblock_device fd f lsn blk prio s =
     (if length (devs s) \<le> unat (f_inode f) then Some (False, seterr EPERM s)
      else
        let d = devs s ! unat (f_inode f);
            s = devfs_used (f_inode f) s;
            bs = ucast (f_blksize f) :: u64
        in if d_drivertask d = MEMFS_MAJOR
           then if d_device d = MEMFS_NULL then Some (True, s)
                else if d_device d = MEMFS_RAMDISK
                then if f_filesize f < (lsn + 1) * bs then Some (False, seterr EFAULT s)
                     else if blk = Mem (BUF_ADDRESS + lsn * bs) then Some (True, s)
                     else do {
                       bytes \<leftarrow> blk_bytes s blk (unat bs);
                       Some (True, s\<lparr>fmem := put_bytes (BUF_ADDRESS + lsn * bs) bytes (fmem s)\<rparr>)
                     }
                else Some (False, seterr EACCES s)
           else cache_setblock fd lsn blk prio s)"

definition writeblock :: "fsdrvs \<Rightarrow> u64 \<Rightarrow> u64 \<Rightarrow> bptr \<Rightarrow> u8 \<Rightarrow> fsstate \<Rightarrow> (bool \<times> fsstate) option" where
  "writeblock D fd lsn blk prio s =
     (if length (fcbs s) \<le> unat fd \<or> lsn = NOFID then Some (False, seterr EFAULT s)
      else
        let f = fcbs s ! unat fd in
        if f_mode f AND O_WRITE = 0 then Some (False, seterr EACCES s)
        else if f_type f = FCB_TYPE_REG_FILE
        then if f_storage f = NOFID then Some (False, seterr ENODEV s)
             else do {
               st \<leftarrow> at (fcbs s) (f_storage f);
               if f_type st \<noteq> FCB_TYPE_DEVICE then Some (False, seterr ENODEV s)
               else if fk_dev (fsck s) = f_storage f then Some (False, seterr EBUSY s)
               else if f_mode st AND O_WRITE = 0 \<or> \<not> writable D (f_fs f) then Some (False, seterr EROFS s)
               else do {
                 let s = devfs_used (f_inode st) s;
                 let bs = (ucast (f_blksize st) :: u64);
                 bytes \<leftarrow> blk_bytes s blk (unat bs);
                 fcb_write (writable D) fd (lsn * bs) bytes s
               }
             }
        else if f_type f = FCB_TYPE_DEVICE then writeblock_device fd f lsn blk prio s
        else Some (False, seterr EPERM s))"

text \<open>\<^verbatim>\<open>fsdrv_detect\<close>: the first driver that recognises the superblock.\<close>

fun detect_loop :: "fsdrv_t list \<Rightarrow> u16 \<Rightarrow> u64 \<Rightarrow> bptr \<Rightarrow> fsstate \<Rightarrow> (u16 \<times> fsstate) option" where
  "detect_loop [] i fd blk s = Some (NOFS, s)"
| "detect_loop (d # ds) i fd blk s =
     (case dr_detect d of
        None \<Rightarrow> detect_loop ds (i + 1) fd blk s
      | Some g \<Rightarrow> do {
          (ok, s) \<leftarrow> g fd blk s;
          if ok then Some (i, s) else detect_loop ds (i + 1) fd blk s
        })"

definition fsdrv_detect :: "fsdrvs \<Rightarrow> u64 \<Rightarrow> fsstate \<Rightarrow> (u16 \<times> fsstate) option" where
  "fsdrv_detect D fd s =
     (if fd = DEVFCB then Some (devfsidx s, s)
      else do {
        (blk, s) \<leftarrow> readblock D fd 0 s;
        case blk of None \<Rightarrow> Some (NOFS, s) | Some b \<Rightarrow> detect_loop D 0 fd b s
      })"

text \<open>Answers of a driver's \<^verbatim>\<open>locate\<close>; 0 is success.\<close>

definition NOBLOCK :: u64 where "NOBLOCK = 1"
definition NOTFOUND :: u64 where "NOTFOUND = 2"
definition FSERROR :: u64 where "FSERROR = 3"
definition UPDIR :: u64 where "UPDIR = 4"
definition FILEINPATH :: u64 where "FILEINPATH = 5"
definition SYMINPATH :: u64 where "SYMINPATH = 6"
definition UNIONINPATH :: u64 where "UNIONINPATH = 7"
definition NOSPACE :: u64 where "NOSPACE = 8"

lemmas locate_defs = NOBLOCK_def NOTFOUND_def FSERROR_def UPDIR_def FILEINPATH_def SYMINPATH_def
  UNIONINPATH_def NOSPACE_def

text \<open>
  \<^verbatim>\<open>lookup\<close>. The parts: the test for the joker in a path that is to be created, the longest mount
  point that is a prefix of the path, the names in the block of a union, and the directory of a
  relative link.
\<close>

definition has_joker :: "u8 list \<Rightarrow> bool" where
  "has_joker p \<longleftrightarrow> 4 < length p \<and>
     (\<exists>i < length p - 3. ch p i = 46 \<and> ch p (i + 1) = 46 \<and> ch p (i + 2) = 46)"

fun longest_mount :: "fsstate \<Rightarrow> u8 list \<Rightarrow> mtab_t list \<Rightarrow> nat \<Rightarrow> nat \<Rightarrow> nat \<Rightarrow> (nat \<times> nat) option" where
  "longest_mount s p [] i l k = Some (l, k)"
| "longest_mount s p (m # ms) i l k = do {
     q \<leftarrow> dir_path s (mt_mountpoint m);
     if l < length q \<and> take (length q) p = q then longest_mount s p ms (Suc i) (length q) i
     else longest_mount s p ms (Suc i) l k
   }"

function union_members :: "u8 list \<Rightarrow> nat \<Rightarrow> u8 list list" where
  "union_members b i =
     (if i < 2048 \<and> ch b i \<noteq> 0
      then let c = cstring (drop i b) in c # union_members b (i + length c + 1)
      else [])"
  by pat_completeness auto

termination
  by (relation "measure (\<lambda>(b, i). 2048 - i)") auto

declare union_members.simps [simp del]

definition loc_bytes :: "locate_t \<Rightarrow> fsstate \<Rightarrow> u8 list option" where
  "loc_bytes loc s =
     (case l_fileblk loc of
        None \<Rightarrow> None
      | Some (Blk xs) \<Rightarrow> Some xs
      | Some (Mem a) \<Rightarrow> Some (bytes_at (fmem s) a 4096))"

definition link_dir :: "u8 list \<Rightarrow> u8 list \<Rightarrow> u8 list" where
  "link_dir abspath rest =
     rev (dropWhile (\<lambda>c. c \<noteq> 47) (rev (take (length abspath - length rest - 1) abspath)))"

text \<open>Where the rest of the path is to be found: device, driver, mount index and length of the prefix.\<close>

definition lookup_mount ::
  "u8 list \<Rightarrow> u8 list \<Rightarrow> fsstate \<Rightarrow> (u64 \<times> u16 \<times> nat \<times> nat) option" where
  "lookup_mount raw abspath s = do {
     (l, k) \<leftarrow> longest_mount s abspath (mtab s) 0 0 0;
     m \<leftarrow> (if k < length (mtab s) then Some (mtab s ! k) else None);
     let n = length DEVPATH + 1;
     let j = n + length (takeWhile (\<lambda>c. c \<noteq> 47 \<and> \<not> PATHEND c) (drop n raw));
     if k = ROOTMTAB \<and> abspath = DEVPATH \<and> ch raw j = 47
     then Some (fcb_get (Some abspath) s, NOFS, k, j + 1)
     else Some (mt_storage m, ucast (mt_fstype m), k, l)
   }"

text \<open>A successful \<^verbatim>\<open>locate\<close>: the entry is added to the table and filled.\<close>

definition lookup_found :: "u8 list \<Rightarrow> u64 \<Rightarrow> u64 \<Rightarrow> u16 \<Rightarrow> locate_t \<Rightarrow> fsstate \<Rightarrow> (u64 \<times> fsstate) option" where
  "lookup_found abspath f fd fs loc s = do {
     let p = (if (l_type loc = FCB_TYPE_REG_DIR \<or> l_type loc = FCB_TYPE_UNION) \<and> abspath \<noteq> [] \<and> last abspath \<noteq> 47
              then abspath @ [47] else abspath);
     (f, s) \<leftarrow> (if f = NOFID then fcb_add p (l_type loc) s else Some (f, s));
     d \<leftarrow> at (fcbs s) fd;
     _ \<leftarrow> at (fcbs s) f;
     Some (f, upd_fcb f (\<lambda>e. e\<lparr>f_fs := fs,
       f_mode := (if l_type loc = FCB_TYPE_REG_FILE \<or> l_type loc = FCB_TYPE_REG_DIR \<or> l_type loc = FCB_TYPE_UNION
                  then f_mode d else f_mode e),
       f_storage := fd, f_inode := l_inode loc, f_filesize := l_filesize loc\<rparr>) s)
   }"

text \<open>The members of a union are tried in turn until one of them is found.\<close>

fun lookup_union ::
  "(u8 list \<Rightarrow> fsstate \<Rightarrow> (u64 \<times> fsstate) option) \<Rightarrow> bool \<Rightarrow> u8 list \<Rightarrow> u8 list list \<Rightarrow> u64 \<Rightarrow> fsstate
    \<Rightarrow> (u64 \<times> fsstate) option" where
  "lookup_union look creat rest [] f s = Some (f, s)"
| "lookup_union look creat rest (c # cs) f s =
     (if f \<noteq> NOFID then Some (f, s)
      else if creat then Some (f, seterr EISUNI s)
      else if ch c 0 \<noteq> 47 then Some (f, seterr EBADFS s)
      else do {
        r \<leftarrow> canonize (Some c) s;
        case Option.bind r (\<lambda>t. pathcat (pathmax s) (cstring t) (Some rest)) of
          None \<Rightarrow> Some (f, s)
        | Some p \<Rightarrow> do {
            (f, s) \<leftarrow> look p s;
            lookup_union look creat rest cs f s
          }
      })"

text \<open>The room that is added to the ram disk when it is full.\<close>

definition grow_ramdisk :: "fsdrv_t \<Rightarrow> u64 \<Rightarrow> fsstate \<Rightarrow> fsstate option option" where
  "grow_ramdisk d fd s = do {
     e \<leftarrow> at (fcbs s) fd;
     if f_type e \<noteq> FCB_TYPE_DEVICE then Some None
     else do {
       v \<leftarrow> at (devs s) (f_inode e);
       if d_drivertask v = MEMFS_MAJOR \<and> d_device v = MEMFS_RAMDISK \<and> heap_ok s
       then (case dr_resizefs d of
               None \<Rightarrow> Some None
             | Some g \<Rightarrow> do {
                 (_, s) \<leftarrow> g fd (upd_fcb fd (\<lambda>e. e\<lparr>f_filesize := f_filesize e + 4096\<rparr>) s);
                 Some (Some s)
               })
       else Some None
     }
   }"

text \<open>
  The whole of \<^verbatim>\<open>lookup\<close>. Following links and unions starts over with a new path, and nothing limits
  how often: links that refer to each other never come to an end. The first argument bounds the
  number of restarts and nested calls; \<open>None\<close> is returned when it is used up.
\<close>

fun lookup :: "nat \<Rightarrow> fsdrvs \<Rightarrow> u8 list option \<Rightarrow> bool \<Rightarrow> u64 \<Rightarrow> fsstate \<Rightarrow> (u64 \<times> fsstate) option" where
  "lookup 0 D path creat re s = None"
| "lookup (Suc n) D path creat re s =
     (if path = None \<or> path = Some [] then Some (NOFID, seterr EINVAL s)
      else do {
        r \<leftarrow> canonize path s;
        case r of
          None \<Rightarrow> Some (NOFID, seterr ENOENT s)
        | Some raw \<Rightarrow>
            let abspath = cstring raw; f = fcb_get (Some abspath) s in
            if creat \<and> has_joker abspath then Some (NOFID, seterr ENOENT s)
            else if \<not> (f = NOFID \<or> (f = ROOTFCB \<and> f_inode (fcbs s ! 0) = 0))
            then Some (f, s)
            else do {
              (fd, fs, k, l) \<leftarrow> lookup_mount raw abspath s;
              if length (fcbs s) \<le> unat fd \<or>
                (f_type (fcbs s ! unat fd) \<noteq> FCB_TYPE_DEVICE \<and> f_type (fcbs s ! unat fd) \<noteq> FCB_TYPE_REG_FILE)
              then Some (NOFID, seterr ENODEV s)
              else do {
                (fs, s) \<leftarrow> (if fs = NOFS
                   then do {
                     (fs, s) \<leftarrow> fsdrv_detect D fd s;
                     Some (fs, if k \<noteq> ROOTMTAB \<and> fs \<noteq> NOFS
                       then s\<lparr>mtab := update_at k (\<lambda>m. m\<lparr>mt_fstype := scast fs\<rparr>) (mtab s)\<rparr> else s)
                   }
                   else Some (fs, s));
                if fs = NOFS then Some (NOFID, seterr ENOFS s)
                else do {
                  d \<leftarrow> at D fs;
                  case dr_locate d of
                    None \<Rightarrow> Some (NOFID, seterr ENOFS s)
                  | Some locate \<Rightarrow>
                      if fk_dev (fsck s) = fd then Some (NOFID, seterr EAGAIN s)
                      else do {
                        ((status, loc), s) \<leftarrow> locate fd 0 \<lparr>l_inode = NOFID, l_filesize = 0, l_fileblk = None,
                          l_buf = abspath @ [0], l_off = l, l_type = 0, l_creat = creat\<rparr> s;
                        let abspath = cstring (l_buf loc);
                        if ackdelayed s then Some (NOFID, s)
                        else if status = SYMINPATH
                        then do {
                          b \<leftarrow> loc_bytes loc s;
                          let link = cstring b;
                          tmp \<leftarrow> (if ch link 0 \<noteq> 47
                            then Some (if heap_ok s then pathcat (pathmax s) (link_dir abspath (l_path loc)) (Some link)
                                       else None)
                            else map_option (map_option cstring) (canonize (Some link) s));
                          case Option.bind tmp (\<lambda>t. pathcat (pathmax s) t (Some (l_path loc))) of
                            None \<Rightarrow> Some (f, if f = NOFID \<and> fs_errno s = 0 then seterr ENOENT s else s)
                          | Some p \<Rightarrow> lookup n D (Some p) creat re s
                        }
                        else do {
                          grown \<leftarrow> (if status = NOSPACE \<and> re \<noteq> l_inode loc then grow_ramdisk d fd s else Some None);
                          case grown of
                            Some s \<Rightarrow> lookup n D path creat (l_inode loc) s
                          | None \<Rightarrow> do {
                              (f, s) \<leftarrow>
                                (if status = 0 then lookup_found abspath f fd fs loc s
                                 else if status = NOTFOUND then Some (f, seterr ENOENT s)
                                 else if status = FSERROR then Some (f, seterr EBADFS s)
                                 else if status = UNIONINPATH
                                 then do {
                                   b \<leftarrow> loc_bytes loc s;
                                   lookup_union (\<lambda>p. lookup n D (Some p) creat 0) creat (l_path loc) (union_members b 0) f s
                                 }
                                 else if status = NOSPACE then Some (f, seterr ENOSPC s)
                                 else Some (f, s));
                              Some (f, if f = NOFID \<and> fs_errno s = 0 then seterr ENOENT s else s)
                            }
                        }
                      }
                }
              }
            }
      })"

text \<open>\<^verbatim>\<open>statfs\<close>: the attributes of an entry, completed by the driver of its file system.\<close>

definition statfs :: "fsdrvs \<Rightarrow> u64 \<Rightarrow> fsstate \<Rightarrow> (stat_t option \<times> fsstate) option" where
  "statfs D idx s =
     (if length (fcbs s) \<le> unat idx \<or> f_abspath (fcbs s ! unat idx) = None then Some (None, s)
      else
        let f = fcbs s ! unat idx;
            st = zero_stat\<lparr>st_dev := f_storage f, st_ino := f_inode f, st_nlink := f_nopen f,
              st_mode := (f_mode f AND S_IMODE) OR
                (if f_type f = FCB_TYPE_UNION then S_IFDIR OR S_IFUNI else push_bit 16 (ucast (f_type f))),
              st_size := f_filesize f\<rparr>
        in if f_type f = FCB_TYPE_PIPE \<or> f_type f = FCB_TYPE_SOCKET then Some (Some st, s)
           else if f_type f = FCB_TYPE_DEVICE
           then Some (Some (st\<lparr>st_blksize := f_blksize f,
             st_mode := (if f_blksize f = 1 then st_mode st OR S_IFCHR else st_mode st)\<rparr>), s)
           else do {
             (st, s) \<leftarrow> (case drv D (f_fs f) dr_stat of
                 None \<Rightarrow> Some (st, s)
               | Some g \<Rightarrow> do {
                   ((_, st, _), s) \<leftarrow> g (f_storage f) (f_inode f) st s;
                   Some (st, s)
                 });
             d \<leftarrow> at (fcbs s) (f_storage f);
             Some (Some (st\<lparr>st_blksize := f_blksize d\<rparr>), s)
           })"

text \<open>\<^verbatim>\<open>dofsck\<close>: the steps of a file system check, one driver call for each.\<close>

definition FSCKSTEP_DONE :: u8 where "FSCKSTEP_DONE = 4"

partial_function (option) fsck_steps :: "(u64 \<Rightarrow> bool fsop) \<Rightarrow> u64 \<Rightarrow> fsstate \<Rightarrow> (bool \<times> fsstate) option" where
  "fsck_steps check fd s =
     (if fk_step (fsck s) < FSCKSTEP_DONE
      then Option.bind (check fd s) (\<lambda>(ok, s).
        if \<not> ok \<or> ackdelayed s then Some (False, s)
        else fsck_steps check fd (s\<lparr>fsck := (fsck s)\<lparr>fk_step := fk_step (fsck s) + 1\<rparr>\<rparr>))
      else Some (True, s\<lparr>fsck := (fsck s)\<lparr>fk_dev := NOFID64, fk_step := 0\<rparr>\<rparr>))"

definition dofsck :: "fsdrvs \<Rightarrow> u64 \<Rightarrow> bool \<Rightarrow> fsstate \<Rightarrow> (bool \<times> fsstate) option" where
  "dofsck D fd fix s =
     (if fd = NOFID \<or> fk_dev (fsck s) \<noteq> NOFID \<or> fk_dev (fsck s) \<noteq> fd then Some (False, seterr EPERM s)
      else do {
        f \<leftarrow> at (fcbs s) fd;
        if f_type f \<noteq> FCB_TYPE_DEVICE \<or> f_storage f \<noteq> DEVFCB then Some (False, seterr EPERM s)
        else do {
          s \<leftarrow> (if fk_dev (fsck s) = NOFID
                then do {
                  (fs, s) \<leftarrow> fsdrv_detect D fd (s\<lparr>fsck := (fsck s)\<lparr>fk_dev := fd, fk_fix := fix, fk_step := 0\<rparr>\<rparr>);
                  Some (s\<lparr>fsck := (fsck s)\<lparr>fk_fs := fs\<rparr>\<rparr>)
                }
                else Some s);
          case drv D (fk_fs (fsck s)) dr_checkfs of
            None \<Rightarrow> Some (False, seterr EPERM (s\<lparr>fsck := (fsck s)\<lparr>fk_dev := NOFID, fk_step := 0\<rparr>\<rparr>))
          | Some check \<Rightarrow>
              if fk_fs (fsck s) = NOFS
              then Some (False, seterr EPERM (s\<lparr>fsck := (fsck s)\<lparr>fk_dev := NOFID, fk_step := 0\<rparr>\<rparr>))
              else fsck_steps check fd s
        }
      })"

section \<open>The ram disk\<close>

lemma devfs_used_simps [simp]:
  "fcbs (devfs_used i s) = fcbs s" "fmem (devfs_used i s) = fmem s" "length (devs (devfs_used i s)) = length (devs s)"
  "heap_ok (devfs_used i s) = heap_ok s" "outbox (devfs_used i s) = outbox s"
  by (simp_all add: devfs_used_def Let_def upd_dev_def)

lemma devfs_used_device:
  "k < length (devs s) \<Longrightarrow> d_drivertask (devs (devfs_used i s) ! k) = d_drivertask (devs s ! k) \<and>
     d_device (devs (devfs_used i s) ! k) = d_device (devs s ! k)"
  by (simp add: devfs_used_def Let_def upd_dev_def nth_update_at)

text \<open>An entry of the table that stands for the ram disk and may be read and written.\<close>

definition ramdisk :: "u64 \<Rightarrow> fsstate \<Rightarrow> bool" where
  "ramdisk fd s \<longleftrightarrow> unat fd < length (fcbs s) \<and>
     (let f = fcbs s ! unat fd in
      f_type f = FCB_TYPE_DEVICE \<and> f_mode f AND O_READ \<noteq> 0 \<and> f_mode f AND O_WRITE \<noteq> 0 \<and>
      0 <s f_blksize f \<and> unat (f_inode f) < length (devs s) \<and>
      d_drivertask (devs s ! unat (f_inode f)) = MEMFS_MAJOR \<and>
      d_device (devs s ! unat (f_inode f)) = MEMFS_RAMDISK)"

lemma ramdisk_used: "ramdisk fd s \<Longrightarrow> ramdisk fd (devfs_used i s)"
  by (auto simp: ramdisk_def Let_def devfs_used_device)

lemma ramdisk_fmem: "ramdisk fd (s\<lparr>fmem := m\<rparr>) = ramdisk fd s"
  by (simp add: ramdisk_def)

text \<open>Block addresses do not wrap around when the numbers of the caller stay inside 64 bits.\<close>

lemma block_arith:
  fixes lsn bs :: u64
  assumes "(unat lsn + 1) * unat bs < 2 ^ 64"
  shows "unat ((lsn + 1) * bs) = (unat lsn + 1) * unat bs" and "unat (lsn * bs) = unat lsn * unat bs"
proof -
  have "(lsn + 1) * bs = of_nat ((unat lsn + 1) * unat bs)" "lsn * bs = of_nat (unat lsn * unat bs)"
    by (simp_all add: algebra_simps)
  moreover have "unat lsn * unat bs < 2 ^ 64" using assms by (simp add: algebra_simps)
  ultimately show "unat ((lsn + 1) * bs) = (unat lsn + 1) * unat bs" "unat (lsn * bs) = unat lsn * unat bs"
    using assms by (simp_all only: unat_of_nat_u64)
qed

lemma readblock_ramdisk:
  assumes "ramdisk fd s" and "lsn \<noteq> NOFID" and "f = fcbs s ! unat fd" and "bs = ucast (f_blksize f)"
  shows "readblock D fd lsn s =
    Some (if f_filesize f < (lsn + 1) * bs then (None, seterr EFAULT (devfs_used (f_inode f) s))
          else (Some (Mem (BUF_ADDRESS + lsn * bs)), devfs_used (f_inode f) s))"
proof -
  have "\<not> f_blksize f \<le>s 0" using assms by (simp add: ramdisk_def Let_def word_sle_eq word_sless_alt)
  with assms show ?thesis
    by (simp add: readblock_def readblock_device_def ramdisk_def Let_def fcb_type_defs memfs_defs)
qed

lemma writeblock_ramdisk:
  assumes "ramdisk fd s" and "lsn \<noteq> NOFID" and "f = fcbs s ! unat fd" and "bs = ucast (f_blksize f)"
    and "length xs = unat bs"
  shows "writeblock D fd lsn (Blk xs) prio s =
    Some (if f_filesize f < (lsn + 1) * bs then (False, seterr EFAULT (devfs_used (f_inode f) s))
          else (True, (devfs_used (f_inode f) s)\<lparr>fmem := put_bytes (BUF_ADDRESS + lsn * bs) xs (fmem s)\<rparr>))"
  using assms by (simp add: writeblock_def writeblock_device_def ramdisk_def Let_def fcb_type_defs memfs_defs blk_bytes_def)

lemma disjoint_runs_sym: "disjoint_runs a n b k \<longleftrightarrow> disjoint_runs b k a n"
  by (auto simp: disjoint_runs_def)

lemma blocks_disjoint_less:
  fixes lsn k bs :: u64
  assumes "unat lsn < unat k" and "(unat k + 1) * unat bs < 2 ^ 64" and "0 < unat bs"
  shows "disjoint_runs (a + lsn * bs) (unat bs) (a + k * bs) (unat bs)"
proof -
  define d where "d = (unat k - unat lsn) * unat bs"
  have d: "unat bs \<le> d" "d + unat bs < 2 ^ 64"
  proof -
    have "1 * unat bs \<le> d" unfolding d_def using assms(1) by (intro mult_le_mono1) simp
    then show "unat bs \<le> d" by simp
    have "d + unat bs = (unat k - unat lsn + 1) * unat bs" by (simp add: d_def)
    also have "\<dots> \<le> (unat k + 1) * unat bs" by (intro mult_le_mono1) simp
    finally show "d + unat bs < 2 ^ 64" using assms(2) by simp
  qed
  have diff: "a + k * bs - (a + lsn * bs) = of_nat d"
    using assms(1) by (simp add: d_def of_nat_diff algebra_simps)
  have n: "unat (a + k * bs - (a + lsn * bs)) = d" unfolding diff using d by (intro unat_of_nat_u64) simp
  have "a + k * bs \<noteq> a + lsn * bs" using n d assms(3) by auto
  then have "unat (a + lsn * bs - (a + k * bs)) = 2 ^ 64 - d" using unat_diff_sym [of "a + k * bs" "a + lsn * bs"] n by simp
  with n d show ?thesis by (simp add: disjoint_runs_def)
qed

lemma blocks_disjoint:
  fixes lsn k bs :: u64
  assumes "lsn \<noteq> k" and "(unat lsn + 1) * unat bs < 2 ^ 64" and "(unat k + 1) * unat bs < 2 ^ 64" and "0 < unat bs"
  shows "disjoint_runs (a + lsn * bs) (unat bs) (a + k * bs) (unat bs)"
proof (cases "unat lsn < unat k")
  case True
  with assms show ?thesis by (intro blocks_disjoint_less)
next
  case False
  with assms have "unat k < unat lsn" by (metis linorder_neqE_nat word_unat_eq_iff)
  with assms show ?thesis by (subst disjoint_runs_sym) (intro blocks_disjoint_less)
qed

text \<open>
  Blocks of the ram disk. For a block number whose end does not exceed 64 bits, a read or write is
  granted exactly when the whole block lies on the disk, and refused with \<^verbatim>\<open>EFAULT\<close> without any effect
  on memory otherwise. A granted write changes the bytes of that block only: reading the block gives
  the bytes that were written, and every other block on the disk keeps its contents.
\<close>

lemma ramdisk_blocks:
  assumes rd: "ramdisk fd s" and lsn: "lsn \<noteq> NOFID" and f: "f = fcbs s ! unat fd" and bs: "bs = ucast (f_blksize f)"
    and xs: "length xs = unat bs" and small: "(unat lsn + 1) * unat bs < 2 ^ 64"
  shows "if (unat lsn + 1) * unat bs \<le> unat (f_filesize f)
    then \<exists>s1 s2 a. writeblock D fd lsn (Blk xs) prio s = Some (True, s1) \<and>
      readblock D fd lsn s1 = Some (Some (Mem a), s2) \<and> a = BUF_ADDRESS + lsn * bs \<and>
      bytes_at (fmem s2) a (unat bs) = xs \<and>
      (\<forall>k. k \<noteq> lsn \<and> (unat k + 1) * unat bs \<le> unat (f_filesize f) \<longrightarrow>
        bytes_at (fmem s2) (BUF_ADDRESS + k * bs) (unat bs) = bytes_at (fmem s) (BUF_ADDRESS + k * bs) (unat bs))
    else \<exists>s1 s2. writeblock D fd lsn (Blk xs) prio s = Some (False, s1) \<and> fs_errno s1 = EFAULT \<and> fmem s1 = fmem s \<and>
      readblock D fd lsn s = Some (None, s2) \<and> fs_errno s2 = EFAULT \<and> fmem s2 = fmem s"
proof -
  have test: "f_filesize f < (lsn + 1) * bs \<longleftrightarrow> \<not> (unat lsn + 1) * unat bs \<le> unat (f_filesize f)"
    using block_arith(1) [OF small] by (simp add: word_less_nat_alt not_le)
  note w = writeblock_ramdisk [OF rd lsn f bs xs, of D prio] and r = readblock_ramdisk [OF rd lsn f bs, of D]
  show ?thesis
  proof (cases "(unat lsn + 1) * unat bs \<le> unat (f_filesize f)")
    case False
    with test w r show ?thesis by (simp add: seterr_def)
  next
    case True
    define s1 where "s1 = (devfs_used (f_inode f) s)\<lparr>fmem := put_bytes (BUF_ADDRESS + lsn * bs) xs (fmem s)\<rparr>"
    have rd1: "ramdisk fd s1" "f = fcbs s1 ! unat fd"
      using ramdisk_used [OF rd] by (simp_all add: s1_def ramdisk_fmem f)
    have rs1: "readblock D fd lsn s1 = Some (Some (Mem (BUF_ADDRESS + lsn * bs)), devfs_used (f_inode f) s1)"
      using readblock_ramdisk [OF rd1(1) lsn rd1(2) bs, of D] test True by simp
    have bs0: "0 < unat bs"
      using rd unfolding ramdisk_def bs f by (auto simp: Let_def unat_ucast_u32 word_sless_alt unat_gt_0)
    have same: "bytes_at (fmem s1) (BUF_ADDRESS + lsn * bs) (unat bs) = xs"
      using bytes_at_put_same [of xs "BUF_ADDRESS + lsn * bs" "fmem s"] xs small by (simp add: s1_def)
    have other: "bytes_at (fmem s1) (BUF_ADDRESS + k * bs) (unat bs) = bytes_at (fmem s) (BUF_ADDRESS + k * bs) (unat bs)"
      if "k \<noteq> lsn" "(unat k + 1) * unat bs \<le> unat (f_filesize f)" for k
    proof -
      have "(unat k + 1) * unat bs < 2 ^ 64" using that(2) unat_u64_less [of "f_filesize f"] by simp
      then have "disjoint_runs (BUF_ADDRESS + lsn * bs) (length xs) (BUF_ADDRESS + k * bs) (unat bs)"
        using blocks_disjoint [OF that(1) [symmetric] small _ bs0] xs by simp
      then show ?thesis by (simp add: s1_def bytes_at_put_disjoint)
    qed
    have ws1: "writeblock D fd lsn (Blk xs) prio s = Some (True, s1)" using w test True by (simp add: s1_def)
    show ?thesis using True ws1 rs1 same other by simp
  qed
qed

text \<open>A disk of two blocks of 512 bytes.\<close>

definition sample_disk :: fsstate where
  "sample_disk = fs_start\<lparr>fcbs := [zero_fcb\<lparr>f_type := FCB_TYPE_DEVICE, f_mode := 3, f_blksize := 512, f_filesize := 1024\<rparr>],
     devs := [zero_dev\<lparr>d_device := MEMFS_RAMDISK\<rparr>]\<rparr>"

lemma sample_disk_ok: "ramdisk 0 sample_disk"
  by (simp add: ramdisk_def sample_disk_def fs_start_def zero_dev_def zero_fcb_def Let_def memfs_defs
      word_sless_alt O_READ_def O_WRITE_def)

lemma ramdisk_blocks_witness:
  "\<exists>s1 s2. writeblock [] 0 1 (Blk (replicate 512 7)) 0 sample_disk = Some (True, s1) \<and>
     readblock [] 0 1 s1 = Some (Some (Mem (BUF_ADDRESS + 512)), s2) \<and>
     bytes_at (fmem s2) (BUF_ADDRESS + 512) 512 = replicate 512 7"
  using ramdisk_blocks [OF sample_disk_ok, of 1 _ 512 "replicate 512 7" "[]" 0]
  by (simp add: sample_disk_def zero_fcb_def NOFID_def) blast

text \<open>
  Without the bound on the block number the test is not enough: the end of the block wraps around to
  zero, and the block in front of the disk is handed out.
\<close>

lemma ramdisk_wraps:
  "readblock [] 0 0x7FFFFFFFFFFFFF sample_disk =
     Some (Some (Mem (BUF_ADDRESS - 512)), devfs_used 0 sample_disk)"
  using readblock_ramdisk [OF sample_disk_ok, of "0x7FFFFFFFFFFFFF" _ 512 "[]"]
  by (simp add: sample_disk_def zero_fcb_def NOFID_def)

text \<open>
  A file system check never starts: the test at its beginning asks for a device that is at the same
  time none and the one to be checked.
\<close>

lemma dofsck_refuses: "dofsck D fd fix s = Some (False, seterr EPERM s)"
  by (auto simp: dofsck_def)

end
