(* ===== verification/Fs_Pipe.thy ===== *)
theory Fs_Pipe
  imports Fs_State
begin

text \<open>
  Pipes of the file system service, \<^verbatim>\<open>fs/pipe.c\<close>: a table of byte queues, each with at most one
  reader. A reader that finds the queue empty is suspended, and the next write serves it.
\<close>

section \<open>Operations\<close>

text \<open>
  \<^verbatim>\<open>pipe_add\<close>: the first unused slot, or a new one at the end. The slot is filled, but its reference
  count stays zero until it is opened. The answer is 0xFFFFFFFF when the table cannot grow.
\<close>

definition pipe_fill :: "u64 \<Rightarrow> uuid \<Rightarrow> pipe_t \<Rightarrow> pipe_t" where
  "pipe_fill fid owner p = p\<lparr>pp_fid := fid, pp_reader := 0, pp_size := 0, pp_rd := 0, pp_owner := owner\<rparr>"

definition pipe_add :: "u64 \<Rightarrow> u64 \<Rightarrow> fsstate \<Rightarrow> u64 \<times> fsstate" where
  "pipe_add fid pid s =
     (case find_index (\<lambda>p. pp_nopen p = 0) (pipes s) of
        Some i \<Rightarrow> (of_nat i, upd_pipe (of_nat i) (pipe_fill fid (s_uidof s pid)) s)
      | None \<Rightarrow>
          if \<not> heap_ok s then (NOFID, s)
          else (of_nat (length (pipes s)),
                s\<lparr>pipes := pipes s @ [pipe_fill fid (s_uidof s pid) zero_pipe]\<rparr>))"

text \<open>\<^verbatim>\<open>pipe_del\<close>: the last reference clears the queue and cuts unused slots off the end of the table.\<close>

definition pipe_shrink :: "pipe_t list \<Rightarrow> pipe_t list" where
  "pipe_shrink ps = rev (dropWhile (\<lambda>p. pp_nopen p = 0) (rev ps))"

definition pipe_del :: "u64 \<Rightarrow> fsstate \<Rightarrow> fsstate" where
  "pipe_del idx s =
     (if length (pipes s) \<le> unat idx then s
      else
        let p = pipes s ! unat idx;
            p = (if 0 < pp_nopen p then p\<lparr>pp_nopen := pp_nopen p - 1\<rparr> else p)
        in if pp_nopen p = 0
           then s\<lparr>pipes := pipe_shrink ((pipes s)[unat idx :=
                  p\<lparr>pp_data := None, pp_reader := 0, pp_size := 0, pp_rd := 0\<rparr>])\<rparr>
           else s\<lparr>pipes := (pipes s)[unat idx := p]\<rparr>)"

text \<open>
  \<^verbatim>\<open>pipe_read\<close>. \<^verbatim>\<open>lockid\<close> stores the identifier when the lock is free. Sizes are compared as 64 bit
  numbers. Result: the number of bytes handed to the reader.
\<close>

definition pipe_refresh :: "u64 \<Rightarrow> pipe_t \<Rightarrow> pipe_t" where
  "pipe_refresh now p =
     (let p = (if pp_size p = NOFID then p\<lparr>pp_size := 0\<rparr> else p);
          p = (if pp_size p < pp_rd p then p\<lparr>pp_rd := pp_size p\<rparr> else p);
          p = (if pp_data p \<noteq> None \<and> pp_rd p = pp_size p
               then p\<lparr>pp_size := 0, pp_rd := 0, pp_data := None\<rparr> else p)
      in p\<lparr>pp_rdtime := now\<rparr>)"

definition pipe_read :: "u64 \<Rightarrow> u64 \<Rightarrow> u64 \<Rightarrow> u64 \<Rightarrow> fsstate \<Rightarrow> u64 \<times> fsstate" where
  "pipe_read idx ptr n pid s =
     (if length (pipes s) \<le> unat idx then (0, seterr EPIPE s)
      else
        let s = upd_pipe idx (\<lambda>p. if pp_reader p = 0 then p\<lparr>pp_reader := pid\<rparr> else p) s in
        if pp_reader (pipes s ! unat idx) \<noteq> pid then (0, seterr EACCES s)
        else
          let s = upd_pipe idx (pipe_refresh (s_now s)) s;
              p = pipes s ! unat idx
          in case pp_data p of
               None \<Rightarrow> (0, s\<lparr>ackdelayed := True\<rparr>)
             | Some d \<Rightarrow>
                 if pp_rd p + n < pp_size p
                 then (n, upd_pipe idx (\<lambda>p. p\<lparr>pp_rd := pp_rd p + n, pp_reader := 0\<rparr>)
                            (deliver pid ptr (take (unat n) (drop (unat (pp_rd p)) d)) s))
                 else
                   let n = pp_size p - pp_rd p in
                   (n, upd_pipe idx (\<lambda>p. p\<lparr>pp_size := 0, pp_rd := 0, pp_data := None, pp_reader := 0\<rparr>)
                         (deliver pid ptr (take (unat n) (drop (unat (pp_rd p)) d)) s)))"

text \<open>
  The context of a task in its bucket of the task table; the walk along the chain of contexts
  does not come back when the chain is a cycle.
\<close>

partial_function (option) tc_search :: "(nat \<Rightarrow> taskctx_t option) \<Rightarrow> u64 \<Rightarrow> nat option \<Rightarrow> nat option option" where
  "tc_search T pid c =
     (case c of
        None \<Rightarrow> Some None
      | Some a \<Rightarrow>
          (case T a of
             None \<Rightarrow> None
           | Some t \<Rightarrow> if tc_pid t = pid then Some (Some a) else tc_search T pid (tc_next t)))"

definition upd_tc :: "nat \<Rightarrow> (taskctx_t \<Rightarrow> taskctx_t) \<Rightarrow> fsstate \<Rightarrow> fsstate" where
  "upd_tc a g s = s\<lparr>tctxs := (tctxs s)(a := map_option g (tctxs s a))\<rparr>"

text \<open>The suspended reader of a pipe, if its pending request is still the read.\<close>

definition pipe_waiting :: "u64 \<Rightarrow> fsstate \<Rightarrow> (nat \<times> taskctx_t) option option" where
  "pipe_waiting reader s =
     (if reader = 0 then Some None
      else
        case tc_search (tctxs s) reader (taskctx s (reader AND 0xFF)) of
          None \<Rightarrow> None
        | Some None \<Rightarrow> Some None
        | Some (Some a) \<Rightarrow>
            (case tctxs s a of
               None \<Rightarrow> None
             | Some t \<Rightarrow> Some (if EVT_FUNC (m_evt (tc_msg t)) \<noteq> SYS_fread then None else Some (a, t))))"

definition pipe_ack :: "nat \<Rightarrow> taskctx_t \<Rightarrow> fsstate \<Rightarrow> fsstate" where
  "pipe_ack a t s =
     upd_tc a (\<lambda>t. t\<lparr>tc_msg := (tc_msg t)\<lparr>m_evt := 0\<rparr>\<rparr>)
       (mq_send (tc_pid t) EVT_ack [Num 0, Num 0, Num (fs_errno s), Num 0, Num 0, Num 0, Num (m_serial (tc_msg t))] s)"

definition pipe_append :: "u64 \<Rightarrow> u8 list \<Rightarrow> pipe_t \<Rightarrow> pipe_t" where
  "pipe_append n xs p =
     (let d = (case pp_data p of Some d \<Rightarrow> d | None \<Rightarrow> []);
          k = unat (pp_size p)
      in p\<lparr>pp_data := Some (take k d @ replicate (k - length d) 0 @ xs), pp_size := pp_size p + n\<rparr>)"

text \<open>
  \<^verbatim>\<open>pipe_write\<close>. The bytes are copied straight into the buffer of a suspended reader that asked for
  at least as many, when nothing is queued; otherwise they are queued and the reader is served
  from the queue.
\<close>

definition pipe_write :: "u64 \<Rightarrow> u64 \<Rightarrow> u64 \<Rightarrow> fsstate \<Rightarrow> (bool \<times> fsstate) option" where
  "pipe_write idx ptr n s =
     (if length (pipes s) \<le> unat idx then Some (False, seterr EPIPE s)
      else do {
        let s = upd_pipe idx (\<lambda>p. p\<lparr>pp_wrtime := s_now s\<rparr>) s;
        let p = pipes s ! unat idx;
        let xs = bytes_at (fmem s) ptr (unat n);
        w \<leftarrow> pipe_waiting (pp_reader p) s;
        case w of
          Some (a, t) \<Rightarrow>
            if n \<le> m_arg1 (tc_msg t) \<and> pp_data p = None \<and> pp_size p = 0
            then Some (True, pipe_ack a t (upd_pipe idx (\<lambda>p. p\<lparr>pp_size := NOFID\<rparr>)
                   (deliver (pp_reader p) (m_arg0 (tc_msg t)) xs s)))
            else
              let s = upd_pipe idx (\<lambda>p. if pp_size p = NOFID then p\<lparr>pp_size := 0\<rparr> else p) s in
              if \<not> heap_ok s \<or> pp_size (pipes s ! unat idx) + n = 0
              then Some (False, upd_pipe idx (\<lambda>p. p\<lparr>pp_data := None\<rparr>) s)
              else Some (True, pipe_ack a t (snd (pipe_read idx (m_arg0 (tc_msg t)) (m_arg1 (tc_msg t)) (tc_pid t)
                     (upd_pipe idx (pipe_append n xs) s))))
        | None \<Rightarrow>
            let s = upd_pipe idx (\<lambda>p. if pp_size p = NOFID then p\<lparr>pp_size := 0\<rparr> else p) s in
            if \<not> heap_ok s \<or> pp_size (pipes s ! unat idx) + n = 0
            then Some (False, upd_pipe idx (\<lambda>p. p\<lparr>pp_data := None\<rparr>) s)
            else Some (True, upd_pipe idx (pipe_append n xs) s)
      })"

definition pipe_stat :: "u64 \<Rightarrow> u32 \<Rightarrow> fsstate \<Rightarrow> stat_t option" where
  "pipe_stat idx mode s =
     (if length (pipes s) \<le> unat idx then None
      else
        let p = pipes s ! unat idx in
        Some (zero_stat\<lparr>st_dev := pp_fid p, st_ino := NOFID,
          st_mode := (mode AND S_IMODE) OR S_IFIFO OR (if mode AND OF_MODE_TTY \<noteq> 0 then S_IFTTY else 0)
            OR (if mode AND O_WRITE \<noteq> 0 then O_APPEND else 0),
          st_type := chars ''appl'', st_mime := chars ''pipe'' @ replicate 40 0,
          st_nlink := pp_nopen p, st_owner := pp_owner p, st_blksize := 1, st_blocks := pp_size p,
          st_atime := pp_rdtime p, st_mtime := pp_wrtime p, st_ctime := max (pp_rdtime p) (pp_wrtime p)\<rparr>))"

section \<open>A pipe is a queue of bytes\<close>

text \<open>What is queued, what a pipe looks like between operations, and what readers have received.\<close>

definition pipe_content :: "pipe_t \<Rightarrow> u8 list" where
  "pipe_content p = (case pp_data p of None \<Rightarrow> [] | Some d \<Rightarrow> drop (unat (pp_rd p)) d)"

definition pipe_ok :: "nat \<Rightarrow> pipe_t \<Rightarrow> bool" where
  "pipe_ok room p \<longleftrightarrow>
     (case pp_data p of
        None \<Rightarrow> pp_rd p = 0 \<and> (pp_size p = 0 \<or> pp_size p = NOFID) \<and> room < 2 ^ 32 - 1
      | Some d \<Rightarrow> length d = unat (pp_size p) \<and> pp_rd p \<le> pp_size p \<and> length d + room < 2 ^ 32 - 1)"

definition out_bytes :: "fsout \<Rightarrow> u8 list" where
  "out_bytes e = (case e of Tskcpy pid dst xs \<Rightarrow> xs | _ \<Rightarrow> [])"

definition delivered :: "fsstate \<Rightarrow> u8 list" where
  "delivered s = concat (map out_bytes (outbox s))"

text \<open>A request buffer in the address space of the reader, small enough for a message.\<close>

definition plain_buffer :: "u64 \<Rightarrow> u64 \<Rightarrow> bool" where
  "plain_buffer ptr n \<longleftrightarrow> \<not> ptr <s 0 \<and> n < 2 ^ 63"

definition contexts_ok :: "fsstate \<Rightarrow> bool" where
  "contexts_ok s \<longleftrightarrow> (\<forall>pid. tc_search (tctxs s) pid (taskctx s (pid AND 0xFF)) \<noteq> None) \<and>
     (\<forall>a t. tctxs s a = Some t \<longrightarrow> plain_buffer (m_arg0 (tc_msg t)) (m_arg1 (tc_msg t)))"

definition pipe_ready :: "u64 \<Rightarrow> nat \<Rightarrow> fsstate \<Rightarrow> bool" where
  "pipe_ready idx room s \<longleftrightarrow> unat idx < length (pipes s) \<and> pipe_ok room (pipes s ! unat idx) \<and>
     heap_ok s \<and> contexts_ok s"

text \<open>Requests on a pipe; a suspended request is stored in the context of its task.\<close>

datatype pipe_op = PWrite u64 u64 | PRead u64 u64 u64 | PWait nat msg_t

fun pipe_op_run :: "u64 \<Rightarrow> pipe_op \<Rightarrow> fsstate \<Rightarrow> fsstate option" where
  "pipe_op_run idx (PWrite ptr n) s = map_option snd (pipe_write idx ptr n s)"
| "pipe_op_run idx (PRead ptr n pid) s = Some (snd (pipe_read idx ptr n pid s))"
| "pipe_op_run idx (PWait a m) s = Some (upd_tc a (\<lambda>t. t\<lparr>tc_msg := m\<rparr>) s)"

fun pipe_run :: "u64 \<Rightarrow> pipe_op list \<Rightarrow> fsstate \<Rightarrow> fsstate option" where
  "pipe_run idx [] s = Some s"
| "pipe_run idx (r # rs) s = Option.bind (pipe_op_run idx r s) (pipe_run idx rs)"

fun op_ok :: "pipe_op \<Rightarrow> bool" where
  "op_ok (PWrite ptr n) = (n \<noteq> 0)"
| "op_ok (PRead ptr n pid) = plain_buffer ptr n"
| "op_ok (PWait a m) = plain_buffer (m_arg0 m) (m_arg1 m)"

fun op_size :: "pipe_op \<Rightarrow> nat" where
  "op_size (PWrite ptr n) = unat n"
| "op_size _ = 0"

fun op_bytes :: "mem \<Rightarrow> pipe_op \<Rightarrow> u8 list" where
  "op_bytes m (PWrite ptr n) = bytes_at m ptr (unat n)"
| "op_bytes m _ = []"

lemma upd_pipe_simps [simp]:
  "length (pipes (upd_pipe i g s)) = length (pipes s)" "heap_ok (upd_pipe i g s) = heap_ok s"
  "outbox (upd_pipe i g s) = outbox s" "fmem (upd_pipe i g s) = fmem s" "tctxs (upd_pipe i g s) = tctxs s"
  "taskctx (upd_pipe i g s) = taskctx s" "s_now (upd_pipe i g s) = s_now s"
  "fs_errno (upd_pipe i g s) = fs_errno s"
  "unat i < length (pipes s) \<Longrightarrow> pipes (upd_pipe i g s) ! unat i = g (pipes s ! unat i)"
  by (simp_all add: upd_pipe_def)

lemma deliver_simps [simp]:
  "pipes (deliver pid dst xs s) = pipes s" "heap_ok (deliver pid dst xs s) = heap_ok s"
  "tctxs (deliver pid dst xs s) = tctxs s" "taskctx (deliver pid dst xs s) = taskctx s"
  "fs_errno (deliver pid dst xs s) = fs_errno s"
  by (simp_all add: deliver_def tskcpy_def)

lemma upd_tc_simps [simp]:
  "pipes (upd_tc a g s) = pipes s" "heap_ok (upd_tc a g s) = heap_ok s" "outbox (upd_tc a g s) = outbox s"
  "fmem (upd_tc a g s) = fmem s" "taskctx (upd_tc a g s) = taskctx s"
  by (simp_all add: upd_tc_def)

lemma deliver_plain:
  assumes "plain_buffer dst n"
  shows "delivered (deliver pid dst xs s) = delivered s @ xs" and "fmem (deliver pid dst xs s) = fmem s"
  using assms by (simp_all add: deliver_def plain_buffer_def tskcpy_def delivered_def out_bytes_def)

lemma tc_search_mono:
  assumes T: "\<And>a t. T a = Some t \<Longrightarrow> \<exists>t'. T' a = Some t' \<and> tc_pid t' = tc_pid t \<and> tc_next t' = tc_next t"
    and "tc_search T pid c = Some r"
  shows "tc_search T' pid c = Some r"
proof -
  have "T = T \<longrightarrow> tc_search T' pid c = Some r"
  proof (rule tc_search.raw_induct [rotated, where P = "\<lambda>T0 pid c r. T0 = T \<longrightarrow> tc_search T' pid c = Some r"])
    show "tc_search T pid c = Some r" by fact
    fix f T0 pid c r
    assume IH: "\<And>T0 pid c r. f T0 pid c = Some r \<Longrightarrow> T0 = T \<longrightarrow> tc_search T' pid c = Some r"
      and eq: "(case c of None \<Rightarrow> Some None | Some a \<Rightarrow> (case T0 a of None \<Rightarrow> None
        | Some t \<Rightarrow> if tc_pid t = pid then Some (Some a) else f T0 pid (tc_next t))) = Some r"
    show "T0 = T \<longrightarrow> tc_search T' pid c = Some r"
    proof
      assume "T0 = T"
      with IH eq show "tc_search T' pid c = Some r"
        by (subst tc_search.simps) (auto split: option.splits if_splits dest: T)
    qed
  qed
  then show ?thesis by simp
qed

lemma contexts_ok_upd_tc:
  assumes "contexts_ok s" and g: "\<And>t. tc_pid (g t) = tc_pid t" "\<And>t. tc_next (g t) = tc_next t"
    and m: "\<And>t. plain_buffer (m_arg0 (tc_msg t)) (m_arg1 (tc_msg t)) \<Longrightarrow>
      plain_buffer (m_arg0 (tc_msg (g t))) (m_arg1 (tc_msg (g t)))"
  shows "contexts_ok (upd_tc a g s)"
proof -
  have "tc_search ((tctxs s)(a := map_option g (tctxs s a))) pid c \<noteq> None" if n: "tc_search (tctxs s) pid c \<noteq> None" for pid c
  proof -
    obtain r where "tc_search (tctxs s) pid c = Some r" using n by blast
    then have "tc_search ((tctxs s)(a := map_option g (tctxs s a))) pid c = Some r"
      by (rule tc_search_mono [rotated]) (use g in auto)
    then show ?thesis by simp
  qed
  then show ?thesis using assms by (auto simp: contexts_ok_def upd_tc_def)
qed

lemma pipe_waiting_ok:
  assumes "contexts_ok s"
  obtains "pipe_waiting r s = Some None"
  | a t where "pipe_waiting r s = Some (Some (a, t))" "tctxs s a = Some t"
      "plain_buffer (m_arg0 (tc_msg t)) (m_arg1 (tc_msg t))"
proof -
  have found: "tctxs s a \<noteq> None" if "tc_search (tctxs s) pid c = Some (Some a)" for pid c a
  proof -
    have "tctxs s = tctxs s \<longrightarrow> Some a = None \<or> tctxs s (the (Some a)) \<noteq> None"
      by (rule tc_search.raw_induct [rotated, where P = "\<lambda>T0 pid c r. T0 = tctxs s \<longrightarrow> r = None \<or> tctxs s (the r) \<noteq> None"])
        (use that in \<open>auto split: option.splits if_splits\<close>)
    then show ?thesis by simp
  qed
  show ?thesis
  proof (cases "r = 0")
    case True
    then show ?thesis using that(1) by (simp add: pipe_waiting_def)
  next
    case False
    obtain q where q: "tc_search (tctxs s) r (taskctx s (r AND 0xFF)) = Some q"
      using assms unfolding contexts_ok_def by blast
    show ?thesis
    proof (cases q)
      case None
      with q False show ?thesis by (intro that(1)) (simp add: pipe_waiting_def)
    next
      case (Some a)
      with q found obtain t where t: "tctxs s a = Some t" by blast
      with assms have "plain_buffer (m_arg0 (tc_msg t)) (m_arg1 (tc_msg t))" by (simp add: contexts_ok_def)
      with q Some t False that show ?thesis
        by (cases "EVT_FUNC (m_evt (tc_msg t)) = SYS_fread") (simp_all add: pipe_waiting_def)
    qed
  qed
qed

lemma NOFID_unat [simp]: "unat NOFID = 2 ^ 32 - 1"
  by (simp add: NOFID_def)

lemma pipe_refresh_ok:
  assumes "pipe_ok room p"
  shows "pipe_ok room (pipe_refresh now p)" and "pipe_content (pipe_refresh now p) = pipe_content p"
    and "pp_data (pipe_refresh now p) = Some d \<Longrightarrow> pp_rd (pipe_refresh now p) < pp_size (pipe_refresh now p)"
    and "pp_data p = None \<Longrightarrow> pp_data (pipe_refresh now p) = None"
proof -
  have size: "pp_size p \<noteq> NOFID" if "pp_data p = Some d" for d
    using assms that by (auto simp: pipe_ok_def)
  show "pipe_ok room (pipe_refresh now p)" "pipe_content (pipe_refresh now p) = pipe_content p"
    using assms size by (auto simp: pipe_refresh_def Let_def pipe_ok_def pipe_content_def split: option.splits)
  show "pp_rd (pipe_refresh now p) < pp_size (pipe_refresh now p)" if "pp_data (pipe_refresh now p) = Some d"
    using assms size that by (auto simp: pipe_refresh_def Let_def pipe_ok_def split: if_splits)
  show "pp_data p = None \<Longrightarrow> pp_data (pipe_refresh now p) = None" by (simp add: pipe_refresh_def Let_def)
qed

lemma pipe_ready_cong:
  assumes "pipe_ready idx room s" and "tctxs t = tctxs s" "taskctx t = taskctx s" "heap_ok t = heap_ok s"
    and "length (pipes t) = length (pipes s)" and "pipe_ok k (pipes t ! unat idx)"
  shows "pipe_ready idx k t"
  using assms by (simp add: pipe_ready_def contexts_ok_def)

lemma pipe_read_step:
  assumes rdy: "pipe_ready idx room s" and buf: "plain_buffer ptr n" and s': "s' = snd (pipe_read idx ptr n pid s)"
  shows "pipe_ready idx room s' \<and> fmem s' = fmem s \<and>
    delivered s' @ pipe_content (pipes s' ! unat idx) = delivered s @ pipe_content (pipes s ! unat idx)"
proof -
  have i: "unat idx < length (pipes s)" using rdy by (simp add: pipe_ready_def)
  define lock :: "pipe_t \<Rightarrow> pipe_t" where "lock = (\<lambda>p. if pp_reader p = 0 then p\<lparr>pp_reader := pid\<rparr> else p)"
  let ?p0 = "lock (pipes s ! unat idx)"
  define p where "p = pipe_refresh (s_now s) ?p0"
  define t where "t = upd_pipe idx (pipe_refresh (s_now s)) (upd_pipe idx lock s)"
  have p0: "pipe_ok room ?p0" "pipe_content ?p0 = pipe_content (pipes s ! unat idx)"
    using rdy by (auto simp: pipe_ready_def pipe_ok_def pipe_content_def lock_def split: option.splits)
  note p = pipe_refresh_ok [OF p0(1), of "s_now s", folded p_def]
  have t: "pipes t ! unat idx = p" "length (pipes t) = length (pipes s)" "delivered t = delivered s" "fmem t = fmem s"
    "tctxs t = tctxs s" "taskctx t = taskctx s" "heap_ok t = heap_ok s"
    using i by (simp_all add: t_def p_def delivered_def)
  have read: "pipe_read idx ptr n pid s =
    (if pp_reader ?p0 \<noteq> pid then (0, seterr EACCES (upd_pipe idx lock s))
     else case pp_data p of
        None \<Rightarrow> (0, t\<lparr>ackdelayed := True\<rparr>)
      | Some d \<Rightarrow>
          if pp_rd p + n < pp_size p
          then (n, upd_pipe idx (\<lambda>p. p\<lparr>pp_rd := pp_rd p + n, pp_reader := 0\<rparr>)
                     (deliver pid ptr (take (unat n) (drop (unat (pp_rd p)) d)) t))
          else (pp_size p - pp_rd p, upd_pipe idx (\<lambda>p. p\<lparr>pp_size := 0, pp_rd := 0, pp_data := None, pp_reader := 0\<rparr>)
                  (deliver pid ptr (take (unat (pp_size p - pp_rd p)) (drop (unat (pp_rd p)) d)) t)))"
    unfolding pipe_read_def Let_def lock_def [symmetric] upd_pipe_simps(7) t_def [symmetric] t(1)
    using i by simp
  show ?thesis
  proof (cases "pp_reader ?p0 = pid")
    case False
    then have "s' = seterr EACCES (upd_pipe idx lock s)" by (simp add: s' read)
    with p0 i show ?thesis by (auto intro!: pipe_ready_cong [OF rdy] simp: seterr_def delivered_def)
  next
    case reader: True
    show ?thesis
    proof (cases "pp_data p")
      case None
      then have "s' = t\<lparr>ackdelayed := True\<rparr>" using reader by (simp add: s' read)
      with t p(1,2) p0(2) show ?thesis
        by (auto intro!: pipe_ready_cong [OF rdy] simp: delivered_def)
    next
      case (Some d)
      have d: "length d = unat (pp_size p)" "pp_rd p < pp_size p" "length d + room < 2 ^ 32 - 1"
        using p(1) p(3) [OF Some] Some by (simp_all add: pipe_ok_def)
      have n: "unat (pp_rd p + n) = unat (pp_rd p) + unat n"
        using buf d by (intro unat_add_lem [THEN iffD1]) (simp add: plain_buffer_def word_less_nat_alt)
      have c: "pipe_content (pipes s ! unat idx) = drop (unat (pp_rd p)) d"
        using p(2) p0(2) Some by (simp add: pipe_content_def)
      show ?thesis
      proof (cases "pp_rd p + n < pp_size p")
        case True
        then have s'_eq: "s' = upd_pipe idx (\<lambda>p. p\<lparr>pp_rd := pp_rd p + n, pp_reader := 0\<rparr>)
            (deliver pid ptr (take (unat n) (drop (unat (pp_rd p)) d)) t)"
          using reader Some by (simp add: s' read)
        have "pipe_ready idx room s'"
          using i t d True Some by (intro pipe_ready_cong [OF rdy]) (simp_all add: s'_eq pipe_ok_def)
        moreover have "drop (unat (pp_rd p + n)) d = drop (unat n) (drop (unat (pp_rd p)) d)"
          unfolding n drop_drop by (simp only: add.commute)
        then have "pipe_content (pipes s' ! unat idx) = drop (unat n) (pipe_content (pipes s ! unat idx))"
          using i t Some c by (simp add: s'_eq pipe_content_def)
        moreover have "delivered s' = delivered s @ take (unat n) (pipe_content (pipes s ! unat idx))"
          using deliver_plain(1) [OF buf, of pid _ t] t(3) c by (simp add: s'_eq delivered_def)
        ultimately show ?thesis
          using t(4) deliver_plain(2) [OF buf, of pid _ t] by (simp add: s'_eq)
      next
        case False
        have k: "unat (pp_size p - pp_rd p) = length (drop (unat (pp_rd p)) d)"
          using d by (simp add: unat_sub_le order.strict_implies_order word_le_nat_alt word_less_nat_alt)
        from False have s'_eq: "s' = upd_pipe idx (\<lambda>p. p\<lparr>pp_size := 0, pp_rd := 0, pp_data := None, pp_reader := 0\<rparr>)
            (deliver pid ptr (drop (unat (pp_rd p)) d) t)"
          using reader Some by (simp add: s' read k)
        have "pipe_ready idx room s'"
          using i t d by (intro pipe_ready_cong [OF rdy]) (simp_all add: s'_eq pipe_ok_def)
        then show ?thesis
          using i t c deliver_plain [OF buf, of pid _ t]
          by (simp add: s'_eq pipe_content_def delivered_def)
      qed
    qed
  qed
qed

lemma pipe_append_ok:
  assumes ok: "pipe_ok (unat n + room) p" and size: "pp_size p \<noteq> NOFID" and xs: "length xs = unat n"
  shows "pipe_ok room (pipe_append n xs p)" and "pipe_content (pipe_append n xs p) = pipe_content p @ xs"
proof -
  have add: "unat (pp_size p + n) = unat (pp_size p) + unat n"
    if "unat (pp_size p) + unat n < 2 ^ 32" using that by (intro unat_add_lem [THEN iffD1]) simp
  show "pipe_ok room (pipe_append n xs p)"
    using ok size xs add by (auto simp: pipe_ok_def pipe_append_def Let_def word_le_nat_alt split: option.splits)
  show "pipe_content (pipe_append n xs p) = pipe_content p @ xs"
    using ok size xs add
    by (auto simp: pipe_ok_def pipe_append_def Let_def pipe_content_def word_le_nat_alt split: option.splits)
qed

lemma pipe_ack_simps [simp]:
  "pipes (pipe_ack a t s) = pipes s" "heap_ok (pipe_ack a t s) = heap_ok s" "fmem (pipe_ack a t s) = fmem s"
  "delivered (pipe_ack a t s) = delivered s"
  by (simp_all add: pipe_ack_def mq_send_def delivered_def out_bytes_def)

lemma pipe_ready_ack: "pipe_ready idx room s \<Longrightarrow> pipe_ready idx room (pipe_ack a t s)"
proof -
  assume rdy: "pipe_ready idx room s"
  then have "contexts_ok (pipe_ack a t s)"
    unfolding pipe_ack_def by (intro contexts_ok_upd_tc) (simp_all add: pipe_ready_def contexts_ok_def mq_send_def)
  with rdy show ?thesis by (simp add: pipe_ready_def)
qed

lemma pipe_ok_less: "pipe_ok (n + room) p \<Longrightarrow> pipe_ok room p"
  by (auto simp: pipe_ok_def split: option.splits)

lemma pipe_write_step:
  assumes rdy: "pipe_ready idx (unat n + room) s" and n: "n \<noteq> 0"
  shows "\<exists>b s'. pipe_write idx ptr n s = Some (b, s') \<and> pipe_ready idx room s' \<and> fmem s' = fmem s \<and>
    delivered s' @ pipe_content (pipes s' ! unat idx) =
      delivered s @ pipe_content (pipes s ! unat idx) @ bytes_at (fmem s) ptr (unat n)"
proof -
  have i: "unat idx < length (pipes s)" "\<not> length (pipes s) \<le> unat idx" using rdy by (auto simp: pipe_ready_def)
  define s1 where "s1 = upd_pipe idx (\<lambda>p. p\<lparr>pp_wrtime := s_now s\<rparr>) s"
  define p where "p = pipes s1 ! unat idx"
  define xs where "xs = bytes_at (fmem s) ptr (unat n)"
  have xs: "length xs = unat n" by (simp add: xs_def)
  have p: "pipe_ok (unat n + room) p" "pipe_content p = pipe_content (pipes s ! unat idx)"
    using rdy i by (auto simp: p_def s1_def pipe_ready_def pipe_ok_def pipe_content_def split: option.splits)
  have s1: "fmem s1 = fmem s" "delivered s1 = delivered s" "heap_ok s1" "length (pipes s1) = length (pipes s)"
    "pipe_ready idx (unat n + room) s1" "unat idx < length (pipes s1)" "pipes s1 ! unat idx = p"
    using rdy i p by (auto simp: s1_def delivered_def p_def pipe_ready_def contexts_ok_def)
  define s2 where "s2 = upd_pipe idx (\<lambda>p. if pp_size p = NOFID then p\<lparr>pp_size := 0\<rparr> else p) s1"
  define q where "q = (if pp_size p = NOFID then p\<lparr>pp_size := 0\<rparr> else p)"
  have q: "pipe_ok (unat n + room) q" "pp_size q \<noteq> NOFID" "pipe_content q = pipe_content p"
    using p(1) by (auto simp: q_def pipe_ok_def pipe_content_def NOFID_def split: option.splits)
  have s2: "pipes s2 ! unat idx = q" "heap_ok s2" "fmem s2 = fmem s" "delivered s2 = delivered s"
    using s1 by (simp_all add: s2_def q_def delivered_def)
  have "unat (pp_size q) + unat n < 2 ^ 64" using q(1,2) by (auto simp: pipe_ok_def split: option.splits)
  then have "unat (pp_size q + n) = unat (pp_size q) + unat n" by (intro unat_add_lem [THEN iffD1]) simp
  then have nz: "pp_size q + n \<noteq> 0" using n by (metis add_is_0 unat_0 unat_eq_zero)
  have g: "(\<not> heap_ok s2 \<or> pp_size q + n = 0) = False" using s2(2) nz by simp
  define s3 where "s3 = upd_pipe idx (pipe_append n xs) s2"
  note app = pipe_append_ok [OF q(1,2) xs]
  have s3: "pipe_ready idx room s3" "pipe_content (pipes s3 ! unat idx) = pipe_content (pipes s ! unat idx) @ xs"
    "fmem s3 = fmem s" "delivered s3 = delivered s"
  proof -
    have "pipes s3 ! unat idx = pipe_append n xs q" using s1(6) s2(1) by (simp add: s3_def s2_def)
    then show "pipe_ready idx room s3" "pipe_content (pipes s3 ! unat idx) = pipe_content (pipes s ! unat idx) @ xs"
      using app q(3) p(2) by (auto intro!: pipe_ready_cong [OF s1(5)] simp: s3_def s2_def)
    show "fmem s3 = fmem s" "delivered s3 = delivered s" using s2 by (simp_all add: s3_def delivered_def)
  qed
  have wr: "pipe_write idx ptr n s = do {
      w \<leftarrow> pipe_waiting (pp_reader p) s1;
      case w of
        Some (a, t) \<Rightarrow>
          if n \<le> m_arg1 (tc_msg t) \<and> pp_data p = None \<and> pp_size p = 0
          then Some (True, pipe_ack a t (upd_pipe idx (\<lambda>p. p\<lparr>pp_size := NOFID\<rparr>)
                 (deliver (pp_reader p) (m_arg0 (tc_msg t)) xs s1)))
          else Some (True, pipe_ack a t (snd (pipe_read idx (m_arg0 (tc_msg t)) (m_arg1 (tc_msg t)) (tc_pid t) s3)))
      | None \<Rightarrow> Some (True, s3)
    }"
    unfolding pipe_write_def Let_def s1_def [symmetric] p_def [symmetric] s2_def [symmetric] s2(1) s1(1)
      xs_def [symmetric] s3_def [symmetric] g if_False
    using i by simp
  show ?thesis
  proof (rule pipe_waiting_ok [of s1 "pp_reader p"])
    show "contexts_ok s1" using s1(5) by (simp add: pipe_ready_def)
  next
    assume "pipe_waiting (pp_reader p) s1 = Some None"
    with s3 show ?thesis by (auto simp: wr xs_def)
  next
    fix a t
    assume w: "pipe_waiting (pp_reader p) s1 = Some (Some (a, t))"
      and buf: "plain_buffer (m_arg0 (tc_msg t)) (m_arg1 (tc_msg t))"
    show ?thesis
    proof (cases "n \<le> m_arg1 (tc_msg t) \<and> pp_data p = None \<and> pp_size p = 0")
      case True
      let ?s' = "upd_pipe idx (\<lambda>p. p\<lparr>pp_size := NOFID\<rparr>) (deliver (pp_reader p) (m_arg0 (tc_msg t)) xs s1)"
      have "pipe_ready idx room ?s'"
        using True s1 pipe_ok_less [OF p(1)] by (intro pipe_ready_cong [OF s1(5)]) (simp_all add: pipe_ok_def)
      moreover have "delivered ?s' = delivered s @ xs"
        using deliver_plain(1) [OF buf, of "pp_reader p" xs s1] s1(2) by (simp add: delivered_def)
      moreover have "pipe_content (pipes ?s' ! unat idx) = []" "pipe_content (pipes s ! unat idx) = []"
        using True s1 p(2) by (simp_all add: pipe_content_def)
      ultimately show ?thesis
        using True w deliver_plain(2) [OF buf] s1(1) by (auto simp: wr pipe_ready_ack xs_def [symmetric])
    next
      case False
      let ?r = "snd (pipe_read idx (m_arg0 (tc_msg t)) (m_arg1 (tc_msg t)) (tc_pid t) s3)"
      have "pipe_ready idx room ?r \<and> fmem ?r = fmem s3 \<and>
        delivered ?r @ pipe_content (pipes ?r ! unat idx) = delivered s3 @ pipe_content (pipes s3 ! unat idx)"
        by (rule pipe_read_step [OF s3(1) buf refl])
      with False w s3 show ?thesis by (auto simp: wr pipe_ready_ack xs_def [symmetric])
    qed
  qed
qed

lemma pipe_run_step:
  assumes "pipe_ready idx (sum_list (map op_size rs)) s" and "\<forall>r \<in> set rs. op_ok r"
  shows "\<exists>s'. pipe_run idx rs s = Some s' \<and> pipe_ready idx 0 s' \<and>
    delivered s' @ pipe_content (pipes s' ! unat idx) =
      delivered s @ pipe_content (pipes s ! unat idx) @ concat (map (op_bytes (fmem s)) rs)"
  using assms
proof (induction rs arbitrary: s)
  case (Cons r rs)
  let ?k = "sum_list (map op_size rs)"
  have "\<exists>s1. pipe_op_run idx r s = Some s1 \<and> pipe_ready idx ?k s1 \<and> fmem s1 = fmem s \<and>
    delivered s1 @ pipe_content (pipes s1 ! unat idx) =
      delivered s @ pipe_content (pipes s ! unat idx) @ op_bytes (fmem s) r"
  proof (cases r)
    case (PWrite ptr n)
    with Cons.prems show ?thesis using pipe_write_step [of idx n ?k s ptr] by auto
  next
    case (PRead ptr n pid)
    with Cons.prems show ?thesis using pipe_read_step [of idx ?k s ptr n _ pid] by simp
  next
    case (PWait a m)
    let ?s = "upd_tc a (\<lambda>t. t\<lparr>tc_msg := m\<rparr>) s"
    have "contexts_ok ?s" using Cons.prems PWait by (intro contexts_ok_upd_tc) (auto simp: pipe_ready_def)
    with Cons.prems PWait show ?thesis by (simp add: pipe_ready_def delivered_def)
  qed
  then obtain s1 where s1: "pipe_op_run idx r s = Some s1" "pipe_ready idx ?k s1" "fmem s1 = fmem s"
    "delivered s1 @ pipe_content (pipes s1 ! unat idx) =
      delivered s @ pipe_content (pipes s ! unat idx) @ op_bytes (fmem s) r" by blast
  obtain s' where "pipe_run idx rs s1 = Some s'" "pipe_ready idx 0 s'"
    "delivered s' @ pipe_content (pipes s' ! unat idx) =
      (delivered s1 @ pipe_content (pipes s1 ! unat idx)) @ concat (map (op_bytes (fmem s1)) rs)"
    using Cons.IH [OF s1(2)] Cons.prems(2) by auto
  with s1 show ?case by simp
qed auto

text \<open>
  C37. A pipe is a first-in first-out queue of bytes. For every sequence of writes, reads by any
  tasks and suspensions of readers, the requests all return, and the bytes handed to readers
  followed by what is still queued are exactly the bytes that were queued before followed by
  those written, in the order of the writes. This covers bytes that are copied directly into
  the buffer of a suspended reader as well as those that pass through the queue.
\<close>

theorem pipe_fifo:
  assumes "pipe_ready idx (sum_list (map op_size rs)) s" and "\<forall>r \<in> set rs. op_ok r"
  shows "\<exists>s'. pipe_run idx rs s = Some s' \<and>
    delivered s' @ pipe_content (pipes s' ! unat idx) =
      delivered s @ pipe_content (pipes s ! unat idx) @ concat (map (op_bytes (fmem s)) rs)"
  using pipe_run_step [OF assms] by blast

text \<open>A pipe with one task that is suspended and then served by a write.\<close>

definition sample_pipe :: fsstate where
  "sample_pipe = fs_start\<lparr>pipes := [zero_pipe\<lparr>pp_nopen := 2\<rparr>],
     tctxs := (\<lambda>a. if a = 0 then Some (zero_tc\<lparr>tc_pid := 9\<rparr>) else None),
     taskctx := (\<lambda>b. if b = 9 then Some 0 else None)\<rparr>"

lemma sample_pipe_ready: "k < 100 \<Longrightarrow> pipe_ready 0 k sample_pipe"
  by (auto simp: sample_pipe_def pipe_ready_def pipe_ok_def zero_pipe_def fs_start_def contexts_ok_def
      zero_tc_def zero_msg_def plain_buffer_def tc_search.simps)

theorem pipe_fifo_witness:
  "\<exists>s'. pipe_run 0 [PRead 4096 8 9, PWait 0 (zero_msg\<lparr>m_evt := SYS_fread, m_arg0 := 4096, m_arg1 := 8\<rparr>), PWrite 512 3,
      PWrite 600 5, PRead 8192 2 9] sample_pipe = Some s' \<and>
     delivered s' @ pipe_content (pipes s' ! 0) = replicate 8 0"
proof -
  let ?rs = "[PRead 4096 8 9, PWait 0 (zero_msg\<lparr>m_evt := SYS_fread, m_arg0 := 4096, m_arg1 := 8\<rparr>), PWrite 512 3,
      PWrite 600 5, PRead 8192 2 9]"
  have b: "bytes_at (fmem sample_pipe) a n = replicate n 0" for a n
    by (rule nth_equalityI) (simp_all add: sample_pipe_def fs_start_def)
  have c: "delivered sample_pipe = []" "pipe_content (pipes sample_pipe ! 0) = []"
    by (simp_all add: sample_pipe_def fs_start_def delivered_def pipe_content_def zero_pipe_def)
  have "\<forall>r \<in> set ?rs. op_ok r" by (simp add: plain_buffer_def word_sless_alt)
  moreover have "pipe_ready 0 (sum_list (map op_size ?rs)) sample_pipe" by (intro sample_pipe_ready) simp
  ultimately have "\<exists>s'. pipe_run 0 ?rs sample_pipe = Some s' \<and>
    delivered s' @ pipe_content (pipes s' ! unat (0 :: u64)) = delivered sample_pipe @
      pipe_content (pipes sample_pipe ! unat (0 :: u64)) @ concat (map (op_bytes (fmem sample_pipe)) ?rs)"
    by (rule pipe_fifo [rotated])
  moreover have "concat (map (op_bytes (fmem sample_pipe)) ?rs) = replicate 8 0"
    by (simp add: b flip: replicate_add)
  ultimately show ?thesis using c by (simp only: append_Nil unat_0)
qed

end
