(* ===== verification/Fs_Files.thy ===== *)
theory Fs_Files
  imports Fs_Vfs Fs_Pipe
begin

text \<open>
  The operations of \<^verbatim>\<open>fs/fcb.c\<close> that call file system drivers: reading a link, building the member list
  of a union, and writing the buffers of a file to its device.
\<close>

section \<open>Operations\<close>

definition zero_dirent :: dirent_t where
  "zero_dirent = \<lparr>de_dev = 0, de_ino = 0, de_icon = replicate 8 0, de_filesize = 0, de_type = 0, de_len = 0, de_name = []\<rparr>"

text \<open>
  \<^verbatim>\<open>fcb_readlink\<close>: the first block of a file or union. The version and the inode are passed in each
  other's place, as in \<^verbatim>\<open>readblock\<close>.
\<close>

definition fcb_readlink :: "fsdrvs \<Rightarrow> u64 \<Rightarrow> fsstate \<Rightarrow> (bptr option \<times> fsstate) option" where
  "fcb_readlink D idx s =
     (if length (fcbs s) \<le> unat idx then Some (None, s)
      else
        let f = fcbs s ! unat idx in
        if f_abspath f = None \<or> (f_type f \<noteq> FCB_TYPE_UNION \<and> f_type f \<noteq> FCB_TYPE_REG_FILE) then Some (None, s)
        else case drv D (f_fs f) dr_read of
          None \<Rightarrow> Some (None, s)
        | Some rd \<Rightarrow> do {
            d \<leftarrow> at (fcbs s) (f_storage f);
            ((b, _), s) \<leftarrow> rd (f_storage f) (ucast (f_ver f)) (ucast (f_inode f)) 0 (ucast (f_blksize d)) s;
            Some (b, s)
          })"

text \<open>
  \<^verbatim>\<open>fcb_unionlist_add\<close>. The list has room for its members and a closing zero, and \<open>n\<close> counts both. It
  is searched before it is allocated: with the first member this reads through a null pointer.
\<close>

definition fcb_unionlist_add :: "bool \<Rightarrow> u64 list option \<Rightarrow> u64 \<Rightarrow> nat \<Rightarrow> (u64 list option \<times> nat) option" where
  "fcb_unionlist_add heap fl f n =
     (if f = NOFID then Some (fl, n)
      else case fl of
        None \<Rightarrow> if 0 < n then None else if heap then Some (Some [f], 1) else Some (None, 0)
      | Some xs \<Rightarrow>
          if f \<in> set (take n xs) then Some (fl, n)
          else if \<not> heap then Some (None, 0)
          else Some (Some ((take n xs @ [0])[n - 1 := f]), n + 1))"

text \<open>The position of the joker in a member of a union.\<close>

definition joker_at :: "u8 list \<Rightarrow> nat option" where
  "joker_at p = (if 3 < length p
     then List.find (\<lambda>j. ch p j = 46 \<and> ch p (j + 1) = 46 \<and> ch p (j + 2) = 46) [0..<length p - 3] else None)"

text \<open>
  \<^verbatim>\<open>fcb_unionlist_build\<close>. The directories that replace a joker are read from the buffer of the request.
  The state of the build is the list, its count, the position in the block, and the length by which
  the outer loop moves on; after a joker this is what the last directory entry had.
\<close>

definition cat_in_place :: "u32 \<Rightarrow> u8 list \<Rightarrow> u8 list \<Rightarrow> u8 list" where
  "cat_in_place pmax p f = (case pathcat pmax p (Some f) of Some q \<Rightarrow> q | None \<Rightarrow> p)"

partial_function (option) joker_dirs ::
  "nat \<Rightarrow> fsdrvs \<Rightarrow> u16 \<Rightarrow> u64 \<Rightarrow> u64 \<Rightarrow> u8 list \<Rightarrow> u8 list \<Rightarrow> u64 \<Rightarrow> u64 \<Rightarrow> u64 list option \<times> nat \<Rightarrow> fsstate
    \<Rightarrow> ((u64 list option \<times> nat) \<times> u64 \<times> fsstate) option" where
  "joker_dirs n D fs buf sz pre post j l r s =
     (if j < sz \<and> l \<noteq> 0
      then Option.bind (drv D fs dr_getdirent) (\<lambda>g.
           Option.bind (g (Some (Mem (buf + j))) j zero_dirent s) (\<lambda>((l, de), s).
           if de_name de \<noteq> [] \<and> last (de_name de) = 47
           then Option.bind (lookup n D (Some (cat_in_place (pathmax s) (cat_in_place (pathmax s) pre (de_name de)) post))
                  False 0 s) (\<lambda>(f, s).
                Option.bind (fcb_unionlist_add (heap_ok s) (fst r) f (snd r)) (\<lambda>r.
                if snd r = 0 then Some (r, l, s)
                else joker_dirs n D fs buf sz pre post (j + l) l r s))
           else joker_dirs n D fs buf sz pre post (j + l) l r s))
      else Some (r, l, s))"

definition union_member ::
  "nat \<Rightarrow> fsdrvs \<Rightarrow> u64 option \<Rightarrow> u64 \<Rightarrow> u8 list \<Rightarrow> u64 list option \<times> nat \<Rightarrow> fsstate
    \<Rightarrow> ((u64 + ((u64 list option \<times> nat) \<times> nat)) \<times> fsstate) option" where
  "union_member n D buf sz m r s =
     (case joker_at m of
        Some k \<Rightarrow>
          if \<not> heap_ok s then Some (Inl NOFID, s)
          else do {
            (f, s) \<leftarrow> lookup n D (Some (take (k + 1) m)) False 0 s;
            if ackdelayed s then Some (Inl NOFID, s)
            else if f = NOFID then Some (Inr (r, length m), s)
            else do {
              e \<leftarrow> at (fcbs s) f;
              if drv D (f_fs e) dr_getdirent = None then Some (Inr (r, length m), s)
              else case buf of
                None \<Rightarrow> Some (Inl f, s)
              | Some a \<Rightarrow> do {
                  (r, l, s) \<leftarrow> joker_dirs n D (f_fs e) a sz (take k m) (drop (k + 4) m) 0 1 r s;
                  if snd r = 0 then Some (Inl NOFID, s) else Some (Inr (r, unat l), s)
                }
            }
          }
      | None \<Rightarrow> do {
          (f, s) \<leftarrow> lookup n D (Some m) False 0 s;
          if f = NOFID then Some (Inr (r, length m), s)
          else if ackdelayed s then Some (Inl NOFID, s)
          else do {
            r \<leftarrow> fcb_unionlist_add (heap_ok s) (fst r) f (snd r);
            if snd r = 0 then Some (Inl NOFID, s) else Some (Inr (r, length m), s)
          }
        })"

partial_function (option) union_loop ::
  "nat \<Rightarrow> fsdrvs \<Rightarrow> u64 option \<Rightarrow> u64 \<Rightarrow> u8 list \<Rightarrow> nat \<Rightarrow> nat \<Rightarrow> u64 list option \<times> nat \<Rightarrow> fsstate
    \<Rightarrow> ((u64 + (u64 list option \<times> nat)) \<times> fsstate) option" where
  "union_loop n D buf sz b bs i r s =
     (if i < bs \<and> \<not> (ch b i = 0 \<and> ch b (i - 1) = 0)
      then Option.bind (union_member n D buf sz (cstring (drop i b)) r s) (\<lambda>(q, s).
        case q of
          Inl f \<Rightarrow> Some (Inl f, s)
        | Inr (r, l) \<Rightarrow> union_loop n D buf sz b bs (i + l + 1) r s)
      else Some (Inr r, s))"

definition fcb_unionlist_build ::
  "nat \<Rightarrow> fsdrvs \<Rightarrow> u64 \<Rightarrow> u64 option \<Rightarrow> u64 \<Rightarrow> fsstate \<Rightarrow> (u64 \<times> fsstate) option" where
  "fcb_unionlist_build n D idx buf sz s =
     (if length (fcbs s) \<le> unat idx then Some (NOFID, s)
      else
        let f = fcbs s ! unat idx in
        if f_abspath f = None \<or> f_type f \<noteq> FCB_TYPE_UNION \<or> drv D (f_fs f) dr_read = None then Some (NOFID, s)
        else do {
          d \<leftarrow> at (fcbs s) (f_storage f);
          (p, s) \<leftarrow> fcb_readlink D idx s;
          case p of
            None \<Rightarrow> Some (NOFID, s)
          | Some p \<Rightarrow> do {
              b \<leftarrow> blk_bytes s p (unat (f_blksize d));
              if ch b 0 = 0 \<or> ackdelayed s then Some (NOFID, s)
              else do {
                (q, s) \<leftarrow> union_loop n D buf sz b (unat (f_blksize d)) 0 (None, 1) s;
                case q of
                  Inl f \<Rightarrow> Some (f, s)
                | Inr (fl, k) \<Rightarrow>
                    let s = (case fl of
                               Some xs \<Rightarrow> if 1 < k
                                 then seterr SUCCESS (fold (\<lambda>m. upd_fcb m (\<lambda>e. e\<lparr>f_nopen := f_nopen e + 1\<rparr>)) (take k xs) s)
                                 else s
                             | None \<Rightarrow> s)
                    in Some (NOFID, upd_fcb idx (\<lambda>e. e\<lparr>f_unionlist := fl\<rparr>) s)
              }
            }
        })"

text \<open>
  \<^verbatim>\<open>fcb_flush\<close>. A buffer is extended to whole blocks before it is handed to the driver. The block that
  completes the front of a buffer is copied into it as a whole, which overruns a buffer that is
  shorter. After the first buffer was written, the loop goes on with a buffer that was freed. Result
  of a step: whether the flush goes on, and the buffer.
\<close>

definition flush_read :: "fsdrvs \<Rightarrow> fcb_t \<Rightarrow> u64 \<Rightarrow> u64 \<Rightarrow> bptr option \<Rightarrow> fsstate \<Rightarrow> ((bool \<times> bptr option) \<times> fsstate) option" where
  "flush_read D f offs bs blk s =
     (case drv D (f_fs f) dr_read of
        None \<Rightarrow> Some ((True, blk), s)
      | Some rd \<Rightarrow> do {
          ((b, n), s) \<leftarrow> rd (f_storage f) (ucast (f_ver f)) (ucast (f_inode f)) offs bs s;
          Some ((\<not> (ackdelayed s \<or> n = 0), b), s)
        })"

definition flush_front ::
  "fsdrvs \<Rightarrow> fcb_t \<Rightarrow> u64 \<Rightarrow> writebuf_t \<Rightarrow> fsstate \<Rightarrow> ((bool \<times> bptr option \<times> writebuf_t) \<times> fsstate) option" where
  "flush_front D f bs w s =
     (let a = w_offs w mod bs in
      if a = 0 then Some ((True, None, w), s)
      else do {
        ((go, blk), s) \<leftarrow> flush_read D f (w_offs w) bs None s;
        if \<not> go \<or> \<not> heap_ok s then Some ((False, None, w), s)
        else do {
          x \<leftarrow> (case blk of
                  None \<Rightarrow> Some (replicate (unat a) 0)
                | Some b \<Rightarrow> if w_size w + a < bs then None else map_option (take (unat a)) (blk_bytes s b (unat bs)));
          Some ((True, blk, w\<lparr>w_size := w_size w + a, w_offs := w_offs w - a, w_data := x @ w_data w\<rparr>), s)
        }
      })"

definition flush_back ::
  "fsdrvs \<Rightarrow> fcb_t \<Rightarrow> u64 \<Rightarrow> bptr option \<Rightarrow> writebuf_t \<Rightarrow> fsstate \<Rightarrow> ((bool \<times> writebuf_t) \<times> fsstate) option" where
  "flush_back D f bs blk w s =
     (let a = w_size w mod bs; n = w_size w - a + bs in
      if a = 0 then Some ((True, w), s)
      else do {
        ((go, blk), s) \<leftarrow> flush_read D f (w_offs w + w_size w - a) bs blk s;
        if \<not> go then Some ((False, w), s)
        else if \<not> heap_ok s then Some ((False, w\<lparr>w_data := []\<rparr>), s)
        else do {
          x \<leftarrow> (case blk of
                  None \<Rightarrow> Some (replicate (unat (bs - a)) 0)
                | Some b \<Rightarrow> map_option (drop (unat a)) (blk_bytes s b (unat bs)));
          Some ((True, w\<lparr>w_size := n, w_data := w_data w @ x\<rparr>), s)
        }
      })"

definition flush_bufs :: "fsdrvs \<Rightarrow> u64 \<Rightarrow> u64 \<Rightarrow> fsstate \<Rightarrow> (bool \<times> fsstate) option" where
  "flush_bufs D idx bs s =
     (let f = fcbs s ! unat idx in
      case f_buf f of
        [] \<Rightarrow> Some (True, s)
      | w # ws \<Rightarrow> do {
          let put = (\<lambda>b. upd_fcb idx (\<lambda>e. e\<lparr>f_buf := b\<rparr>));
          if bs = 0 then None
          else do {
            ((go, blk, w), s) \<leftarrow> flush_front D f bs w s;
            if \<not> go then Some (False, put (w # ws) s)
            else do {
              ((go, w), s) \<leftarrow> flush_back D f bs blk w s;
              if \<not> go then Some (False, put (w # ws) s)
              else do {
                wr \<leftarrow> drv D (f_fs f) dr_write;
                (ok, s) \<leftarrow> wr (f_storage f) (f_inode f) (w_offs w) (w_data w) s;
                if \<not> ok then Some (False, put (w # ws) s)
                else if ws \<noteq> [] then None
                else Some (True, put [] s)
              }
            }
          }
        })"

definition drv_hook :: "fsdrvs \<Rightarrow> fcb_t \<Rightarrow> (fsdrv_t \<Rightarrow> (u64 \<Rightarrow> u64 \<Rightarrow> bool fsop) option) \<Rightarrow> fsstate \<Rightarrow> fsstate option" where
  "drv_hook D f sel s =
     (case drv D (f_fs f) sel of
        None \<Rightarrow> Some s
      | Some g \<Rightarrow> map_option snd (g (f_storage f) (f_inode f) s))"

definition ctx_left :: "fsstate \<Rightarrow> u64 option" where
  "ctx_left s = do { a \<leftarrow> ctx s; t \<leftarrow> tctxs s a; Some (tc_workleft t) }"

definition set_left :: "u64 \<Rightarrow> fsstate \<Rightarrow> fsstate" where
  "set_left n s = (case ctx s of None \<Rightarrow> s | Some a \<Rightarrow> upd_tc a (\<lambda>t. t\<lparr>tc_workleft := n\<rparr>) s)"

definition fcb_flush :: "fsdrvs \<Rightarrow> u64 \<Rightarrow> fsstate \<Rightarrow> (bool \<times> fsstate) option" where
  "fcb_flush D idx s =
     (if length (fcbs s) \<le> unat idx then Some (False, seterr EFAULT s)
      else do {
        let f = fcbs s ! unat idx;
        d \<leftarrow> at (fcbs s) (f_storage f);
        left \<leftarrow> ctx_left s;
        let bs = (ucast (f_blksize d) :: u64);
        let err = (if left \<noteq> - 1 then 0
                   else if f_type f \<noteq> FCB_TYPE_REG_FILE then EBADF
                   else if f_storage f \<noteq> NOFID \<and> fk_dev (fsck s) = f_storage f then EBUSY
                   else if f_mode f AND O_WRITE = 0 then EACCES
                   else if \<not> writable D (f_fs f) then EROFS
                   else if bs \<le>s 0 then EINVAL
                   else 0);
        if err \<noteq> 0 then Some (False, seterr err s)
        else do {
          s \<leftarrow> (if left = - 1 then drv_hook D f dr_writetrb (set_left 0 s) else Some s);
          (ok, s) \<leftarrow> flush_bufs D idx bs s;
          if \<not> ok then Some (False, s)
          else do {
            s \<leftarrow> drv_hook D f dr_writetre s;
            Some (True, set_left NOFID s)
          }
        }
      })"

end
