(* ===== verification/Fs_Mtab.thy ===== *)
theory Fs_Mtab
  imports Fs_Vfs
begin

text \<open>
  The mount table, \<^verbatim>\<open>fs/mtab.c\<close>: mounting, unmounting and the table in \<^verbatim>\<open>/etc/fstab\<close>.
\<close>

section \<open>Operations\<close>

definition mtab_init :: "fsstate \<Rightarrow> fsstate option" where
  "mtab_init s = map_option snd (fcb_add [47] FCB_TYPE_REG_DIR s)"

definition NOMTAB :: u16 where "NOMTAB = - 1"

text \<open>
  \<^verbatim>\<open>mtab_add\<close> without the mount of the device directory. The service ends (\<open>None\<close>) when the first mount is
  not a file system. The flag says that the mount was entered in the table.
\<close>

definition err_unless :: "u64 \<Rightarrow> fsstate \<Rightarrow> fsstate" where
  "err_unless e s = (if fs_errno s = 0 then seterr e s else s)"

definition mtab_enter :: "u64 \<Rightarrow> u64 \<Rightarrow> u16 \<Rightarrow> fsstate \<Rightarrow> (bool \<times> fsstate) option" where
  "mtab_enter fd ff fs s = do {
     let old = find_index (\<lambda>m. mt_mountpoint m = ff) (mtab s);
     let new = \<lparr>mt_mountpoint = ff, mt_storage = fd, mt_fstype = ucast fs\<rparr>;
     d \<leftarrow> at (fcbs s) fd;
     s \<leftarrow> (case old of
        Some i \<Rightarrow> do {
          _ \<leftarrow> at (fcbs s) (mt_storage (mtab s ! i));
          Some (Some ((upd_fcb (mt_storage (mtab s ! i)) (\<lambda>f. f\<lparr>f_nopen := f_nopen f - 1\<rparr>) s)
            \<lparr>mtab := (mtab s)[i := new]\<rparr>))
        }
      | None \<Rightarrow>
          if \<not> heap_ok s then Some None
          else Some (Some ((upd_fcb ff (\<lambda>f. f\<lparr>f_nopen := f_nopen f + 1\<rparr>) s)\<lparr>mtab := mtab s @ [new]\<rparr>)));
     case s of
       None \<Rightarrow> None
     | Some s \<Rightarrow>
         Some (True, upd_fcb fd (\<lambda>f. f\<lparr>f_nopen := f_nopen f + 1\<rparr>)
           (upd_fcb ff (\<lambda>f. if ff \<noteq> DEVFCB then f\<lparr>f_fs := fs, f_mode := f_mode d, f_storage := fd\<rparr>
                            else f\<lparr>f_fs := fs, f_mode := O_RDONLY\<rparr>) s))
   }"

definition mtab_add_one :: "fsdrvs \<Rightarrow> u8 list option \<Rightarrow> u8 list option \<Rightarrow> fsstate \<Rightarrow> ((bool \<times> u64) \<times> fsstate) option" where
  "mtab_add_one D dev file s =
     (if dev = None \<or> dev = Some [] \<or> file = None \<or> file = Some [] then Some ((False, 0), seterr EINVAL s)
      else
        let fd = fcb_get dev s; ff = fcb_get file s in
        if fd = NOFID \<or> (fd \<noteq> DEVFCB \<and> f_type (fcbs s ! unat fd) \<noteq> FCB_TYPE_DEVICE \<and>
           f_type (fcbs s ! unat fd) \<noteq> FCB_TYPE_REG_FILE)
        then Some ((False, ff), err_unless ENODEV s)
        else if ff = NOFID \<or> f_type (fcbs s ! unat ff) \<noteq> FCB_TYPE_REG_DIR
        then Some ((False, ff), err_unless ENOTDIR s)
        else if (fd = ff \<and> rootmounted s) \<or> (ff \<noteq> ROOTFCB \<and> mtab s = [])
        then Some ((False, ff), seterr EINVAL s)
        else do {
          (fs, s) \<leftarrow> fsdrv_detect D fd s;
          if fs = NOFS
          then if \<not> rootmounted s \<or> mtab s = [] then None else Some ((False, ff), seterr ENOFS s)
          else do {
            (ok, s) \<leftarrow> mtab_enter fd ff fs s;
            Some ((ok, ff), s)
          }
        })"

text \<open>
  The whole of \<^verbatim>\<open>mtab_add\<close>: with the root the device directory is mounted too, whose mount point is not
  the root. Every path through the function ends with the same number, the one that stands for failure.
\<close>

definition mtab_add :: "fsdrvs \<Rightarrow> u8 list option \<Rightarrow> u8 list option \<Rightarrow> fsstate \<Rightarrow> (u16 \<times> fsstate) option" where
  "mtab_add D dev file s = do {
     ((ok, ff), s) \<leftarrow> mtab_add_one D dev file s;
     if ok \<and> ff = ROOTFCB \<and> \<not> rootmounted s
     then do {
       (_, s) \<leftarrow> mtab_add_one D (Some DEVPATH) (Some DEVPATH) s;
       Some (NOMTAB, s\<lparr>rootmounted := True\<rparr>)
     }
     else Some (NOMTAB, s)
   }"

text \<open>
  \<^verbatim>\<open>mtab_del\<close>. The table is shrunk with \<^verbatim>\<open>realloc\<close>, whose answer for an empty table is the null pointer.
\<close>

fun mtab_find :: "fsstate \<Rightarrow> u8 list option \<Rightarrow> u8 list option \<Rightarrow> mtab_t list \<Rightarrow> nat \<Rightarrow> nat option option" where
  "mtab_find s dev mnt [] i = Some None"
| "mtab_find s dev mnt (m # ms) i = do {
     d \<leftarrow> at (fcbs s) (mt_storage m);
     p \<leftarrow> at (fcbs s) (mt_mountpoint m);
     if (dev \<noteq> None \<and> (f_abspath d = None \<or> f_abspath d = dev)) \<or> (mnt \<noteq> None \<and> (f_abspath p = None \<or> f_abspath p = mnt))
     then Some (Some i) else mtab_find s dev mnt ms (Suc i)
   }"

definition mtab_del :: "u8 list option \<Rightarrow> u8 list option \<Rightarrow> fsstate \<Rightarrow> (bool \<times> fsstate) option" where
  "mtab_del dev file s = do {
     absdev \<leftarrow> canonize dev s;
     absmnt \<leftarrow> canonize file s;
     if absdev = None \<and> absmnt = None then Some (False, seterr EINVAL s)
     else do {
       i \<leftarrow> mtab_find s (map_option cstring absdev) (map_option cstring absmnt) (mtab s) 0;
       case i of
         None \<Rightarrow> Some (False, s)
       | Some i \<Rightarrow> let t = remove_at i (mtab s) in Some (t \<noteq> [] \<and> heap_ok s, s\<lparr>mtab := t\<rparr>)
     }
   }"

text \<open>
  \<^verbatim>\<open>mtab_fstab\<close>. The text is scanned nine times, for the entries of pass 1 to 9. Fields end at a blank, a
  tabulator, a zero byte or the end of the text; the field ends are replaced by zero bytes in a copy. A
  field step returns the copy, the position after the blanks that follow, and whether the line ends there.
\<close>

definition is_blank :: "u8 \<Rightarrow> bool" where "is_blank c \<longleftrightarrow> c = 9 \<or> c = 32"

definition field_end :: "u8 list \<Rightarrow> nat \<Rightarrow> nat" where
  "field_end b i = i + length (takeWhile (\<lambda>c. c \<noteq> 0 \<and> \<not> is_blank c) (drop i b))"

definition fstab_field :: "u8 list \<Rightarrow> nat \<Rightarrow> u8 list \<times> nat" where
  "fstab_field b i =
     (let e = field_end b i; b' = b[e := 0]
      in (b', e + 1 + length (takeWhile is_blank (drop (e + 1) b'))))"

definition fstab_string :: "u8 list \<Rightarrow> nat \<Rightarrow> u8 list" where
  "fstab_string b i = cstring (drop i b)"

text \<open>One round of the scan: the copy, the position, and the device and mount point to mount.\<close>

definition fstab_entry :: "u8 \<Rightarrow> u8 list \<Rightarrow> nat \<Rightarrow> u8 list \<times> nat \<times> (u8 list \<times> u8 list) option" where
  "fstab_entry pass b i =
     (let dev = i; (b, i) = fstab_field b i in
      if ch b i = 10 then (b, i, None)
      else let file = i; (b, i) = fstab_field b i in
           if ch b i = 10 then (b, i, None)
           else let (b, i) = fstab_field b i in
                if ch b i = 10 then (b, i, None)
                else (b, i + 1, if ch b i = pass then Some (fstab_string b dev, fstab_string b file) else None))"

definition skip_space :: "u8 list \<Rightarrow> nat \<Rightarrow> nat" where
  "skip_space b i = i + length (takeWhile (\<lambda>c. c = 10 \<or> is_blank c) (drop i b))"

definition skip_comment :: "u8 list \<Rightarrow> nat \<Rightarrow> nat" where
  "skip_comment b i = min (length b) (i + 1 + length (takeWhile (\<lambda>c. c \<noteq> 10) (drop i b)))"

function fstab_scan :: "fsdrvs \<Rightarrow> u8 \<Rightarrow> u8 list \<Rightarrow> nat \<Rightarrow> fsstate \<Rightarrow> (u8 list \<times> fsstate) option" where
  "fstab_scan D pass b i s =
     (if i < length b
      then let j = skip_space b i in
           if ch b j = 35 then fstab_scan D pass b (max (Suc i) (skip_comment b j)) s
           else
             let (b', k, m) = fstab_entry pass b j in do {
               s \<leftarrow> (case m of None \<Rightarrow> Some s | Some (dev, file) \<Rightarrow> map_option snd (mtab_add D (Some dev) (Some file) s));
               if length b' = length b \<and> i < k then fstab_scan D pass b' k s else Some (b', s)
             }
      else Some (b, s))"
  by pat_completeness auto

termination
  by (relation "measure (\<lambda>(D, pass, b, i, s). length b - i)") auto

declare fstab_scan.simps [simp del]

fun fstab_passes :: "fsdrvs \<Rightarrow> u8 list \<Rightarrow> u8 list \<Rightarrow> fsstate \<Rightarrow> fsstate option" where
  "fstab_passes D [] b s = Some s"
| "fstab_passes D (pass # ps) b s = do {
     (b, s) \<leftarrow> fstab_scan D pass b 0 s;
     s \<leftarrow> (if pass = 49 \<and> \<not> rootmounted s
           then map_option snd (mtab_add D (Some (chars ''/dev/root'')) (Some [47]) s) else Some s);
     fstab_passes D ps b s
   }"

definition mtab_fstab :: "fsdrvs \<Rightarrow> u8 list option \<Rightarrow> fsstate \<Rightarrow> fsstate option" where
  "mtab_fstab D txt s =
     (if txt = None \<or> txt = Some []
      then map_option snd (mtab_add D (Some (chars ''/dev/root'')) (Some [47]) s)
      else if \<not> heap_ok s \<or> fs_errno s \<noteq> 0 then None
      else fstab_passes D (chars ''123456789'') (the txt) s)"

section \<open>Facts\<close>

lemma length_fstab_field [simp]: "length (fst (fstab_field b i)) = length b"
  by (simp add: fstab_field_def Let_def)

lemma fstab_field_ge: "i < snd (fstab_field b i)"
  by (simp add: fstab_field_def field_end_def Let_def)

text \<open>The guard that makes the scan end is always met: every round keeps the length and moves on.\<close>

lemma fstab_entry_progress:
  assumes "fstab_entry pass b i = (b', k, m)"
  shows "length b' = length b \<and> i < k"
proof -
  obtain b1 i1 where 1: "fstab_field b i = (b1, i1)" by (cases "fstab_field b i")
  obtain b2 i2 where 2: "fstab_field b1 i1 = (b2, i2)" by (cases "fstab_field b1 i1")
  obtain b3 i3 where 3: "fstab_field b2 i2 = (b3, i3)" by (cases "fstab_field b2 i2")
  have "length b1 = length b" "length b2 = length b" "length b3 = length b" "i < i1" "i1 < i2" "i2 < i3"
    using 1 2 3 length_fstab_field [of b i] length_fstab_field [of b1 i1] length_fstab_field [of b2 i2]
      fstab_field_ge [of i b] fstab_field_ge [of i1 b1] fstab_field_ge [of i2 b2] by simp_all
  then show ?thesis using assms 1 2 3 by (auto simp: fstab_entry_def Let_def split: if_splits)
qed

text \<open>Mounting never reports success.\<close>

lemma mtab_add_fails: "mtab_add D dev file s = Some (r, s') \<Longrightarrow> r = NOMTAB"
  by (auto simp: mtab_add_def bind_eq_Some_conv split: if_splits)

end
