(* ===== verification/Fs_Taskctx.thy ===== *)
theory Fs_Taskctx
  imports Fs_Files Fs_Mtab
begin

text \<open>
  The contexts of tasks, \<^verbatim>\<open>fs/taskctx.c\<close>: per task its directories, its table of open files and the request
  that is suspended. A context is named by its address in the store of contexts; \<open>None\<close> is the null
  pointer.
\<close>

section \<open>Operations\<close>

text \<open>
  \<^verbatim>\<open>taskctx_get\<close>. When the search ends without a match its pointer is null, so a new context always
  replaces the whole chain of its bucket.
\<close>

definition taskctx_get :: "u64 \<Rightarrow> fsstate \<Rightarrow> (nat option \<times> fsstate) option" where
  "taskctx_get pid s =
     (if pid = 0 then Some (None, s)
      else do {
        r \<leftarrow> tc_search (tctxs s) pid (taskctx s (pid AND 0xFF));
        case r of
          Some a \<Rightarrow> Some (Some a, s)
        | None \<Rightarrow>
            if \<not> heap_ok s then Some (None, s)
            else
              let a = tfresh s in
              Some (Some a, upd_fcb 0 (\<lambda>f. f\<lparr>f_nopen := f_nopen f + 2\<rparr>)
                (s\<lparr>tctxs := (tctxs s)(a \<mapsto> zero_tc\<lparr>tc_pid := pid\<rparr>), tfresh := Suc a,
                   taskctx := (taskctx s)(pid AND 0xFF := Some a), ntaskctx := ntaskctx s + 1\<rparr>))
      })"

text \<open>
  \<^verbatim>\<open>taskctx_del\<close>. The walk stops at the context of the task or at the last one of the chain, which is
  then removed. Result of the walk: the predecessor and the context.
\<close>

partial_function (option) tc_walk ::
  "(nat \<Rightarrow> taskctx_t option) \<Rightarrow> u64 \<Rightarrow> nat option \<Rightarrow> nat \<Rightarrow> (nat option \<times> nat) option" where
  "tc_walk T pid l a =
     (case T a of
        None \<Rightarrow> None
      | Some t \<Rightarrow>
          (case tc_next t of
             None \<Rightarrow> Some (l, a)
           | Some b \<Rightarrow> if tc_pid t = pid then Some (l, a) else tc_walk T pid (Some a) b))"

fun del_all :: "u64 list \<Rightarrow> fsstate \<Rightarrow> fsstate option" where
  "del_all [] s = Some s"
| "del_all (f # fs) s = Option.bind (fcb_del f s) (del_all fs)"

definition taskctx_del :: "u64 \<Rightarrow> fsstate \<Rightarrow> fsstate option" where
  "taskctx_del pid s =
     (case taskctx s (pid AND 0xFF) of
        None \<Rightarrow> Some s
      | Some c \<Rightarrow> do {
          (l, a) \<leftarrow> tc_walk (tctxs s) pid None c;
          t \<leftarrow> tctxs s a;
          let s = (case l of
                     None \<Rightarrow> s\<lparr>taskctx := (taskctx s)(pid AND 0xFF := tc_next t)\<rparr>
                   | Some b \<Rightarrow> upd_tc b (\<lambda>u. u\<lparr>tc_next := tc_next t\<rparr>) s);
          let s = s\<lparr>ntaskctx := ntaskctx s - 1\<rparr>;
          s \<leftarrow> del_all (tc_workdir t # tc_rootdir t # map o_fid (tc_openfiles t)) s;
          Some (s\<lparr>tctxs := (tctxs s)(a := None)\<rparr>)
        })"

definition taskctx_dir ::
  "(taskctx_t \<Rightarrow> u64) \<Rightarrow> (u64 \<Rightarrow> taskctx_t \<Rightarrow> taskctx_t) \<Rightarrow> nat option \<Rightarrow> u64 \<Rightarrow> fsstate \<Rightarrow> fsstate option" where
  "taskctx_dir get put tc fid s =
     (case tc of
        None \<Rightarrow> Some s
      | Some a \<Rightarrow>
          if dir_path s fid = None then Some s
          else do {
            t \<leftarrow> tctxs s a;
            s \<leftarrow> fcb_del (get t) s;
            _ \<leftarrow> at (fcbs s) fid;
            Some (upd_fcb fid (\<lambda>f. f\<lparr>f_nopen := f_nopen f + 1\<rparr>) (upd_tc a (put fid) s))
          })"

definition taskctx_rootdir :: "nat option \<Rightarrow> u64 \<Rightarrow> fsstate \<Rightarrow> fsstate option" where
  "taskctx_rootdir = taskctx_dir tc_rootdir (\<lambda>f t. t\<lparr>tc_rootdir := f\<rparr>)"

definition taskctx_workdir :: "nat option \<Rightarrow> u64 \<Rightarrow> fsstate \<Rightarrow> fsstate option" where
  "taskctx_workdir = taskctx_dir tc_workdir (\<lambda>f t. t\<lparr>tc_workdir := f\<rparr>)"

text \<open>
  \<^verbatim>\<open>taskctx_validfid\<close>: the descriptor is in use and refers to an open pipe, a terminal or an entry of the
  file table.
\<close>

definition of_valid :: "openfiles_t \<Rightarrow> fsstate \<Rightarrow> bool" where
  "of_valid e s \<longleftrightarrow> o_fid e \<noteq> NOFID \<and>
     ((o_mode e AND O_FIFO \<noteq> 0 \<and> unat (o_fid e) < length (pipes s) \<and> 0 < pp_nopen (pipes s ! unat (o_fid e))) \<or>
      o_mode e AND OF_MODE_TTY \<noteq> 0 \<or>
      (unat (o_fid e) < length (fcbs s) \<and> f_abspath (fcbs s ! unat (o_fid e)) \<noteq> None))"

definition taskctx_validfid :: "nat option \<Rightarrow> u64 \<Rightarrow> fsstate \<Rightarrow> bool" where
  "taskctx_validfid tc idx s \<longleftrightarrow>
     (case Option.bind tc (tctxs s) of
        None \<Rightarrow> False
      | Some t \<Rightarrow> 0 < idx \<and> unat idx \<le> length (tc_openfiles t) \<and> of_valid (tc_openfiles t ! (unat idx - 1)) s)"

definition upd_of :: "nat \<Rightarrow> u64 \<Rightarrow> (openfiles_t \<Rightarrow> openfiles_t) \<Rightarrow> fsstate \<Rightarrow> fsstate" where
  "upd_of a idx g = upd_tc a (\<lambda>t. t\<lparr>tc_openfiles := update_at (unat idx - 1) g (tc_openfiles t)\<rparr>)"

definition get_of :: "nat \<Rightarrow> u64 \<Rightarrow> fsstate \<Rightarrow> openfiles_t option" where
  "get_of a idx s = Option.bind (tctxs s a) (\<lambda>t.
     if 0 < idx \<and> unat idx \<le> length (tc_openfiles t) then Some (tc_openfiles t ! (unat idx - 1)) else None)"

text \<open>
  \<^verbatim>\<open>taskctx_open\<close>. The checks on the entry come first, also for an unnamed pipe, whose number is taken for
  the number of a file there. Their result is an error or the number to store, the mode, and which
  tables the new descriptor refers to.
\<close>

definition open_mode :: "u32 \<Rightarrow> u32" where
  "open_mode m =
     (let m = (if m AND O_READ = 0 \<and> m AND O_WRITE = 0 then m OR O_READ else m)
      in if m AND O_CREAT \<noteq> 0 \<or> m AND O_APPEND \<noteq> 0 then m OR O_WRITE else m)"

definition open_check :: "u64 \<Rightarrow> u32 \<Rightarrow> fsstate \<Rightarrow> u64 + (u64 \<times> u32 \<times> u64 option)" where
  "open_check fid mode s =
     (if mode AND OF_MODE_TTY \<noteq> 0 then Inr (fid, mode, None)
      else if dir_path s fid = None then Inl ENOENT
      else
        let f = fcbs s ! unat fid in
        if f_flags f AND FCB_FLAG_EXCL \<noteq> 0 then Inl EBUSY
        else if (mode AND O_AMSK) AND (f_mode f AND O_AMSK) = 0 \<and>
          \<not> (mode AND (O_APPEND OR O_CREAT) \<noteq> 0 \<and> f_mode f AND O_WRITE \<noteq> 0)
        then Inl EACCES
        else if f_type f = FCB_TYPE_PIPE
        then if length (pipes s) \<le> unat (f_storage f) \<or> pp_fid (pipes s ! unat (f_storage f)) \<noteq> fid then Inl EPIPE
             else Inr (f_storage f, mode OR O_FIFO, Some fid)
        else Inr (fid, mode, Some fid))"

definition open_slot :: "u64 \<Rightarrow> openfiles_t list \<Rightarrow> nat option" where
  "open_slot idx ofs =
     (if idx \<noteq> 0 \<and> unat idx \<le> length ofs \<and> o_fid (ofs ! (unat idx - 1)) = NOFID then Some (unat idx - 1)
      else find_index (\<lambda>e. o_fid e = NOFID) ofs)"

text \<open>The state after a descriptor was stored, with the references it holds.\<close>

definition open_done :: "nat \<Rightarrow> openfiles_t list \<Rightarrow> u64 \<Rightarrow> u32 \<Rightarrow> u64 option \<Rightarrow> fsstate \<Rightarrow> fsstate" where
  "open_done a ofs' fid mode f s =
     (let s = upd_tc a (\<lambda>t. t\<lparr>tc_openfiles := ofs', tc_nfiles := tc_nfiles t + 1\<rparr>) s;
          s = (case f of
                 None \<Rightarrow> s
               | Some k \<Rightarrow> upd_fcb k (\<lambda>e. e\<lparr>f_nopen := f_nopen e + 1,
                   f_flags := (if mode AND O_EXCL \<noteq> 0 \<or> f_mode e AND O_EXCL \<noteq> 0
                               then f_flags e OR FCB_FLAG_EXCL else f_flags e)\<rparr>) s)
      in if mode AND O_FIFO \<noteq> 0 then upd_pipe fid (\<lambda>p. p\<lparr>pp_nopen := pp_nopen p + 1\<rparr>) s else s)"

definition taskctx_open :: "nat option \<Rightarrow> u64 \<Rightarrow> u32 \<Rightarrow> u64 \<Rightarrow> u64 \<Rightarrow> fsstate \<Rightarrow> (u64 \<times> fsstate) option" where
  "taskctx_open tc fid mode offs idx s =
     (case tc of
        None \<Rightarrow> Some (0, seterr ENOENT s)
      | Some a \<Rightarrow>
          case open_check fid (open_mode mode) s of
            Inl e \<Rightarrow> Some (0, seterr e s)
          | Inr (fid, mode, f) \<Rightarrow>
              if mode AND O_FIFO \<noteq> 0 \<and> (fid = NOFID \<or> length (pipes s) \<le> unat fid) then Some (0, seterr EPIPE s)
              else do {
                t \<leftarrow> tctxs s a;
                let ofs = tc_openfiles t;
                let new = \<lparr>o_fid = fid, o_mode = mode, o_offs = offs, o_unionidx = 0, o_trid = 0\<rparr>;
                let (i, ofs') = (case open_slot idx ofs of
                      Some i \<Rightarrow> (i, ofs[i := new\<lparr>o_trid := o_trid (ofs ! i)\<rparr>])
                    | None \<Rightarrow> (length ofs, ofs @ [new]));
                if open_slot idx ofs = None \<and> \<not> heap_ok s
                then Some (0, upd_tc a (\<lambda>t. t\<lparr>tc_openfiles := []\<rparr>) s)
                else Some (of_nat i + 1, open_done a ofs' fid mode f s)
              })"

text \<open>
  \<^verbatim>\<open>taskctx_close\<close>. For a pipe the record is looked at again after it may have been cut off the table, which
  is an invalid access. The number of the file to release is the first part of the answer.
\<close>

definition close_pipe :: "u64 \<Rightarrow> u64 \<Rightarrow> fsstate \<Rightarrow> (u64 \<times> fsstate) option" where
  "close_pipe k pid s = do {
     p \<leftarrow> at (pipes s) k;
     let fid = (if pp_fid p \<noteq> 0 then pp_fid p else NOFID);
     let s = (if pp_reader p = pid then upd_pipe k (\<lambda>p. p\<lparr>pp_reader := 0\<rparr>) s else s);
     let s = pipe_del k s;
     p \<leftarrow> at (pipes s) k;
     Some (if pp_fid p \<noteq> 0 \<and> fid \<noteq> NOFID then fid else k, s)
   }"

definition of_shrink :: "openfiles_t list \<Rightarrow> openfiles_t list" where
  "of_shrink ofs = rev (dropWhile (\<lambda>e. o_fid e = NOFID) (rev ofs))"

definition taskctx_close :: "fsdrvs \<Rightarrow> nat option \<Rightarrow> u64 \<Rightarrow> bool \<Rightarrow> fsstate \<Rightarrow> (bool \<times> fsstate) option" where
  "taskctx_close D tc idx dontfree s =
     (if \<not> taskctx_validfid tc idx s then Some (False, s)
      else do {
        a \<leftarrow> tc;
        t \<leftarrow> tctxs s a;
        e \<leftarrow> get_of a idx s;
        (fid, s) \<leftarrow> (if o_mode e AND O_FIFO \<noteq> 0 then close_pipe (o_fid e) (tc_pid t) s else Some (o_fid e, s));
        s \<leftarrow> (if o_mode e AND OF_MODE_TTY = 0 \<and> fid \<noteq> NOFID \<and> unat fid < length (fcbs s)
              then do {
                s \<leftarrow> (if o_mode e AND O_WRITE \<noteq> 0 \<and> o_mode e AND O_FIFO = 0
                      then map_option snd (fcb_flush D fid s) else Some s);
                fcb_del fid (upd_fcb fid (\<lambda>f. f\<lparr>f_flags := f_flags f AND NOT FCB_FLAG_EXCL\<rparr>) s)
              }
              else Some s);
        let s = upd_tc a (\<lambda>t. t\<lparr>tc_nfiles := tc_nfiles t - 1\<rparr>) (upd_of a idx (\<lambda>e. e\<lparr>o_fid := NOFID\<rparr>) s);
        if dontfree then Some (True, s)
        else do {
          t \<leftarrow> tctxs s a;
          let ofs = of_shrink (tc_openfiles t);
          let ok = (length ofs = length (tc_openfiles t) \<or> ofs = [] \<or> heap_ok s);
          Some (ok, upd_tc a (\<lambda>t. t\<lparr>tc_openfiles := (if ok then ofs else [])\<rparr>) s)
        }
      })"


definition taskctx_seek :: "nat option \<Rightarrow> u64 \<Rightarrow> u64 \<Rightarrow> u8 \<Rightarrow> fsstate \<Rightarrow> (bool \<times> fsstate) option" where
  "taskctx_seek tc idx offs whence s =
     (if \<not> taskctx_validfid tc idx s then Some (False, seterr EBADF s)
      else do {
        a \<leftarrow> tc;
        e \<leftarrow> get_of a idx s;
        if o_mode e AND OF_MODE_TTY \<noteq> 0 \<or> o_mode e AND O_FIFO \<noteq> 0 then Some (False, seterr ESPIPE s)
        else do {
          f \<leftarrow> at (fcbs s) (o_fid e);
          if f_type f \<noteq> FCB_TYPE_REG_FILE then Some (False, seterr ESPIPE s)
          else if o_mode e AND O_APPEND \<noteq> 0 then Some (False, seterr EACCES s)
          else
            let p = (if whence = SEEK_CUR then o_offs e + offs
                     else if whence = SEEK_END then f_filesize f + offs
                     else offs)
            in if p <s 0 then Some (False, seterr EINVAL (upd_of a idx (\<lambda>e. e\<lparr>o_offs := 0\<rparr>) s))
               else Some (True, upd_of a idx (\<lambda>e. e\<lparr>o_offs := p\<rparr>) s)
        }
      })"

text \<open>
  \<^verbatim>\<open>taskctx_readdir\<close>. The icon is the first eight bytes of type and subtype. When the entry is a link, type
  and size are those of its target.
\<close>

definition S_IFMT :: u32 where "S_IFMT = 0xFF0000"

definition icon_of :: "stat_t \<Rightarrow> u8 list" where
  "icon_of st = (let i = take 8 (st_type st @ st_mime st) in if ch i 3 = 58 then i[3 := 0] else i)"

definition link_target ::
  "nat \<Rightarrow> fsdrvs \<Rightarrow> fcb_t \<Rightarrow> openfiles_t \<Rightarrow> u8 list \<Rightarrow> fsstate \<Rightarrow> (u64 \<times> fsstate) option" where
  "link_target n D fc e link s =
     (if ch link 0 = 47 then lookup n D (Some link) False 0 s
      else if \<not> heap_ok s then Some (NOFID, s)
      else do {
        base \<leftarrow> (if f_type fc = FCB_TYPE_UNION
                 then do { ul \<leftarrow> f_unionlist fc; m \<leftarrow> at ul (o_unionidx e); dir_path s m }
                 else f_abspath fc);
        lookup n D (Some (cat_in_place (pathmax s) base link)) False 0 s
      })"

definition dirent_stat ::
  "nat \<Rightarrow> fsdrvs \<Rightarrow> fcb_t \<Rightarrow> openfiles_t \<Rightarrow> dirent_t \<Rightarrow> fsstate \<Rightarrow> ((bool \<times> dirent_t) \<times> fsstate) option" where
  "dirent_stat n D fc e de s =
     (case drv D (f_fs fc) dr_stat of
        None \<Rightarrow> Some ((True, de), s)
      | Some g \<Rightarrow> do {
          ((ok, st, link), s) \<leftarrow> g (f_storage fc) (de_ino de) zero_stat s;
          if \<not> ok then Some ((True, de), s)
          else do {
            let de = de\<lparr>de_type := drop_bit 16 (st_mode st), de_filesize := st_size st\<rparr>;
            case link of
              None \<Rightarrow> Some ((True, de\<lparr>de_icon := icon_of st\<rparr>), s)
            | Some link \<Rightarrow> do {
                (f, s) \<leftarrow> link_target n D fc e link s;
                if ackdelayed s then Some ((False, de), s)
                else if f = NOFID then Some ((True, de\<lparr>de_icon := icon_of st\<rparr>), s)
                else do {
                  t \<leftarrow> at (fcbs s) f;
                  if length D \<le> unat (f_fs t) then Some ((True, de\<lparr>de_icon := icon_of st\<rparr>), s)
                  else do {
                    h \<leftarrow> drv D (f_fs t) dr_stat;
                    ((ok, st, _), s) \<leftarrow> h (f_storage t) (f_inode t) st s;
                    Some ((True, (if ok
                      then de\<lparr>de_type := (de_type de AND NOT (drop_bit 16 S_IFMT)) OR drop_bit 16 (st_mode st),
                              de_filesize := st_size st\<rparr>
                      else de)\<lparr>de_icon := icon_of st\<rparr>), s)
                  }
                }
              }
          }
        })"

definition taskctx_readdir ::
  "nat \<Rightarrow> fsdrvs \<Rightarrow> nat option \<Rightarrow> u64 \<Rightarrow> u64 \<Rightarrow> fsstate \<Rightarrow> (dirent_t option \<times> fsstate) option" where
  "taskctx_readdir n D tc idx ptr s =
     (if \<not> taskctx_validfid tc idx s then Some (None, seterr EBADF s)
      else do {
        a \<leftarrow> tc;
        e \<leftarrow> get_of a idx s;
        if o_mode e AND O_FIFO \<noteq> 0 \<or> o_mode e AND OF_MODE_TTY \<noteq> 0 then Some (None, seterr EPIPE s)
        else do {
          fc \<leftarrow> at (fcbs s) (o_fid e);
          if f_fs fc = devfsidx s
          then do {
            (k, de) \<leftarrow> devfs_getdirent (o_offs e) zero_dirent s;
            if k = 0 \<or> de_name de = []
            then Some (None, seterr ENOENT (upd_of a idx (\<lambda>e. e\<lparr>o_offs := of_nat (length (devs s))\<rparr>) s))
            else Some (Some de, upd_of a idx (\<lambda>e. e\<lparr>o_offs := o_offs e + k\<rparr>) s)
          }
          else case drv D (f_fs fc) dr_getdirent of
            None \<Rightarrow> Some (None, seterr ENOTSUP s)
          | Some g \<Rightarrow>
              if fk_dev (fsck s) = f_storage fc then Some (None, seterr EBUSY s)
              else do {
                ((k, de), s) \<leftarrow> g (Some (Mem ptr)) (o_offs e) zero_dirent s;
                if k = 0 \<or> de_name de = [] then Some (None, s)
                else do {
                  let de = de\<lparr>de_len := (if de_len de = 0 then of_nat (length (de_name de)) else de_len de),
                    de_dev := f_storage fc, de_type := ucast FCB_TYPE_REG_FILE\<rparr>;
                  ((go, de), s) \<leftarrow> dirent_stat n D fc e de s;
                  if \<not> go then Some (None, s)
                  else do {
                    next \<leftarrow> (if f_type fc = FCB_TYPE_UNION
                      then do {
                        ul \<leftarrow> f_unionlist fc;
                        m \<leftarrow> at ul (o_unionidx e);
                        u \<leftarrow> at (fcbs s) m;
                        Some (f_filesize u \<le> o_offs e + k)
                      }
                      else Some False);
                    Some (Some de, upd_of a idx (\<lambda>e. if next then e\<lparr>o_offs := 0, o_unionidx := o_unionidx e + 1\<rparr>
                                                    else e\<lparr>o_offs := o_offs e + k\<rparr>) s)
                  }
                }
              }
        }
      })"

text \<open>
  \<^verbatim>\<open>taskctx_read\<close>. A request that lies in one write buffer is answered at once. Otherwise it is answered
  block by block; what is left and how far the request has come is kept in the context, so that it can be
  resumed when a block had to be fetched.
\<close>

definition read_block :: "fsdrvs \<Rightarrow> u64 \<Rightarrow> fcb_t \<Rightarrow> u64 \<Rightarrow> u64 \<Rightarrow> fsstate \<Rightarrow> ((bptr option \<times> u64) \<times> fsstate) option" where
  "read_block D fi f b bs s =
     (let e = b + bs in
      case find_index (buf_inside b e) (f_buf f) of
        Some i \<Rightarrow> Some ((Some (Blk (buf_tail b (f_buf f ! i))), bs), s)
      | None \<Rightarrow> do {
          rd \<leftarrow> drv D (f_fs f) dr_read;
          ((blk, n), s) \<leftarrow> rd (f_storage f) (ucast (f_ver f)) (ucast (f_inode f)) b bs s;
          if ackdelayed s \<or> n = 0 then Some ((None, n), s)
          else do {
            let blk = (case blk of Some p \<Rightarrow> p | None \<Rightarrow> Blk (replicate (unat bs) 0));
            (r, ws) \<leftarrow> buf_merge (heap_ok s) (blk_bytes s blk) b e (f_buf f);
            Some ((Some (case r of Some d \<Rightarrow> Blk d | None \<Rightarrow> blk), n), upd_fcb fi (\<lambda>f. f\<lparr>f_buf := ws\<rparr>) s)
          }
        })"

definition tc_work :: "nat \<Rightarrow> fsstate \<Rightarrow> (u64 \<times> u64) option" where
  "tc_work a s = map_option (\<lambda>t. (tc_workleft t, tc_workoffs t)) (tctxs s a)"

definition set_work :: "nat \<Rightarrow> u64 \<Rightarrow> u64 \<Rightarrow> fsstate \<Rightarrow> fsstate" where
  "set_work a l k = upd_tc a (\<lambda>t. t\<lparr>tc_workleft := l, tc_workoffs := k\<rparr>)"

partial_function (option) read_loop ::
  "fsdrvs \<Rightarrow> nat \<Rightarrow> u64 \<Rightarrow> u64 \<Rightarrow> u64 \<Rightarrow> u64 \<Rightarrow> u64 \<Rightarrow> fsstate \<Rightarrow> (u64 \<times> fsstate) option" where
  "read_loop D a pid fi offs ptr ret s =
     Option.bind (tc_work a s) (\<lambda>(left, k).
     if left \<noteq> - 1 \<and> 0 < left
     then Option.bind (at (fcbs s) fi) (\<lambda>f.
          Option.bind (at (fcbs s) (f_storage f)) (\<lambda>d.
          Option.bind (read_block D fi f (offs + k) (ucast (f_blksize d)) s) (\<lambda>((blk, n), s).
          case blk of
            None \<Rightarrow> if ackdelayed s then Some (ret, s) else Some (k, set_work a (- 1) k s)
          | Some p \<Rightarrow>
              if left \<le> n
              then Option.bind (blk_bytes s p (unat left)) (\<lambda>xs.
                     Some (k + left, set_work a (- 1) (k + left) (deliver pid (ptr + k) xs s)))
              else Option.bind (blk_bytes s p (unat n)) (\<lambda>xs.
                     read_loop D a pid fi offs ptr ret (set_work a (left - n) (k + n) (deliver pid (ptr + k) xs s))))))
     else Some (ret, s))"

definition taskctx_read :: "fsdrvs \<Rightarrow> nat option \<Rightarrow> u64 \<Rightarrow> u64 \<Rightarrow> u64 \<Rightarrow> fsstate \<Rightarrow> (u64 \<times> fsstate) option" where
  "taskctx_read D tc idx ptr sz s =
     (if \<not> taskctx_validfid tc idx s then Some (0, seterr EBADF s)
      else do {
        a \<leftarrow> tc;
        t \<leftarrow> tctxs s a;
        e \<leftarrow> get_of a idx s;
        if o_mode e AND O_FIFO \<noteq> 0 then Some (pipe_read (o_fid e) ptr sz (tc_pid t) s)
        else do {
          f \<leftarrow> at (fcbs s) (o_fid e);
          if f_fs f = devfsidx s \<and> o_mode e AND OF_MODE_READDIR \<noteq> 0
          then Some (if unat (o_offs e) < length (devs s) then 1 else 0, s)
          else if f_mode f AND O_READ = 0 then Some (0, seterr EACCES s)
          else if f_type f = FCB_TYPE_PIPE \<or> f_type f = FCB_TYPE_SOCKET then Some (0, s)
          else if f_storage f \<noteq> NOFID \<and> fk_dev (fsck s) = f_storage f then Some (0, seterr EBUSY s)
          else do {
            fi \<leftarrow> (if f_type f = FCB_TYPE_UNION \<and> o_mode e AND OF_MODE_READDIR \<noteq> 0
                   then do { ul \<leftarrow> f_unionlist f; m \<leftarrow> at ul (o_unionidx e); Some (if m = 0 then None else Some m) }
                   else Some (Some (o_fid e)));
            case fi of
              None \<Rightarrow> Some (0, s)
            | Some fi \<Rightarrow> do {
                f \<leftarrow> at (fcbs s) fi;
                if drv D (f_fs f) dr_read = None then Some (0, seterr EACCES s)
                else case (if tc_workleft t = - 1 then find_index (buf_inside (o_offs e) (o_offs e + sz)) (f_buf f) else None) of
                  Some i \<Rightarrow> Some (sz, deliver (tc_pid t) ptr (take (unat sz) (buf_tail (o_offs e) (f_buf f ! i))) s)
                | None \<Rightarrow> do {
                    let s = (if tc_workleft t = - 1 then set_work a sz 0 s else s);
                    (ret, s) \<leftarrow> read_loop D a (tc_pid t) fi (o_offs e) ptr 0 s;
                    Some (ret, if o_mode e AND OF_MODE_READDIR = 0
                               then upd_of a idx (\<lambda>e. e\<lparr>o_offs := o_offs e + ret\<rparr>) s else s)
                  }
              }
          }
        }
      })"

definition taskctx_write :: "fsdrvs \<Rightarrow> nat option \<Rightarrow> u64 \<Rightarrow> u64 \<Rightarrow> u64 \<Rightarrow> fsstate \<Rightarrow> (u64 \<times> fsstate) option" where
  "taskctx_write D tc idx ptr sz s =
     (if \<not> taskctx_validfid tc idx s then Some (0, seterr EBADF s)
      else do {
        a \<leftarrow> tc;
        e \<leftarrow> get_of a idx s;
        if o_mode e AND O_WRITE = 0 \<and> o_mode e AND O_APPEND = 0 then Some (0, seterr EACCES s)
        else if o_mode e AND O_FIFO \<noteq> 0
        then do { (_, s) \<leftarrow> pipe_write (o_fid e) ptr sz s; Some (sz, s) }
        else if o_mode e AND OF_MODE_TTY \<noteq> 0
        then Some (sz, (mq_send SRV_UI (SYS_datapacket OR MSG_PTRDATA) [Num ptr, Num sz] s)\<lparr>ackdelayed := True\<rparr>)
        else do {
          f \<leftarrow> at (fcbs s) (o_fid e);
          if f_mode f AND O_WRITE = 0 then Some (0, seterr EACCES s)
          else if f_type f = FCB_TYPE_PIPE \<or> f_type f = FCB_TYPE_SOCKET \<or> f_type f = FCB_TYPE_DEVICE then Some (0, s)
          else if f_type f = FCB_TYPE_REG_DIR \<or> f_type f = FCB_TYPE_UNION then Some (0, seterr EPERM s)
          else do {
            (ok, s) \<leftarrow> fcb_write (writable D) (o_fid e) (o_offs e) (bytes_at (fmem s) ptr (unat sz)) s;
            if ok then Some (sz, upd_of a idx (\<lambda>e. e\<lparr>o_offs := o_offs e + sz\<rparr>) s) else Some (0, s)
          }
        }
      })"

section \<open>Descriptors\<close>

lemma upd_of_simps [simp]:
  "pipes (upd_of a i g s) = pipes s" "fcbs (upd_of a i g s) = fcbs s"
  by (simp_all add: upd_of_def upd_tc_def)

lemma open_slot_free:
  assumes "open_slot idx ofs = Some i"
  shows "i < length ofs \<and> o_fid (ofs ! i) = NOFID"
proof (cases "idx \<noteq> 0 \<and> unat idx \<le> length ofs \<and> o_fid (ofs ! (unat idx - 1)) = NOFID")
  case True
  then have "0 < unat idx" by (simp add: unat_gt_0)
  with True assms show ?thesis by (auto simp: open_slot_def)
next
  case False
  then have "find_index (\<lambda>e. o_fid e = NOFID) ofs = Some i" using assms by (auto simp: open_slot_def split: if_splits)
  then show ?thesis by (auto dest: find_index_SomeD)
qed

text \<open>What the checks guarantee for the number that is stored.\<close>

lemma open_check_ok:
  assumes "open_check fid mode s = Inr (k, m, f)" and "fid \<noteq> NOFID" and "length (pipes s) < 2 ^ 31"
    and "\<not> (m AND O_FIFO \<noteq> 0 \<and> (k = NOFID \<or> length (pipes s) \<le> unat k))"
  shows "k \<noteq> NOFID" and "m AND O_FIFO \<noteq> 0 \<Longrightarrow> unat k < length (pipes s)"
    and "m AND O_FIFO = 0 \<Longrightarrow> m AND OF_MODE_TTY = 0 \<Longrightarrow> unat k < length (fcbs s) \<and> f_abspath (fcbs s ! unat k) \<noteq> None"
proof -
  have "(x OR O_FIFO) AND O_FIFO = O_FIFO" for x by (rule bit_eqI) (auto simp: bit_simps)
  moreover have "O_FIFO \<noteq> 0" by (simp add: O_FIFO_def)
  ultimately have fifo: "(x OR O_FIFO) AND O_FIFO \<noteq> 0" for x by simp
  show "k \<noteq> NOFID" "m AND O_FIFO \<noteq> 0 \<Longrightarrow> unat k < length (pipes s)"
    "m AND O_FIFO = 0 \<Longrightarrow> m AND OF_MODE_TTY = 0 \<Longrightarrow> unat k < length (fcbs s) \<and> f_abspath (fcbs s ! unat k) \<noteq> None"
    using assms fifo by (auto simp: open_check_def Let_def dir_path_def at_def split: if_splits)
qed

lemma of_valid_mono:
  assumes "of_valid e s" and "length (pipes s') = length (pipes s)"
    and "\<And>i. i < length (pipes s) \<Longrightarrow> 0 < pp_nopen (pipes s ! i) \<Longrightarrow> 0 < pp_nopen (pipes s' ! i)"
    and "length (fcbs s') = length (fcbs s)" and "\<And>i. i < length (fcbs s) \<Longrightarrow> f_abspath (fcbs s' ! i) = f_abspath (fcbs s ! i)"
  shows "of_valid e s'"
  using assms by (auto simp: of_valid_def)

lemma u64_Suc_pos: "n < 2 ^ 63 \<Longrightarrow> 0 < n + 1" for n :: u64
proof -
  assume "n < 2 ^ 63"
  then have "unat n + unat (1 :: u64) < 2 ^ LENGTH(64)" by (simp add: word_less_nat_alt)
  then have "unat (n + 1) = unat n + unat (1 :: u64)" by (rule unat_add_lem [THEN iffD1])
  then show ?thesis by (simp add: word_less_nat_alt)
qed

lemma open_done_facts:
  assumes "tctxs s a = Some t" and "\<forall>p \<in> set (pipes s). pp_nopen p < 2 ^ 63" and "s' = open_done a ofs' fid mode f s"
  shows "map_option tc_openfiles (tctxs s' a) = Some ofs'" and "length (pipes s') = length (pipes s)"
    and "\<And>i. i < length (pipes s) \<Longrightarrow> 0 < pp_nopen (pipes s ! i) \<Longrightarrow> 0 < pp_nopen (pipes s' ! i)"
    and "mode AND O_FIFO \<noteq> 0 \<Longrightarrow> unat fid < length (pipes s) \<Longrightarrow> 0 < pp_nopen (pipes s' ! unat fid)"
    and "length (fcbs s') = length (fcbs s)" and "\<And>i. i < length (fcbs s) \<Longrightarrow> f_abspath (fcbs s' ! i) = f_abspath (fcbs s ! i)"
proof -
  have pos: "0 < pp_nopen (pipes s ! i) + 1" if "i < length (pipes s)" for i
    using assms(2) nth_mem [OF that] by (intro u64_Suc_pos) blast
  show "map_option tc_openfiles (tctxs s' a) = Some ofs'" "length (pipes s') = length (pipes s)"
    using assms(1) by (auto simp: assms(3) open_done_def Let_def upd_tc_def upd_fcb_def upd_pipe_def split: option.splits)
  show "length (fcbs s') = length (fcbs s)"
    by (auto simp: assms(3) open_done_def Let_def upd_tc_def upd_fcb_def upd_pipe_def split: option.splits)
  show "\<And>i. i < length (fcbs s) \<Longrightarrow> f_abspath (fcbs s' ! i) = f_abspath (fcbs s ! i)"
    by (auto simp: assms(3) open_done_def Let_def upd_tc_def upd_fcb_def upd_pipe_def nth_update_at split: option.splits)
  have p: "pipes s' = (if mode AND O_FIFO \<noteq> 0 then update_at (unat fid) (\<lambda>p. p\<lparr>pp_nopen := pp_nopen p + 1\<rparr>) (pipes s) else pipes s)"
    by (auto simp: assms(3) open_done_def Let_def upd_tc_def upd_fcb_def upd_pipe_def split: option.splits)
  show "\<And>i. i < length (pipes s) \<Longrightarrow> 0 < pp_nopen (pipes s ! i) \<Longrightarrow> 0 < pp_nopen (pipes s' ! i)"
    using pos by (simp add: p nth_update_at)
  show "mode AND O_FIFO \<noteq> 0 \<Longrightarrow> unat fid < length (pipes s) \<Longrightarrow> 0 < pp_nopen (pipes s' ! unat fid)"
    using pos by (simp add: p nth_update_at)
qed

lemma taskctx_open_cases:
  assumes t: "tctxs s a = Some t" and heap: "heap_ok s"
  obtains e where "taskctx_open (Some a) fid mode offs idx s = Some (0, seterr e s)" "e \<noteq> 0"
  | k m f i ofs' new where "open_check fid (open_mode mode) s = Inr (k, m, f)"
      "\<not> (m AND O_FIFO \<noteq> 0 \<and> (k = NOFID \<or> length (pipes s) \<le> unat k))"
      "taskctx_open (Some a) fid mode offs idx s = Some (of_nat i + 1, open_done a ofs' k m f s)"
      "i < length ofs'" "ofs' ! i = new" "o_fid new = k" "o_mode new = m" "o_offs new = offs"
      "i < length (tc_openfiles t) \<Longrightarrow> o_fid (tc_openfiles t ! i) = NOFID" "i \<le> length (tc_openfiles t)"
      "\<And>j. j < length (tc_openfiles t) \<Longrightarrow> j \<noteq> i \<Longrightarrow> ofs' ! j = tc_openfiles t ! j" "length (tc_openfiles t) \<le> length ofs'"
proof (cases "open_check fid (open_mode mode) s")
  case (Inl e)
  then have "e \<noteq> 0" by (auto simp: open_check_def Let_def errno_defs split: if_splits)
  with Inl show ?thesis by (intro that(1) [of e]) (simp_all add: taskctx_open_def)
next
  case (Inr r)
  obtain k m f where r: "r = (k, m, f)" by (cases r)
  show ?thesis
  proof (cases "m AND O_FIFO \<noteq> 0 \<and> (k = NOFID \<or> length (pipes s) \<le> unat k)")
    case True
    with Inr r show ?thesis by (intro that(1) [of EPIPE]) (simp_all add: taskctx_open_def errno_defs)
  next
    case False
    then have g: "(m AND O_FIFO \<noteq> 0 \<and> (k = NOFID \<or> length (pipes s) \<le> unat k)) = False" by blast
    note go = taskctx_open_def option.case Inr r sum.case prod.case g if_False
    let ?ofs = "tc_openfiles t"
    let ?new = "\<lparr>o_fid = k, o_mode = m, o_offs = offs, o_unionidx = 0, o_trid = 0\<rparr>"
    show ?thesis
    proof (cases "open_slot idx ?ofs")
      case None
      have "taskctx_open (Some a) fid mode offs idx s = Some (of_nat (length ?ofs) + 1, open_done a (?ofs @ [?new]) k m f s)"
        unfolding go using t heap None by (simp add: Let_def)
      from that(2) [OF Inr [unfolded r] False this] show ?thesis by (simp add: nth_append)
    next
      case (Some i)
      have "taskctx_open (Some a) fid mode offs idx s =
          Some (of_nat i + 1, open_done a (?ofs[i := ?new\<lparr>o_trid := o_trid (?ofs ! i)\<rparr>]) k m f s)"
        unfolding go using t heap Some by (simp add: Let_def)
      from that(2) [OF Inr [unfolded r] False this] show ?thesis using open_slot_free [OF Some] by simp
    qed
  qed
qed

text \<open>
  C38. Opening a file, pipe or terminal either fails with an error code and changes nothing else, or returns
  a descriptor that was not in use, is valid afterwards and starts at the given position. Every descriptor
  of the task that was valid stays valid and keeps its file, mode and position.
\<close>

theorem taskctx_open_descriptor:
  assumes t: "tctxs s a = Some t" and n: "length (tc_openfiles t) < 2 ^ 31" and pipes: "length (pipes s) < 2 ^ 31"
    and heap: "heap_ok s" and fid: "fid \<noteq> NOFID" and refs: "\<forall>p \<in> set (pipes s). pp_nopen p < 2 ^ 63"
  shows "\<exists>r s'. taskctx_open (Some a) fid mode offs idx s = Some (r, s') \<and>
    (if r = 0 then \<exists>e. e \<noteq> 0 \<and> s' = seterr e s
     else taskctx_validfid (Some a) r s' \<and> \<not> taskctx_validfid (Some a) r s \<and>
       map_option o_offs (get_of a r s') = Some offs \<and>
       (\<forall>j. j \<noteq> r \<and> taskctx_validfid (Some a) j s \<longrightarrow> taskctx_validfid (Some a) j s' \<and> get_of a j s' = get_of a j s))"
proof (rule taskctx_open_cases [OF t heap, of fid mode offs idx])
  fix e
  assume "taskctx_open (Some a) fid mode offs idx s = Some (0, seterr e s)" "e \<noteq> 0"
  then show ?thesis by auto
next
  fix k m f i ofs' new
  assume chk: "open_check fid (open_mode mode) s = Inr (k, m, f)"
    and ff: "\<not> (m AND O_FIFO \<noteq> 0 \<and> (k = NOFID \<or> length (pipes s) \<le> unat k))"
    and res: "taskctx_open (Some a) fid mode offs idx s = Some (of_nat i + 1, open_done a ofs' k m f s)"
    and i: "i < length ofs'" "ofs' ! i = new" "o_fid new = k" "o_mode new = m" "o_offs new = offs"
      "i < length (tc_openfiles t) \<Longrightarrow> o_fid (tc_openfiles t ! i) = NOFID" "i \<le> length (tc_openfiles t)"
    and old: "\<And>j. j < length (tc_openfiles t) \<Longrightarrow> j \<noteq> i \<Longrightarrow> ofs' ! j = tc_openfiles t ! j"
      "length (tc_openfiles t) \<le> length ofs'"
  define s' where "s' = open_done a ofs' k m f s"
  note d = open_done_facts [OF t refs s'_def]
  obtain t' where t': "tctxs s' a = Some t'" "tc_openfiles t' = ofs'" using d(1) by auto
  have "unat (of_nat i + 1 :: u64) = unat (of_nat (Suc i) :: u64)" by (simp add: add.commute)
  also have "\<dots> = Suc i" using i(7) n by (intro unat_of_nat_u64) simp
  finally have r: "unat (of_nat i + 1 :: u64) = Suc i" .
  then have r0: "of_nat i + 1 \<noteq> (0 :: u64)" "0 < (of_nat i + 1 :: u64)" by (metis Zero_not_Suc unat_0, simp add: word_less_nat_alt)
  note ok = open_check_ok [OF chk fid pipes ff]
  have "of_valid new s'"
    using ok d(2,4,5,6) i(3,4) unfolding of_valid_def by (cases "m AND O_FIFO = 0"; cases "m AND OF_MODE_TTY = 0") auto
  then have v: "taskctx_validfid (Some a) (of_nat i + 1) s'" "map_option o_offs (get_of a (of_nat i + 1) s') = Some offs"
    using t' i r r0 by (simp_all add: taskctx_validfid_def get_of_def)
  have nv: "\<not> taskctx_validfid (Some a) (of_nat i + 1) s"
    using t r i(6) by (auto simp: taskctx_validfid_def of_valid_def)
  have others: "taskctx_validfid (Some a) j s' \<and> get_of a j s' = get_of a j s"
    if j: "j \<noteq> of_nat i + 1" "taskctx_validfid (Some a) j s" for j
  proof -
    have jj: "0 < unat j" "unat j \<le> length (tc_openfiles t)" "of_valid (tc_openfiles t ! (unat j - 1)) s"
      using j(2) t by (auto simp: taskctx_validfid_def word_less_nat_alt)
    have "unat j \<noteq> Suc i" using j(1) r by (metis word_unat_eq_iff)
    then have "ofs' ! (unat j - 1) = tc_openfiles t ! (unat j - 1)" using jj by (intro old) auto
    with jj t t' old(2) of_valid_mono [OF jj(3) d(2,3,5,6)] show ?thesis
      by (simp add: taskctx_validfid_def get_of_def word_less_nat_alt)
  qed
  show ?thesis using res v nv others r0 by (intro exI [of _ "of_nat i + 1"] exI [of _ s']) (simp add: s'_def [symmetric])
qed

definition sample_tasks :: fsstate where
  "sample_tasks = fs_start\<lparr>fcbs := [zero_fcb\<lparr>f_abspath := Some [47], f_mode := 1\<rparr>],
     tctxs := (\<lambda>a. if a = 0 then Some (zero_tc\<lparr>tc_pid := 0x105\<rparr>) else None), tfresh := 1,
     taskctx := (\<lambda>b. if b = 5 then Some 0 else None)\<rparr>"

theorem taskctx_open_descriptor_witness:
  "\<exists>s'. taskctx_open (Some 0) 0 O_READ 7 0 sample_tasks = Some (1, s') \<and> taskctx_validfid (Some 0) 1 s' \<and>
     map_option o_offs (get_of 0 1 s') = Some 7"
proof -
  have "\<exists>r s'. taskctx_open (Some 0) 0 O_READ 7 0 sample_tasks = Some (r, s') \<and>
    (if r = 0 then \<exists>e. e \<noteq> 0 \<and> s' = seterr e sample_tasks
     else taskctx_validfid (Some 0) r s' \<and> \<not> taskctx_validfid (Some 0) r sample_tasks \<and>
       map_option o_offs (get_of 0 r s') = Some 7 \<and>
       (\<forall>j. j \<noteq> r \<and> taskctx_validfid (Some 0) j sample_tasks \<longrightarrow>
         taskctx_validfid (Some 0) j s' \<and> get_of 0 j s' = get_of 0 j sample_tasks))"
    by (rule taskctx_open_descriptor [where t = "zero_tc\<lparr>tc_pid := 0x105\<rparr>"])
      (simp_all add: sample_tasks_def fs_start_def zero_tc_def NOFID_def)
  moreover have "map_option fst (taskctx_open (Some 0) 0 O_READ 7 0 sample_tasks) = Some 1"
    by (simp add: taskctx_open_def sample_tasks_def fs_start_def zero_tc_def zero_fcb_def open_check_def open_mode_def
        dir_path_def at_def open_slot_def mode_defs of_mode_defs fcb_type_defs Let_def)
  ultimately show ?thesis by auto
qed

text \<open>
  A task whose number has the same last byte as another one takes over its bucket: the context of the
  other task can no longer be found, and a new one without its open files is made on its next request.
\<close>

lemma taskctx_get_drops_context:
  "\<exists>s1 s2. tc_search (tctxs sample_tasks) 0x105 (taskctx sample_tasks 5) = Some (Some 0) \<and>
     taskctx_get 0x205 sample_tasks = Some (Some 1, s1) \<and> taskctx_get 0x105 s1 = Some (Some 2, s2)"
  by (simp add: taskctx_get_def sample_tasks_def fs_start_def zero_tc_def tc_search.simps upd_fcb_def)

text \<open>
  Opening an unnamed pipe needs a file whose number is the number of the pipe, and counts a reference to
  that file.
\<close>

lemma pipe_counts_unrelated_file:
  "\<exists>s'. taskctx_open (Some 0) 0 (O_RDONLY OR O_FIFO) 0 0 (sample_tasks\<lparr>pipes := [zero_pipe]\<rparr>) = Some (1, s') \<and>
     f_nopen (fcbs s' ! 0) = f_nopen (fcbs sample_tasks ! 0) + 1"
  "taskctx_open (Some 0) 1 (O_RDONLY OR O_FIFO) 0 0 (sample_tasks\<lparr>pipes := [zero_pipe, zero_pipe]\<rparr>) =
     Some (0, seterr ENOENT (sample_tasks\<lparr>pipes := [zero_pipe, zero_pipe]\<rparr>))"
  by (simp_all add: taskctx_open_def sample_tasks_def fs_start_def zero_tc_def zero_fcb_def open_check_def open_mode_def
      dir_path_def at_def open_slot_def mode_defs of_mode_defs fcb_type_defs Let_def open_done_def upd_tc_def upd_fcb_def
      upd_pipe_def update_at_def NOFID_def)

end
