(* ===== verification/Fs_Main.thy ===== *)
theory Fs_Main
  imports Fs_Taskctx
begin

text \<open>
  The message loop of the file system service, \<^verbatim>\<open>fs/main.c\<close>: one definition for each request, the choice of the
  task context, and the answer. The path of a request is the zero terminated string in its buffer.
\<close>

section \<open>Requests\<close>

text \<open>
  The surroundings of the service: the drivers, the bound for path lookups, the text of \<^verbatim>\<open>/etc/fstab\<close>, the
  name of a temporary file for a task (made from its number and a random number), the free and total
  memory the kernel reports, and the address of the arguments of the message.
\<close>

record fsenv =
  e_drv :: fsdrvs
  e_fuel :: nat
  e_fstab :: "u8 list option"
  e_tmpname :: "u64 \<Rightarrow> u8 list"
  e_free :: u64
  e_total :: u64
  e_args :: u64

text \<open>
  What a request leaves to the end of the loop: the number and string to answer, or nothing when it sent
  its answer itself.
\<close>

datatype hres = Ret u64 "u8 list option" | Finished

type_synonym handler = "fsenv \<Rightarrow> nat \<Rightarrow> msg_t \<Rightarrow> fsstate \<Rightarrow> (hres \<times> fsstate) option"

definition msg_path :: "msg_t \<Rightarrow> fsstate \<Rightarrow> u8 list option" where
  "msg_path m s = (if m_arg0 m = 0 then None else Some (cstring (bytes_at (fmem s) (m_arg0 m) (unat (m_arg1 m)))))"

definition fails :: "u64 \<Rightarrow> u64 \<Rightarrow> fsstate \<Rightarrow> (hres \<times> fsstate) option" where
  "fails r e s = Some (Ret r None, seterr e s)"

definition find_path :: "fsenv \<Rightarrow> msg_t \<Rightarrow> bool \<Rightarrow> fsstate \<Rightarrow> (u64 \<times> fsstate) option" where
  "find_path v m creat s = lookup (e_fuel v) (e_drv v) (msg_path m s) creat 0 s"

text \<open>The test of the handlers on the answer of \<^verbatim>\<open>lookup\<close>: it compares with a number \<^verbatim>\<open>lookup\<close> never returns.\<close>

definition found :: "u64 \<Rightarrow> fsstate \<Rightarrow> bool" where
  "found r s \<longleftrightarrow> r \<noteq> - 1 \<and> fs_errno s = 0"

definition reply :: "msg_t \<Rightarrow> marg list \<Rightarrow> fsstate \<Rightarrow> fsstate" where
  "reply m args = mq_send (EVT_SENDER (m_evt m)) EVT_ack args"

definition clear_msg :: "nat \<Rightarrow> fsstate \<Rightarrow> fsstate" where
  "clear_msg a = upd_tc a (\<lambda>t. t\<lparr>tc_msg := (tc_msg t)\<lparr>m_evt := 0\<rparr>\<rparr>)"

subsection \<open>Devices and file systems\<close>

definition h_mknod :: handler where
  "h_mknod v a m s =
     (if m_arg0 m = 0 \<or> m_arg1 m = 0 then fails (- 1) EINVAL s
      else do {
        t \<leftarrow> tctxs s a;
        name \<leftarrow> msg_path m s;
        (_, s) \<leftarrow> devfs_add name (tc_pid t) (m_arg2 m) (ucast (m_arg3 m)) (ucast (m_arg4 m)) (m_arg5 m) s;
        Some (Ret 0 None, s)
      })"

definition h_ioctl :: handler where
  "h_ioctl v a m s =
     (if \<not> taskctx_validfid (Some a) (m_arg2 m) s then fails (- 1) EBADF s
      else do {
        e \<leftarrow> get_of a (m_arg2 m) s;
        f \<leftarrow> at (fcbs s) (o_fid e);
        if f_type f \<noteq> FCB_TYPE_DEVICE then fails (- 1) EBADF s
        else do {
          d \<leftarrow> at (devs s) (f_inode f);
          t \<leftarrow> tctxs s a;
          Some (Finished, clear_msg a (mq_send (d_drivertask d)
            (DRV_ioctl OR (if m_arg0 m \<noteq> 0 \<and> 0 < m_arg1 m then MSG_PTRDATA else 0))
            [Num (m_arg0 m), Num (m_arg1 m), Num (d_device d), Num (m_arg3 m), Num (tc_pid t)] s))
        }
      })"

definition h_mount :: handler where
  "h_mount v a m s =
     (if m_arg0 m = 0 \<or> m_arg1 m = 0 then fails (- 1) EINVAL s
      else do {
        let b = bytes_at (fmem s) (m_arg0 m) (unat (m_arg1 m));
        let dev = cstring b;
        let file = cstring (drop (length dev + 1) b);
        (r, s) \<leftarrow> mtab_add (e_drv v) (Some dev) (Some file) s;
        Some (Ret (if r \<noteq> NOMTAB then 0 else - 1) None, s)
      })"

definition h_umount :: handler where
  "h_umount v a m s =
     (if m_arg0 m = 0 \<or> m_arg1 m = 0 then fails (- 1) EINVAL s
      else do {
        (ok, s) \<leftarrow> mtab_del (msg_path m s) (msg_path m s) s;
        s \<leftarrow> fcb_free s;
        Some (Ret (if ok then 0 else - 1) None, s)
      })"

definition h_fsck :: handler where
  "h_fsck v a m s = do {
     (r, s) \<leftarrow> find_path v m False s;
     if fk_dev (fsck s) \<noteq> - 1 \<and> fk_dev (fsck s) \<noteq> r then fails (- 1) EBUSY s
     else if found r s
     then do {
       (ok, s) \<leftarrow> dofsck (e_drv v) r (m_arg2 m \<noteq> 0) s;
       if ok then Some (Ret 0 None, s) else fails (- 1) ENODEV s
     }
     else fails (- 1) ENODEV s
   }"

subsection \<open>Directories\<close>

definition outside :: "u8 list \<Rightarrow> u8 list \<Rightarrow> bool" where
  "outside p root \<longleftrightarrow> take (length root) p \<noteq> root"

definition open_ref :: "u64 \<Rightarrow> fsstate \<Rightarrow> fsstate" where
  "open_ref f = upd_fcb f (\<lambda>e. e\<lparr>f_nopen := f_nopen e + 1\<rparr>)"

definition h_chroot :: handler where
  "h_chroot v a m s = do {
     (r, s) \<leftarrow> find_path v m False s;
     if \<not> found r s then Some (Ret r None, s)
     else do {
       f \<leftarrow> at (fcbs s) r;
       if f_type f \<noteq> FCB_TYPE_REG_DIR then fails (- 1) ENOTDIR s
       else do {
         t \<leftarrow> tctxs s a;
         s \<leftarrow> fcb_del (tc_rootdir t) s;
         let s = upd_tc a (\<lambda>t. t\<lparr>tc_rootdir := r\<rparr>) (open_ref r s);
         root \<leftarrow> dir_path s r;
         work \<leftarrow> dir_path s (tc_workdir t);
         if outside work root
         then do {
           s \<leftarrow> fcb_del (tc_workdir t) s;
           Some (Ret 0 None, upd_tc a (\<lambda>t. t\<lparr>tc_workdir := r\<rparr>) (open_ref r s))
         }
         else Some (Ret 0 None, s)
       }
     }
   }"

definition h_chdir :: handler where
  "h_chdir v a m s = do {
     (r, s) \<leftarrow> find_path v m False s;
     if \<not> found r s then Some (Ret r None, s)
     else do {
       f \<leftarrow> at (fcbs s) r;
       if f_type f \<noteq> FCB_TYPE_REG_DIR \<and> f_type f \<noteq> FCB_TYPE_UNION then fails (- 1) ENOTDIR s
       else do {
         t \<leftarrow> tctxs s a;
         s \<leftarrow> fcb_del (tc_workdir t) s;
         p \<leftarrow> dir_path s r;
         root \<leftarrow> dir_path s (tc_rootdir t);
         let r = (if outside p root then tc_rootdir t else r);
         Some (Ret 0 None, upd_tc a (\<lambda>t. t\<lparr>tc_workdir := r\<rparr>) (open_ref r s))
       }
     }
   }"

text \<open>The working directory as the task sees it; the number that is answered with it is the length of the root.\<close>

definition h_getcwd :: handler where
  "h_getcwd v a m s = do {
     t \<leftarrow> tctxs s a;
     work \<leftarrow> dir_path s (tc_workdir t);
     root \<leftarrow> dir_path s (tc_rootdir t);
     Some (Ret (of_nat (length root)) (Some (if outside work root then [47] else drop (length root - 1) work)), s)
   }"

definition open_dir :: "u64 \<Rightarrow> handler" where
  "open_dir r v a m s = do {
     (_, s) \<leftarrow> (if m_arg2 m \<noteq> - 1 then taskctx_close (e_drv v) (Some a) (m_arg2 m) True s else Some (True, s));
     (r, s) \<leftarrow> taskctx_open (Some a) r O_RDONLY 0 (m_arg2 m) s;
     Some (Ret r None, if r \<noteq> 0 then upd_of a r (\<lambda>e. e\<lparr>o_mode := o_mode e OR OF_MODE_READDIR\<rparr>) s else s)
   }"

definition open_union :: "u64 \<Rightarrow> handler" where
  "open_union r v a m s = do {
     (j, s) \<leftarrow> fcb_unionlist_build (e_fuel v) (e_drv v) r (if m_arg2 m = - 1 then None else Some (m_arg0 m)) (m_arg1 m) s;
     if ackdelayed s then Some (Ret r None, s)
     else if j = - 1 then open_dir r v a m s
     else do {
       (k, s) \<leftarrow> taskctx_open (Some a) j O_RDONLY 0 (m_arg2 m) s;
       if k = 0 then Some (Ret 0 None, s)
       else do {
         let s = upd_of a k (\<lambda>e. e\<lparr>o_unionidx := ucast r\<rparr>) s;
         (st, s) \<leftarrow> statfs (e_drv v) j s;
         case st of
           Some st \<Rightarrow>
             if st_size st \<noteq> 0
             then Some (Finished, clear_msg a (reply m [Num k, Num SUCCESS, Num (EVT_FUNC (m_evt m)), Num (m_serial m), Num (st_size st)] s))
             else do { (_, s) \<leftarrow> taskctx_close (e_drv v) (Some a) k True s; open_dir k v a m s }
         | None \<Rightarrow> do { (_, s) \<leftarrow> taskctx_close (e_drv v) (Some a) k True s; open_dir k v a m s }
       }
     }
   }"

definition open_found :: "u64 \<Rightarrow> handler" where
  "open_found r v a m s =
     (if \<not> found r s then Some (Ret r None, s)
      else do {
        f \<leftarrow> at (fcbs s) r;
        if f_fs f \<noteq> devfsidx s \<and> f_type f \<noteq> FCB_TYPE_REG_DIR \<and> f_type f \<noteq> FCB_TYPE_UNION then fails (- 1) ENOTDIR s
        else if f_type f = FCB_TYPE_UNION then open_union r v a m s
        else open_dir r v a m s
      })"

definition h_opendir :: handler where
  "h_opendir v a m s =
     (if m_arg2 m = - 1 then do { (r, s) \<leftarrow> find_path v m False s; open_found r v a m s }
      else if \<not> taskctx_validfid (Some a) (m_arg2 m) s then fails (- 1) EBADF s
      else do {
        e \<leftarrow> get_of a (m_arg2 m) s;
        f \<leftarrow> at (fcbs s) (o_fid e);
        if o_mode e AND O_READ = 0 \<or> f_mode f AND O_READ = 0 then fails (- 1) EACCES s
        else open_found (ucast (o_unionidx e)) v a m (upd_of a (m_arg2 m) (\<lambda>e. e\<lparr>o_unionidx := 0\<rparr>) s)
      })"

text \<open>
  A directory entry is copied to the task, and the address of the structure is answered too, as if it were
  a string: it starts with the bytes of the device number.
\<close>

definition le_bytes :: "u64 \<Rightarrow> u8 list" where
  "le_bytes w = map (\<lambda>i. ucast (drop_bit (8 * i) w)) [0..<8]"

definition h_readdir :: handler where
  "h_readdir v a m s =
     (if \<not> taskctx_validfid (Some a) (m_arg2 m) s then fails 0 EBADF s
      else do {
        e \<leftarrow> get_of a (m_arg2 m) s;
        f \<leftarrow> at (fcbs s) (o_fid e);
        if f_type f \<noteq> FCB_TYPE_REG_DIR \<and> f_type f \<noteq> FCB_TYPE_UNION then fails 0 EBADF s
        else do {
          (de, s) \<leftarrow> taskctx_readdir (e_fuel v) (e_drv v) (Some a) (m_arg2 m) (m_arg0 m) s;
          case de of
            Some d \<Rightarrow> Some (Ret 0 (Some (cstring (le_bytes (de_dev d)))),
              if fs_errno s = 0
              then s\<lparr>outbox := outbox s @ [Tskdirent (EVT_SENDER (m_evt m)) (m_arg3 m) d]\<rparr> else s)
          | None \<Rightarrow> Some (Ret 0 None, s)
        }
      })"

subsection \<open>Attributes\<close>

definition h_readlink :: handler where
  "h_readlink v a m s = do {
     (r, s) \<leftarrow> find_path v m False s;
     if \<not> found r s then Some (Ret 0 None, s)
     else do {
       (p, s) \<leftarrow> fcb_readlink (e_drv v) r s;
       case p of
         None \<Rightarrow> fails 0 EINVAL s
       | Some b \<Rightarrow> do {
           f \<leftarrow> at (fcbs s) r;
           Some (Finished, clear_msg a (mq_send (EVT_SENDER (m_evt m)) (EVT_ack OR MSG_PTRDATA)
             [Ptr b, Num (f_filesize f), Num (EVT_FUNC (m_evt m)), Num (m_serial m)] s))
         }
     }
   }"

definition h_realpath :: handler where
  "h_realpath v a m s = do {
     (r, s) \<leftarrow> find_path v m False s;
     if \<not> found r s then Some (Ret 0 None, s)
     else do { f \<leftarrow> at (fcbs s) r; Some (Ret 0 (f_abspath f), s) }
   }"

definition stat_reply :: "msg_t \<Rightarrow> stat_t option \<Rightarrow> fsstate \<Rightarrow> (hres \<times> fsstate) option" where
  "stat_reply m st s =
     (case st of
        Some st \<Rightarrow> Some (Ret 0 None, s\<lparr>outbox := outbox s @ [Tskstat (EVT_SENDER (m_evt m)) (m_arg2 m) st]\<rparr>)
      | None \<Rightarrow> fails 0 ENOENT s)"

definition stat_pipe :: "u64 \<Rightarrow> u32 \<Rightarrow> handler" where
  "stat_pipe k mode v a m s =
     (if mode AND OF_MODE_TTY \<noteq> 0
      then do {
        st \<leftarrow> pipe_stat k mode s;
        e \<leftarrow> get_of a (m_arg0 m) s;
        stat_reply m (Some (st\<lparr>st_ino := o_offs e\<rparr>)) s
      }
      else stat_reply m (pipe_stat k mode s) s)"

definition stat_found :: "u64 \<Rightarrow> handler" where
  "stat_found r v a m s =
     (if \<not> found r s then Some (Ret 0 None, s)
      else do {
        f \<leftarrow> at (fcbs s) r;
        if f_type f = FCB_TYPE_PIPE then stat_pipe (f_storage f) (O_RDWR OR O_APPEND) v a m s
        else do { (st, s) \<leftarrow> statfs (e_drv v) r s; stat_reply m st s }
      })"

definition h_dstat :: handler where
  "h_dstat v a m s =
     (if unat (m_arg0 m) < length (fcbs s) \<and> f_type (fcbs s ! unat (m_arg0 m)) = FCB_TYPE_DEVICE
      then stat_found (m_arg0 m) v a m s else fails 0 EINVAL s)"

definition h_fstat :: handler where
  "h_fstat v a m s =
     (if \<not> taskctx_validfid (Some a) (m_arg0 m) s then fails 0 EBADF s
      else do {
        e \<leftarrow> get_of a (m_arg0 m) s;
        if o_mode e AND O_FIFO \<noteq> 0 then stat_pipe (o_fid e) (o_mode e) v a m s
        else if o_mode e AND OF_MODE_TTY \<noteq> 0
        then stat_reply m (Some (zero_stat\<lparr>st_dev := - 1, st_ino := o_fid e,
               st_mode := O_WRONLY OR O_APPEND OR S_IFTTY, st_type := chars ''appl'',
               st_mime := chars ''pipe'' @ replicate 40 0\<rparr>)) s
        else stat_found (o_fid e) v a m s
      })"

definition h_lstat :: handler where
  "h_lstat v a m s = do { (r, s) \<leftarrow> find_path v m False s; stat_found r v a m s }"

subsection \<open>Pipes and terminals\<close>

definition h_mkfifo :: handler where
  "h_mkfifo v a m s = do {
     p \<leftarrow> msg_path m s;
     (r, s) \<leftarrow> fcb_add p FCB_TYPE_PIPE s;
     let (k, s) = pipe_add r (EVT_SENDER (m_evt m)) s;
     _ \<leftarrow> at (fcbs s) r;
     Some (Ret r None, upd_fcb r (\<lambda>f. f\<lparr>f_storage := k\<rparr>) s)
   }"

definition h_pipe :: handler where
  "h_pipe v a m s = do {
     let (p, s) = pipe_add (- 1) (EVT_SENDER (m_evt m)) s;
     (j, s) \<leftarrow> taskctx_open (Some a) p (O_RDONLY OR O_FIFO) 0 0 s;
     (k, s) \<leftarrow> taskctx_open (Some a) p (O_WRONLY OR O_APPEND OR O_FIFO) 0 0 s;
     let r = (if fs_errno s = SUCCESS \<and> j \<noteq> 0 \<and> k \<noteq> 0 then [Num j, Num k] else [Num (- 1), Num (fs_errno s)]);
     Some (Finished, clear_msg a (reply m (r @ [Num (EVT_FUNC (m_evt m)), Num (m_serial m)]) s))
   }"

text \<open>The standard channels of a task are connected to a window.\<close>

definition h_getty :: handler where
  "h_getty v a m s = do {
     (tc, s) \<leftarrow> taskctx_get (m_arg0 m) s;
     case tc of
       None \<Rightarrow> Some (Ret 0 None, s)
     | Some b \<Rightarrow> do {
         (_, s) \<leftarrow> taskctx_close (e_drv v) tc 1 False s;
         (_, s) \<leftarrow> taskctx_close (e_drv v) tc 2 False s;
         (_, s) \<leftarrow> taskctx_close (e_drv v) tc 3 False s;
         let (p, s) = pipe_add (- 1) (m_arg0 m) s;
         if \<not> found p s then Some (Ret 0 None, s)
         else do {
           (j, s) \<leftarrow> taskctx_open tc p (O_RDONLY OR O_FIFO OR OF_MODE_TTY) 0 1 s;
           let s = (if j \<noteq> 0 then upd_of b j (\<lambda>e. e\<lparr>o_offs := m_arg1 m\<rparr>) s else s);
           (_, s) \<leftarrow> taskctx_open tc (m_arg1 m) (O_WRONLY OR O_APPEND OR OF_MODE_TTY) 0 2 s;
           (_, s) \<leftarrow> taskctx_open tc (m_arg1 m) (O_WRONLY OR O_APPEND OR OF_MODE_TTY) 0 3 s;
           Some (Ret 0 None, s)
         }
       }
   }"

text \<open>Keys for a task: the descriptor after its standard input is the one that is written to.\<close>

definition h_evtty :: handler where
  "h_evtty v a m s = do {
     (tc, s) \<leftarrow> taskctx_get (m_arg2 m) s;
     if \<not> taskctx_validfid tc 1 s then fails 0 EBADF s
     else do {
       let j = length (cstring (bytes_at (fmem s) (e_args v) 48));
       if j = 0 then Some (Ret 0 None, s)
       else do {
         b \<leftarrow> tc;
         e \<leftarrow> get_of b 2 s;
         (ok, s) \<leftarrow> pipe_write (o_fid e) (e_args v) (of_nat j) s;
         Some (Ret (if ok then of_nat j else 0) None, s)
       }
     }
   }"

subsection \<open>Files\<close>

text \<open>The buffer with the name is freed, and it is answered when no descriptor could be opened.\<close>

definition h_tmpfile :: handler where
  "h_tmpfile v a m s =
     (if \<not> heap_ok s then Some (Ret (- 1) None, s)
      else do {
        t \<leftarrow> tctxs s a;
        (r, s) \<leftarrow> lookup (e_fuel v) (e_drv v) (Some (e_tmpname v (tc_pid t))) True 0 s;
        (r, s) \<leftarrow> (if found r s then taskctx_open (Some a) r (O_RDWR OR O_TMPFILE) 0 (- 1) s else Some (r, s));
        if r = 0 then None else Some (Ret r None, s)
      })"

definition h_fopen :: handler where
  "h_fopen v a m s = do {
     (r, s) \<leftarrow> find_path v m (ucast (m_arg2 m) AND O_CREAT \<noteq> 0) s;
     (r, s) \<leftarrow> (if \<not> found r s then Some (r, s)
       else do {
         f \<leftarrow> at (fcbs s) r;
         if f_type f = FCB_TYPE_REG_DIR \<or> f_type f = FCB_TYPE_UNION then Some (0, seterr EISDIR s)
         else do {
           (_, s) \<leftarrow> (if m_arg3 m \<noteq> - 1 then taskctx_close (e_drv v) (Some a) (m_arg3 m) True s else Some (True, s));
           f \<leftarrow> at (fcbs s) r;
           let p = getoffs (msg_path m s);
           let p = (if p <s 0 then p + f_filesize f else p);
           let p = (if ucast (m_arg2 m) AND O_APPEND \<noteq> 0 then f_filesize f else p);
           taskctx_open (Some a) r (ucast (m_arg2 m)) p (m_arg3 m) s
         }
       });
     Some (Ret (if r = - 1 then 0 else r) None, s)
   }"

definition on_fid :: "u64 \<Rightarrow> u64 \<Rightarrow> nat \<Rightarrow> (openfiles_t \<Rightarrow> fsstate \<Rightarrow> (hres \<times> fsstate) option) \<Rightarrow> fsstate
    \<Rightarrow> (hres \<times> fsstate) option" where
  "on_fid idx bad a g s =
     (if \<not> taskctx_validfid (Some a) idx s then fails bad EBADF s
      else do { e \<leftarrow> get_of a idx s; g e s })"

definition h_fclose :: handler where
  "h_fclose v a m s = on_fid (m_arg0 m) (- 1) a (\<lambda>e s. do {
     (ok, s) \<leftarrow> taskctx_close (e_drv v) (Some a) (m_arg0 m) False s;
     Some (Ret (if ok then 0 else - 1) None, s)
   }) s"

text \<open>All descriptors from the first to the last; closing the last one shortens the table.\<close>

partial_function (option) close_all :: "fsdrvs \<Rightarrow> nat \<Rightarrow> u64 \<Rightarrow> fsstate \<Rightarrow> fsstate option" where
  "close_all D a j s =
     Option.bind (tctxs s a) (\<lambda>t.
     if unat j < length (tc_openfiles t)
     then Option.bind (taskctx_close D (Some a) (j + 1) False s) (\<lambda>(_, s). close_all D a (j + 1) s)
     else Some s)"

definition h_fcloseall :: handler where
  "h_fcloseall v a m s = do {
     s \<leftarrow> close_all (e_drv v) a 0 s;
     s \<leftarrow> cache_flush s;
     s \<leftarrow> fcb_free s;
     Some (Ret 0 None, s)
   }"

definition h_fseek :: handler where
  "h_fseek v a m s = do {
     (ok, s) \<leftarrow> taskctx_seek (Some a) (m_arg0 m) (m_arg1 m) (ucast (m_arg2 m)) s;
     Some (Ret (if ok then 0 else - 1) None, if \<not> ok \<and> fs_errno s = 0 then seterr EINVAL s else s)
   }"

definition h_rewind :: handler where
  "h_rewind v a m s = on_fid (m_arg0 m) (- 1) a (\<lambda>e s.
     Some (Ret 0 None, upd_of a (m_arg0 m) (\<lambda>e. e\<lparr>o_offs := 0, o_unionidx := 0\<rparr>) s)) s"

definition h_ftell :: handler where
  "h_ftell v a m s = on_fid (m_arg0 m) 0 a (\<lambda>e s. Some (Ret (o_offs e) None, s)) s"

definition h_feof :: handler where
  "h_feof v a m s = on_fid (m_arg0 m) (- 1) a (\<lambda>e s.
     if o_mode e AND O_FIFO \<noteq> 0 then Some (Ret 0 None, s)
     else do {
       f \<leftarrow> at (fcbs s) (o_fid e);
       Some (Ret (if f_abspath f = None \<or> o_mode e AND OF_MODE_EOF \<noteq> 0 \<or> f_filesize f \<le> o_offs e then 1 else 0) None, s)
     }) s"

text \<open>The last descriptor of a task is not accepted here.\<close>

definition h_ferror :: handler where
  "h_ferror v a m s = do {
     t \<leftarrow> tctxs s a;
     if m_arg0 m = 0 \<or> length (tc_openfiles t) \<le> unat (m_arg0 m) then fails (- 1) EBADF s
     else
       let e = tc_openfiles t ! (unat (m_arg0 m) - 1) in
       Some (Ret (if o_fid e = - 1 \<or> o_mode e AND OF_MODE_EOF \<noteq> 0 \<or>
           (o_mode e AND O_FIFO \<noteq> 0 \<and> length (pipes s) \<le> unat (o_fid e)) \<or>
           length (fcbs s) \<le> unat (o_fid e) \<or> f_abspath (fcbs s ! unat (o_fid e)) = None then 1 else 0) None, s)
   }"

definition h_fclrerr :: handler where
  "h_fclrerr v a m s = on_fid (m_arg0 m) (- 1) a (\<lambda>e s.
     Some (Ret 0 None, upd_of a (m_arg0 m) (\<lambda>e. e\<lparr>o_mode := o_mode e AND 0xFFFF\<rparr>) s)) s"

definition h_dup :: handler where
  "h_dup v a m s = on_fid (m_arg0 m) (- 1) a (\<lambda>e s. do {
     (r, s) \<leftarrow> taskctx_open (Some a) (o_fid e) (o_mode e) (o_offs e) (- 1) s;
     Some (Ret r None, s)
   }) s"

definition h_dup2 :: handler where
  "h_dup2 v a m s = on_fid (m_arg0 m) (- 1) a (\<lambda>e s. do {
     t \<leftarrow> tctxs s a;
     used \<leftarrow> (if unat (m_arg1 m) \<le> length (tc_openfiles t)
              then map_option (\<lambda>e. o_fid e \<noteq> - 1) (get_of a (m_arg1 m) s) else Some False);
     (_, s) \<leftarrow> (if used then taskctx_close (e_drv v) (Some a) (m_arg1 m) True s else Some (True, s));
     e \<leftarrow> get_of a (m_arg0 m) s;
     (r, s) \<leftarrow> taskctx_open (Some a) (o_fid e) (o_mode e) (o_offs e) (m_arg1 m) s;
     Some (Ret r None, s)
   }) s"

definition BUFFSIZE :: u64 where "BUFFSIZE = 0x100000"

definition h_fread :: handler where
  "h_fread v a m s =
     (if MSG_ISPTR (m_evt m) then fails 0 EINVAL s
      else if BUFFSIZE \<le> m_arg1 m \<and> 0 <s m_arg0 m then fails 0 ENOTSHM s
      else if m_arg0 m = 0 \<or> m_arg1 m = 0
      then Some (Ret 0 None, if m_arg0 m = 0 \<and> 0 < m_arg1 m then seterr EINVAL s else s)
      else do {
        (r, s) \<leftarrow> taskctx_read (e_drv v) (Some a) (m_arg2 m) (m_arg0 m) (m_arg1 m) s;
        Some (Ret r None, s)
      })"

definition h_fwrite :: handler where
  "h_fwrite v a m s =
     (if \<not> taskctx_validfid (Some a) (m_arg2 m) s then fails 0 EBADF s
      else do {
        e \<leftarrow> get_of a (m_arg2 m) s;
        isdir \<leftarrow> (if o_mode e AND OF_MODE_TTY \<noteq> 0 then Some False
          else map_option (\<lambda>f. f_type f = FCB_TYPE_REG_DIR \<or> f_type f = FCB_TYPE_UNION) (at (fcbs s) (o_fid e)));
        if isdir then fails 0 EBADF s
        else if m_arg0 m = 0 \<or> m_arg1 m = 0
        then Some (Ret 0 None, if m_arg0 m = 0 \<and> 0 < m_arg1 m then seterr EINVAL s else s)
        else do {
          (r, s) \<leftarrow> taskctx_write (e_drv v) (Some a) (m_arg2 m) (m_arg0 m) (m_arg1 m) s;
          Some (Ret r None, s)
        }
      })"

definition h_fflush :: handler where
  "h_fflush v a m s = on_fid (m_arg0 m) (- 1) a (\<lambda>e s.
     if o_mode e AND O_WRITE = 0 then fails (- 1) EACCES s
     else if o_mode e AND OF_MODE_TTY \<noteq> 0 then Some (Ret 0 None, mq_send SRV_UI SYS_flush [Num (o_fid e)] s)
     else do {
       (ok, s) \<leftarrow> fcb_flush (e_drv v) (o_fid e) s;
       Some (Ret (if ok then 0 else - 1) None, s)
     }) s"

section \<open>The loop\<close>

definition handlers :: "(u64 \<times> handler) list" where
  "handlers = [(SYS_mknod, h_mknod), (SYS_ioctl, h_ioctl), (SYS_mount, h_mount), (SYS_umount, h_umount), (SYS_fsck, h_fsck),
     (SYS_chroot, h_chroot), (SYS_chdir, h_chdir), (SYS_getcwd, h_getcwd), (SYS_opendir, h_opendir),
     (SYS_readdir, h_readdir), (SYS_readlink, h_readlink), (SYS_realpath, h_realpath), (SYS_dstat, h_dstat),
     (SYS_fstat, h_fstat), (SYS_lstat, h_lstat), (SYS_mkfifo, h_mkfifo), (SYS_pipe, h_pipe), (SYS_getty, h_getty),
     (SYS_evtty, h_evtty), (SYS_tmpfile, h_tmpfile), (SYS_fopen, h_fopen), (SYS_fclose, h_fclose),
     (SYS_fcloseall, h_fcloseall), (SYS_fseek, h_fseek), (SYS_rewind, h_rewind), (SYS_ftell, h_ftell),
     (SYS_feof, h_feof), (SYS_ferror, h_ferror), (SYS_fclrerr, h_fclrerr), (SYS_dup, h_dup), (SYS_dup2, h_dup2),
     (SYS_fread, h_fread), (SYS_fwrite, h_fwrite), (SYS_fflush, h_fflush)]"

definition serve :: handler where
  "serve v a m s =
     (case map_of handlers (EVT_FUNC (m_evt m)) of
        Some h \<Rightarrow> h v a m s
      | None \<Rightarrow> fails (- 1) EPERM s)"

text \<open>
  Before a request is served: messages that need no context, and the context for the others. A block that
  arrived resumes the request that waited for it. The answer is the context and the message to serve.
\<close>

partial_function (option) del_devices :: "nat \<Rightarrow> u64 \<Rightarrow> fsstate \<Rightarrow> fsstate option" where
  "del_devices j pid s =
     (if j < length (devs s)
      then Option.bind (if d_drivertask (devs s ! j) = pid then devfs_del (of_nat j) s else Some s) (del_devices (Suc j) pid)
      else Some s)"

definition free_memory :: "fsstate \<Rightarrow> fsstate option" where
  "free_memory s = do {
     s \<leftarrow> fcb_free s;
     s \<leftarrow> cache_flush s;
     Some (s\<lparr>nomem := True\<rparr>)
   }"

definition ack_block :: "msg_t \<Rightarrow> fsstate \<Rightarrow> fsstate option" where
  "ack_block m s =
     (if length (devs s) \<le> unat (m_arg0 m) then Some s
      else do {
        f \<leftarrow> at (fcbs s) (d_fid (devs s ! unat (m_arg0 m)));
        if f_blksize f \<le> 1 then Some s
        else do {
          (clean, s) \<leftarrow> cache_cleardirty (m_arg0 m) (m_arg1 m) s;
          if clean \<and> nomem s then map_option (\<lambda>s. s\<lparr>nomem := False\<rparr>) (cache_free s) else Some s
        }
      })"

definition BLKPRIO_NOTDIRTY :: u8 where "BLKPRIO_NOTDIRTY = 0"

definition set_block :: "msg_t \<Rightarrow> fsstate \<Rightarrow> ((nat \<times> msg_t) option \<times> fsstate) option" where
  "set_block m s = do {
     (_, s) \<leftarrow> cache_setblock (m_arg3 m) (m_arg4 m) (Mem (m_arg0 m)) BLKPRIO_NOTDIRTY s;
     r \<leftarrow> tc_search (tctxs s) (m_arg5 m) (taskctx s (m_arg5 m AND 0xFF));
     let s = s\<lparr>ctx := r\<rparr>;
     case r of
       None \<Rightarrow> Some (None, s)
     | Some a \<Rightarrow> do {
         t \<leftarrow> tctxs s a;
         Some (if EVT_FUNC (m_evt (tc_msg t)) = 0 then None else Some (a, tc_msg t), s)
       }
   }"

definition task_exit :: "fsdrvs \<Rightarrow> msg_t \<Rightarrow> fsstate \<Rightarrow> fsstate option" where
  "task_exit D m s = do {
     (c, s) \<leftarrow> taskctx_get (m_arg0 m) s;
     let s = s\<lparr>ctx := c\<rparr>;
     case c of
       None \<Rightarrow> Some s
     | Some a \<Rightarrow> do {
         s \<leftarrow> close_all D a 0 s;
         t \<leftarrow> tctxs s a;
         s \<leftarrow> del_devices 0 (tc_pid t) s;
         fcb_free s
       }
   }"

definition mount_all :: "fsenv \<Rightarrow> fsstate \<Rightarrow> fsstate option" where
  "mount_all v s =
     (if rootmounted s then Some s
      else map_option (\<lambda>s. fold (\<lambda>p. mq_send p EVT_ack []) [SRV_UI, SRV_syslog, SRV_inet, SRV_sound, SRV_print, SRV_init] s)
        (mtab_fstab (e_drv v) (e_fstab v) s))"

definition take_message :: "fsenv \<Rightarrow> msg_t \<Rightarrow> fsstate \<Rightarrow> ((nat \<times> msg_t) option \<times> fsstate) option" where
  "take_message v m s =
     (let f = EVT_FUNC (m_evt m) in
      if f = SYS_mountfs then map_option (Pair None) (mount_all v s)
      else if f = SYS_nomem then map_option (Pair None) (free_memory s)
      else if f = SYS_ackblock then map_option (Pair None) (ack_block m s)
      else if f = SYS_setblock then set_block m s
      else if f = EVT_exit then map_option (Pair None) (task_exit (e_drv v) m s)
      else do {
        (c, s) \<leftarrow> taskctx_get (EVT_SENDER (m_evt m)) s;
        let s = s\<lparr>ctx := c\<rparr>;
        a \<leftarrow> c;
        Some (Some (a, m), upd_tc a (\<lambda>t. t\<lparr>tc_workleft := - 1\<rparr>) s)
      })"

text \<open>After a request was served: memory is freed when it runs short, and the answer is sent or put off.\<close>

definition answer :: "nat \<Rightarrow> msg_t \<Rightarrow> u64 \<Rightarrow> u8 list option \<Rightarrow> fsstate \<Rightarrow> fsstate" where
  "answer a m ret ptr s =
     (if ackdelayed s then upd_tc a (\<lambda>t. t\<lparr>tc_msg := m\<rparr>) s
      else clear_msg a
        (case (if ret = 0 then ptr else None) of
           Some p \<Rightarrow> mq_send (EVT_SENDER (m_evt m)) (EVT_ack OR MSG_PTRDATA)
             [Ptr (Blk (p @ [0])), Num (of_nat (length p + 1)), Num (EVT_FUNC (m_evt m)), Num (m_serial m)] s
         | None \<Rightarrow> reply m [Num ret, Num (fs_errno s), Num (EVT_FUNC (m_evt m)), Num (m_serial m)] s))"

definition main_step :: "fsenv \<Rightarrow> msg_t \<Rightarrow> fsstate \<Rightarrow> fsstate option" where
  "main_step v m s = do {
     (r, s) \<leftarrow> take_message v m (s\<lparr>fs_errno := SUCCESS, ackdelayed := nomem s\<rparr>);
     case r of
       None \<Rightarrow> Some s
     | Some (a, m) \<Rightarrow> do {
         (h, s) \<leftarrow> serve v a m s;
         case h of
           Finished \<Rightarrow> Some s
         | Ret ret ptr \<Rightarrow>
             if e_total v = 0 then None
             else do {
               s \<leftarrow> (if e_free v * 100 div e_total v < ucast (cachelimit s) \<or> fs_errno s = ENOMEM
                     then free_memory s else Some s);
               Some (answer a m ret ptr s)
             }
       }
   }"

definition main_init :: "u64 \<Rightarrow> u8 \<Rightarrow> u32 \<Rightarrow> u32 \<Rightarrow> fsdrvs \<Rightarrow> fsstate \<Rightarrow> (fsdrvs \<times> fsstate) option" where
  "main_init numsec logsec limit lines D s = do {
     s \<leftarrow> mtab_init s;
     (D, s) \<leftarrow> devfs_init numsec logsec D s;
     s \<leftarrow> cache_init limit lines s;
     Some (D, s\<lparr>nomem := False\<rparr>)
   }"

fun main_loop :: "(msg_t \<Rightarrow> fsenv) \<Rightarrow> msg_t list \<Rightarrow> fsstate \<Rightarrow> fsstate option" where
  "main_loop V [] s = Some s"
| "main_loop V (m # ms) s = Option.bind (main_step (V m) m s) (main_loop V ms)"

section \<open>Confinement\<close>

lemma fcb_del_keeps: "fcb_del f s = Some s' \<Longrightarrow> tctxs s' = tctxs s \<and> fs_errno s' = fs_errno s"
  by (auto simp: fcb_del_def)

lemma dir_path_open_ref [simp]: "dir_path (upd_tc a g (open_ref r s)) k = dir_path s k"
  by (auto simp: dir_path_def open_ref_def upd_fcb_def upd_tc_def at_def nth_update_at)

lemma not_outside_self [simp]: "\<not> outside p p"
  by (simp add: outside_def)

text \<open>
  C39. A task cannot leave its root directory by changing the working directory: after a change that
  succeeded, both directories exist and the path of the working directory starts with the path of the root,
  whatever path was asked for and whatever links it went through.
\<close>

theorem chdir_confined:
  assumes h: "h_chdir v a m s = Some (Ret 0 None, s')" and ok: "fs_errno s' = 0"
  shows "\<exists>t root work. tctxs s' a = Some t \<and> dir_path s' (tc_rootdir t) = Some root \<and>
    dir_path s' (tc_workdir t) = Some work \<and> \<not> outside work root"
proof -
  obtain r s1 where l: "find_path v m False s = Some (r, s1)"
    using h by (auto simp: h_chdir_def bind_eq_Some_conv)
  have fnd: "found r s1"
  proof (rule ccontr)
    assume n: "\<not> found r s1"
    then have "r = 0" "s' = s1" using h l by (simp_all add: h_chdir_def)
    with n ok show False by (simp add: found_def)
  qed
  define c where "c f \<longleftrightarrow> f_type f \<noteq> FCB_TYPE_REG_DIR \<and> f_type f \<noteq> FCB_TYPE_UNION" for f :: fcb_t
  from h l fnd obtain f where f: "at (fcbs s1) r = Some f"
    by (auto simp: h_chdir_def bind_eq_Some_conv)
  have nc: "\<not> c f"
    using h l fnd f by (auto simp: h_chdir_def fails_def c_def split: if_splits)
  from h l fnd f nc obtain t s2 p root where d: "tctxs s1 a = Some t" "fcb_del (tc_workdir t) s1 = Some s2"
    "dir_path s2 r = Some p" "dir_path s2 (tc_rootdir t) = Some root"
    unfolding h_chdir_def c_def by (auto simp: bind_eq_Some_conv simp del: de_Morgan_conj)
  define r' where "r' = (if outside p root then tc_rootdir t else r)"
  have s': "s' = upd_tc a (\<lambda>u. u\<lparr>tc_workdir := r'\<rparr>) (open_ref r' s2)"
    using h l fnd f nc d unfolding h_chdir_def c_def r'_def by (simp add: Let_def)
  have "tctxs s2 a = Some t" using fcb_del_keeps [OF d(2)] d(1) by simp
  then have "tctxs s' a = Some (t\<lparr>tc_workdir := r'\<rparr>)"
    by (simp add: s' upd_tc_def open_ref_def upd_fcb_def)
  moreover have "dir_path s' (tc_rootdir t) = Some root" using d(4) by (simp add: s')
  moreover have "dir_path s' r' = Some (if outside p root then root else p)"
    using d(3,4) by (simp add: s' r'_def)
  ultimately show ?thesis by (auto split: if_splits)
qed

declare del_run.simps [code]

definition sample_env :: fsenv where
  "sample_env = \<lparr>e_drv = [], e_fuel = 1, e_fstab = None, e_tmpname = (\<lambda>_. []), e_free = 0, e_total = 0, e_args = 0\<rparr>"

definition sample_dirs :: fsstate where
  "sample_dirs = sample_root\<lparr>fcbs := [zero_fcb\<lparr>f_abspath := Some [47], f_inode := 1, f_nopen := 2\<rparr>,
     zero_fcb\<lparr>f_abspath := Some (chars ''/tmp/''), f_type := FCB_TYPE_REG_DIR, f_inode := 2\<rparr>],
     fmem := (\<lambda>a. [47, 116, 109, 112, 0] ! (unat a - 64))\<rparr>"

theorem chdir_confined_witness:
  "\<exists>s' t root work. h_chdir sample_env 0 (zero_msg\<lparr>m_arg0 := 64, m_arg1 := 5\<rparr>) sample_dirs = Some (Ret 0 None, s') \<and>
     tctxs s' 0 = Some t \<and> dir_path s' (tc_rootdir t) = Some root \<and> dir_path s' (tc_workdir t) = Some work \<and>
     \<not> outside work root"
proof -
  let ?r = "h_chdir sample_env 0 (zero_msg\<lparr>m_arg0 := 64, m_arg1 := 5\<rparr>) sample_dirs"
  have "map_option fst ?r = Some (Ret 0 None)" "map_option (\<lambda>r. fs_errno (snd r)) ?r = Some 0"
    by code_simp+
  then obtain s' where s': "?r = Some (Ret 0 None, s')" "fs_errno s' = 0" by auto
  from chdir_confined [OF s'] s'(1) show ?thesis by blast
qed

end
