(* ===== verification/Fs_Fsz.thy ===== *)
theory Fs_Fsz
  imports Fs_Taskctx Libc_Crc32
begin

text \<open>
  The FS/Z driver, \<^verbatim>\<open>drivers/fs/fsz/main.c\<close>, with the structures of \<^verbatim>\<open>osZ/fsZ.h\<close>. Structures are read from the bytes of
  a block at the offsets of their fields; reading outside of a block of the heap is a run that does not come
  back (\<open>None\<close>). The argument \<open>D\<close> is the table of drivers that \<open>readblock\<close> needs when the storage is an image file.
\<close>

section \<open>Structures on the disk\<close>

definition bp_add :: "bptr \<Rightarrow> nat \<Rightarrow> bptr" where
  "bp_add p k = (case p of Mem a \<Rightarrow> Mem (a + of_nat k) | Blk xs \<Rightarrow> Blk (drop k xs))"

definition rd :: "fsstate \<Rightarrow> bptr \<Rightarrow> nat \<Rightarrow> nat \<Rightarrow> u8 list option" where
  "rd s p off n =
     (case p of Mem a \<Rightarrow> Some (bytes_at (fmem s) (a + of_nat off) n)
      | Blk xs \<Rightarrow> if off + n \<le> length xs then Some (take n (drop off xs)) else None)"

definition of_le :: "u8 list \<Rightarrow> 'a::len word" where
  "of_le bs = foldr (\<lambda>b w. push_bit 8 w OR ucast b) bs 0"

definition to_le :: "nat \<Rightarrow> 'a::len word \<Rightarrow> u8 list" where
  "to_le n w = map (\<lambda>i. ucast (drop_bit (8 * i) w)) [0..<n]"

definition rd64 :: "fsstate \<Rightarrow> bptr \<Rightarrow> nat \<Rightarrow> u64 option" where "rd64 s p off = map_option of_le (rd s p off 8)"

definition FSZ_MAGIC :: "u8 list" where "FSZ_MAGIC = chars ''FS/Z''"
definition FSZ_IN_MAGIC :: "u8 list" where "FSZ_IN_MAGIC = chars ''FSIN''"
definition FSZ_DIR_MAGIC :: "u8 list" where "FSZ_DIR_MAGIC = chars ''FSDR''"
definition FSZ_FILETYPE_DIR :: "u8 list" where "FSZ_FILETYPE_DIR = chars ''dir:''"
definition FSZ_FILETYPE_UNION :: "u8 list" where "FSZ_FILETYPE_UNION = chars ''uni:''"
definition FSZ_FILETYPE_SYMLINK :: "u8 list" where "FSZ_FILETYPE_SYMLINK = chars ''lnk:''"
definition FSZ_FILETYPE_REG_APP :: "u8 list" where "FSZ_FILETYPE_REG_APP = chars ''appl''"

definition FSZ_IN_FLAG_INLINE :: u64 where "FSZ_IN_FLAG_INLINE = 0xFF"
definition FSZ_IN_FLAG_DIRECT :: u64 where "FSZ_IN_FLAG_DIRECT = 0"
definition FSZ_IN_FLAG_SDINLINE :: u64 where "FSZ_IN_FLAG_SDINLINE = 0x7F"
definition FSZ_IN_FLAG_SECLIST :: u64 where "FSZ_IN_FLAG_SECLIST = 0x80"
definition FSZ_IN_FLAG_SECLIST2 :: u64 where "FSZ_IN_FLAG_SECLIST2 = 0x83"
definition FSZ_FLAG_TRANSLATION :: "u64 \<Rightarrow> u64" where "FSZ_FLAG_TRANSLATION x = x AND 0xFF"
definition MAXINDIRECT :: u64 where "MAXINDIRECT = 8"

text \<open>The superblock; the magic numbers and the checksum are only used by \<open>fsz_detect\<close>.\<close>

definition sb_biginode :: "fsstate \<Rightarrow> bptr \<Rightarrow> bool option" where
  "sb_biginode s sb = map_option (\<lambda>b. (hd b :: u8) AND 1 \<noteq> 0) (rd s sb 518 1)"
definition sb_numsec :: "fsstate \<Rightarrow> bptr \<Rightarrow> u64 option" where "sb_numsec s sb = rd64 s sb 528"
definition sb_freesec :: "fsstate \<Rightarrow> bptr \<Rightarrow> u64 option" where "sb_freesec s sb = rd64 s sb 544"
definition sb_rootdirfid :: "fsstate \<Rightarrow> bptr \<Rightarrow> u64 option" where "sb_rootdirfid s sb = rd64 s sb 560"
definition sb_freesecfid :: "fsstate \<Rightarrow> bptr \<Rightarrow> u64 option" where "sb_freesecfid s sb = rd64 s sb 576"

text \<open>The fields of an inode the driver uses. The current version and the five older ones have the same layout.\<close>

record fsz_inode =
  in_magic :: "u8 list"
  in_filetype :: "u8 list"
  in_changedate :: u64
  in_accessdate :: u64
  in_numblocks :: u64
  in_numlinks :: u64
  in_sec :: u64
  in_size :: u64
  in_modifydate :: u64
  in_flags :: u64

definition rd_inode :: "fsstate \<Rightarrow> bptr \<Rightarrow> fsz_inode option" where
  "rd_inode s p = do {
     m \<leftarrow> rd s p 0 4; t \<leftarrow> rd s p 8 4; cd \<leftarrow> rd64 s p 80; ad \<leftarrow> rd64 s p 88; nb \<leftarrow> rd64 s p 96; nl \<leftarrow> rd64 s p 104;
     sec \<leftarrow> rd64 s p 448; sz \<leftarrow> rd64 s p 464; md \<leftarrow> rd64 s p 480; fl \<leftarrow> rd64 s p 488;
     Some \<lparr>in_magic = m, in_filetype = t, in_changedate = cd, in_accessdate = ad, in_numblocks = nb, in_numlinks = nl,
       in_sec = sec, in_size = sz, in_modifydate = md, in_flags = fl\<rparr>
   }"

definition inline_off :: "bool \<Rightarrow> nat" where "inline_off big = (if big then 2048 else 1024)"

definition inlinedata :: "fsstate \<Rightarrow> bptr \<Rightarrow> bptr \<Rightarrow> bptr option" where
  "inlinedata s sb p = map_option (\<lambda>big. bp_add p (inline_off big)) (sb_biginode s sb)"

text \<open>
  Writing into a block through the pointer \<open>readblock\<close> returned: the ram disk is changed in place, and so is a block of the cache.
  For an image file only the copy in hand changes.
\<close>

definition splice :: "nat \<Rightarrow> u8 list \<Rightarrow> u8 list \<Rightarrow> u8 list" where
  "splice off xs ys = take off ys @ xs @ drop (off + length xs) ys"

definition poke :: "u64 \<Rightarrow> u64 \<Rightarrow> bptr \<Rightarrow> nat \<Rightarrow> u8 list \<Rightarrow> fsstate \<Rightarrow> bptr \<times> fsstate" where
  "poke fd lsn p off xs s =
     (case p of Mem a \<Rightarrow> (p, s\<lparr>fmem := put_bytes (a + of_nat off) xs (fmem s)\<rparr>)
      | Blk ys \<Rightarrow> (Blk (splice off xs ys), s\<lparr>cnodes := (\<lambda>a. map_option
          (\<lambda>n. if CACHE_FD (c_fd n) = fd \<and> c_lsn n = lsn then n\<lparr>c_blk := splice off xs (c_blk n)\<rparr> else n) (cnodes s a))\<rparr>))"

section \<open>Recognising and resizing\<close>

definition fsz_resizefs :: "fsdrvs \<Rightarrow> u64 \<Rightarrow> unit fsop" where
  "fsz_resizefs D fd s = do {
     (b, s) \<leftarrow> readblock D fd 0 s;
     sb \<leftarrow> b;
     f \<leftarrow> at (fcbs s) fd;
     if f_blksize f = 0 then None
     else do {
       let (sb, s) = poke fd 0 sb 528 (to_le 8 (f_filesize f div ucast (f_blksize f))) s;
       (_, s) \<leftarrow> writeblock D fd 0 sb BLKPRIO_CRIT s;
       Some ((), s)
     }
   }"

text \<open>The block size is a 32 bit number; sizes of 2G and more are not defined in the code and zero here.\<close>

definition fsz_detect :: "fsdrvs \<Rightarrow> u64 \<Rightarrow> bptr \<Rightarrow> bool fsop" where
  "fsz_detect D fd blk s = do {
     m \<leftarrow> rd s blk 512 4; m2 \<leftarrow> rd s blk 1016 4; c \<leftarrow> rd s blk 1020 4; body \<leftarrow> rd s blk 512 508;
     if m = FSZ_MAGIC \<and> m2 = FSZ_MAGIC \<and> of_le c = crc32a_calc body
     then do {
       l \<leftarrow> rd s blk 520 2; n \<leftarrow> sb_numsec s blk;
       let s = upd_fcb fd (\<lambda>f. f\<lparr>f_blksize := push_bit (unat (of_le l :: u16) + 11) 1\<rparr>) s;
       f \<leftarrow> at (fcbs s) fd;
       if f_filesize f \<noteq> n * ucast (f_blksize f) then do { (_, s) \<leftarrow> fsz_resizefs D fd s; Some (True, s) }
       else Some (True, s)
     }
     else Some (False, s)
   }"

definition fsz_checkfs :: "u64 \<Rightarrow> bool fsop" where
  "fsz_checkfs fd s = Some (fk_dev (fsck s) = fd, s)"

section \<open>Allocation\<close>

text \<open>
  \<open>k\<close> counts the bytes that are left of the list. An entry is taken from the front of the first run that is not empty. The block
  that is written back goes to the sector that was read last, not to the sector of the list. Cached blocks are
  aligned to their size.
\<close>

definition take_run :: "fsdrvs \<Rightarrow> u64 \<Rightarrow> u64 \<Rightarrow> bptr \<Rightarrow> u64 \<Rightarrow> nat \<Rightarrow> int \<Rightarrow> u64 \<Rightarrow> u64 fsop" where
  "take_run D fd inlsn p bs q k n s = do {
     i \<leftarrow> rd64 s p q;
     (b, s) \<leftarrow> readblock D fd i s;
     case b of None \<Rightarrow> Some (- 1, s)
     | Some _ \<Rightarrow> do {
         sz \<leftarrow> rd64 s p 464;
         let (p, s) = poke fd inlsn p 464 (to_le 8 (sz - bs)) s;
         let (p, s) = poke fd inlsn p q (to_le 8 (i + 1)) s;
         let (p, s) = poke fd inlsn p (q + 16) (to_le 8 (n - 1)) s;
         (p, s) \<leftarrow> (if n - 1 = 0
           then if k < 32 then None
                else map_option (\<lambda>xs. poke fd inlsn p q xs s) (rd s p (q + 32) (nat (k - 32)))
           else Some (p, s));
         (_, s) \<leftarrow> writeblock D fd (lastsec s) p BLKPRIO_CRIT s;
         Some (i, s)
       }
   }"

function free_run :: "fsdrvs \<Rightarrow> u64 \<Rightarrow> u64 \<Rightarrow> bptr \<Rightarrow> u64 \<Rightarrow> nat \<Rightarrow> int \<Rightarrow> (u64 option) fsop" where
  "free_run D fd inlsn p bs q k s =
     (if k < 0 then Some (None, s)
      else do {
        n \<leftarrow> rd64 s p (q + 16);
        if n = 0 then free_run D fd inlsn p bs (q + 32) (k - 32) s
        else map_option (\<lambda>(i, s). (Some i, s)) (take_run D fd inlsn p bs q k n s)
      })"
  by pat_completeness auto
termination
  by (relation "measure (\<lambda>(D, fd, inlsn, p, bs, q, k, s). nat (k + 32))") auto

declare free_run.simps [simp del]

definition free_end :: "fsdrvs \<Rightarrow> u64 \<Rightarrow> bptr \<Rightarrow> u64 fsop" where
  "free_end D fd sb s = do {
     fs \<leftarrow> sb_freesec s sb; ns \<leftarrow> sb_numsec s sb;
     if fs < ns
     then do {
       (b, s) \<leftarrow> readblock D fd fs s;
       case b of None \<Rightarrow> Some (- 1, s)
       | Some _ \<Rightarrow> do {
           let (sb, s) = poke fd 0 sb 544 (to_le 8 (fs + 1)) s;
           (_, s) \<leftarrow> writeblock D fd 0 sb BLKPRIO_CRIT s;
           Some (fs, s)
         }
     }
     else Some (- 1, s)
   }"

definition fsz_allocateblock :: "fsdrvs \<Rightarrow> u64 \<Rightarrow> u64 fsop" where
  "fsz_allocateblock D fd s = do {
     (b, s) \<leftarrow> readblock D fd 0 s;
     f \<leftarrow> at (fcbs s) fd;
     case b of None \<Rightarrow> Some (- 1, s)
     | Some sb \<Rightarrow> do {
         let bs = (ucast (f_blksize f) :: u64);
         l \<leftarrow> sb_freesecfid s sb;
         if l = 0 then free_end D fd sb s
         else do {
           (b, s) \<leftarrow> readblock D fd l s;
           case b of None \<Rightarrow> Some (- 1, s)
           | Some p \<Rightarrow> do {
               i \<leftarrow> rd_inode s p;
               big \<leftarrow> sb_biginode s sb;
               let k = bs - of_nat (inline_off big);
               if in_magic i \<noteq> FSZ_IN_MAGIC then Some (- 1, s)
               else if k = 0 \<or> in_size i = 0 then free_end D fd sb s
               else do {
                 (r, s) \<leftarrow> free_run D fd l p bs (inline_off big) (sint k) s;
                 case r of Some i \<Rightarrow> Some (i, s) | None \<Rightarrow> free_end D fd sb s
               }
             }
         }
       }
   }"

section \<open>Attributes\<close>

definition S_IFREG :: u32 where "S_IFREG = 0"
definition S_IFLNK :: u32 where "S_IFLNK = 0x01000000"

text \<open>The text of a symbolic link; the inline data reaches to the end of the inode.\<close>

definition link_text :: "fsstate \<Rightarrow> bptr \<Rightarrow> u8 list" where
  "link_text s p = (case p of Mem a \<Rightarrow> cstring (bytes_at (fmem s) a 3072) | Blk xs \<Rightarrow> cstring xs)"

definition stat_mode :: "u8 list \<Rightarrow> u32 \<Rightarrow> u32" where
  "stat_mode t m =
     (let m = (if t = FSZ_FILETYPE_SYMLINK then (m AND NOT S_IFMT) OR S_IFREG OR S_IFLNK else m);
          m = (if t = FSZ_FILETYPE_UNION then (m AND NOT S_IFMT) OR S_IFDIR OR S_IFUNI else m)
      in if t = FSZ_FILETYPE_DIR then (m AND NOT S_IFMT) OR S_IFDIR else m)"

text \<open>The type is copied with 44 bytes from a field of 36, so that the first bytes of the next field follow.\<close>

definition fsz_stat :: "fsdrvs \<Rightarrow> u64 \<Rightarrow> u64 \<Rightarrow> stat_t \<Rightarrow> (bool \<times> stat_t \<times> u8 list option) fsop" where
  "fsz_stat D fd file st s = do {
     (sb, s) \<leftarrow> readblock D fd 0 s;
     (b, s) \<leftarrow> readblock D fd file s;
     case (at (fcbs s) fd, b) of
       (Some f, Some p) \<Rightarrow>
         if f_blksize f = 0 then Some ((False, st, None), s)
         else do {
           i \<leftarrow> rd_inode s p;
           if in_magic i \<noteq> FSZ_IN_MAGIC then Some ((False, st, None), s)
           else do {
             mime \<leftarrow> rd s p 12 44; owner \<leftarrow> rd s p 496 16;
             link \<leftarrow> (if in_filetype i = FSZ_FILETYPE_SYMLINK
               then do { sb \<leftarrow> sb; q \<leftarrow> inlinedata s sb p; Some (Some (link_text s q)) } else Some None);
             Some ((True, st\<lparr>st_type := in_filetype i,
               st_mime := (if in_filetype i ! 3 \<noteq> 58 then mime else st_mime st),
               st_mode := stat_mode (in_filetype i) (st_mode st), st_nlink := in_numlinks i, st_owner := owner,
               st_size := in_size i, st_blocks := in_numblocks i, st_atime := in_accessdate i,
               st_ctime := in_changedate i, st_mtime := in_modifydate i\<rparr>, link), s)
           }
         }
     | _ \<Rightarrow> Some ((False, st, None), s)
   }"

section \<open>Reading\<close>

text \<open>Size, sector and mapping of a version; the current one is number 0.\<close>

definition version :: "fsstate \<Rightarrow> bptr \<Rightarrow> u32 \<Rightarrow> (u64 \<times> u64 \<times> u64) option" where
  "version s p ver = do {
     let b = 448 - 64 * unat ver;
     sec \<leftarrow> rd64 s p b; sz \<leftarrow> rd64 s p (b + 16); fl \<leftarrow> rd64 s p (b + 40);
     Some (sz, sec, FSZ_FLAG_TRANSLATION fl)
   }"

text \<open>
  The walk through the levels of sector directories: \<open>n\<close> levels are left, an entry of the next one covers \<open>j\<close> bytes. The
  results: a hole, a block that is not there, the block.
\<close>

datatype sdres = SdHole | SdWait | SdBlk bptr

fun sd_walk :: "nat \<Rightarrow> fsdrvs \<Rightarrow> u64 \<Rightarrow> u64 \<Rightarrow> u64 \<Rightarrow> u64 \<Rightarrow> bptr \<Rightarrow> sdres fsop" where
  "sd_walk 0 D fd bs offs j b s = Some (SdBlk b, s)"
| "sd_walk (Suc n) D fd bs offs j b s =
     (if j = 0 then None
      else do {
        i \<leftarrow> rd64 s b (16 * unat (offs div j));
        if i = 0 then Some (SdHole, s)
        else do {
          (b, s) \<leftarrow> readblock D fd i s;
          case b of None \<Rightarrow> Some (SdWait, s)
          | Some b \<Rightarrow> sd_walk n D fd bs offs (j div bs) b (s\<lparr>lastsec := i\<rparr>)
        }
      })"

text \<open>Files whose data is found through sector directories; \<open>b\<close> is the first of them.\<close>

definition sd_read :: "fsdrvs \<Rightarrow> u64 \<Rightarrow> u64 \<Rightarrow> u64 \<Rightarrow> u64 \<Rightarrow> bptr \<Rightarrow> u64 \<Rightarrow> u64 \<Rightarrow> (bptr option \<times> u64) fsop" where
  "sd_read D fd bs l sz b offs n s =
     (let first = offs < bs;
          n = (if first \<and> bs - offs < n then bs - offs else n);
          offs = (if first then 0 else offs div bs * bs);
          over = (\<not> first \<and> sz < offs + n);
          n = (if over then sz - offs else n)
      in if over \<and> n = 0 then Some ((None, 0), s)
         else do {
           (r, s) \<leftarrow> sd_walk (unat l) D fd bs offs (bs ^ unat l) b s;
           Some (case r of SdHole \<Rightarrow> (None, n) | SdWait \<Rightarrow> (None, 0)
             | SdBlk b \<Rightarrow> (Some (bp_add b (unat (offs mod bs))), n), s)
         })"

definition file_read ::
    "fsdrvs \<Rightarrow> u64 \<Rightarrow> bptr \<Rightarrow> bptr \<Rightarrow> fsz_inode \<Rightarrow> u64 \<times> u64 \<times> u64 \<Rightarrow> u64 \<Rightarrow> u64 \<Rightarrow> (bptr option \<times> u64) fsop" where
  "file_read D fd sb p i v offs n s = (case v of (sz, sec, l) \<Rightarrow>
     if sz < offs then Some ((None, 0), s)
     else let n' = (if sz < offs + n then sz - offs else n)
          in if sz < offs + n \<and> n' = 0 then Some ((None, 0), s)
             else do {
               q \<leftarrow> inlinedata s sb p;
               f \<leftarrow> at (fcbs s) fd;
               let bs = (ucast (f_blksize f) :: u64);
               if l = FSZ_IN_FLAG_INLINE \<or> in_filetype i = FSZ_FILETYPE_SYMLINK \<or> in_filetype i = FSZ_FILETYPE_UNION
               then Some ((Some (bp_add q (unat offs)), n'), s)
               else if l = FSZ_IN_FLAG_SDINLINE
               then do {
                 e \<leftarrow> rd64 s q (16 * unat (offs div bs));
                 if e = 0 then Some ((None, n'), s)
                 else do {
                   (b, s) \<leftarrow> readblock D fd sec s;
                   Some (case b of None \<Rightarrow> (None, 0) | Some b \<Rightarrow> (Some b, n'), s)
                 }
               }
               else if sec = 0 then Some ((None, n'), s)
               else do {
                 (b, s) \<leftarrow> readblock D fd sec s;
                 case b of None \<Rightarrow> Some ((None, 0), s)
                 | Some b \<Rightarrow>
                     let s = s\<lparr>lastsec := sec\<rparr>
                     in if l = FSZ_IN_FLAG_DIRECT then Some ((Some (bp_add b (unat offs)), n'), s)
                        else sd_read D fd bs l sz b offs n' s
               }
             })"

definition fsz_read :: "fsdrvs \<Rightarrow> u64 \<Rightarrow> u64 \<Rightarrow> u32 \<Rightarrow> u64 \<Rightarrow> u64 \<Rightarrow> (bptr option \<times> u64) fsop" where
  "fsz_read D fd file ver offs n s = do {
     (sb, s) \<leftarrow> readblock D fd 0 s;
     (b, s) \<leftarrow> readblock D fd file s;
     if file = 0 \<or> (case at (fcbs s) fd of None \<Rightarrow> True | Some f \<Rightarrow> f_blksize f = 0) then Some ((None, 0), s)
     else case (sb, b) of
       (Some sb, Some p) \<Rightarrow> do {
         i \<leftarrow> rd_inode s p;
         if in_magic i \<noteq> FSZ_IN_MAGIC then Some ((None, 0), s)
         else if 5 < ver then Some ((None, 0), s\<lparr>lastsec := file\<rparr>)
         else do {
           v \<leftarrow> version s p ver;
           file_read D fd sb p i v offs n (s\<lparr>lastsec := file\<rparr>)
         }
       }
     | _ \<Rightarrow> Some ((None, 0), s)
   }"

text \<open>A name is closed by a zero within its entry.\<close>

definition entry_name :: "fsstate \<Rightarrow> bptr \<Rightarrow> nat \<Rightarrow> u8 list option" where
  "entry_name s b q = do { xs \<leftarrow> rd s b (q + 17) 111; if 0 \<in> set xs then Some (cstring xs) else None }"

definition fsz_getdirent :: "bptr option \<Rightarrow> u64 \<Rightarrow> dirent_t \<Rightarrow> (u64 \<times> dirent_t) fsop" where
  "fsz_getdirent buf offs de s =
     (case buf of None \<Rightarrow> Some ((0, de), s)
      | Some b \<Rightarrow> do {
          m \<leftarrow> (if offs = 0 then rd s b 0 4 else Some FSZ_DIR_MAGIC);
          if m \<noteq> FSZ_DIR_MAGIC then Some ((0, de), s)
          else do {
            let q = (if offs = 0 then 128 else 0);
            fid \<leftarrow> rd64 s b q; c \<leftarrow> rd s b (q + 17) 1;
            if fid = 0 \<or> hd c = 0 then Some ((0, de), s)
            else do {
              name \<leftarrow> entry_name s b q; k \<leftarrow> rd s b (q + 16) 1;
              Some ((of_nat (q + 128), de\<lparr>de_ino := fid, de_len := ucast (hd k),
                de_name := name @ drop (length name) (de_name de)\<rparr>), s)
            }
          }
        })"

section \<open>Searching a path\<close>

text \<open>
  \<^verbatim>\<open>strcpy\<close> into the path buffer, the length of the first component with its slash, and the first block of a
  directory. Only the first entry of each level of sector directories is followed.
\<close>

definition strcpy_at :: "nat \<Rightarrow> u8 list \<Rightarrow> u8 list \<Rightarrow> u8 list" where
  "strcpy_at k xs buf = splice k (xs @ [0]) buf"

definition comp_len :: "u8 list \<Rightarrow> nat" where
  "comp_len p =
     (let n = length (takeWhile (\<lambda>c. c \<noteq> 47 \<and> \<not> PATHEND c) p) in if ch p n = 47 then n + 1 else n)"

definition is_updir :: "u8 list \<Rightarrow> bool" where
  "is_updir p \<longleftrightarrow> 2 \<le> comp_len p \<and> ch p 0 = 46 \<and> ch p 1 = 46 \<and> ch p 2 \<noteq> 46"

text \<open>Whether bytes of a block are the given ones; the comparison stops at the first difference.\<close>

fun same_at :: "fsstate \<Rightarrow> bptr \<Rightarrow> nat \<Rightarrow> u8 list \<Rightarrow> bool option" where
  "same_at s b k [] = Some True"
| "same_at s b k (x # xs) = do { c \<leftarrow> rd s b k 1; if hd c = x then same_at s b (k + 1) xs else Some False }"

fun sd_first :: "nat \<Rightarrow> fsdrvs \<Rightarrow> u64 \<Rightarrow> bptr \<Rightarrow> (bptr option) fsop" where
  "sd_first 0 D fd b s = Some (Some b, s)"
| "sd_first (Suc n) D fd b s = do {
     i \<leftarrow> rd64 s b 0;
     if i = 0 then Some (None, s)
     else do {
       (b, s) \<leftarrow> readblock D fd i s;
       case b of None \<Rightarrow> Some (None, s) | Some b \<Rightarrow> sd_first n D fd b s
     }
   }"

text \<open>The block of the inode's data, or the answer; a sector list leaves what the last directory left.\<close>

definition dir_block :: "fsdrvs \<Rightarrow> u64 \<Rightarrow> fsz_inode \<Rightarrow> bptr \<Rightarrow> bptr option \<Rightarrow> (u64 + bptr option) fsop" where
  "dir_block D fd i inl old s =
     (let l = FSZ_FLAG_TRANSLATION (in_flags i) in
      if l = FSZ_IN_FLAG_INLINE then Some (Inr (Some inl), s)
      else if FSZ_IN_FLAG_SECLIST \<le> l \<and> l \<le> FSZ_IN_FLAG_SECLIST2 then Some (Inr old, s)
      else if l \<noteq> FSZ_IN_FLAG_SDINLINE \<and> in_sec i = 0 then Some (Inl NOBLOCK, s)
      else do {
        (b, s) \<leftarrow> (if l = FSZ_IN_FLAG_SDINLINE then Some (Some inl, s) else readblock D fd (in_sec i) s);
        case b of None \<Rightarrow> Some (Inl NOBLOCK, s)
        | Some b \<Rightarrow>
            let l = (if l = FSZ_IN_FLAG_SDINLINE then 1 else l)
            in if MAXINDIRECT \<le> l then Some (Inl FSERROR, s)
               else do {
                 (b, s) \<leftarrow> sd_first (unat l) D fd b s;
                 Some (case b of None \<Rightarrow> Inl NOBLOCK | Some b \<Rightarrow> Inr (Some b), s)
               }
      })"

text \<open>
  The entries of a directory, of which \<open>i\<close> are left and the last one seen is at \<open>q\<close>. The search in a subdirectory, for the joker,
  is the argument \<open>sub\<close>; it shares the path buffer and the stack. Entries behind the end of the first
  block are looked for in the memory behind it.
\<close>

datatype scan = NotHere | Enter u64 | Answer u64

type_synonym search = "(u64 \<times> locate_t \<times> pathstack_t list) fsop"

fun scan_dir ::
    "(u64 \<Rightarrow> locate_t \<Rightarrow> pathstack_t list \<Rightarrow> search) \<Rightarrow> bptr \<Rightarrow> nat \<Rightarrow> nat \<Rightarrow> nat \<Rightarrow> locate_t \<Rightarrow> pathstack_t list \<Rightarrow>
      (scan \<times> locate_t \<times> pathstack_t list) fsop" where
  "scan_dir sub b e q 0 loc st s = Some ((NotHere, loc, st), s)"
| "scan_dir sub b e q (Suc i) loc st s = do {
     let q = q + 128;
     let p = drop (l_off loc) (l_buf loc);
     c \<leftarrow> rd s b (q + 17) 1;
     if hd c = 0 then Some ((NotHere, loc, st), s)
     else if 3 \<le> e \<and> ch p 0 = 46 \<and> ch p 1 = 46 \<and> ch p 2 = 46
     then do {
       name \<leftarrow> entry_name s b q; fid \<leftarrow> rd64 s b q;
       if last name \<noteq> 47 then scan_dir sub b e q i loc st s
       else do {
         ((r, lo, st), s) \<leftarrow> sub fid (loc\<lparr>l_inode := 0, l_filesize := 0, l_fileblk := None,
           l_off := l_off loc + e, l_type := 0, l_creat := False\<rparr>) st s;
         let loc = loc\<lparr>l_buf := l_buf lo\<rparr>;
         if r \<noteq> 0 then scan_dir sub b e q i loc st s
         else if \<not> heap_ok s then Some ((Answer NOBLOCK, loc, st), s)
         else Some ((Answer 0, loc\<lparr>l_inode := l_inode lo, l_filesize := l_filesize lo, l_fileblk := l_fileblk lo,
           l_type := l_type lo,
           l_buf := strcpy_at (l_off loc) (name @ cstring (drop (l_off loc + e) (l_buf loc))) (l_buf loc)\<rparr>, st), s)
       }
     }
     else do {
       x \<leftarrow> same_at s b (q + 17) (take e p); fid \<leftarrow> rd64 s b q;
       if x then Some ((Enter fid, loc, st), s) else scan_dir sub b e q i loc st s
     }
   }"

text \<open>What happens in an inode that is not the end of a link: the end of the path, a union, or the block of its data.\<close>

definition found_end :: "u64 \<Rightarrow> fsz_inode \<Rightarrow> locate_t \<Rightarrow> locate_t" where
  "found_end lsn i loc = loc\<lparr>l_inode := lsn, l_filesize := in_size i,
     l_type := (if in_filetype i = FSZ_FILETYPE_DIR then FCB_TYPE_REG_DIR
                else if in_filetype i = FSZ_FILETYPE_UNION then FCB_TYPE_UNION else FCB_TYPE_REG_FILE)\<rparr>"

text \<open>The number of an allocated block is compared with a 32 bit constant, which it never is.\<close>

definition not_found :: "fsdrvs \<Rightarrow> u64 \<Rightarrow> u64 \<Rightarrow> locate_t \<Rightarrow> pathstack_t list \<Rightarrow> search" where
  "not_found D fd lsn loc st s =
     (if \<not> l_creat loc then Some ((NOTFOUND, loc, st), s)
      else do {
        (i, s) \<leftarrow> fsz_allocateblock D fd s;
        Some ((if i = NOFID then NOSPACE else NOTFOUND, loc\<lparr>l_inode := lsn\<rparr>, st), s)
      })"

text \<open>The start of every search: the superblock is read, and a search without a parent begins at the root.\<close>

definition enter_dir ::
    "(bptr \<Rightarrow> u64 \<Rightarrow> locate_t \<Rightarrow> pathstack_t list \<Rightarrow> search) \<Rightarrow> fsdrvs \<Rightarrow> u64 \<Rightarrow> u64 \<Rightarrow> locate_t \<Rightarrow> pathstack_t list \<Rightarrow> search" where
  "enter_dir dir D fd parent loc st s =
     (if (case at (fcbs s) fd of None \<Rightarrow> True | Some f \<Rightarrow> f_abspath f = None) then Some ((NOTFOUND, loc, st), s)
      else do {
        (sb, s) \<leftarrow> readblock D fd 0 s;
        case sb of None \<Rightarrow> Some ((NOBLOCK, loc, st), s)
        | Some sb \<Rightarrow> do {
            root \<leftarrow> sb_rootdirfid s sb;
            dir sb (if parent = 0 then root else parent) loc st s
          }
      })"

text \<open>
  One directory, from the label \<^verbatim>\<open>nextdir\<close>; \<open>nxt\<close> is the search in the next one. The parts: the entries of a directory, the data of
  an inode, and the whole. A copy of the rest of the path into itself, to the right, never finds its end.
\<close>

type_synonym dirsearch = "bptr \<Rightarrow> u64 \<Rightarrow> locate_t \<Rightarrow> pathstack_t list \<Rightarrow> search"

definition dir_entries ::
    "dirsearch \<Rightarrow> fsdrvs \<Rightarrow> u64 \<Rightarrow> bptr \<Rightarrow> u64 \<Rightarrow> nat \<Rightarrow> bptr \<Rightarrow> locate_t \<Rightarrow> pathstack_t list \<Rightarrow> search" where
  "dir_entries nxt D fd sb lsn e d loc st s = do {
     m \<leftarrow> rd s d 0 4; k \<leftarrow> rd64 s d 16;
     if m \<noteq> FSZ_DIR_MAGIC then Some ((FSERROR, loc, st), s)
     else do {
       ((r, loc, st), s) \<leftarrow> scan_dir (enter_dir nxt D fd) d e 0 (unat k) loc st s;
       case r of Enter fid \<Rightarrow> nxt sb fid (loc\<lparr>l_off := l_off loc + e\<rparr>) (pathpush lsn (l_off loc) st) s
       | Answer a \<Rightarrow> Some ((a, loc, st), s)
       | NotHere \<Rightarrow> not_found D fd lsn loc st s
     }
   }"

definition inode_data ::
    "dirsearch \<Rightarrow> fsdrvs \<Rightarrow> u64 \<Rightarrow> bptr \<Rightarrow> u64 \<Rightarrow> nat \<Rightarrow> fsz_inode \<Rightarrow> bptr \<Rightarrow> locate_t \<Rightarrow> pathstack_t list \<Rightarrow> search" where
  "inode_data nxt D fd sb lsn e i inl loc st s = do {
     (r, s) \<leftarrow> dir_block D fd i inl (l_fileblk loc) s;
     case r of Inl a \<Rightarrow> Some ((a, loc, st), s)
     | Inr blk \<Rightarrow>
         let loc = loc\<lparr>l_fileblk := blk\<rparr>
         in if in_filetype i = FSZ_FILETYPE_REG_APP then Some ((FILEINPATH, loc, st), s)
            else if in_filetype i \<noteq> FSZ_FILETYPE_DIR then not_found D fd lsn loc st s
            else do { d \<leftarrow> blk; dir_entries nxt D fd sb lsn e d loc st s }
   }"

definition dir_step :: "dirsearch \<Rightarrow> fsdrvs \<Rightarrow> u64 \<Rightarrow> dirsearch" where
  "dir_step nxt D fd sb lsn loc st s =
     (let p = drop (l_off loc) (l_buf loc); e = comp_len p in
      if is_updir p
      then (case pathpop st of
              (None, st) \<Rightarrow> Some ((UPDIR, loc, st), s)
            | (Some l, st) \<Rightarrow>
                let rest = cstring (drop e p)
                in if l_off loc + e < ps_path l \<and> ps_path l \<le> l_off loc + e + length rest then None
                   else nxt sb (ps_inode l) (loc\<lparr>l_off := ps_path l, l_buf := strcpy_at (ps_path l) rest (l_buf loc)\<rparr>) st s)
      else if lsn = 0 then Some ((NOBLOCK, loc, st), s)
      else do {
        (b, s) \<leftarrow> readblock D fd lsn s;
        case b of None \<Rightarrow> Some ((NOBLOCK, loc, st), s)
        | Some b \<Rightarrow> do {
            i \<leftarrow> rd_inode s b;
            inl \<leftarrow> inlinedata s sb b;
            if in_magic i \<noteq> FSZ_IN_MAGIC then Some ((FSERROR, loc, st), s)
            else if in_filetype i = FSZ_FILETYPE_SYMLINK then Some ((SYMINPATH, loc\<lparr>l_fileblk := Some inl\<rparr>, st), s)
            else if PATHEND (ch p 0) then Some ((0, found_end lsn i loc, st), s)
            else if in_filetype i = FSZ_FILETYPE_UNION then Some ((UNIONINPATH, loc\<lparr>l_fileblk := Some inl\<rparr>, st), s)
            else inode_data nxt D fd sb lsn e i inl loc st s
          }
      })"

text \<open>The second argument bounds the number of directories entered one after the other or within each other, \<open>z\<close> is the search behind it.\<close>

fun search_dir :: "dirsearch \<Rightarrow> nat \<Rightarrow> fsdrvs \<Rightarrow> u64 \<Rightarrow> dirsearch" where
  "search_dir z 0 D fd sb lsn loc st s = z sb lsn loc st s"
| "search_dir z (Suc n) D fd sb lsn loc st s = dir_step (search_dir z n D fd) D fd sb lsn loc st s"

text \<open>
  The operation of the driver. Each directory takes at least one character from the path, so that the length of the path is bound
  enough, and what comes behind the bound does not matter.
\<close>

definition fsz_locate :: "fsdrvs \<Rightarrow> u64 \<Rightarrow> u64 \<Rightarrow> locate_t \<Rightarrow> (u64 \<times> locate_t) fsop" where
  "fsz_locate D fd parent loc s = do {
     ((r, loc, _), s) \<leftarrow> enter_dir (search_dir (\<lambda>_ _ _ _ _. None) (length (l_path loc) + 1) D fd) D fd parent loc [] s;
     Some ((r, loc), s)
   }"

definition fsz_drv :: "fsdrvs \<Rightarrow> fsdrv_t" where
  "fsz_drv D = \<lparr>dr_name = Some (chars ''fsz''), dr_desc = chars ''FS/Z'', dr_detect = Some (fsz_detect D),
     dr_locate = Some (fsz_locate D), dr_resizefs = Some (fsz_resizefs D), dr_checkfs = Some fsz_checkfs,
     dr_stat = Some (fsz_stat D), dr_getdirent = Some fsz_getdirent, dr_read = Some (fsz_read D),
     dr_writetrb = None, dr_write = None, dr_writetre = None\<rparr>"

text \<open>The table of the running service, for image files that lie in each other up to a depth.\<close>

fun fsz_table :: "nat \<Rightarrow> fsdrvs" where
  "fsz_table 0 = [devdrv]"
| "fsz_table (Suc n) = [devdrv, fsz_drv (fsz_table n)]"

end
