(* ===== verification/Fs_Fsz_Prop.thy ===== *)
theory Fs_Fsz_Prop
  imports Fs_Fsz "HOL-Library.Sublist"
begin

text \<open>
  Properties of the FS/Z driver: recognising a file system, the entries of a directory, the size of what is read, and the
  end of every search.
\<close>

section \<open>The superblock\<close>

lemma rd_Blk: "off + n \<le> length xs \<Longrightarrow> rd s (Blk xs) off n = Some (take n (drop off xs))"
  by (simp add: rd_def)

definition sb_valid :: "u8 list \<Rightarrow> bool" where
  "sb_valid xs \<longleftrightarrow> take 4 (drop 512 xs) = FSZ_MAGIC \<and> take 4 (drop 1016 xs) = FSZ_MAGIC \<and>
     of_le (take 4 (drop 1020 xs)) = crc32a_calc (take 508 (drop 512 xs))"

lemma fsz_detect_refuses:
  assumes "1024 \<le> length xs" "\<not> sb_valid xs"
  shows "fsz_detect D fd (Blk xs) s = Some (False, s)"
  using assms by (auto simp: fsz_detect_def rd_Blk sb_valid_def)

lemma fsz_detect_accepts:
  assumes "1024 \<le> length xs" "fsz_detect D fd (Blk xs) s = Some (True, s')"
  shows "sb_valid xs"
  using assms fsz_detect_refuses [OF assms(1), of D fd s] by (cases "sb_valid xs") auto

lemma of_le_4:
  "of_le [a, b, c, d] = (of_le [a', b', c', d'] :: u32) \<longleftrightarrow> a = a' \<and> b = b' \<and> c = c' \<and> d = d'"
proof
  assume eq: "of_le [a, b, c, d] = (of_le [a', b', c', d'] :: u32)"
  have get: "ucast (drop_bit (8 * i) (of_le [a, b, c, d] :: u32)) = [a, b, c, d] ! i" if "i < 4" for a b c d :: u8 and i
  proof (rule bit_word_eqI)
    fix n assume n: "n < LENGTH(8)"
    have "i = 0 \<or> i = 1 \<or> i = 2 \<or> i = 3" using that by auto
    moreover have "\<not> bit x (8 + n)" "\<not> bit x (16 + n)" "\<not> bit x (24 + n)" for x :: u8
      using bit_imp_le_length [of x] by fastforce+
    ultimately show "bit (ucast (drop_bit (8 * i) (of_le [a, b, c, d] :: u32)) :: u8) n = bit ([a, b, c, d] ! i) n"
      using n by (elim disjE) (auto simp: of_le_def bit_simps)
  qed
  show "a = a' \<and> b = b' \<and> c = c' \<and> d = d'"
    using get [of 0 a b c d] get [of 1 a b c d] get [of 2 a b c d] get [of 3 a b c d]
      get [of 0 a' b' c' d'] get [of 1 a' b' c' d'] get [of 2 a' b' c' d'] get [of 3 a' b' c' d'] eq by simp
qed simp

lemma of_le_inj:
  assumes "length xs = 4" "length ys = 4" "of_le xs = (of_le ys :: u32)"
  shows "xs = ys"
proof -
  obtain a b c d where "xs = [a, b, c, d]" using assms(1) by (auto simp: numeral_eq_Suc length_Suc_conv)
  moreover obtain a' b' c' d' where "ys = [a', b', c', d']" using assms(2) by (auto simp: numeral_eq_Suc length_Suc_conv)
  ultimately show ?thesis using assms(3) of_le_4 by simp
qed

lemma of_le_to_le:
  assumes "LENGTH('a::len) \<le> 8 * n"
  shows "of_le (to_le n w) = (w :: 'a word)"
proof -
  have "foldr (\<lambda>b v. push_bit 8 v OR ucast b) (map (\<lambda>i. ucast (drop_bit (8 * (k + i)) w) :: u8) [0..<n]) 0 =
      take_bit (8 * n) (drop_bit (8 * k) w)" for k n
  proof (induction n arbitrary: k)
    case (Suc n)
    have split: "[0..<Suc n] = 0 # map Suc [0..<n]" by (simp add: map_Suc_upt upt_conv_Cons)
    have "push_bit 8 (take_bit (8 * n) (drop_bit (8 * Suc k) w)) OR ucast (ucast (drop_bit (8 * k) w) :: u8) =
        take_bit (8 * Suc n) (drop_bit (8 * k) w)"
      by (rule bit_word_eqI) (auto simp: bit_simps not_less less_diff_conv2 algebra_simps)
    with Suc.IH [of "Suc k"] show ?case unfolding split by (simp add: comp_def add.left_commute)
  qed simp
  from this [of 0] show ?thesis using assms by (simp add: of_le_def to_le_def take_bit_word_eq_self)
qed

lemma sb_damage:
  assumes n: "1024 \<le> length xs" and v: "sb_valid xs" and k: "512 \<le> k" "k < 1024" and b: "b \<noteq> xs ! k"
  shows "\<not> sb_valid (xs[k := b])"
proof -
  let ?ys = "xs[k := b]" and ?B = "take 508 (drop 512 xs)"
  show ?thesis
  proof (cases "k < 1020")
    case True
    let ?j = "k - 512"
    have j: "?j < length ?B" "?B ! ?j = xs ! k" using True k n by simp_all
    have "take 508 (drop 512 ?ys) = ?B[?j := b]" using k True by (simp add: drop_update_swap take_update_swap)
    also have "\<dots> = take ?j ?B @ b # drop (Suc ?j) ?B" by (rule upd_conv_take_nth_drop [OF j(1)])
    finally have "crc32a_calc (take 508 (drop 512 ?ys)) \<noteq> crc32a_calc (take ?j ?B @ xs ! k # drop (Suc ?j) ?B)"
      using crc32_other_byte(1) [OF b] by simp
    also have "take ?j ?B @ xs ! k # drop (Suc ?j) ?B = ?B" using id_take_nth_drop [OF j(1)] j(2) by simp
    finally have "crc32a_calc (take 508 (drop 512 ?ys)) \<noteq> crc32a_calc ?B" .
    moreover have "take 4 (drop 1020 ?ys) = take 4 (drop 1020 xs)" using True by simp
    ultimately show ?thesis using v by (auto simp: sb_valid_def)
  next
    case False
    have "take 4 (drop 1020 ?ys) = (take 4 (drop 1020 xs))[k - 1020 := b]"
      using False by (simp add: drop_update_swap take_update_swap)
    moreover have "(take 4 (drop 1020 xs))[k - 1020 := b] \<noteq> take 4 (drop 1020 xs)"
      using False k n b by (auto simp: list_eq_iff_nth_eq intro!: exI [of _ "k - 1020"])
    ultimately have "of_le (take 4 (drop 1020 ?ys)) \<noteq> (of_le (take 4 (drop 1020 xs)) :: u32)"
      using of_le_inj [of "take 4 (drop 1020 ?ys)" "take 4 (drop 1020 xs)"] n by auto
    moreover have "take 508 (drop 512 ?ys) = ?B"
      using False by (simp add: drop_update_swap take_update_swap list_update_beyond)
    ultimately show ?thesis using v by (simp add: sb_valid_def)
  qed
qed

text \<open>
  C18. A superblock that is recognised is intact: after a change of any byte from its first magic number to its checksum it is not
  recognised any more.
\<close>

theorem fsz_detect_damage:
  assumes n: "1024 \<le> length xs" and ok: "fsz_detect D fd (Blk xs) s = Some (True, s')"
    and k: "512 \<le> k" "k < 1024" and b: "b \<noteq> xs ! k"
  shows "fsz_detect D fd (Blk (xs[k := b])) s = Some (False, s)"
  using sb_damage [OF n fsz_detect_accepts [OF n ok] k b] n by (intro fsz_detect_refuses) simp_all

text \<open>Resizing writes the number of sectors below the checksum and leaves the checksum as it was.\<close>

lemma resize_breaks_superblock:
  assumes "1024 \<le> length xs" "sb_valid xs" "i < 8" "b \<noteq> xs ! (528 + i)" "splice 528 (to_le 8 n) xs = xs[528 + i := b]"
  shows "\<not> sb_valid (splice 528 (to_le 8 n) xs)"
  unfolding assms(5) using sb_damage [OF assms(1,2) _ _ assms(4)] assms(3) by simp

theorem fsz_detect_damage_witness:
  "fsz_detect [] 0 (Blk ((replicate 512 0 @ FSZ_MAGIC @ replicate 500 0 @ FSZ_MAGIC @
       to_le 4 (crc32a_calc (FSZ_MAGIC @ replicate 500 0 @ FSZ_MAGIC)))[600 := 1]))
     (fs_start\<lparr>fcbs := [zero_fcb]\<rparr>) = Some (False, fs_start\<lparr>fcbs := [zero_fcb]\<rparr>)"
proof -
  let ?c = "crc32a_calc (FSZ_MAGIC @ replicate 500 0 @ FSZ_MAGIC)"
  let ?xs = "replicate 512 0 @ FSZ_MAGIC @ replicate 500 0 @ FSZ_MAGIC @ to_le 4 ?c" and ?s = "fs_start\<lparr>fcbs := [zero_fcb]\<rparr>"
  have m: "length FSZ_MAGIC = 4" by (simp add: FSZ_MAGIC_def chars_def)
  have n: "length ?xs = 1024" by (simp add: m to_le_def)
  have c: "of_le (to_le 4 ?c) = ?c" by (rule of_le_to_le) simp
  have z: "of_le (replicate n 0) = 0" for n by (induction n) (simp_all add: of_le_def)
  have d: "rd ?s (Blk ?xs) 512 4 = Some FSZ_MAGIC" "rd ?s (Blk ?xs) 1016 4 = Some FSZ_MAGIC"
    "rd ?s (Blk ?xs) 1020 4 = Some (to_le 4 ?c)" "rd ?s (Blk ?xs) 512 508 = Some (FSZ_MAGIC @ replicate 500 0 @ FSZ_MAGIC)"
    "rd ?s (Blk ?xs) 520 2 = Some (replicate 2 0)" "rd ?s (Blk ?xs) 528 8 = Some (replicate 8 0)"
    using n by (simp_all add: rd_def m to_le_def)
  have nums: "sb_numsec ?s (Blk ?xs) = Some 0" unfolding sb_numsec_def rd64_def d by (simp only: option.map z)
  have "fsz_detect [] 0 (Blk ?xs) ?s = Some (True, upd_fcb 0 (\<lambda>f. f\<lparr>f_blksize := 2048\<rparr>) ?s)"
    unfolding fsz_detect_def d nums Option.bind.bind_lunit c
    by (simp add: z upd_fcb_def update_at_def zero_fcb_def)
  from fsz_detect_damage [OF _ this, of 600 1] n show ?thesis by (simp add: nth_append m)
qed

section \<open>Directories\<close>

text \<open>The bytes of a directory: an entry has the number of its inode, the length of its name and the name.\<close>

type_synonym entry = "u64 \<times> u8 \<times> u8 list"

definition entry_bytes :: "entry \<Rightarrow> u8 list" where
  "entry_bytes d = (case d of (fid, k, name) \<Rightarrow> to_le 8 fid @ replicate 8 0 @ [k] @ name @ replicate (111 - length name) 0)"

definition entry_ok :: "entry \<Rightarrow> bool" where
  "entry_ok d = (case d of (fid, k, name) \<Rightarrow> fid \<noteq> 0 \<and> name \<noteq> [] \<and> length name \<le> 110 \<and> 0 \<notin> set name)"

definition dir_bytes :: "u8 list \<Rightarrow> entry list \<Rightarrow> u8 list \<Rightarrow> u8 list" where
  "dir_bytes h ds pad = FSZ_DIR_MAGIC @ h @ concat (map entry_bytes ds) @ pad"

lemma length_entry_bytes [simp]: "entry_ok d \<Longrightarrow> length (entry_bytes d) = 128"
  by (auto simp: entry_ok_def entry_bytes_def to_le_def)

lemma length_entries: "\<forall>d \<in> set ds. entry_ok d \<Longrightarrow> length (concat (map entry_bytes ds)) = 128 * length ds"
  by (induction ds) simp_all

lemma drop_entries:
  assumes "\<forall>d \<in> set ds. entry_ok d" "j \<le> length ds"
  shows "drop (128 * j) (concat (map entry_bytes ds)) = concat (map entry_bytes (drop j ds))"
  using assms
proof (induction ds arbitrary: j)
  case (Cons d ds)
  then show ?case by (cases j) simp_all
qed simp

lemma drop_dir:
  assumes "\<forall>d \<in> set ds. entry_ok d" "length h = 124" "j \<le> length ds"
  shows "drop (128 + 128 * j) (dir_bytes h ds pad) = concat (map entry_bytes (drop j ds)) @ pad"
proof -
  have "length (FSZ_DIR_MAGIC @ h) = 128" using assms(2) by (simp add: FSZ_DIR_MAGIC_def chars_def)
  moreover have "dir_bytes h ds pad = (FSZ_DIR_MAGIC @ h) @ concat (map entry_bytes ds) @ pad" by (simp add: dir_bytes_def)
  ultimately have "drop (128 + 128 * j) (dir_bytes h ds pad) = drop (128 * j) (concat (map entry_bytes ds) @ pad)"
    by (simp add: drop_drop [symmetric] add.commute del: drop_drop append_assoc)
  then show ?thesis using drop_entries [OF assms(1,3)] length_entries [OF assms(1)] assms(3) by simp
qed

text \<open>The fields of an entry at a place of a block.\<close>

lemma rd_drop: "0 < n \<Longrightarrow> rd s (Blk B) (q + k) n = rd s (Blk (drop q B)) k n"
  by (cases "q \<le> length B") (auto simp: rd_def add.commute)

lemma entry_fields:
  assumes "drop q B = entry_bytes (fid, k, name) @ rest" "entry_ok (fid, k, name)"
  shows "rd64 s (Blk B) q = Some fid" "rd s (Blk B) (q + 17) 1 = Some [hd name]" "rd s (Blk B) (q + 16) 1 = Some [k]"
    "entry_name s (Blk B) q = Some name" "\<exists>r. drop (q + 17) B = name @ 0 # r"
proof -
  have l: "length (to_le 8 fid) = 8" by (simp add: to_le_def)
  have n: "name \<noteq> []" "length name \<le> 110" "0 \<notin> set name" using assms(2) by (simp_all add: entry_ok_def)
  have D: "drop q B = to_le 8 fid @ replicate 8 0 @ [k] @ name @ replicate (111 - length name) 0 @ rest"
    using assms(1) by (simp add: entry_bytes_def)
  have "rd s (Blk B) (q + 0) 8 = Some (to_le 8 fid)" by (subst rd_drop) (use l in \<open>simp_all add: D rd_def\<close>)
  then show "rd64 s (Blk B) q = Some fid" by (simp add: rd64_def of_le_to_le)
  show "rd s (Blk B) (q + 16) 1 = Some [k]" by (subst rd_drop) (use l in \<open>simp_all add: D rd_def\<close>)
  show "rd s (Blk B) (q + 17) 1 = Some [hd name]"
    by (subst rd_drop) (use l n in \<open>cases name; simp add: D rd_def\<close>)+
  have "rd s (Blk B) (q + 17) 111 = Some (name @ replicate (111 - length name) 0)"
    by (subst rd_drop) (use l n in \<open>simp_all add: D rd_def\<close>)
  moreover have "replicate (111 - length name) 0 = 0 # replicate (110 - length name) (0 :: u8)"
    using n by (simp add: Suc_diff_le [symmetric] flip: replicate_Suc)
  moreover have "\<forall>c \<in> set name. c \<noteq> 0" using n(3) by auto
  ultimately show "entry_name s (Blk B) q = Some name" by (simp add: entry_name_def cstring_def)
  have "drop (q + 17) B = drop 17 (drop q B)" by (simp add: add.commute)
  also have "\<dots> = name @ replicate (111 - length name) 0 @ rest" unfolding D using l by simp
  also have "\<dots> = name @ 0 # replicate (110 - length name) 0 @ rest"
    using n by (simp add: Suc_diff_le [symmetric] flip: replicate_Suc append_Cons)
  finally show "\<exists>r. drop (q + 17) B = name @ 0 # r" by blast
qed

lemma same_at_prefix:
  assumes "drop k B = name @ 0 # r" "0 \<notin> set c"
  shows "same_at s (Blk B) k c = Some (prefix c name)"
  using assms
proof (induction c arbitrary: k name)
  case (Cons x c)
  have "rd s (Blk B) (k + 0) 1 = Some [hd (name @ [0])]"
    by (subst rd_drop) (cases name; simp add: Cons.prems(1) rd_def)+
  then have h: "rd s (Blk B) k 1 = Some [hd (name @ [0])]" by simp
  show ?case
  proof (cases name)
    case Nil
    with h Cons.prems(2) show ?thesis by simp
  next
    case (Cons y ys)
    have "drop (k + 1) B = ys @ 0 # r" using Cons.prems(1) Cons by (metis add.commute append_Cons drop_drop drop_Suc_Cons drop0 One_nat_def plus_1_eq_Suc)
    with Cons.IH [of "k + 1" ys] Cons.prems(2) h Cons show ?thesis by auto
  qed
qed simp

text \<open>The first character group of a path, without and with the end: a component holds no closing zero.\<close>

lemma comp_no_zero: "0 \<notin> set (take (comp_len p) p)"
proof -
  let ?w = "takeWhile (\<lambda>c. c \<noteq> 47 \<and> \<not> PATHEND c) p"
  have w: "0 \<notin> set ?w" by (auto dest!: set_takeWhileD simp: PATHEND_def)
  have t: "take (length ?w) p = ?w" by (rule takeWhile_eq_take [symmetric])
  show ?thesis
  proof (cases "ch p (length ?w) = 47")
    case True
    then have "length ?w < length p" by (auto simp: ch_def split: if_splits)
    then have "take (Suc (length ?w)) p = ?w @ [p ! length ?w]" using t by (simp add: take_Suc_conv_app_nth)
    moreover have "p ! length ?w = 47" using True by (auto simp: ch_def split: if_splits)
    ultimately show ?thesis using True w by (simp add: comp_len_def Let_def)
  next
    case False
    then show ?thesis using t w by (simp add: comp_len_def Let_def)
  qed
qed

definition plain_comp :: "u8 list \<Rightarrow> bool" where
  "plain_comp p \<longleftrightarrow> \<not> (3 \<le> comp_len p \<and> ch p 0 = 46 \<and> ch p 1 = 46 \<and> ch p 2 = 46)"

text \<open>
  C19. Looking for a component of a path, that is not the joker, in a directory: the first entry whose name begins with the component
  (with its slash) is entered, and only when there is none the answer is that it is not here; nothing is changed.
\<close>

theorem scan_dir_finds:
  assumes ds: "\<forall>d \<in> set ds. entry_ok d" and h: "length h = 124" and p: "p = drop (l_off loc) (l_buf loc)" "plain_comp p"
  shows "scan_dir sub (Blk (dir_bytes h ds pad)) (comp_len p) 0 (length ds) loc st s =
     Some ((case find (\<lambda>(fid, k, name). prefix (take (comp_len p) p) name) ds of
              Some (fid, _) \<Rightarrow> Enter fid | None \<Rightarrow> NotHere, loc, st), s)"
proof -
  let ?B = "dir_bytes h ds pad" and ?c = "take (comp_len p) p"
  have "scan_dir sub (Blk ?B) (comp_len p) (128 * j) (length ds - j) loc st s =
     Some ((case find (\<lambda>(fid, k, name). prefix ?c name) (drop j ds) of
              Some (fid, _) \<Rightarrow> Enter fid | None \<Rightarrow> NotHere, loc, st), s)" if "j \<le> length ds" for j
    using that
  proof (induction "length ds - j" arbitrary: j)
    case (Suc m)
    then have j: "j < length ds" by simp
    obtain fid k name where d: "ds ! j = (fid, k, name)" by (cases "ds ! j")
    have dj: "drop j ds = (fid, k, name) # drop (Suc j) ds" using Cons_nth_drop_Suc [OF j] d by simp
    have ok: "entry_ok (fid, k, name)" using ds j d by (metis nth_mem)
    have q: "drop (128 * j + 128) ?B = entry_bytes (fid, k, name) @ concat (map entry_bytes (drop (Suc j) ds)) @ pad"
      using drop_dir [OF ds h, of j pad] j dj by (simp add: add.commute)
    note e = entry_fields [OF q ok]
    have n: "hd name \<noteq> 0" using ok by (cases name) (auto simp: entry_ok_def)
    obtain r where "drop (128 * j + 128 + 17) ?B = name @ 0 # r" using e(5) by blast
    note sm = same_at_prefix [OF this comp_no_zero]
    have step: "scan_dir sub (Blk ?B) (comp_len p) (128 * j) (Suc m) loc st s =
        (if prefix ?c name then Some ((Enter fid, loc, st), s)
         else scan_dir sub (Blk ?B) (comp_len p) (128 * j + 128) m loc st s)"
      using e(1-4) n sm p unfolding plain_comp_def by auto
    have m: "m = length ds - Suc j" "length ds - j = Suc m" using Suc.hyps(2) by simp_all
    show ?case
      using step Suc.hyps(1) [OF m(1)] j m dj by (simp add: add.commute)
  qed simp
  from this [of 0] show ?thesis by simp
qed

theorem scan_dir_finds_witness:
  "scan_dir (\<lambda>_ _ _ _. None)
     (Blk (dir_bytes (replicate 124 0) [(7, 4, chars ''bin/''), (9, 4, chars ''etc/'')] [])) 4 0 2
     \<lparr>l_inode = 0, l_filesize = 0, l_fileblk = None, l_buf = chars ''etc/x'' @ [0], l_off = 0, l_type = 0, l_creat = False\<rparr> [] fs_start
   = Some ((Enter 9, \<lparr>l_inode = 0, l_filesize = 0, l_fileblk = None, l_buf = chars ''etc/x'' @ [0], l_off = 0, l_type = 0,
       l_creat = False\<rparr>, []), fs_start)"
proof -
  let ?loc = "\<lparr>l_inode = 0, l_filesize = 0, l_fileblk = None, l_buf = chars ''etc/x'' @ [0], l_off = 0, l_type = 0, l_creat = False\<rparr>"
  let ?ds = "[(7, 4, chars ''bin/''), (9, 4, chars ''etc/'')] :: entry list"
  let ?p = "chars ''etc/x'' @ [0]"
  have c: "comp_len ?p = 4" by (simp add: comp_len_def chars_def PATHEND_def ch_def)
  have ds: "\<forall>d \<in> set ?ds. entry_ok d" by (simp add: entry_ok_def chars_def)
  have h: "length (replicate 124 (0 :: u8)) = 124" by simp
  have p: "?p = drop (l_off ?loc) (l_buf ?loc)" "plain_comp ?p" by (simp_all add: plain_comp_def chars_def ch_def)
  have f: "find (\<lambda>(fid, k, name). prefix (take 4 ?p) name) ?ds = Some (9, 4, chars ''etc/'')" by (simp add: chars_def)
  have n: "length ?ds = 2" by simp
  from scan_dir_finds [OF ds h p, of "\<lambda>_ _ _ _. None" "[]" "[]" fs_start]
  show ?thesis unfolding c f n option.case prod.case .
qed

text \<open>
  C22. A directory read back: asked at the start for the first entry and behind each entry for the next one, the driver returns every
  entry in its order, with the number of its inode and its name, and the distance to the next one.
\<close>

theorem fsz_getdirent_entry:
  assumes ds: "\<forall>d \<in> set ds. entry_ok d" and h: "length h = 124" and j: "j < length ds" "ds ! j = (fid, k, name)"
    and offs: "offs = (if j = 0 then 0 else 128 + 128 * j)" "offs < 2 ^ 64" and de: "de_name de = []"
  shows "fsz_getdirent (Some (Blk (drop offs (dir_bytes h ds pad)))) (of_nat offs) de s =
     Some ((of_nat (128 + 128 * (j + 1) - offs), de\<lparr>de_ino := fid, de_len := ucast k, de_name := name\<rparr>), s)"
proof -
  let ?B = "drop offs (dir_bytes h ds pad)" and ?q = "if j = 0 then 128 else 0 :: nat"
  have ok: "entry_ok (fid, k, name)" using ds j by (metis nth_mem)
  have dj: "drop j ds = (fid, k, name) # drop (Suc j) ds" using Cons_nth_drop_Suc [OF j(1)] j(2) by simp
  have "offs + ?q = 128 + 128 * j" using offs(1) by simp
  then have "drop ?q ?B = entry_bytes (fid, k, name) @ concat (map entry_bytes (drop (Suc j) ds)) @ pad"
    using drop_dir [OF ds h, of j pad] j(1) dj by (simp add: drop_drop add.commute)
  note e = entry_fields [OF this ok]
  have n: "hd name \<noteq> 0" "fid \<noteq> 0" using ok by (cases name; auto simp: entry_ok_def)+
  have o0: "of_nat offs = (0 :: u64) \<longleftrightarrow> j = 0"
    using offs unat_of_nat_u64 [OF offs(2)] by (auto simp: word_eq_iff_unat)
  have m: "rd s (Blk (dir_bytes h ds pad)) 0 4 = Some FSZ_DIR_MAGIC"
    by (simp add: rd_def dir_bytes_def FSZ_DIR_MAGIC_def chars_def)
  show ?thesis
  proof (cases "j = 0")
    case True
    with e n m o0 offs de show ?thesis by (simp add: fsz_getdirent_def Let_def)
  next
    case False
    with e n o0 offs de show ?thesis by (simp add: fsz_getdirent_def Let_def)
  qed
qed

theorem fsz_getdirent_entry_witness:
  "fsz_getdirent (Some (Blk (drop 256 (dir_bytes (replicate 124 0) [(7, 4, chars ''bin/''), (9, 4, chars ''etc/'')] [])))) 256
     zero_dirent fs_start = Some ((128, zero_dirent\<lparr>de_ino := 9, de_len := 4, de_name := chars ''etc/''\<rparr>), fs_start)"
proof -
  let ?ds = "[(7, 4, chars ''bin/''), (9, 4, chars ''etc/'')] :: entry list"
  have "\<forall>d \<in> set ?ds. entry_ok d" by (simp add: entry_ok_def chars_def)
  then show ?thesis
    using fsz_getdirent_entry [of ?ds "replicate 124 0" 1 9 4 "chars ''etc/''" 256 zero_dirent "[]" fs_start]
    by (simp add: zero_dirent_def)
qed

section \<open>Reading\<close>

lemma sd_read_size:
  assumes "sd_read D fd bs l sz b offs n s = Some ((r, n'), s')" "unat offs + unat n < 2 ^ 64" "unat offs + unat n \<le> unat sz"
  shows "n' \<le> n"
proof -
  have d: "offs div bs * bs \<le> offs"
  proof -
    have le: "unat offs div unat bs * unat bs \<le> unat offs" by simp
    then have "unat (offs div bs * bs) = unat offs div unat bs * unat bs"
      using le_less_trans [OF le unat_u64_less] by (subst unat_mult_lem [THEN iffD1]) (simp_all add: unat_div)
    then show ?thesis by (simp add: word_le_nat_alt)
  qed
  have "unat (offs div bs * bs + n) = unat (offs div bs * bs) + unat n"
    using d assms(2) by (intro unat_add_le) (simp add: word_le_nat_alt)
  then have over: "\<not> sz < offs div bs * bs + n"
    using d assms(3) by (simp add: word_less_nat_alt word_le_nat_alt)
  let ?m = "if offs < bs \<and> bs - offs < n then bs - offs else n"
  have "n' = 0 \<or> n' = (if \<not> offs < bs \<and> sz < (if offs < bs then 0 else offs div bs * bs) + ?m
      then sz - (if offs < bs then 0 else offs div bs * bs) else ?m)"
    using assms(1) unfolding sd_read_def Let_def by (auto split: Option.bind_splits sdres.splits if_splits)
  then show ?thesis using over by (auto split: if_splits)
qed

text \<open>
  C21. A file is never read beyond its end: what the driver says it read is not more than what was asked for, and ends within the size of
  the version, for every mapping of the file, holes included.
\<close>

theorem file_read_bounds:
  assumes r: "file_read D fd sb p i (sz, sec, l) offs n s = Some ((b, n'), s')" and w: "unat offs + unat n < 2 ^ 64"
  shows "n' \<le> n \<and> (n' = 0 \<or> unat offs + unat n' \<le> unat sz)"
proof -
  let ?n = "if sz < offs + n then sz - offs else n"
  have a: "unat (offs + n) = unat offs + unat n" by (rule unat_add_le) (use w in simp)
  have "n' = 0 \<or> offs \<le> sz \<and> n' \<le> ?n"
  proof (cases "sz < offs")
    case True
    then show ?thesis using r by (simp add: file_read_def)
  next
    case False
    then have le: "unat offs \<le> unat sz" by (simp add: word_less_nat_alt)
    have n: "unat offs + unat ?n \<le> unat sz" "unat offs + unat ?n < 2 ^ 64"
      using a le w unat_u64_less [of sz] by (auto simp: word_less_nat_alt unat_sub_le)
    have sd: "n' \<le> ?n" if "sd_read D fd bs l sz b offs ?n s = Some ((r, n'), s')" for bs b r s s'
      by (rule sd_read_size [OF that n(2,1)])
    have "n' = 0 \<or> n' \<le> ?n"
    proof (cases "sz < offs + n")
      case True
      show ?thesis
        using r False True unfolding file_read_def Let_def
        by (auto split: if_splits option.splits Option.bind_splits simp: Let_def dest!: sd [unfolded if_P [OF True]])
    next
      case over: False
      show ?thesis
        using r False over unfolding file_read_def Let_def
        by (auto split: if_splits option.splits Option.bind_splits simp: Let_def dest!: sd [unfolded if_not_P [OF over]])
    qed
    then show ?thesis using False by auto
  qed
  then show ?thesis
    using a w by (auto simp: word_le_nat_alt word_less_nat_alt unat_sub_le split: if_splits)
qed

theorem file_read_bounds_witness:
  "let p = Blk (replicate 4096 0); i = \<lparr>in_magic = FSZ_IN_MAGIC, in_filetype = FSZ_FILETYPE_DIR, in_changedate = 0, in_accessdate = 0, in_numblocks = 0,
    in_numlinks = 0, in_sec = 0, in_size = 6, in_modifydate = 0, in_flags = 255\<rparr>;
       t = file_read [] 0 p p i (6, 0, FSZ_IN_FLAG_INLINE) 5 9 (fs_start\<lparr>fcbs := [zero_fcb]\<rparr>) in
     map_option (snd \<circ> fst) t = Some 1 \<and> (1 :: u64) \<le> 9 \<and> unat (5 :: u64) + unat (1 :: u64) \<le> unat (6 :: u64)"
proof -
  let ?p = "Blk (replicate 4096 0)" and ?s = "fs_start\<lparr>fcbs := [zero_fcb]\<rparr>"
  let ?i = "\<lparr>in_magic = FSZ_IN_MAGIC, in_filetype = FSZ_FILETYPE_DIR, in_changedate = 0, in_accessdate = 0, in_numblocks = 0,
    in_numlinks = 0, in_sec = 0, in_size = 6, in_modifydate = 0, in_flags = 255\<rparr>"
  have e: "file_read [] 0 ?p ?p ?i (6, 0, FSZ_IN_FLAG_INLINE) 5 9 ?s = Some ((Some (bp_add (bp_add ?p 1024) 5), 1), ?s)"
    by (simp add: file_read_def inlinedata_def sb_biginode_def rd_def inline_off_def Let_def)
  from file_read_bounds [OF this] show ?thesis unfolding Let_def e by simp
qed

section \<open>The end of a search\<close>

text \<open>
  A path without parent directories, at least from the place that is searched on. Reading blocks does not change whether there is
  memory.
\<close>

definition no_updir :: "u8 list \<Rightarrow> bool" where
  "no_updir p \<longleftrightarrow> (\<forall>k \<le> length (cstring p). k = 0 \<or> ch p (k - 1) = 47 \<longrightarrow> \<not> is_updir (drop k p))"

definition heap_kept :: "fsdrvs \<Rightarrow> u64 \<Rightarrow> bool" where
  "heap_kept D fd \<longleftrightarrow> (\<forall>lsn s b s'. readblock D fd lsn s = Some (b, s') \<longrightarrow> heap_ok s' = heap_ok s)"

lemma cstring_drop: "k \<le> length (cstring p) \<Longrightarrow> cstring (drop k p) = drop k (cstring p)"
proof (induction p arbitrary: k)
  case (Cons x p)
  then show ?case by (cases k) (auto simp: cstring_def)
qed (simp add: cstring_def)

lemma ch_drop: "ch (drop k p) i = ch p (k + i)"
  by (cases "k \<le> length p") (auto simp: ch_def)

lemma comp_len_le: "comp_len p \<le> length (cstring p)"
proof -
  let ?w = "takeWhile (\<lambda>c. c \<noteq> 47 \<and> \<not> PATHEND c) p"
  have "\<forall>c \<in> set (take (comp_len p) p). c \<noteq> 0" using comp_no_zero [of p] by auto
  then have "cstring p = take (comp_len p) p @ cstring (drop (comp_len p) p)"
    using takeWhile_append2 [of "take (comp_len p) p" "\<lambda>c. c \<noteq> 0" "drop (comp_len p) p"] by (simp add: cstring_def)
  then have "length (take (comp_len p) p) \<le> length (cstring p)" by (metis le_add1 length_append)
  moreover have "comp_len p \<le> length p"
    using length_takeWhile_le [of "\<lambda>c. c \<noteq> 47 \<and> \<not> PATHEND c" p]
    by (auto simp: comp_len_def Let_def ch_def Suc_le_eq)
  ultimately show ?thesis by simp
qed

lemma comp_len_pos: "\<not> PATHEND (ch p 0) \<Longrightarrow> 0 < comp_len p"
  by (cases p) (auto simp: comp_len_def ch_def PATHEND_def Let_def)

lemma comp_len_next: "comp_len p = 0 \<or> ch p (comp_len p - 1) = 47 \<or> PATHEND (ch p (comp_len p))"
proof -
  let ?w = "takeWhile (\<lambda>c. c \<noteq> 47 \<and> \<not> PATHEND c) p"
  have "ch p (length ?w) = 47 \<or> PATHEND (ch p (length ?w))"
    using nth_length_takeWhile [of "\<lambda>c. c \<noteq> 47 \<and> \<not> PATHEND c" p] by (auto simp: ch_def PATHEND_def)
  then show ?thesis by (auto simp: comp_len_def Let_def)
qed

lemma no_updir_next:
  assumes "no_updir p"
  shows "no_updir (drop (comp_len p) p)"
  unfolding no_updir_def
proof (intro allI impI)
  let ?e = "comp_len p"
  fix k assume k: "k \<le> length (cstring (drop ?e p))" "k = 0 \<or> ch (drop ?e p) (k - 1) = 47"
  have le: "?e + k \<le> length (cstring p)" using k(1) comp_len_le [of p] by (simp add: cstring_drop)
  show "\<not> is_updir (drop k (drop ?e p))"
  proof (cases "k = 0 \<and> ?e \<noteq> 0 \<and> ch p (?e - 1) \<noteq> 47")
    case True
    then have "PATHEND (ch p ?e)" using comp_len_next [of p] by auto
    then have "ch p ?e \<noteq> 46" by (auto simp: PATHEND_def)
    then show ?thesis using True by (simp add: is_updir_def ch_drop)
  next
    case False
    then have "?e + k = 0 \<or> ch p (?e + k - 1) = 47" using k(2) by (cases k) (auto simp: ch_drop)
    then show ?thesis using assms le unfolding no_updir_def by (metis add.commute drop_drop)
  qed
qed

text \<open>What a search that fails, or that has no memory, leaves alone.\<close>

definition keeps :: "locate_t \<Rightarrow> fsstate \<Rightarrow> ((u64 \<times> locate_t \<times> pathstack_t list) \<times> fsstate) option \<Rightarrow> bool" where
  "keeps loc s r \<longleftrightarrow> (\<forall>a loc' st' s'. r = Some ((a, loc', st'), s') \<longrightarrow>
     heap_ok s' = heap_ok s \<and> (a \<noteq> 0 \<or> \<not> heap_ok s \<longrightarrow> l_buf loc' = l_buf loc))"

definition scan_keeps :: "locate_t \<Rightarrow> fsstate \<Rightarrow> ((scan \<times> locate_t \<times> pathstack_t list) \<times> fsstate) option \<Rightarrow> bool" where
  "scan_keeps loc s r \<longleftrightarrow> (\<forall>a loc' st' s'. r = Some ((a, loc', st'), s') \<longrightarrow> heap_ok s' = heap_ok s \<and>
     (case a of Answer x \<Rightarrow> x \<noteq> 0 \<or> \<not> heap_ok s \<longrightarrow> l_buf loc' = l_buf loc | _ \<Rightarrow> loc' = loc))"

definition nested :: "locate_t \<Rightarrow> nat \<Rightarrow> locate_t" where
  "nested loc e = loc\<lparr>l_inode := 0, l_filesize := 0, l_fileblk := None, l_off := l_off loc + e, l_type := 0, l_creat := False\<rparr>"

lemma scan_cong:
  assumes sub: "\<And>fid st s. 3 \<le> e \<Longrightarrow> sub fid (nested loc e) st s = sub' fid (nested loc e) st s \<and>
      keeps (nested loc e) s (sub fid (nested loc e) st s)"
  shows "scan_dir sub b e q i loc st s = scan_dir sub' b e q i loc st s \<and> scan_keeps loc s (scan_dir sub b e q i loc st s)"
proof (induction i arbitrary: q st s)
  case 0
  then show ?case by (simp add: scan_keeps_def)
next
  case (Suc i)
  let ?p = "drop (l_off loc) (l_buf loc)" and ?q = "q + 128"
  note IH = Suc.IH [where q = ?q]
  show ?case
  proof (cases "rd s b (?q + 17) 1")
    case None
    then show ?thesis by (simp add: scan_keeps_def Let_def)
  next
    case (Some c)
    show ?thesis
    proof (cases "hd c \<noteq> 0 \<and> 3 \<le> e \<and> ch ?p 0 = 46 \<and> ch ?p 1 = 46 \<and> ch ?p 2 = 46")
      case False
      with Some IH show ?thesis by (auto simp: Let_def scan_keeps_def split: Option.bind_splits)
    next
      case joker: True
      show ?thesis
      proof (cases "\<exists>name fid. entry_name s b ?q = Some name \<and> rd64 s b ?q = Some fid \<and> last name = 47")
        case False
        with Some joker IH show ?thesis by (auto simp: Let_def scan_keeps_def split: Option.bind_splits)
      next
        case True
        then obtain name fid where nf: "entry_name s b ?q = Some name" "rd64 s b ?q = Some fid" "last name = 47" by blast
        have eq: "sub fid (nested loc e) st s = sub' fid (nested loc e) st s"
          and k: "keeps (nested loc e) s (sub fid (nested loc e) st s)" using sub joker by blast+
        show ?thesis
        proof (cases "sub fid (nested loc e) st s")
          case None
          with Some joker nf eq show ?thesis by (simp add: Let_def scan_keeps_def nested_def)
        next
          case (Some r)
          obtain a lo st' s' where r: "r = ((a, lo, st'), s')" by (metis surj_pair)
          have sr: "sub fid (nested loc e) st s = Some ((a, lo, st'), s')" "sub' fid (nested loc e) st s = Some ((a, lo, st'), s')"
            using Some r eq by simp_all
          note sr = sr [unfolded nested_def]
          have h: "heap_ok s' = heap_ok s" "a \<noteq> 0 \<or> \<not> heap_ok s \<longrightarrow> l_buf lo = l_buf loc"
            using k Some r by (simp_all add: keeps_def nested_def)
          show ?thesis
          proof (cases "a = 0")
            case False
            then have "loc\<lparr>l_buf := l_buf lo\<rparr> = loc" using h(2) by simp
            with False sr nf joker \<open>rd s b (?q + 17) 1 = Some c\<close>
            have step: "scan_dir sub b e q (Suc i) loc st s = scan_dir sub b e ?q i loc st' s'"
              "scan_dir sub' b e q (Suc i) loc st s = scan_dir sub' b e ?q i loc st' s'"
              by (simp_all add: Let_def)
            have k: "scan_keeps loc s X = scan_keeps loc s' X" for X by (simp only: scan_keeps_def h(1))
            show ?thesis unfolding step k by (rule IH)
          next
            case True
            with sr nf joker \<open>rd s b (?q + 17) 1 = Some c\<close> h show ?thesis
              by (auto simp: Let_def scan_keeps_def)
          qed
        qed
      qed
    qed
  qed
qed

lemma sd_first_heap:
  assumes hk: "heap_kept D fd" and r: "sd_first n D fd b s = Some (x, s')"
  shows "heap_ok s' = heap_ok s"
  using r
proof (induction n arbitrary: b s)
  case (Suc n)
  obtain i where i: "rd64 s b 0 = Some i" using Suc.prems by (cases "rd64 s b 0") simp_all
  show ?case
  proof (cases "i = 0")
    case True
    with Suc.prems i show ?thesis by simp
  next
    case False
    with Suc.prems i obtain c s1 where c: "readblock D fd i s = Some (c, s1)" by (cases "readblock D fd i s") auto
    have h: "heap_ok s1 = heap_ok s" using hk c by (simp add: heap_kept_def)
    show ?thesis
    proof (cases c)
      case None
      with Suc.prems i False c h show ?thesis by simp
    next
      case (Some b')
      with Suc.prems i False c have "sd_first n D fd b' s1 = Some (x, s')" by simp
      from Suc.IH [OF this] h show ?thesis by simp
    qed
  qed
qed simp

lemma dir_block_heap:
  assumes hk: "heap_kept D fd" and r: "dir_block D fd i inl old s = Some (r, s')"
  shows "heap_ok s' = heap_ok s"
proof -
  let ?l = "FSZ_FLAG_TRANSLATION (in_flags i)"
  let ?R = "if ?l = FSZ_IN_FLAG_SDINLINE then Some (Some inl, s) else readblock D fd (in_sec i) s"
  show ?thesis
  proof (cases "?l = FSZ_IN_FLAG_INLINE \<or> FSZ_IN_FLAG_SECLIST \<le> ?l \<and> ?l \<le> FSZ_IN_FLAG_SECLIST2 \<or>
      ?l \<noteq> FSZ_IN_FLAG_SDINLINE \<and> in_sec i = 0")
    case True
    with r show ?thesis by (auto simp: dir_block_def Let_def split: if_splits)
  next
    case False
    then have d: "dir_block D fd i inl old s = ?R \<bind> (\<lambda>(b, s). case b of None \<Rightarrow> Some (Inl NOBLOCK, s)
        | Some b \<Rightarrow> let l = (if ?l = FSZ_IN_FLAG_SDINLINE then 1 else ?l)
            in if MAXINDIRECT \<le> l then Some (Inl FSERROR, s)
               else sd_first (unat l) D fd b s \<bind> (\<lambda>(b, s). Some (case b of None \<Rightarrow> Inl NOBLOCK | Some b \<Rightarrow> Inr (Some b), s)))"
      unfolding dir_block_def Let_def by (auto split: option.splits prod.splits intro!: arg_cong2 [where f = Option.bind])
    obtain b s1 where b: "?R = Some (b, s1)" using r unfolding d by (cases ?R) auto
    have h: "heap_ok s1 = heap_ok s" using hk b by (auto simp: heap_kept_def split: if_splits)
    show ?thesis
      using r h unfolding d b
      by (auto simp: Let_def split: option.splits if_splits Option.bind_splits dest: sd_first_heap [OF hk] hk [unfolded heap_kept_def, rule_format])
  qed
qed

lemma enter_cong:
  assumes hk: "heap_kept D fd"
    and dir: "\<And>sb lsn st s. dir sb lsn loc st s = dir' sb lsn loc st s \<and> keeps loc s (dir sb lsn loc st s)"
  shows "enter_dir dir D fd parent loc st s = enter_dir dir' D fd parent loc st s \<and> keeps loc s (enter_dir dir D fd parent loc st s)"
proof -
  have k: "keeps loc s X = keeps loc s1 X" if "readblock D fd 0 s = Some (b, s1)" for b s1 X
    using hk that by (simp add: heap_kept_def keeps_def)
  show ?thesis
  proof (cases "case at (fcbs s) fd of None \<Rightarrow> True | Some f \<Rightarrow> f_abspath f = None")
    case True
    then show ?thesis by (simp add: enter_dir_def keeps_def)
  next
    case fd: False
    show ?thesis
    proof (cases "\<exists>sb s1 root. readblock D fd 0 s = Some (Some sb, s1) \<and> sb_rootdirfid s1 sb = Some root")
      case True
      then obtain sb s1 root where R: "readblock D fd 0 s = Some (Some sb, s1)" "sb_rootdirfid s1 sb = Some root" by blast
      let ?l = "if parent = 0 then root else parent"
      have e: "enter_dir d D fd parent loc st s = d sb ?l loc st s1" for d
        using fd R by (simp add: enter_dir_def)
      show ?thesis unfolding e k [OF R(1)] by (rule dir)
    next
      case False
      with fd hk show ?thesis
        unfolding enter_dir_def keeps_def heap_kept_def by (auto split: Option.bind_splits option.splits)
    qed
  qed
qed

text \<open>Two ways to search on that agree for a place of the path, and keep what has to be kept.\<close>

definition agree :: "dirsearch \<Rightarrow> dirsearch \<Rightarrow> u8 list \<Rightarrow> nat \<Rightarrow> bool" where
  "agree nxt nxt' buf k \<longleftrightarrow> (\<forall>loc sb lsn st s. l_buf loc = buf \<and> l_off loc = k \<longrightarrow>
     nxt sb lsn loc st s = nxt' sb lsn loc st s \<and> (\<not> l_creat loc \<longrightarrow> keeps loc s (nxt' sb lsn loc st s)))"

lemma keeps_cong:
  assumes "heap_ok s1 = heap_ok s" "l_buf loc1 = l_buf loc"
  shows "keeps loc1 s1 r = keeps loc s r"
  unfolding keeps_def assms by (rule refl)

lemma dir_entries_cong:
  assumes hk: "heap_kept D fd" and ag: "agree nxt nxt' (l_buf loc) (l_off loc + e)"
  shows "dir_entries nxt D fd sb lsn e d loc st s = dir_entries nxt' D fd sb lsn e d loc st s \<and>
     (\<not> l_creat loc \<longrightarrow> keeps loc s (dir_entries nxt' D fd sb lsn e d loc st s))"
proof -
  have sub: "enter_dir nxt D fd fid (nested loc e) st s = enter_dir nxt' D fd fid (nested loc e) st s \<and>
      keeps (nested loc e) s (enter_dir nxt D fd fid (nested loc e) st s)" for fid st s
    by (rule enter_cong [OF hk]) (use ag in \<open>simp add: agree_def nested_def\<close>)
  note sc = scan_cong [of e "enter_dir nxt D fd" loc "enter_dir nxt' D fd", OF sub]
  show ?thesis
  proof (cases "\<exists>k. rd s d 0 4 = Some FSZ_DIR_MAGIC \<and> rd64 s d 16 = Some k")
    case False
    then show ?thesis by (auto simp: dir_entries_def keeps_def split: Option.bind_splits)
  next
    case True
    then obtain k where k: "rd s d 0 4 = Some FSZ_DIR_MAGIC" "rd64 s d 16 = Some k" by blast
    let ?r = "scan_dir (enter_dir nxt D fd) d e 0 (unat k) loc st s"
    have eq: "?r = scan_dir (enter_dir nxt' D fd) d e 0 (unat k) loc st s" and sk: "scan_keeps loc s ?r" using sc by blast+
    show ?thesis
    proof (cases ?r)
      case None
      with k eq show ?thesis by (simp add: dir_entries_def keeps_def)
    next
      case (Some x)
      obtain a loc' st' s' where x: "x = ((a, loc', st'), s')" by (metis surj_pair)
      have h: "heap_ok s' = heap_ok s" using sk Some x by (simp add: scan_keeps_def)
      have sr: "?r = Some ((a, loc', st'), s')"
        "scan_dir (enter_dir nxt' D fd) d e 0 (unat k) loc st s = Some ((a, loc', st'), s')" using Some x eq by simp_all
      show ?thesis
      proof (cases a)
        case NotHere
        then have "loc' = loc" using sk Some x by (simp add: scan_keeps_def)
        with NotHere k sr h show ?thesis by (simp add: dir_entries_def keeps_def not_found_def)
      next
        case (Enter fid)
        let ?loc = "loc\<lparr>l_off := l_off loc + e\<rparr>"
        have l: "loc' = loc" using sk Some x Enter by (simp add: scan_keeps_def)
        have n: "dir_entries n D fd sb lsn e d loc st s = n sb fid ?loc (pathpush lsn (l_off loc) st') s'"
          if "n = nxt \<or> n = nxt'" for n
          using that k sr l Enter by (auto simp: dir_entries_def)
        show ?thesis
          using ag n [of nxt] n [of nxt'] keeps_cong [OF h, of ?loc loc, symmetric] by (simp add: agree_def)
      next
        case (Answer b)
        with k sr sk show ?thesis by (simp add: dir_entries_def keeps_def scan_keeps_def)
      qed
    qed
  qed
qed

lemma inode_data_cong:
  assumes hk: "heap_kept D fd" and ag: "agree nxt nxt' (l_buf loc) (l_off loc + e)"
  shows "inode_data nxt D fd sb lsn e i inl loc st s = inode_data nxt' D fd sb lsn e i inl loc st s \<and>
     (\<not> l_creat loc \<longrightarrow> keeps loc s (inode_data nxt' D fd sb lsn e i inl loc st s))"
proof (cases "dir_block D fd i inl (l_fileblk loc) s")
  case None
  then show ?thesis by (simp add: inode_data_def keeps_def)
next
  case (Some x)
  obtain r s1 where x: "x = (r, s1)" by (cases x)
  have h: "heap_ok s1 = heap_ok s" using dir_block_heap [OF hk] Some x by simp
  show ?thesis
  proof (cases r)
    case (Inl a)
    have "a \<noteq> 0" using Some x Inl unfolding dir_block_def Let_def
      by (auto split: if_splits Option.bind_splits option.splits simp: locate_defs)
    with Some x Inl h show ?thesis by (simp add: inode_data_def keeps_def)
  next
    case (Inr blk)
    let ?loc = "loc\<lparr>l_fileblk := blk\<rparr>"
    have "agree nxt nxt' (l_buf ?loc) (l_off ?loc + e)" using ag by simp
    note de = dir_entries_cong [OF hk this, of sb lsn] 
    have k: "keeps loc s X = keeps ?loc s1 X" for X by (rule keeps_cong [OF h, symmetric]) simp
    show ?thesis
    proof (cases "in_filetype i = FSZ_FILETYPE_DIR \<and> blk \<noteq> None")
      case True
      then have "in_filetype i \<noteq> FSZ_FILETYPE_REG_APP" by (auto simp: FSZ_FILETYPE_DIR_def FSZ_FILETYPE_REG_APP_def chars_def)
      with True Some x Inr de k show ?thesis by (auto simp: inode_data_def Let_def)
    next
      case False
      with Some x Inr h show ?thesis
        by (auto simp: inode_data_def Let_def keeps_def not_found_def locate_defs split: Option.bind_splits)
    qed
  qed
qed

lemma dir_step_cong:
  assumes hk: "heap_kept D fd" and up: "\<not> is_updir (drop (l_off loc) (l_buf loc))"
    and ag: "\<not> PATHEND (ch (drop (l_off loc) (l_buf loc)) 0) \<Longrightarrow>
       agree nxt nxt' (l_buf loc) (l_off loc + comp_len (drop (l_off loc) (l_buf loc)))"
  shows "dir_step nxt D fd sb lsn loc st s = dir_step nxt' D fd sb lsn loc st s \<and>
     (\<not> l_creat loc \<longrightarrow> keeps loc s (dir_step nxt' D fd sb lsn loc st s))"
proof (cases "lsn \<noteq> 0 \<and> (\<exists>b s1. readblock D fd lsn s = Some (Some b, s1))")
  case False
  with up hk show ?thesis
    by (cases "readblock D fd lsn s") (auto simp: dir_step_def Let_def keeps_def heap_kept_def locate_defs)
next
  case True
  then obtain b s1 where b: "readblock D fd lsn s = Some (Some b, s1)" by blast
  let ?p = "drop (l_off loc) (l_buf loc)"
  have h: "heap_ok s1 = heap_ok s" using hk b by (simp add: heap_kept_def)
  have k: "keeps loc s1 X = keeps loc s X" for X by (rule keeps_cong [OF h]) simp
  show ?thesis
  proof (cases "\<exists>i inl. rd_inode s1 b = Some i \<and> inlinedata s1 sb b = Some inl \<and> in_magic i = FSZ_IN_MAGIC \<and>
      in_filetype i \<noteq> FSZ_FILETYPE_SYMLINK \<and> in_filetype i \<noteq> FSZ_FILETYPE_UNION \<and> \<not> PATHEND (ch ?p 0)")
    case True
    then obtain i inl where i: "rd_inode s1 b = Some i" "inlinedata s1 sb b = Some inl" "in_magic i = FSZ_IN_MAGIC"
      "in_filetype i \<noteq> FSZ_FILETYPE_SYMLINK" "in_filetype i \<noteq> FSZ_FILETYPE_UNION" "\<not> PATHEND (ch ?p 0)" by blast
    have n: "dir_step n D fd sb lsn loc st s = inode_data n D fd sb lsn (comp_len ?p) i inl loc st s1" for n
      using up b i \<open>lsn \<noteq> 0 \<and> _\<close> by (simp add: dir_step_def Let_def)
    show ?thesis unfolding n using inode_data_cong [OF hk ag [OF i(6)], of sb lsn i inl st s1] k by simp
  next
    case False
    with up b h \<open>lsn \<noteq> 0 \<and> _\<close> show ?thesis
      by (auto simp: dir_step_def Let_def keeps_def found_end_def locate_defs split: Option.bind_splits)
  qed
qed

lemma path_next:
  fixes loc l :: locate_t
  assumes "\<not> PATHEND (ch (drop (l_off loc) (l_buf loc)) 0)" and "l_buf l = l_buf loc"
    and "l_off l = l_off loc + comp_len (drop (l_off loc) (l_buf loc))" and "no_updir (drop (l_off loc) (l_buf loc))"
  shows "length (l_path l) < length (l_path loc)" "no_updir (drop (l_off l) (l_buf l))"
proof -
  let ?p = "drop (l_off loc) (l_buf loc)"
  have d: "drop (l_off l) (l_buf l) = drop (comp_len ?p) ?p" using assms(2,3) by (simp add: add.commute)
  have lp: "length (l_path loc) = length (cstring ?p)" by (simp add: l_path_def cstring_def)
  have "length (l_path l) = length (cstring (drop (comp_len ?p) ?p))" using d by (simp add: l_path_def cstring_def)
  also have "\<dots> = length (cstring ?p) - comp_len ?p" using comp_len_le [of ?p] by (simp add: cstring_drop del: drop_drop)
  finally show "length (l_path l) < length (l_path loc)"
    using comp_len_pos [OF assms(1)] comp_len_le [of ?p] lp by linarith
  show "no_updir (drop (l_off l) (l_buf l))" unfolding d by (rule no_updir_next [OF assms(4)])
qed

lemma search_dir_stable:
  assumes hk: "heap_kept D fd"
  shows "no_updir (drop (l_off loc) (l_buf loc)) \<Longrightarrow> length (l_path loc) < n \<Longrightarrow> length (l_path loc) < k \<Longrightarrow>
     search_dir z n D fd sb lsn loc st s = search_dir z' k D fd sb lsn loc st s \<and>
     (\<not> l_creat loc \<longrightarrow> keeps loc s (search_dir z' k D fd sb lsn loc st s))"
proof (induction n arbitrary: k loc sb lsn st s)
  case (Suc n)
  obtain k' where k: "k = Suc k'" using Suc.prems(3) by (cases k) auto
  let ?p = "drop (l_off loc) (l_buf loc)"
  have up: "\<not> is_updir ?p" using Suc.prems(1) unfolding no_updir_def by (metis drop0 le0)
  have "agree (search_dir z n D fd) (search_dir z' k' D fd) (l_buf loc) (l_off loc + comp_len ?p)" if pe: "\<not> PATHEND (ch ?p 0)"
    unfolding agree_def
  proof (intro allI impI, elim conjE)
    fix l :: locate_t and sb lsn st s assume l: "l_buf l = l_buf loc" "l_off l = l_off loc + comp_len ?p"
    note nx = path_next [OF pe l Suc.prems(1)]
    show "search_dir z n D fd sb lsn l st s = search_dir z' k' D fd sb lsn l st s \<and>
        (\<not> l_creat l \<longrightarrow> keeps l s (search_dir z' k' D fd sb lsn l st s))"
      by (rule Suc.IH [OF nx(2)]) (use nx(1) Suc.prems(2,3) k in linarith)+
  qed
  from dir_step_cong [OF hk up this] show ?case unfolding k search_dir.simps(2) .
qed simp

text \<open>
  So the bound does not matter on any storage whose reads keep the memory of the service: what follows behind it is never
  asked.
\<close>

lemma fsz_locate_bound:
  assumes hk: "heap_kept D fd" and up: "no_updir (drop (l_off loc) (l_buf loc))" and n: "length (l_path loc) < n"
  shows "fsz_locate D fd parent loc s =
     enter_dir (search_dir z n D fd) D fd parent loc [] s \<bind> (\<lambda>((r, loc, _), s). Some ((r, loc), s))"
proof -
  have eq: "search_dir (\<lambda>_ _ _ _ _. None) (length (l_path loc) + 1) D fd sb lsn loc [] s = search_dir z n D fd sb lsn loc [] s"
    for sb lsn s
    by (rule conjunct1 [OF search_dir_stable [OF hk up _ n]]) simp
  have "enter_dir (search_dir (\<lambda>_ _ _ _ _. None) (length (l_path loc) + 1) D fd) D fd parent loc [] s =
      enter_dir (search_dir z n D fd) D fd parent loc [] s"
    unfolding enter_dir_def eq ..
  then show ?thesis by (simp add: fsz_locate_def)
qed

section \<open>A search on a disk in memory returns\<close>











































text \<open>Devices and image files that no driver is asked for keep the memory.\<close>

lemma devfs_used_heap: "heap_ok (devfs_used i s) = heap_ok s"
  by (simp add: devfs_used_def upd_dev_def Let_def)

lemma cache_getblock_heap: "cache_getblock fd lsn s = Some (b, s') \<Longrightarrow> heap_ok s' = heap_ok s"
  unfolding cache_getblock_def Let_def
  by (auto simp: seterr_def to_front_def mq_send_def Let_def split: if_splits option.splits prod.splits Option.bind_splits)

lemma readblock_device_heap: "readblock_device fd f lsn s = Some (b, s') \<Longrightarrow> heap_ok s' = heap_ok s"
  unfolding readblock_device_def Let_def
  by (auto simp: seterr_def getentropy_def devfs_used_heap dest!: cache_getblock_heap split: if_splits)

lemma readblock_file_heap: "readblock_file [] fd f lsn s = Some (b, s') \<Longrightarrow> heap_ok s' = heap_ok s"
  unfolding readblock_file_def Let_def drv_def
  by (auto simp: seterr_def devfs_used_heap upd_fcb_def at_def split: if_splits option.splits prod.splits Option.bind_splits)

lemma heap_kept_Nil: "heap_kept [] fd"
  unfolding heap_kept_def readblock_def Let_def
  by (auto simp: seterr_def split: if_splits dest: readblock_device_heap readblock_file_heap)

end
