(* ===== verification/Spec2Isabelle.thy ===== *)
theory Spec2Isabelle
  imports Core_Pmm Core_Sched_Fair Core_Libc Core_Env Core_Msg_Prop Core_Vmm_Prop Libc_String Libc_Alloc Fs_Main Fs_Fsz_Prop
begin

text \<open>
  Verification of OS/Z, a message passing operating system for x86_64 and AArch64.

  The program. The core (\<^verbatim>\<open>src/core\<close>) manages physical memory, schedules tasks and carries messages
  between them; everything else is a task. Tasks use the C library (\<^verbatim>\<open>src/libc\<close>), which turns its
  calls into messages. The most important service is the file system task (\<^verbatim>\<open>src/fs\<close>): it keeps the
  tables of files, mounts, devices, pipes and open descriptors and answers one message after the
  other, with the help of file system drivers. A request that needs a block from a device is
  suspended and resumed when the driver delivers the block.

  Conventions. Machine integers are words of their width, so additions wrap as in the code. A
  structure is a record, a growing array a list, and linked structures whose pointer updates matter
  (scheduler queues, cache chains, task contexts) live in an explicit store. Operations take and return the
  state; \<open>None\<close> stands for a run that does not come back: an endless loop, an access through a wild
  pointer, or the end of the task. Loops that may not end are partial functions in the option type.

  Basis. \<^verbatim>\<open>Prelude\<close> has the integer types, theorem collections and general lemmas; \<^verbatim>\<open>Osz_Types\<close> the
  constants and message format of \<^verbatim>\<open>include/osZ\<close>; \<^verbatim>\<open>Cmem\<close> byte addressed memory and strings in it.

  The core.
  \<^item> \<^verbatim>\<open>Core_State\<close>: control blocks of tasks and CPUs, the queue header, the globals (\<^verbatim>\<open>core.h\<close>, \<^verbatim>\<open>task.h\<close>,
    \<^verbatim>\<open>ccb.h\<close>, \<^verbatim>\<open>msg.h\<close>).
  \<^item> \<^verbatim>\<open>Core_Pmm\<close> (\<^verbatim>\<open>pmm.c\<close>): the free list, \<open>pmm_init\<close>, \<open>pmm_alloc\<close>, \<open>pmm_allocslot\<close>, \<open>pmm_free\<close>. The list
    is abstracted to the multiset of its free pages; the locale \<open>page_allocator\<close> states what a client
    relies on, and is interpreted on the operations. Shown: first fit with exact bookkeeping, freeing
    with merging, round trip, aligned slots, start-up, and two ways in which pages are lost or given away.
  \<^item> \<^verbatim>\<open>Core_Sched\<close>, \<^verbatim>\<open>Core_Sched_Queues\<close>, \<^verbatim>\<open>Core_Sched_Fair\<close> (\<^verbatim>\<open>sched.c\<close>): all operations; the invariant
    of the linked queues and that adding, removing, blocking, waking and delaying keep it; the choice of the next task
    as a refinement of an abstract scheduler, from which it follows that no ready task starves; two
    defects of the sleep queue.
  \<^item> \<^verbatim>\<open>Core_Msg\<close>, \<^verbatim>\<open>Core_Msg_Queue\<close>, \<^verbatim>\<open>Core_Msg_Prop\<close> (\<^verbatim>\<open>msg.c\<close>): sending and receiving through a ring of 191
    slots. The locale \<open>lossy_fifo\<close> is the contract of a queue that loses what it holds when it overflows, interpreted on
    the ring. Shown: the ring refines such a queue under every interleaving, so that it is first in first out as long as no send meets a
    full ring; the exact effect of a send and a receive, and three ways in which messages are lost.
  \<^item> \<^verbatim>\<open>Core_Vmm\<close>, \<^verbatim>\<open>Core_Vmm_Prop\<close> (\<^verbatim>\<open>vmm.c\<close>, \<^verbatim>\<open>vmm_new\<close> of \<^verbatim>\<open>x86_64/vmm.c\<close>): page tables as pages of physical memory. The
    code reaches a table through a window that it maps first; the model uses the physical address, so the windows, the
    processor's registers and the flushing of its cache are left out. Shown for a tree of tables (\<open>tree\<close>): mapping
    less than a slot gives every page its frame and changes no other translation, setting one page does what the
    processor sees, exchanging the text segment moves four entries and is its own inverse.
  \<^item> \<^verbatim>\<open>Core_Security\<close> (\<^verbatim>\<open>security.c\<close>): which task may send which message.
  \<^item> \<^verbatim>\<open>Core_Libc\<close>, \<^verbatim>\<open>Core_Sprintf\<close> (\<^verbatim>\<open>libc.c\<close>): memory and string routines, formatted printing. The copying, filling and
    comparing loops over words and bytes are shown equal to their effect on lists of bytes, and printed numbers read back.
  \<^item> \<^verbatim>\<open>Core_Env\<close> (\<^verbatim>\<open>env.c\<close>): the parser of the boot parameters, the date editor and the boot time stamp. Shown: the time stamp
    agrees with a calendar given day by day and is UTC exactly for the zone zero, every text leaves the settings in range, the date editor
    ends and leaves no field of the date out of range.

  The library. \<^verbatim>\<open>Libc_Qsort\<close> (\<^verbatim>\<open>qsort.c\<close>) with the locale \<open>comparator\<close> for consistent comparison
  functions; \<^verbatim>\<open>Libc_Stdlib\<close> (\<^verbatim>\<open>stdlib.c\<close>): number conversion and binary search, which is shown to find what
  \<open>qsort\<close> has ordered; \<^verbatim>\<open>Libc_String\<close> (\<^verbatim>\<open>string.c\<close>): all string functions, with the round trip of UTF-8
  encoding; \<^verbatim>\<open>Libc_Crc32\<close> (\<^verbatim>\<open>crc32.h\<close>): the checksums with tables, equal to the remainders computed bit by bit; \<^verbatim>\<open>Libc_Alloc\<close> (\<^verbatim>\<open>bztalloc.c\<close>): the arenas, chunks and unit bitmaps of the allocator, and that what
  \<open>malloc\<close> hands out does not overlap anything in use.

  The file system service.
  \<^item> \<^verbatim>\<open>Fs_State\<close>: all tables of the service as one record; messages it sends are collected in \<open>outbox\<close>.
  \<^item> \<^verbatim>\<open>Fs_Fcb\<close>, \<^verbatim>\<open>Fs_Files\<close> (\<^verbatim>\<open>fcb.c\<close>): file control blocks, reference counts, unions, links and write buffers.
  \<^item> \<^verbatim>\<open>Fs_Cache\<close> (\<^verbatim>\<open>cache.c\<close>), \<^verbatim>\<open>Fs_Fsdrv\<close> (\<^verbatim>\<open>fsdrv.c\<close>), \<^verbatim>\<open>Fs_Devfs\<close> (\<^verbatim>\<open>devfs.c\<close>, whose comparison function is an
    instance of \<open>comparator\<close>), \<^verbatim>\<open>Fs_Pipe\<close> (\<^verbatim>\<open>pipe.c\<close>), \<^verbatim>\<open>Fs_Mtab\<close> (\<^verbatim>\<open>mtab.c\<close>).
  \<^item> \<^verbatim>\<open>Fs_Path\<close>, \<^verbatim>\<open>Fs_Vfs\<close> (\<^verbatim>\<open>vfs.c\<close>): canonical paths, block access and path lookup.
  \<^item> \<^verbatim>\<open>Fs_Taskctx\<close> (\<^verbatim>\<open>taskctx.c\<close>): contexts of tasks and their descriptors.
  \<^item> \<^verbatim>\<open>Fs_Main\<close> (\<^verbatim>\<open>main.c\<close>): one handler for each request, suspending and resuming, the loop.
  \<^item> \<^verbatim>\<open>Fs_Fsz\<close>, \<^verbatim>\<open>Fs_Fsz_Prop\<close> (\<^verbatim>\<open>drivers/fs/fsz/main.c\<close>): the driver for the file system of the boot disk, as a record of the table of
    drivers. Shown: damage of the superblock is found, a component enters the first entry that begins with it, a search on
    the ram disk returns a result and enters no more directories than its path is long, no file is read beyond its end, and directories are read back entry by entry.
  Shown: a control block that was added is found and released with its last reference, a buffered write changes
  exactly its bytes, a cached block is found with its data, the device list stays complete and ordered,
  a pipe is a queue of bytes for every sequence of operations, paths come out canonical, a descriptor that was opened is valid and was free, and changing the
  working directory does not leave the root directory of the task.

  Bounds. Path lookup follows links without a limit in the code; the model takes the number of restarts as
  an argument (\<open>e_fuel\<close> in the surroundings of the loop) and answers \<open>None\<close> when it is used up. One restart is
  used for each link or growth of the ram disk, one level for each union member, so a
  path without links or unions needs a bound of one.

  Not modelled. The start-up of the virtual memory manager, interrupt and fault code and the platforms work on
  device registers and processor tables through fixed addresses and inline assembly. The kernel debugger, disassemblers,
  console and boot log only produce output. The device drivers access ports and registers. The stream
  functions of the library are wrappers that send one message. The host tools are not part of
  the running system.
\<close>

end
